(* ===== verification/Prelude.thy ===== *)
theory Prelude
  imports Main "HOL-Library.Word"
begin

text \<open>
  What the component theories share: the machine integer types, the ways a run of the daemon can
  stop, the sequencing of fallible operations, the memory accesses with their bounds check, the
  predicate transformer with which the components state and prove their contracts, and the lemmas
  that move facts about 32-bit words to natural numbers.
\<close>

unbundle bit_operations_syntax

section \<open>Machine integers and bytes\<close>

type_synonym byte = "8 word"
type_synonym u32 = "32 word"

named_theorems word_to_nat \<open>equations that read word comparisons and arithmetic as naturals\<close>
named_theorems contract \<open>contracts of operations, used to sequence them\<close>

text \<open>C's \<^verbatim>\<open>MIN\<close> and \<^verbatim>\<open>MAX\<close> macros on unsigned values are \<^const>\<open>min\<close> and \<^const>\<open>max\<close>.\<close>

lemma unat_lt_u32 [simp]: "unat (x :: u32) < 4294967296"
  using unsigned_less [of x] by simp

lemma unat_lt_u8 [simp]: "unat (x :: byte) < 256"
  using unsigned_less [of x] by simp

lemma unat_add_u32 [word_to_nat]: "unat (x + y :: u32) = (unat x + unat y) mod 4294967296"
  by (simp add: unat_word_ariths)

lemma unat_sub_u32 [word_to_nat]:
  "unat (x - y :: u32) = (if unat y \<le> unat x then unat x - unat y
     else 4294967296 + unat x - unat y)"
  using unat_sub_if_size [of x y] by (auto simp: word_size)

lemma unat_mod_u32 [word_to_nat]: "unat (x mod y :: u32) = unat x mod unat y"
  by (simp add: unat_mod)

lemma unat_div_u32 [word_to_nat]: "unat (x div y :: u32) = unat x div unat y"
  by (simp add: unat_div)

lemma unat_min_u32 [word_to_nat]: "unat (min x y :: u32) = min (unat x) (unat y)"
  by (simp add: min_def word_le_nat_alt)

lemma unat_max_u32 [word_to_nat]: "unat (max x y :: u32) = max (unat x) (unat y)"
  by (simp add: max_def word_le_nat_alt)

lemma unat_mult_u32 [word_to_nat]: "unat (x * y :: u32) = (unat x * unat y) mod 4294967296"
  by (simp add: unat_word_ariths)

lemma unat_of_nat_u32 [word_to_nat]: "unat (of_nat n :: u32) = n mod 4294967296"
  by (simp add: unat_of_nat)

lemma unat_ucast_byte [word_to_nat]: "unat (ucast (x :: byte) :: u32) = unat x"
  by (simp add: unsigned_ucast_eq take_bit_nat_eq_self less_trans [OF unat_lt_u8])

lemmas word_cmp [word_to_nat] = word_le_nat_alt word_less_nat_alt

lemma u32_eq_iff: "(x :: u32) = y \<longleftrightarrow> unat x = unat y"
  by (simp add: word_unat_eq_iff)

section \<open>Ways a run stops\<close>

text \<open>
  \<^verbatim>\<open>dropbear_exit\<close> and \<^verbatim>\<open>dropbear_close\<close> do not return: the session ends (src/dropbear/src/dbutil.c).
  \<^verbatim>\<open>Assert_fail\<close> is a failed \<^verbatim>\<open>dropbear_assert\<close>. \<^verbatim>\<open>Mem_fault\<close> and \<^verbatim>\<open>Div_fault\<close> are C's undefined
  behaviour: an access outside an object, and a division by zero. \<^verbatim>\<open>Diverge\<close> is a loop that never
  ends. The argument of \<^verbatim>\<open>Exit\<close> and
  \<^verbatim>\<open>Close\<close> is the format string of the message.
\<close>

datatype fault = Exit string | Close string | Assert_fail | Mem_fault | Div_fault | Diverge

type_synonym 'a res = "fault + 'a"

fun rbind :: "'a res \<Rightarrow> ('a \<Rightarrow> 'b res) \<Rightarrow> 'b res" where
  "rbind (Inl e) f = Inl e"
| "rbind (Inr x) f = f x"

lemma rbind_eq_Inr [simp]: "rbind m f = Inr y \<longleftrightarrow> (\<exists>x. m = Inr x \<and> f x = Inr y)"
  by (cases m) auto

lemma rbind_eq_Inl: "rbind m f = Inl e \<longleftrightarrow> m = Inl e \<or> (\<exists>x. m = Inr x \<and> f x = Inl e)"
  by (cases m) auto

lemma rbind_assoc [simp]: "rbind (rbind m f) g = rbind m (\<lambda>x. rbind (f x) g)"
  by (cases m) auto

lemma rbind_cong [fundef_cong]:
  "m = n \<Longrightarrow> (\<And>x. n = Inr x \<Longrightarrow> f x = g x) \<Longrightarrow> rbind m f = rbind n g"
  by (cases n) auto

definition dropbear_assert :: "bool \<Rightarrow> unit res" where
  "dropbear_assert b = (if b then Inr () else Inl Assert_fail)"

lemma dropbear_assert_simps [simp]:
  "dropbear_assert True = Inr ()" "dropbear_assert False = Inl Assert_fail"
  "dropbear_assert b = Inr u \<longleftrightarrow> b"
  by (simp_all add: dropbear_assert_def)

text \<open>C's \<^verbatim>\<open>%\<close> on unsigned operands.\<close>

definition umod :: "u32 \<Rightarrow> u32 \<Rightarrow> u32 res" where
  "umod x y = (if y = 0 then Inl Div_fault else Inr (x mod y))"

section \<open>Memory\<close>

text \<open>
  Reading \<open>n\<close> bytes at offset \<open>off\<close> of an object, and \<^verbatim>\<open>memcpy\<close> of \<open>bs\<close> to offset \<open>off\<close>. An access
  that is not inside the object is a fault.
\<close>

definition rd_mem :: "byte list \<Rightarrow> nat \<Rightarrow> nat \<Rightarrow> byte list res" where
  "rd_mem m off n = (if off + n \<le> length m then Inr (take n (drop off m)) else Inl Mem_fault)"

definition wr_mem :: "byte list \<Rightarrow> nat \<Rightarrow> byte list \<Rightarrow> byte list res" where
  "wr_mem m off bs = (if off + length bs \<le> length m
     then Inr (take off m @ bs @ drop (off + length bs) m) else Inl Mem_fault)"

lemma wr_mem_length: "wr_mem m off bs = Inr m' \<Longrightarrow> length m' = length m"
  by (auto simp: wr_mem_def split: if_splits)

lemma rd_mem_length: "rd_mem m off n = Inr bs \<Longrightarrow> length bs = n"
  by (auto simp: rd_mem_def split: if_splits)

lemma wr_then_rd:
  "wr_mem m off bs = Inr m' \<Longrightarrow> rd_mem m' off (length bs) = Inr bs"
  by (auto simp: wr_mem_def rd_mem_def split: if_splits)

section \<open>Contracts\<close>

text \<open>
  \<open>res_sat E P r\<close>: if \<open>r\<close> is a fault it is one of those in \<open>E\<close>, otherwise its value satisfies \<open>P\<close>.
  \<open>safe\<close> allows only orderly exits; \<open>memsafe\<close> also allows a failed \<^verbatim>\<open>dropbear_assert\<close>, which is a
  checked exit too, but neither undefined behaviour nor a loop without end.
\<close>

fun res_sat :: "(fault \<Rightarrow> bool) \<Rightarrow> ('a \<Rightarrow> bool) \<Rightarrow> 'a res \<Rightarrow> bool" where
  "res_sat E P (Inl e) = E e"
| "res_sat E P (Inr x) = P x"

fun orderly :: "fault \<Rightarrow> bool" where
  "orderly (Exit m) = True"
| "orderly (Close m) = True"
| "orderly Assert_fail = False"
| "orderly Mem_fault = False"
| "orderly Div_fault = False"
| "orderly Diverge = False"

definition defined_fault :: "fault \<Rightarrow> bool" where
  "defined_fault e \<longleftrightarrow> e \<noteq> Mem_fault \<and> e \<noteq> Div_fault \<and> e \<noteq> Diverge"

abbreviation safe :: "('a \<Rightarrow> bool) \<Rightarrow> 'a res \<Rightarrow> bool" where
  "safe \<equiv> res_sat orderly"

abbreviation memsafe :: "('a \<Rightarrow> bool) \<Rightarrow> 'a res \<Rightarrow> bool" where
  "memsafe \<equiv> res_sat defined_fault"

lemma res_sat_rbind [simp]:
  "res_sat E Q (rbind m f) \<longleftrightarrow> res_sat E (\<lambda>x. res_sat E Q (f x)) m"
  by (cases m) auto

lemma res_sat_bindI:
  "res_sat E P m \<Longrightarrow> (\<And>x. P x \<Longrightarrow> res_sat E Q (f x)) \<Longrightarrow> res_sat E Q (rbind m f)"
  by (cases m) auto

lemma res_sat_bind2I:
  "res_sat E (\<lambda>(a, b). P a b) m \<Longrightarrow> (\<And>a b. P a b \<Longrightarrow> res_sat E Q (f a b)) \<Longrightarrow> res_sat E Q (rbind m (\<lambda>(a, b). f a b))"
  by (cases m) auto

lemma res_sat_if: "(b \<Longrightarrow> res_sat E Q x) \<Longrightarrow> (\<not> b \<Longrightarrow> res_sat E Q y) \<Longrightarrow> res_sat E Q (if b then x else y)"
  by simp

lemma res_sat_option:
  "(r = None \<Longrightarrow> res_sat E Q x) \<Longrightarrow> (\<And>a. r = Some a \<Longrightarrow> res_sat E Q (f a)) \<Longrightarrow> res_sat E Q (case r of None \<Rightarrow> x | Some a \<Rightarrow> f a)"
  by (cases r) auto

lemma res_sat_mono: "res_sat E P m \<Longrightarrow> (\<And>x. P x \<Longrightarrow> Q x) \<Longrightarrow> res_sat E Q m"
  by (cases m) auto

lemma res_sat_weaken:
  "res_sat E P m \<Longrightarrow> (\<And>e. E e \<Longrightarrow> F e) \<Longrightarrow> (\<And>x. P x \<Longrightarrow> Q x) \<Longrightarrow> res_sat F Q m"
  by (cases m) auto

lemma res_sat_conj: "res_sat E P m \<Longrightarrow> res_sat E Q m \<Longrightarrow> res_sat E (\<lambda>x. P x \<and> Q x) m"
  by (cases m) auto

lemma res_sat_Inr: "res_sat E P m \<Longrightarrow> m = Inr x \<Longrightarrow> P x"
  by simp

lemma res_sat_iff: "res_sat E P m \<longleftrightarrow> (\<forall>e. m = Inl e \<longrightarrow> E e) \<and> (\<forall>x. m = Inr x \<longrightarrow> P x)"
  by (cases m) auto

lemma orderly_defined: "orderly e \<Longrightarrow> defined_fault e"
  by (cases e) (auto simp: defined_fault_def)

lemma defined_fault_simps [simp]:
  "defined_fault (Exit m)" "defined_fault (Close m)" "defined_fault Assert_fail"
  "\<not> defined_fault Mem_fault" "\<not> defined_fault Div_fault" "\<not> defined_fault Diverge"
  by (auto simp: defined_fault_def)

lemma safe_memsafe: "safe P m \<Longrightarrow> memsafe P m"
  by (erule res_sat_weaken) (auto intro: orderly_defined)

lemma res_sat_assert [simp]:
  "res_sat E P (dropbear_assert b) \<longleftrightarrow> (if b then P () else E Assert_fail)"
  by (simp add: dropbear_assert_def)

lemma rd_mem_contract [contract]:
  "off + n \<le> length m \<Longrightarrow> safe (\<lambda>bs. length bs = n) (rd_mem m off n)"
  by (simp add: rd_mem_def)

lemma wr_mem_contract [contract]:
  "off + length bs \<le> length m \<Longrightarrow> safe (\<lambda>d. length d = length m) (wr_mem m off bs)"
  by (simp add: wr_mem_def)

section \<open>Loops\<close>

lemma unat_Suc_less: "(i :: u32) < n \<Longrightarrow> unat (i + 1) = Suc (unat i)"
proof -
  assume "i < n"
  then have "Suc (unat i) < 4294967296" using less_trans_Suc [of "unat i" "unat n" 4294967296] by (simp add: word_less_nat_alt)
  then show ?thesis by (simp add: unat_add_u32)
qed

text \<open>
  \<^verbatim>\<open>for (i = start; i < bound; i++)\<close> with an unsigned index and a bound that is read again in each round.
\<close>

function uloop :: "('s \<Rightarrow> u32) \<Rightarrow> (u32 \<Rightarrow> 's \<Rightarrow> 's res) \<Rightarrow> u32 \<Rightarrow> 's \<Rightarrow> 's res" where
  "uloop bound body i s = (if i < bound s then rbind (body i s) (\<lambda>s. uloop bound body (i + 1) s) else Inr s)"
  by pat_completeness auto

termination
  by (relation "measure (\<lambda>(bound, body, i, s). 4294967296 - unat i)")
    (auto dest!: unat_Suc_less intro: diff_less_mono2)

declare uloop.simps [simp del]

lemma res_sat_uloop:
  assumes "P s" and step: "\<And>i s. P s \<Longrightarrow> i < bound s \<Longrightarrow> res_sat E P (body i s)"
  shows "res_sat E P (uloop bound body i s)"
  using assms(1)
proof (induction "4294967296 - unat i" arbitrary: i s rule: less_induct)
  case less
  show ?case
  proof (cases "i < bound s")
    case True
    have "4294967296 - unat (i + 1) < 4294967296 - unat i"
      by (rule diff_less_mono2) (simp_all add: unat_Suc_less [OF True])
    then have "res_sat E (\<lambda>s. res_sat E P (uloop bound body (i + 1) s)) (body i s)"
      by (intro res_sat_mono [OF step [OF less.prems True]] less.hyps)
    then show ?thesis by (subst uloop.simps) (simp add: True)
  qed (subst uloop.simps, simp add: less.prems)
qed

section \<open>C strings\<close>

text \<open>
  A character string literal as the bytes the source's \<^verbatim>\<open>char\<close> array holds, and the part of an array
  before its first null byte, which is what \<^verbatim>\<open>strlen\<close>, \<^verbatim>\<open>strcmp\<close> and \<^verbatim>\<open>%s\<close> see.
\<close>

definition str :: "string \<Rightarrow> byte list" where
  "str s = map of_char s"

definition cstr :: "byte list \<Rightarrow> byte list" where
  "cstr bs = takeWhile (\<lambda>b. b \<noteq> 0) bs"

lemma length_str [simp]: "length (str s) = length s"
  by (simp add: str_def)

end
