(* ===== verification/Buffer.thy ===== *)
theory Buffer
  imports Prelude
begin

text \<open>
  The bounds-checked byte buffer of src/dropbear/src/buffer.c, through which every SSH message is
  built and parsed. \<open>buffer\<close> is \<^verbatim>\<open>struct buf\<close> with its 32-bit fields; each operation of the file is one
  definition that returns the updated buffer (with the value read, where there is one) or the way
  the daemon stops. A pointer into the buffer's memory is the offset it points to, and every access
  through one is checked against the memory the buffer owns, so that an operation without
  \<open>Mem_fault\<close> is one that stays inside its allocation.
\<close>

section \<open>The data\<close>

record buffer =
  buf_data :: "byte list"
  buf_len :: u32
  buf_pos :: u32
  buf_size :: u32

abbreviation BUF_MAX_INCR :: u32 where "BUF_MAX_INCR \<equiv> 1000000000"
abbreviation BUF_MAX_SIZE :: u32 where "BUF_MAX_SIZE \<equiv> 1000000000"
abbreviation BUF_MAX_MPINT :: u32 where "BUF_MAX_MPINT \<equiv> 1030"
abbreviation MAX_STRING_LEN :: u32 where "MAX_STRING_LEN \<equiv> 9000"

section \<open>Sizes and positions\<close>

definition buf_new :: "u32 \<Rightarrow> buffer res" where
  "buf_new sz = (if sz > BUF_MAX_SIZE then Inl (Exit ''buf->size too big'')
     else Inr \<lparr>buf_data = replicate (unat sz) 0, buf_len = 0, buf_pos = 0, buf_size = sz\<rparr>)"

text \<open>\<^verbatim>\<open>m_burn\<close> overwrites the memory before it is handed back; the value is what the allocator gets.\<close>

definition buf_burn_free :: "buffer \<Rightarrow> byte list res" where
  "buf_burn_free b = wr_mem (buf_data b) 0 (replicate (unat (buf_size b)) 0)"

text \<open>\<^verbatim>\<open>realloc\<close> leaves the bytes past the old size unspecified: they are the argument \<open>junk\<close>.\<close>

definition buf_resize :: "(nat \<Rightarrow> byte) \<Rightarrow> buffer \<Rightarrow> u32 \<Rightarrow> buffer res" where
  "buf_resize junk b newsize = (if newsize > BUF_MAX_SIZE then Inl (Exit ''buf->size too big'')
     else Inr (b\<lparr>buf_data := take (unat newsize) (buf_data b)
                     @ map junk [length (buf_data b) ..< unat newsize],
                 buf_size := newsize,
                 buf_len := min newsize (buf_len b),
                 buf_pos := min newsize (buf_pos b)\<rparr>))"

definition buf_newcopy :: "buffer \<Rightarrow> buffer res" where
  "buf_newcopy b = rbind (buf_new (buf_len b)) (\<lambda>ret.
     let ret = ret\<lparr>buf_len := buf_len b\<rparr> in
     if buf_len b > 0 then
       rbind (rd_mem (buf_data b) 0 (unat (buf_len b))) (\<lambda>bs.
       rbind (wr_mem (buf_data ret) 0 bs) (\<lambda>d. Inr (ret\<lparr>buf_data := d\<rparr>)))
     else Inr ret)"

definition buf_setlen :: "buffer \<Rightarrow> u32 \<Rightarrow> buffer res" where
  "buf_setlen b l = (if l > buf_size b then Inl (Exit ''Bad buf_setlen'')
     else Inr (b\<lparr>buf_len := l, buf_pos := min (buf_pos b) l\<rparr>))"

definition buf_incrlen :: "buffer \<Rightarrow> u32 \<Rightarrow> buffer res" where
  "buf_incrlen b incr = (if incr > BUF_MAX_INCR \<or> buf_len b + incr > buf_size b
     then Inl (Exit ''Bad buf_incrlen'')
     else Inr (b\<lparr>buf_len := buf_len b + incr\<rparr>))"

definition buf_setpos :: "buffer \<Rightarrow> u32 \<Rightarrow> buffer res" where
  "buf_setpos b p = (if p > buf_len b then Inl (Exit ''Bad buf_setpos'')
     else Inr (b\<lparr>buf_pos := p\<rparr>))"

definition buf_incrwritepos :: "buffer \<Rightarrow> u32 \<Rightarrow> buffer res" where
  "buf_incrwritepos b incr = (if incr > BUF_MAX_INCR \<or> buf_pos b + incr > buf_size b
     then Inl (Exit ''Bad buf_incrwritepos'')
     else (let b' = b\<lparr>buf_pos := buf_pos b + incr\<rparr> in
       if buf_pos b' > buf_len b' then Inr (b'\<lparr>buf_len := buf_pos b'\<rparr>) else Inr b'))"

definition buf_incrpos :: "buffer \<Rightarrow> u32 \<Rightarrow> buffer res" where
  "buf_incrpos b incr = (if incr > BUF_MAX_INCR \<or> buf_pos b + incr > buf_len b
     then Inl (Exit ''Bad buf_incrpos'')
     else Inr (b\<lparr>buf_pos := buf_pos b + incr\<rparr>))"

definition buf_decrpos :: "buffer \<Rightarrow> u32 \<Rightarrow> buffer res" where
  "buf_decrpos b decr = (if decr > buf_pos b then Inl (Exit ''Bad buf_decrpos'')
     else Inr (b\<lparr>buf_pos := buf_pos b - decr\<rparr>))"

section \<open>Bytes\<close>

definition buf_getbyte :: "buffer \<Rightarrow> (byte \<times> buffer) res" where
  "buf_getbyte b = (if buf_pos b \<ge> buf_len b then Inl (Exit ''Bad buf_getbyte'')
     else rbind (rd_mem (buf_data b) (unat (buf_pos b)) 1) (\<lambda>bs.
       Inr (hd bs, b\<lparr>buf_pos := buf_pos b + 1\<rparr>)))"

definition buf_getbool :: "buffer \<Rightarrow> (byte \<times> buffer) res" where
  "buf_getbool b = rbind (buf_getbyte b) (\<lambda>(c, b'). Inr (if c \<noteq> 0 then 1 else c, b'))"

definition buf_putbyte :: "buffer \<Rightarrow> byte \<Rightarrow> buffer res" where
  "buf_putbyte b val =
     rbind (if buf_pos b \<ge> buf_len b then buf_incrlen b 1 else Inr b) (\<lambda>b.
     rbind (wr_mem (buf_data b) (unat (buf_pos b)) [val]) (\<lambda>d.
     Inr (b\<lparr>buf_data := d, buf_pos := buf_pos b + 1\<rparr>)))"

definition buf_getptr :: "buffer \<Rightarrow> u32 \<Rightarrow> nat res" where
  "buf_getptr b l = (if l > BUF_MAX_INCR \<or> buf_pos b + l > buf_len b
     then Inl (Exit ''Bad buf_getptr'') else Inr (unat (buf_pos b)))"

definition buf_getwriteptr :: "buffer \<Rightarrow> u32 \<Rightarrow> nat res" where
  "buf_getwriteptr b l = (if l > BUF_MAX_INCR \<or> buf_pos b + l > buf_size b
     then Inl (Exit ''Bad buf_getwriteptr'') else Inr (unat (buf_pos b)))"

section \<open>Integers and strings\<close>

text \<open>The big-endian macros of src/dropbear/libtomcrypt/src/headers/tomcrypt\_macros.h.\<close>

definition STORE32H :: "u32 \<Rightarrow> byte list" where
  "STORE32H x = [ucast (drop_bit 24 x), ucast (drop_bit 16 x), ucast (drop_bit 8 x), ucast x]"

definition LOAD32H :: "byte list \<Rightarrow> u32" where
  "LOAD32H y = push_bit 24 (ucast (y ! 0)) OR push_bit 16 (ucast (y ! 1))
     OR push_bit 8 (ucast (y ! 2)) OR ucast (y ! 3)"

definition buf_getint :: "buffer \<Rightarrow> (u32 \<times> buffer) res" where
  "buf_getint b = rbind (buf_getptr b 4) (\<lambda>p.
     rbind (rd_mem (buf_data b) p 4) (\<lambda>bs.
     rbind (buf_incrpos b 4) (\<lambda>b'. Inr (LOAD32H bs, b'))))"

definition buf_putint :: "buffer \<Rightarrow> u32 \<Rightarrow> buffer res" where
  "buf_putint b val = rbind (buf_getwriteptr b 4) (\<lambda>p.
     rbind (wr_mem (buf_data b) p (STORE32H val)) (\<lambda>d.
     buf_incrwritepos (b\<lparr>buf_data := d\<rparr>) 4))"

definition buf_putbytes :: "buffer \<Rightarrow> byte list \<Rightarrow> u32 \<Rightarrow> buffer res" where
  "buf_putbytes b bytes l = rbind (buf_getwriteptr b l) (\<lambda>p.
     rbind (rd_mem bytes 0 (unat l)) (\<lambda>bs.
     rbind (wr_mem (buf_data b) p bs) (\<lambda>d.
     buf_incrwritepos (b\<lparr>buf_data := d\<rparr>) l)))"

definition buf_putstring :: "buffer \<Rightarrow> byte list \<Rightarrow> u32 \<Rightarrow> buffer res" where
  "buf_putstring b s l = rbind (buf_putint b l) (\<lambda>b. buf_putbytes b s l)"

definition buf_putbufstring :: "buffer \<Rightarrow> buffer \<Rightarrow> buffer res" where
  "buf_putbufstring b buf_str = buf_putstring b (buf_data buf_str) (buf_len buf_str)"

text \<open>
  The string read is the \<open>len\<close> bytes copied, which the source follows with a null byte in an
  allocation of \<open>len + 1\<close>; \<^verbatim>\<open>*retlen\<close> is the second component.
\<close>

definition buf_getstring :: "buffer \<Rightarrow> (byte list \<times> u32 \<times> buffer) res" where
  "buf_getstring b = rbind (buf_getint b) (\<lambda>(l, b).
     if l > MAX_STRING_LEN then Inl (Exit ''String too long'')
     else rbind (buf_getptr b l) (\<lambda>src.
       rbind (rd_mem (buf_data b) src (unat l)) (\<lambda>bs.
       rbind (buf_incrpos b l) (\<lambda>b. Inr (bs, l, b)))))"

definition buf_getstringbuf_int :: "buffer \<Rightarrow> bool \<Rightarrow> (buffer \<times> buffer) res" where
  "buf_getstringbuf_int b incllen = rbind (buf_getint b) (\<lambda>(l, b).
     if l > MAX_STRING_LEN then Inl (Exit ''String too long'')
     else rbind (buf_new (l + (if incllen then 4 else 0))) (\<lambda>ret.
       rbind (if incllen then buf_putint ret l else Inr ret) (\<lambda>ret.
       rbind (buf_getwriteptr ret l) (\<lambda>w.
       rbind (buf_getptr b l) (\<lambda>r.
       rbind (rd_mem (buf_data b) r (unat l)) (\<lambda>bs.
       rbind (wr_mem (buf_data ret) w bs) (\<lambda>d.
       rbind (buf_incrpos b l) (\<lambda>b.
       rbind (buf_incrlen (ret\<lparr>buf_data := d\<rparr>) l) (\<lambda>ret.
       rbind (buf_setpos ret 0) (\<lambda>ret. Inr (ret, b)))))))))))"

definition buf_getstringbuf :: "buffer \<Rightarrow> (buffer \<times> buffer) res" where
  "buf_getstringbuf b = buf_getstringbuf_int b False"

definition buf_getbuf :: "buffer \<Rightarrow> (buffer \<times> buffer) res" where
  "buf_getbuf b = buf_getstringbuf_int b True"

definition buf_getptrcopy :: "buffer \<Rightarrow> u32 \<Rightarrow> buffer res" where
  "buf_getptrcopy b l = rbind (buf_getptr b l) (\<lambda>src.
     rbind (buf_new l) (\<lambda>ret.
     rbind (buf_putbytes ret (drop src (buf_data b)) l) (\<lambda>ret. buf_setpos ret 0)))"

definition buf_eatstring :: "buffer \<Rightarrow> buffer res" where
  "buf_eatstring b = rbind (buf_getint b) (\<lambda>(l, b). buf_incrpos b l)"

section \<open>Multiple-precision integers\<close>

text \<open>
  An \<^verbatim>\<open>mp_int\<close> is the integer it represents. The three functions of the bundled LibTomMath the buffer
  uses are stated on that value: the bit count (bn\_mp\_count\_bits.c), the byte count
  (bn\_mp\_ubin\_size.c), the big-endian bytes, least significant first from the end of the array
  (bn\_mp\_to\_ubin.c), and their reading, one byte shifted in at a time (bn\_mp\_from\_ubin.c).
\<close>

fun mp_count_bits :: "nat \<Rightarrow> nat" where
  "mp_count_bits q = (if q = 0 then 0 else Suc (mp_count_bits (q div 2)))"

declare mp_count_bits.simps [simp del]

definition mp_ubin_size :: "nat \<Rightarrow> nat" where
  "mp_ubin_size a = (let sz = mp_count_bits a in sz div 8 + (if sz mod 8 \<noteq> 0 then 1 else 0))"

fun ubin_bytes :: "nat \<Rightarrow> nat \<Rightarrow> byte list" where
  "ubin_bytes 0 t = []"
| "ubin_bytes (Suc x) t = ubin_bytes x (t div 256) @ [of_nat (t mod 256)]"

definition mp_to_ubin :: "nat \<Rightarrow> nat \<Rightarrow> byte list option" where
  "mp_to_ubin a maxlen = (let count = mp_ubin_size a in
     if count > maxlen then None else Some (ubin_bytes count a))"

definition mp_from_ubin :: "byte list \<Rightarrow> nat" where
  "mp_from_ubin bs = foldl (\<lambda>a c. a * 256 + unat c) 0 bs"

definition buf_putmpint :: "buffer \<Rightarrow> int \<Rightarrow> buffer res" where
  "buf_putmpint b mp = (if mp < 0 then Inl (Exit ''negative bignum'')
     else let bits = mp_count_bits (nat mp);
              pad = (if mp = 0 then 0 else if bits mod 8 = 0 then 1 else 0);
              len = (if mp = 0 then 0 else bits div 8 + 1) in
       rbind (buf_putint b (of_nat len)) (\<lambda>b.
       if len > 0 then
         rbind (if pad = 1 then buf_putbyte b 0 else Inr b) (\<lambda>b.
         rbind (buf_getwriteptr b (of_nat (len - pad))) (\<lambda>p.
         case mp_to_ubin (nat mp) (len - pad) of
           None \<Rightarrow> Inl (Exit ''mpint error'')
         | Some bs \<Rightarrow> rbind (wr_mem (buf_data b) p bs) (\<lambda>d.
             buf_incrwritepos (b\<lparr>buf_data := d\<rparr>) (of_nat (length bs)))))
       else Inr b))"

text \<open>\<open>None\<close> in the first component is \<^verbatim>\<open>DROPBEAR_FAILURE\<close>.\<close>

definition buf_getmpint :: "buffer \<Rightarrow> (int option \<times> buffer) res" where
  "buf_getmpint b = rbind (buf_getint b) (\<lambda>(l, b).
     if l = 0 then Inr (Some 0, b)
     else if l > BUF_MAX_MPINT then Inr (None, b)
     else rbind (buf_getptr b 1) (\<lambda>p.
       rbind (rd_mem (buf_data b) p 1) (\<lambda>top.
       if hd top AND 128 \<noteq> 0 then Inr (None, b)
       else rbind (buf_getptr b l) (\<lambda>p.
         rbind (rd_mem (buf_data b) p (unat l)) (\<lambda>bs.
         rbind (buf_incrpos b l) (\<lambda>b. Inr (Some (int (mp_from_ubin bs)), b)))))))"

section \<open>The invariant and the no-wrap reading of the checks\<close>

definition buf_ok :: "buffer \<Rightarrow> bool" where
  "buf_ok b \<longleftrightarrow> length (buf_data b) = unat (buf_size b) \<and> unat (buf_pos b) \<le> unat (buf_len b)
     \<and> unat (buf_len b) \<le> unat (buf_size b) \<and> unat (buf_size b) \<le> 1000000000"

text \<open>
  The sums in the checks are 32-bit sums. Under the invariant the \<^verbatim>\<open>BUF_MAX_INCR\<close> backstop makes each
  check mean what it says on naturals.
\<close>

lemma add_no_wrap:
  "unat (x :: u32) \<le> 1000000000 \<Longrightarrow> unat y \<le> 1000000000 \<Longrightarrow> unat (x + y) = unat x + unat y"
  by (simp add: unat_add_u32)

lemma incr_check:
  assumes "unat (x :: u32) \<le> 1000000000" and "unat (z :: u32) \<le> 1000000000"
  shows "(y > BUF_MAX_INCR \<or> x + y > z) \<longleftrightarrow> unat x + unat y > unat z"
proof (cases "unat y \<le> 1000000000")
  case True
  with assms show ?thesis
    by (simp add: word_less_nat_alt add_no_wrap)
next
  case False
  with assms show ?thesis
    by (simp add: word_less_nat_alt)
qed

definition adv :: "buffer \<Rightarrow> nat \<Rightarrow> buffer" where
  "adv b n = b\<lparr>buf_pos := buf_pos b + of_nat n\<rparr>"

definition put_at :: "buffer \<Rightarrow> byte list \<Rightarrow> buffer" where
  "put_at b bs = b\<lparr>buf_data := take (unat (buf_pos b)) (buf_data b) @ bs
                     @ drop (unat (buf_pos b) + length bs) (buf_data b),
                   buf_pos := buf_pos b + of_nat (length bs),
                   buf_len := max (buf_len b) (buf_pos b + of_nat (length bs))\<rparr>"

text \<open>The bytes between the position and the end of the used part: what is left to read.\<close>

definition buf_rest :: "buffer \<Rightarrow> byte list" where
  "buf_rest b = take (unat (buf_len b) - unat (buf_pos b)) (drop (unat (buf_pos b)) (buf_data b))"

lemma length_buf_rest: "buf_ok b \<Longrightarrow> length (buf_rest b) = unat (buf_len b) - unat (buf_pos b)"
  by (auto simp: buf_ok_def buf_rest_def)

lemma adv_fields [simp]:
  "buf_data (adv b n) = buf_data b" "buf_len (adv b n) = buf_len b" "buf_size (adv b n) = buf_size b"
  by (simp_all add: adv_def)

lemma unat_pos_adv:
  "buf_ok b \<Longrightarrow> n \<le> length (buf_rest b) \<Longrightarrow> unat (buf_pos (adv b n)) = unat (buf_pos b) + n"
  by (auto simp: adv_def length_buf_rest buf_ok_def word_to_nat)

lemma buf_ok_adv: "buf_ok b \<Longrightarrow> n \<le> length (buf_rest b) \<Longrightarrow> buf_ok (adv b n)"
  using unat_pos_adv [of b n] length_buf_rest [of b] by (auto simp: buf_ok_def)

lemma buf_rest_adv:
  assumes "buf_ok b" and "n \<le> length (buf_rest b)"
  shows "buf_rest (adv b n) = drop n (buf_rest b)"
  using unat_pos_adv [OF assms]
  by (simp add: buf_rest_def drop_take add.commute)

lemma adv_adv: "adv (adv b m) n = adv b (m + n)"
  by (simp add: adv_def add.assoc)

lemma unat_pos_put_at:
  assumes "buf_ok b" and "unat (buf_pos b) + length bs \<le> unat (buf_size b)"
  shows "unat (buf_pos b + of_nat (length bs)) = unat (buf_pos b) + length bs"
  using assms by (simp add: buf_ok_def word_to_nat)

lemma put_at_fields:
  assumes "buf_ok b" and "unat (buf_pos b) + length bs \<le> unat (buf_size b)"
  shows "unat (buf_pos (put_at b bs)) = unat (buf_pos b) + length bs"
    and "unat (buf_len (put_at b bs)) = max (unat (buf_len b)) (unat (buf_pos b) + length bs)"
    and "buf_size (put_at b bs) = buf_size b"
  using unat_pos_put_at [OF assms] by (simp_all add: put_at_def unat_max_u32)

lemma buf_ok_put_at:
  assumes "buf_ok b" and "unat (buf_pos b) + length bs \<le> unat (buf_size b)"
  shows "buf_ok (put_at b bs)"
proof -
  have "length (buf_data (put_at b bs)) = unat (buf_size b)"
    using assms by (simp add: put_at_def buf_ok_def)
  with put_at_fields [OF assms] assms show ?thesis
    by (simp add: buf_ok_def)
qed

lemma put_at_put_at:
  assumes "buf_ok b" and "unat (buf_pos b) + length xs + length ys \<le> unat (buf_size b)"
  shows "put_at (put_at b xs) ys = put_at b (xs @ ys)"
proof -
  have p: "unat (buf_pos b + of_nat (length xs)) = unat (buf_pos b) + length xs"
    using assms by (intro unat_pos_put_at) auto
  have q: "unat (buf_pos b + (of_nat (length xs) + of_nat (length ys)))
      = unat (buf_pos b) + length xs + length ys"
    using unat_pos_put_at [of b "xs @ ys"] assms by simp
  have d: "length (buf_data b) = unat (buf_size b)"
    using assms by (simp add: buf_ok_def)
  have m: "max (max (buf_len b) (buf_pos b + of_nat (length xs)))
        (buf_pos b + (of_nat (length xs) + of_nat (length ys)))
      = max (buf_len b) (buf_pos b + (of_nat (length xs) + of_nat (length ys)))"
    by (auto simp: max_def word_le_nat_alt p q)
  show ?thesis
    using assms d by (simp add: put_at_def p m add.assoc) (simp add: ac_simps)
qed

text \<open>Reading back what was put: the written bytes come first, then what the buffer had after them.\<close>

lemma buf_rest_put_at:
  assumes "buf_ok b" and "unat (buf_pos b) + length bs \<le> unat (buf_size b)"
  shows "buf_rest ((put_at b bs)\<lparr>buf_pos := buf_pos b\<rparr>) = bs @ drop (length bs) (buf_rest b)"
proof -
  have d: "length (buf_data b) = unat (buf_size b)" and l: "unat (buf_len b) \<le> unat (buf_size b)"
    using assms by (simp_all add: buf_ok_def)
  show ?thesis
    using put_at_fields(2) [OF assms] assms(2) d l
    by (simp add: buf_rest_def) (auto simp: put_at_def drop_take add.commute max_def)
qed

lemma buf_ok_reset: "buf_ok b \<Longrightarrow> unat p \<le> unat (buf_len b) \<Longrightarrow> buf_ok (b\<lparr>buf_pos := p\<rparr>)"
  by (simp add: buf_ok_def)

section \<open>What each operation does on a well-formed buffer\<close>

lemma buf_getptr_eq:
  "buf_ok b \<Longrightarrow> buf_getptr b l = (if unat l \<le> length (buf_rest b) then Inr (unat (buf_pos b))
     else Inl (Exit ''Bad buf_getptr''))"
  using incr_check [of "buf_pos b" "buf_len b" l] length_buf_rest [of b]
  by (auto simp: buf_getptr_def buf_ok_def)

lemma buf_incrpos_eq:
  "buf_ok b \<Longrightarrow> buf_incrpos b l = (if unat l \<le> length (buf_rest b) then Inr (adv b (unat l))
     else Inl (Exit ''Bad buf_incrpos''))"
  using incr_check [of "buf_pos b" "buf_len b" l] length_buf_rest [of b]
  by (auto simp: buf_incrpos_def buf_ok_def adv_def)

lemma buf_getwriteptr_eq:
  "buf_ok b \<Longrightarrow> buf_getwriteptr b l = (if unat (buf_pos b) + unat l \<le> unat (buf_size b)
     then Inr (unat (buf_pos b)) else Inl (Exit ''Bad buf_getwriteptr''))"
  using incr_check [of "buf_pos b" "buf_size b" l]
  by (auto simp: buf_getwriteptr_def buf_ok_def)

lemma buf_incrwritepos_eq:
  assumes "buf_ok b"
  shows "buf_incrwritepos b l = (if unat (buf_pos b) + unat l \<le> unat (buf_size b)
     then Inr (b\<lparr>buf_pos := buf_pos b + l, buf_len := max (buf_len b) (buf_pos b + l)\<rparr>)
     else Inl (Exit ''Bad buf_incrwritepos''))"
  using incr_check [of "buf_pos b" "buf_size b" l] assms
  by (auto simp: buf_incrwritepos_def buf_ok_def Let_def max_def)

lemma buf_incrlen_eq:
  "buf_ok b \<Longrightarrow> buf_incrlen b l = (if unat (buf_len b) + unat l \<le> unat (buf_size b)
     then Inr (b\<lparr>buf_len := buf_len b + l\<rparr>) else Inl (Exit ''Bad buf_incrlen''))"
  using incr_check [of "buf_len b" "buf_size b" l]
  by (auto simp: buf_incrlen_def buf_ok_def)

lemma rd_rest:
  "buf_ok b \<Longrightarrow> n \<le> length (buf_rest b) \<Longrightarrow>
    rd_mem (buf_data b) (unat (buf_pos b)) n = Inr (take n (buf_rest b))"
  using length_buf_rest [of b] by (auto simp: rd_mem_def buf_ok_def buf_rest_def)

lemma wr_incr_eq_put_at:
  assumes "buf_ok b" and "unat (buf_pos b) + length bs \<le> unat (buf_size b)"
  shows "rbind (wr_mem (buf_data b) (unat (buf_pos b)) bs)
      (\<lambda>d. buf_incrwritepos (b\<lparr>buf_data := d\<rparr>) (of_nat (length bs))) = Inr (put_at b bs)"
proof -
  define d where "d = take (unat (buf_pos b)) (buf_data b) @ bs
    @ drop (unat (buf_pos b) + length bs) (buf_data b)"
  have w: "wr_mem (buf_data b) (unat (buf_pos b)) bs = Inr d"
    using assms by (simp add: wr_mem_def buf_ok_def d_def)
  have "length d = unat (buf_size b)"
    using wr_mem_length [OF w] assms by (simp add: buf_ok_def)
  with assms have ok: "buf_ok (b\<lparr>buf_data := d\<rparr>)"
    by (simp add: buf_ok_def)
  have "unat (of_nat (length bs) :: u32) = length bs"
    using assms by (simp add: unat_of_nat_u32 buf_ok_def)
  with w ok assms show ?thesis
    by (simp add: buf_incrwritepos_eq put_at_def d_def)
qed

lemma buf_putbytes_eq:
  assumes "buf_ok b" and "unat l \<le> length bytes"
  shows "buf_putbytes b bytes l = (if unat (buf_pos b) + unat l \<le> unat (buf_size b)
     then Inr (put_at b (take (unat l) bytes)) else Inl (Exit ''Bad buf_getwriteptr''))"
  using wr_incr_eq_put_at [of b "take (unat l) bytes"] assms
  by (simp add: buf_putbytes_def buf_getwriteptr_eq rd_mem_def)

lemma length_STORE32H [simp]: "length (STORE32H x) = 4"
  by (simp add: STORE32H_def)

lemma buf_putint_eq:
  "buf_ok b \<Longrightarrow> buf_putint b v = (if unat (buf_pos b) + 4 \<le> unat (buf_size b)
     then Inr (put_at b (STORE32H v)) else Inl (Exit ''Bad buf_getwriteptr''))"
  using wr_incr_eq_put_at [of b "STORE32H v"]
  by (simp add: buf_putint_def buf_getwriteptr_eq)

lemma buf_putbyte_eq:
  assumes "buf_ok b"
  shows "buf_putbyte b v = (if unat (buf_pos b) + 1 \<le> unat (buf_size b)
     then Inr (put_at b [v]) else Inl (Exit ''Bad buf_incrlen''))"
proof (cases "buf_pos b \<ge> buf_len b")
  case True
  with assms have e: "buf_len b = buf_pos b"
    by (simp add: buf_ok_def word_le_nat_alt u32_eq_iff)
  have "unat (buf_pos b) + 1 \<le> unat (buf_size b) \<Longrightarrow> buf_pos b \<le> buf_pos b + 1"
    using unat_pos_put_at [OF assms, of "[v]"] by (simp add: word_le_nat_alt)
  with e assms show ?thesis
    by (auto simp: buf_putbyte_def buf_incrlen_eq wr_mem_def put_at_def buf_ok_def max_def)
next
  case False
  then have lt: "unat (buf_pos b) < unat (buf_len b)"
    by (simp add: word_le_nat_alt)
  then have fits: "unat (buf_pos b) + length [v] \<le> unat (buf_size b)"
    using assms by (simp add: buf_ok_def)
  have "max (buf_len b) (buf_pos b + 1) = buf_len b"
    using unat_pos_put_at [OF assms fits] lt by (auto simp: max_def word_le_nat_alt u32_eq_iff)
  with False fits assms show ?thesis
    by (simp add: buf_putbyte_def wr_mem_def put_at_def buf_ok_def)
qed

lemma buf_putstring_eq:
  assumes "buf_ok b" and "unat l \<le> length s" and "unat (buf_pos b) + 4 + unat l \<le> unat (buf_size b)"
  shows "buf_putstring b s l = Inr (put_at b (STORE32H l @ take (unat l) s))"
proof -
  have "unat (buf_pos b) + length (STORE32H l) \<le> unat (buf_size b)"
    using assms by simp
  note ok = buf_ok_put_at [OF assms(1) this] and f = put_at_fields [OF assms(1) this]
  have "buf_putbytes (put_at b (STORE32H l)) s l
      = Inr (put_at (put_at b (STORE32H l)) (take (unat l) s))"
    using assms f by (simp add: buf_putbytes_eq [OF ok])
  then show ?thesis
    using assms by (simp add: buf_putstring_def buf_putint_eq put_at_put_at)
qed

lemma buf_getbyte_eq:
  assumes "buf_ok b"
  shows "buf_getbyte b = (if buf_rest b = [] then Inl (Exit ''Bad buf_getbyte'')
     else Inr (hd (buf_rest b), adv b 1))"
proof (cases "buf_rest b")
  case Nil
  then have "buf_len b \<le> buf_pos b"
    using length_buf_rest [OF assms] by (simp add: word_le_nat_alt)
  with Nil show ?thesis by (simp add: buf_getbyte_def)
next
  case (Cons x xs)
  then have "\<not> buf_len b \<le> buf_pos b"
    using length_buf_rest [OF assms] by (simp add: word_le_nat_alt)
  with Cons rd_rest [OF assms, of 1] show ?thesis
    by (simp add: buf_getbyte_def adv_def)
qed

lemma buf_getint_eq:
  "buf_ok b \<Longrightarrow> buf_getint b = (if 4 \<le> length (buf_rest b)
     then Inr (LOAD32H (take 4 (buf_rest b)), adv b 4) else Inl (Exit ''Bad buf_getptr''))"
  using rd_rest [of b 4] by (simp add: buf_getint_def buf_getptr_eq buf_incrpos_eq)

lemma buf_setpos_eq:
  "buf_setpos b p = (if unat p \<le> unat (buf_len b) then Inr (b\<lparr>buf_pos := p\<rparr>)
     else Inl (Exit ''Bad buf_setpos''))"
  by (simp add: buf_setpos_def word_less_nat_alt)

lemma buf_setlen_eq:
  "buf_setlen b l = (if unat l \<le> unat (buf_size b) then Inr (b\<lparr>buf_len := l, buf_pos := min (buf_pos b) l\<rparr>)
     else Inl (Exit ''Bad buf_setlen''))"
  by (simp add: buf_setlen_def word_less_nat_alt)

lemma LOAD32H_STORE32H [simp]: "LOAD32H (STORE32H x) = x"
proof (rule bit_word_eqI)
  fix n assume "n < LENGTH(32)"
  then have n: "n < 32" by simp
  consider "n < 8" | "8 \<le> n" "n < 16" | "16 \<le> n" "n < 24" | "24 \<le> n"
    using n by linarith
  then show "bit (LOAD32H (STORE32H x)) n = bit x n"
    using n
    by cases (auto simp: LOAD32H_def STORE32H_def bit_or_iff bit_push_bit_iff bit_ucast_iff
        bit_drop_bit_eq)
qed

section \<open>Contracts: the invariant is kept and no access leaves the buffer\<close>

lemma buf_new_contract [contract]:
  "safe (\<lambda>b. buf_ok b \<and> buf_pos b = 0 \<and> buf_len b = 0 \<and> buf_size b = sz) (buf_new sz)"
  by (simp add: buf_new_def buf_ok_def word_less_nat_alt)

lemma buf_resize_contract [contract]:
  "buf_ok b \<Longrightarrow> safe buf_ok (buf_resize junk b sz)"
  by (auto simp: buf_resize_def buf_ok_def word_less_nat_alt unat_min_u32)

lemma buf_newcopy_contract [contract]:
  assumes "buf_ok b"
  shows "safe (\<lambda>r. buf_ok r \<and> buf_pos r = 0 \<and> buf_len r = buf_len b
      \<and> buf_data r = take (unat (buf_len b)) (buf_data b)) (buf_newcopy b)"
proof (cases "buf_len b > 0")
  case True
  with assms show ?thesis
    by (auto simp: buf_newcopy_def buf_new_def rd_mem_def wr_mem_def buf_ok_def word_less_nat_alt)
next
  case False
  then have "unat (buf_len b) = 0" by (simp add: word_less_nat_alt)
  with assms show ?thesis
    by (auto simp: buf_newcopy_def buf_new_def buf_ok_def word_less_nat_alt Let_def)
qed

lemma buf_setlen_contract [contract]: "buf_ok b \<Longrightarrow> safe buf_ok (buf_setlen b l)"
  by (simp add: buf_setlen_def buf_ok_def word_less_nat_alt unat_min_u32)

lemma buf_setpos_contract [contract]: "buf_ok b \<Longrightarrow> safe buf_ok (buf_setpos b p)"
  by (simp add: buf_setpos_def buf_ok_def word_less_nat_alt)

lemma buf_incrlen_contract [contract]: "buf_ok b \<Longrightarrow> safe buf_ok (buf_incrlen b l)"
  by (auto simp: buf_incrlen_eq) (auto simp: buf_ok_def unat_add_u32)

lemma buf_incrwritepos_contract [contract]: "buf_ok b \<Longrightarrow> safe buf_ok (buf_incrwritepos b l)"
  by (auto simp: buf_incrwritepos_eq) (auto simp: buf_ok_def unat_add_u32 unat_max_u32)

lemma buf_incrpos_contract [contract]: "buf_ok b \<Longrightarrow> safe buf_ok (buf_incrpos b l)"
  by (auto simp: buf_incrpos_eq buf_ok_adv)

lemma buf_decrpos_contract [contract]: "buf_ok b \<Longrightarrow> safe buf_ok (buf_decrpos b l)"
  by (auto simp: buf_decrpos_def buf_ok_def word_to_nat)

lemma buf_getbyte_contract [contract]: "buf_ok b \<Longrightarrow> safe (\<lambda>(v, b'). buf_ok b') (buf_getbyte b)"
  by (auto simp: buf_getbyte_eq Suc_le_eq intro: buf_ok_adv)

lemma buf_getbool_contract [contract]:
  "buf_ok b \<Longrightarrow> safe (\<lambda>(v, b'). (v = 0 \<or> v = 1) \<and> buf_ok b') (buf_getbool b)"
  by (auto simp: buf_getbool_def buf_getbyte_eq Suc_le_eq intro: buf_ok_adv)

lemma buf_putbyte_contract [contract]: "buf_ok b \<Longrightarrow> safe buf_ok (buf_putbyte b v)"
  by (auto simp: buf_putbyte_eq intro: buf_ok_put_at)

lemma buf_getint_contract [contract]: "buf_ok b \<Longrightarrow> safe (\<lambda>(v, b'). buf_ok b') (buf_getint b)"
  by (auto simp: buf_getint_eq intro: buf_ok_adv)

lemma buf_putint_contract [contract]: "buf_ok b \<Longrightarrow> safe buf_ok (buf_putint b v)"
  by (auto simp: buf_putint_eq intro: buf_ok_put_at)

lemma buf_putbytes_contract [contract]:
  "buf_ok b \<Longrightarrow> unat l \<le> length bs \<Longrightarrow> safe buf_ok (buf_putbytes b bs l)"
  by (auto simp: buf_putbytes_eq intro: buf_ok_put_at)

lemma buf_putstring_contract [contract]:
  assumes "buf_ok b" and "unat l \<le> length bs"
  shows "safe buf_ok (buf_putstring b bs l)"
  using buf_putint_contract [OF assms(1), of l] assms(2)
  by (auto simp: buf_putstring_def intro: buf_putbytes_contract elim: res_sat_mono)

lemma buf_putbufstring_contract [contract]:
  "buf_ok b \<Longrightarrow> buf_ok c \<Longrightarrow> safe buf_ok (buf_putbufstring b c)"
  using buf_putstring_contract [of b "buf_len c" "buf_data c"]
  by (simp add: buf_putbufstring_def buf_ok_def)

lemma buf_eatstring_contract [contract]: "buf_ok b \<Longrightarrow> safe buf_ok (buf_eatstring b)"
  by (auto simp: buf_eatstring_def buf_getint_eq buf_incrpos_eq buf_ok_adv)

lemma buf_getstring_eq:
  assumes "buf_ok b"
  shows "buf_getstring b = (if length (buf_rest b) < 4 then Inl (Exit ''Bad buf_getptr'')
     else let l = LOAD32H (take 4 (buf_rest b)) in
       if l > MAX_STRING_LEN then Inl (Exit ''String too long'')
       else if length (buf_rest b) < 4 + unat l then Inl (Exit ''Bad buf_getptr'')
       else Inr (take (unat l) (drop 4 (buf_rest b)), l, adv b (4 + unat l)))"
proof (cases "length (buf_rest b) < 4")
  case True
  then show ?thesis using assms by (simp add: buf_getstring_def buf_getint_eq)
next
  case False
  then have ok: "buf_ok (adv b 4)" and r: "buf_rest (adv b 4) = drop 4 (buf_rest b)"
    using assms by (simp_all add: buf_ok_adv buf_rest_adv)
  show ?thesis
    using False assms rd_rest [OF ok]
    by (auto simp: buf_getstring_def buf_getint_eq buf_getptr_eq [OF ok] buf_incrpos_eq [OF ok]
        r adv_adv Let_def)
qed

lemma buf_getstring_contract [contract]:
  "buf_ok b \<Longrightarrow> safe (\<lambda>(bs, l, b'). length bs = unat l \<and> unat l \<le> 9000 \<and> buf_ok b') (buf_getstring b)"
  by (auto simp: buf_getstring_eq Let_def word_less_nat_alt intro: buf_ok_adv)

lemma buf_getptr_contract [contract]:
  "buf_ok b \<Longrightarrow> safe (\<lambda>p. p = unat (buf_pos b) \<and> p + unat l \<le> unat (buf_len b)) (buf_getptr b l)"
  using length_buf_rest [of b] by (auto simp: buf_getptr_eq buf_ok_def)

lemma buf_getwriteptr_contract [contract]:
  "buf_ok b \<Longrightarrow> safe (\<lambda>p. p = unat (buf_pos b) \<and> p + unat l \<le> unat (buf_size b)) (buf_getwriteptr b l)"
  by (auto simp: buf_getwriteptr_eq)

lemma buf_ok_data: "buf_ok b \<Longrightarrow> length d = length (buf_data b) \<Longrightarrow> buf_ok (b\<lparr>buf_data := d\<rparr>)"
  by (simp add: buf_ok_def)

lemma buf_ok_bounds: "buf_ok b \<Longrightarrow> length (buf_data b) = unat (buf_size b)"
  "buf_ok b \<Longrightarrow> unat (buf_len b) \<le> length (buf_data b)"
  by (simp_all add: buf_ok_def)

lemma buf_setpos0_contract [contract]:
  "buf_ok b \<Longrightarrow> safe (\<lambda>b'. buf_ok b' \<and> buf_pos b' = 0) (buf_setpos b 0)"
  by (simp add: buf_setpos_def buf_ok_def)

lemma buf_getptrcopy_contract [contract]:
  assumes "buf_ok b"
  shows "safe (\<lambda>r. buf_ok r \<and> buf_pos r = 0) (buf_getptrcopy b l)"
  unfolding buf_getptrcopy_def
proof (rule res_sat_bindI [OF buf_getptr_contract [OF assms]], rule res_sat_bindI [OF buf_new_contract])
  fix src ret
  assume "src = unat (buf_pos b) \<and> src + unat l \<le> unat (buf_len b)"
    and ret: "buf_ok ret \<and> buf_pos ret = 0 \<and> buf_len ret = 0 \<and> buf_size ret = l"
  then have "unat l \<le> length (drop src (buf_data b))"
    using buf_ok_bounds [OF assms] by auto
  with ret show "safe (\<lambda>r. buf_ok r \<and> buf_pos r = 0)
      (rbind (buf_putbytes ret (drop src (buf_data b)) l) (\<lambda>ret. buf_setpos ret 0))"
    by (blast intro: res_sat_bindI [OF buf_putbytes_contract] buf_setpos0_contract)
qed

text \<open>The part of \<^verbatim>\<open>buf_getstringbuf_int\<close> after the length has been read and the result allocated.\<close>

lemma stringbuf_copy_contract:
  assumes "buf_ok b" and "buf_ok ret"
  shows "safe (\<lambda>(r, b'). buf_ok r \<and> buf_pos r = 0 \<and> buf_ok b')
    (rbind (buf_getwriteptr ret l) (\<lambda>w.
     rbind (buf_getptr b l) (\<lambda>r.
     rbind (rd_mem (buf_data b) r (unat l)) (\<lambda>bs.
     rbind (wr_mem (buf_data ret) w bs) (\<lambda>d.
     rbind (buf_incrpos b l) (\<lambda>b.
     rbind (buf_incrlen (ret\<lparr>buf_data := d\<rparr>) l) (\<lambda>ret.
     rbind (buf_setpos ret 0) (\<lambda>ret. Inr (ret, b)))))))))"
proof (rule res_sat_bindI [OF buf_getwriteptr_contract [OF assms(2)]],
    rule res_sat_bindI [OF buf_getptr_contract [OF assms(1)]])
  fix w r
  assume w: "w = unat (buf_pos ret) \<and> w + unat l \<le> unat (buf_size ret)"
    and r: "r = unat (buf_pos b) \<and> r + unat l \<le> unat (buf_len b)"
  have rd: "safe (\<lambda>bs. length bs = unat l) (rd_mem (buf_data b) r (unat l))"
    using r buf_ok_bounds [OF assms(1)] by (intro rd_mem_contract) simp
  have wr: "length bs = unat l \<Longrightarrow> safe (\<lambda>d. length d = length (buf_data ret)) (wr_mem (buf_data ret) w bs)" for bs
    using w buf_ok_bounds [OF assms(2)] by (intro wr_mem_contract) simp
  show "safe (\<lambda>(r, b'). buf_ok r \<and> buf_pos r = 0 \<and> buf_ok b')
    (rbind (rd_mem (buf_data b) r (unat l)) (\<lambda>bs.
     rbind (wr_mem (buf_data ret) w bs) (\<lambda>d.
     rbind (buf_incrpos b l) (\<lambda>b.
     rbind (buf_incrlen (ret\<lparr>buf_data := d\<rparr>) l) (\<lambda>ret.
     rbind (buf_setpos ret 0) (\<lambda>ret. Inr (ret, b)))))))"
    by (rule res_sat_bindI [OF rd], rule res_sat_bindI [OF wr], assumption,
        rule res_sat_bindI [OF buf_incrpos_contract [OF assms(1)]],
        rule res_sat_bindI [OF buf_incrlen_contract [OF buf_ok_data [OF assms(2)]]], assumption,
        erule res_sat_bindI [OF buf_setpos0_contract]) simp
qed

lemma buf_getstringbuf_int_contract [contract]:
  assumes "buf_ok b"
  shows "safe (\<lambda>(r, b'). buf_ok r \<and> buf_pos r = 0 \<and> buf_ok b') (buf_getstringbuf_int b incllen)"
proof -
  have put: "buf_ok ret \<Longrightarrow> safe buf_ok (if incllen then buf_putint ret l else Inr ret)" for ret l
    using buf_putint_contract [of ret l] by simp
  show ?thesis
    unfolding buf_getstringbuf_int_def
    by (rule res_sat_bindI [OF buf_getint_contract [OF assms]], clarify, simp only: split_beta fst_conv snd_conv if_split,
        intro conjI impI, simp, rule res_sat_bindI [OF buf_new_contract],
        rule res_sat_bindI [OF put], simp, rule stringbuf_copy_contract)
qed

section \<open>Multiple-precision integers on the wire\<close>

lemma length_ubin_bytes [simp]: "length (ubin_bytes n t) = n"
  by (induction n arbitrary: t) auto

lemma ubin_bytes_Cons:
  "ubin_bytes (Suc n) t = of_nat (t div 256 ^ n mod 256) # ubin_bytes n t"
proof (induction n arbitrary: t)
  case 0
  then show ?case by simp
next
  case (Suc n)
  from Suc [of "t div 256"] show ?case
    by (simp add: div_mult2_eq)
qed

lemma mp_from_ubin_snoc: "mp_from_ubin (bs @ [c]) = mp_from_ubin bs * 256 + unat c"
  by (simp add: mp_from_ubin_def)

lemma mp_from_ubin_ubin_bytes: "mp_from_ubin (ubin_bytes n t) = t mod 256 ^ n"
proof (induction n arbitrary: t)
  case 0
  then show ?case by (simp add: mp_from_ubin_def)
next
  case (Suc n)
  have "unat (of_nat (t mod 256) :: byte) = t mod 256"
    by (simp add: unat_of_nat)
  with Suc [of "t div 256"] show ?case
    by (simp add: mp_from_ubin_snoc mod_mult2_eq)
qed

lemma mp_count_bits_0 [simp]: "mp_count_bits 0 = 0"
  by (simp add: mp_count_bits.simps)

lemma mp_count_bits_upper: "q < 2 ^ mp_count_bits q"
proof (induction q rule: mp_count_bits.induct)
  case (1 q)
  show ?case
  proof (cases "q = 0")
    case False
    with "1.IH" have "q div 2 < 2 ^ mp_count_bits (q div 2)" by simp
    then have "q < 2 * 2 ^ mp_count_bits (q div 2)" by linarith
    with False show ?thesis by (subst mp_count_bits.simps) simp
  qed simp
qed

lemma mpint_bytes:
  assumes "0 < q"
  defines "bits \<equiv> mp_count_bits q"
  defines "len \<equiv> bits div 8 + 1"
  shows "(if bits mod 8 = 0 then [0] else []) @ ubin_bytes (mp_ubin_size q) q = ubin_bytes len q"
    and "q < 128 * 256 ^ (len - 1)"
proof -
  have q: "q < 2 ^ bits" unfolding bits_def by (rule mp_count_bits_upper)
  have e: "bits = 8 * (bits div 8) + bits mod 8" by simp
  have p: "(2::nat) ^ (8 * k) = 256 ^ k" for k by (simp add: power_mult)
  have "(2::nat) ^ bits \<le> 2 ^ (8 * (bits div 8) + 7)"
    by (rule power_increasing) (use e mod_less_divisor [of 8 bits] in linarith, simp)
  also have "\<dots> = 128 * 256 ^ (bits div 8)" by (simp add: power_add p)
  finally show "q < 128 * 256 ^ (len - 1)" using q by (simp add: len_def)
  show "(if bits mod 8 = 0 then [0] else []) @ ubin_bytes (mp_ubin_size q) q = ubin_bytes len q"
  proof (cases "bits mod 8 = 0")
    case True
    then have "q < 256 ^ (bits div 8)" using q e p [of "bits div 8"] by simp
    with True show ?thesis
      by (simp add: len_def mp_ubin_size_def bits_def Let_def ubin_bytes_Cons [of "mp_count_bits q div 8"]
          del: ubin_bytes.simps)
  next
    case False
    then show ?thesis by (simp add: len_def mp_ubin_size_def bits_def Let_def)
  qed
qed

lemma mp_ubin_size_eq:
  "0 < q \<Longrightarrow> mp_ubin_size q = mp_count_bits q div 8 + 1 - (if mp_count_bits q mod 8 = 0 then 1 else 0)"
  by (simp add: mp_ubin_size_def Let_def)

definition mpint_wire :: "nat \<Rightarrow> byte list" where
  "mpint_wire q = (if q = 0 then STORE32H 0
     else let len = mp_count_bits q div 8 + 1 in STORE32H (of_nat len) @ ubin_bytes len q)"

lemma top_byte_clear: "q < 128 * 256 ^ n \<Longrightarrow> hd (ubin_bytes (Suc n) q) AND 128 = 0"
proof -
  assume "q < 128 * 256 ^ n"
  then have lt: "q div 256 ^ n < 128"
    by (simp add: less_mult_imp_div_less)
  have "(of_nat m :: byte) AND 128 = 0" if "m < 128" for m
  proof -
    have "\<not> bit m 7" using that by (simp add: bit_iff_odd)
    then have "\<not> bit (of_nat m :: byte) 7" by (simp only: bit_of_nat_iff) simp
    then show ?thesis using and_exp_eq_0_iff_not_bit [of "of_nat m :: byte" 7] by simp
  qed
  with lt show ?thesis
    by (simp add: ubin_bytes_Cons del: ubin_bytes.simps)
qed

lemma getwriteptr_put:
  assumes "buf_ok b" and "unat (buf_pos b) + length bs \<le> unat (buf_size b)"
  shows "rbind (buf_getwriteptr b (of_nat (length bs))) (\<lambda>p. rbind (wr_mem (buf_data b) p bs) (\<lambda>d.
     buf_incrwritepos (b\<lparr>buf_data := d\<rparr>) (of_nat (length bs)))) = Inr (put_at b bs)"
proof -
  have "unat (of_nat (length bs) :: u32) = length bs"
    using assms by (simp add: unat_of_nat_u32 buf_ok_def)
  with assms wr_incr_eq_put_at [OF assms] show ?thesis
    by (simp add: buf_getwriteptr_eq)
qed

lemma buf_putbyte_opt:
  assumes "buf_ok b" and "unat (buf_pos b) + length xs + 1 \<le> unat (buf_size b)"
  shows "(if c then buf_putbyte (put_at b xs) v else Inr (put_at b xs))
    = Inr (put_at b (xs @ (if c then [v] else [])))"
proof -
  have f: "unat (buf_pos b) + length xs \<le> unat (buf_size b)" using assms by simp
  show ?thesis
    using put_at_fields [OF assms(1) f] assms put_at_put_at [OF assms(1), of xs "[v]"]
    by (simp add: buf_putbyte_eq [OF buf_ok_put_at [OF assms(1) f]])
qed

lemma buf_putmpint_pos:
  assumes ok: "buf_ok b" and q: "0 < q"
    and fits: "unat (buf_pos b) + length (mpint_wire q) \<le> unat (buf_size b)"
  shows "buf_putmpint b (int q) = Inr (put_at b (mpint_wire q))"
proof -
  define len where "len = Suc (mp_count_bits q div 8)"
  define pad where "pad \<longleftrightarrow> mp_count_bits q mod 8 = 0"
  define hdr where "hdr = STORE32H (of_nat len)"
  define bs where "bs = ubin_bytes (mp_ubin_size q) q"
  have lbs: "length bs = len - (if pad then 1 else 0)"
    using mp_ubin_size_eq [OF q] by (simp add: bs_def len_def pad_def)
  have w: "mpint_wire q = (hdr @ (if pad then [0] else [])) @ bs"
    using mpint_bytes(1) [OF q] q
    by (simp add: mpint_wire_def Let_def len_def hdr_def pad_def bs_def del: ubin_bytes.simps)
  define b2 where "b2 = put_at b (hdr @ (if pad then [0] else []))"
  have room: "unat (buf_pos b) + length hdr + 1 \<le> unat (buf_size b)"
    and f2: "unat (buf_pos b) + length (hdr @ (if pad then [0] else [])) \<le> unat (buf_size b)"
    and f3: "unat (buf_pos b) + length (hdr @ (if pad then [0] else [])) + length bs \<le> unat (buf_size b)"
    using fits lbs by (auto simp: w len_def hdr_def split: if_splits)
  have ok2: "buf_ok b2" unfolding b2_def by (rule buf_ok_put_at [OF ok f2])
  have "rbind (buf_getwriteptr b2 (of_nat (length bs))) (\<lambda>p. rbind (wr_mem (buf_data b2) p bs) (\<lambda>d.
     buf_incrwritepos (b2\<lparr>buf_data := d\<rparr>) (of_nat (length bs)))) = Inr (put_at b (mpint_wire q))"
    using getwriteptr_put [OF ok2, of bs] put_at_fields [OF ok f2] f3 put_at_put_at [OF ok f3]
    by (simp add: b2_def w)
  moreover have "mp_to_ubin q (len - (if pad then 1 else 0)) = Some bs"
    using lbs by (simp add: mp_to_ubin_def Let_def bs_def)
  moreover have "buf_putint b (of_nat len) = Inr (put_at b hdr)"
    using room by (simp add: buf_putint_eq [OF ok] hdr_def)
  ultimately show ?thesis
    using q buf_putbyte_opt [OF ok room, of pad 0] lbs
    by (cases pad) (simp_all add: buf_putmpint_def Let_def len_def [symmetric]
        pad_def [symmetric] b2_def del: of_nat_Suc of_nat_diff)
qed

lemma buf_putmpint_eq:
  assumes "buf_ok b" and "unat (buf_pos b) + length (mpint_wire q) \<le> unat (buf_size b)"
  shows "buf_putmpint b (int q) = Inr (put_at b (mpint_wire q))"
proof (cases "q = 0")
  case True
  with assms show ?thesis
    by (simp add: buf_putmpint_def Let_def mpint_wire_def buf_putint_eq)
next
  case False
  then show ?thesis using assms by (intro buf_putmpint_pos) auto
qed

text \<open>
  \<^verbatim>\<open>mp_count_bits\<close> returns an \<^verbatim>\<open>int\<close>: LibTomMath keeps its integers below \<open>2 ^ 31\<close> bits. Within that
  bound the lengths computed fit the buffer's 32-bit interface.
\<close>

lemma mpint_body_contract:
  assumes ok: "buf_ok b" and n: "n < 4294967296"
  shows "safe buf_ok (rbind (buf_getwriteptr b (of_nat n)) (\<lambda>p.
         case mp_to_ubin q n of
           None \<Rightarrow> Inl (Exit ''mpint error'')
         | Some bs \<Rightarrow> rbind (wr_mem (buf_data b) p bs) (\<lambda>d.
             buf_incrwritepos (b\<lparr>buf_data := d\<rparr>) (of_nat (length bs)))))"
proof (rule res_sat_bindI [OF buf_getwriteptr_contract [OF ok]])
  fix p assume p: "p = unat (buf_pos b) \<and> p + unat (of_nat n :: u32) \<le> unat (buf_size b)"
  show "safe buf_ok (case mp_to_ubin q n of None \<Rightarrow> Inl (Exit ''mpint error'')
         | Some bs \<Rightarrow> rbind (wr_mem (buf_data b) p bs) (\<lambda>d.
             buf_incrwritepos (b\<lparr>buf_data := d\<rparr>) (of_nat (length bs))))"
  proof (cases "mp_to_ubin q n")
    case (Some bs)
    then have "length bs \<le> n" by (auto simp: mp_to_ubin_def Let_def split: if_splits)
    then have "p + length bs \<le> length (buf_data b)"
      using p n buf_ok_bounds(1) [OF ok] by (simp add: unat_of_nat_u32)
    then show ?thesis
      unfolding Some option.case
      by (blast intro: res_sat_bindI [OF wr_mem_contract] buf_incrwritepos_contract buf_ok_data [OF ok])
  qed simp
qed

lemma buf_putmpint_contract [contract]:
  assumes ok: "buf_ok b" and bits: "mp_count_bits (nat mp) < 2 ^ 31"
  shows "safe buf_ok (buf_putmpint b mp)"
proof -
  define len where "len = (if mp = 0 then 0 else mp_count_bits (nat mp) div 8 + 1)"
  define pad :: nat where "pad = (if mp = 0 then 0 else if mp_count_bits (nat mp) mod 8 = 0 then 1 else 0)"
  have "mp_count_bits (nat mp) div 8 < 2 ^ 31" using bits by (rule le_less_trans [OF div_le_dividend])
  then have "len - pad < 4294967296" by (auto simp: len_def)
  note body = mpint_body_contract [OF _ this, of _ "nat mp"]
  have put: "buf_ok b1 \<Longrightarrow> safe buf_ok (if pad = 1 then buf_putbyte b1 0 else Inr b1)" for b1
    using buf_putbyte_contract [of b1 0] by simp
  have "safe buf_ok (rbind (buf_putint b (of_nat len)) (\<lambda>b.
       if len > 0 then rbind (if pad = 1 then buf_putbyte b 0 else Inr b) (\<lambda>b.
         rbind (buf_getwriteptr b (of_nat (len - pad))) (\<lambda>p.
         case mp_to_ubin (nat mp) (len - pad) of
           None \<Rightarrow> Inl (Exit ''mpint error'')
         | Some bs \<Rightarrow> rbind (wr_mem (buf_data b) p bs) (\<lambda>d.
             buf_incrwritepos (b\<lparr>buf_data := d\<rparr>) (of_nat (length bs)))))
       else Inr b))"
    by (rule res_sat_bindI [OF buf_putint_contract [OF ok]])
      (simp only: if_split res_sat.simps, blast intro: res_sat_bindI [OF put] body)
  then show ?thesis
    by (simp only: buf_putmpint_def Let_def len_def pad_def if_split res_sat.simps orderly.simps) simp
qed

lemma buf_getmpint_contract [contract]:
  assumes ok: "buf_ok b"
  shows "safe (\<lambda>(v, b'). buf_ok b' \<and> (\<forall>n. v = Some n \<longrightarrow> 0 \<le> n)) (buf_getmpint b)"
proof (cases "4 \<le> length (buf_rest b)")
  case True
  have ok4: "buf_ok (adv b 4)" using True ok by (simp add: buf_ok_adv)
  show ?thesis
    using True ok4 rd_rest [OF ok4] length_buf_rest [OF ok4]
    by (auto simp: buf_getmpint_def buf_getint_eq [OF ok] buf_getptr_eq [OF ok4] buf_incrpos_eq [OF ok4]
        buf_ok_adv)
qed (simp add: buf_getmpint_def buf_getint_eq [OF ok])

lemma buf_getmpint_wire:
  assumes ok: "buf_ok b" and wire: "buf_rest b = mpint_wire q @ tail"
    and small: "mp_count_bits q \<le> 8239"
  shows "buf_getmpint b = Inr (Some (int q), adv b (length (mpint_wire q)))"
proof (cases "q = 0")
  case True
  then show ?thesis
    using wire by (simp add: buf_getmpint_def buf_getint_eq [OF ok] mpint_wire_def)
next
  case False
  define len where "len = mp_count_bits q div 8 + 1"
  have w: "mpint_wire q = STORE32H (of_nat len) @ ubin_bytes len q"
    using False by (simp add: mpint_wire_def Let_def len_def del: ubin_bytes.simps)
  have le: "len \<le> 1030" using small by (simp add: len_def)
  then have len: "unat (of_nat len :: u32) = len" "len \<le> 1030" "len = Suc (len - 1)"
    by (simp_all add: unat_of_nat_u32) (simp add: len_def)
  have ok4: "buf_ok (adv b 4)" and r4: "buf_rest (adv b 4) = ubin_bytes len q @ tail"
    using wire by (simp_all add: w buf_ok_adv [OF ok] buf_rest_adv [OF ok])
  have q: "q < 128 * 256 ^ (len - 1)"
    using mpint_bytes(2) [of q] False by (simp add: len_def)
  have top: "hd (take 1 (buf_rest (adv b 4))) AND 128 = 0"
    using top_byte_clear [OF q] len(3) length_ubin_bytes [of len q]
    by (cases "ubin_bytes len q") (auto simp: r4 simp del: length_ubin_bytes)
  have "128 * 256 ^ (len - 1) \<le> (256::nat) ^ len"
    by (subst (2) len(3)) simp
  with q have "q mod 256 ^ len = q" by simp
  then have val: "mp_from_ubin (ubin_bytes len q) = q"
    by (simp add: mp_from_ubin_ubin_bytes)
  have "(of_nat len :: u32) \<noteq> 0" "\<not> BUF_MAX_MPINT < of_nat len"
    using len by (auto simp: word_less_nat_alt u32_eq_iff)
  then show ?thesis
    using wire top val len rd_rest [OF ok4, of 1] rd_rest [OF ok4, of len] r4
    by (simp add: w buf_getmpint_def buf_getint_eq [OF ok] buf_getptr_eq [OF ok4] buf_incrpos_eq [OF ok4]
        adv_adv del: ubin_bytes.simps)
qed

section \<open>Encoders and decoders as an interface\<close>

text \<open>
  A wire format: what a put operation appends for a value and what the get operation makes of it.
  The clients of the buffer rely on nothing else, so the round trip is proved once, for one value
  and for a list of them.
\<close>

locale wire_codec =
  fixes put :: "buffer \<Rightarrow> 'v \<Rightarrow> buffer res"
    and get :: "buffer \<Rightarrow> ('v \<times> buffer) res"
    and wire :: "'v \<Rightarrow> byte list"
    and valid :: "'v \<Rightarrow> bool"
  assumes put_wire: "\<lbrakk>buf_ok b; valid v; unat (buf_pos b) + length (wire v) \<le> unat (buf_size b)\<rbrakk>
      \<Longrightarrow> put b v = Inr (put_at b (wire v))"
    and get_wire: "\<lbrakk>buf_ok b; valid v; buf_rest b = wire v @ tail\<rbrakk>
      \<Longrightarrow> get b = Inr (v, adv b (length (wire v)))"
begin

primrec put_all :: "'v list \<Rightarrow> buffer \<Rightarrow> buffer res" where
  "put_all [] b = Inr b"
| "put_all (v # vs) b = rbind (put b v) (\<lambda>b. put_all vs b)"

primrec get_all :: "nat \<Rightarrow> buffer \<Rightarrow> ('v list \<times> buffer) res" where
  "get_all 0 b = Inr ([], b)"
| "get_all (Suc n) b = rbind (get b) (\<lambda>(v, b). rbind (get_all n b) (\<lambda>(vs, b). Inr (v # vs, b)))"

lemma put_all_wire:
  assumes "buf_ok b" and "\<forall>v\<in>set vs. valid v"
    and "unat (buf_pos b) + length (concat (map wire vs)) \<le> unat (buf_size b)"
  shows "put_all vs b = Inr (put_at b (concat (map wire vs)))"
  using assms
proof (induction vs arbitrary: b)
  case Nil
  then show ?case by (simp add: put_at_def buf_ok_def max_absorb1 word_le_nat_alt)
next
  case (Cons v vs)
  have fits: "unat (buf_pos b) + length (wire v) \<le> unat (buf_size b)" using Cons.prems(3) by simp
  have "put_all vs (put_at b (wire v)) = Inr (put_at (put_at b (wire v)) (concat (map wire vs)))"
    using Cons.prems put_at_fields [OF Cons.prems(1) fits]
    by (intro Cons.IH buf_ok_put_at [OF Cons.prems(1) fits]) auto
  then show ?case
    using Cons.prems fits by (simp add: put_wire put_at_put_at)
qed

lemma get_all_wire:
  assumes "buf_ok b" and "\<forall>v\<in>set vs. valid v" and "buf_rest b = concat (map wire vs) @ tail"
  shows "get_all (length vs) b = Inr (vs, adv b (length (concat (map wire vs))))"
  using assms
proof (induction vs arbitrary: b)
  case Nil
  then show ?case by (simp add: adv_def)
next
  case (Cons v vs)
  have len: "length (wire v) \<le> length (buf_rest b)" using Cons.prems(3) by simp
  have "get b = Inr (v, adv b (length (wire v)))"
    using Cons.prems by (intro get_wire [where tail = "concat (map wire vs) @ tail"]) auto
  moreover have "get_all (length vs) (adv b (length (wire v)))
      = Inr (vs, adv (adv b (length (wire v))) (length (concat (map wire vs))))"
    using Cons.prems buf_ok_adv [OF Cons.prems(1) len] buf_rest_adv [OF Cons.prems(1) len]
    by (intro Cons.IH) auto
  ultimately show ?case by (simp add: adv_adv)
qed

lemma codec_roundtrip:
  assumes ok: "buf_ok b" and vs: "\<forall>v\<in>set vs. valid v"
    and fits: "unat (buf_pos b) + length (concat (map wire vs)) \<le> unat (buf_size b)"
  shows "rbind (buf_setpos (put_at b (concat (map wire vs))) (buf_pos b)) (get_all (length vs))
     = Inr (vs, put_at b (concat (map wire vs)))"
proof -
  let ?w = "concat (map wire vs)"
  let ?b1 = "put_at b ?w"
  have pos: "unat (buf_pos b) \<le> unat (buf_len ?b1)"
    using put_at_fields(2) [OF ok fits] by simp
  have "get_all (length vs) (?b1\<lparr>buf_pos := buf_pos b\<rparr>)
      = Inr (vs, adv (?b1\<lparr>buf_pos := buf_pos b\<rparr>) (length ?w))"
    using buf_rest_put_at [OF ok fits]
    by (intro get_all_wire vs buf_ok_reset buf_ok_put_at [OF ok fits] pos)
  moreover have "adv (?b1\<lparr>buf_pos := buf_pos b\<rparr>) (length ?w) = ?b1"
    by (simp add: adv_def put_at_def)
  ultimately show ?thesis
    using pos by (simp add: buf_setpos_eq)
qed

lemma codec_roundtrip_one:
  assumes "buf_ok b" and "valid v" and "unat (buf_pos b) + length (wire v) \<le> unat (buf_size b)"
  shows "rbind (buf_setpos (put_at b (wire v)) (buf_pos b)) get = Inr (v, put_at b (wire v))"
  using codec_roundtrip [of b "[v]"] assms
  by (auto simp: split: prod.splits)

end

interpretation byte_codec: wire_codec buf_putbyte buf_getbyte "\<lambda>v. [v]" "\<lambda>_. True"
  by unfold_locales (simp_all add: buf_putbyte_eq buf_getbyte_eq)

interpretation int_codec: wire_codec buf_putint buf_getint STORE32H "\<lambda>_. True"
  by unfold_locales (simp_all add: buf_putint_eq buf_getint_eq)

text \<open>Strings: the caller passes the array and its length, and gets both back.\<close>

lemma buf_getstring_wire:
  assumes "buf_ok b" and "length s \<le> 9000" and "buf_rest b = (STORE32H (of_nat (length s)) @ s) @ tail"
  shows "buf_getstring b = Inr (s, of_nat (length s), adv b (4 + length s))"
proof -
  have "unat (of_nat (length s) :: u32) = length s"
    using assms(2) by (simp add: unat_of_nat_u32)
  with assms show ?thesis
    by (simp add: buf_getstring_eq Let_def word_less_nat_alt)
qed

interpretation string_codec: wire_codec
  "\<lambda>b s. buf_putstring b s (of_nat (length s))"
  "\<lambda>b. rbind (buf_getstring b) (\<lambda>(s, l, b). Inr (s, b))"
  "\<lambda>s. STORE32H (of_nat (length s)) @ s" "\<lambda>s. length s \<le> 9000"
proof
  fix b :: buffer and s :: "byte list"
  assume "buf_ok b" and s: "length s \<le> 9000"
    and "unat (buf_pos b) + length (STORE32H (of_nat (length s)) @ s) \<le> unat (buf_size b)"
  moreover have "unat (of_nat (length s) :: u32) = length s"
    using s by (simp add: unat_of_nat_u32)
  ultimately show "buf_putstring b s (of_nat (length s)) = Inr (put_at b (STORE32H (of_nat (length s)) @ s))"
    by (simp add: buf_putstring_eq)
next
  fix b :: buffer and s tail :: "byte list"
  assume "buf_ok b" and "length s \<le> 9000" and "buf_rest b = (STORE32H (of_nat (length s)) @ s) @ tail"
  from buf_getstring_wire [OF this]
  show "rbind (buf_getstring b) (\<lambda>(s, l, b). Inr (s, b)) = Inr (s, adv b (length (STORE32H (of_nat (length s)) @ s)))"
    by simp
qed

text \<open>Integers too wide, or negative, are reported by \<open>None\<close>, so the values are optional on both sides.\<close>

interpretation mpint_codec: wire_codec
  "\<lambda>b v. buf_putmpint b (case v of Some n \<Rightarrow> n | None \<Rightarrow> - 1)" buf_getmpint
  "\<lambda>v. mpint_wire (nat (the v))" "\<lambda>v. case v of Some n \<Rightarrow> 0 \<le> n \<and> mp_count_bits (nat n) \<le> 8239 | None \<Rightarrow> False"
proof
  fix b v assume "buf_ok b" and "unat (buf_pos b) + length (mpint_wire (nat (the v))) \<le> unat (buf_size b)"
    and "case v of Some n \<Rightarrow> 0 \<le> n \<and> mp_count_bits (nat n) \<le> 8239 | None \<Rightarrow> False"
  then show "buf_putmpint b (case v of Some n \<Rightarrow> n | None \<Rightarrow> - 1) = Inr (put_at b (mpint_wire (nat (the v))))"
    using buf_putmpint_eq [of b "nat (the v)"] by (auto split: option.splits)
next
  fix b v tail assume "buf_ok b" and "buf_rest b = mpint_wire (nat (the v)) @ tail"
    and "case v of Some n \<Rightarrow> 0 \<le> n \<and> mp_count_bits (nat n) \<le> 8239 | None \<Rightarrow> False"
  then show "buf_getmpint b = Inr (v, adv b (length (mpint_wire (nat (the v)))))"
    using buf_getmpint_wire [of b "nat (the v)"] by (auto split: option.splits)
qed

section \<open>Sequences of calls\<close>

text \<open>
  A client holds the buffer and calls the operations in any order with any arguments; it sees the
  values read, which do not restrict what it calls next. \<open>buf_exec\<close> is one call and \<open>buf_run\<close> a
  sequence of them.
\<close>

datatype buf_call =
    Call_resize "byte list" u32 | Call_setlen u32 | Call_incrlen u32 | Call_setpos u32
  | Call_incrwritepos u32 | Call_incrpos u32 | Call_decrpos u32 | Call_getbyte | Call_getbool
  | Call_putbyte byte | Call_getint | Call_putint u32 | Call_putstring "byte list"
  | Call_putbytes "byte list" | Call_putmpint nat | Call_getmpint | Call_getstring
  | Call_getstringbuf | Call_getbuf | Call_eatstring | Call_newcopy | Call_getptrcopy u32

fun buf_exec :: "buf_call \<Rightarrow> buffer \<Rightarrow> buffer res" where
  "buf_exec (Call_resize junk n) b = buf_resize (\<lambda>i. junk ! (i mod length junk)) b n"
| "buf_exec (Call_setlen n) b = buf_setlen b n"
| "buf_exec (Call_incrlen n) b = buf_incrlen b n"
| "buf_exec (Call_setpos n) b = buf_setpos b n"
| "buf_exec (Call_incrwritepos n) b = buf_incrwritepos b n"
| "buf_exec (Call_incrpos n) b = buf_incrpos b n"
| "buf_exec (Call_decrpos n) b = buf_decrpos b n"
| "buf_exec Call_getbyte b = rbind (buf_getbyte b) (\<lambda>(v, b). Inr b)"
| "buf_exec Call_getbool b = rbind (buf_getbool b) (\<lambda>(v, b). Inr b)"
| "buf_exec (Call_putbyte v) b = buf_putbyte b v"
| "buf_exec Call_getint b = rbind (buf_getint b) (\<lambda>(v, b). Inr b)"
| "buf_exec (Call_putint v) b = buf_putint b v"
| "buf_exec (Call_putstring s) b = buf_putstring b s (of_nat (length s))"
| "buf_exec (Call_putbytes s) b = buf_putbytes b s (of_nat (length s))"
| "buf_exec (Call_putmpint q) b = buf_putmpint b (int q)"
| "buf_exec Call_getmpint b = rbind (buf_getmpint b) (\<lambda>(v, b). Inr b)"
| "buf_exec Call_getstring b = rbind (buf_getstring b) (\<lambda>(v, l, b). Inr b)"
| "buf_exec Call_getstringbuf b = rbind (buf_getstringbuf b) (\<lambda>(v, b). Inr b)"
| "buf_exec Call_getbuf b = rbind (buf_getbuf b) (\<lambda>(v, b). Inr b)"
| "buf_exec Call_eatstring b = buf_eatstring b"
| "buf_exec Call_newcopy b = buf_newcopy b"
| "buf_exec (Call_getptrcopy n) b = buf_getptrcopy b n"

fun buf_run :: "buf_call list \<Rightarrow> buffer \<Rightarrow> buffer res" where
  "buf_run [] b = Inr b"
| "buf_run (c # cs) b = rbind (buf_exec c b) (\<lambda>b. buf_run cs b)"

primrec buf_getstrings :: "nat \<Rightarrow> buffer \<Rightarrow> (byte list list \<times> buffer) res" where
  "buf_getstrings 0 b = Inr ([], b)"
| "buf_getstrings (Suc n) b = rbind (buf_getstring b) (\<lambda>(s, l, b).
     rbind (buf_getstrings n b) (\<lambda>(ss, b). Inr (s # ss, b)))"

lemma buf_getstrings_get_all: "buf_getstrings n b = string_codec.get_all n b"
  by (induction n arbitrary: b) (auto simp: split_beta intro!: rbind_cong)

lemma buf_run_put_all: "buf_run (map Call_putstring ss) b = string_codec.put_all ss b"
  by (induction ss arbitrary: b) (simp_all cong: rbind_cong)

text \<open>LibTomMath's integers have fewer than \<open>2 ^ 31\<close> bits: \<^verbatim>\<open>mp_count_bits\<close> returns an \<^verbatim>\<open>int\<close>.\<close>

fun call_ok :: "buf_call \<Rightarrow> bool" where
  "call_ok (Call_putmpint q) = (mp_count_bits q < 2 ^ 31)"
| "call_ok c = True"

lemma unat_of_nat_le_u32: "unat (of_nat n :: u32) \<le> n"
  by (simp add: unat_of_nat_u32)

lemma buf_exec_contract:
  assumes "buf_ok b" and "call_ok c"
  shows "safe buf_ok (buf_exec c b)"
proof (cases c)
  case (Call_putmpint q)
  then show ?thesis using assms buf_putmpint_contract [of b "int q"] by simp
next
  case Call_getmpint
  then show ?thesis using buf_getmpint_contract [OF assms(1)] by (auto elim: res_sat_mono)
next
  case Call_getstringbuf
  then show ?thesis
    using buf_getstringbuf_int_contract [OF assms(1), of False] by (auto simp: buf_getstringbuf_def elim: res_sat_mono)
next
  case Call_getbuf
  then show ?thesis
    using buf_getstringbuf_int_contract [OF assms(1), of True] by (auto simp: buf_getbuf_def elim: res_sat_mono)
next
  case Call_getbyte
  then show ?thesis using buf_getbyte_contract [OF assms(1)] by (auto elim: res_sat_mono)
next
  case Call_getbool
  then show ?thesis using buf_getbool_contract [OF assms(1)] by (auto elim: res_sat_mono)
next
  case Call_getint
  then show ?thesis using buf_getint_contract [OF assms(1)] by (auto elim: res_sat_mono)
next
  case Call_getstring
  then show ?thesis using buf_getstring_contract [OF assms(1)] by (auto elim: res_sat_mono)
next
  case (Call_getptrcopy n)
  then show ?thesis using buf_getptrcopy_contract [OF assms(1), of n] by (auto elim: res_sat_mono)
next
  case Call_newcopy
  then show ?thesis using buf_newcopy_contract [OF assms(1)] by (auto elim: res_sat_mono)
qed (use assms in \<open>auto intro: contract unat_of_nat_le_u32\<close>)

lemma buf_run_contract: "buf_ok b \<Longrightarrow> list_all call_ok cs \<Longrightarrow> safe buf_ok (buf_run cs b)"
proof (induction cs arbitrary: b)
  case (Cons c cs)
  then show ?case
    by (simp only: buf_run.simps list.pred_inject) (blast intro: res_sat_bindI [OF buf_exec_contract])
qed simp

section \<open>Properties\<close>

text \<open>
  C4. Whatever sequence of calls a client makes on a fresh buffer of any requested size, with any
  arguments and on any contents, the run either ends in one of the documented fatal exits or leaves
  a well-formed buffer (position within length within size, at most 10^9 bytes): no call reads or
  writes outside the allocation and none leaves the fields inconsistent, although every check is
  done with 32-bit sums that may wrap.
\<close>

theorem buf_calls_safe:
  assumes "list_all call_ok cs"
  shows "safe buf_ok (rbind (buf_new sz) (buf_run cs))"
  by (rule res_sat_bindI [OF buf_new_contract]) (use assms in \<open>blast intro: buf_run_contract\<close>)

theorem buf_calls_safe_witness:
  "safe buf_ok (rbind (buf_new 20) (buf_run [Call_putint 7, Call_putmpint 128, Call_setpos 4, Call_getmpint]))"
  by (rule buf_calls_safe) (simp add: mp_count_bits.simps)

text \<open>
  The 32-bit backstop: although \<^verbatim>\<open>buf->pos + len\<close> is computed modulo 2^32, \<^verbatim>\<open>buf_getptr\<close> succeeds on a
  well-formed buffer exactly when that many bytes are left to read, and then points at the position.
\<close>

theorem buf_getptr_exact:
  assumes "buf_ok b"
  shows "buf_getptr b l = Inr p \<longleftrightarrow> p = unat (buf_pos b) \<and> unat (buf_pos b) + unat l \<le> unat (buf_len b)"
  using buf_getptr_eq [OF assms, of l] length_buf_rest [OF assms] assms
  by (auto simp: buf_ok_def)

theorem buf_getptr_exact_witness:
  "buf_getptr \<lparr>buf_data = [1, 2, 3], buf_len = 3, buf_pos = 1, buf_size = 3\<rparr> 2 = Inr 1
   \<and> buf_getptr \<lparr>buf_data = [1, 2, 3], buf_len = 3, buf_pos = 1, buf_size = 3\<rparr> 4294967295 \<noteq> Inr 1"
proof -
  have "buf_ok \<lparr>buf_data = [1, 2, 3], buf_len = 3, buf_pos = 1, buf_size = 3\<rparr>"
    by (simp add: buf_ok_def)
  from buf_getptr_exact [OF this, of 2 1] buf_getptr_exact [OF this, of 4294967295 1]
  show ?thesis by simp
qed

text \<open>
  Strings round trip: a list of strings of at most 9000 bytes each written one after the other and
  read back from the same position gives the same strings, and leaves the buffer as the writer left it.
\<close>

theorem buf_strings_roundtrip:
  assumes "buf_ok b" and "\<forall>s\<in>set ss. length s \<le> 9000"
    and "unat (buf_pos b) + length (concat (map (\<lambda>s. STORE32H (of_nat (length s)) @ s) ss)) \<le> unat (buf_size b)"
  shows "\<exists>b1. buf_run (map Call_putstring ss) b = Inr b1
     \<and> rbind (buf_setpos b1 (buf_pos b)) (buf_getstrings (length ss)) = Inr (ss, b1)"
  using string_codec.codec_roundtrip [OF assms] string_codec.put_all_wire [OF assms]
  by (simp add: buf_getstrings_get_all [abs_def] buf_run_put_all)

theorem buf_strings_roundtrip_witness:
  "\<exists>b1. buf_run (map Call_putstring [str ''ssh'', []])
       \<lparr>buf_data = replicate 16 0, buf_len = 0, buf_pos = 0, buf_size = 16\<rparr> = Inr b1
     \<and> rbind (buf_setpos b1 0) (buf_getstrings (Suc (Suc 0))) = Inr ([str ''ssh'', []], b1)"
proof -
  let ?b = "\<lparr>buf_data = replicate 16 0, buf_len = 0, buf_pos = 0, buf_size = 16\<rparr>"
  have "buf_ok ?b" by (simp add: buf_ok_def)
  from buf_strings_roundtrip [OF this, of "[str ''ssh'', []]"] show ?thesis
    by simp
qed

text \<open>
  Multiple-precision integers round trip: a non-negative integer of at most 8239 bits (the widest
  whose encoding is within \<^verbatim>\<open>BUF_MAX_MPINT\<close> bytes) written by \<^verbatim>\<open>buf_putmpint\<close> where it fits is read back by
  \<^verbatim>\<open>buf_getmpint\<close> as the same integer, the padding byte that keeps it non-negative included.
\<close>

theorem buf_mpint_roundtrip:
  assumes "buf_ok b" and "mp_count_bits q \<le> 8239"
    and "unat (buf_pos b) + 5 + mp_count_bits q div 8 \<le> unat (buf_size b)"
  shows "\<exists>b1. buf_putmpint b (int q) = Inr b1
     \<and> rbind (buf_setpos b1 (buf_pos b)) buf_getmpint = Inr (Some (int q), b1)"
proof -
  have fits: "unat (buf_pos b) + length (mpint_wire q) \<le> unat (buf_size b)"
    using assms(3) by (simp add: mpint_wire_def Let_def)
  then show ?thesis
    using buf_putmpint_eq [OF assms(1) fits] mpint_codec.codec_roundtrip_one [of b "Some (int q)"] assms(1,2)
    by simp
qed

theorem buf_mpint_roundtrip_witness:
  "\<exists>b1. buf_putmpint \<lparr>buf_data = replicate 8 0, buf_len = 0, buf_pos = 0, buf_size = 8\<rparr> 128 = Inr b1
     \<and> rbind (buf_setpos b1 0) buf_getmpint = Inr (Some 128, b1)"
  using buf_mpint_roundtrip [of "\<lparr>buf_data = replicate 8 0, buf_len = 0, buf_pos = 0, buf_size = 8\<rparr>" 128]
  by (simp add: buf_ok_def mp_count_bits.simps)

end
