(* ===== verification/Fifo.thy ===== *)
theory Fifo
  imports Prelude
begin

text \<open>
  The contract the daemon expects of its first-in first-out stores: the circular byte buffer between
  the wire and a program (src/dropbear/src/circbuffer.c) and the queue of outgoing packets
  (src/dropbear/src/queue.c). A store has an invariant, an abstraction to the list of what it holds,
  and possibly a capacity; a push of items that fit and a pop of items that are there succeed. What
  any sequence of such calls delivers is proved here once.
\<close>

datatype 'a fifo_op = Push "'a list" | Pop nat

fun pushed :: "'a fifo_op list \<Rightarrow> 'a list" where
  "pushed [] = []"
| "pushed (Push xs # ops) = xs @ pushed ops"
| "pushed (Pop n # ops) = pushed ops"

fun within :: "nat option \<Rightarrow> nat \<Rightarrow> bool" where
  "within None n = True"
| "within (Some k) n = (n \<le> k)"

text \<open>The calls respect the capacity and never take more than is stored, when \<open>used\<close> items are.\<close>

fun legal :: "nat option \<Rightarrow> nat \<Rightarrow> 'a fifo_op list \<Rightarrow> bool" where
  "legal k used [] = True"
| "legal k used (Push xs # ops) = (within k (used + length xs) \<and> legal k (used + length xs) ops)"
| "legal k used (Pop n # ops) = (n \<le> used \<and> legal k (used - n) ops)"

locale fifo_store =
  fixes push :: "'a list \<Rightarrow> 's \<Rightarrow> 's res"
    and pop :: "nat \<Rightarrow> 's \<Rightarrow> ('a list \<times> 's) res"
    and inv :: "'s \<Rightarrow> bool"
    and abs :: "'s \<Rightarrow> 'a list"
    and cap :: "'s \<Rightarrow> nat option"
  assumes push_law: "\<lbrakk>inv s; within (cap s) (length (abs s) + length xs)\<rbrakk>
      \<Longrightarrow> \<exists>s'. push xs s = Inr s' \<and> inv s' \<and> cap s' = cap s \<and> abs s' = abs s @ xs"
    and pop_law: "\<lbrakk>inv s; n \<le> length (abs s)\<rbrakk>
      \<Longrightarrow> \<exists>s'. pop n s = Inr (take n (abs s), s') \<and> inv s' \<and> cap s' = cap s \<and> abs s' = drop n (abs s)"
begin

primrec run :: "'a fifo_op list \<Rightarrow> 's \<Rightarrow> ('a list \<times> 's) res" where
  "run [] s = Inr ([], s)"
| "run (p # ops) s = (case p of
     Push xs \<Rightarrow> rbind (push xs s) (\<lambda>s. run ops s)
   | Pop n \<Rightarrow> rbind (pop n s) (\<lambda>(out, s). rbind (run ops s) (\<lambda>(rest, s). Inr (out @ rest, s))))"

lemma run_delivers:
  assumes "inv s" and "legal (cap s) (length (abs s)) ops"
  shows "\<exists>out s'. run ops s = Inr (out, s') \<and> inv s' \<and> cap s' = cap s \<and> abs s @ pushed ops = out @ abs s'"
  using assms
proof (induction ops arbitrary: s)
  case Nil
  then show ?case by simp
next
  case (Cons p ops)
  show ?case
  proof (cases p)
    case (Push xs)
    then obtain s1 where s1: "push xs s = Inr s1" "inv s1" "cap s1 = cap s" "abs s1 = abs s @ xs"
      using push_law [of s xs] Cons.prems by auto
    with Push Cons.IH [of s1] Cons.prems show ?thesis by auto
  next
    case (Pop n)
    then obtain s1 where s1: "pop n s = Inr (take n (abs s), s1)" "inv s1" "cap s1 = cap s" "abs s1 = drop n (abs s)"
      using pop_law [of s n] Cons.prems by auto
    with Pop Cons.prems have "legal (cap s1) (length (abs s1)) ops" by simp
    from Cons.IH [OF s1(2) this] obtain out s2 where
      "run ops s1 = Inr (out, s2)" "inv s2" "cap s2 = cap s" "abs s1 @ pushed ops = out @ abs s2"
      using s1(3) by auto
    moreover have "abs s = take n (abs s) @ abs s1" by (simp add: s1(4))
    ultimately show ?thesis using Pop s1(1) by (auto simp: s1(4)) (metis append_assoc append_take_drop_id)
  qed
qed

end

end
