(* ===== verification/Circbuffer.thy ===== *)
theory Circbuffer
  imports Buffer Fifo
begin

text \<open>
  The circular buffer of src/dropbear/src/circbuffer.c: positions and counts are 32-bit, the storage is
  allocated by the first write, and the three consistency checks of \<^verbatim>\<open>cbuf_writelen\<close> are kept with the
  modulus that is undefined on a buffer of size zero. The loop that moves a packet's data into the
  buffer (src/dropbear/src/common-channel.c) is here too, since its termination rests on the buffer's
  arithmetic. The buffer refines a bounded byte queue.
\<close>

record circbuffer =
  cb_size :: u32
  cb_readpos :: u32
  cb_writepos :: u32
  cb_used :: u32
  cb_data :: "byte list option"

abbreviation MAX_CBUF_SIZE :: u32 where "MAX_CBUF_SIZE \<equiv> 100000000"

section \<open>The operations\<close>

definition cbuf_new :: "u32 \<Rightarrow> circbuffer res" where
  "cbuf_new sz = (if sz > MAX_CBUF_SIZE then Inl (Exit ''Bad cbuf size'')
     else Inr \<lparr>cb_size = sz, cb_readpos = 0, cb_writepos = 0, cb_used = 0, cb_data = None\<rparr>)"

text \<open>The value is the storage as \<^verbatim>\<open>m_burn\<close> leaves it for the allocator.\<close>

definition cbuf_free :: "circbuffer \<Rightarrow> byte list option res" where
  "cbuf_free c = (case cb_data c of None \<Rightarrow> Inr None
     | Some d \<Rightarrow> rbind (wr_mem d 0 (replicate (unat (cb_size c)) 0)) (\<lambda>d. Inr (Some d)))"

definition cbuf_getused :: "circbuffer \<Rightarrow> u32" where
  "cbuf_getused c = cb_used c"

definition cbuf_getavail :: "circbuffer \<Rightarrow> u32" where
  "cbuf_getavail c = cb_size c - cb_used c"

definition cbuf_writelen :: "circbuffer \<Rightarrow> u32 res" where
  "cbuf_writelen c =
     rbind (dropbear_assert (cb_used c \<le> cb_size c)) (\<lambda>_.
     rbind (umod (2 * cb_size c + cb_writepos c - cb_readpos c) (cb_size c)) (\<lambda>x.
     rbind (umod (cb_used c) (cb_size c)) (\<lambda>y.
     rbind (dropbear_assert (x = y)) (\<lambda>_.
     rbind (umod (2 * cb_size c + cb_readpos c - cb_writepos c) (cb_size c)) (\<lambda>x.
     rbind (umod (cb_size c - cb_used c) (cb_size c)) (\<lambda>y.
     rbind (dropbear_assert (x = y)) (\<lambda>_.
     if cb_used c = cb_size c then Inr 0
     else if cb_writepos c < cb_readpos c then Inr (cb_readpos c - cb_writepos c)
     else Inr (cb_size c - cb_writepos c))))))))"

text \<open>Two regions: the offset and length of the first, and of the second, which is \<^verbatim>\<open>NULL\<close> when empty.\<close>

definition cbuf_readptrs :: "circbuffer \<Rightarrow> (nat \<times> u32) \<times> (nat option \<times> u32)" where
  "cbuf_readptrs c = (let len1 = min (cb_used c) (cb_size c - cb_readpos c) in
     ((unat (cb_readpos c), len1),
      if len1 < cb_used c then (Some 0, cb_used c - len1) else (None, 0)))"

definition cbuf_writeptr :: "circbuffer \<Rightarrow> u32 \<Rightarrow> (nat \<times> circbuffer) res" where
  "cbuf_writeptr c l = rbind (cbuf_writelen c) (\<lambda>w.
     if l > w then Inl (Exit ''Bad cbuf write'')
     else (case cb_data c of
       Some d \<Rightarrow> Inr (unat (cb_writepos c), c)
     | None \<Rightarrow> if cb_size c = 0 then Inl (Exit ''m_malloc failed'')
         else Inr (unat (cb_writepos c), c\<lparr>cb_data := Some (replicate (unat (cb_size c)) 0)\<rparr>)))"

definition cbuf_incrwrite :: "circbuffer \<Rightarrow> u32 \<Rightarrow> circbuffer res" where
  "cbuf_incrwrite c l = rbind (cbuf_writelen c) (\<lambda>w.
     if l > w then Inl (Exit ''Bad cbuf write'')
     else (let c = c\<lparr>cb_used := cb_used c + l\<rparr> in
       rbind (dropbear_assert (cb_used c \<le> cb_size c)) (\<lambda>_.
       rbind (umod (cb_writepos c + l) (cb_size c)) (\<lambda>w. Inr (c\<lparr>cb_writepos := w\<rparr>)))))"

definition cbuf_incrread :: "circbuffer \<Rightarrow> u32 \<Rightarrow> circbuffer res" where
  "cbuf_incrread c l = rbind (dropbear_assert (cb_used c \<ge> l)) (\<lambda>_.
     let c = c\<lparr>cb_used := cb_used c - l\<rparr> in
     rbind (umod (cb_readpos c + l) (cb_size c)) (\<lambda>r. Inr (c\<lparr>cb_readpos := r\<rparr>)))"

text \<open>An access to the storage, which faults when there is none.\<close>

definition cbuf_store :: "circbuffer \<Rightarrow> nat \<Rightarrow> byte list \<Rightarrow> circbuffer res" where
  "cbuf_store c p bs = (case cb_data c of None \<Rightarrow> Inl Mem_fault
     | Some d \<Rightarrow> rbind (wr_mem d p bs) (\<lambda>d. Inr (c\<lparr>cb_data := Some d\<rparr>)))"

definition cbuf_load :: "circbuffer \<Rightarrow> nat \<Rightarrow> u32 \<Rightarrow> byte list res" where
  "cbuf_load c p l = (if l = 0 then Inr [] else (case cb_data c of None \<Rightarrow> Inl Mem_fault
     | Some d \<Rightarrow> rd_mem d p (unat l)))"

section \<open>Moving a packet's data into the buffer\<close>

text \<open>
  The body of the loop at the end of \<^verbatim>\<open>common_recv_msg_channel_data\<close>, and the loop. A run of the loop
  that does not end is \<open>None\<close>.
\<close>

definition copy_step :: "circbuffer \<Rightarrow> buffer \<Rightarrow> u32 \<Rightarrow> (circbuffer \<times> buffer \<times> u32) res" where
  "copy_step c payload len =
     rbind (cbuf_writelen c) (\<lambda>buflen.
     let buflen = min buflen len in
     rbind (cbuf_writeptr c buflen) (\<lambda>(w, c).
     rbind (buf_getptr payload buflen) (\<lambda>r.
     rbind (rd_mem (buf_data payload) r (unat buflen)) (\<lambda>bs.
     rbind (cbuf_store c w bs) (\<lambda>c.
     rbind (cbuf_incrwrite c buflen) (\<lambda>c.
     rbind (buf_incrpos payload buflen) (\<lambda>payload.
     Inr (c, payload, len - buflen))))))))"

partial_function (option) copy_loop :: "circbuffer \<Rightarrow> buffer \<Rightarrow> u32 \<Rightarrow> (circbuffer \<times> buffer) res option" where
  "copy_loop c payload len = (if len > 0 then
     (case copy_step c payload len of
        Inl e \<Rightarrow> Some (Inl e)
      | Inr r \<Rightarrow> copy_loop (fst r) (fst (snd r)) (snd (snd r)))
   else Some (Inr (c, payload)))"

definition copy_into_cbuf :: "circbuffer \<Rightarrow> buffer \<Rightarrow> u32 \<Rightarrow> (circbuffer \<times> buffer) res" where
  "copy_into_cbuf c payload len = (case copy_loop c payload len of None \<Rightarrow> Inl Diverge | Some r \<Rightarrow> r)"

section \<open>The invariant and the bytes held\<close>

definition cbuf_ok :: "circbuffer \<Rightarrow> bool" where
  "cbuf_ok c \<longleftrightarrow> 0 < unat (cb_size c) \<and> unat (cb_size c) \<le> 100000000
     \<and> unat (cb_readpos c) < unat (cb_size c) \<and> unat (cb_used c) \<le> unat (cb_size c)
     \<and> unat (cb_writepos c) = (unat (cb_readpos c) + unat (cb_used c)) mod unat (cb_size c)
     \<and> (case cb_data c of None \<Rightarrow> cb_used c = 0 | Some d \<Rightarrow> length d = unat (cb_size c))"

definition cbuf_contents :: "circbuffer \<Rightarrow> byte list" where
  "cbuf_contents c = (case cb_data c of None \<Rightarrow> []
     | Some d \<Rightarrow> map (\<lambda>i. d ! ((unat (cb_readpos c) + i) mod length d)) [0 ..< unat (cb_used c)])"

lemma length_cbuf_contents: "cbuf_ok c \<Longrightarrow> length (cbuf_contents c) = unat (cb_used c)"
  by (auto simp: cbuf_contents_def cbuf_ok_def split: option.splits)

lemma unat_cbuf_getavail: "cbuf_ok c \<Longrightarrow> unat (cbuf_getavail c) = unat (cb_size c) - unat (cb_used c)"
  by (simp add: cbuf_getavail_def cbuf_ok_def unat_sub_u32)

text \<open>How far a write can go before it meets the end of the storage or the unread bytes.\<close>

definition linear_room :: "circbuffer \<Rightarrow> nat" where
  "linear_room c = (if cb_used c = cb_size c then 0
     else if unat (cb_writepos c) < unat (cb_readpos c) then unat (cb_readpos c) - unat (cb_writepos c)
     else unat (cb_size c) - unat (cb_writepos c))"

lemma wrap_add:
  "(r::nat) < n \<Longrightarrow> u \<le> n \<Longrightarrow> (r + u) mod n = (if r + u < n then r + u else r + u - n)"
  by (auto simp: mod_if le_mod_geq)

lemma cbuf_ring:
  assumes "cbuf_ok c"
  shows "unat (cb_writepos c) = (if unat (cb_readpos c) + unat (cb_used c) < unat (cb_size c)
      then unat (cb_readpos c) + unat (cb_used c)
      else unat (cb_readpos c) + unat (cb_used c) - unat (cb_size c))"
  using assms wrap_add [of "unat (cb_readpos c)" "unat (cb_size c)" "unat (cb_used c)"]
  by (simp add: cbuf_ok_def)

lemma ring_sum:
  assumes "unat s \<le> 100000000" and "unat x < unat s" and "unat y < unat (s :: u32)"
  shows "unat (2 * s + x - y) = 2 * unat s + unat x - unat y"
proof -
  have "unat (2 * s) = 2 * unat s" using assms by (simp add: unat_mult_u32)
  moreover have "unat (2 * s + x) = 2 * unat s + unat x" using assms calculation by (simp add: unat_add_u32)
  ultimately show ?thesis using assms by (simp add: unat_sub_u32)
qed

lemma cbuf_writelen_eq:
  assumes "cbuf_ok c"
  shows "\<exists>w. cbuf_writelen c = Inr w \<and> unat w = linear_room c"
proof -
  define s r w u where "s = unat (cb_size c)" and "r = unat (cb_readpos c)"
    and "w = unat (cb_writepos c)" and "u = unat (cb_used c)"
  have b: "0 < s" "s \<le> 100000000" "r < s" "u \<le> s" "w < s"
    using assms by (auto simp: cbuf_ok_def s_def r_def w_def u_def)
  have w: "w = (if r + u < s then r + u else r + u - s)"
    using cbuf_ring [OF assms] by (simp add: s_def r_def w_def u_def)
  have sums: "unat (2 * cb_size c + cb_writepos c - cb_readpos c) = 2 * s + w - r"
      "unat (2 * cb_size c + cb_readpos c - cb_writepos c) = 2 * s + r - w"
    using b ring_sum [of "cb_size c" "cb_writepos c" "cb_readpos c"]
      ring_sum [of "cb_size c" "cb_readpos c" "cb_writepos c"]
    by (auto simp: s_def r_def w_def)
  have m1: "(2 * s + w - r) mod s = u mod s"
  proof (cases "r + u < s")
    case True
    then have "2 * s + w - r = u + s + s" using w b by simp
    then show ?thesis by simp
  next
    case False
    then have "2 * s + w - r = u + s" using w b by simp
    then show ?thesis by simp
  qed
  have m2: "(2 * s + r - w) mod s = (s - u) mod s"
  proof (cases "r + u < s")
    case True
    then have "2 * s + r - w = (s - u) + s" using w b by simp
    then show ?thesis by simp
  next
    case False
    then have "2 * s + r - w = (s - u) + s + s" using w b by simp
    then show ?thesis by simp
  qed
  have sz: "cb_size c \<noteq> 0" using b by (auto simp: s_def)
  have a1: "(2 * cb_size c + cb_writepos c - cb_readpos c) mod cb_size c = cb_used c mod cb_size c"
    using m1 by (simp add: u32_eq_iff unat_mod_u32 sums s_def u_def)
  have a2: "(2 * cb_size c + cb_readpos c - cb_writepos c) mod cb_size c = (cb_size c - cb_used c) mod cb_size c"
  proof -
    have "unat (cb_size c - cb_used c) = s - u" using b by (simp add: unat_sub_u32 s_def u_def)
    then show ?thesis using m2 by (simp add: u32_eq_iff unat_mod_u32 sums s_def)
  qed
  have le: "cb_used c \<le> cb_size c" using b by (simp add: word_le_nat_alt s_def u_def)
  show ?thesis
    using sz a1 a2 le b
    by (auto simp: cbuf_writelen_def umod_def linear_room_def word_less_nat_alt unat_sub_u32 s_def r_def w_def u_def)
qed

lemma linear_room_avail: "cbuf_ok c \<Longrightarrow> unat (cb_used c) + linear_room c \<le> unat (cb_size c)"
  using cbuf_ring [of c] by (auto simp: linear_room_def cbuf_ok_def u32_eq_iff split: if_splits)

lemma linear_room_fits: "cbuf_ok c \<Longrightarrow> unat (cb_writepos c) + linear_room c \<le> unat (cb_size c)"
  by (auto simp: linear_room_def cbuf_ok_def)

lemma linear_room_pos: "cbuf_ok c \<Longrightarrow> unat (cb_used c) < unat (cb_size c) \<Longrightarrow> 0 < linear_room c"
  by (auto simp: linear_room_def cbuf_ok_def u32_eq_iff)

section \<open>Writing and reading\<close>

lemma ring_write:
  fixes r u w n :: nat
  assumes n: "n = length d" and r: "r < n" and fits: "u + length bs \<le> n"
    and w: "w = (r + u) mod n" and lin: "w + length bs \<le> n"
  shows "map (\<lambda>i. (take w d @ bs @ drop (w + length bs) d) ! ((r + i) mod n)) [0 ..< u + length bs]
    = map (\<lambda>i. d ! ((r + i) mod n)) [0 ..< u] @ bs"
proof (rule nth_equalityI)
  show "length (map (\<lambda>i. (take w d @ bs @ drop (w + length bs) d) ! ((r + i) mod n)) [0 ..< u + length bs])
      = length (map (\<lambda>i. d ! ((r + i) mod n)) [0 ..< u] @ bs)" by simp
next
  let ?d = "take w d @ bs @ drop (w + length bs) d"
  fix i assume "i < length (map (\<lambda>i. ?d ! ((r + i) mod n)) [0 ..< u + length bs])"
  then have i: "i < u + length bs" by simp
  have wr: "w = (if r + u < n then r + u else r + u - n)"
    using wrap_add [of r n u] w r fits by simp
  have "?d ! ((r + i) mod n) = (if i < u then d ! ((r + i) mod n) else bs ! (i - u))"
  proof (cases "i < u")
    case True
    define k where "k = (r + i) mod n"
    have k: "k = (if r + i < n then r + i else r + i - n)"
      using wrap_add [of r n i] r fits i by (simp add: k_def)
    have "k < w \<or> w + length bs \<le> k" and "k < n"
      using k wr True fits i r lin by (auto split: if_splits)
    then show ?thesis
      using True n lin unfolding k_def [symmetric] by (auto simp: nth_append)
  next
    case False
    have "(r + i) mod n = w + (i - u)"
    proof -
      have "(r + i) mod n = (w + (i - u)) mod n"
        using False unfolding w by (subst mod_add_left_eq) simp
      also have "\<dots> = w + (i - u)" using i lin False by (intro mod_less) linarith
      finally show ?thesis .
    qed
    moreover have "i - u < length bs" using False i by linarith
    ultimately show ?thesis using False n lin by (simp add: nth_append) linarith
  qed
  moreover have "map (\<lambda>i. ?d ! ((r + i) mod n)) [0 ..< u + length bs] ! i = ?d ! ((r + i) mod n)"
    using i by (subst nth_map) auto
  moreover have "(map (\<lambda>i. d ! ((r + i) mod n)) [0 ..< u] @ bs) ! i
      = (if i < u then d ! ((r + i) mod n) else bs ! (i - u))"
    by (simp add: nth_append)
  ultimately show "map (\<lambda>i. ?d ! ((r + i) mod n)) [0 ..< u + length bs] ! i
      = (map (\<lambda>i. d ! ((r + i) mod n)) [0 ..< u] @ bs) ! i"
    by (simp only:)
qed

lemma cbuf_writeptr_eq:
  assumes "cbuf_ok c" and "unat l \<le> linear_room c" and "0 < unat (cb_size c)"
  shows "\<exists>c1 d. cbuf_writeptr c l = Inr (unat (cb_writepos c), c1) \<and> cbuf_ok c1 \<and> cb_data c1 = Some d
    \<and> c1 = c\<lparr>cb_data := Some d\<rparr> \<and> cbuf_contents c1 = cbuf_contents c \<and> linear_room c1 = linear_room c"
proof -
  obtain w where "cbuf_writelen c = Inr w" "unat w = linear_room c"
    using cbuf_writelen_eq [OF assms(1)] by blast
  with assms show ?thesis
    by (cases "cb_data c")
      (auto simp: cbuf_writeptr_def cbuf_ok_def cbuf_contents_def linear_room_def word_less_nat_alt)
qed

lemma cbuf_incrwrite_eq:
  assumes "cbuf_ok c" and "unat l \<le> linear_room c"
  shows "cbuf_incrwrite c l = Inr (c\<lparr>cb_used := cb_used c + l,
     cb_writepos := (cb_writepos c + l) mod cb_size c\<rparr>)"
proof -
  obtain w where w: "cbuf_writelen c = Inr w" "unat w = linear_room c"
    using cbuf_writelen_eq [OF assms(1)] by blast
  have "cb_used c + l \<le> cb_size c"
    using assms linear_room_avail [OF assms(1)] by (auto simp: word_le_nat_alt unat_add_u32 cbuf_ok_def)
  moreover have "cb_size c \<noteq> 0" using assms(1) by (auto simp: cbuf_ok_def)
  ultimately show ?thesis
    using w assms(2) by (simp add: cbuf_incrwrite_def umod_def word_less_nat_alt Let_def)
qed

lemma linear_room_data [simp]: "linear_room (c\<lparr>cb_data := x\<rparr>) = linear_room c"
  by (simp add: linear_room_def)

text \<open>One chunk, as the copy loop writes it: reserve, store, account.\<close>

lemma cbuf_chunk:
  assumes ok: "cbuf_ok c" and l: "unat l \<le> linear_room c" and bs: "length bs = unat l"
  shows "\<exists>c1 c2 c3. cbuf_writeptr c l = Inr (unat (cb_writepos c), c1)
     \<and> cbuf_store c1 (unat (cb_writepos c)) bs = Inr c2 \<and> cbuf_incrwrite c2 l = Inr c3
     \<and> cbuf_ok c3 \<and> cb_size c3 = cb_size c \<and> cbuf_contents c3 = cbuf_contents c @ bs"
proof -
  have s0: "0 < unat (cb_size c)" "unat (cb_size c) \<le> 100000000" using ok by (auto simp: cbuf_ok_def)
  obtain c1 d where c1: "cbuf_writeptr c l = Inr (unat (cb_writepos c), c1)" "cbuf_ok c1"
      "c1 = c\<lparr>cb_data := Some d\<rparr>" "cbuf_contents c1 = cbuf_contents c"
    using cbuf_writeptr_eq [OF ok l s0(1)] by blast
  have d: "length d = unat (cb_size c)" using c1 by (simp add: cbuf_ok_def)
  define w where "w = unat (cb_writepos c)"
  define d' where "d' = take w d @ bs @ drop (w + length bs) d"
  have lin: "w + unat l \<le> unat (cb_size c)" and av: "unat (cb_used c) + unat l \<le> unat (cb_size c)"
    using linear_room_fits [OF ok] linear_room_avail [OF ok] l by (auto simp: w_def)
  have st: "cbuf_store c1 w bs = Inr (c\<lparr>cb_data := Some d'\<rparr>)"
    using lin d bs c1(3) by (simp add: cbuf_store_def wr_mem_def d'_def)
  have d': "length d' = unat (cb_size c)" using lin d bs by (simp add: d'_def)
  have ok2: "cbuf_ok (c\<lparr>cb_data := Some d'\<rparr>)" using ok d' by (simp add: cbuf_ok_def)
  define c3 where "c3 = c\<lparr>cb_data := Some d', cb_used := cb_used c + l,
     cb_writepos := (cb_writepos c + l) mod cb_size c\<rparr>"
  have inc: "cbuf_incrwrite (c\<lparr>cb_data := Some d'\<rparr>) l = Inr c3"
    using cbuf_incrwrite_eq [OF ok2, of l] l by (simp add: c3_def linear_room_data)
  have u3: "unat (cb_used c3) = unat (cb_used c) + unat l"
    using av s0 by (simp add: c3_def unat_add_u32)
  have w3: "unat (cb_writepos c3) = (w + unat l) mod unat (cb_size c)"
    using lin s0 by (simp add: c3_def unat_mod_u32 unat_add_u32 w_def)
  have w: "w = (unat (cb_readpos c) + unat (cb_used c)) mod unat (cb_size c)" and r: "unat (cb_readpos c) < unat (cb_size c)"
    using ok by (auto simp: cbuf_ok_def w_def)
  have "cbuf_ok c3"
    using ok u3 w3 w av d' unfolding cbuf_ok_def by (simp add: c3_def mod_simps add.assoc)
  moreover have "cbuf_contents c3 = cbuf_contents c @ bs"
    using ring_write [OF d [symmetric] r _ w, of bs] av lin bs d d' u3 c1(4)
    by (simp add: cbuf_contents_def c3_def c1(3) d'_def)
  moreover have "cb_size c3 = cb_size c" by (simp add: c3_def)
  ultimately show ?thesis using c1(1) st inc by (auto simp: w_def)
qed

lemma cbuf_incrread_eq:
  assumes ok: "cbuf_ok c" and l: "unat l \<le> unat (cb_used c)"
  shows "\<exists>c1. cbuf_incrread c l = Inr c1 \<and> cbuf_ok c1 \<and> cb_size c1 = cb_size c
     \<and> cb_data c1 = cb_data c \<and> unat (cb_used c1) = unat (cb_used c) - unat l
     \<and> cbuf_contents c1 = drop (unat l) (cbuf_contents c)"
proof -
  define c1 where "c1 = c\<lparr>cb_used := cb_used c - l, cb_readpos := (cb_readpos c + l) mod cb_size c\<rparr>"
  have s0: "0 < unat (cb_size c)" "unat (cb_size c) \<le> 100000000" using ok by (auto simp: cbuf_ok_def)
  have r: "unat (cb_readpos c1) = (unat (cb_readpos c) + unat l) mod unat (cb_size c)"
    and u: "unat (cb_used c1) = unat (cb_used c) - unat l"
    using ok l by (auto simp: c1_def unat_mod_u32 unat_add_u32 unat_sub_u32 cbuf_ok_def)
  have "cb_size c \<noteq> 0" using s0 by auto
  then have "cbuf_incrread c l = Inr c1"
    using l by (simp add: cbuf_incrread_def c1_def umod_def word_le_nat_alt Let_def)
  moreover have "((unat (cb_readpos c) + unat l) mod unat (cb_size c) + (unat (cb_used c) - unat l)) mod unat (cb_size c)
      = (unat (cb_readpos c) + unat (cb_used c)) mod unat (cb_size c)"
    using l by (subst mod_add_left_eq) (simp add: add.assoc)
  then have "(unat (cb_readpos c1) + unat (cb_used c1)) mod unat (cb_size c)
      = (unat (cb_readpos c) + unat (cb_used c)) mod unat (cb_size c)"
    by (simp add: r u)
  then have "cbuf_ok c1"
    using ok r u l s0 unfolding cbuf_ok_def by (auto simp: c1_def u32_eq_iff split: option.splits)
  moreover have "cbuf_contents c1 = drop (unat l) (cbuf_contents c)"
    using ok r u l
    by (auto simp: cbuf_contents_def c1_def cbuf_ok_def drop_map mod_simps intro!: nth_equalityI split: option.splits)
      (simp_all add: ac_simps)
  ultimately show ?thesis using u by (auto simp: c1_def)
qed

lemma ring_split:
  fixes r u n :: nat
  assumes "n = length d" and "r < n" and "u \<le> n"
  shows "map (\<lambda>i. d ! ((r + i) mod n)) [0 ..< u]
    = take (min u (n - r)) (drop r d) @ take (u - min u (n - r)) d"
proof (rule nth_equalityI)
  fix i assume "i < length (map (\<lambda>i. d ! ((r + i) mod n)) [0 ..< u])"
  then have i: "i < u" by simp
  then show "map (\<lambda>i. d ! ((r + i) mod n)) [0 ..< u] ! i
      = (take (min u (n - r)) (drop r d) @ take (u - min u (n - r)) d) ! i"
    using wrap_add [of r n i] assms by (auto simp: nth_append min_def add.commute)
qed (use assms in auto)

lemma cbuf_readptrs_eq:
  assumes ok: "cbuf_ok c" and ptrs: "cbuf_readptrs c = ((p1, len1), (p2, len2))"
  shows "\<exists>xs ys. cbuf_load c p1 len1 = Inr xs \<and> cbuf_load c (case p2 of None \<Rightarrow> 0 | Some p \<Rightarrow> p) len2 = Inr ys
     \<and> xs @ ys = cbuf_contents c \<and> unat len1 + unat len2 = unat (cb_used c)
     \<and> unat (len1 + len2) = unat (cb_used c)"
proof -
  define s r u where "s = unat (cb_size c)" and "r = unat (cb_readpos c)" and "u = unat (cb_used c)"
  have b: "0 < s" "s \<le> 100000000" "r < s" "u \<le> s"
    using ok by (auto simp: cbuf_ok_def s_def r_def u_def)
  have l1: "unat len1 = min u (s - r)" and p1: "p1 = r" and p2: "(case p2 of None \<Rightarrow> 0 | Some p \<Rightarrow> p) = 0"
    and l2: "unat len2 = u - min u (s - r)"
    using ptrs b
    by (auto simp: cbuf_readptrs_def Let_def unat_min_u32 unat_sub_u32 word_less_nat_alt s_def r_def u_def split: if_splits)
  have sum: "unat len1 + unat len2 = u" "unat (len1 + len2) = u"
    using l1 l2 b by (auto simp: unat_add_u32)
  show ?thesis
  proof (cases "cb_data c")
    case None
    then have "u = 0" using ok by (simp add: cbuf_ok_def u_def)
    then have "len1 = 0" "len2 = 0" using sum by (auto simp: u32_eq_iff)
    with None sum show ?thesis by (simp add: cbuf_load_def cbuf_contents_def u_def)
  next
    case (Some d)
    then have d: "length d = s" using ok by (simp add: cbuf_ok_def s_def)
    have "cbuf_load c p1 len1 = Inr (take (min u (s - r)) (drop r d))"
      using Some d b l1 by (auto simp: cbuf_load_def p1 rd_mem_def)
    moreover have "cbuf_load c 0 len2 = Inr (take (u - min u (s - r)) d)"
      using Some d b l2 by (auto simp: cbuf_load_def rd_mem_def)
    moreover have "cbuf_contents c = take (min u (s - r)) (drop r d) @ take (u - min u (s - r)) d"
      using ring_split [OF d [symmetric] b(3,4)] Some d by (simp add: cbuf_contents_def r_def u_def)
    ultimately show ?thesis using sum by (simp add: p2 u_def)
  qed
qed

lemma copy_step_eq:
  assumes ok: "cbuf_ok c" and p: "buf_ok p" and pos: "0 < unat len"
    and av: "unat len \<le> unat (cbuf_getavail c)" and rest: "unat len \<le> length (buf_rest p)"
  shows "\<exists>c' n len'. copy_step c p len = Inr (c', adv p n, len') \<and> 0 < n \<and> n \<le> unat len
     \<and> unat len' = unat len - n \<and> cbuf_ok c' \<and> cb_size c' = cb_size c
     \<and> cbuf_contents c' = cbuf_contents c @ take n (buf_rest p)"
proof -
  obtain w where w: "cbuf_writelen c = Inr w" "unat w = linear_room c"
    using cbuf_writelen_eq [OF ok] by blast
  define n where "n = unat (min w len)"
  have "0 < linear_room c"
    using linear_room_pos [OF ok] unat_cbuf_getavail [OF ok] av pos by simp
  then have n: "0 < n" "n \<le> unat len" "n \<le> linear_room c"
    using w pos by (auto simp: n_def unat_min_u32)
  then have nr: "n \<le> length (buf_rest p)" using rest by simp
  from n(3) obtain c1 c2 c3 where c: "cbuf_writeptr c (min w len) = Inr (unat (cb_writepos c), c1)"
      "cbuf_store c1 (unat (cb_writepos c)) (take n (buf_rest p)) = Inr c2"
      "cbuf_incrwrite c2 (min w len) = Inr c3" "cbuf_ok c3" "cb_size c3 = cb_size c"
      "cbuf_contents c3 = cbuf_contents c @ take n (buf_rest p)"
    using cbuf_chunk [OF ok, of "min w len" "take n (buf_rest p)"] nr by (auto simp: n_def)
  have "copy_step c p len = Inr (c3, adv p n, len - min w len)"
    using w c nr rd_rest [OF p nr]
    by (simp add: copy_step_def Let_def n_def [symmetric] buf_getptr_eq [OF p] buf_incrpos_eq [OF p])
  moreover have "unat (len - min w len) = unat len - n"
    using n(2) by (simp add: unat_sub_u32 n_def)
  ultimately show ?thesis using n c by blast
qed

lemma copy_loop_eq:
  assumes "cbuf_ok c" and "buf_ok p"
    and "unat len \<le> unat (cbuf_getavail c)" and "unat len \<le> length (buf_rest p)"
  shows "\<exists>c'. copy_loop c p len = Some (Inr (c', adv p (unat len))) \<and> cbuf_ok c' \<and> cb_size c' = cb_size c
     \<and> cbuf_contents c' = cbuf_contents c @ take (unat len) (buf_rest p)"
  using assms
proof (induction "unat len" arbitrary: c p len rule: less_induct)
  case less
  show ?case
  proof (cases "unat len = 0")
    case True
    then have "len = 0" by (simp add: u32_eq_iff)
    with less.prems show ?thesis by (simp add: copy_loop.simps adv_def)
  next
    case False
    then obtain c1 n len1 where step: "copy_step c p len = Inr (c1, adv p n, len1)" "0 < n" "n \<le> unat len"
        "unat len1 = unat len - n" "cbuf_ok c1" "cb_size c1 = cb_size c"
        "cbuf_contents c1 = cbuf_contents c @ take n (buf_rest p)"
      using copy_step_eq [OF less.prems(1,2)] less.prems(3,4) by blast
    have n: "n \<le> length (buf_rest p)" using step(3) less.prems(4) by simp
    have used: "unat (cb_used c1) = unat (cb_used c) + n"
      using length_cbuf_contents [OF step(5)] length_cbuf_contents [OF less.prems(1)] step(7) n by simp
    have av: "unat len1 \<le> unat (cbuf_getavail c1)"
      using less.prems(3) step(4,6) used unat_cbuf_getavail [OF step(5)] unat_cbuf_getavail [OF less.prems(1)] by simp
    have rest: "buf_rest (adv p n) = drop n (buf_rest p)" by (rule buf_rest_adv [OF less.prems(2) n])
    obtain c2 where "copy_loop c1 (adv p n) len1 = Some (Inr (c2, adv (adv p n) (unat len1)))" "cbuf_ok c2"
        "cb_size c2 = cb_size c1" "cbuf_contents c2 = cbuf_contents c1 @ take (unat len1) (buf_rest (adv p n))"
      using less.hyps [OF _ step(5) buf_ok_adv [OF less.prems(2) n] av] step(2-4) less.prems(4) rest
      by (metis diff_le_mono diff_less length_drop less_le_trans)
    moreover have "take n (buf_rest p) @ take (unat len - n) (drop n (buf_rest p)) = take (unat len) (buf_rest p)"
      using step(3) by (simp flip: take_add)
    moreover have "0 < len" using False by (simp add: word_less_nat_alt)
    ultimately show ?thesis
      using step False rest by (simp add: copy_loop.simps [of c] adv_adv)
  qed
qed

section \<open>The circular buffer is a bounded byte queue\<close>

text \<open>
  A push is the copy loop on a payload that holds the bytes; a pop is what \<^verbatim>\<open>writechannel_writev\<close> does
  when the descriptor accepts \<open>n\<close> bytes of the regions offered.
\<close>

definition cbuf_push :: "byte list \<Rightarrow> circbuffer \<Rightarrow> circbuffer res" where
  "cbuf_push xs c = rbind (copy_into_cbuf c
      \<lparr>buf_data = xs, buf_len = of_nat (length xs), buf_pos = 0, buf_size = of_nat (length xs)\<rparr>
      (of_nat (length xs))) (\<lambda>(c, p). Inr c)"

definition cbuf_pop :: "nat \<Rightarrow> circbuffer \<Rightarrow> (byte list \<times> circbuffer) res" where
  "cbuf_pop n c = (case cbuf_readptrs c of ((p1, len1), (p2, len2)) \<Rightarrow>
     rbind (cbuf_load c p1 len1) (\<lambda>xs.
     rbind (cbuf_load c (case p2 of None \<Rightarrow> 0 | Some p \<Rightarrow> p) len2) (\<lambda>ys.
     rbind (cbuf_incrread c (of_nat n)) (\<lambda>c. Inr (take n (xs @ ys), c)))))"

lemma cbuf_pop_eq:
  assumes ok: "cbuf_ok c" and n: "n \<le> length (cbuf_contents c)"
  shows "\<exists>c'. cbuf_pop n c = Inr (take n (cbuf_contents c), c') \<and> cbuf_ok c' \<and> cb_size c' = cb_size c
     \<and> cbuf_contents c' = drop n (cbuf_contents c)"
proof -
  have le: "n \<le> unat (cb_used c)" using n length_cbuf_contents [OF ok] by simp
  then have "n < 4294967296" using unat_lt_u32 [of "cb_used c"] by linarith
  then have u: "unat (of_nat n :: u32) = n" by (simp add: unat_of_nat_u32)
  obtain p1 len1 p2 len2 where ptrs: "cbuf_readptrs c = ((p1, len1), (p2, len2))" by (metis surj_pair)
  from cbuf_readptrs_eq [OF ok ptrs] obtain xs ys where
    "cbuf_load c p1 len1 = Inr xs" "cbuf_load c (case p2 of None \<Rightarrow> 0 | Some p \<Rightarrow> p) len2 = Inr ys"
    "xs @ ys = cbuf_contents c" by blast
  moreover obtain c1 where "cbuf_incrread c (of_nat n) = Inr c1" "cbuf_ok c1" "cb_size c1 = cb_size c"
      "cbuf_contents c1 = drop n (cbuf_contents c)"
    using cbuf_incrread_eq [OF ok, of "of_nat n"] le u by auto
  ultimately show ?thesis using ptrs by (simp add: cbuf_pop_def del: take_append)
qed

lemma cbuf_push_eq:
  assumes ok: "cbuf_ok c" and fits: "length (cbuf_contents c) + length xs \<le> unat (cb_size c)"
  shows "\<exists>c'. cbuf_push xs c = Inr c' \<and> cbuf_ok c' \<and> cb_size c' = cb_size c
     \<and> cbuf_contents c' = cbuf_contents c @ xs"
proof -
  let ?n = "of_nat (length xs) :: u32"
  let ?p = "\<lparr>buf_data = xs, buf_len = ?n, buf_pos = 0, buf_size = ?n\<rparr>"
  have "length xs \<le> 100000000" using fits ok by (simp add: cbuf_ok_def)
  then have n: "unat ?n = length xs" and p: "buf_ok ?p"
    by (simp_all add: unat_of_nat_u32 buf_ok_def)
  have rest: "buf_rest ?p = xs" by (simp add: buf_rest_def n)
  have "unat ?n \<le> unat (cbuf_getavail c)"
    using fits length_cbuf_contents [OF ok] unat_cbuf_getavail [OF ok] n by simp
  from copy_loop_eq [OF ok p this] rest n show ?thesis
    by (auto simp: cbuf_push_def copy_into_cbuf_def)
qed

interpretation cbuf_fifo: fifo_store cbuf_push cbuf_pop cbuf_ok cbuf_contents "\<lambda>c. Some (unat (cb_size c))"
proof
  fix c and xs :: "byte list" assume "cbuf_ok c" "within (Some (unat (cb_size c))) (length (cbuf_contents c) + length xs)"
  then show "\<exists>c'. cbuf_push xs c = Inr c' \<and> cbuf_ok c' \<and> Some (unat (cb_size c')) = Some (unat (cb_size c))
      \<and> cbuf_contents c' = cbuf_contents c @ xs"
    using cbuf_push_eq [of c xs] by auto
next
  fix c and n :: nat assume "cbuf_ok c" "n \<le> length (cbuf_contents c)"
  then show "\<exists>c'. cbuf_pop n c = Inr (take n (cbuf_contents c), c') \<and> cbuf_ok c'
      \<and> Some (unat (cb_size c')) = Some (unat (cb_size c)) \<and> cbuf_contents c' = drop n (cbuf_contents c)"
    using cbuf_pop_eq [of c n] by auto
qed

section \<open>Properties\<close>

lemma cbuf_new_ok:
  "0 < unat sz \<Longrightarrow> unat sz \<le> 100000000 \<Longrightarrow>
    \<exists>c. cbuf_new sz = Inr c \<and> cbuf_ok c \<and> cbuf_contents c = [] \<and> cb_size c = sz"
  by (simp add: cbuf_new_def cbuf_ok_def cbuf_contents_def word_less_nat_alt)

text \<open>
  C10. The circular buffer is a bounded first-in first-out byte queue: for every sequence of writes that
  fit and reads of what is there, starting from a new buffer of any admissible non-zero size, no
  consistency check of \<^verbatim>\<open>cbuf_writelen\<close> fails, no access leaves the storage, the copy loop ends, and the
  bytes read followed by the bytes still held are exactly the bytes written, in order.
\<close>

theorem cbuf_fifo_refines:
  assumes "0 < unat sz" and "unat sz \<le> 100000000" and "legal (Some (unat sz)) 0 ops"
  shows "\<exists>out c'. rbind (cbuf_new sz) (cbuf_fifo.run ops) = Inr (out, c') \<and> cbuf_ok c'
     \<and> pushed ops = out @ cbuf_contents c'"
proof -
  obtain c where c: "cbuf_new sz = Inr c" "cbuf_ok c" "cbuf_contents c = []" "cb_size c = sz"
    using cbuf_new_ok [OF assms(1,2)] by blast
  with cbuf_fifo.run_delivers [of c ops] assms(3) show ?thesis by auto
qed

theorem cbuf_fifo_refines_witness:
  "\<exists>out c'. rbind (cbuf_new 3) (cbuf_fifo.run [Push [1, 2], Pop 1, Push [3, 4], Pop 2]) = Inr (out, c') \<and> cbuf_ok c'
     \<and> [1, 2, 3, 4] = out @ cbuf_contents c'"
  using cbuf_fifo_refines [of 3 "[Push [1, 2], Pop 1, Push [3, 4], Pop 2]"] by simp

text \<open>
  The copy loop of \<^verbatim>\<open>common_recv_msg_channel_data\<close> terminates and stores exactly the payload bytes: when
  \<^verbatim>\<open>len\<close> bytes fit the buffer and are left in the packet, it returns with them appended to what the buffer
  held, wrap-around included, and with the payload advanced past them.
\<close>

theorem copy_into_cbuf_total:
  assumes "cbuf_ok c" and "buf_ok p"
    and "unat len \<le> unat (cbuf_getavail c)" and "unat len \<le> length (buf_rest p)"
  shows "\<exists>c'. copy_into_cbuf c p len = Inr (c', adv p (unat len)) \<and> cbuf_ok c'
     \<and> cbuf_contents c' = cbuf_contents c @ take (unat len) (buf_rest p)"
  using copy_loop_eq [OF assms] by (auto simp: copy_into_cbuf_def)

theorem copy_into_cbuf_total_witness:
  "\<exists>c'. copy_into_cbuf \<lparr>cb_size = 4, cb_readpos = 2, cb_writepos = 3, cb_used = 1, cb_data = Some [0, 0, 9, 0]\<rparr>
       \<lparr>buf_data = [5, 6, 7], buf_len = 3, buf_pos = 0, buf_size = 3\<rparr> 3
     = Inr (c', adv \<lparr>buf_data = [5, 6, 7], buf_len = 3, buf_pos = 0, buf_size = 3\<rparr> 3) \<and> cbuf_ok c'
     \<and> cbuf_contents c' = [9, 5, 6, 7]"
  using copy_into_cbuf_total [of "\<lparr>cb_size = 4, cb_readpos = 2, cb_writepos = 3, cb_used = 1, cb_data = Some [0, 0, 9, 0]\<rparr>"
      "\<lparr>buf_data = [5, 6, 7], buf_len = 3, buf_pos = 0, buf_size = 3\<rparr>" 3]
  by (simp add: cbuf_ok_def buf_ok_def cbuf_getavail_def buf_rest_def cbuf_contents_def upt_rec)

end
