(* ===== verification/Queue.thy ===== *)
theory Queue
  imports Buffer Fifo
begin

text \<open>
  The singly linked queue of src/dropbear/src/queue.c, with its nodes in an explicit heap: a pointer is
  an address, a null pointer is \<open>None\<close>, an allocation takes an address not used before and a free removes
  it, so that a stale pointer faults. The queue refines a list. On top of it are the two functions of
  src/dropbear/src/netio.c that send the front of the queue of outgoing packets and account for what
  was sent.
\<close>

record 'a Link =
  link_item :: 'a
  link_link :: "nat option"

record 'a Queue =
  q_head :: "nat option"
  q_tail :: "nat option"
  q_count :: u32
  q_heap :: "nat \<Rightarrow> 'a Link option"
  q_fresh :: nat

section \<open>The operations\<close>

definition initqueue :: "'a Queue \<Rightarrow> 'a Queue" where
  "initqueue q = q\<lparr>q_head := None, q_tail := None, q_count := 0\<rparr>"

definition isempty :: "'a Queue \<Rightarrow> bool" where
  "isempty q \<longleftrightarrow> q_head q = None"

definition deref :: "'a Queue \<Rightarrow> nat option \<Rightarrow> 'a Link res" where
  "deref q p = (case p of None \<Rightarrow> Inl Mem_fault
     | Some a \<Rightarrow> (case q_heap q a of None \<Rightarrow> Inl Mem_fault | Some l \<Rightarrow> Inr l))"

definition m_free_link :: "'a Queue \<Rightarrow> nat option \<Rightarrow> 'a Queue" where
  "m_free_link q p = (case p of None \<Rightarrow> q | Some a \<Rightarrow> q\<lparr>q_heap := (q_heap q)(a := None)\<rparr>)"

definition dequeue :: "'a Queue \<Rightarrow> ('a \<times> 'a Queue) res" where
  "dequeue q = rbind (dropbear_assert (\<not> isempty q)) (\<lambda>_.
     rbind (deref q (q_head q)) (\<lambda>l.
     let ret = link_item l; oldhead = q_head q;
         q = (if link_link l \<noteq> None then q\<lparr>q_head := link_link l\<rparr>
              else q\<lparr>q_head := None, q_tail := None\<rparr>);
         q = m_free_link q oldhead in
     Inr (ret, q\<lparr>q_count := q_count q - 1\<rparr>)))"

definition examine :: "'a Queue \<Rightarrow> 'a res" where
  "examine q = rbind (dropbear_assert (\<not> isempty q)) (\<lambda>_.
     rbind (deref q (q_head q)) (\<lambda>l. Inr (link_item l)))"

definition enqueue :: "'a Queue \<Rightarrow> 'a \<Rightarrow> 'a Queue res" where
  "enqueue q item = (let newlink = q_fresh q;
       q = q\<lparr>q_fresh := newlink + 1,
             q_heap := (q_heap q)(newlink := Some \<lparr>link_item = item, link_link = None\<rparr>)\<rparr> in
     rbind (case q_tail q of None \<Rightarrow> Inr q
       | Some t \<Rightarrow> rbind (deref q (Some t)) (\<lambda>l.
           Inr (q\<lparr>q_heap := (q_heap q)(t := Some (l\<lparr>link_link := Some newlink\<rparr>))\<rparr>))) (\<lambda>q.
     let q = q\<lparr>q_tail := Some newlink\<rparr>;
         q = (if q_head q = None then q\<lparr>q_head := Some newlink\<rparr> else q) in
     Inr (q\<lparr>q_count := q_count q + 1\<rparr>)))"

text \<open>The queue as the program starts with it: nothing is allocated.\<close>

definition queue0 :: "'a Queue" where
  "queue0 = \<lparr>q_head = None, q_tail = None, q_count = 0, q_heap = (\<lambda>_. None), q_fresh = 0\<rparr>"

text \<open>
  The items of the packet queue are pointers to buffers that only the queue refers to, so a change
  through the pointer \<^verbatim>\<open>examine\<close> returned is a change of the item in the first node.
\<close>

definition update_head :: "'a Queue \<Rightarrow> 'a \<Rightarrow> 'a Queue res" where
  "update_head q item = (case q_head q of None \<Rightarrow> Inl Mem_fault
     | Some a \<Rightarrow> rbind (deref q (Some a)) (\<lambda>l. Inr (q\<lparr>q_heap := (q_heap q)(a := Some (l\<lparr>link_item := item\<rparr>))\<rparr>)))"

section \<open>Sending the front of the packet queue\<close>

text \<open>
  \<^verbatim>\<open>len\<close> is a signed \<^verbatim>\<open>int\<close>. The regions filled are returned as the bytes they cover; \<open>IOV_MAX\<close> is the
  platform's limit, the argument \<open>iov_count\<close> the size of the caller's array.
\<close>

definition packet_len :: "buffer \<Rightarrow> int" where
  "packet_len b = sint (buf_len b - buf_pos b)"

primrec iovec_fill :: "nat \<Rightarrow> buffer Queue \<Rightarrow> nat option \<Rightarrow> byte list list res" where
  "iovec_fill 0 q l = Inr []"
| "iovec_fill (Suc n) q l = rbind (deref q l) (\<lambda>k.
     let writebuf = link_item k; len = packet_len writebuf in
     rbind (dropbear_assert (len > 0)) (\<lambda>_.
     rbind (buf_getptr writebuf (of_int len)) (\<lambda>p.
     rbind (rd_mem (buf_data writebuf) p (nat len)) (\<lambda>bs.
     rbind (iovec_fill n q (link_link k)) (\<lambda>iov. Inr (bs # iov))))))"

definition packet_queue_to_iovec :: "u32 \<Rightarrow> buffer Queue \<Rightarrow> u32 \<Rightarrow> byte list list res" where
  "packet_queue_to_iovec IOV_MAX q iov_count =
     iovec_fill (unat (min (min (q_count q) IOV_MAX) iov_count)) q (q_head q)"

definition consume_step :: "buffer Queue \<Rightarrow> int \<Rightarrow> (buffer Queue \<times> int) res" where
  "consume_step q written = rbind (examine q) (\<lambda>writebuf.
     let len = packet_len writebuf in
     if len > written then
       rbind (buf_incrpos writebuf (of_int written)) (\<lambda>b.
       rbind (update_head q b) (\<lambda>q. Inr (q, 0)))
     else rbind (dequeue q) (\<lambda>(b, q). Inr (q, written - len)))"

partial_function (option) consume_loop :: "buffer Queue \<Rightarrow> int \<Rightarrow> buffer Queue res option" where
  "consume_loop q written = (if written > 0 then
     (case consume_step q written of
        Inl e \<Rightarrow> Some (Inl e)
      | Inr r \<Rightarrow> consume_loop (fst r) (snd r))
   else Some (Inr q))"

definition packet_queue_consume :: "buffer Queue \<Rightarrow> int \<Rightarrow> buffer Queue res" where
  "packet_queue_consume q written = (case consume_loop q written of None \<Rightarrow> Inl Diverge | Some r \<Rightarrow> r)"

section \<open>The chain of nodes\<close>

fun chain :: "(nat \<Rightarrow> 'a Link option) \<Rightarrow> nat option \<Rightarrow> nat list \<Rightarrow> bool" where
  "chain h p [] \<longleftrightarrow> p = None"
| "chain h p (a # as) \<longleftrightarrow> p = Some a \<and> (case h a of None \<Rightarrow> False | Some l \<Rightarrow> chain h (link_link l) as)"

fun walk :: "nat \<Rightarrow> (nat \<Rightarrow> 'a Link option) \<Rightarrow> nat option \<Rightarrow> nat list" where
  "walk (Suc n) h (Some a) = a # (case h a of None \<Rightarrow> [] | Some l \<Rightarrow> walk n h (link_link l))"
| "walk n h p = []"

definition q_nodes :: "'a Queue \<Rightarrow> nat list" where
  "q_nodes q = walk (q_fresh q) (q_heap q) (q_head q)"

definition q_items :: "'a Queue \<Rightarrow> 'a list" where
  "q_items q = map (\<lambda>a. link_item (the (q_heap q a))) (q_nodes q)"

definition queue_ok :: "'a Queue \<Rightarrow> bool" where
  "queue_ok q \<longleftrightarrow> chain (q_heap q) (q_head q) (q_nodes q) \<and> distinct (q_nodes q)
     \<and> (\<forall>a\<in>set (q_nodes q). a < q_fresh q)
     \<and> q_tail q = (if q_nodes q = [] then None else Some (last (q_nodes q)))
     \<and> q_count q = of_nat (length (q_nodes q))"

lemma chain_walk: "chain h p as \<Longrightarrow> length as \<le> n \<Longrightarrow> walk n h p = as"
proof (induction as arbitrary: n p)
  case Nil
  then show ?case by (cases n) auto
next
  case (Cons a as)
  then show ?case by (cases n) (auto split: option.splits)
qed

lemma chain_cong: "(\<And>a. a \<in> set as \<Longrightarrow> h' a = h a) \<Longrightarrow> chain h' p as = chain h p as"
  by (induction as arbitrary: p) (auto split: option.splits)

lemma chain_upd [simp]: "a \<notin> set as \<Longrightarrow> chain (h(a := v)) p as = chain h p as"
  by (rule chain_cong) auto

lemma chain_alloc: "chain h p as \<Longrightarrow> a \<in> set as \<Longrightarrow> \<exists>l. h a = Some l"
  by (induction as arbitrary: p) (auto split: option.splits)

lemma fresh_bound: "distinct as \<Longrightarrow> \<forall>a\<in>set as. a < (n::nat) \<Longrightarrow> length as \<le> n"
  using card_mono [of "{..<n}" "set as"] by (auto simp: distinct_card)

text \<open>It is enough to exhibit the nodes.\<close>

lemma queue_okI:
  assumes c: "chain (q_heap q) (q_head q) as" and d: "distinct as" and f: "\<forall>a\<in>set as. a < q_fresh q"
    and t: "q_tail q = (if as = [] then None else Some (last as))" and n: "q_count q = of_nat (length as)"
  shows "queue_ok q" and "q_nodes q = as"
proof -
  have "q_nodes q = as" unfolding q_nodes_def by (rule chain_walk [OF c fresh_bound [OF d f]])
  then show "queue_ok q" and "q_nodes q = as" using assms by (auto simp: queue_ok_def)
qed

lemma chain_snoc:
  assumes "chain h p as" and "as \<noteq> []" and "distinct as" and "a \<notin> set as" and "h (last as) = Some l"
    and "link_link l = None"
  shows "chain (h(a := Some k, last as := Some (l\<lparr>link_link := Some a\<rparr>))) p (as @ [a]) \<longleftrightarrow> link_link k = None"
  using assms
proof (induction as arbitrary: p)
  case (Cons b as)
  show ?case
  proof (cases "as = []")
    case True
    with Cons.prems show ?thesis by auto
  next
    case False
    obtain m where m: "h b = Some m" "chain h (link_link m) as" using Cons.prems(1) by (auto split: option.splits)
    have ne: "b \<noteq> last as" "b \<noteq> a" using Cons.prems(3,4) False by auto
    have "chain (h(a := Some k, last as := Some (l\<lparr>link_link := Some a\<rparr>))) (link_link m) (as @ [a]) \<longleftrightarrow> link_link k = None"
      by (rule Cons.IH [OF m(2) False]) (use Cons.prems False in auto)
    moreover have "(h(a := Some k, last as := Some (l\<lparr>link_link := Some a\<rparr>))) b = Some m"
      using m ne by simp
    ultimately show ?thesis using Cons.prems(1) False by (simp del: fun_upd_apply)
  qed
qed simp

lemma chain_last: "chain h p as \<Longrightarrow> as \<noteq> [] \<Longrightarrow> \<exists>l. h (last as) = Some l \<and> link_link l = None"
  by (induction as arbitrary: p) (auto split: option.splits)

section \<open>The queue is a list\<close>

lemma queue0_ok: "queue_ok queue0" "q_items queue0 = []"
  by (simp_all add: queue_ok_def queue0_def q_nodes_def q_items_def)

lemma isempty_items: "queue_ok q \<Longrightarrow> isempty q \<longleftrightarrow> q_items q = []"
  by (cases "q_nodes q") (auto simp: queue_ok_def isempty_def q_items_def)

lemma queue_count: "queue_ok q \<Longrightarrow> q_count q = of_nat (length (q_items q))"
  by (simp add: queue_ok_def q_items_def)

lemma enqueue_nonempty:
  assumes ok: "queue_ok q" and ne: "q_nodes q \<noteq> []"
  shows "\<exists>q'. enqueue q x = Inr q' \<and> queue_ok q' \<and> q_items q' = q_items q @ [x]"
proof -
  define as where "as = q_nodes q"
  define n where "n = q_fresh q"
  have c: "chain (q_heap q) (q_head q) as" and d: "distinct as" and f: "\<forall>a\<in>set as. a < n" and ne: "as \<noteq> []"
    and t: "q_tail q = Some (last as)" and cnt: "q_count q = of_nat (length as)" and hd: "q_head q \<noteq> None"
    using ok ne by (cases as; auto simp: queue_ok_def as_def n_def)+
  obtain l where l: "q_heap q (last as) = Some l" "link_link l = None" using chain_last [OF c ne] by blast
  have fr: "n \<notin> set as" "last as \<noteq> n" using f ne by auto
  define q' where "q' = q\<lparr>q_fresh := n + 1, q_tail := Some n, q_count := q_count q + 1,
    q_heap := (q_heap q)(n := Some \<lparr>link_item = x, link_link = None\<rparr>, last as := Some (l\<lparr>link_link := Some n\<rparr>))\<rparr>"
  have e: "enqueue q x = Inr q'"
    using t l fr hd by (simp add: enqueue_def Let_def deref_def n_def [symmetric] q'_def)
  have c': "chain (q_heap q') (q_head q') (as @ [n])"
    using chain_snoc [OF c ne d fr(1) l] by (simp add: q'_def)
  have qs: "queue_ok q'" "q_nodes q' = as @ [n]"
    using queue_okI [OF c'] d f fr cnt by (auto simp: q'_def less_Suc_eq)
  have "map (\<lambda>a. link_item (the (q_heap q' a))) as = q_items q"
    using l fr by (auto simp: q_items_def as_def [symmetric] q'_def)
  then have "q_items q' = q_items q @ [x]"
    using qs(2) fr by (simp add: q_items_def) (simp add: q'_def)
  then show ?thesis using e qs(1) by blast
qed

lemma enqueue_law:
  assumes ok: "queue_ok q"
  shows "\<exists>q'. enqueue q x = Inr q' \<and> queue_ok q' \<and> q_items q' = q_items q @ [x]"
proof (cases "q_nodes q = []")
  case True
  then have q: "q_head q = None" "q_tail q = None" "q_count q = 0" using ok by (auto simp: queue_ok_def)
  define q' where "q' = q\<lparr>q_fresh := q_fresh q + 1, q_tail := Some (q_fresh q), q_head := Some (q_fresh q),
    q_count := 1, q_heap := (q_heap q)(q_fresh q := Some \<lparr>link_item = x, link_link = None\<rparr>)\<rparr>"
  have "enqueue q x = Inr q'" using q by (simp add: enqueue_def Let_def q'_def)
  moreover have "queue_ok q'" "q_nodes q' = [q_fresh q]"
    using queue_okI [of q' "[q_fresh q]"] by (auto simp: q'_def)
  moreover have "q_items q = []" using True by (simp add: q_items_def)
  ultimately show ?thesis by (simp add: q_items_def q'_def)
next
  case False
  then show ?thesis by (rule enqueue_nonempty [OF ok])
qed

lemma head_node:
  assumes ok: "queue_ok q" and items: "q_items q = x # xs"
  obtains a as l where "q_nodes q = a # as" "q_head q = Some a" "q_heap q a = Some l" "link_item l = x"
    "chain (q_heap q) (link_link l) as" "a \<notin> set as" "distinct as"
    "xs = map (\<lambda>a. link_item (the (q_heap q a))) as"
proof -
  obtain a as where as: "q_nodes q = a # as" using items by (auto simp: q_items_def)
  then obtain l where "q_heap q a = Some l" "chain (q_heap q) (link_link l) as" "q_head q = Some a"
    using ok by (auto simp: queue_ok_def split: option.splits)
  with as ok items show ?thesis by (intro that [of a as l]) (auto simp: queue_ok_def q_items_def)
qed

lemma dequeue_law:
  assumes ok: "queue_ok q" and items: "q_items q = x # xs"
  shows "\<exists>q'. dequeue q = Inr (x, q') \<and> queue_ok q' \<and> q_items q' = xs"
proof -
  from head_node [OF ok items] obtain a as l where n: "q_nodes q = a # as" "q_head q = Some a" "q_heap q a = Some l"
    "link_item l = x" "chain (q_heap q) (link_link l) as" "a \<notin> set as" "distinct as"
    "xs = map (\<lambda>a. link_item (the (q_heap q a))) as" .
  define q' where "q' = q\<lparr>q_head := link_link l, q_tail := (if as = [] then None else q_tail q),
    q_heap := (q_heap q)(a := None), q_count := q_count q - 1\<rparr>"
  have nx: "link_link l = None \<longleftrightarrow> as = []" using n(5) by (cases as) auto
  have "dequeue q = Inr (x, q')"
    using n nx by (auto simp: dequeue_def isempty_def deref_def m_free_link_def Let_def q'_def)
  moreover have c: "chain (q_heap q') (q_head q') as"
    using n(5,6) by (simp add: q'_def)
  have "queue_ok q'" "q_nodes q' = as"
    using queue_okI [OF c n(7)] ok n(1) by (auto simp: q'_def queue_ok_def)
  moreover have "map (\<lambda>a. link_item (the (q_heap q' a))) as = xs"
    using n(6,8) by (auto simp: q'_def)
  ultimately show ?thesis by (auto simp: q_items_def)
qed

lemma examine_law: "queue_ok q \<Longrightarrow> q_items q = x # xs \<Longrightarrow> examine q = Inr x"
  by (erule head_node) (auto simp: examine_def isempty_def deref_def)

lemma update_head_law:
  assumes ok: "queue_ok q" and items: "q_items q = x # xs"
  shows "\<exists>q'. update_head q y = Inr q' \<and> queue_ok q' \<and> q_items q' = y # xs"
proof -
  from head_node [OF ok items] obtain a as l where n: "q_nodes q = a # as" "q_head q = Some a" "q_heap q a = Some l"
    "link_item l = x" "chain (q_heap q) (link_link l) as" "a \<notin> set as" "distinct as"
    "xs = map (\<lambda>a. link_item (the (q_heap q a))) as" .
  define q' where "q' = q\<lparr>q_heap := (q_heap q)(a := Some (l\<lparr>link_item := y\<rparr>))\<rparr>"
  have "update_head q y = Inr q'" using n by (simp add: update_head_def deref_def q'_def)
  moreover have c: "chain (q_heap q') (q_head q') (a # as)"
    using n(2,5,6) by (simp add: q'_def)
  have f: "\<forall>x\<in>set (a # as). x < q_fresh q'" "q_tail q' = (if a # as = [] then None else Some (last (a # as)))"
      "q_count q' = of_nat (length (a # as))"
    using ok n(1) by (simp_all add: q'_def queue_ok_def)
  have "queue_ok q'" "q_nodes q' = a # as"
    using queue_okI [OF c _ f] n(6,7) by simp_all
  moreover have "map (\<lambda>a. link_item (the (q_heap q' a))) (a # as) = y # xs"
    using n(6,8) by (auto simp: q'_def)
  ultimately show ?thesis by (auto simp: q_items_def)
qed

section \<open>The interface\<close>

primrec q_push :: "'a list \<Rightarrow> 'a Queue \<Rightarrow> 'a Queue res" where
  "q_push [] q = Inr q"
| "q_push (x # xs) q = rbind (enqueue q x) (\<lambda>q. q_push xs q)"

primrec q_pop :: "nat \<Rightarrow> 'a Queue \<Rightarrow> ('a list \<times> 'a Queue) res" where
  "q_pop 0 q = Inr ([], q)"
| "q_pop (Suc n) q = rbind (dequeue q) (\<lambda>(x, q). rbind (q_pop n q) (\<lambda>(xs, q). Inr (x # xs, q)))"

lemma q_push_law: "queue_ok q \<Longrightarrow> \<exists>q'. q_push xs q = Inr q' \<and> queue_ok q' \<and> q_items q' = q_items q @ xs"
proof (induction xs arbitrary: q)
  case (Cons x xs)
  then show ?case using enqueue_law [of q x] by fastforce
qed simp

lemma q_pop_law:
  "queue_ok q \<Longrightarrow> n \<le> length (q_items q) \<Longrightarrow>
    \<exists>q'. q_pop n q = Inr (take n (q_items q), q') \<and> queue_ok q' \<and> q_items q' = drop n (q_items q)"
proof (induction n arbitrary: q)
  case (Suc n)
  then obtain x xs where items: "q_items q = x # xs" by (cases "q_items q") auto
  then obtain q1 where "dequeue q = Inr (x, q1)" "queue_ok q1" "q_items q1 = xs"
    using dequeue_law [OF Suc.prems(1)] by blast
  with Suc.IH [of q1] Suc.prems(2) items show ?case by auto
qed simp

interpretation queue_fifo: fifo_store q_push q_pop queue_ok q_items "\<lambda>_. None"
  by unfold_locales (use q_push_law q_pop_law in auto)

section \<open>Packets in the queue\<close>

text \<open>What is still to be sent, and that every queued packet has something left.\<close>

definition queue_bytes :: "buffer Queue \<Rightarrow> byte list" where
  "queue_bytes q = concat (map buf_rest (q_items q))"

definition pending_ok :: "buffer \<Rightarrow> bool" where
  "pending_ok b \<longleftrightarrow> buf_ok b \<and> buf_rest b \<noteq> []"

definition packets_ok :: "buffer Queue \<Rightarrow> bool" where
  "packets_ok q \<longleftrightarrow> queue_ok q \<and> (\<forall>b\<in>set (q_items q). pending_ok b)"

lemma packet_len_eq:
  assumes "buf_ok b"
  shows "packet_len b = int (length (buf_rest b))" and "of_nat (length (buf_rest b)) = buf_len b - buf_pos b"
proof -
  have u: "unat (buf_len b - buf_pos b) = length (buf_rest b)" and small: "length (buf_rest b) \<le> 1000000000"
    using assms length_buf_rest [OF assms] by (auto simp: buf_ok_def unat_sub_u32)
  then show "of_nat (length (buf_rest b)) = buf_len b - buf_pos b"
    by (simp add: u32_eq_iff unat_of_nat_u32)
  have "uint (buf_len b - buf_pos b) = int (length (buf_rest b))" using u by (simp flip: u)
  then show "packet_len b = int (length (buf_rest b))"
    using small by (simp add: packet_len_def sint_uint signed_take_bit_int_eq_self)
qed

lemma iovec_fill_eq:
  assumes "chain (q_heap q) p as" and "n \<le> length as"
    and "\<forall>a\<in>set as. pending_ok (link_item (the (q_heap q a)))"
  shows "iovec_fill n q p = Inr (take n (map (\<lambda>a. buf_rest (link_item (the (q_heap q a)))) as))"
  using assms
proof (induction n arbitrary: p as)
  case (Suc n)
  then obtain a as' l where a: "as = a # as'" "p = Some a" "q_heap q a = Some l" "chain (q_heap q) (link_link l) as'"
    by (cases as) (auto split: option.splits)
  define b where "b = link_item l"
  have b: "buf_ok b" "buf_rest b \<noteq> []" using Suc.prems(3) a by (auto simp: pending_ok_def b_def)
  have len: "packet_len b = int (length (buf_rest b))" and w: "of_nat (length (buf_rest b)) = buf_len b - buf_pos b"
    by (rule packet_len_eq [OF b(1)])+
  have "unat (buf_len b - buf_pos b) = length (buf_rest b)"
    using b(1) length_buf_rest [OF b(1)] by (simp add: buf_ok_def unat_sub_u32)
  then have "buf_getptr b (of_int (packet_len b)) = Inr (unat (buf_pos b))"
    by (simp add: len w buf_getptr_eq [OF b(1)])
  moreover have "rd_mem (buf_data b) (unat (buf_pos b)) (nat (packet_len b)) = Inr (buf_rest b)"
    by (simp add: len rd_rest [OF b(1)])
  moreover have "0 < packet_len b" using b(2) len by simp
  ultimately show ?case
    using a Suc.IH [OF a(4)] Suc.prems by (simp add: deref_def Let_def b_def [symmetric])
qed simp

lemma packet_queue_to_iovec_eq:
  assumes ok: "packets_ok q"
  shows "packet_queue_to_iovec IOV_MAX q k
     = Inr (take (unat (min (min (q_count q) IOV_MAX) k)) (map buf_rest (q_items q)))"
proof -
  have "unat (q_count q) \<le> length (q_nodes q)"
    using ok unat_of_nat_le_u32 [of "length (q_nodes q)"] by (simp add: packets_ok_def queue_ok_def)
  then have "unat (min (min (q_count q) IOV_MAX) k) \<le> length (q_nodes q)" by (simp add: unat_min_u32)
  then show ?thesis
    using iovec_fill_eq [of q "q_head q" "q_nodes q"] ok
    by (auto simp: packet_queue_to_iovec_def packets_ok_def queue_ok_def q_items_def o_def)
qed

lemma concat_take_prefix: "\<exists>k. concat (take n xs) = take k (concat xs)"
proof -
  have "concat xs = concat (take n xs) @ concat (drop n xs)" by (simp flip: concat_append)
  then show ?thesis by (metis append_eq_conv_conj)
qed

text \<open>One round of the loop takes a packet away or advances the first one, and then stops.\<close>

lemma consume_step_eq:
  assumes ok: "packets_ok q" and pos: "0 < n" and le: "n \<le> length (queue_bytes q)"
  shows "\<exists>q' m. consume_step q (int n) = Inr (q', int m) \<and> packets_ok q' \<and> m < n
     \<and> m \<le> length (queue_bytes q') \<and> drop m (queue_bytes q') = drop n (queue_bytes q)"
proof -
  obtain b bs where items: "q_items q = b # bs"
    using pos le by (cases "q_items q") (auto simp: queue_bytes_def)
  have q: "queue_ok q" and b: "buf_ok b" "buf_rest b \<noteq> []" and bs: "\<forall>b\<in>set bs. pending_ok b"
    using ok items by (auto simp: packets_ok_def pending_ok_def)
  have ex: "examine q = Inr b" by (rule examine_law [OF q items])
  have bytes: "queue_bytes q = buf_rest b @ concat (map buf_rest bs)" by (simp add: queue_bytes_def items)
  note len = packet_len_eq(1) [OF b(1)]
  show ?thesis
  proof (cases "n < length (buf_rest b)")
    case True
    have small: "length (buf_rest b) \<le> 1000000000" using length_buf_rest [OF b(1)] b(1) by (auto simp: buf_ok_def)
    then have u: "unat (of_nat n :: u32) = n" using True by (simp add: unat_of_nat_u32)
    then have inc: "buf_incrpos b (of_nat n) = Inr (adv b n)" using True by (simp add: buf_incrpos_eq [OF b(1)])
    obtain q1 where q1: "update_head q (adv b n) = Inr q1" "queue_ok q1" "q_items q1 = adv b n # bs"
      using update_head_law [OF q items] by blast
    have r: "buf_rest (adv b n) = drop n (buf_rest b)" "buf_ok (adv b n)"
      using True b(1) by (auto intro: buf_rest_adv buf_ok_adv)
    then have "packets_ok q1" using q1 bs True by (auto simp: packets_ok_def pending_ok_def)
    moreover have "queue_bytes q1 = drop n (queue_bytes q)"
      using True by (simp add: queue_bytes_def [of q1] q1(3) r bytes)
    ultimately show ?thesis
      using ex len True inc q1(1) pos by (auto simp: consume_step_def Let_def intro!: exI [of _ 0])
  next
    case False
    obtain q1 where q1: "dequeue q = Inr (b, q1)" "queue_ok q1" "q_items q1 = bs"
      using dequeue_law [OF q items] by blast
    then have "packets_ok q1" "queue_bytes q1 = concat (map buf_rest bs)"
      using bs by (auto simp: packets_ok_def queue_bytes_def)
    moreover have "consume_step q (int n) = Inr (q1, int (n - length (buf_rest b)))"
      using ex len False q1(1) by (simp add: consume_step_def Let_def of_nat_diff)
    moreover have "0 < length (buf_rest b)" using b(2) by simp
    ultimately show ?thesis
      using False le bytes pos by (auto intro!: exI [of _ "n - length (buf_rest b)"])
  qed
qed

lemma consume_loop_eq:
  assumes "packets_ok q" and "n \<le> length (queue_bytes q)"
  shows "\<exists>q'. consume_loop q (int n) = Some (Inr q') \<and> packets_ok q' \<and> queue_bytes q' = drop n (queue_bytes q)"
  using assms
proof (induction n arbitrary: q rule: less_induct)
  case (less n)
  show ?case
  proof (cases "n = 0")
    case True
    then show ?thesis using less.prems by (simp add: consume_loop.simps)
  next
    case False
    then obtain q1 m where s: "consume_step q (int n) = Inr (q1, int m)" "packets_ok q1" "m < n"
        "m \<le> length (queue_bytes q1)" "drop m (queue_bytes q1) = drop n (queue_bytes q)"
      using consume_step_eq [OF less.prems(1), of n] less.prems(2) by auto
    from less.IH [OF s(3,2,4)] s False show ?thesis by (simp add: consume_loop.simps [of q])
  qed
qed

section \<open>Properties\<close>

text \<open>
  C11. The linked queue is a list: for every sequence of enqueues and of dequeues of items that are
  there, starting from the empty queue, no assertion fails and no freed node is followed, the items
  dequeued followed by those still linked are the items enqueued, in order, and the tail pointer and
  the 32-bit count agree with the nodes.
\<close>

theorem queue_refines_list:
  assumes "legal None 0 ops"
  shows "\<exists>out q'. queue_fifo.run ops queue0 = Inr (out, q') \<and> queue_ok q'
     \<and> pushed ops = out @ q_items q'"
  using queue_fifo.run_delivers [of queue0 ops] assms by (simp add: queue0_ok)

theorem queue_refines_list_witness:
  "\<exists>out q'. queue_fifo.run [Push [1::int, 2], Pop 1, Push [3], Pop 2] queue0 = Inr (out, q') \<and> queue_ok q'
     \<and> [1, 2, 3] = out @ q_items q'"
  using queue_refines_list [of "[Push [1::int, 2], Pop 1, Push [3], Pop 2]"] by simp

text \<open>
  Accounting for what \<^verbatim>\<open>writev\<close> sent: for every number of bytes the kernel accepts, up to what is queued,
  \<^verbatim>\<open>packet_queue_consume\<close> returns, and the bytes still queued are the previous ones without exactly that
  many at the front, whether it ends inside a packet or on a boundary; every packet left is non-empty.
\<close>

theorem packet_queue_consume_drops:
  assumes "packets_ok q" and "n \<le> length (queue_bytes q)"
  shows "\<exists>q'. packet_queue_consume q (int n) = Inr q' \<and> packets_ok q'
     \<and> queue_bytes q' = drop n (queue_bytes q)"
  using consume_loop_eq [OF assms] by (auto simp: packet_queue_consume_def)

theorem packet_queue_consume_drops_witness:
  "let q = \<lparr>q_head = Some 0, q_tail = Some 0, q_count = 1,
       q_heap = (\<lambda>_. None)(0 := Some \<lparr>link_item = \<lparr>buf_data = [1, 2, 3], buf_len = 3, buf_pos = 0, buf_size = 3\<rparr>,
         link_link = None\<rparr>), q_fresh = 1\<rparr> in
   \<exists>q'. packet_queue_consume q 2 = Inr q' \<and> packets_ok q' \<and> queue_bytes q' = [3]"
  unfolding Let_def
  using packet_queue_consume_drops [of "\<lparr>q_head = Some 0, q_tail = Some 0, q_count = 1,
       q_heap = (\<lambda>_. None)(0 := Some \<lparr>link_item = \<lparr>buf_data = [1, 2, 3], buf_len = 3, buf_pos = 0, buf_size = 3\<rparr>,
         link_link = None\<rparr>), q_fresh = 1\<rparr>" 2]
  by (simp add: packets_ok_def queue_ok_def q_items_def q_nodes_def pending_ok_def buf_ok_def buf_rest_def queue_bytes_def)

end
