(* ===== verification/Ps4State.thy ===== *)
theory Ps4State
  imports Prelude
begin

text \<open>
  The state of the operating system that the in-process shell and the copy service see, and the state of a shell
  (\<^verbatim>\<open>struct ps4_shell_state\<close> of src/dropbear/src/ps4-shell.h), which a session channel contains.
\<close>

section \<open>Files\<close>

type_synonym path = "byte list"

datatype node = Reg "byte list" | Directory | Other

record inode =
  in_node :: node
  in_mode :: nat
  in_mtime :: int

text \<open>
  \<open>fs_faults\<close> holds the error number with which the next calls fail, 0 for a call that does not; when it is used up
  no call is made to fail. \<open>fs_sizes\<close> bounds the next reads and writes in the same way, and a bound of 0 counts as 1.
\<close>

record fs =
  fs_names :: "(path \<times> nat) list"
  fs_inodes :: "inode list"
  fs_faults :: "nat list"
  fs_sizes :: "nat list"
  fs_errno :: nat
  fs_strerror :: "nat \<Rightarrow> byte list"
  fs_now :: int

section \<open>The shell\<close>

abbreviation PS4_SHELL_PATH_MAX :: nat where "PS4_SHELL_PATH_MAX \<equiv> 1024"
abbreviation PS4_SHELL_MAX_ARGS :: nat where "PS4_SHELL_MAX_ARGS \<equiv> 16"

record ps4_shell_state =
  sh_cwd :: "byte list"
  sh_home :: "byte list"

end
