(* ===== verification/Session.thy ===== *)
theory Session
  imports Circbuffer Queue Ps4State
begin

text \<open>
  The state of a session, \<^verbatim>\<open>struct sshsession\<close> of src/dropbear/src/session.h, with the structures it
  contains: the keys of each direction, the key-exchange state, the authentication state and the
  channels. The outside world is kept in the same record: what the socket will deliver, what it has
  accepted, the clock and the position in the random stream. Ciphers, MACs and the random generator
  are functions the session is given, as the source is given function pointers.
\<close>

section \<open>Message numbers and limits\<close>

abbreviation SSH_MSG_DISCONNECT :: byte where "SSH_MSG_DISCONNECT \<equiv> 1"
abbreviation SSH_MSG_IGNORE :: byte where "SSH_MSG_IGNORE \<equiv> 2"
abbreviation SSH_MSG_UNIMPLEMENTED :: byte where "SSH_MSG_UNIMPLEMENTED \<equiv> 3"
abbreviation SSH_MSG_DEBUG :: byte where "SSH_MSG_DEBUG \<equiv> 4"
abbreviation SSH_MSG_SERVICE_REQUEST :: byte where "SSH_MSG_SERVICE_REQUEST \<equiv> 5"
abbreviation SSH_MSG_SERVICE_ACCEPT :: byte where "SSH_MSG_SERVICE_ACCEPT \<equiv> 6"
abbreviation SSH_MSG_KEXINIT :: byte where "SSH_MSG_KEXINIT \<equiv> 20"
abbreviation SSH_MSG_NEWKEYS :: byte where "SSH_MSG_NEWKEYS \<equiv> 21"
abbreviation SSH_MSG_KEXDH_INIT :: byte where "SSH_MSG_KEXDH_INIT \<equiv> 30"
abbreviation SSH_MSG_USERAUTH_REQUEST :: byte where "SSH_MSG_USERAUTH_REQUEST \<equiv> 50"
abbreviation SSH_MSG_USERAUTH_FAILURE :: byte where "SSH_MSG_USERAUTH_FAILURE \<equiv> 51"
abbreviation SSH_MSG_USERAUTH_SUCCESS :: byte where "SSH_MSG_USERAUTH_SUCCESS \<equiv> 52"
abbreviation SSH_MSG_USERAUTH_BANNER :: byte where "SSH_MSG_USERAUTH_BANNER \<equiv> 53"
abbreviation SSH_MSG_USERAUTH_PK_OK :: byte where "SSH_MSG_USERAUTH_PK_OK \<equiv> 60"
abbreviation SSH_MSG_GLOBAL_REQUEST :: byte where "SSH_MSG_GLOBAL_REQUEST \<equiv> 80"
abbreviation SSH_MSG_REQUEST_SUCCESS :: byte where "SSH_MSG_REQUEST_SUCCESS \<equiv> 81"
abbreviation SSH_MSG_REQUEST_FAILURE :: byte where "SSH_MSG_REQUEST_FAILURE \<equiv> 82"
abbreviation SSH_MSG_CHANNEL_OPEN :: byte where "SSH_MSG_CHANNEL_OPEN \<equiv> 90"
abbreviation SSH_MSG_CHANNEL_OPEN_CONFIRMATION :: byte where "SSH_MSG_CHANNEL_OPEN_CONFIRMATION \<equiv> 91"
abbreviation SSH_MSG_CHANNEL_OPEN_FAILURE :: byte where "SSH_MSG_CHANNEL_OPEN_FAILURE \<equiv> 92"
abbreviation SSH_MSG_CHANNEL_WINDOW_ADJUST :: byte where "SSH_MSG_CHANNEL_WINDOW_ADJUST \<equiv> 93"
abbreviation SSH_MSG_CHANNEL_DATA :: byte where "SSH_MSG_CHANNEL_DATA \<equiv> 94"
abbreviation SSH_MSG_CHANNEL_EXTENDED_DATA :: byte where "SSH_MSG_CHANNEL_EXTENDED_DATA \<equiv> 95"
abbreviation SSH_MSG_CHANNEL_EOF :: byte where "SSH_MSG_CHANNEL_EOF \<equiv> 96"
abbreviation SSH_MSG_CHANNEL_CLOSE :: byte where "SSH_MSG_CHANNEL_CLOSE \<equiv> 97"
abbreviation SSH_MSG_CHANNEL_REQUEST :: byte where "SSH_MSG_CHANNEL_REQUEST \<equiv> 98"
abbreviation SSH_MSG_CHANNEL_SUCCESS :: byte where "SSH_MSG_CHANNEL_SUCCESS \<equiv> 99"
abbreviation SSH_MSG_CHANNEL_FAILURE :: byte where "SSH_MSG_CHANNEL_FAILURE \<equiv> 100"

abbreviation RECV_MAX_PAYLOAD_LEN :: u32 where "RECV_MAX_PAYLOAD_LEN \<equiv> 32768"
abbreviation MAX_MAC_LEN :: nat where "MAX_MAC_LEN \<equiv> 32"
abbreviation TRANS_MAX_PAYLOAD_LEN :: u32 where "TRANS_MAX_PAYLOAD_LEN \<equiv> 16384"
abbreviation RECV_MAX_PACKET_LEN :: u32 where "RECV_MAX_PACKET_LEN \<equiv> 35000"
abbreviation ZLIB_COMPRESS_EXPANSION :: u32 where "ZLIB_COMPRESS_EXPANSION \<equiv> 21"
abbreviation MIN_PACKET_LEN :: u32 where "MIN_PACKET_LEN \<equiv> 16"
abbreviation INIT_READBUF :: u32 where "INIT_READBUF \<equiv> 128"
abbreviation PACKET_PADDING_OFF :: u32 where "PACKET_PADDING_OFF \<equiv> 4"
abbreviation PACKET_PAYLOAD_OFF :: u32 where "PACKET_PAYLOAD_OFF \<equiv> 5"

section \<open>Keys\<close>

text \<open>
  \<^verbatim>\<open>struct dropbear_cipher\<close> and \<^verbatim>\<open>struct dropbear_hash\<close>. A descriptor pointer is \<open>None\<close> when it is null, and
  otherwise the descriptor's name; the name of a cipher descriptor may be null too.
\<close>

record dropbear_cipher =
  dc_cipherdesc :: "string option option"
  dc_keysize :: nat
  dc_blocksize :: byte

record dropbear_hash =
  dh_hash_desc :: "string option"
  dh_keysize :: nat
  dh_hashsize :: byte

text \<open>
  \<^verbatim>\<open>struct dropbear_cipher_mode\<close>: a function returns \<open>None\<close> where the source's returns something else than
  \<^verbatim>\<open>CRYPT_OK\<close>, and otherwise the bytes it writes and the new cipher state. \<open>cm_start\<close> is given the cipher
  index, the IV, the key and the key size. \<open>cm_aead_crypt\<close> is \<open>None\<close> when
  the pointer is null; its arguments are the sequence number, the input, the length, the tag length,
  the state and whether it encrypts.
\<close>

record cipher_mode =
  cm_start :: "int \<Rightarrow> byte list \<Rightarrow> byte list \<Rightarrow> nat \<Rightarrow> byte list option"
  cm_encrypt :: "byte list \<Rightarrow> byte list \<Rightarrow> (byte list \<times> byte list) option"
  cm_decrypt :: "byte list \<Rightarrow> byte list \<Rightarrow> (byte list \<times> byte list) option"
  cm_aead_crypt :: "(u32 \<Rightarrow> byte list \<Rightarrow> u32 \<Rightarrow> u32 \<Rightarrow> byte list \<Rightarrow> bool \<Rightarrow> (byte list \<times> byte list) option) option"
  cm_aead_getlength :: "u32 \<Rightarrow> byte list \<Rightarrow> u32 \<Rightarrow> byte list \<Rightarrow> (u32 \<times> byte list) option"
  cm_aead_mac :: "dropbear_hash option"

text \<open>
  \<^verbatim>\<open>struct ltc_hash_descriptor\<close>: a hash state is the bytes that were processed, and \<^verbatim>\<open>done\<close> applies the
  function to them.
\<close>

record hash_descriptor =
  hd_hashsize :: nat
  hd_fun :: "byte list \<Rightarrow> byte list"

datatype kex_mode = DROPBEAR_KEX_NORMAL_DH | DROPBEAR_KEX_ECDH | DROPBEAR_KEX_CURVE25519 | DROPBEAR_KEX_PQHYBRID

record dropbear_kex =
  kx_mode :: kex_mode
  kx_hash_desc :: hash_descriptor

record key_context_directional =
  kd_algo_crypt :: dropbear_cipher
  kd_crypt_mode :: cipher_mode
  kd_algo_mac :: dropbear_hash
  kd_hash_index :: int
  kd_cipher_state :: "byte list"
  kd_mackey :: "byte list"
  kd_valid :: bool

abbreviation kd_blocksize :: "key_context_directional \<Rightarrow> byte" where "kd_blocksize kd \<equiv> dc_blocksize (kd_algo_crypt kd)"
abbreviation kd_hashsize :: "key_context_directional \<Rightarrow> byte" where "kd_hashsize kd \<equiv> dh_hashsize (kd_algo_mac kd)"
abbreviation kd_mac_keysize :: "key_context_directional \<Rightarrow> nat" where "kd_mac_keysize kd \<equiv> dh_keysize (kd_algo_mac kd)"

record key_context =
  kc_recv :: key_context_directional
  kc_trans :: key_context_directional
  kc_algo_kex :: "dropbear_kex option"
  kc_algo_hostkey :: int
  kc_algo_signature :: int

text \<open>
  \<^verbatim>\<open>struct Algo_Type\<close>. An array of them, ended by an entry without a name, is a list without that entry;
  a pointer to an entry is its index. \<^verbatim>\<open>data\<close> points to a different type in each table.
\<close>

record 'd algo_type =
  al_name :: "byte list"
  al_val :: int
  al_data :: "'d option"
  al_usable :: bool
  al_mode :: "cipher_mode option"

record KEXState =
  sentkexinit :: bool
  recvkexinit :: bool
  them_firstfollows :: bool
  sentnewkeys :: bool
  recvnewkeys :: bool
  donefirstkex :: bool
  donesecondkex :: bool
  recvfirstnewkeys :: bool
  our_first_follows_matches :: bool
  strict_kex :: bool
  lastkextime :: int
  needrekey :: bool
  datatrans :: u32
  datarecv :: u32

section \<open>Authentication and channels\<close>

text \<open>
  \<^verbatim>\<open>struct PubKeyOptions\<close>: the restrictions an entry of the authorized keys puts on a session. The lists
  of \<^verbatim>\<open>struct PermitTCPFwdEntry\<close> are \<open>None\<close> when the pointer is null. The flags for security keys are
  read by no code that is modelled.
\<close>

record PermitTCPFwdEntry =
  pe_host :: "byte list option"
  pe_port :: u32

record PubKeyOptions =
  po_no_port_forwarding_flag :: bool
  po_no_agent_forwarding_flag :: bool
  po_no_x11_forwarding_flag :: bool
  po_no_pty_flag :: bool
  po_forced_command :: "byte list option"
  po_permit_open_destinations :: "PermitTCPFwdEntry list option"
  po_permit_listens :: "PermitTCPFwdEntry list option"
  po_no_touch_required_flag :: bool
  po_verify_required_flag :: bool
  po_info_env :: "byte list option"

record AuthState =
  au_username :: "byte list option"
  au_authtypes :: byte
  au_failcount :: u32
  au_authdone :: bool
  au_perm_warn :: bool
  au_checkusername_failed :: bool
  au_starttime :: int
  au_pubkey_query_count :: u32
  au_pw_uid :: int
  au_pw_gid :: int
  au_pw_dir :: "byte list option"
  au_pw_shell :: "byte list option"
  au_pw_name :: "byte list option"
  au_pw_passwd :: "byte list option"
  au_pubkey_options :: "PubKeyOptions option"

datatype dropbear_prio = DROPBEAR_PRIO_NORMAL | DROPBEAR_PRIO_LOWDELAY

text \<open>
  \<^verbatim>\<open>struct ChanSess\<close>, what a session channel keeps: the command, the terminal, how the backend ended, and the state of the
  backend, a worker thread with its end of a socket pair. A string that a peer sent may contain null bytes. A
  pointer to a listener is its slot.
\<close>

datatype ps4_command_state = PS4_BACKEND_IDLE | PS4_BACKEND_RUNNING | PS4_BACKEND_EXEC_READY | PS4_BACKEND_DONE

record exitinfo =
  ex_exitpid :: int
  ex_exitstatus :: int
  ex_exitsignal :: int
  ex_exitcore :: int

record ChanSess =
  cs_cmd :: "byte list option"
  cs_original_command :: "byte list option"
  cs_master :: int
  cs_tty :: "byte list option"
  cs_term :: "byte list option"
  cs_exit :: exitinfo
  cs_backend_state :: ps4_command_state
  cs_thread_started :: bool
  cs_backend_fd :: int
  cs_cancel_fd :: int
  cs_pty_requested :: bool
  cs_term_cols :: u32
  cs_term_rows :: u32
  cs_term_width :: u32
  cs_term_height :: u32
  cs_shell :: ps4_shell_state
  cs_agentlistener :: "nat option"
  cs_agentfile :: "byte list option"
  cs_agentdir :: "byte list option"

text \<open>
  \<open>ch_typedata\<close> is what the type of a session channel adds to it; other types have none.
  \<open>ch_type\<close> is the index of the channel's type in the session's list of channel types; the handlers it
  points to are arguments of the operations. Pointers that may be null are options.
\<close>

record Channel =
  ch_index :: u32
  ch_remotechan :: u32
  ch_recvwindow :: u32
  ch_transwindow :: u32
  ch_recvdonelen :: u32
  ch_recvmaxpacket :: u32
  ch_transmaxpacket :: u32
  ch_writefd :: int
  ch_readfd :: int
  ch_errfd :: int
  ch_bidir_fd :: bool
  ch_writebuf :: "circbuffer option"
  ch_extrabuf :: "circbuffer option"
  ch_sent_close :: bool
  ch_recv_close :: bool
  ch_recv_eof :: bool
  ch_sent_eof :: bool
  ch_flushing :: bool
  ch_conn_pending :: bool
  ch_await_open :: bool
  ch_type :: nat
  ch_typedata :: "ChanSess option"
  ch_prio :: dropbear_prio

section \<open>The session\<close>

text \<open>
  What a \<^verbatim>\<open>read\<close> or \<^verbatim>\<open>writev\<close> of the socket returns: a count, \<^verbatim>\<open>EINTR\<close> or \<^verbatim>\<open>EAGAIN\<close>, or another error.
\<close>

datatype read_result = Read_bytes "byte list" | Read_again | Read_error
datatype write_result = Wrote nat | Write_again | Write_error

text \<open>
  \<^verbatim>\<open>struct FwdListener\<close>, what a forwarding listener keeps; a pointer to a channel type is its index.
\<close>

record FwdListener =
  fl_sendaddr :: "byte list option"
  fl_sendport :: u32
  fl_listenaddr :: "byte list option"
  fl_listenport :: u32
  fl_request_listenaddr :: "byte list option"
  fl_chantype :: "nat option"
  fl_socket_path :: "byte list option"

text \<open>
  \<^verbatim>\<open>struct Listener\<close>. The functions it points to are indices into the tables of acceptors and cleanup
  functions. \<^verbatim>\<open>enum ListenerType\<close> is an integer. The \<^verbatim>\<open>typedata\<close> of a forwarding listener is a \<^verbatim>\<open>struct FwdListener\<close>,
  that of the listener of an agent the session channel, here its slot.
\<close>

datatype listen_data = Fwd FwdListener | Agent nat

record Listener =
  ls_socks :: "int list"
  ls_index :: nat
  ls_acceptor :: nat
  ls_cleanup :: "nat option"
  ls_type :: int
  ls_typedata :: listen_data

text \<open>
  The descriptors of the local side, which channels read and write: what each \<^verbatim>\<open>read\<close> and \<^verbatim>\<open>writev\<close> of a
  descriptor answers, the bytes that were written to it, whether \<^verbatim>\<open>select\<close> finds it readable, whether
  \<^verbatim>\<open>close\<close> succeeds, and the descriptors closed so far, the last one first. Here \<^verbatim>\<open>EAGAIN\<close> is an error like others.
  \<open>fw_answers\<close> are what the next calls return that make a descriptor or may fail otherwise; when they are used up the
  calls fail.
\<close>

datatype fd_read = Fd_bytes "byte list" | Fd_eintr | Fd_error

record fd_world =
  fw_reads :: "int \<Rightarrow> fd_read list"
  fw_writes :: "int \<Rightarrow> write_result list"
  fw_written :: "int \<Rightarrow> byte list"
  fw_pending :: "int \<Rightarrow> bool"
  fw_close_ok :: "int \<Rightarrow> bool"
  fw_closed :: "int list"
  fw_answers :: "int list"

definition fd_world0 :: fd_world where
  "fd_world0 = \<lparr>fw_reads = (\<lambda>_. []), fw_writes = (\<lambda>_. []), fw_written = (\<lambda>_. []), fw_pending = (\<lambda>_. False),
     fw_close_ok = (\<lambda>_. True), fw_closed = [], fw_answers = []\<rparr>"

definition fs0 :: fs where
  "fs0 = \<lparr>fs_names = [], fs_inodes = [], fs_faults = [], fs_sizes = [], fs_errno = 0, fs_strerror = (\<lambda>_. []), fs_now = 0\<rparr>"

record sshsession =
  isserver :: bool
  connect_time :: int
  sock_in :: int
  sock_out :: int
  remoteident :: "byte list option"
  writepayload :: buffer
  writequeue :: "buffer Queue"
  writequeue_len :: u32
  readbuf :: "buffer option"
  payload :: "buffer option"
  payload_beginning :: u32
  transseq :: u32
  recvseq :: u32
  dataallowed :: bool
  requirenext :: byte
  ignorenext :: bool
  lastpacket :: byte
  channel_signal_pending :: bool
  last_packet_time_keepalive_sent :: int
  last_packet_time_keepalive_recv :: int
  last_packet_time_any_sent :: int
  last_packet_time_idle :: int
  kexstate :: KEXState
  keys :: key_context
  newkeys :: "key_context option"
  session_id :: "buffer option"
  dh_K :: "int option"
  dh_K_bytes :: "buffer option"
  ses_hash :: "buffer option"
  kexhashbuf :: "buffer option"
  transkexinit :: "buffer option"
  sigalgs :: "unit algo_type list"
  allow_ext_info :: bool
  reply_queue :: "buffer list"
  authstate :: AuthState
  channels :: "Channel option list"
  chansize :: u32
  chancount :: u32
  socket_prio :: dropbear_prio
  listeners :: "Listener option list"
  listensize :: u32
  maxfd :: int
  fds :: fd_world
  files :: fs
  clock :: int
  rng :: nat
  socket_input :: "read_result list"
  socket_writes :: "write_result list"
  socket_output :: "byte list"

text \<open>
  \<^verbatim>\<open>svr_opts\<close> of src/dropbear/src/runopts.h, as far as the server's handlers read it.
\<close>

record svr_runopts =
  so_norootlogin :: bool
  so_noauthpass :: bool
  so_norootpass :: bool
  so_allowblankpass :: bool
  so_multiauthmethod :: bool
  so_maxauthtries :: u32
  so_banner :: "byte list option"
  so_forced_command :: "byte list option"
  so_restrict_group_gid :: "int option"
  so_authorized_keys_dir :: "byte list"

text \<open>
  The primitives the session calls: HMAC with a hash index, a key and the data, \<open>None\<close> for a failure;
  the bytes \<^verbatim>\<open>genrandom\<close> delivers at a position of the stream; the platform's \<^verbatim>\<open>IOV_MAX\<close>.
\<close>

record primitives =
  p_hmac :: "int \<Rightarrow> byte list \<Rightarrow> byte list \<Rightarrow> byte list option"
  p_random :: "nat \<Rightarrow> nat \<Rightarrow> byte list"
  p_iov_max :: u32

section \<open>Access to the session's buffers\<close>

text \<open>The handlers build the outgoing packet in \<^verbatim>\<open>ses.writepayload\<close> and parse \<^verbatim>\<open>ses.payload\<close>.\<close>

definition with_wp :: "(buffer \<Rightarrow> buffer res) \<Rightarrow> sshsession \<Rightarrow> sshsession res" where
  "with_wp f ses = rbind (f (writepayload ses)) (\<lambda>b. Inr (ses\<lparr>writepayload := b\<rparr>))"

definition wp_putbyte :: "byte \<Rightarrow> sshsession \<Rightarrow> sshsession res" where
  "wp_putbyte v = with_wp (\<lambda>b. buf_putbyte b v)"

definition wp_putint :: "u32 \<Rightarrow> sshsession \<Rightarrow> sshsession res" where
  "wp_putint v = with_wp (\<lambda>b. buf_putint b v)"

definition wp_putstring :: "byte list \<Rightarrow> sshsession \<Rightarrow> sshsession res" where
  "wp_putstring s = with_wp (\<lambda>b. buf_putstring b s (of_nat (length s)))"

definition wp_reset :: "sshsession \<Rightarrow> sshsession res" where
  "wp_reset = with_wp (\<lambda>b. rbind (buf_setpos b 0) (\<lambda>b. buf_setlen b 0))"

definition from_payload :: "(buffer \<Rightarrow> ('v \<times> buffer) res) \<Rightarrow> sshsession \<Rightarrow> ('v \<times> sshsession) res" where
  "from_payload f ses = (case payload ses of None \<Rightarrow> Inl Mem_fault
     | Some b \<Rightarrow> rbind (f b) (\<lambda>(v, b). Inr (v, ses\<lparr>payload := Some b\<rparr>)))"

definition on_payload :: "(buffer \<Rightarrow> buffer res) \<Rightarrow> sshsession \<Rightarrow> sshsession res" where
  "on_payload f ses = (case payload ses of None \<Rightarrow> Inl Mem_fault
     | Some b \<Rightarrow> rbind (f b) (\<lambda>b. Inr (ses\<lparr>payload := Some b\<rparr>)))"

text \<open>
  The sequence of \<^verbatim>\<open>buf_putbyte\<close>, \<^verbatim>\<open>buf_putint\<close> and \<^verbatim>\<open>buf_putstring\<close> calls with which a handler fills
  \<^verbatim>\<open>ses.writepayload\<close>, as the list of what they put.
\<close>

datatype field = F_byte byte | F_int u32 | F_str "byte list"

fun put_field :: "field \<Rightarrow> sshsession \<Rightarrow> sshsession res" where
  "put_field (F_byte v) ses = wp_putbyte v ses"
| "put_field (F_int v) ses = wp_putint v ses"
| "put_field (F_str s) ses = wp_putstring s ses"

primrec put_fields :: "field list \<Rightarrow> sshsession \<Rightarrow> sshsession res" where
  "put_fields [] ses = Inr ses"
| "put_fields (f # fs) ses = rbind (put_field f ses) (\<lambda>ses. put_fields fs ses)"

fun field_wire :: "field \<Rightarrow> byte list" where
  "field_wire (F_byte v) = [v]"
| "field_wire (F_int v) = STORE32H v"
| "field_wire (F_str s) = STORE32H (of_nat (length s)) @ s"

definition message :: "field list \<Rightarrow> byte list" where
  "message fs = concat (map field_wire fs)"

section \<open>The socket\<close>

text \<open>
  A \<^verbatim>\<open>read\<close> of at most \<open>n\<close> bytes: the kernel never returns more than asked for, keeps the rest for the next
  call, and has nothing when its answers are used up. A \<^verbatim>\<open>writev\<close> accepts a prefix of what it is given.
\<close>

definition sock_read :: "nat \<Rightarrow> sshsession \<Rightarrow> read_result \<times> sshsession" where
  "sock_read n ses = (case socket_input ses of
     [] \<Rightarrow> (Read_again, ses)
   | Read_bytes bs # rs \<Rightarrow> (Read_bytes (take n bs),
       ses\<lparr>socket_input := (if length bs \<le> n then rs else Read_bytes (drop n bs) # rs)\<rparr>)
   | r # rs \<Rightarrow> (r, ses\<lparr>socket_input := rs\<rparr>))"

definition sock_writev :: "byte list list \<Rightarrow> sshsession \<Rightarrow> write_result \<times> sshsession" where
  "sock_writev iov ses = (case socket_writes ses of
     [] \<Rightarrow> (Write_again, ses)
   | Wrote n # rs \<Rightarrow> (let k = min n (length (concat iov)) in
       (Wrote k, ses\<lparr>socket_writes := rs, socket_output := socket_output ses @ take k (concat iov)\<rparr>))
   | r # rs \<Rightarrow> (r, ses\<lparr>socket_writes := rs\<rparr>))"

text \<open>\<^verbatim>\<open>ses.remoteclosed\<close> is \<^verbatim>\<open>svr_remoteclosed\<close> in the server, which does not return.\<close>

definition svr_remoteclosed :: "sshsession \<Rightarrow> 'a res" where
  "svr_remoteclosed ses = Inl (Close ''Exited normally'')"

text \<open>\<^verbatim>\<open>genrandom\<close> of \<open>n\<close> bytes.\<close>

definition genrandom :: "primitives \<Rightarrow> nat \<Rightarrow> sshsession \<Rightarrow> byte list \<times> sshsession" where
  "genrandom pr n ses = (p_random pr (rng ses) n, ses\<lparr>rng := rng ses + n\<rparr>)"

section \<open>The invariant of the session's buffers\<close>

definition wp_ok :: "sshsession \<Rightarrow> bool" where
  "wp_ok ses \<longleftrightarrow> buf_ok (writepayload ses) \<and> unat (buf_size (writepayload ses)) = 16384"

definition payload_ok :: "sshsession \<Rightarrow> bool" where
  "payload_ok ses \<longleftrightarrow> (\<forall>b. payload ses = Some b \<longrightarrow> buf_ok b)"

lemma with_wp_contract:
  assumes "wp_ok ses" and "\<And>b. buf_ok b \<Longrightarrow> safe buf_ok (f b)"
    and "\<And>b b'. f b = Inr b' \<Longrightarrow> buf_size b' = buf_size b"
  shows "safe (\<lambda>s. wp_ok s \<and> s = ses\<lparr>writepayload := writepayload s\<rparr>) (with_wp f ses)"
  using assms by (cases "f (writepayload ses)") (auto simp: with_wp_def wp_ok_def, (metis res_sat.simps)+)

lemma put_size:
  "buf_putbyte b v = Inr b' \<Longrightarrow> buf_size b' = buf_size b"
  "buf_putint b w = Inr b' \<Longrightarrow> buf_size b' = buf_size b"
  "buf_putbytes b s l = Inr b' \<Longrightarrow> buf_size b' = buf_size b"
  "buf_putstring b s l = Inr b' \<Longrightarrow> buf_size b' = buf_size b"
  by (auto simp: buf_putbyte_def buf_incrlen_def buf_putint_def buf_putbytes_def buf_putstring_def
      buf_incrwritepos_def Let_def split: if_splits)


lemma put_field_eq:
  assumes w: "wp_ok ses" and fits: "unat (buf_pos (writepayload ses)) + length (field_wire f) \<le> 16384"
  shows "put_field f ses = Inr (ses\<lparr>writepayload := put_at (writepayload ses) (field_wire f)\<rparr>)"
proof (cases f)
  case (F_str s)
  then have "unat (of_nat (length s) :: u32) = length s" using fits by (simp add: unat_of_nat_u32)
  then show ?thesis
    using F_str w fits by (simp add: wp_putstring_def with_wp_def wp_ok_def buf_putstring_eq)
qed (use w fits in \<open>simp_all add: wp_putbyte_def wp_putint_def with_wp_def wp_ok_def buf_putbyte_eq buf_putint_eq\<close>)

lemma wp_ok_put:
  "wp_ok ses \<Longrightarrow> unat (buf_pos (writepayload ses)) + length bs \<le> 16384
    \<Longrightarrow> wp_ok (ses\<lparr>writepayload := put_at (writepayload ses) bs\<rparr>)"
  by (simp add: wp_ok_def buf_ok_put_at put_at_fields)

text \<open>Filling the outgoing payload from any position is one write of the concatenated fields.\<close>

lemma put_fields_eq:
  assumes "wp_ok ses" and "unat (buf_pos (writepayload ses)) + length (message fs) \<le> 16384"
  shows "put_fields fs ses = Inr (ses\<lparr>writepayload := put_at (writepayload ses) (message fs)\<rparr>)"
  using assms
proof (induction fs arbitrary: ses)
  case Nil
  then show ?case by (simp add: message_def put_at_def max_absorb1 wp_ok_def buf_ok_def word_le_nat_alt)
next
  case (Cons f fs)
  have ok: "buf_ok (writepayload ses)" and sz: "unat (buf_size (writepayload ses)) = 16384"
    using Cons.prems(1) by (simp_all add: wp_ok_def)
  have fits: "unat (buf_pos (writepayload ses)) + length (field_wire f) \<le> 16384"
    and rest: "unat (buf_pos (writepayload ses)) + length (field_wire f) + length (message fs) \<le> 16384"
    using Cons.prems(2) by (simp_all add: message_def)
  define s1 where "s1 = ses\<lparr>writepayload := put_at (writepayload ses) (field_wire f)\<rparr>"
  have p1: "unat (buf_pos (writepayload s1)) = unat (buf_pos (writepayload ses)) + length (field_wire f)"
    using put_at_fields(1) [OF ok] fits sz by (simp add: s1_def)
  have "put_fields fs s1 = Inr (s1\<lparr>writepayload := put_at (writepayload s1) (message fs)\<rparr>)"
    using Cons.IH [of s1] wp_ok_put [OF Cons.prems(1) fits] p1 rest by (simp add: s1_def)
  moreover have "put_at (writepayload s1) (message fs) = put_at (writepayload ses) (message (f # fs))"
    using put_at_put_at [OF ok, of "field_wire f" "message fs"] rest sz by (simp add: s1_def message_def)
  ultimately show ?case
    using put_field_eq [OF Cons.prems(1) fits] by (simp add: s1_def)
qed

section \<open>Starting a session\<close>

definition void_cipher :: "byte list \<Rightarrow> byte list \<Rightarrow> (byte list \<times> byte list) option" where
  "void_cipher st bs = Some (bs, st)"

text \<open>\<^verbatim>\<open>dropbear_mode_none\<close>, \<^verbatim>\<open>dropbear_nocipher\<close> and \<^verbatim>\<open>dropbear_nohash\<close>; the null pointer is never called.\<close>

definition dropbear_mode_none :: cipher_mode where
  "dropbear_mode_none = \<lparr>cm_start = (\<lambda>_ _ _ _. Some []), cm_encrypt = void_cipher, cm_decrypt = void_cipher, cm_aead_crypt = None,
     cm_aead_getlength = (\<lambda>_ _ _ _. None), cm_aead_mac = None\<rparr>"

definition dropbear_nocipher :: dropbear_cipher where
  "dropbear_nocipher = \<lparr>dc_cipherdesc = None, dc_keysize = 16, dc_blocksize = 8\<rparr>"

definition dropbear_nohash :: dropbear_hash where
  "dropbear_nohash = \<lparr>dh_hash_desc = None, dh_keysize = 16, dh_hashsize = 0\<rparr>"

definition no_keys_directional :: key_context_directional where
  "no_keys_directional = \<lparr>kd_algo_crypt = dropbear_nocipher, kd_crypt_mode = dropbear_mode_none, kd_algo_mac = dropbear_nohash,
     kd_hash_index = 0, kd_cipher_state = [], kd_mackey = replicate MAX_MAC_LEN 0, kd_valid = False\<rparr>"

text \<open>The loop over the channels: whether there is any, and whether one asks for low delay.\<close>

definition update_channel_prio :: "sshsession \<Rightarrow> sshsession" where
  "update_channel_prio ses = (if sock_out ses < 0 then ses else
     let chans = map the (filter (\<lambda>c. c \<noteq> None) (take (unat (chansize ses)) (channels ses)));
         any = (chans \<noteq> []);
         new_prio = (if list_ex (\<lambda>c. ch_prio c = DROPBEAR_PRIO_LOWDELAY) chans
           then DROPBEAR_PRIO_LOWDELAY else DROPBEAR_PRIO_NORMAL);
         new_prio = (if \<not> any then DROPBEAR_PRIO_LOWDELAY else new_prio) in
     if new_prio \<noteq> socket_prio ses then ses\<lparr>socket_prio := new_prio\<rparr> else ses)"

text \<open>The signal pipe and the non-blocking flags are outside the model.\<close>

definition common_session_init :: "int \<Rightarrow> int \<Rightarrow> sshsession \<Rightarrow> sshsession res" where
  "common_session_init sin sout ses =
     (let ses = update_channel_prio (ses\<lparr>sock_in := sin, sock_out := sout, socket_prio := DROPBEAR_PRIO_NORMAL, maxfd := max sin sout\<rparr>);
          now = clock ses in
      rbind (buf_new TRANS_MAX_PAYLOAD_LEN) (\<lambda>b.
      Inr (ses\<lparr>connect_time := now, last_packet_time_keepalive_recv := now, last_packet_time_idle := now,
        last_packet_time_any_sent := 0, last_packet_time_keepalive_sent := 0,
        writepayload := b, transseq := 0, readbuf := None, payload := None, recvseq := 0,
        writequeue := initqueue (writequeue ses), requirenext := SSH_MSG_KEXINIT, dataallowed := True,
        ignorenext := False, lastpacket := 0, reply_queue := [],
        keys := \<lparr>kc_recv = no_keys_directional, kc_trans = no_keys_directional, kc_algo_kex = None,
                 kc_algo_hostkey = - 1, kc_algo_signature = 0\<rparr>,
        newkeys := None, remoteident := None\<rparr>)))"

text \<open>The zeroed \<^verbatim>\<open>struct sshsession\<close> a server process starts from.\<close>

definition kexstate_zero :: KEXState where
  "kexstate_zero = \<lparr>sentkexinit = False, recvkexinit = False, them_firstfollows = False, sentnewkeys = False,
     recvnewkeys = False, donefirstkex = False, donesecondkex = False, recvfirstnewkeys = False,
     our_first_follows_matches = False, strict_kex = False, lastkextime = 0, needrekey = False, datatrans = 0, datarecv = 0\<rparr>"

definition authstate_zero :: AuthState where
  "authstate_zero = \<lparr>au_username = None, au_authtypes = 0, au_failcount = 0, au_authdone = False, au_perm_warn = False,
     au_checkusername_failed = False, au_starttime = 0, au_pubkey_query_count = 0, au_pw_uid = 0, au_pw_gid = 0,
     au_pw_dir = None, au_pw_shell = None, au_pw_name = None, au_pw_passwd = None, au_pubkey_options = None\<rparr>"

definition ses_zero :: sshsession where
  "ses_zero = \<lparr>isserver = True, connect_time = 0, sock_in = 0, sock_out = 0, remoteident = None,
     writepayload = \<lparr>buf_data = [], buf_len = 0, buf_pos = 0, buf_size = 0\<rparr>, writequeue = queue0, writequeue_len = 0,
     readbuf = None, payload = None, payload_beginning = 0, transseq = 0, recvseq = 0, dataallowed = False,
     requirenext = 0, ignorenext = False, lastpacket = 0, channel_signal_pending = False,
     last_packet_time_keepalive_sent = 0, last_packet_time_keepalive_recv = 0, last_packet_time_any_sent = 0,
     last_packet_time_idle = 0, kexstate = kexstate_zero,
     keys = \<lparr>kc_recv = no_keys_directional, kc_trans = no_keys_directional, kc_algo_kex = None, kc_algo_hostkey = 0, kc_algo_signature = 0\<rparr>,
     newkeys = None, session_id = None, dh_K = None, dh_K_bytes = None, ses_hash = None, kexhashbuf = None, transkexinit = None, sigalgs = [],
     allow_ext_info = False, reply_queue = [], authstate = authstate_zero, channels = [], chansize = 0, chancount = 0,
     socket_prio = DROPBEAR_PRIO_NORMAL, listeners = [], listensize = 0, maxfd = 0, fds = fd_world0, files = fs0, clock = 0, rng = 0, socket_input = [], socket_writes = [], socket_output = []\<rparr>"

lemma initqueue_queue0: "initqueue queue0 = queue0"
  by (simp add: initqueue_def queue0_def)

end
