(* ===== verification/Packet.thy ===== *)
theory Packet
  imports Session
begin

text \<open>
  The binary packet protocol of src/dropbear/src/packet.c, compiled without compression: reading a
  packet in non-blocking pieces, decrypting it and checking its MAC, and padding, authenticating,
  encrypting and queueing an outgoing one, or holding it back during a key exchange. All lengths are
  32-bit and the block, MAC and padding lengths 8-bit, as in the source.
\<close>

section \<open>MACs\<close>

definition constant_time_memcmp :: "byte list \<Rightarrow> byte list \<Rightarrow> nat \<Rightarrow> byte res" where
  "constant_time_memcmp a b n = rbind (rd_mem a 0 n) (\<lambda>xa. rbind (rd_mem b 0 n) (\<lambda>xb.
     Inr (foldl (\<lambda>c (x, y). c OR (x XOR y)) 0 (zip xa xb))))"

text \<open>
  The value is the part of \<^verbatim>\<open>output_mac\<close> that was written, at most \<^verbatim>\<open>MAX_MAC_LEN\<close> bytes, and \<^verbatim>\<open>clear_buf\<close>,
  whose position the function moves.
\<close>

definition make_mac :: "primitives \<Rightarrow> u32 \<Rightarrow> key_context_directional \<Rightarrow> buffer \<Rightarrow> u32 \<Rightarrow> (byte list \<times> buffer) res" where
  "make_mac pr seqno key_state clear_buf clear_len =
     (if kd_hashsize key_state > 0 then
        rbind (rd_mem (kd_mackey key_state) 0 (kd_mac_keysize key_state)) (\<lambda>key.
        rbind (buf_setpos clear_buf 0) (\<lambda>clear_buf.
        rbind (buf_getptr clear_buf clear_len) (\<lambda>p.
        rbind (rd_mem (buf_data clear_buf) p (unat clear_len)) (\<lambda>bs.
        case p_hmac pr (kd_hash_index key_state) key (STORE32H seqno @ bs) of
          None \<Rightarrow> Inl (Exit ''HMAC error'')
        | Some mac \<Rightarrow> Inr (take MAX_MAC_LEN mac, clear_buf)))))
      else Inr ([], clear_buf))"

definition checkmac :: "primitives \<Rightarrow> sshsession \<Rightarrow> buffer \<Rightarrow> (bool \<times> buffer) res" where
  "checkmac pr ses rb = (let recv = kc_recv (keys ses);
       mac_size = ucast (kd_hashsize recv) :: u32;
       contents_len = buf_len rb - mac_size in
     rbind (buf_setpos rb 0) (\<lambda>rb.
     rbind (make_mac pr (recvseq ses) recv rb contents_len) (\<lambda>(mac_bytes, rb).
     rbind (buf_setpos rb contents_len) (\<lambda>rb.
     rbind (buf_getptr rb mac_size) (\<lambda>p.
     rbind (constant_time_memcmp mac_bytes (drop p (buf_data rb)) (unat mac_size)) (\<lambda>c.
     Inr (c = 0, rb)))))))"

section \<open>Ciphers in place\<close>

text \<open>A call of \<^verbatim>\<open>crypt_mode->encrypt\<close> or \<^verbatim>\<open>crypt_mode->decrypt\<close> on the bytes at the buffer's position.\<close>

definition crypt_inplace ::
  "(byte list \<Rightarrow> byte list \<Rightarrow> (byte list \<times> byte list) option) \<Rightarrow> string \<Rightarrow> byte list \<Rightarrow> buffer \<Rightarrow> u32
     \<Rightarrow> (byte list \<times> buffer) res" where
  "crypt_inplace f err st b len =
     rbind (buf_getptr b len) (\<lambda>r.
     rbind (buf_getwriteptr b len) (\<lambda>w.
     rbind (rd_mem (buf_data b) r (unat len)) (\<lambda>bs.
     case f st bs of None \<Rightarrow> Inl (Exit err)
     | Some (out, st) \<Rightarrow> rbind (wr_mem (buf_data b) w out) (\<lambda>d. Inr (st, b\<lparr>buf_data := d\<rparr>)))))"

text \<open>A call of \<^verbatim>\<open>crypt_mode->aead_crypt\<close>: \<open>inlen\<close> and \<open>outlen\<close> are what the two pointers were asked for.\<close>

definition aead_inplace ::
  "(u32 \<Rightarrow> byte list \<Rightarrow> u32 \<Rightarrow> u32 \<Rightarrow> byte list \<Rightarrow> bool \<Rightarrow> (byte list \<times> byte list) option) \<Rightarrow> string \<Rightarrow> bool
     \<Rightarrow> u32 \<Rightarrow> byte list \<Rightarrow> buffer \<Rightarrow> u32 \<Rightarrow> u32 \<Rightarrow> u32 \<Rightarrow> u32 \<Rightarrow> (byte list \<times> buffer) res" where
  "aead_inplace f err encrypting seqno st b inlen outlen len taglen =
     rbind (buf_getptr b inlen) (\<lambda>r.
     rbind (buf_getwriteptr b outlen) (\<lambda>w.
     rbind (rd_mem (buf_data b) r (unat inlen)) (\<lambda>bs.
     case f seqno bs len taglen st encrypting of None \<Rightarrow> Inl (Exit err)
     | Some (out, st) \<Rightarrow> rbind (wr_mem (buf_data b) w out) (\<lambda>d. Inr (st, b\<lparr>buf_data := d\<rparr>)))))"

definition set_recv_state :: "byte list \<Rightarrow> sshsession \<Rightarrow> sshsession" where
  "set_recv_state st ses = ses\<lparr>keys := (keys ses)\<lparr>kc_recv := (kc_recv (keys ses))\<lparr>kd_cipher_state := st\<rparr>\<rparr>\<rparr>"

definition set_trans_state :: "byte list \<Rightarrow> sshsession \<Rightarrow> sshsession" where
  "set_trans_state st ses = ses\<lparr>keys := (keys ses)\<lparr>kc_trans := (kc_trans (keys ses))\<lparr>kd_cipher_state := st\<rparr>\<rparr>\<rparr>"

section \<open>Receiving\<close>

text \<open>The deciphering part of \<^verbatim>\<open>decrypt_packet\<close>, which leaves the position after the MACed contents.\<close>

definition decrypt_contents :: "primitives \<Rightarrow> sshsession \<Rightarrow> buffer \<Rightarrow> (buffer \<times> sshsession) res" where
  "decrypt_contents pr ses rb = (let recv = kc_recv (keys ses);
       blocksize = ucast (kd_blocksize recv) :: u32; macsize = ucast (kd_hashsize recv) :: u32 in
     case cm_aead_crypt (kd_crypt_mode recv) of
       Some aead \<Rightarrow>
         rbind (buf_setpos rb 0) (\<lambda>rb.
         let len = buf_len rb - macsize - buf_pos rb in
         rbind (aead_inplace aead ''Error decrypting'' False (recvseq ses) (kd_cipher_state recv) rb
           (len + macsize) len len macsize) (\<lambda>(st, rb).
         rbind (buf_incrpos rb len) (\<lambda>rb. Inr (rb, set_recv_state st ses))))
     | None \<Rightarrow>
         rbind (buf_setpos rb blocksize) (\<lambda>rb.
         let len = buf_len rb - macsize - buf_pos rb in
         rbind (crypt_inplace (cm_decrypt (kd_crypt_mode recv)) ''Error decrypting'' (kd_cipher_state recv)
           rb len) (\<lambda>(st, rb).
         let ses = set_recv_state st ses in
         rbind (buf_incrpos rb len) (\<lambda>rb.
         rbind (checkmac pr ses rb) (\<lambda>(mac_ok, rb).
         if \<not> mac_ok then Inl (Exit ''Integrity error'') else Inr (rb, ses))))))"

definition decrypt_packet :: "primitives \<Rightarrow> sshsession \<Rightarrow> sshsession res" where
  "decrypt_packet pr ses = (case readbuf ses of None \<Rightarrow> Inl Mem_fault
   | Some rb \<Rightarrow>
     let macsize = ucast (kd_hashsize (kc_recv (keys ses))) :: u32;
         ses = ses\<lparr>kexstate := (kexstate ses)\<lparr>datarecv := datarecv (kexstate ses) + buf_len rb\<rparr>\<rparr> in
     rbind (decrypt_contents pr ses rb) (\<lambda>(rb, ses).
     rbind (buf_setpos rb PACKET_PADDING_OFF) (\<lambda>rb.
     rbind (buf_getbyte rb) (\<lambda>(padlen, rb).
     let len = buf_len rb - ucast padlen - 4 - 1 - macsize in
     if len > RECV_MAX_PAYLOAD_LEN + ZLIB_COMPRESS_EXPANSION \<or> len < 1
     then Inl (Exit ''Bad packet size %u'')
     else rbind (buf_setpos rb PACKET_PAYLOAD_OFF) (\<lambda>rb.
       rbind (buf_setlen rb (buf_pos rb + len)) (\<lambda>pl.
       Inr (ses\<lparr>payload := Some pl, payload_beginning := buf_pos rb, readbuf := None,
                recvseq := recvseq ses + 1\<rparr>)))))))"

text \<open>The length of the packet whose first block has arrived: \<open>len\<close>, \<open>plen\<close>, the buffer and the session.\<close>

definition packet_length :: "sshsession \<Rightarrow> buffer \<Rightarrow> (u32 \<times> u32 \<times> buffer \<times> sshsession) res" where
  "packet_length ses rb = (let recv = kc_recv (keys ses);
       blocksize = ucast (kd_blocksize recv) :: u32; macsize = ucast (kd_hashsize recv) :: u32 in
     case cm_aead_crypt (kd_crypt_mode recv) of
       Some aead \<Rightarrow>
         rbind (buf_getptr rb blocksize) (\<lambda>r.
         rbind (rd_mem (buf_data rb) r (unat blocksize)) (\<lambda>bs.
         case cm_aead_getlength (kd_crypt_mode recv) (recvseq ses) bs blocksize (kd_cipher_state recv) of
           None \<Rightarrow> Inl (Exit ''Error decrypting'')
         | Some (plen, st) \<Rightarrow> Inr (plen + 4 + macsize, plen, rb, set_recv_state st ses)))
     | None \<Rightarrow>
         rbind (crypt_inplace (cm_decrypt (kd_crypt_mode recv)) ''Error decrypting'' (kd_cipher_state recv) rb blocksize) (\<lambda>(st, rb).
         rbind (buf_getint rb) (\<lambda>(v, rb).
         let plen = v + 4 in Inr (plen + macsize, plen, rb, set_recv_state st ses))))"

text \<open>The first component of the result is whether the length was determined; \<open>junk\<close> is what \<^verbatim>\<open>realloc\<close> adds.\<close>

definition read_packet_init :: "(nat \<Rightarrow> byte) \<Rightarrow> sshsession \<Rightarrow> (bool \<times> sshsession) res" where
  "read_packet_init junk ses = (let recv = kc_recv (keys ses); blocksize = ucast (kd_blocksize recv) :: u32 in
     rbind (case readbuf ses of None \<Rightarrow> buf_new INIT_READBUF | Some b \<Rightarrow> Inr b) (\<lambda>rb.
     let maxlen = blocksize - buf_pos rb in
     rbind (buf_getwriteptr rb maxlen) (\<lambda>w.
     case sock_read (unat maxlen) ses of (r, ses) \<Rightarrow>
     (case r of
       Read_again \<Rightarrow> Inr (False, ses\<lparr>readbuf := Some rb\<rparr>)
     | Read_error \<Rightarrow> Inl (Exit ''Error reading: %s'')
     | Read_bytes bs \<Rightarrow>
       if bs = [] then svr_remoteclosed ses
       else rbind (wr_mem (buf_data rb) w bs) (\<lambda>d.
         rbind (buf_incrwritepos (rb\<lparr>buf_data := d\<rparr>) (of_nat (length bs))) (\<lambda>rb.
         if of_nat (length bs) \<noteq> maxlen then Inr (False, ses\<lparr>readbuf := Some rb\<rparr>)
         else rbind (buf_setpos rb 0) (\<lambda>rb.
           rbind (packet_length ses rb) (\<lambda>(len, plen, rb, ses).
           if len > RECV_MAX_PACKET_LEN \<or> plen < blocksize then Inl (Exit ''Integrity error (bad packet size %u)'')
           else rbind (umod plen blocksize) (\<lambda>m.
           if m \<noteq> 0 then Inl (Exit ''Integrity error (bad packet size %u)'')
           else rbind (if len > buf_size rb then buf_resize junk rb len else Inr rb) (\<lambda>rb.
             rbind (buf_setlen rb len) (\<lambda>rb.
             rbind (buf_setpos rb blocksize) (\<lambda>rb.
             Inr (True, ses\<lparr>readbuf := Some rb\<rparr>)))))))))))))"

text \<open>The second half of \<^verbatim>\<open>read_packet\<close>, once the length is known.\<close>

definition read_packet_rest :: "primitives \<Rightarrow> sshsession \<Rightarrow> sshsession res" where
  "read_packet_rest pr ses = (case readbuf ses of None \<Rightarrow> Inl Mem_fault
   | Some rb \<Rightarrow>
     let maxlen = buf_len rb - buf_pos rb in
     if maxlen = 0 then decrypt_packet pr ses
     else rbind (buf_getptr rb maxlen) (\<lambda>p.
       case sock_read (unat maxlen) ses of (r, ses) \<Rightarrow>
       (case r of
         Read_again \<Rightarrow> Inr ses
       | Read_error \<Rightarrow> Inl (Exit ''Error reading: %s'')
       | Read_bytes bs \<Rightarrow>
         if bs = [] then svr_remoteclosed ses
         else rbind (wr_mem (buf_data rb) p bs) (\<lambda>d.
           rbind (buf_incrpos (rb\<lparr>buf_data := d\<rparr>) (of_nat (length bs))) (\<lambda>rb.
           let ses = ses\<lparr>readbuf := Some rb\<rparr> in
           if of_nat (length bs) = maxlen then decrypt_packet pr ses else Inr ses)))))"

definition read_packet :: "primitives \<Rightarrow> (nat \<Rightarrow> byte) \<Rightarrow> sshsession \<Rightarrow> sshsession res" where
  "read_packet pr junk ses = (let blocksize = ucast (kd_blocksize (kc_recv (keys ses))) :: u32 in
     rbind (case readbuf ses of
         None \<Rightarrow> read_packet_init junk ses
       | Some rb \<Rightarrow> if buf_len rb < blocksize then read_packet_init junk ses else Inr (True, ses)) (\<lambda>(ready, ses).
     if \<not> ready then Inr ses else read_packet_rest pr ses))"

section \<open>Sending\<close>

definition packet_is_okay_kex :: "byte \<Rightarrow> bool" where
  "packet_is_okay_kex type = (if type \<ge> SSH_MSG_USERAUTH_REQUEST then False
     else if type = SSH_MSG_SERVICE_REQUEST \<or> type = SSH_MSG_SERVICE_ACCEPT then False
     else if type = SSH_MSG_KEXINIT then False else True)"

text \<open>The list from \<^verbatim>\<open>ses.reply_queue_head\<close> to \<^verbatim>\<open>ses.reply_queue_tail\<close> is \<open>reply_queue\<close>.\<close>

definition enqueue_reply_packet :: "sshsession \<Rightarrow> sshsession res" where
  "enqueue_reply_packet ses = rbind (buf_newcopy (writepayload ses)) (\<lambda>new_item.
     rbind (wp_reset ses) (\<lambda>ses. Inr (ses\<lparr>reply_queue := reply_queue ses @ [new_item]\<rparr>)))"

definition writebuf_enqueue :: "buffer \<Rightarrow> sshsession \<Rightarrow> sshsession res" where
  "writebuf_enqueue writebuf ses = rbind (buf_setpos writebuf 0) (\<lambda>writebuf.
     rbind (enqueue (writequeue ses) writebuf) (\<lambda>q.
     Inr (ses\<lparr>writequeue := q, writequeue_len := writequeue_len ses + buf_len writebuf\<rparr>)))"

text \<open>The padding length, with C's promotions: the sums are \<^verbatim>\<open>unsigned int\<close>, \<^verbatim>\<open>padlen\<close> an \<^verbatim>\<open>unsigned char\<close>.\<close>

definition packet_padlen :: "bool \<Rightarrow> byte \<Rightarrow> u32 \<Rightarrow> byte res" where
  "packet_padlen aead blocksize wlen = (let len = (if aead then wlen - 4 else wlen) in
     rbind (umod len (ucast blocksize)) (\<lambda>m.
     let padlen = (ucast ((ucast blocksize :: u32) - m) :: byte);
         padlen = (if padlen < 4 then padlen + blocksize else padlen);
         padlen = (if wlen + ucast padlen < MIN_PACKET_LEN then padlen + blocksize else padlen) in
     Inr padlen))"

text \<open>The clear packet: length, padding length, payload, padding, in a buffer with room for the MAC.\<close>

definition build_packet :: "primitives \<Rightarrow> sshsession \<Rightarrow> (buffer \<times> sshsession) res" where
  "build_packet pr ses = (let trans = kc_trans (keys ses);
       blocksize = ucast (kd_blocksize trans) :: u32; mac_size = ucast (kd_hashsize trans) :: u32;
       plen = buf_len (writepayload ses);
       encrypt_buf_size = (plen + 4 + 1) + max MIN_PACKET_LEN blocksize + 3 + mac_size + 1 in
     rbind (buf_new encrypt_buf_size) (\<lambda>writebuf.
     rbind (buf_setlen writebuf PACKET_PAYLOAD_OFF) (\<lambda>writebuf.
     rbind (buf_setpos writebuf PACKET_PAYLOAD_OFF) (\<lambda>writebuf.
     rbind (buf_getwriteptr writebuf plen) (\<lambda>w.
     rbind (buf_getptr (writepayload ses) plen) (\<lambda>r.
     rbind (rd_mem (buf_data (writepayload ses)) r (unat plen)) (\<lambda>bs.
     rbind (wr_mem (buf_data writebuf) w bs) (\<lambda>d.
     rbind (buf_incrwritepos (writebuf\<lparr>buf_data := d\<rparr>) plen) (\<lambda>writebuf.
     rbind (wp_reset ses) (\<lambda>ses.
     rbind (packet_padlen (cm_aead_crypt (kd_crypt_mode trans) \<noteq> None) (kd_blocksize trans) (buf_len writebuf)) (\<lambda>padlen.
     rbind (buf_setpos writebuf 0) (\<lambda>writebuf.
     rbind (buf_putint writebuf (buf_len writebuf + ucast padlen - 4)) (\<lambda>writebuf.
     rbind (buf_putbyte writebuf padlen) (\<lambda>writebuf.
     rbind (buf_setpos writebuf (buf_len writebuf)) (\<lambda>writebuf.
     rbind (buf_incrlen writebuf (ucast padlen)) (\<lambda>writebuf.
     rbind (buf_getptr writebuf (ucast padlen)) (\<lambda>p.
     case genrandom pr (unat padlen) ses of (pad, ses) \<Rightarrow>
     rbind (wr_mem (buf_data writebuf) p pad) (\<lambda>d.
     Inr (writebuf\<lparr>buf_data := d\<rparr>, ses)))))))))))))))))))"

definition seal_packet :: "primitives \<Rightarrow> buffer \<Rightarrow> sshsession \<Rightarrow> (buffer \<times> sshsession) res" where
  "seal_packet pr writebuf ses = (let trans = kc_trans (keys ses); mac_size = ucast (kd_hashsize trans) :: u32 in
     case cm_aead_crypt (kd_crypt_mode trans) of
       Some aead \<Rightarrow>
         rbind (buf_setpos writebuf 0) (\<lambda>writebuf.
         let len = buf_len writebuf in
         rbind (buf_incrlen writebuf mac_size) (\<lambda>writebuf.
         rbind (aead_inplace aead ''Error encrypting'' True (transseq ses) (kd_cipher_state trans) writebuf
           len (len + mac_size) len mac_size) (\<lambda>(st, writebuf).
         rbind (buf_incrpos writebuf (len + mac_size)) (\<lambda>writebuf.
         Inr (writebuf, set_trans_state st ses)))))
     | None \<Rightarrow>
         rbind (make_mac pr (transseq ses) trans writebuf (buf_len writebuf)) (\<lambda>(mac_bytes, writebuf).
         rbind (buf_setpos writebuf 0) (\<lambda>writebuf.
         let len = buf_len writebuf in
         rbind (crypt_inplace (cm_encrypt (kd_crypt_mode trans)) ''Error encrypting'' (kd_cipher_state trans)
           writebuf len) (\<lambda>(st, writebuf).
         rbind (buf_incrpos writebuf len) (\<lambda>writebuf.
         rbind (buf_putbytes writebuf mac_bytes mac_size) (\<lambda>writebuf.
         Inr (writebuf, set_trans_state st ses)))))))"

definition send_now :: "primitives \<Rightarrow> byte \<Rightarrow> sshsession \<Rightarrow> sshsession res" where
  "send_now pr packet_type ses =
     rbind (build_packet pr ses) (\<lambda>(writebuf, ses).
     rbind (seal_packet pr writebuf ses) (\<lambda>(writebuf, ses).
     let ses = ses\<lparr>kexstate := (kexstate ses)\<lparr>datatrans := datatrans (kexstate ses) + buf_len writebuf\<rparr>\<rparr> in
     rbind (writebuf_enqueue writebuf ses) (\<lambda>ses.
     let now = clock ses; ses = ses\<lparr>transseq := transseq ses + 1, last_packet_time_any_sent := now\<rparr> in
     Inr (if packet_type \<noteq> SSH_MSG_REQUEST_FAILURE \<and> packet_type \<noteq> SSH_MSG_UNIMPLEMENTED
            \<and> packet_type \<noteq> SSH_MSG_IGNORE
          then ses\<lparr>last_packet_time_idle := now\<rparr> else ses))))"

definition encrypt_packet :: "primitives \<Rightarrow> sshsession \<Rightarrow> sshsession res" where
  "encrypt_packet pr ses =
     rbind (with_wp (\<lambda>b. buf_setpos b 0) ses) (\<lambda>ses.
     rbind (buf_getbyte (writepayload ses)) (\<lambda>(packet_type, b).
     rbind (with_wp (\<lambda>b. buf_setpos b 0) (ses\<lparr>writepayload := b\<rparr>)) (\<lambda>ses.
     if \<not> dataallowed ses \<and> \<not> packet_is_okay_kex packet_type then enqueue_reply_packet ses
     else send_now pr packet_type ses)))"

text \<open>The loop of \<^verbatim>\<open>maybe_flush_reply_queue\<close>, over the items from the head on.\<close>

primrec flush_items :: "primitives \<Rightarrow> buffer list \<Rightarrow> sshsession \<Rightarrow> sshsession res" where
  "flush_items pr [] ses = Inr ses"
| "flush_items pr (item # items) ses =
     rbind (with_wp (\<lambda>b. buf_putbytes b (buf_data item) (buf_len item)) ses) (\<lambda>ses.
     rbind (encrypt_packet pr ses) (\<lambda>ses. flush_items pr items ses))"

definition maybe_flush_reply_queue :: "primitives \<Rightarrow> sshsession \<Rightarrow> sshsession res" where
  "maybe_flush_reply_queue pr ses = (if \<not> dataallowed ses then Inr ses
     else rbind (flush_items pr (reply_queue ses) ses) (\<lambda>ses. Inr (ses\<lparr>reply_queue := []\<rparr>)))"

definition write_packet :: "primitives \<Rightarrow> sshsession \<Rightarrow> sshsession res" where
  "write_packet pr ses =
     rbind (dropbear_assert (\<not> isempty (writequeue ses))) (\<lambda>_.
     rbind (packet_queue_to_iovec (p_iov_max pr) (writequeue ses) 50) (\<lambda>iov.
     case sock_writev iov ses of (r, ses) \<Rightarrow>
     (case r of
       Write_again \<Rightarrow> Inr ses
     | Write_error \<Rightarrow> Inl (Exit ''Error writing: %s'')
     | Wrote written \<Rightarrow>
       rbind (packet_queue_consume (writequeue ses) (int written)) (\<lambda>q.
       let ses = ses\<lparr>writequeue := q, writequeue_len := writequeue_len ses - of_nat written\<rparr> in
       if written = 0 then svr_remoteclosed ses else Inr ses))))"


section \<open>Padding\<close>

lemma unat_add_u8: "unat (x + y :: byte) = (unat x + unat y) mod 256"
  by (simp add: unat_word_ariths)

lemma unat_ucast_u8: "unat (ucast (x :: u32) :: byte) = unat x mod 256"
  by (simp add: unsigned_ucast_eq take_bit_eq_mod)

lemma pad_to_block:
  fixes n b :: nat
  assumes "0 < b"
  shows "(n + (b - n mod b)) mod b = 0"
proof -
  have "n + (b - n mod b) = (n div b) * b + b"
    using mod_less_divisor [OF assms, of n] div_mult_mod_eq [of n b] by linarith
  then show ?thesis by simp
qed

text \<open>The padding before the minimum-length check, on naturals.\<close>

definition pad1 :: "nat \<Rightarrow> nat \<Rightarrow> nat" where
  "pad1 b n = (let p = b - n mod b in if p < 4 then p + b else p)"

lemma pad1:
  assumes "8 \<le> b"
  shows "4 \<le> pad1 b n" "pad1 b n \<le> b + 3" "(n + pad1 b n) mod b = 0"
proof -
  define r where "r = n mod b"
  have "r < b" using assms by (simp add: r_def)
  then show "4 \<le> pad1 b n" "pad1 b n \<le> b + 3"
    using assms unfolding pad1_def Let_def r_def [symmetric] by auto
  have "(n + (b - r)) mod b = 0" using pad_to_block [of b n] assms by (simp add: r_def)
  then have "((n + (b - r)) + b) mod b = 0" "(n + (b - r)) mod b = 0" by (simp_all only: mod_add_self2)
  then show "(n + pad1 b n) mod b = 0"
    unfolding pad1_def Let_def r_def [symmetric] by (simp only: add.assoc split: if_split) blast
qed

lemma blocks:
  fixes t b :: nat
  assumes "t mod b = 0" and "0 < t" and "8 \<le> b" "b mod 8 = 0"
  shows "t = 8 \<or> 16 \<le> t" and "b \<noteq> 8 \<Longrightarrow> 16 \<le> t"
proof -
  have "b \<le> t" using assms by (intro dvd_imp_le) (auto simp: mod_eq_0_iff_dvd)
  moreover have "t mod 8 = 0" using assms by (metis dvd_trans mod_eq_0_iff_dvd)
  ultimately show "t = 8 \<or> 16 \<le> t" and "b \<noteq> 8 \<Longrightarrow> 16 \<le> t" using assms(3,4) by presburger+
qed

lemma packet_padlen_eq:
  assumes b: "8 \<le> unat bs" "unat bs \<le> 64" "unat bs mod 8 = 0"
    and w: "6 \<le> unat wlen" "unat wlen \<le> 100000"
  shows "\<exists>p. packet_padlen aead bs wlen = Inr p \<and> 4 \<le> unat p \<and> unat p \<le> max 16 (unat bs) + 3
     \<and> (unat wlen - (if aead then 4 else 0) + unat p) mod unat bs = 0 \<and> 16 \<le> unat wlen + unat p"
proof -
  define n where "n = unat wlen - (if aead then 4 else 0)"
  define B where "B = unat bs"
  have len: "unat (if aead then wlen - 4 else wlen) = n" using w by (auto simp: n_def unat_sub_u32)
  have ub: "unat (ucast bs :: u32) = B" by (simp add: unat_ucast_byte B_def)
  define m :: u32 where "m = (if aead then wlen - 4 else wlen) mod ucast bs"
  have m: "unat m = n mod B" by (simp add: m_def unat_mod_u32 len ub)
  have mlt: "n mod B < B" using b by (simp add: B_def)
  have um: "umod (if aead then wlen - 4 else wlen) (ucast bs) = Inr m"
    using b ub by (auto simp: umod_def m_def B_def)
  define p0 :: byte where "p0 = ucast ((ucast bs :: u32) - m)"
  have p0: "unat p0 = B - n mod B"
    using m mlt b by (simp add: p0_def unat_ucast_u8 unat_sub_u32 ub B_def)
  define p1 where "p1 = (if p0 < 4 then p0 + bs else p0)"
  have p1: "unat p1 = pad1 B n"
    using p0 b mlt by (auto simp: p1_def pad1_def Let_def word_less_nat_alt unat_add_u8 B_def)
  have pp: "4 \<le> unat p1" "unat p1 \<le> B + 3" "(n + unat p1) mod B = 0"
    using pad1 [of B n] b by (auto simp: p1 B_def)
  have s: "unat (wlen + ucast p1) = unat wlen + unat p1"
    using w pp b by (simp add: unat_add_u32 unat_ucast_byte B_def)
  define p2 where "p2 = (if wlen + ucast p1 < MIN_PACKET_LEN then p1 + bs else p1)"
  have e: "packet_padlen aead bs wlen = Inr p2"
    by (simp add: packet_padlen_def Let_def um p0_def p1_def p2_def)
  show ?thesis
  proof (cases "unat wlen + unat p1 < 16")
    case True
    then have small: "n + unat p1 < 16" by (simp add: n_def)
    have nz: "0 < n + unat p1" using pp by simp
    have "n + unat p1 = 8" "B = 8"
      using blocks [OF pp(3) nz] b small by (auto simp: B_def)
    moreover have "unat p2 = unat p1 + B"
      using True s pp b by (simp add: p2_def word_less_nat_alt unat_add_u8 B_def)
    moreover from calculation have "n + unat p2 = 16" by simp
    ultimately show ?thesis
      using e pp w unfolding n_def [symmetric] B_def [symmetric] by (auto simp: n_def)
  next
    case False
    then have "p2 = p1" using s by (simp add: p2_def word_less_nat_alt)
    then show ?thesis using e pp False by (auto simp: n_def [symmetric] B_def [symmetric])
  qed
qed


section \<open>What is assumed of the cipher suites\<close>

text \<open>
  The block sizes of the ciphers in src/dropbear/src/common-algo.c are multiples of eight, the MACs at
  most \<^verbatim>\<open>MAX_MAC_LEN\<close> bytes, which are 32 in this build, the key material is there, and the ciphers return \<^verbatim>\<open>CRYPT_OK\<close> with as many bytes as
  their interfaces say for what a packet can be: 16 to 35000 bytes, whole blocks unless the cipher is an AEAD one. The two AEAD ciphers
  (src/dropbear/src/chachapoly.c, src/dropbear/src/gcm.c) refuse less than four bytes, and they do without HMAC.
\<close>

definition encrypt_ok :: "key_context_directional \<Rightarrow> bool" where
  "encrypt_ok kd \<longleftrightarrow> (case cm_aead_crypt (kd_crypt_mode kd) of
     None \<Rightarrow> \<forall>st bs. 16 \<le> length bs \<and> length bs \<le> 35000 \<and> length bs mod unat (kd_blocksize kd) = 0 \<longrightarrow>
       (\<exists>out st'. cm_encrypt (kd_crypt_mode kd) st bs = Some (out, st') \<and> length out = length bs)
   | Some f \<Rightarrow> \<forall>seqno bs st. 16 \<le> length bs \<and> length bs \<le> 35000 \<longrightarrow>
       (\<exists>out st'. f seqno bs (of_nat (length bs)) (ucast (kd_hashsize kd)) st True = Some (out, st')
         \<and> length out = length bs + unat (kd_hashsize kd)))"

definition mac_ok :: "primitives \<Rightarrow> key_context_directional \<Rightarrow> bool" where
  "mac_ok pr kd \<longleftrightarrow> kd_mac_keysize kd \<le> length (kd_mackey kd) \<and> unat (kd_hashsize kd) \<le> MAX_MAC_LEN
     \<and> (cm_aead_crypt (kd_crypt_mode kd) = None \<and> kd_hashsize kd > 0 \<longrightarrow> (\<forall>bs. \<exists>mac. p_hmac pr (kd_hash_index kd) (take (kd_mac_keysize kd) (kd_mackey kd)) bs = Some mac
          \<and> unat (kd_hashsize kd) \<le> length mac))"

definition trans_ok :: "primitives \<Rightarrow> key_context_directional \<Rightarrow> bool" where
  "trans_ok pr kd \<longleftrightarrow> 8 \<le> unat (kd_blocksize kd) \<and> unat (kd_blocksize kd) \<le> 64 \<and> unat (kd_blocksize kd) mod 8 = 0
     \<and> mac_ok pr kd \<and> encrypt_ok kd"

definition random_ok :: "primitives \<Rightarrow> bool" where
  "random_ok pr \<longleftrightarrow> (\<forall>k n. length (p_random pr k n) = n)"

section \<open>The packet that is sent\<close>

definition clear_packet :: "byte list \<Rightarrow> byte list \<Rightarrow> byte list" where
  "clear_packet body pad = STORE32H (of_nat (1 + length body + length pad)) @ [of_nat (length pad)] @ body @ pad"

lemma length_clear_packet [simp]: "length (clear_packet body pad) = 5 + length body + length pad"
  by (simp add: clear_packet_def)

definition wp_body :: "sshsession \<Rightarrow> byte list" where
  "wp_body ses = take (unat (buf_len (writepayload ses))) (buf_data (writepayload ses))"

definition wp_cleared :: "sshsession \<Rightarrow> sshsession" where
  "wp_cleared ses = ses\<lparr>writepayload := (writepayload ses)\<lparr>buf_pos := 0, buf_len := 0\<rparr>\<rparr>"

lemma wp_reset_eq: "wp_reset ses = Inr (wp_cleared ses)"
  by (simp add: wp_reset_def with_wp_def buf_setpos_def buf_setlen_def wp_cleared_def min_def)

lemma length_wp_body: "wp_ok ses \<Longrightarrow> length (wp_body ses) = unat (buf_len (writepayload ses))"
  by (simp add: wp_body_def wp_ok_def buf_ok_def)

lemma wp_cleared_ok: "wp_ok ses \<Longrightarrow> wp_ok (wp_cleared ses)"
  by (simp add: wp_ok_def wp_cleared_def buf_ok_def)

text \<open>A fresh buffer with the payload copied in after five bytes.\<close>

lemma copy_payload_eq:
  fixes S :: u32
  assumes S: "unat S \<le> 100000" and fits: "5 + length P \<le> unat S" and n: "unat n = length P"
  shows "rbind (buf_new S) (\<lambda>b. rbind (buf_setlen b 5) (\<lambda>b. rbind (buf_setpos b 5) (\<lambda>b.
      rbind (buf_getwriteptr b n) (\<lambda>w. rbind (wr_mem (buf_data b) w P) (\<lambda>d. buf_incrwritepos (b\<lparr>buf_data := d\<rparr>) n)))))
    = Inr \<lparr>buf_data = replicate 5 0 @ P @ replicate (unat S - 5 - length P) 0, buf_len = of_nat (5 + length P),
        buf_pos = of_nat (5 + length P), buf_size = S\<rparr>"
proof -
  define b where "b = \<lparr>buf_data = replicate (unat S) (0::byte), buf_len = 5, buf_pos = 5, buf_size = S\<rparr>"
  have ok: "buf_ok b" using S fits by (simp add: b_def buf_ok_def)
  have nn: "n = of_nat (length P)" using n by (simp add: u32_eq_iff unat_of_nat_u32) (metis mod_less unat_lt_u32)
  have new: "buf_new S = Inr (b\<lparr>buf_len := 0, buf_pos := 0\<rparr>)"
    using S by (simp add: buf_new_def b_def word_less_nat_alt)
  have set: "buf_setlen (b\<lparr>buf_len := 0, buf_pos := 0\<rparr>) 5 = Inr (b\<lparr>buf_pos := 0\<rparr>)"
      "buf_setpos (b\<lparr>buf_pos := 0\<rparr>) 5 = Inr b"
    using fits by (simp_all add: buf_setlen_eq buf_setpos_eq b_def)
  have "put_at b P = \<lparr>buf_data = replicate 5 0 @ P @ replicate (unat S - 5 - length P) 0, buf_len = of_nat (5 + length P),
        buf_pos = of_nat (5 + length P), buf_size = S\<rparr>"
  proof -
    have "unat (5 + of_nat (length P) :: u32) = 5 + length P"
      using S fits by (simp add: unat_add_u32 unat_of_nat_u32)
    then have "max 5 (5 + of_nat (length P)) = (5 + of_nat (length P) :: u32)"
      by (simp add: max_def word_le_nat_alt)
    then show ?thesis using fits by (simp add: put_at_def b_def min_def)
  qed
  moreover have "rbind (buf_getwriteptr b n) (\<lambda>w. rbind (wr_mem (buf_data b) w P) (\<lambda>d. buf_incrwritepos (b\<lparr>buf_data := d\<rparr>) n))
      = Inr (put_at b P)"
    unfolding nn by (rule getwriteptr_put [OF ok]) (use fits in \<open>simp add: b_def\<close>)
  ultimately show ?thesis by (simp add: new set)
qed

text \<open>Filling in the header and adding the padding.\<close>

lemma header_and_pad_eq:
  fixes S :: u32
  assumes S: "unat S \<le> 100000" and fits: "5 + length P + length r \<le> unat S"
    and r: "unat p = length r"
  defines "b \<equiv> \<lparr>buf_data = replicate 5 0 @ P @ replicate (unat S - 5 - length P) (0::byte), buf_len = of_nat (5 + length P),
        buf_pos = of_nat (5 + length P), buf_size = S\<rparr>"
  shows "rbind (buf_setpos b 0) (\<lambda>b. rbind (buf_putint b (buf_len b + ucast (p :: byte) - 4)) (\<lambda>b.
      rbind (buf_putbyte b p) (\<lambda>b. rbind (buf_setpos b (buf_len b)) (\<lambda>b. rbind (buf_incrlen b (ucast p)) (\<lambda>b.
      rbind (buf_getptr b (ucast p)) (\<lambda>q. rbind (wr_mem (buf_data b) q r) (\<lambda>d. Inr (b\<lparr>buf_data := d\<rparr>))))))))
    = Inr \<lparr>buf_data = clear_packet P r @ replicate (unat S - 5 - length P - length r) 0,
        buf_len = of_nat (5 + length P + length r), buf_pos = of_nat (5 + length P), buf_size = S\<rparr>"
proof -
  let ?n = "of_nat (5 + length P) :: u32"
  let ?Z = "replicate (unat S - 5 - length P) (0::byte)"
  have n: "unat ?n = 5 + length P" using S fits by (subst unat_of_nat_u32) simp
  have up: "unat (ucast p :: u32) = length r" using r by (simp add: unat_ucast_byte)
  have pv: "p = of_nat (length r)" using r by (metis of_nat_unat ucast_id)
  define v :: u32 where "v = ?n + ucast p - 4"
  have v: "v = of_nat (1 + length P + length r)"
    using n up S fits by (simp add: v_def u32_eq_iff unat_sub_u32 unat_add_u32 unat_of_nat_u32)
  have ok: "buf_ok (b\<lparr>buf_pos := 0\<rparr>)" using S fits n by (simp add: b_def buf_ok_def)
  have pi: "buf_putint (b\<lparr>buf_pos := 0\<rparr>) v = Inr \<lparr>buf_data = STORE32H v @ [0] @ P @ ?Z, buf_len = ?n, buf_pos = 4, buf_size = S\<rparr>"
    using fits n by (simp add: buf_putint_eq [OF ok]) (simp add: b_def put_at_def max_def word_le_nat_alt)
  let ?b2 = "\<lparr>buf_data = STORE32H v @ [0] @ P @ ?Z, buf_len = ?n, buf_pos = 4, buf_size = S\<rparr>"
  have ok2: "buf_ok ?b2" using S fits n by (simp add: buf_ok_def)
  have pb: "buf_putbyte ?b2 p = Inr \<lparr>buf_data = STORE32H v @ [p] @ P @ ?Z, buf_len = ?n, buf_pos = 5, buf_size = S\<rparr>"
    using fits n by (subst buf_putbyte_eq [OF ok2]) (simp add: put_at_def max_def word_le_nat_alt)
  let ?b3 = "\<lparr>buf_data = STORE32H v @ [p] @ P @ ?Z, buf_len = ?n, buf_pos = ?n, buf_size = S\<rparr>"
  have ok3: "buf_ok ?b3" using S fits n by (simp add: buf_ok_def)
  let ?m = "of_nat (5 + length P + length r) :: u32"
  have mm: "?n + ucast p = ?m" using n up S fits by (simp add: u32_eq_iff unat_add_u32 unat_of_nat_u32)
  have m: "unat ?m = 5 + length P + length r" using S fits by (subst unat_of_nat_u32) simp
  have il: "buf_incrlen ?b3 (ucast p) = Inr (?b3\<lparr>buf_len := ?m\<rparr>)"
    using fits n up mm by (subst buf_incrlen_eq [OF ok3]) simp
  have ok4: "buf_ok (?b3\<lparr>buf_len := ?m\<rparr>)" using S fits n m by (simp add: buf_ok_def)
  have gp: "buf_getptr (?b3\<lparr>buf_len := ?m\<rparr>) (ucast p) = Inr (unat ?n)"
    using n m up length_buf_rest [OF ok4] by (subst buf_getptr_eq [OF ok4]) simp
  have wr: "wr_mem (STORE32H v @ [p] @ P @ ?Z) (5 + length P) r
      = Inr (clear_packet P r @ replicate (unat S - 5 - length P - length r) 0)"
    using fits by (simp add: wr_mem_def clear_packet_def v pv)
  have sp: "buf_setpos \<lparr>buf_data = STORE32H v @ [p] @ P @ ?Z, buf_len = ?n, buf_pos = 5, buf_size = S\<rparr> ?n = Inr ?b3"
    by (simp add: buf_setpos_eq)
  have "buf_setpos b 0 = Inr (b\<lparr>buf_pos := 0\<rparr>)" by (simp add: buf_setpos_eq)
  moreover have "buf_len b + ucast p - 4 = v" by (simp add: b_def v_def)
  ultimately show ?thesis
    using pi pb sp il gp wr n by (simp add: b_def del: of_nat_add of_nat_Suc)
qed


text \<open>
  The padding RFC 4253 asks for: at least four bytes, at least sixteen in all, and whole blocks, not
  counting the length field when the cipher authenticates it.
\<close>

definition pad_ok :: "key_context_directional \<Rightarrow> byte list \<Rightarrow> byte list \<Rightarrow> bool" where
  "pad_ok kd body pad \<longleftrightarrow> 4 \<le> length pad \<and> length pad < 256 \<and> 16 \<le> 5 + length body + length pad
     \<and> (5 + length body + length pad - (if cm_aead_crypt (kd_crypt_mode kd) = None then 0 else 4))
         mod unat (kd_blocksize kd) = 0"

lemma build_packet_eq:
  assumes wp: "wp_ok ses" and pos: "buf_pos (writepayload ses) = 0" and ne: "wp_body ses \<noteq> []"
    and tr: "trans_ok pr (kc_trans (keys ses))" and rnd: "random_ok pr"
  shows "\<exists>writebuf pad tail. build_packet pr ses = Inr (writebuf, (wp_cleared ses)\<lparr>rng := rng ses + length pad\<rparr>)
     \<and> pad = p_random pr (rng ses) (length pad)
     \<and> pad_ok (kc_trans (keys ses)) (wp_body ses) pad
     \<and> buf_ok writebuf \<and> unat (buf_size writebuf) \<le> 100000 \<and> buf_data writebuf = clear_packet (wp_body ses) pad @ tail
     \<and> buf_len writebuf = of_nat (length (clear_packet (wp_body ses) pad))
     \<and> unat (kd_hashsize (kc_trans (keys ses))) \<le> length tail"
proof -
  define kd where "kd = kc_trans (keys ses)"
  define P where "P = wp_body ses"
  define n where "n = buf_len (writepayload ses)"
  define B where "B = unat (kd_blocksize kd)"
  define M where "M = unat (kd_hashsize kd)"
  define S where "S = (n + 4 + 1) + max MIN_PACKET_LEN (ucast (kd_blocksize kd)) + 3 + ucast (kd_hashsize kd) + 1"
  have B: "8 \<le> B" "B \<le> 64" "B mod 8 = 0" and M: "M \<le> 64"
    using tr by (auto simp: trans_ok_def mac_ok_def kd_def B_def M_def)
  have n: "unat n = length P" and n1: "1 \<le> length P" "length P \<le> 16384"
    using wp ne length_wp_body [OF wp] by (cases "wp_body ses"; auto simp: n_def P_def wp_ok_def buf_ok_def)+
  have S: "unat S = length P + 5 + max 16 B + 3 + M + 1"
    using n n1 B M by (simp add: S_def unat_add_u32 unat_max_u32 unat_ucast_byte B_def [symmetric] M_def [symmetric])
  then have S1: "unat S \<le> 100000" "5 + length P \<le> unat S" using n1 B M by auto
  have rd: "buf_getptr (writepayload ses) n = Inr 0" "rd_mem (buf_data (writepayload ses)) 0 (unat n) = Inr P"
    using wp pos by (auto simp: buf_getptr_eq wp_ok_def length_buf_rest n_def rd_mem_def buf_ok_def P_def wp_body_def)
  define b where "b = \<lparr>buf_data = replicate 5 (0::byte) @ P @ replicate (unat S - 5 - length P) 0, buf_len = of_nat (5 + length P),
        buf_pos = of_nat (5 + length P), buf_size = S\<rparr>"
  note copy = copy_payload_eq [OF S1 n, folded b_def]
  have bl: "unat (buf_len b) = 5 + length P" using n1 by (simp only: b_def buffer.simps) (subst unat_of_nat_u32, simp)
  define ae where "ae \<longleftrightarrow> cm_aead_crypt (kd_crypt_mode kd) \<noteq> None"
  obtain p where p: "packet_padlen ae (kd_blocksize kd) (buf_len b) = Inr p" "4 \<le> unat p"
      "unat p \<le> max 16 B + 3" "(5 + length P - (if ae then 4 else 0) + unat p) mod B = 0" "16 \<le> 5 + length P + unat p"
    using packet_padlen_eq [of "kd_blocksize kd" "buf_len b" ae] B n1 bl by (auto simp: B_def)
  define r where "r = p_random pr (rng ses) (unat p)"
  have r: "unat p = length r" using rnd by (simp add: r_def random_ok_def)
  have fits: "5 + length P + length r \<le> unat S" using S p(3) r by simp
  define tail where "tail = replicate (unat S - 5 - length P - length r) (0::byte)"
  define wb where "wb = \<lparr>buf_data = clear_packet P r @ tail,
        buf_len = of_nat (5 + length P + length r), buf_pos = of_nat (5 + length P), buf_size = S\<rparr>"
  note hdr = header_and_pad_eq [OF S1(1) fits r, folded b_def tail_def, folded wb_def]
  have e1: "build_packet pr ses = rbind (rbind (buf_new S) (\<lambda>b. rbind (buf_setlen b 5) (\<lambda>b. rbind (buf_setpos b 5) (\<lambda>b.
      rbind (buf_getwriteptr b n) (\<lambda>w. rbind (wr_mem (buf_data b) w P) (\<lambda>d. buf_incrwritepos (b\<lparr>buf_data := d\<rparr>) n))))))
    (\<lambda>b. rbind (packet_padlen ae (kd_blocksize kd) (buf_len b)) (\<lambda>padlen.
       rbind (buf_setpos b 0) (\<lambda>b. rbind (buf_putint b (buf_len b + ucast padlen - 4)) (\<lambda>b.
       rbind (buf_putbyte b padlen) (\<lambda>b. rbind (buf_setpos b (buf_len b)) (\<lambda>b. rbind (buf_incrlen b (ucast padlen)) (\<lambda>b.
       rbind (buf_getptr b (ucast padlen)) (\<lambda>q. rbind (wr_mem (buf_data b) q (p_random pr (rng ses) (unat padlen)))
         (\<lambda>d. Inr (b\<lparr>buf_data := d\<rparr>, (wp_cleared ses)\<lparr>rng := rng ses + unat padlen\<rparr>))))))))))"
    using rd by (simp add: build_packet_def Let_def n_def kd_def S_def wp_reset_eq ae_def genrandom_def wp_cleared_def cong: rbind_cong)
  have "build_packet pr ses = rbind (rbind (buf_setpos b 0) (\<lambda>b. rbind (buf_putint b (buf_len b + ucast p - 4)) (\<lambda>b.
      rbind (buf_putbyte b p) (\<lambda>b. rbind (buf_setpos b (buf_len b)) (\<lambda>b. rbind (buf_incrlen b (ucast p)) (\<lambda>b.
      rbind (buf_getptr b (ucast p)) (\<lambda>q. rbind (wr_mem (buf_data b) q r) (\<lambda>d. Inr (b\<lparr>buf_data := d\<rparr>)))))))))
      (\<lambda>b. Inr (b, (wp_cleared ses)\<lparr>rng := rng ses + unat p\<rparr>))"
    unfolding e1 copy by (simp add: p(1) r_def)
  then have "build_packet pr ses = Inr (wb, (wp_cleared ses)\<lparr>rng := rng ses + length r\<rparr>)"
    unfolding hdr by (simp add: r)
  moreover have "buf_ok wb"
  proof -
    have "unat (of_nat (5 + length P + length r) :: u32) = 5 + length P + length r"
      and "unat (of_nat (5 + length P) :: u32) = 5 + length P"
      using S1 fits by (subst unat_of_nat_u32; simp)+
    then show ?thesis using S1 fits by (simp add: wb_def buf_ok_def tail_def)
  qed
  moreover have "M \<le> length tail" using S p(3) r by (simp add: tail_def)
  moreover have "length r < 256" using r unat_lt_u8 [of p] by simp
  moreover have "r = p_random pr (rng ses) (length r)" unfolding r [symmetric] by (rule r_def)
  moreover have "(5 + length P + length r - (if cm_aead_crypt (kd_crypt_mode kd) = None then 0 else 4)) mod B = 0"
    using p(4) r by (auto simp: ae_def split: if_splits)
  ultimately show ?thesis
    using p(2,5) r S1(1) unfolding P_def kd_def B_def M_def
    by (intro exI [of _ wb] exI [of _ r] exI [of _ tail]) (auto simp: wb_def P_def pad_ok_def)
qed

section \<open>Authentication and encryption of the packet\<close>

text \<open>What the MAC covers, and the bytes on the wire for a clear packet with a given sequence number.\<close>

definition mac_of :: "primitives \<Rightarrow> key_context_directional \<Rightarrow> u32 \<Rightarrow> byte list \<Rightarrow> byte list" where
  "mac_of pr kd seqno clear = (if kd_hashsize kd = 0 then [] else
     take (unat (kd_hashsize kd))
       (the (p_hmac pr (kd_hash_index kd) (take (kd_mac_keysize kd) (kd_mackey kd)) (STORE32H seqno @ clear))))"

definition seal_spec :: "primitives \<Rightarrow> key_context_directional \<Rightarrow> u32 \<Rightarrow> byte list \<Rightarrow> (byte list \<times> byte list) option" where
  "seal_spec pr kd seqno clear = (case cm_aead_crypt (kd_crypt_mode kd) of
     Some f \<Rightarrow> f seqno clear (of_nat (length clear)) (ucast (kd_hashsize kd)) (kd_cipher_state kd) True
   | None \<Rightarrow> (case cm_encrypt (kd_crypt_mode kd) (kd_cipher_state kd) clear of None \<Rightarrow> None
       | Some (out, st) \<Rightarrow> Some (out @ mac_of pr kd seqno clear, st)))"

lemma length_mac_of: "mac_ok pr kd \<Longrightarrow> cm_aead_crypt (kd_crypt_mode kd) = None \<Longrightarrow> length (mac_of pr kd seqno clear) = unat (kd_hashsize kd)"
proof (cases "kd_hashsize kd = 0")
  case False
  assume "mac_ok pr kd" "cm_aead_crypt (kd_crypt_mode kd) = None"
  with False obtain mac where "p_hmac pr (kd_hash_index kd) (take (kd_mac_keysize kd) (kd_mackey kd)) (STORE32H seqno @ clear) = Some mac"
      "unat (kd_hashsize kd) \<le> length mac"
    unfolding mac_ok_def by (metis word_neq_0_conv)
  then show ?thesis using False by (simp add: mac_of_def)
qed (simp add: mac_of_def)

lemma make_mac_eq:
  assumes mac: "mac_ok pr kd" and ae: "cm_aead_crypt (kd_crypt_mode kd) = None" and ok: "buf_ok b" and len: "unat l \<le> unat (buf_len b)"
  shows "\<exists>m b'. make_mac pr seqno kd b l = Inr (m, b')
     \<and> unat (kd_hashsize kd) \<le> length m \<and> take (unat (kd_hashsize kd)) m = mac_of pr kd seqno (take (unat l) (buf_data b))
     \<and> b' = b\<lparr>buf_pos := buf_pos b'\<rparr> \<and> unat (buf_pos b') \<le> unat (buf_pos b)"
proof (cases "kd_hashsize kd = 0")
  case True
  then show ?thesis by (simp add: make_mac_def mac_of_def)
next
  case False
  define b1 where "b1 = b\<lparr>buf_pos := 0\<rparr>"
  have ok1: "buf_ok b1" using ok by (simp add: b1_def buf_ok_def)
  have l: "unat l \<le> length (buf_rest b1)" using len length_buf_rest [OF ok1] by (simp add: b1_def)
  have r: "take (unat l) (buf_rest b1) = take (unat l) (buf_data b)"
    using len by (simp add: buf_rest_def b1_def min_absorb2)
  obtain m where m: "p_hmac pr (kd_hash_index kd) (take (kd_mac_keysize kd) (kd_mackey kd)) (STORE32H seqno @ take (unat l) (buf_data b)) = Some m"
      "unat (kd_hashsize kd) \<le> length m"
    using mac ae False unfolding mac_ok_def by (metis word_neq_0_conv)
  have "make_mac pr seqno kd b l = Inr (take MAX_MAC_LEN m, b1)"
    using False mac m l rd_rest [OF ok1 l] r
    by (simp add: make_mac_def word_neq_0_conv [symmetric] rd_mem_def mac_ok_def buf_setpos_eq b1_def [symmetric] buf_getptr_eq [OF ok1])
  then show ?thesis
    using m mac False by (auto simp: mac_of_def mac_ok_def b1_def min_absorb1 intro!: exI [of _ "take MAX_MAC_LEN m"] exI [of _ b1])
qed

lemma crypt_inplace_eq:
  assumes ok: "buf_ok b" and pos: "buf_pos b = 0" and len: "unat l \<le> unat (buf_len b)"
    and f: "f st (take (unat l) (buf_data b)) = Some (out, st')" and out: "length out = unat l"
  shows "crypt_inplace f err st b l = Inr (st', b\<lparr>buf_data := out @ drop (unat l) (buf_data b)\<rparr>)"
  using assms length_buf_rest [OF ok]
  by (auto simp: crypt_inplace_def buf_getptr_eq buf_getwriteptr_eq rd_mem_def wr_mem_def buf_ok_def)

lemma seal_packet_eq:
  assumes tr: "trans_ok pr (kc_trans (keys ses))" and ok: "buf_ok b" and size: "unat (buf_size b) \<le> 100000"
    and data: "buf_data b = clear @ tail" and len: "buf_len b = of_nat (length clear)" and lc: "16 \<le> length clear" "length clear \<le> 35000"
    and room: "unat (kd_hashsize (kc_trans (keys ses))) \<le> length tail"
    and blocks: "cm_aead_crypt (kd_crypt_mode (kc_trans (keys ses))) = None \<Longrightarrow>
       length clear mod unat (kd_blocksize (kc_trans (keys ses))) = 0"
  shows "\<exists>wire st b'. seal_spec pr (kc_trans (keys ses)) (transseq ses) clear = Some (wire, st)
     \<and> seal_packet pr b ses = Inr (b', set_trans_state st ses)
     \<and> buf_ok b' \<and> buf_len b' = of_nat (length wire) \<and> take (length wire) (buf_data b') = wire
     \<and> length wire = length clear + unat (kd_hashsize (kc_trans (keys ses))) \<and> length wire \<le> 100000"
proof -
  define kd where "kd = kc_trans (keys ses)"
  define M where "M = unat (kd_hashsize kd)"
  have mac: "mac_ok pr kd" and enc: "encrypt_ok kd" using tr by (simp_all add: trans_ok_def kd_def)
  have L: "length clear + length tail \<le> 100000" using ok size data by (simp add: buf_ok_def)
  have n: "unat (buf_len b) = length clear" using L len by (simp add: unat_of_nat_u32)
  have uM: "unat (ucast (kd_hashsize kd) :: u32) = M" by (simp add: unat_ucast_byte M_def)
  have room': "M \<le> length tail" using room by (simp add: kd_def M_def)
  have sz: "unat (buf_size b) = length clear + length tail" using ok data by (simp add: buf_ok_def)
  define b0 where "b0 = b\<lparr>buf_pos := 0\<rparr>"
  have ok0: "buf_ok b0" "buf_pos b0 = 0" using ok by (simp_all add: b0_def buf_ok_def)
  show ?thesis
  proof (cases "cm_aead_crypt (kd_crypt_mode kd)")
    case None
    obtain m b1 where m: "make_mac pr (transseq ses) kd b (buf_len b) = Inr (m, b1)" "M \<le> length m"
        "take M m = mac_of pr kd (transseq ses) clear" "b1 = b\<lparr>buf_pos := buf_pos b1\<rparr>"
      using make_mac_eq [OF mac None ok, of "buf_len b" "transseq ses"] n data by (auto simp: M_def)
    have bl: "length clear mod unat (kd_blocksize kd) = 0" using blocks None unfolding kd_def by blast
    obtain out st where out: "cm_encrypt (kd_crypt_mode kd) (kd_cipher_state kd) clear = Some (out, st)" "length out = length clear"
    proof -
      have "\<forall>st bs. 16 \<le> length bs \<and> length bs \<le> 35000 \<and> length bs mod unat (kd_blocksize kd) = 0 \<longrightarrow>
          (\<exists>out st'. cm_encrypt (kd_crypt_mode kd) st bs = Some (out, st') \<and> length out = length bs)"
        using enc None by (simp add: encrypt_ok_def)
      from this [rule_format, of clear "kd_cipher_state kd"] lc bl show ?thesis using that by blast
    qed
    have sp: "buf_setpos b1 0 = Inr b0" by (subst m(4)) (simp add: buf_setpos_eq b0_def)
    define b2 where "b2 = b0\<lparr>buf_data := out @ tail\<rparr>"
    have ok2: "buf_ok b2" using ok0 out data by (simp add: b2_def b0_def buf_ok_def)
    have cr: "crypt_inplace (cm_encrypt (kd_crypt_mode kd)) ''Error encrypting'' (kd_cipher_state kd) b0 (buf_len b) = Inr (st, b2)"
      using crypt_inplace_eq [OF ok0, of "buf_len b" "cm_encrypt (kd_crypt_mode kd)" "kd_cipher_state kd" out st] out n data
      by (simp add: b0_def b2_def)
    define b3 where "b3 = adv b2 (length clear)"
    have r2: "length (buf_rest b2) = length clear" using length_buf_rest [OF ok2] n by (simp add: b2_def b0_def)
    have inc: "buf_incrpos b2 (buf_len b) = Inr b3" using r2 n by (simp add: buf_incrpos_eq [OF ok2] b3_def)
    have ok3: "buf_ok b3" using r2 by (simp add: b3_def buf_ok_adv [OF ok2])
    have p3: "unat (buf_pos b3) = length clear" using unat_pos_adv [OF ok2, of "length clear"] r2 by (simp add: b3_def b2_def b0_def)
    have f3: "unat (buf_pos b3) + length (take M m) \<le> unat (buf_size b3)"
      using p3 sz room' m(2) by (simp add: b3_def b2_def b0_def)
    have put: "buf_putbytes b3 m (ucast (kd_hashsize kd)) = Inr (put_at b3 (take M m))"
      using m(2) p3 sz room' by (subst buf_putbytes_eq [OF ok3]) (auto simp: uM b3_def b2_def b0_def)
    define wire where "wire = out @ take M m"
    have "seal_packet pr b ses = Inr (put_at b3 (take M m), set_trans_state st ses)"
      using None m(1) sp cr inc put by (simp add: seal_packet_def Let_def kd_def [symmetric] b0_def)
    moreover have "take (length wire) (buf_data (put_at b3 (take M m))) = wire"
      using p3 out(2) m(2) by (simp add: put_at_def wire_def) (simp add: b3_def b2_def)
    moreover have "buf_len (put_at b3 (take M m)) = of_nat (length wire)"
      using put_at_fields(2) [OF ok3 f3] p3 n out(2) m(2) L room'
      by (simp add: u32_eq_iff unat_of_nat_u32 unat_add_u32 wire_def b3_def b2_def b0_def)
    moreover have "seal_spec pr kd (transseq ses) clear = Some (wire, st)"
      using None out m(3) by (simp add: seal_spec_def wire_def)
    ultimately show ?thesis
      using buf_ok_put_at [OF ok3 f3] out(2) m(2) L room'
      by (intro exI [of _ wire] exI [of _ st] exI [of _ "put_at b3 (take M m)"])
        (auto simp: kd_def [symmetric] M_def [symmetric] wire_def)
  next
    case (Some f)
    obtain out st where out: "f (transseq ses) clear (of_nat (length clear)) (ucast (kd_hashsize kd)) (kd_cipher_state kd) True = Some (out, st)"
        "length out = length clear + M"
      using enc Some lc unfolding encrypt_ok_def M_def by fastforce
    have sum: "unat (buf_len b + ucast (kd_hashsize kd)) = length clear + M"
      using n uM L room' by (simp add: unat_add_u32)
    define b1 where "b1 = b0\<lparr>buf_len := buf_len b + ucast (kd_hashsize kd)\<rparr>"
    have ok1: "buf_ok b1" using ok0 sum sz room' by (simp add: b1_def buf_ok_def b0_def)
    have il: "buf_incrlen b0 (ucast (kd_hashsize kd)) = Inr b1"
      using n uM sz room' by (subst buf_incrlen_eq [OF ok0(1)]) (simp add: b1_def b0_def)
    define b2 where "b2 = b1\<lparr>buf_data := out @ drop M tail\<rparr>"
    have ok2: "buf_ok b2" using ok1 out data room' by (simp add: b2_def b1_def b0_def buf_ok_def)
    have r1: "length (buf_rest b1) = length clear + M" "length (buf_rest b2) = length clear + M"
      using length_buf_rest [OF ok1] length_buf_rest [OF ok2] sum by (simp_all add: b2_def b1_def b0_def)
    have ae: "aead_inplace f ''Error encrypting'' True (transseq ses) (kd_cipher_state kd) b1 (buf_len b)
        (buf_len b + ucast (kd_hashsize kd)) (buf_len b) (ucast (kd_hashsize kd)) = Inr (st, b2)"
      using out n sum r1 sz room' data len
      by (simp add: aead_inplace_def buf_getptr_eq [OF ok1] buf_getwriteptr_eq [OF ok1] rd_mem_def wr_mem_def b2_def)
        (simp add: b1_def b0_def wr_mem_def)
    have inc: "buf_incrpos b2 (buf_len b + ucast (kd_hashsize kd)) = Inr (adv b2 (length clear + M))"
      using r1 sum by (simp add: buf_incrpos_eq [OF ok2])
    have "seal_packet pr b ses = Inr (adv b2 (length clear + M), set_trans_state st ses)"
      using Some il ae inc by (simp add: seal_packet_def Let_def kd_def [symmetric] buf_setpos_eq b0_def)
    moreover have "seal_spec pr kd (transseq ses) clear = Some (out, st)" using Some out by (simp add: seal_spec_def)
    moreover have "buf_len (adv b2 (length clear + M)) = of_nat (length out)"
      using sum out L room' by (simp add: u32_eq_iff unat_of_nat_u32 unat_add_u32 b2_def b1_def)
    ultimately show ?thesis
      using buf_ok_adv [OF ok2, of "length clear + M"] r1 out L room'
      by (intro exI [of _ out] exI [of _ st] exI [of _ "adv b2 (length clear + M)"])
        (auto simp: kd_def [symmetric] M_def [symmetric] b2_def)
  qed
qed

section \<open>What the handlers rely on when they send\<close>

text \<open>
  The state in which a packet can be sent, and what sending leaves as it was: everything but the
  outgoing buffers and queues, the sequence number, the counters, the cipher state and the times.
\<close>

definition sendable :: "primitives \<Rightarrow> sshsession \<Rightarrow> bool" where
  "sendable pr ses \<longleftrightarrow> wp_ok ses \<and> packets_ok (writequeue ses)
     \<and> writequeue_len ses = of_nat (length (queue_bytes (writequeue ses)))
     \<and> trans_ok pr (kc_trans (keys ses)) \<and> random_ok pr
     \<and> (\<forall>b\<in>set (reply_queue ses). buf_ok b \<and> 1 \<le> unat (buf_len b) \<and> unat (buf_len b) \<le> 16384)"

definition app_same :: "sshsession \<Rightarrow> sshsession \<Rightarrow> bool" where
  "app_same s s' \<longleftrightarrow> isserver s' = isserver s \<and> connect_time s' = connect_time s \<and> sock_in s' = sock_in s
     \<and> sock_out s' = sock_out s \<and> remoteident s' = remoteident s \<and> readbuf s' = readbuf s \<and> payload s' = payload s
     \<and> payload_beginning s' = payload_beginning s \<and> recvseq s' = recvseq s \<and> dataallowed s' = dataallowed s
     \<and> requirenext s' = requirenext s \<and> ignorenext s' = ignorenext s \<and> lastpacket s' = lastpacket s
     \<and> channel_signal_pending s' = channel_signal_pending s
     \<and> last_packet_time_keepalive_sent s' = last_packet_time_keepalive_sent s
     \<and> last_packet_time_keepalive_recv s' = last_packet_time_keepalive_recv s
     \<and> (kexstate s')\<lparr>datatrans := 0\<rparr> = (kexstate s)\<lparr>datatrans := 0\<rparr>
     \<and> kc_recv (keys s') = kc_recv (keys s) \<and> newkeys s' = newkeys s
     \<and> session_id s' = session_id s \<and> dh_K s' = dh_K s \<and> dh_K_bytes s' = dh_K_bytes s \<and> ses_hash s' = ses_hash s
     \<and> kexhashbuf s' = kexhashbuf s \<and> transkexinit s' = transkexinit s \<and> sigalgs s' = sigalgs s \<and> allow_ext_info s' = allow_ext_info s \<and> authstate s' = authstate s
     \<and> channels s' = channels s \<and> chansize s' = chansize s \<and> chancount s' = chancount s
     \<and> socket_prio s' = socket_prio s \<and> listeners s' = listeners s \<and> listensize s' = listensize s \<and> maxfd s' = maxfd s \<and> fds s' = fds s
     \<and> files s' = files s \<and> clock s' = clock s \<and> socket_input s' = socket_input s
     \<and> socket_writes s' = socket_writes s \<and> socket_output s' = socket_output s"

lemma app_same_refl [simp]: "app_same s s"
  by (simp add: app_same_def)

lemma app_same_trans: "app_same s t \<Longrightarrow> app_same t u \<Longrightarrow> app_same s u"
  by (simp add: app_same_def)

text \<open>Whatever sending does, it stays within the buffers, the queues and the keys of the direction to the peer.\<close>

lemma with_wp_same: "with_wp f s = Inr s' \<Longrightarrow> app_same s s'"
  by (auto simp: with_wp_def app_same_def)

lemma wp_reset_same: "wp_reset s = Inr s' \<Longrightarrow> app_same s s'"
  unfolding wp_reset_def by (rule with_wp_same)

lemma put_field_same: "put_field f s = Inr s' \<Longrightarrow> app_same s s'"
  by (cases f) (auto simp: wp_putbyte_def wp_putint_def wp_putstring_def intro: with_wp_same)

lemma put_fields_same: "put_fields fs s = Inr s' \<Longrightarrow> app_same s s'"
  by (induction fs arbitrary: s) (auto dest: put_field_same intro: app_same_trans)

lemma build_packet_same: "build_packet pr s = Inr (b, s') \<Longrightarrow> app_same s s'"
  unfolding build_packet_def Let_def
  by (auto simp: genrandom_def dest!: wp_reset_same) (simp add: app_same_def)

lemma seal_packet_same: "seal_packet pr b s = Inr (b', s') \<Longrightarrow> app_same s s'"
  unfolding seal_packet_def Let_def
  by (auto simp: set_trans_state_def app_same_def split: option.splits)

lemma writebuf_enqueue_same: "writebuf_enqueue b s = Inr s' \<Longrightarrow> app_same s s'"
  by (auto simp: writebuf_enqueue_def app_same_def)

lemma send_now_same:
  assumes "send_now pr t s = Inr s'"
  shows "app_same s s'"
proof -
  obtain b s1 b2 s2 s3 where st: "build_packet pr s = Inr (b, s1)" "seal_packet pr b s1 = Inr (b2, s2)"
      "writebuf_enqueue b2 (s2\<lparr>kexstate := (kexstate s2)\<lparr>datatrans := datatrans (kexstate s2) + buf_len b2\<rparr>\<rparr>) = Inr s3"
    and s': "(let now = clock s3; ses = s3\<lparr>transseq := transseq s3 + 1, last_packet_time_any_sent := now\<rparr> in
      Inr (if t \<noteq> SSH_MSG_REQUEST_FAILURE \<and> t \<noteq> SSH_MSG_UNIMPLEMENTED \<and> t \<noteq> SSH_MSG_IGNORE then ses\<lparr>last_packet_time_idle := now\<rparr> else ses) :: sshsession res) = Inr s'"
    using assms unfolding send_now_def rbind_eq_Inr by auto
  have "app_same s2 (s2\<lparr>kexstate := (kexstate s2)\<lparr>datatrans := datatrans (kexstate s2) + buf_len b2\<rparr>\<rparr>)" by (simp add: app_same_def)
  moreover have "app_same s3 s'" using s' by (cases "t \<noteq> SSH_MSG_REQUEST_FAILURE \<and> t \<noteq> SSH_MSG_UNIMPLEMENTED \<and> t \<noteq> SSH_MSG_IGNORE") (auto simp: app_same_def Let_def)
  ultimately show ?thesis
    using build_packet_same [OF st(1)] seal_packet_same [OF st(2)] writebuf_enqueue_same [OF st(3)] by (blast intro: app_same_trans)
qed

lemma encrypt_packet_same:
  assumes "encrypt_packet pr s = Inr s'"
  shows "app_same s s'"
proof -
  obtain s1 b t s2 where st: "with_wp (\<lambda>b. buf_setpos b 0) s = Inr s1" "with_wp (\<lambda>b. buf_setpos b 0) (s1\<lparr>writepayload := b\<rparr>) = Inr s2"
    "enqueue_reply_packet s2 = Inr s' \<or> send_now pr t s2 = Inr s'"
    using assms by (auto simp: encrypt_packet_def split: if_splits)
  have "app_same s2 s'" using st(3)
  proof
    assume "enqueue_reply_packet s2 = Inr s'"
    then obtain x u where u: "wp_reset s2 = Inr u" "s' = u\<lparr>reply_queue := reply_queue u @ [x]\<rparr>" by (auto simp: enqueue_reply_packet_def)
    from wp_reset_same [OF u(1)] show ?thesis unfolding u(2) by (simp add: app_same_def)
  qed (rule send_now_same)
  moreover have "app_same s1 (s1\<lparr>writepayload := b\<rparr>)" by (simp add: app_same_def)
  ultimately show ?thesis using with_wp_same [OF st(1)] with_wp_same [OF st(2)] by (blast intro: app_same_trans)
qed


definition wp_empty :: "sshsession \<Rightarrow> bool" where
  "wp_empty ses \<longleftrightarrow> buf_pos (writepayload ses) = 0 \<and> buf_len (writepayload ses) = 0"

definition held_back :: "sshsession \<Rightarrow> byte \<Rightarrow> bool" where
  "held_back ses type \<longleftrightarrow> \<not> dataallowed ses \<and> \<not> packet_is_okay_kex type"

definition buf_body :: "buffer \<Rightarrow> byte list" where
  "buf_body b = take (unat (buf_len b)) (buf_data b)"

lemma wp_body_buf: "wp_body ses = buf_body (writepayload ses)"
  by (simp add: wp_body_def buf_body_def)

lemma writebuf_enqueue_eq:
  assumes q: "packets_ok (writequeue ses)" and wl: "writequeue_len ses = of_nat (length (queue_bytes (writequeue ses)))"
    and ok: "buf_ok b" and ne: "buf_body b \<noteq> []"
  shows "\<exists>q'. writebuf_enqueue b ses = Inr (ses\<lparr>writequeue := q', writequeue_len := of_nat (length (queue_bytes q'))\<rparr>)
     \<and> packets_ok q' \<and> queue_bytes q' = queue_bytes (writequeue ses) @ buf_body b"
proof -
  define b0 where "b0 = b\<lparr>buf_pos := 0\<rparr>"
  have ok0: "buf_ok b0" and rest: "buf_rest b0 = buf_body b"
    using ok by (simp_all add: b0_def buf_ok_def buf_rest_def buf_body_def)
  obtain q' where q': "enqueue (writequeue ses) b0 = Inr q'" "queue_ok q'" "q_items q' = q_items (writequeue ses) @ [b0]"
    using enqueue_law [of "writequeue ses" b0] q by (auto simp: packets_ok_def)
  have bytes: "queue_bytes q' = queue_bytes (writequeue ses) @ buf_body b"
    by (simp add: queue_bytes_def q'(3) rest)
  have "length (buf_body b) = unat (buf_len b)" using ok by (simp add: buf_body_def buf_ok_def)
  then have "writequeue_len ses + buf_len b = of_nat (length (queue_bytes q'))"
    by (simp add: wl bytes)
  moreover have "packets_ok q'" using q q' ok0 rest ne by (auto simp: packets_ok_def pending_ok_def)
  ultimately show ?thesis
    using q'(1) bytes by (intro exI [of _ q']) (simp add: writebuf_enqueue_def buf_setpos_eq b0_def)
qed

lemma send_now_eq:
  assumes s: "sendable pr ses" and pos: "buf_pos (writepayload ses) = 0" and ne: "wp_body ses \<noteq> []"
  shows "\<exists>ses' pad wire st. send_now pr type ses = Inr ses' \<and> sendable pr ses' \<and> app_same ses ses' \<and> wp_empty ses'
     \<and> pad_ok (kc_trans (keys ses)) (wp_body ses) pad
     \<and> seal_spec pr (kc_trans (keys ses)) (transseq ses) (clear_packet (wp_body ses) pad) = Some (wire, st)
     \<and> queue_bytes (writequeue ses') = queue_bytes (writequeue ses) @ wire
     \<and> kc_trans (keys ses') = (kc_trans (keys ses))\<lparr>kd_cipher_state := st\<rparr>
     \<and> transseq ses' = transseq ses + 1 \<and> reply_queue ses' = reply_queue ses"
proof -
  define kd where "kd = kc_trans (keys ses)"
  have w: "wp_ok ses" and tr: "trans_ok pr kd" and rnd: "random_ok pr"
    using s by (simp_all add: sendable_def kd_def)
  obtain b pad tail where b: "build_packet pr ses = Inr (b, (wp_cleared ses)\<lparr>rng := rng ses + length pad\<rparr>)"
      "pad_ok kd (wp_body ses) pad" "buf_ok b" "unat (buf_size b) \<le> 100000"
      "buf_data b = clear_packet (wp_body ses) pad @ tail" "buf_len b = of_nat (length (clear_packet (wp_body ses) pad))"
      "unat (kd_hashsize kd) \<le> length tail"
    using build_packet_eq [OF w pos ne tr [unfolded kd_def] rnd] unfolding kd_def by blast
  define s1 where "s1 = (wp_cleared ses)\<lparr>rng := rng ses + length pad\<rparr>"
  have k1: "kc_trans (keys s1) = kd" "transseq s1 = transseq ses" by (simp_all add: s1_def wp_cleared_def kd_def)
  have bl: "cm_aead_crypt (kd_crypt_mode (kc_trans (keys s1))) = None \<Longrightarrow>
      length (clear_packet (wp_body ses) pad) mod unat (kd_blocksize (kc_trans (keys s1))) = 0"
    using b(2) by (simp add: pad_ok_def k1)
  have lc: "16 \<le> length (clear_packet (wp_body ses) pad)" "length (clear_packet (wp_body ses) pad) \<le> 35000"
    using b(2) w length_wp_body [OF w] by (auto simp: pad_ok_def wp_ok_def buf_ok_def)
  obtain wire st b' where wire: "seal_spec pr kd (transseq ses) (clear_packet (wp_body ses) pad) = Some (wire, st)"
      "seal_packet pr b s1 = Inr (b', set_trans_state st s1)" "buf_ok b'" "buf_len b' = of_nat (length wire)"
      "take (length wire) (buf_data b') = wire" "length wire = length (clear_packet (wp_body ses) pad) + unat (kd_hashsize kd)"
      "length wire \<le> 100000"
    using seal_packet_eq [of pr s1 b, OF _ b(3-6) lc _ bl] b(7) tr unfolding k1 by blast
  have "unat (buf_len b') = length wire" using wire(4,7) unfolding wire(4) by (subst unat_of_nat_u32) simp
  then have body: "buf_body b' = wire" using wire(5) by (simp add: buf_body_def)
  have "wire \<noteq> []" using wire(6) by auto
  note body = body this
  define s2 where "s2 = (set_trans_state st s1)\<lparr>kexstate := (kexstate s1)\<lparr>datatrans := datatrans (kexstate s1) + buf_len b'\<rparr>\<rparr>"
  have f2: "writequeue s2 = writequeue ses" "writequeue_len s2 = writequeue_len ses"
    by (simp_all add: s2_def s1_def set_trans_state_def wp_cleared_def)
  obtain q' where q': "writebuf_enqueue b' s2 = Inr (s2\<lparr>writequeue := q', writequeue_len := of_nat (length (queue_bytes q'))\<rparr>)"
      "packets_ok q'" "queue_bytes q' = queue_bytes (writequeue ses) @ wire"
    using writebuf_enqueue_eq [of s2 b'] s wire(3) body unfolding f2 sendable_def by auto
  define s3 where "s3 = s2\<lparr>writequeue := q', writequeue_len := of_nat (length (queue_bytes q')),
    transseq := transseq ses + 1, last_packet_time_any_sent := clock ses\<rparr>"
  define s4 where "s4 = (if type \<noteq> SSH_MSG_REQUEST_FAILURE \<and> type \<noteq> SSH_MSG_UNIMPLEMENTED \<and> type \<noteq> SSH_MSG_IGNORE
    then s3\<lparr>last_packet_time_idle := clock ses\<rparr> else s3)"
  have run: "send_now pr type ses = Inr s4"
    using b(1) wire(2) q'(1) unfolding s1_def [symmetric]
    by (simp add: send_now_def Let_def s2_def [symmetric] s4_def s3_def)
      (simp add: s2_def s1_def set_trans_state_def wp_cleared_def)
  have tr': "trans_ok pr (kd\<lparr>kd_cipher_state := st\<rparr>)"
    using tr by (simp add: trans_ok_def mac_ok_def encrypt_ok_def split: option.splits)
  note fields = s4_def s3_def s2_def s1_def set_trans_state_def wp_cleared_def
  have "sendable pr s4"
    using s tr' q'(2) rnd wp_cleared_ok [OF w]
    by (auto simp: sendable_def fields wp_ok_def kd_def [symmetric])
  moreover have "app_same ses s4" "wp_empty s4" by (simp_all add: app_same_def wp_empty_def fields)
  moreover have "kc_trans (keys s4) = kd\<lparr>kd_cipher_state := st\<rparr>" "transseq s4 = transseq ses + 1"
      "reply_queue s4 = reply_queue ses" "writequeue s4 = q'"
    by (simp_all add: fields kd_def)
  ultimately show ?thesis
    using run b(2) wire(1) q'(3) unfolding kd_def by blast
qed

lemma wp_at_start:
  assumes "wp_ok ses"
  shows "with_wp (\<lambda>b. buf_setpos b 0) ses = Inr (ses\<lparr>writepayload := (writepayload ses)\<lparr>buf_pos := 0\<rparr>\<rparr>)"
  by (simp add: with_wp_def buf_setpos_eq)

lemma encrypt_packet_unfold:
  assumes w: "wp_ok ses" and ne: "wp_body ses \<noteq> []"
  defines "s0 \<equiv> ses\<lparr>writepayload := (writepayload ses)\<lparr>buf_pos := 0\<rparr>\<rparr>"
  shows "encrypt_packet pr ses = (if held_back ses (hd (wp_body ses)) then enqueue_reply_packet s0
     else send_now pr (hd (wp_body ses)) s0)"
proof -
  define b where "b = (writepayload ses)\<lparr>buf_pos := 0\<rparr>"
  have ok: "buf_ok b" and rest: "buf_rest b = wp_body ses"
    using w by (simp_all add: b_def wp_ok_def buf_ok_def buf_rest_def wp_body_def)
  have "buf_getbyte b = Inr (hd (wp_body ses), adv b 1)" using ne rest by (simp add: buf_getbyte_eq [OF ok])
  moreover have "with_wp (\<lambda>b. buf_setpos b 0) (s0\<lparr>writepayload := adv b 1\<rparr>) = Inr s0"
    by (simp add: with_wp_def buf_setpos_eq s0_def adv_def b_def)
  moreover have "writepayload s0 = b" "dataallowed s0 = dataallowed ses" by (simp_all add: s0_def b_def)
  ultimately show ?thesis
    by (simp add: encrypt_packet_def wp_at_start [OF w] s0_def [symmetric] held_back_def)
qed

lemma buf_newcopy_eq:
  assumes "buf_ok b"
  shows "buf_newcopy b = Inr \<lparr>buf_data = buf_body b, buf_len = buf_len b, buf_pos = 0, buf_size = buf_len b\<rparr>"
proof (cases "buf_len b = 0")
  case True
  then show ?thesis by (simp add: buf_newcopy_def buf_new_def Let_def buf_body_def)
next
  case False
  then have "0 < buf_len b" by (simp add: word_neq_0_conv)
  then show ?thesis
    using assms by (auto simp: buf_newcopy_def buf_new_def Let_def buf_body_def rd_mem_def wr_mem_def buf_ok_def word_less_nat_alt)
qed

lemma enqueue_reply_eq:
  assumes s: "sendable pr ses" and ne: "wp_body ses \<noteq> []"
  shows "\<exists>ses'. enqueue_reply_packet ses = Inr ses' \<and> sendable pr ses' \<and> app_same ses ses' \<and> wp_empty ses'
     \<and> map buf_body (reply_queue ses') = map buf_body (reply_queue ses) @ [wp_body ses]
     \<and> queue_bytes (writequeue ses') = queue_bytes (writequeue ses) \<and> keys ses' = keys ses \<and> transseq ses' = transseq ses"
proof -
  have w: "wp_ok ses" using s by (simp add: sendable_def)
  define c where "c = \<lparr>buf_data = wp_body ses, buf_len = buf_len (writepayload ses), buf_pos = 0, buf_size = buf_len (writepayload ses)\<rparr>"
  have cp: "buf_newcopy (writepayload ses) = Inr c"
    using w by (simp add: buf_newcopy_eq wp_ok_def c_def wp_body_buf)
  have l: "length (wp_body ses) = unat (buf_len (writepayload ses))" by (rule length_wp_body [OF w])
  have "buf_ok c" "1 \<le> unat (buf_len c)" "unat (buf_len c) \<le> 16384" "buf_body c = wp_body ses"
    using l ne w by (auto simp: c_def buf_ok_def buf_body_def wp_ok_def Suc_le_eq simp flip: l)
  then show ?thesis
    using s wp_cleared_ok [OF w]
    by (auto simp: enqueue_reply_packet_def cp wp_reset_eq sendable_def app_same_def wp_empty_def wp_cleared_def wp_ok_def)
qed

text \<open>What the transport does with a packet a handler has built: it is framed and queued, or kept for later.\<close>

lemma encrypt_packet_law:
  assumes s: "sendable pr ses" and ne: "wp_body ses \<noteq> []"
  shows "\<exists>ses'. encrypt_packet pr ses = Inr ses' \<and> sendable pr ses' \<and> app_same ses ses' \<and> wp_empty ses'
     \<and> (if held_back ses (hd (wp_body ses)) then
          map buf_body (reply_queue ses') = map buf_body (reply_queue ses) @ [wp_body ses]
          \<and> queue_bytes (writequeue ses') = queue_bytes (writequeue ses) \<and> keys ses' = keys ses \<and> transseq ses' = transseq ses
        else \<exists>pad wire st. pad_ok (kc_trans (keys ses)) (wp_body ses) pad
          \<and> seal_spec pr (kc_trans (keys ses)) (transseq ses) (clear_packet (wp_body ses) pad) = Some (wire, st)
          \<and> queue_bytes (writequeue ses') = queue_bytes (writequeue ses) @ wire
          \<and> kc_trans (keys ses') = (kc_trans (keys ses))\<lparr>kd_cipher_state := st\<rparr>
          \<and> transseq ses' = transseq ses + 1 \<and> reply_queue ses' = reply_queue ses)"
proof -
  define s0 where "s0 = ses\<lparr>writepayload := (writepayload ses)\<lparr>buf_pos := 0\<rparr>\<rparr>"
  have w: "wp_ok ses" using s by (simp add: sendable_def)
  have s0: "sendable pr s0" "wp_body s0 = wp_body ses" "buf_pos (writepayload s0) = 0"
    using s by (auto simp: s0_def sendable_def wp_ok_def buf_ok_def wp_body_def)
  have f: "keys s0 = keys ses" "transseq s0 = transseq ses" "reply_queue s0 = reply_queue ses" "writequeue s0 = writequeue ses"
    by (simp_all add: s0_def)
  have a: "app_same s0 t \<Longrightarrow> app_same ses t" for t by (simp add: app_same_def s0_def)
  note unf = encrypt_packet_unfold [OF w ne, of pr, folded s0_def]
  show ?thesis
  proof (cases "held_back ses (hd (wp_body ses))")
    case True
    with unf enqueue_reply_eq [OF s0(1)] ne a show ?thesis unfolding s0(2) f by auto
  next
    case False
    with unf send_now_eq [OF s0(1,3)] ne a show ?thesis unfolding s0(2) f by fastforce
  qed
qed

text \<open>
  What becomes of a message: it is framed, sealed and queued for the socket with the next sequence
  number, or kept in the reply queue when a key exchange is under way and it may not be sent now.
\<close>

definition emitted :: "primitives \<Rightarrow> sshsession \<Rightarrow> byte list \<Rightarrow> sshsession \<Rightarrow> bool" where
  "emitted pr ses m ses' \<longleftrightarrow> (if held_back ses (hd m) then
       map buf_body (reply_queue ses') = map buf_body (reply_queue ses) @ [m]
       \<and> queue_bytes (writequeue ses') = queue_bytes (writequeue ses) \<and> keys ses' = keys ses \<and> transseq ses' = transseq ses
     else \<exists>pad wire st. pad_ok (kc_trans (keys ses)) m pad
       \<and> seal_spec pr (kc_trans (keys ses)) (transseq ses) (clear_packet m pad) = Some (wire, st)
       \<and> queue_bytes (writequeue ses') = queue_bytes (writequeue ses) @ wire
       \<and> kc_trans (keys ses') = (kc_trans (keys ses))\<lparr>kd_cipher_state := st\<rparr>
       \<and> transseq ses' = transseq ses + 1 \<and> reply_queue ses' = reply_queue ses)"

section \<open>The transport as the handlers see it\<close>

locale transport =
  fixes send :: "sshsession \<Rightarrow> sshsession res"
    and ready :: "sshsession \<Rightarrow> bool"
    and emits :: "sshsession \<Rightarrow> byte list \<Rightarrow> sshsession \<Rightarrow> bool"
  assumes ready_wp: "ready ses \<Longrightarrow> wp_ok ses"
    and ready_put: "ready ses \<Longrightarrow> wp_ok (ses\<lparr>writepayload := b\<rparr>) \<Longrightarrow> ready (ses\<lparr>writepayload := b\<rparr>)"
    and send_law: "ready ses \<Longrightarrow> wp_body ses \<noteq> [] \<Longrightarrow>
      \<exists>ses'. send ses = Inr ses' \<and> ready ses' \<and> app_same ses ses' \<and> wp_empty ses' \<and> emits ses (wp_body ses) ses'"
    and emits_put: "emits (ses\<lparr>writepayload := b\<rparr>) m ses' = emits ses m ses'"
begin

text \<open>Filling the payload and sending: the message the fields spell goes out, and nothing else changes.\<close>

lemma send_fields:
  assumes r: "ready ses" and e: "wp_empty ses" and ne: "message fs \<noteq> []" and len: "length (message fs) \<le> 16384"
  shows "\<exists>ses'. rbind (put_fields fs ses) send = Inr ses' \<and> ready ses' \<and> wp_empty ses' \<and> app_same ses ses'
     \<and> emits ses (message fs) ses'"
proof -
  have w: "wp_ok ses" by (rule ready_wp [OF r])
  have p0: "unat (buf_pos (writepayload ses)) = 0" using e by (simp add: wp_empty_def)
  define s1 where "s1 = ses\<lparr>writepayload := put_at (writepayload ses) (message fs)\<rparr>"
  have put: "put_fields fs ses = Inr s1" using put_fields_eq [OF w] p0 len by (simp add: s1_def)
  have w1: "wp_ok s1" using wp_ok_put [OF w] p0 len by (simp add: s1_def)
  have "unat (buf_len (writepayload s1)) = length (message fs)"
    using put_at_fields(2) [of "writepayload ses" "message fs"] w p0 len e by (simp add: s1_def wp_ok_def wp_empty_def)
  then have body: "wp_body s1 = message fs" using p0 by (simp add: wp_body_def s1_def put_at_def)
  obtain s2 where s2: "send s1 = Inr s2" "ready s2" "app_same s1 s2" "wp_empty s2" "emits s1 (wp_body s1) s2"
    using send_law [of s1] ready_put [OF r] w1 ne body by (auto simp: s1_def)
  have "app_same ses s1" by (simp add: app_same_def s1_def)
  then have "app_same ses s2" using s2(3) by (rule app_same_trans)
  moreover have "emits ses (message fs) s2" using s2(5) by (simp add: body) (simp add: s1_def emits_put)
  ultimately show ?thesis using put s2 by auto
qed

lemma send_fields_safe:
  assumes "ready ses" and "wp_empty ses" and "message fs \<noteq> []" and "length (message fs) \<le> 16384"
  shows "safe (\<lambda>s. ready s \<and> wp_empty s \<and> app_same ses s) (rbind (put_fields fs ses) send)"
  using send_fields [OF assms] by auto

end

interpretation ssh: transport "encrypt_packet pr" "sendable pr" "emitted pr" for pr
proof
  fix ses b assume "sendable pr ses" and "wp_ok (ses\<lparr>writepayload := b\<rparr>)"
  then show "sendable pr (ses\<lparr>writepayload := b\<rparr>)" by (simp add: sendable_def)
next
  fix ses assume "sendable pr ses" and "wp_body ses \<noteq> []"
  from encrypt_packet_law [OF this]
  show "\<exists>ses'. encrypt_packet pr ses = Inr ses' \<and> sendable pr ses' \<and> app_same ses ses' \<and> wp_empty ses'
      \<and> emitted pr ses (wp_body ses) ses'"
    unfolding emitted_def by blast
qed (simp_all add: sendable_def emitted_def held_back_def)

section \<open>Flushing what was held back\<close>

text \<open>The successive messages of a flush, each sealed after the other.\<close>

fun emitted_all :: "primitives \<Rightarrow> sshsession \<Rightarrow> byte list list \<Rightarrow> sshsession \<Rightarrow> bool" where
  "emitted_all pr ses [] ses' \<longleftrightarrow> queue_bytes (writequeue ses') = queue_bytes (writequeue ses)
     \<and> transseq ses' = transseq ses \<and> keys ses' = keys ses"
| "emitted_all pr ses (m # ms) ses' \<longleftrightarrow> (\<exists>s1. sendable pr s1 \<and> app_same ses s1 \<and> emitted pr ses m s1 \<and> emitted_all pr s1 ms ses')"

lemma wp_put_item:
  assumes w: "wp_ok ses" and e: "wp_empty ses" and b: "buf_ok b" "unat (buf_len b) \<le> 16384"
  shows "\<exists>s1. with_wp (\<lambda>w. buf_putbytes w (buf_data b) (buf_len b)) ses = Inr s1 \<and> wp_ok s1
     \<and> s1 = ses\<lparr>writepayload := writepayload s1\<rparr> \<and> wp_body s1 = buf_body b"
proof -
  define s1 where "s1 = ses\<lparr>writepayload := put_at (writepayload ses) (buf_body b)\<rparr>"
  have p0: "unat (buf_pos (writepayload ses)) = 0" "unat (buf_len (writepayload ses)) = 0" using e by (simp_all add: wp_empty_def)
  have l: "length (buf_body b) = unat (buf_len b)" using b by (simp add: buf_body_def buf_ok_def)
  have "with_wp (\<lambda>w. buf_putbytes w (buf_data b) (buf_len b)) ses = Inr s1"
    using w b p0 by (simp add: with_wp_def wp_ok_def buf_putbytes_eq s1_def buf_body_def buf_ok_def)
  moreover have "wp_ok s1" using wp_ok_put [OF w] p0 l b by (simp add: s1_def)
  moreover have "unat (buf_len (writepayload s1)) = length (buf_body b)"
    using put_at_fields(2) [of "writepayload ses" "buf_body b"] w p0 l b by (simp add: s1_def wp_ok_def)
  then have "wp_body s1 = buf_body b" using p0 by (simp add: wp_body_def s1_def put_at_def)
  ultimately show ?thesis by (auto simp: s1_def)
qed

lemma flush_items_eq:
  assumes "sendable pr ses" and "wp_empty ses" and "dataallowed ses"
    and "\<forall>b\<in>set items. buf_ok b \<and> 1 \<le> unat (buf_len b) \<and> unat (buf_len b) \<le> 16384"
  shows "\<exists>ses'. flush_items pr items ses = Inr ses' \<and> sendable pr ses' \<and> wp_empty ses' \<and> app_same ses ses'
     \<and> reply_queue ses' = reply_queue ses \<and> emitted_all pr ses (map buf_body items) ses'"
  using assms
proof (induction items arbitrary: ses)
  case Nil
  then show ?case by simp
next
  case (Cons b items)
  have b: "buf_ok b" "1 \<le> unat (buf_len b)" "unat (buf_len b) \<le> 16384" using Cons.prems(4) by auto
  have w: "wp_ok ses" using Cons.prems(1) by (simp add: sendable_def)
  from wp_put_item [OF w Cons.prems(2) b(1,3)] obtain s1 where
    s1: "with_wp (\<lambda>w. buf_putbytes w (buf_data b) (buf_len b)) ses = Inr s1" "wp_ok s1"
      "s1 = ses\<lparr>writepayload := writepayload s1\<rparr>" "wp_body s1 = buf_body b" by blast
  have "length (buf_body b) = unat (buf_len b)" using b by (simp add: buf_body_def buf_ok_def)
  then have ne: "wp_body s1 \<noteq> []" using b(2) s1(4) by auto
  have r1: "sendable pr s1" using ssh.ready_put [OF Cons.prems(1)] s1(2,3) by metis
  obtain s2 where s2: "encrypt_packet pr s1 = Inr s2" "sendable pr s2" "app_same s1 s2" "wp_empty s2" "emitted pr s1 (buf_body b) s2"
    using ssh.send_law [OF r1 ne] s1(4) by auto
  have a1: "app_same ses s1" by (subst s1(3)) (simp add: app_same_def)
  have a2: "app_same ses s2" using a1 s2(3) by (rule app_same_trans)
  have e2: "emitted pr ses (buf_body b) s2" using s2(5) ssh.emits_put s1(3) by metis
  then have "reply_queue s2 = reply_queue ses" using Cons.prems(3) by (auto simp: emitted_def held_back_def)
  moreover have "dataallowed s2" using a2 Cons.prems(3) by (simp add: app_same_def)
  ultimately obtain s3 where "flush_items pr items s2 = Inr s3" "sendable pr s3" "wp_empty s3" "app_same s2 s3"
      "reply_queue s3 = reply_queue ses" "emitted_all pr s2 (map buf_body items) s3"
    using Cons.IH [OF s2(2,4)] Cons.prems(4) by auto
  then show ?case using s1(1) s2(1,2) a2 e2 by (auto intro: app_same_trans)
qed

section \<open>Properties\<close>

lemma no_keys_trans_ok: "trans_ok pr no_keys_directional"
  by (simp add: trans_ok_def mac_ok_def encrypt_ok_def no_keys_directional_def dropbear_nocipher_def dropbear_nohash_def dropbear_mode_none_def void_cipher_def)

lemma common_session_init_eq:
  assumes "random_ok pr"
  shows "\<exists>ses. common_session_init sin sout ses_zero = Inr ses \<and> sendable pr ses \<and> wp_empty ses
     \<and> dataallowed ses \<and> keys ses = \<lparr>kc_recv = no_keys_directional, kc_trans = no_keys_directional, kc_algo_kex = None,
          kc_algo_hostkey = - 1, kc_algo_signature = 0\<rparr>
     \<and> transseq ses = 0 \<and> queue_bytes (writequeue ses) = [] \<and> reply_queue ses = []"
  using assms no_keys_trans_ok [of pr]
  by (simp add: queue0_ok common_session_init_def buf_new_def update_channel_prio_def Let_def ses_zero_def
      sendable_def wp_ok_def buf_ok_def initqueue_queue0 packets_ok_def queue_bytes_def wp_empty_def)

text \<open>A random source for the witnesses: the position itself.\<close>

definition counting_primitives :: primitives where
  "counting_primitives = \<lparr>p_hmac = (\<lambda>_ _ _. None), p_random = (\<lambda>k n. map (\<lambda>i. of_nat (k + i)) [0 ..< n]), p_iov_max = 1024\<rparr>"

lemma counting_random_ok: "random_ok counting_primitives"
  by (simp add: random_ok_def counting_primitives_def)

text \<open>
  An AEAD cipher for the witnesses, with the checks of src/dropbear/src/chachapoly.c: less than four bytes and a tag that has not 16 bytes are refused. It shifts every byte, and the tag depends on the sequence number and
  on all that was enciphered.
\<close>

definition toy_tag :: "u32 \<Rightarrow> byte list \<Rightarrow> byte list" where
  "toy_tag seqno out = replicate 16 (ucast seqno + sum_list out)"

definition toy_aead :: "u32 \<Rightarrow> byte list \<Rightarrow> u32 \<Rightarrow> u32 \<Rightarrow> byte list \<Rightarrow> bool \<Rightarrow> (byte list \<times> byte list) option" where
  "toy_aead seqno bs len taglen st encrypting = (if len < 4 \<or> taglen \<noteq> 16 then None
     else if encrypting then Some (map (\<lambda>b. b + 85) bs @ toy_tag seqno (map (\<lambda>b. b + 85) bs), st)
     else if drop (unat len) bs = toy_tag seqno (take (unat len) bs) then Some (map (\<lambda>b. b - 85) (take (unat len) bs), st) else None)"

definition toy_aead_keys :: key_context_directional where
  "toy_aead_keys = no_keys_directional\<lparr>kd_algo_crypt := \<lparr>dc_cipherdesc = Some None, dc_keysize = 64, dc_blocksize = 8\<rparr>,
     kd_crypt_mode := dropbear_mode_none\<lparr>cm_aead_crypt := Some toy_aead,
       cm_aead_getlength := (\<lambda>seqno bs len st. Some (LOAD32H (map (\<lambda>b. b - 85) (take 4 bs)), st))\<rparr>,
     kd_algo_mac := \<lparr>dh_hash_desc = None, dh_keysize = 32, dh_hashsize = 16\<rparr>, kd_valid := True\<rparr>"

definition aead_session :: "sshsession \<Rightarrow> sshsession" where
  "aead_session ses = ses\<lparr>keys := (keys ses)\<lparr>kc_recv := toy_aead_keys, kc_trans := toy_aead_keys\<rparr>\<rparr>"

lemma toy_aead_keys_simps [simp]:
  "kd_blocksize toy_aead_keys = 8" "kd_hashsize toy_aead_keys = 16" "kd_mac_keysize toy_aead_keys = 32" "length (kd_mackey toy_aead_keys) = 32"
  "cm_aead_crypt (kd_crypt_mode toy_aead_keys) = Some toy_aead"
  by (simp_all add: toy_aead_keys_def no_keys_directional_def dropbear_mode_none_def)

lemma toy_aead_trans_ok: "trans_ok pr toy_aead_keys"
proof -
  have "\<not> (of_nat (length bs) :: u32) < 4" if "16 \<le> length bs" "length bs \<le> 35000" for bs :: "byte list"
    using that by (simp add: word_less_nat_alt unat_of_nat_u32)
  then show ?thesis by (auto simp: trans_ok_def mac_ok_def encrypt_ok_def toy_aead_def toy_tag_def)
qed

lemma aead_session_sendable:
  "sendable pr ses \<Longrightarrow> sendable pr (aead_session ses)" "wp_empty (aead_session ses) = wp_empty ses" "wp_body (aead_session ses) = wp_body ses"
  using toy_aead_trans_ok by (simp_all add: sendable_def aead_session_def wp_ok_def wp_empty_def wp_body_def)

text \<open>
  C8. Sending never fails and frames correctly: for every session whose outgoing buffers are
  well-formed, with a cipher that does not fail on packets of 16 to 35000 bytes, as those of the build, the AEAD ciphers included, do not, and every non-empty payload, \<^verbatim>\<open>encrypt_packet\<close> returns; unless the message is held back during a
  key exchange, the queue of outgoing bytes grows by the sealed packet, whose padding is between 4 and
  255 bytes, makes the packet a multiple of the block size (without the length field for AEAD ciphers) and
  at least 16 bytes long, with the MAC computed over the sequence number and the clear packet; the
  payload buffer is empty again, the sequence number has advanced by one, and nothing of the session
  outside the transport has changed.
\<close>

theorem encrypt_packet_emits:
  assumes "sendable pr ses" and "wp_body ses \<noteq> []"
  shows "\<exists>ses'. encrypt_packet pr ses = Inr ses' \<and> sendable pr ses' \<and> app_same ses ses' \<and> wp_empty ses'
     \<and> emitted pr ses (wp_body ses) ses'"
  by (rule ssh.send_law [OF assms])

theorem encrypt_packet_emits_witness:
  "\<exists>ses s1 s2. common_session_init 3 4 ses_zero = Inr ses \<and> put_fields [F_byte SSH_MSG_IGNORE, F_str []] (aead_session ses) = Inr s1
     \<and> encrypt_packet counting_primitives s1 = Inr s2 \<and> emitted counting_primitives s1 [2, 0, 0, 0, 0] s2"
proof -
  obtain ses0 where s0: "common_session_init 3 4 ses_zero = Inr ses0" "sendable counting_primitives ses0" "wp_empty ses0"
    using common_session_init_eq [OF counting_random_ok, of 3 4] by blast
  define ses where "ses = aead_session ses0"
  have s: "sendable counting_primitives ses" "wp_empty ses" using s0 aead_session_sendable by (simp_all add: ses_def)
  have m: "message [F_byte SSH_MSG_IGNORE, F_str []] = [2, 0, 0, 0, 0]"
    by (simp add: message_def STORE32H_def)
  have w: "wp_ok ses" using s(1) by (simp add: sendable_def)
  have p0: "unat (buf_pos (writepayload ses)) = 0" using s(2) by (simp add: wp_empty_def)
  define s1 where "s1 = ses\<lparr>writepayload := put_at (writepayload ses) [2, 0, 0, 0, 0]\<rparr>"
  have put: "put_fields [F_byte SSH_MSG_IGNORE, F_str []] ses = Inr s1"
    using put_fields_eq [OF w, of "[F_byte SSH_MSG_IGNORE, F_str []]"] p0 unfolding m by (simp add: s1_def)
  have w1: "wp_ok s1" using wp_ok_put [OF w, of "[2, 0, 0, 0, 0]"] p0 by (simp add: s1_def)
  have "unat (buf_len (writepayload s1)) = 5"
    using put_at_fields(2) [of "writepayload ses" "[2, 0, 0, 0, 0]"] w p0 s(2) by (simp add: s1_def wp_ok_def wp_empty_def)
  then have body: "wp_body s1 = [2, 0, 0, 0, 0]" using p0 by (simp add: wp_body_def s1_def put_at_def)
  have "sendable counting_primitives s1" using ssh.ready_put [OF s(1)] w1 by (simp add: s1_def)
  from encrypt_packet_emits [OF this] body s0(1) put show ?thesis unfolding ses_def by auto
qed

text \<open>
  Replies held back during a key exchange are not lost, duplicated or reordered: once data is
  allowed again, \<^verbatim>\<open>maybe_flush_reply_queue\<close> returns with the reply queue empty and has sealed and queued
  exactly the messages that were held, first in first out.
\<close>

theorem flush_replies_in_order:
  assumes "sendable pr ses" and "wp_empty ses" and "dataallowed ses"
  shows "\<exists>ses'. maybe_flush_reply_queue pr ses = Inr ses' \<and> sendable pr ses' \<and> reply_queue ses' = []
     \<and> app_same ses ses' \<and> emitted_all pr ses (map buf_body (reply_queue ses)) ses'"
proof -
  obtain s1 where s1: "flush_items pr (reply_queue ses) ses = Inr s1" "sendable pr s1" "app_same ses s1"
      "emitted_all pr ses (map buf_body (reply_queue ses)) s1"
    using flush_items_eq [OF assms, of "reply_queue ses"] assms(1) by (auto simp: sendable_def)
  have "emitted_all pr s ms (t\<lparr>reply_queue := []\<rparr>)" if "emitted_all pr s ms t" "dataallowed s" for s ms t
    using that
  proof (induction ms arbitrary: s)
    case (Cons m ms)
    then show ?case by (auto simp: app_same_def)
  qed simp
  then have "emitted_all pr ses (map buf_body (reply_queue ses)) (s1\<lparr>reply_queue := []\<rparr>)"
    using s1(4) assms(3) by blast
  moreover have "sendable pr (s1\<lparr>reply_queue := []\<rparr>)" using s1(2) by (simp add: sendable_def wp_ok_def)
  moreover have "app_same ses (s1\<lparr>reply_queue := []\<rparr>)" using s1(3) by (simp add: app_same_def)
  ultimately show ?thesis using s1(1) assms(3) by (simp add: maybe_flush_reply_queue_def)
qed

theorem flush_replies_in_order_witness:
  "\<exists>ses ses'. common_session_init 3 4 ses_zero = Inr ses
     \<and> maybe_flush_reply_queue counting_primitives (ses\<lparr>reply_queue :=
         [\<lparr>buf_data = [99, 0, 0, 0, 1], buf_len = 5, buf_pos = 0, buf_size = 5\<rparr>]\<rparr>) = Inr ses'
     \<and> reply_queue ses' = []"
proof -
  obtain ses where s: "common_session_init 3 4 ses_zero = Inr ses" "sendable counting_primitives ses" "wp_empty ses" "dataallowed ses"
    using common_session_init_eq [OF counting_random_ok, of 3 4] by blast
  let ?s = "ses\<lparr>reply_queue := [\<lparr>buf_data = [99, 0, 0, 0, 1], buf_len = 5, buf_pos = 0, buf_size = 5\<rparr>]\<rparr>"
  have "sendable counting_primitives ?s" "wp_empty ?s" "dataallowed ?s"
    using s by (simp_all add: sendable_def wp_ok_def wp_empty_def buf_ok_def)
  from flush_replies_in_order [OF this] s(1) show ?thesis by auto
qed

lemma concat_take_drop: "length (concat (take n xs)) \<le> length (concat xs)"
  using concat_take_prefix [of n xs] by auto

text \<open>
  C9. Bytes reach the socket in the order they were queued: whatever the kernel accepts of the regions
  offered, and however often it interrupts, \<^verbatim>\<open>write_packet\<close> ends in an orderly way with the bytes accepted so
  far followed by those still queued unchanged, and with \<^verbatim>\<open>writequeue_len\<close> still the number of bytes queued.
\<close>

theorem write_packet_conserves:
  assumes s: "sendable pr ses" and ne: "queue_bytes (writequeue ses) \<noteq> []"
  shows "safe (\<lambda>s'. sendable pr s' \<and> socket_output s' @ queue_bytes (writequeue s')
       = socket_output ses @ queue_bytes (writequeue ses)) (write_packet pr ses)"
proof -
  define q where "q = writequeue ses"
  have ok: "packets_ok q" using s by (simp add: sendable_def q_def)
  have ne': "\<not> isempty q" using ne ok isempty_items [of q] by (auto simp: q_def packets_ok_def queue_bytes_def)
  define iov where "iov = take (unat (min (min (q_count q) (p_iov_max pr)) 50)) (map buf_rest (q_items q))"
  have io: "packet_queue_to_iovec (p_iov_max pr) q 50 = Inr iov"
    by (simp add: packet_queue_to_iovec_eq [OF ok] iov_def)
  obtain j where j: "concat iov = take j (queue_bytes q)"
    using concat_take_prefix unfolding iov_def queue_bytes_def by blast
  show ?thesis
  proof (cases "socket_writes ses")
    case Nil
    then show ?thesis using s ne' io by (simp add: write_packet_def q_def sock_writev_def)
  next
    case (Cons r rs)
    show ?thesis
    proof (cases r)
      case (Wrote n)
      define k where "k = min n (length (concat iov))"
      have k: "k \<le> length (queue_bytes q)" "take k (concat iov) = take k (queue_bytes q)"
        by (auto simp: k_def j min_def)
      obtain q' where q': "packet_queue_consume q (int k) = Inr q'" "packets_ok q'" "queue_bytes q' = drop k (queue_bytes q)"
        using consume_loop_eq [OF ok k(1)] by (auto simp: packet_queue_consume_def)
      have "writequeue_len ses - of_nat k = of_nat (length (queue_bytes q'))"
        using s k(1) by (simp add: sendable_def q_def [symmetric] q'(3) of_nat_diff)
      then show ?thesis
        using s ne' io Cons Wrote q' k
        by (simp add: write_packet_def q_def [symmetric] sock_writev_def k_def [symmetric] Let_def sendable_def wp_ok_def
            svr_remoteclosed_def)
    qed (use s ne' io Cons in \<open>simp_all add: write_packet_def q_def sock_writev_def sendable_def wp_ok_def\<close>)
  qed
qed

theorem write_packet_conserves_witness:
  "let q = \<lparr>q_head = Some 0, q_tail = Some 0, q_count = 1,
       q_heap = (\<lambda>_. None)(0 := Some \<lparr>link_item = \<lparr>buf_data = [1, 2, 3], buf_len = 3, buf_pos = 0, buf_size = 3\<rparr>,
         link_link = None\<rparr>), q_fresh = 1\<rparr> in
   \<exists>ses. common_session_init 3 4 ses_zero = Inr ses
     \<and> safe (\<lambda>s'. socket_output s' @ queue_bytes (writequeue s') = [1, 2, 3])
         (write_packet counting_primitives (ses\<lparr>writequeue := q, writequeue_len := 3, socket_output := [], socket_writes := [Wrote 2]\<rparr>))"
proof -
  obtain ses where s: "common_session_init 3 4 ses_zero = Inr ses" "sendable counting_primitives ses"
    using common_session_init_eq [OF counting_random_ok, of 3 4] by blast
  let ?q = "\<lparr>q_head = Some 0, q_tail = Some 0, q_count = 1,
       q_heap = (\<lambda>_. None)(0 := Some \<lparr>link_item = \<lparr>buf_data = [1, 2, 3], buf_len = 3, buf_pos = 0, buf_size = 3\<rparr>,
         link_link = None\<rparr>), q_fresh = 1\<rparr>"
  let ?s = "ses\<lparr>writequeue := ?q, writequeue_len := 3, socket_output := [], socket_writes := [Wrote 2]\<rparr>"
  have q: "queue_bytes ?q = [1, 2, 3]" "packets_ok ?q"
    by (simp_all add: packets_ok_def queue_ok_def q_items_def q_nodes_def pending_ok_def buf_ok_def buf_rest_def queue_bytes_def)
  then have "sendable counting_primitives ?s" using s(2) by (simp add: sendable_def wp_ok_def)
  from write_packet_conserves [OF this] q(1) s(1) show ?thesis by (auto simp: Let_def elim: res_sat_mono)
qed

end
