(* ===== verification/Receive.thy ===== *)
theory Receive
  imports Packet
begin

text \<open>
  What the receiving half of src/dropbear/src/packet.c makes of the bytes a peer sent: the packet is
  put together from whatever pieces the socket delivers, and its payload is the one the peer sealed. A
  packet whose MAC is wrong, or whose lengths are, ends the session before anything is delivered.
\<close>

section \<open>The bytes in the socket\<close>

definition stream :: "sshsession \<Rightarrow> byte list \<Rightarrow> bool" where
  "stream r xs \<longleftrightarrow> (\<exists>cs. socket_input r = map Read_bytes cs \<and> [] \<notin> set cs \<and> concat cs = xs)"

lemma sock_read_stream:
  assumes "stream r xs" and "xs \<noteq> []" and "0 < n"
  shows "\<exists>bs r'. sock_read n r = (Read_bytes bs, r') \<and> bs \<noteq> [] \<and> length bs \<le> n
     \<and> bs = take (length bs) xs \<and> stream r' (drop (length bs) xs) \<and> r' = r\<lparr>socket_input := socket_input r'\<rparr>"
proof -
  obtain c cs where cs: "socket_input r = map Read_bytes (c # cs)" "c \<noteq> []" "[] \<notin> set cs" "xs = c @ concat cs"
  proof -
    obtain ds where ds: "socket_input r = map Read_bytes ds" "[] \<notin> set ds" "concat ds = xs"
      using assms(1) by (auto simp: stream_def)
    then show ?thesis using assms(2) by (intro that [of "hd ds" "tl ds"]; cases ds; auto)
  qed
  show ?thesis
  proof (cases "length c \<le> n")
    case True
    then show ?thesis using cs by (auto simp: sock_read_def stream_def)
  next
    case False
    then have "stream (r\<lparr>socket_input := Read_bytes (drop n c) # map Read_bytes cs\<rparr>) (drop n xs)"
      using cs by (auto simp: stream_def intro!: exI [of _ "drop n c # cs"])
    with False cs assms(3) show ?thesis by (auto simp: sock_read_def min_def intro!: exI [of _ "take n c"])
  qed
qed

section \<open>Opening a packet\<close>

text \<open>
  What the receiver's functions give on the bytes of one packet: the first block is deciphered on its
  own, or asked for its length when the cipher is an AEAD one, and the rest in a second call.
\<close>

definition opens :: "primitives \<Rightarrow> key_context_directional \<Rightarrow> u32 \<Rightarrow> byte list \<Rightarrow> byte list \<Rightarrow> byte list \<Rightarrow> byte list \<Rightarrow> bool" where
  "opens pr kd seqno wire clear st1 st2 \<longleftrightarrow> (let B = unat (kd_blocksize kd); M = unat (kd_hashsize kd) in
     length wire = length clear + M \<and>
     (case cm_aead_crypt (kd_crypt_mode kd) of
        None \<Rightarrow> cm_decrypt (kd_crypt_mode kd) (kd_cipher_state kd) (take B wire) = Some (take B clear, st1)
          \<and> cm_decrypt (kd_crypt_mode kd) st1 (drop B (take (length clear) wire)) = Some (drop B clear, st2)
          \<and> drop (length clear) wire = mac_of pr kd seqno clear
      | Some f \<Rightarrow> cm_aead_getlength (kd_crypt_mode kd) seqno (take B wire) (ucast (kd_blocksize kd)) (kd_cipher_state kd)
            = Some (of_nat (length clear - 4), st1)
          \<and> f seqno wire (of_nat (length clear)) (ucast (kd_hashsize kd)) st1 False = Some (clear, st2)))"

definition recv_ok :: "primitives \<Rightarrow> key_context_directional \<Rightarrow> bool" where
  "recv_ok pr kd \<longleftrightarrow> 8 \<le> unat (kd_blocksize kd) \<and> unat (kd_blocksize kd) \<le> 64 \<and> mac_ok pr kd"

text \<open>The bytes the buffer holds once \<open>k\<close> of them, at least a block, have arrived.\<close>

definition arrived :: "key_context_directional \<Rightarrow> byte list \<Rightarrow> byte list \<Rightarrow> nat \<Rightarrow> byte list" where
  "arrived kd clear wire k = (if cm_aead_crypt (kd_crypt_mode kd) = None
     then take (unat (kd_blocksize kd)) clear @ drop (unat (kd_blocksize kd)) (take k wire) else take k wire)"

definition reading :: "key_context_directional \<Rightarrow> byte list \<Rightarrow> byte list \<Rightarrow> byte list \<Rightarrow> sshsession \<Rightarrow> nat \<Rightarrow> bool" where
  "reading kd wire clear st1 r k \<longleftrightarrow> k \<le> length wire \<and>
     (if k < unat (kd_blocksize kd) then kc_recv (keys r) = kd \<and>
        (case readbuf r of None \<Rightarrow> k = 0
         | Some rb \<Rightarrow> buf_ok rb \<and> buf_size rb = 128 \<and> buf_pos rb = of_nat k \<and> buf_len rb = of_nat k
             \<and> take k (buf_data rb) = take k wire)
      else kc_recv (keys r) = kd\<lparr>kd_cipher_state := st1\<rparr> \<and>
        (\<exists>rb. readbuf r = Some rb \<and> buf_ok rb \<and> buf_len rb = of_nat (length wire) \<and> buf_pos rb = of_nat k
           \<and> take k (buf_data rb) = arrived kd clear wire k))"

text \<open>The packet a peer may send: a clear packet with its padding, within the size limit.\<close>

definition packet_ok :: "primitives \<Rightarrow> key_context_directional \<Rightarrow> u32 \<Rightarrow> byte list \<Rightarrow> byte list \<Rightarrow> byte list \<Rightarrow> byte list \<Rightarrow> byte list \<Rightarrow> bool" where
  "packet_ok pr kd seqno wire body pad st1 st2 \<longleftrightarrow> recv_ok pr kd \<and> pad_ok kd body pad
     \<and> 1 \<le> length body \<and> length body \<le> 32768 \<and> length wire \<le> 35000
     \<and> opens pr kd seqno wire (clear_packet body pad) st1 st2"

lemma packet_ok_facts:
  assumes "packet_ok pr kd seqno wire body pad st1 st2"
  defines "B \<equiv> unat (kd_blocksize kd)" and "clear \<equiv> clear_packet body pad"
  shows "8 \<le> B" "B \<le> 64" "length wire = length clear + unat (kd_hashsize kd)" "length wire \<le> 35000" "16 \<le> length clear"
    "B \<le> length clear" "unat (kd_hashsize kd) \<le> 64" "length clear = 5 + length body + length pad"
    "(length clear - (if cm_aead_crypt (kd_crypt_mode kd) = None then 0 else 4)) mod B = 0"
    "B \<le> length clear - (if cm_aead_crypt (kd_crypt_mode kd) = None then 0 else 4)"
proof -
  show "8 \<le> B" "B \<le> 64" "length wire = length clear + unat (kd_hashsize kd)" "length wire \<le> 35000" "16 \<le> length clear"
    "unat (kd_hashsize kd) \<le> 64" "length clear = 5 + length body + length pad"
    "(length clear - (if cm_aead_crypt (kd_crypt_mode kd) = None then 0 else 4)) mod B = 0"
    using assms(1) by (auto simp: packet_ok_def recv_ok_def mac_ok_def opens_def Let_def pad_ok_def B_def clear_def)
  then show "B \<le> length clear - (if cm_aead_crypt (kd_crypt_mode kd) = None then 0 else 4)"
    by (intro dvd_imp_le) (auto simp: mod_eq_0_iff_dvd)
  then show "B \<le> length clear" by (auto split: if_splits)
qed

lemma take4_clear: "take 4 (clear_packet body pad) = STORE32H (of_nat (1 + length body + length pad))"
  by (simp add: clear_packet_def)

lemma packet_length_eq:
  assumes pk: "packet_ok pr kd seqno wire body pad st1 st2" and kd: "kc_recv (keys r) = kd" and seqno: "recvseq r = seqno"
    and rb: "buf_ok rb" "buf_size rb = 128" "buf_pos rb = 0" "buf_len rb = ucast (kd_blocksize kd)"
      "take (unat (kd_blocksize kd)) (buf_data rb) = take (unat (kd_blocksize kd)) wire"
  shows "\<exists>plen rb'. packet_length r rb = Inr (of_nat (length wire), plen, rb', set_recv_state st1 r)
     \<and> ucast (kd_blocksize kd) \<le> plen \<and> plen mod ucast (kd_blocksize kd) = 0
     \<and> buf_ok rb' \<and> buf_size rb' = 128 \<and> buf_len rb' = ucast (kd_blocksize kd)
     \<and> take (unat (kd_blocksize kd)) (buf_data rb') = arrived kd (clear_packet body pad) wire (unat (kd_blocksize kd))"
proof -
  define clear where "clear = clear_packet body pad"
  define B where "B = unat (kd_blocksize kd)"
  define M where "M = unat (kd_hashsize kd)"
  note f = packet_ok_facts [OF pk, folded clear_def B_def M_def]
  have uB: "unat (ucast (kd_blocksize kd) :: u32) = B" and uM: "unat (ucast (kd_hashsize kd) :: u32) = M"
    by (simp_all add: unat_ucast_byte B_def M_def)
  have op: "opens pr kd seqno wire clear st1 st2" using pk by (simp add: packet_ok_def clear_def)
  have rest: "length (buf_rest rb) = B" using length_buf_rest [OF rb(1)] rb uB by simp
  have lw: "of_nat (length clear) + ucast (kd_hashsize kd) = (of_nat (length wire) :: u32)"
    using f uM by (simp add: u32_eq_iff unat_add_u32 unat_of_nat_u32)
  show ?thesis
  proof (cases "cm_aead_crypt (kd_crypt_mode kd)")
    case None
    define rb1 where "rb1 = rb\<lparr>buf_data := take B clear @ drop B (buf_data rb)\<rparr>"
    have dec: "cm_decrypt (kd_crypt_mode kd) (kd_cipher_state kd) (take (unat (ucast (kd_blocksize kd) :: u32)) (buf_data rb)) = Some (take B clear, st1)"
      using op None rb(5) by (simp add: opens_def Let_def uB B_def)
    have cr: "crypt_inplace (cm_decrypt (kd_crypt_mode kd)) ''Error decrypting'' (kd_cipher_state kd) rb (ucast (kd_blocksize kd))
        = Inr (st1, rb1)"
      using crypt_inplace_eq [where f = "cm_decrypt (kd_crypt_mode kd)" and st = "kd_cipher_state kd", OF rb(1,3) _ dec] f rb(4)
      by (simp add: uB rb1_def)
    have ok1: "buf_ok rb1" using rb f by (simp add: rb1_def buf_ok_def uB)
    have r1: "take 4 (buf_rest rb1) = take 4 clear" "4 \<le> length (buf_rest rb1)"
      using rb f uB length_buf_rest [OF ok1] by (simp_all add: buf_rest_def rb1_def min_def)
    have gi: "buf_getint rb1 = Inr (of_nat (1 + length body + length pad), adv rb1 4)"
      using r1 by (simp add: buf_getint_eq [OF ok1] clear_def take4_clear)
    have pl: "(of_nat (1 + length body + length pad) + 4 :: u32) = of_nat (length clear)"
      unfolding f(8) by simp
    have ul: "unat (of_nat (length clear) :: u32) = length clear" using f(3,4) by (subst unat_of_nat_u32) simp
    have "packet_length r rb = Inr (of_nat (length wire), of_nat (length clear), adv rb1 4, set_recv_state st1 r)"
      using None cr gi pl lw by (simp add: packet_length_def Let_def kd del: of_nat_add of_nat_Suc)
    moreover have "ucast (kd_blocksize kd) \<le> (of_nat (length clear) :: u32)" "(of_nat (length clear) :: u32) mod ucast (kd_blocksize kd) = 0"
      using f(6,9) None by (simp_all add: word_le_nat_alt u32_eq_iff unat_mod_u32 uB ul)
    moreover have "take B (buf_data (adv rb1 4)) = arrived kd clear wire B"
      using None f by (simp add: rb1_def arrived_def B_def [symmetric])
    ultimately show ?thesis
      using buf_ok_adv [OF ok1, of 4] r1(2) rb
      by (intro exI [of _ "of_nat (length clear)"] exI [of _ "adv rb1 4"]) (simp add: rb1_def B_def clear_def)
  next
    case (Some g)
    have gl: "cm_aead_getlength (kd_crypt_mode kd) seqno (take B wire) (ucast (kd_blocksize kd)) (kd_cipher_state kd)
        = Some (of_nat (length clear - 4), st1)"
      using op Some by (simp add: opens_def Let_def B_def)
    have rd: "rd_mem (buf_data rb) 0 B = Inr (take B wire)"
      using rb f by (simp add: rd_mem_def buf_ok_def B_def)
    have pl: "(of_nat (length clear - 4) :: u32) + 4 = of_nat (length clear)"
      using f(5) by (simp add: of_nat_diff)
    have ul: "unat (of_nat (length clear - 4) :: u32) = length clear - 4" using f(3,4) by (subst unat_of_nat_u32) simp
    have "packet_length r rb = Inr (of_nat (length wire), of_nat (length clear - 4), rb, set_recv_state st1 r)"
      using Some gl rd rb(3) rest uB seqno lw
      by (simp add: packet_length_def Let_def kd buf_getptr_eq [OF rb(1)] pl del: of_nat_diff)
    moreover have "ucast (kd_blocksize kd) \<le> (of_nat (length clear - 4) :: u32)"
        "(of_nat (length clear - 4) :: u32) mod ucast (kd_blocksize kd) = 0"
      using f(9,10) Some by (simp_all add: word_le_nat_alt u32_eq_iff unat_mod_u32 uB ul del: of_nat_diff)
    moreover have "take B (buf_data rb) = arrived kd clear wire B"
      using Some rb by (simp add: arrived_def B_def)
    ultimately show ?thesis using rb by (auto simp: B_def clear_def)
  qed
qed

definition only_reads :: "sshsession \<Rightarrow> sshsession \<Rightarrow> bool" where
  "only_reads r r' \<longleftrightarrow> r' = r\<lparr>readbuf := readbuf r', socket_input := socket_input r',
     keys := (keys r)\<lparr>kc_recv := kc_recv (keys r')\<rparr>\<rparr>"

lemma only_reads_trans: "only_reads r s \<Longrightarrow> only_reads s t \<Longrightarrow> only_reads r t"
  unfolding only_reads_def by (erule ssubst, erule ssubst) simp

text \<open>Making room for the packet and going to the end of the first block.\<close>

lemma enlarge_eq:
  assumes rb: "buf_ok rb" "buf_size rb = 128" "unat (buf_len rb) = b" and L: "b \<le> L" "L \<le> 35000" and b: "unat B = b" "b \<le> 128"
  shows "\<exists>rb'. rbind (if of_nat L > buf_size rb then buf_resize junk rb (of_nat L) else Inr rb) (\<lambda>rb.
      rbind (buf_setlen rb (of_nat L)) (\<lambda>rb. buf_setpos rb B)) = Inr rb'
    \<and> buf_ok rb' \<and> buf_len rb' = of_nat L \<and> buf_pos rb' = B \<and> take b (buf_data rb') = take b (buf_data rb)"
proof -
  have uL: "unat (of_nat L :: u32) = L" using L by (simp add: unat_of_nat_u32)
  have d: "length (buf_data rb) = 128" using rb by (simp add: buf_ok_def)
  show ?thesis
  proof (cases "of_nat L > buf_size rb")
    case True
    define d1 where "d1 = buf_data rb @ map junk [128 ..< L]"
    have L1: "128 < L" using True rb uL by (simp add: word_less_nat_alt)
    have pos: "unat (buf_pos rb) \<le> b" using rb by (simp add: buf_ok_def)
    have "buf_resize junk rb (of_nat L) = Inr (rb\<lparr>buf_data := d1, buf_size := of_nat L\<rparr>)"
    proof -
      have "min (of_nat L) (buf_len rb) = buf_len rb" "min (of_nat L) (buf_pos rb) = buf_pos rb"
        using rb L L1 b pos uL by (auto simp: min_def word_le_nat_alt)
      then show ?thesis using L L1 d uL by (simp add: buf_resize_def word_less_nat_alt d1_def)
    qed
    then show ?thesis
      using True L L1 d uL b by (auto simp: buf_setlen_eq buf_setpos_eq d1_def buf_ok_def)
  next
    case False
    then have "L \<le> 128" using rb uL by (simp add: word_less_nat_alt)
    then show ?thesis using False rb uL d b L by (auto simp: buf_setlen_eq buf_setpos_eq buf_ok_def)
  qed
qed

text \<open>The buffer in which the first block is collected, fresh or begun earlier.\<close>

lemma first_block_buf:
  assumes "reading kd wire clear st1 r k" and "k < unat (kd_blocksize kd)" and "unat (kd_blocksize kd) \<le> 64"
  shows "\<exists>rb. (case readbuf r of None \<Rightarrow> buf_new INIT_READBUF | Some b \<Rightarrow> Inr b) = Inr rb \<and> buf_ok rb \<and> buf_size rb = 128
     \<and> buf_pos rb = of_nat k \<and> buf_len rb = of_nat k \<and> take k (buf_data rb) = take k wire"
  using assms by (cases "readbuf r") (auto simp: reading_def buf_new_def buf_ok_def)

lemma collect_eq:
  assumes rb: "buf_ok rb" "buf_size rb = 128" "buf_pos rb = of_nat k" "buf_len rb = of_nat k" "take k (buf_data rb) = take k wire"
    and k: "k + length bs \<le> 64" "k + length bs \<le> length wire" and bs: "bs = take (length bs) (drop k wire)"
  shows "\<exists>rb'. rbind (wr_mem (buf_data rb) (unat (buf_pos rb)) bs) (\<lambda>d. buf_incrwritepos (rb\<lparr>buf_data := d\<rparr>) (of_nat (length bs))) = Inr rb'
    \<and> buf_ok rb' \<and> buf_size rb' = 128 \<and> buf_pos rb' = of_nat (k + length bs) \<and> buf_len rb' = of_nat (k + length bs)
    \<and> take (k + length bs) (buf_data rb') = take (k + length bs) wire"
proof -
  have uk: "unat (of_nat k :: u32) = k" using k by (simp add: unat_of_nat_u32)
  have fits: "unat (buf_pos rb) + length bs \<le> unat (buf_size rb)" using rb uk k by simp
  have "take k wire @ bs = take (k + length bs) wire" by (subst bs) (simp add: take_add)
  then have t: "take (k + length bs) (buf_data (put_at rb bs)) = take (k + length bs) wire"
    using rb uk k by (simp add: put_at_def buf_ok_def)
  have "buf_len (put_at rb bs) = of_nat (k + length bs)"
    using put_at_fields(2) [OF rb(1) fits] rb uk k by (simp add: u32_eq_iff unat_of_nat_u32 unat_add_u32)
  then show ?thesis
    using wr_incr_eq_put_at [OF rb(1) fits] buf_ok_put_at [OF rb(1) fits] put_at_fields(3) [OF rb(1) fits] rb t
    by (intro exI [of _ "put_at rb bs"]) (simp add: put_at_def)
qed

lemma init_step:
  assumes pk: "packet_ok pr kd (recvseq r) wire body pad st1 st2" and rd: "reading kd wire (clear_packet body pad) st1 r k"
    and k: "k < unat (kd_blocksize kd)" and st: "stream r (drop k wire @ later)"
  shows "\<exists>r' k'. read_packet_init junk r = Inr (k' = unat (kd_blocksize kd), r') \<and> k < k' \<and> k' \<le> unat (kd_blocksize kd)
     \<and> reading kd wire (clear_packet body pad) st1 r' k' \<and> stream r' (drop k' wire @ later) \<and> only_reads r r'"
proof -
  define clear where "clear = clear_packet body pad"
  define B where "B = unat (kd_blocksize kd)"
  note f = packet_ok_facts [OF pk, folded clear_def B_def]
  have kB: "k < B" using k by (simp add: B_def)
  have kd: "kc_recv (keys r) = kd" using rd k by (simp add: reading_def)
  obtain rb where rb: "(case readbuf r of None \<Rightarrow> buf_new INIT_READBUF | Some b \<Rightarrow> Inr b) = Inr rb"
      "buf_ok rb" "buf_size rb = 128" "buf_pos rb = of_nat k" "buf_len rb = of_nat k" "take k (buf_data rb) = take k wire"
    using first_block_buf [OF rd k] f(2) by (auto simp: B_def)
  have uk: "unat (of_nat k :: u32) = k" using kB f(2) by (simp add: unat_of_nat_u32)
  define bsz :: u32 where "bsz = ucast (kd_blocksize kd)"
  have uB: "unat bsz = B" by (simp add: bsz_def unat_ucast_byte B_def)
  have ml: "unat (bsz - of_nat k) = B - k" using uB uk kB by (simp add: unat_sub_u32)
  have wp: "buf_getwriteptr rb (bsz - of_nat k) = Inr k"
    using rb ml uk kB f(2) by (simp add: buf_getwriteptr_eq)
  have ne: "drop k wire @ later \<noteq> []" using kB f by auto
  obtain bs r1 where bs: "sock_read (B - k) r = (Read_bytes bs, r1)" "bs \<noteq> []" "length bs \<le> B - k"
      "bs = take (length bs) (drop k wire @ later)" "stream r1 (drop (length bs) (drop k wire @ later))"
      "r1 = r\<lparr>socket_input := socket_input r1\<rparr>"
    using sock_read_stream [OF st ne, of "B - k"] kB by auto
  have lw: "k + length bs \<le> length wire" "k + length bs \<le> 64" using bs(3) kB f by auto
  have bs': "bs = take (length bs) (drop k wire)" using bs(4) lw by simp
  have st1: "stream r1 (drop (k + length bs) wire @ later)" using bs(5) lw by (simp add: add.commute)
  obtain rb1 where rb1: "rbind (wr_mem (buf_data rb) (unat (buf_pos rb)) bs) (\<lambda>d. buf_incrwritepos (rb\<lparr>buf_data := d\<rparr>) (of_nat (length bs))) = Inr rb1"
      "buf_ok rb1" "buf_size rb1 = 128" "buf_pos rb1 = of_nat (k + length bs)" "buf_len rb1 = of_nat (k + length bs)"
      "take (k + length bs) (buf_data rb1) = take (k + length bs) wire"
    using collect_eq [OF rb(2-6) lw(2,1) bs'] by blast
  have r1: "keys r1 = keys r" "recvseq r1 = recvseq r" by (subst bs(6), simp)+
  have kd1: "kc_recv (keys r1) = kd" by (simp add: r1 kd)
  define rest where "rest rb2 = (if of_nat (length bs) \<noteq> (ucast (kd_blocksize kd) :: u32) - of_nat k then Inr (False, r1\<lparr>readbuf := Some rb2\<rparr>)
     else rbind (buf_setpos rb2 0) (\<lambda>rb. rbind (packet_length r1 rb) (\<lambda>(len, plen, rb, ses).
           if len > RECV_MAX_PACKET_LEN \<or> plen < ucast (kd_blocksize kd) then Inl (Exit ''Integrity error (bad packet size %u)'')
           else rbind (umod plen (ucast (kd_blocksize kd))) (\<lambda>m. if m \<noteq> 0 then Inl (Exit ''Integrity error (bad packet size %u)'')
           else rbind (if len > buf_size rb then buf_resize junk rb len else Inr rb) (\<lambda>rb.
             rbind (buf_setlen rb len) (\<lambda>rb. rbind (buf_setpos rb (ucast (kd_blocksize kd))) (\<lambda>rb. Inr (True, ses\<lparr>readbuf := Some rb\<rparr>))))))))" for rb2
  have run: "read_packet_init junk r = rest rb1"
  proof -
    have "read_packet_init junk r = rbind (rbind (wr_mem (buf_data rb) (unat (buf_pos rb)) bs)
        (\<lambda>d. buf_incrwritepos (rb\<lparr>buf_data := d\<rparr>) (of_nat (length bs)))) rest"
      using rb(1,4) wp bs(1,2) ml kd uk
      by (simp add: read_packet_init_def Let_def bsz_def rest_def cong: rbind_cong)
    then show ?thesis using rb1(1) by simp
  qed
  note rest = rest_def [folded bsz_def]
  show ?thesis
  proof (cases "length bs = B - k")
    case False
    then have "of_nat (length bs) \<noteq> bsz - of_nat k" using ml bs(3) kB f(2) by (auto simp: u32_eq_iff unat_of_nat_u32)
    then have "read_packet_init junk r = Inr (False, r1\<lparr>readbuf := Some rb1\<rparr>)" by (simp add: run rest)
    moreover have "reading kd wire clear st1 (r1\<lparr>readbuf := Some rb1\<rparr>) (k + length bs)"
    proof -
      have "k + length bs < B" using False bs(3) kB by linarith
      then show ?thesis using rb1 lw kd r1 by (simp add: reading_def B_def [symmetric])
    qed
    moreover have "only_reads r (r1\<lparr>readbuf := Some rb1\<rparr>)" by (subst bs(6)) (simp add: only_reads_def)
    moreover have "stream (r1\<lparr>readbuf := Some rb1\<rparr>) (drop (k + length bs) wire @ later)" using st1 by (simp add: stream_def)
    ultimately show ?thesis
      using False bs(2,3) kB by (intro exI [of _ "r1\<lparr>readbuf := Some rb1\<rparr>"] exI [of _ "k + length bs"]) (auto simp: B_def clear_def)
  next
    case True
    then have kb: "k + length bs = B" using kB by simp
    have "unat (of_nat (length bs) :: u32) = length bs" using bs(3) f(2) by (subst unat_of_nat_u32) simp
    then have eq: "of_nat (length bs) = bsz - of_nat k" unfolding u32_eq_iff ml using True by (rule trans)
    define rb2 where "rb2 = rb1\<lparr>buf_pos := 0\<rparr>"
    have bl: "of_nat B = bsz" using uB f(2) by (simp add: u32_eq_iff unat_of_nat_u32)
    have rb2: "buf_setpos rb1 0 = Inr rb2" "buf_ok rb2" "buf_size rb2 = 128" "buf_pos rb2 = 0" "buf_len rb2 = bsz"
        "take B (buf_data rb2) = take B wire"
      using rb1 kb bl by (simp_all add: rb2_def buf_setpos_eq buf_ok_def)
    obtain plen rb3 where rb3: "packet_length r1 rb2 = Inr (of_nat (length wire), plen, rb3, set_recv_state st1 r1)"
        "bsz \<le> plen" "plen mod bsz = 0" "buf_ok rb3" "buf_size rb3 = 128" "buf_len rb3 = bsz" "take B (buf_data rb3) = arrived kd clear wire B"
      using packet_length_eq [OF pk kd1 r1(2) rb2(2-4) rb2(5) [unfolded bsz_def] rb2(6) [unfolded B_def],
          folded B_def clear_def bsz_def] by (elim exE conjE) (rule that)
    obtain rb4 where rb4: "rbind (if of_nat (length wire) > buf_size rb3 then buf_resize junk rb3 (of_nat (length wire)) else Inr rb3) (\<lambda>rb.
          rbind (buf_setlen rb (of_nat (length wire))) (\<lambda>rb. buf_setpos rb bsz)) = Inr rb4"
        "buf_ok rb4" "buf_len rb4 = of_nat (length wire)" "buf_pos rb4 = bsz" "take B (buf_data rb4) = take B (buf_data rb3)"
      using enlarge_eq [OF rb3(4,5), of B "length wire" bsz junk] rb3(6) uB f by auto
    have small: "\<not> (of_nat (length wire) > RECV_MAX_PACKET_LEN)" using f(4) by (simp add: word_less_nat_alt unat_of_nat_u32)
    have nz: "bsz \<noteq> 0" using uB f(1) by auto
    define r2 where "r2 = (set_recv_state st1 r1)\<lparr>readbuf := Some rb4\<rparr>"
    have "rest rb1 = rbind (rbind (if of_nat (length wire) > buf_size rb3 then buf_resize junk rb3 (of_nat (length wire)) else Inr rb3) (\<lambda>rb.
          rbind (buf_setlen rb (of_nat (length wire))) (\<lambda>rb. buf_setpos rb bsz))) (\<lambda>rb. Inr (True, (set_recv_state st1 r1)\<lparr>readbuf := Some rb\<rparr>))"
    proof -
      have nl: "\<not> (of_nat (length wire) > RECV_MAX_PACKET_LEN \<or> plen < bsz)" using small rb3(2) by (simp add: not_less)
      show ?thesis
        using eq rb2(1) rb3(1,3) nz
        by (simp only: rest umod_def rbind.simps rbind_assoc nl if_True if_False refl simp_thms split not_True_eq_False)
    qed
    then have "read_packet_init junk r = Inr (True, r2)" using run rb4(1) by (simp add: r2_def)
    moreover have "reading kd wire clear st1 r2 B"
      using rb4 rb3(7) kd r1 bl f by (auto simp: reading_def B_def [symmetric] r2_def set_recv_state_def)
    moreover have "only_reads r r2" by (simp only: r2_def, subst bs(6)) (simp add: only_reads_def set_recv_state_def)
    moreover have "stream r2 (drop B wire @ later)" using st1 kb by (simp add: stream_def r2_def set_recv_state_def)
    ultimately show ?thesis using kB by (intro exI [of _ r2] exI [of _ B]) (auto simp: B_def clear_def)
  qed
qed

section \<open>Checking and delivering\<close>

lemma xor_eq_0: "(x :: byte) XOR y = 0 \<longleftrightarrow> x = y"
  by (metis bit.xor_left_self bit.xor_self xor.right_neutral)

lemma fold_or_xor: "foldl (\<lambda>c (x, y). c OR (x XOR y)) (c :: byte) ps = 0 \<longleftrightarrow> c = 0 \<and> (\<forall>(x, y)\<in>set ps. x = y)"
proof (induction ps arbitrary: c)
  case (Cons p ps)
  have "c OR (fst p XOR snd p) = 0 \<longleftrightarrow> c = 0 \<and> fst p = snd p"
    by (simp add: or_eq_0_iff xor_eq_0)
  with Cons show ?case by (cases p) auto
qed simp

text \<open>The comparison of MACs accumulates differences without stopping, and tells equality exactly.\<close>

lemma constant_time_memcmp_eq:
  assumes "n \<le> length a" and "n \<le> length b"
  shows "\<exists>c. constant_time_memcmp a b n = Inr c \<and> (c = 0 \<longleftrightarrow> take n a = take n b)"
proof -
  have "(\<forall>(x, y)\<in>set (zip (take n a) (take n b)). x = y) \<longleftrightarrow> take n a = take n b"
    using assms by (auto simp: list_eq_iff_zip_eq min_def)
  then show ?thesis using assms by (simp add: constant_time_memcmp_def rd_mem_def fold_or_xor)
qed

lemma crypt_inplace_at:
  assumes ok: "buf_ok b" and len: "unat (buf_pos b) + unat l \<le> unat (buf_len b)"
    and f: "f st (take (unat l) (drop (unat (buf_pos b)) (buf_data b))) = Some (out, st')" and out: "length out = unat l"
  shows "crypt_inplace f err st b l
     = Inr (st', b\<lparr>buf_data := take (unat (buf_pos b)) (buf_data b) @ out @ drop (unat (buf_pos b) + unat l) (buf_data b)\<rparr>)"
  using assms length_buf_rest [OF ok]
  by (auto simp: crypt_inplace_def buf_getptr_eq buf_getwriteptr_eq rd_mem_def wr_mem_def buf_ok_def)

lemma checkmac_eq:
  assumes mac: "mac_ok pr (kc_recv (keys r))" and ae: "cm_aead_crypt (kd_crypt_mode (kc_recv (keys r))) = None" and ok: "buf_ok b"
    and len: "unat (buf_len b) = n + unat (kd_hashsize (kc_recv (keys r)))"
  shows "\<exists>b'. checkmac pr r b = Inr (take (unat (kd_hashsize (kc_recv (keys r)))) (drop n (buf_data b))
        = mac_of pr (kc_recv (keys r)) (recvseq r) (take n (buf_data b)), b')
     \<and> b' = b\<lparr>buf_pos := buf_pos b'\<rparr> \<and> buf_ok b'"
proof -
  define kd where "kd = kc_recv (keys r)"
  define M where "M = unat (kd_hashsize kd)"
  have uM: "unat (ucast (kd_hashsize kd) :: u32) = M" by (simp add: unat_ucast_byte M_def)
  have len': "unat (buf_len b) = n + M" using len by (simp add: M_def kd_def)
  define cl where "cl = buf_len b - ucast (kd_hashsize kd)"
  have cl: "unat cl = n" using len' uM by (simp add: cl_def unat_sub_u32)
  define b0 where "b0 = b\<lparr>buf_pos := 0\<rparr>"
  have ok0: "buf_ok b0" using ok by (simp add: b0_def buf_ok_def)
  obtain m b1 where m: "make_mac pr (recvseq r) kd b0 cl = Inr (m, b1)" "M \<le> length m"
      "take M m = mac_of pr kd (recvseq r) (take n (buf_data b))" "b1 = b0\<lparr>buf_pos := buf_pos b1\<rparr>"
    using make_mac_eq [OF mac [folded kd_def] ae [folded kd_def] ok0, of cl "recvseq r"] cl len' by (auto simp: M_def b0_def)
  define b2 where "b2 = b\<lparr>buf_pos := cl\<rparr>"
  have sp: "buf_setpos b1 cl = Inr b2" using cl len' by (subst m(4)) (simp add: buf_setpos_eq b2_def b0_def)
  have ok2: "buf_ok b2" using ok cl len' by (simp add: b2_def buf_ok_def)
  have gp: "buf_getptr b2 (ucast (kd_hashsize kd)) = Inr n"
    using cl len' uM length_buf_rest [OF ok2] by (subst buf_getptr_eq [OF ok2]) (simp add: b2_def)
  have dl: "M \<le> length (drop n (buf_data b))" using ok len' by (simp add: buf_ok_def) linarith
  obtain c where c: "constant_time_memcmp m (drop n (buf_data b)) M = Inr c" "c = 0 \<longleftrightarrow> take M m = take M (drop n (buf_data b))"
    using constant_time_memcmp_eq [OF m(2) dl] by blast
  have "checkmac pr r b = Inr (c = 0, b2)"
  proof -
    have "buf_setpos b 0 = Inr b0" by (simp add: buf_setpos_eq b0_def)
    moreover have "buf_data b2 = buf_data b" by (simp add: b2_def)
    ultimately show ?thesis
      using m(1) sp gp c(1) uM by (simp add: checkmac_def Let_def kd_def [symmetric] cl_def [symmetric])
  qed
  then show ?thesis using c(2) m(3) ok2 by (intro exI [of _ b2]) (auto simp: kd_def [symmetric] M_def [symmetric] b2_def)
qed

lemma decrypt_contents_eq:
  assumes pk: "packet_ok pr kd (recvseq r) wire body pad st1 st2" and kd: "kc_recv (keys r) = kd\<lparr>kd_cipher_state := st1\<rparr>"
    and rb: "buf_ok rb" "buf_len rb = of_nat (length wire)"
      "take (length wire) (buf_data rb) = arrived kd (clear_packet body pad) wire (length wire)"
  shows "\<exists>rb'. decrypt_contents pr r rb = Inr (rb', set_recv_state st2 r)
     \<and> buf_ok rb' \<and> buf_len rb' = of_nat (length wire)
     \<and> take (length (clear_packet body pad)) (buf_data rb') = clear_packet body pad"
proof -
  define clear where "clear = clear_packet body pad"
  define B where "B = unat (kd_blocksize kd)"
  define M where "M = unat (kd_hashsize kd)"
  define n where "n = length clear"
  note f = packet_ok_facts(1-7,9,10) [OF pk, folded clear_def B_def M_def]
  have op: "opens pr kd (recvseq r) wire clear st1 st2" using pk by (simp add: packet_ok_def clear_def)
  have fk: "kd_blocksize (kc_recv (keys r)) = kd_blocksize kd" "kd_hashsize (kc_recv (keys r)) = kd_hashsize kd"
      "kd_crypt_mode (kc_recv (keys r)) = kd_crypt_mode kd" "kd_cipher_state (kc_recv (keys r)) = st1"
    by (simp_all add: kd)
  have uB: "unat (ucast (kd_blocksize kd) :: u32) = B" and uM: "unat (ucast (kd_hashsize kd) :: u32) = M"
    by (simp_all add: unat_ucast_byte B_def M_def)
  have uL: "unat (buf_len rb) = n + M" using f(3,4) by (subst rb(2), subst unat_of_nat_u32) (simp add: n_def)
  have dl: "n + M \<le> length (buf_data rb)" using uL rb(1) by (simp add: buf_ok_def)
  have lw: "length wire = n + M" using f by (simp add: n_def)
  show ?thesis
  proof (cases "cm_aead_crypt (kd_crypt_mode kd)")
    case None
    have data: "take (n + M) (buf_data rb) = take B clear @ drop B wire"
      using rb(3) None lw by (simp add: arrived_def B_def clear_def)
    define rb1 where "rb1 = rb\<lparr>buf_pos := ucast (kd_blocksize kd)\<rparr>"
    have ok1: "buf_ok rb1" using rb(1) uB uL f by (simp add: rb1_def buf_ok_def n_def)
    have sp: "buf_setpos rb (ucast (kd_blocksize kd)) = Inr rb1" using uB uL f by (simp add: buf_setpos_eq rb1_def n_def)
    define l where "l = buf_len rb - ucast (kd_hashsize kd) - ucast (kd_blocksize kd)"
    have l: "unat l = n - B" using uL uM uB f by (simp add: l_def unat_sub_u32 n_def)
    have mid: "take (n - B) (drop B (buf_data rb)) = drop B (take n wire)"
    proof -
      have "drop B (take n (take (n + M) (buf_data rb))) = drop B (take n (take B clear @ drop B wire))" by (simp only: data)
      then show ?thesis using f by (simp add: drop_take n_def min_absorb1 min_absorb2)
    qed
    have dec: "cm_decrypt (kd_crypt_mode kd) st1 (take (unat l) (drop (unat (buf_pos rb1)) (buf_data rb1))) = Some (drop B clear, st2)"
      using op None mid by (simp add: opens_def Let_def l rb1_def uB B_def n_def)
    define rb2 where "rb2 = rb1\<lparr>buf_data := clear @ drop n (buf_data rb)\<rparr>"
    have tB: "take B (buf_data rb) = take B clear"
      using arg_cong [OF data, of "take B"] f lw by (simp add: min_absorb1 n_def)
    have cr: "crypt_inplace (cm_decrypt (kd_crypt_mode kd)) ''Error decrypting'' st1 rb1 l = Inr (st2, rb2)"
      using crypt_inplace_at [where f = "cm_decrypt (kd_crypt_mode kd)" and st = st1 and b = rb1 and l = l, OF ok1 _ dec] uL uB l f tB
      by (simp add: rb1_def rb2_def n_def flip: append_assoc)
    have ok2: "buf_ok rb2" using ok1 dl by (simp add: rb2_def rb1_def buf_ok_def n_def)
    define rb3 where "rb3 = adv rb2 (n - B)"
    have lr: "length (buf_rest rb2) = n + M - B" using length_buf_rest [OF ok2] uL uB by (simp add: rb2_def rb1_def)
    have inc: "buf_incrpos rb2 l = Inr rb3" using lr l by (simp add: buf_incrpos_eq [OF ok2] rb3_def)
    have ok3: "buf_ok rb3" using lr by (simp add: rb3_def buf_ok_adv [OF ok2])
    define r1 where "r1 = set_recv_state st2 r"
    have k1: "kc_recv (keys r1) = kd\<lparr>kd_cipher_state := st2\<rparr>" "recvseq r1 = recvseq r" by (simp_all add: r1_def set_recv_state_def kd)
    have mk: "mac_ok pr (kc_recv (keys r1))" using pk by (simp add: k1 packet_ok_def recv_ok_def mac_ok_def)
    have ak: "cm_aead_crypt (kd_crypt_mode (kc_recv (keys r1))) = None" using None by (simp add: k1)
    have mm: "mac_of pr (kc_recv (keys r1)) (recvseq r1) clear = mac_of pr kd (recvseq r) clear" by (simp add: mac_of_def k1)
    have tail: "take M (drop n (buf_data rb3)) = drop n wire"
      using arg_cong [OF data, of "drop n"] f lw by (simp add: rb3_def rb2_def n_def drop_take)
    have macw: "drop n wire = mac_of pr kd (recvseq r) clear" using op None by (simp add: opens_def Let_def n_def)
    have t3: "take n (buf_data rb3) = clear" by (simp add: rb3_def rb2_def n_def)
    have len3: "unat (buf_len rb3) = n + unat (kd_hashsize (kc_recv (keys r1)))" using uL by (simp add: rb3_def rb2_def rb1_def k1 M_def)
    obtain rb4 where rb4: "checkmac pr r1 rb3 = Inr (True, rb4)" "rb4 = rb3\<lparr>buf_pos := buf_pos rb4\<rparr>" "buf_ok rb4"
      using checkmac_eq [OF mk ak ok3 len3] tail macw t3 mm by (auto simp: k1 M_def)
    have "decrypt_contents pr r rb = Inr (rb4, r1)"
      using None sp cr inc rb4(1) by (simp add: decrypt_contents_def Let_def fk l_def rb1_def r1_def)
    moreover have "buf_data rb4 = buf_data rb3" "buf_len rb4 = buf_len rb3" by (subst rb4(2), simp)+
    ultimately show ?thesis
      using rb4(3) rb(2) t3 by (intro exI [of _ rb4]) (simp add: r1_def clear_def n_def rb3_def rb2_def rb1_def)
  next
    case (Some g)
    define rb1 where "rb1 = rb\<lparr>buf_pos := 0\<rparr>"
    have ok1: "buf_ok rb1" using rb(1) by (simp add: rb1_def buf_ok_def)
    define l where "l = buf_len rb - ucast (kd_hashsize kd)"
    have l: "unat l = n" using uL uM by (simp add: l_def unat_sub_u32)
    have ll: "l + ucast (kd_hashsize kd) = buf_len rb" by (simp add: l_def)
    have lo: "l = of_nat n" using l by (metis of_nat_unat ucast_id)
    have lr: "length (buf_rest rb1) = n + M" using length_buf_rest [OF ok1] uL by (simp add: rb1_def)
    have ae: "g (recvseq r) wire l (ucast (kd_hashsize kd)) st1 False = Some (clear, st2)"
      using op Some by (simp add: opens_def Let_def lo n_def)
    have data: "take (n + M) (buf_data rb) = wire" using rb(3) Some lw by (simp add: arrived_def)
    define rb2 where "rb2 = rb1\<lparr>buf_data := clear @ drop n (buf_data rb)\<rparr>"
    have cr: "aead_inplace g ''Error decrypting'' False (recvseq r) st1 rb1 (buf_len rb) l l (ucast (kd_hashsize kd)) = Inr (st2, rb2)"
    proof -
      have "buf_getptr rb1 (buf_len rb) = Inr 0" using lr uL by (subst buf_getptr_eq [OF ok1]) (simp add: rb1_def)
      moreover have "buf_getwriteptr rb1 l = Inr 0"
        using l dl rb(1) by (subst buf_getwriteptr_eq [OF ok1]) (simp add: rb1_def buf_ok_def)
      moreover have "rd_mem (buf_data rb1) 0 (unat (buf_len rb)) = Inr wire" using data uL dl by (simp add: rd_mem_def rb1_def)
      moreover have "wr_mem (buf_data rb1) 0 clear = Inr (clear @ drop n (buf_data rb))"
        using dl by (simp add: wr_mem_def rb1_def n_def)
      ultimately show ?thesis using ae by (simp add: aead_inplace_def rb2_def)
    qed
    have ok2: "buf_ok rb2" using ok1 dl by (simp add: rb2_def rb1_def buf_ok_def n_def)
    have lr2: "length (buf_rest rb2) = n + M" using length_buf_rest [OF ok2] uL by (simp add: rb2_def rb1_def)
    have inc: "buf_incrpos rb2 l = Inr (adv rb2 n)" using lr2 l by (simp add: buf_incrpos_eq [OF ok2])
    have "decrypt_contents pr r rb = Inr (adv rb2 n, set_recv_state st2 r)"
      using Some cr inc ll by (simp add: decrypt_contents_def Let_def fk buf_setpos_eq rb1_def [symmetric] l_def [symmetric])
        (simp add: rb1_def l_def)
    then show ?thesis
      using buf_ok_adv [OF ok2, of n] lr2 rb(2)
      by (intro exI [of _ "adv rb2 n"]) (simp add: rb2_def rb1_def clear_def n_def)
  qed
qed

lemma decrypt_packet_eq:
  assumes pk: "packet_ok pr kd (recvseq r) wire body pad st1 st2" and rd: "reading kd wire (clear_packet body pad) st1 r (length wire)"
  shows "\<exists>r' p. decrypt_packet pr r = Inr r' \<and> payload r' = Some p \<and> buf_ok p \<and> buf_rest p = body \<and> readbuf r' = None
     \<and> recvseq r' = recvseq r + 1 \<and> kc_recv (keys r') = kd\<lparr>kd_cipher_state := st2\<rparr> \<and> socket_input r' = socket_input r"
proof -
  define clear where "clear = clear_packet body pad"
  define M where "M = unat (kd_hashsize kd)"
  note f = packet_ok_facts [OF pk, folded clear_def M_def]
  have pad: "4 \<le> length pad" "length pad < 256" "1 \<le> length body" "length body \<le> 32768"
    using pk by (auto simp: packet_ok_def pad_ok_def)
  obtain rb where rb: "readbuf r = Some rb" "buf_ok rb" "buf_len rb = of_nat (length wire)"
      "take (length wire) (buf_data rb) = arrived kd clear wire (length wire)" "kc_recv (keys r) = kd\<lparr>kd_cipher_state := st1\<rparr>"
    using rd f(3,6) by (auto simp: reading_def clear_def)
  define r1 where "r1 = r\<lparr>kexstate := (kexstate r)\<lparr>datarecv := datarecv (kexstate r) + buf_len rb\<rparr>\<rparr>"
  have r1: "recvseq r1 = recvseq r" "kc_recv (keys r1) = kd\<lparr>kd_cipher_state := st1\<rparr>" by (simp_all add: r1_def rb)
  obtain rb1 where rb1: "decrypt_contents pr r1 rb = Inr (rb1, set_recv_state st2 r1)" "buf_ok rb1" "buf_len rb1 = of_nat (length wire)"
      "take (length clear) (buf_data rb1) = clear"
    using decrypt_contents_eq [of pr kd r1 wire body pad st1 st2 rb] pk rb(2-4) r1 by (auto simp: clear_def)
  have uL: "unat (buf_len rb1) = length wire" using f(4) by (subst rb1(3), subst unat_of_nat_u32) simp
  define rb2 where "rb2 = rb1\<lparr>buf_pos := 4\<rparr>"
  have ok2: "buf_ok rb2" using rb1(2) uL f(3,5) by (simp add: rb2_def buf_ok_def)
  obtain tl where data: "buf_data rb1 = clear @ tl" using rb1(4) by (metis append_take_drop_id)
  have hd2: "hd (buf_rest rb2) = of_nat (length pad)" "buf_rest rb2 \<noteq> []"
  proof -
    have "drop 4 (buf_data rb1) = of_nat (length pad) # body @ pad @ tl" by (simp add: data clear_def clear_packet_def)
    then have "buf_rest rb2 = take (length wire - 4) (of_nat (length pad) # body @ pad @ tl)" by (simp add: buf_rest_def rb2_def uL)
    moreover have "0 < length wire - 4" using f(3,5) by simp
    ultimately show "hd (buf_rest rb2) = of_nat (length pad)" "buf_rest rb2 \<noteq> []" by (cases "length wire - 4"; simp)+
  qed
  have pl: "unat (ucast (of_nat (length pad) :: byte) :: u32) = length pad"
    using pad(2) by (simp add: unat_ucast_byte unat_of_nat)
  define n where "n = buf_len rb1 - ucast (of_nat (length pad) :: byte) - 4 - 1 - ucast (kd_hashsize kd)"
  have uM: "unat (ucast (kd_hashsize kd) :: u32) = M" by (simp add: unat_ucast_byte M_def)
  have n: "unat n = length body" using uL pl uM f(3,8) by (simp add: n_def unat_sub_u32)
  have chk: "\<not> (n > RECV_MAX_PAYLOAD_LEN + ZLIB_COMPRESS_EXPANSION \<or> n < 1)"
    using n pad(3,4) by (auto simp: word_less_nat_alt unat_add_u32)
  define p where "p = rb1\<lparr>buf_pos := 5, buf_len := 5 + n\<rparr>"
  have un: "unat (5 + n) = 5 + length body" using n pad(4) by (simp add: unat_add_u32)
  have fin: "buf_setpos (adv rb2 1) 5 = Inr (rb1\<lparr>buf_pos := 5\<rparr>)" "buf_setlen (rb1\<lparr>buf_pos := 5\<rparr>) (5 + n) = Inr p"
  proof -
    show "buf_setpos (adv rb2 1) 5 = Inr (rb1\<lparr>buf_pos := 5\<rparr>)" using uL f(3,5) by (simp add: buf_setpos_eq rb2_def adv_def)
    have "unat (buf_len rb1) \<le> unat (buf_size rb1)" using rb1(2) by (simp add: buf_ok_def)
    then show "buf_setlen (rb1\<lparr>buf_pos := 5\<rparr>) (5 + n) = Inr p"
      using un uL f(3,8) by (simp add: buf_setlen_eq p_def min_def word_le_nat_alt)
  qed
  have ok: "buf_ok p" using rb1(2) un uL f(3,8) by (simp add: p_def buf_ok_def)
  have rest: "buf_rest p = body"
    using un by (simp add: buf_rest_def p_def data clear_def clear_packet_def)
  have hk: "kd_hashsize (kc_recv (keys r)) = kd_hashsize kd" by (simp add: rb(5))
  have "decrypt_packet pr r = Inr ((set_recv_state st2 r1)\<lparr>payload := Some p, payload_beginning := 5, readbuf := None, recvseq := recvseq r + 1\<rparr>)"
  proof -
    have 1: "buf_setpos rb1 4 = Inr rb2" using uL f(3,5) by (simp add: buf_setpos_eq rb2_def)
    have 2: "buf_getbyte rb2 = Inr (of_nat (length pad), adv rb2 1)" using hd2 by (simp add: buf_getbyte_eq [OF ok2])
    have 3: "buf_len (adv rb2 1) = buf_len rb1" "buf_pos (rb1\<lparr>buf_pos := 5\<rparr>) = 5" "recvseq (set_recv_state st2 r1) = recvseq r"
      by (simp_all add: rb2_def set_recv_state_def r1_def)
    show ?thesis
      using chk by (simp only: decrypt_packet_def rb(1) option.case Let_def hk r1_def [symmetric] rb1(1) rbind.simps split
          1 2 3 n_def [symmetric] if_False fin)
  qed
  then show ?thesis
    using ok rest by (simp add: set_recv_state_def r1_def rb(5))
qed

lemma rest_step:
  assumes pk: "packet_ok pr kd (recvseq r) wire body pad st1 st2" and rd: "reading kd wire (clear_packet body pad) st1 r k"
    and k: "unat (kd_blocksize kd) \<le> k" "k < length wire" and st: "stream r (drop k wire @ later)"
  shows "(\<exists>r' k'. read_packet_rest pr r = Inr r' \<and> k < k' \<and> k' < length wire \<and> reading kd wire (clear_packet body pad) st1 r' k'
       \<and> stream r' (drop k' wire @ later) \<and> only_reads r r')
     \<or> (\<exists>r1. read_packet_rest pr r = decrypt_packet pr r1 \<and> reading kd wire (clear_packet body pad) st1 r1 (length wire)
       \<and> stream r1 later \<and> only_reads r r1)"
proof -
  define clear where "clear = clear_packet body pad"
  define B where "B = unat (kd_blocksize kd)"
  note f = packet_ok_facts(1-7,9,10) [OF pk, folded clear_def B_def]
  obtain rb where rb: "readbuf r = Some rb" "buf_ok rb" "buf_len rb = of_nat (length wire)" "buf_pos rb = of_nat k"
      "take k (buf_data rb) = arrived kd clear wire k" "kc_recv (keys r) = kd\<lparr>kd_cipher_state := st1\<rparr>"
    using rd k by (auto simp: reading_def clear_def)
  have uL: "unat (buf_len rb) = length wire" using f(4) by (subst rb(3), subst unat_of_nat_u32) simp
  have uk: "unat (buf_pos rb) = k" using f(4) k(2) by (subst rb(4), subst unat_of_nat_u32) simp
  define maxlen where "maxlen = buf_len rb - buf_pos rb"
  have ml: "unat maxlen = length wire - k" using uL uk k(2) by (simp add: maxlen_def unat_sub_u32)
  have nz: "maxlen \<noteq> 0" using ml k(2) by auto
  have lr: "length (buf_rest rb) = length wire - k" using length_buf_rest [OF rb(2)] uL uk by simp
  have gp: "buf_getptr rb maxlen = Inr k" using lr ml uk by (simp add: buf_getptr_eq [OF rb(2)])
  have ne: "drop k wire @ later \<noteq> []" using k(2) by auto
  obtain bs r1 where bs: "sock_read (length wire - k) r = (Read_bytes bs, r1)" "bs \<noteq> []" "length bs \<le> length wire - k"
      "bs = take (length bs) (drop k wire @ later)" "stream r1 (drop (length bs) (drop k wire @ later))"
      "r1 = r\<lparr>socket_input := socket_input r1\<rparr>"
    using sock_read_stream [OF st ne, of "length wire - k"] k(2) by auto
  have lw: "k + length bs \<le> length wire" using bs(3) k(2) by linarith
  have bs': "bs = take (length bs) (drop k wire)" using bs(4) lw by simp
  define d where "d = take k (buf_data rb) @ bs @ drop (k + length bs) (buf_data rb)"
  have dl: "length wire \<le> length (buf_data rb)" using rb(2) uL by (simp add: buf_ok_def)
  have wr: "wr_mem (buf_data rb) k bs = Inr d" using lw dl by (simp add: wr_mem_def d_def)
  define rb1 where "rb1 = adv (rb\<lparr>buf_data := d\<rparr>) (length bs)"
  have okd: "buf_ok (rb\<lparr>buf_data := d\<rparr>)" using rb(2) wr_mem_length [OF wr] by (simp add: buf_ok_def)
  have lrd: "length (buf_rest (rb\<lparr>buf_data := d\<rparr>)) = length wire - k" using length_buf_rest [OF okd] uL uk by simp
  have ub: "unat (of_nat (length bs) :: u32) = length bs" using bs(3) f(4) by (subst unat_of_nat_u32) simp
  have inc: "buf_incrpos (rb\<lparr>buf_data := d\<rparr>) (of_nat (length bs)) = Inr rb1"
    using lrd ub bs(3) by (subst buf_incrpos_eq [OF okd]) (simp add: rb1_def)
  have ok1: "buf_ok rb1" using lrd bs(3) by (simp add: rb1_def buf_ok_adv [OF okd])
  have arr: "take (k + length bs) (buf_data rb1) = arrived kd clear wire (k + length bs)"
  proof -
    have "take (k + length bs) d = take k (buf_data rb) @ bs" using dl lw by (simp add: d_def min_absorb2)
    moreover have "take (k + length bs) wire = take k wire @ bs" by (subst bs') (simp add: take_add)
    ultimately show ?thesis using rb(5) k(1) lw by (simp add: rb1_def arrived_def)
  qed
  define r2 where "r2 = r1\<lparr>readbuf := Some rb1\<rparr>"
  have kr: "kc_recv (keys r1) = kd\<lparr>kd_cipher_state := st1\<rparr>" by (subst bs(6)) (simp add: rb(6))
  have rd2: "reading kd wire clear st1 r2 (k + length bs)"
    using ok1 arr lw k(1) kr rb(3,4) by (auto simp: reading_def r2_def rb1_def adv_def)
  have st2: "stream r2 (drop (k + length bs) wire @ later)" using bs(5) lw by (simp add: r2_def stream_def add.commute)
  have or: "only_reads r r2" unfolding r2_def by (subst bs(6)) (simp add: only_reads_def)
  have run: "read_packet_rest pr r = (if of_nat (length bs) = maxlen then decrypt_packet pr r2 else Inr r2)"
    using rb(1) nz gp bs(1,2) ml wr inc by (simp add: read_packet_rest_def Let_def maxlen_def [symmetric] r2_def)
  show ?thesis
  proof (cases "length bs = length wire - k")
    case True
    then have "of_nat (length bs) = maxlen" using ub ml by (simp only: u32_eq_iff)
    moreover have "k + length bs = length wire" using True k(2) by simp
    ultimately show ?thesis using run rd2 st2 or by (auto simp: clear_def)
  next
    case False
    then have "of_nat (length bs) \<noteq> maxlen" unfolding u32_eq_iff ub ml .
    then have "read_packet_rest pr r = Inr r2" by (simp add: run)
    moreover have "k < k + length bs" "k + length bs < length wire" using False bs(2,3) k(2) by auto
    ultimately show ?thesis using rd2 st2 or unfolding clear_def by blast
  qed
qed

section \<open>Calls of \<^verbatim>\<open>read_packet\<close> until a packet is there\<close>

text \<open>The main loop calls \<^verbatim>\<open>read_packet\<close> whenever the socket is readable, until \<^verbatim>\<open>ses.payload\<close> is set.\<close>

primrec read_rounds :: "primitives \<Rightarrow> (nat \<Rightarrow> byte) \<Rightarrow> nat \<Rightarrow> sshsession \<Rightarrow> sshsession res" where
  "read_rounds pr junk 0 r = Inr r"
| "read_rounds pr junk (Suc n) r = (if payload r \<noteq> None then Inr r
     else rbind (read_packet pr junk r) (\<lambda>r. read_rounds pr junk n r))"

definition delivered :: "key_context_directional \<Rightarrow> byte list \<Rightarrow> byte list \<Rightarrow> byte list \<Rightarrow> sshsession \<Rightarrow> sshsession \<Rightarrow> bool" where
  "delivered kd body st2 later r r' \<longleftrightarrow> (\<exists>p. payload r' = Some p \<and> buf_ok p \<and> buf_rest p = body) \<and> readbuf r' = None
     \<and> recvseq r' = recvseq r + 1 \<and> kc_recv (keys r') = kd\<lparr>kd_cipher_state := st2\<rparr> \<and> stream r' later"

lemma only_reads_fields: "only_reads r r' \<Longrightarrow> recvseq r' = recvseq r \<and> payload r' = payload r"
  unfolding only_reads_def by (erule ssubst) simp

lemma read_rest_progress:
  assumes pk: "packet_ok pr kd (recvseq r) wire body pad st1 st2" and rd: "reading kd wire (clear_packet body pad) st1 r k"
    and k: "unat (kd_blocksize kd) \<le> k" and st: "stream r (drop k wire @ later)"
  shows "(\<exists>r'. read_packet_rest pr r = Inr r' \<and> delivered kd body st2 later r r')
     \<or> (\<exists>r' k'. read_packet_rest pr r = Inr r' \<and> k < k' \<and> reading kd wire (clear_packet body pad) st1 r' k'
         \<and> stream r' (drop k' wire @ later) \<and> only_reads r r')"
proof (cases "k < length wire")
  case True
  from rest_step [OF pk rd k True st] show ?thesis
  proof (elim disjE exE conjE)
    fix r1 assume r1: "read_packet_rest pr r = decrypt_packet pr r1" "reading kd wire (clear_packet body pad) st1 r1 (length wire)"
      "stream r1 later" "only_reads r r1"
    have "recvseq r1 = recvseq r" using only_reads_fields [OF r1(4)] by simp
    then show ?thesis
      using decrypt_packet_eq [of pr kd r1] pk r1 by (fastforce simp: delivered_def stream_def)
  qed blast
next
  case False
  then have kl: "k = length wire" using rd by (simp add: reading_def)
  obtain rb where rb: "readbuf r = Some rb" "buf_len rb = of_nat (length wire)" "buf_pos rb = of_nat k"
    using rd k by (auto simp: reading_def)
  have "read_packet_rest pr r = decrypt_packet pr r" using rb kl by (simp add: read_packet_rest_def)
  then show ?thesis
    using decrypt_packet_eq [OF pk rd [unfolded kl]] st kl by (fastforce simp: delivered_def stream_def)
qed

lemma read_packet_progress:
  assumes pk: "packet_ok pr kd (recvseq r) wire body pad st1 st2" and rd: "reading kd wire (clear_packet body pad) st1 r k"
    and st: "stream r (drop k wire @ later)"
  shows "(\<exists>r'. read_packet pr junk r = Inr r' \<and> delivered kd body st2 later r r')
     \<or> (\<exists>r' k'. read_packet pr junk r = Inr r' \<and> k < k' \<and> reading kd wire (clear_packet body pad) st1 r' k'
         \<and> stream r' (drop k' wire @ later) \<and> only_reads r r')"
proof (cases "k < unat (kd_blocksize kd)")
  case True
  note f = packet_ok_facts(1-7,9,10) [OF pk]
  obtain r1 k1 where r1: "read_packet_init junk r = Inr (k1 = unat (kd_blocksize kd), r1)" "k < k1" "k1 \<le> unat (kd_blocksize kd)"
      "reading kd wire (clear_packet body pad) st1 r1 k1" "stream r1 (drop k1 wire @ later)" "only_reads r r1"
    using init_step [OF pk rd True st, of junk] by blast
  have "read_packet pr junk r = (if k1 = unat (kd_blocksize kd) then read_packet_rest pr r1 else Inr r1)"
  proof (cases "readbuf r")
    case None
    then show ?thesis using r1(1) by (simp add: read_packet_def Let_def)
  next
    case (Some rb)
    then have "buf_len rb = of_nat k" "kc_recv (keys r) = kd" using rd True by (simp_all add: reading_def)
    then have "buf_len rb < ucast (kd_blocksize (kc_recv (keys r)))"
      using True f(2) by (simp add: word_less_nat_alt unat_of_nat_u32 unat_ucast_byte)
    then show ?thesis using Some r1(1) by (simp add: read_packet_def Let_def)
  qed
  moreover have fr: "recvseq r1 = recvseq r" using only_reads_fields [OF r1(6)] by simp
  moreover have "(\<exists>r'. read_packet_rest pr r1 = Inr r' \<and> delivered kd body st2 later r r')
     \<or> (\<exists>r' k'. read_packet_rest pr r1 = Inr r' \<and> k < k' \<and> reading kd wire (clear_packet body pad) st1 r' k'
         \<and> stream r' (drop k' wire @ later) \<and> only_reads r r')" if k1: "k1 = unat (kd_blocksize kd)"
  proof -
    have pk1: "packet_ok pr kd (recvseq r1) wire body pad st1 st2" using pk fr by simp
    have "unat (kd_blocksize kd) \<le> k1" using k1 by simp
    from read_rest_progress [OF pk1 r1(4) this r1(5)] show ?thesis
    proof (elim disjE exE conjE)
      fix r' assume "read_packet_rest pr r1 = Inr r'" "delivered kd body st2 later r1 r'"
      then show ?thesis using fr by (simp add: delivered_def)
    next
      fix r' k' assume a: "read_packet_rest pr r1 = Inr r'" "k1 < k'" "reading kd wire (clear_packet body pad) st1 r' k'"
        "stream r' (drop k' wire @ later)" "only_reads r1 r'"
      have "k < k'" "only_reads r r'" using a(2,5) r1(2,6) by (auto intro: only_reads_trans)
      then show ?thesis using a by blast
    qed
  qed
  ultimately show ?thesis using r1 by (cases "k1 = unat (kd_blocksize kd)") auto
next
  case False
  then obtain rb where rb: "readbuf r = Some rb" "buf_len rb = of_nat (length wire)" "kc_recv (keys r) = kd\<lparr>kd_cipher_state := st1\<rparr>"
    using rd by (auto simp: reading_def)
  note f = packet_ok_facts(1-7,9,10) [OF pk]
  have "unat (buf_len rb) = length wire" using f(4) by (subst rb(2), subst unat_of_nat_u32) simp
  then have "\<not> buf_len rb < ucast (kd_blocksize (kc_recv (keys r)))"
    using f(3,6) rb(3) by (simp add: word_less_nat_alt unat_ucast_byte)
  then have "read_packet pr junk r = read_packet_rest pr r" using rb(1) by (simp add: read_packet_def Let_def)
  with read_rest_progress [OF pk rd _ st] False show ?thesis by simp
qed

lemma read_rounds_eq:
  assumes "packet_ok pr kd (recvseq r) wire body pad st1 st2" and "reading kd wire (clear_packet body pad) st1 r k"
    and "stream r (drop k wire @ later)" and "payload r = None" and "length wire - k < n"
  shows "\<exists>r'. read_rounds pr junk n r = Inr r' \<and> delivered kd body st2 later r r'"
  using assms
proof (induction n arbitrary: r k)
  case (Suc n)
  from read_packet_progress [OF Suc.prems(1-3), of junk] show ?case
  proof (elim disjE exE conjE)
    fix r' assume "read_packet pr junk r = Inr r'" "delivered kd body st2 later r r'"
    moreover from this(2) have "read_rounds pr junk n r' = Inr r'" by (cases n) (auto simp: delivered_def)
    ultimately show ?thesis using Suc.prems(4) by auto
  next
    fix r1 k1 assume r1: "read_packet pr junk r = Inr r1" "k < k1" "reading kd wire (clear_packet body pad) st1 r1 k1"
      "stream r1 (drop k1 wire @ later)" "only_reads r r1"
    have fr: "recvseq r1 = recvseq r" "payload r1 = payload r" using only_reads_fields [OF r1(5)] by auto
    have "k1 \<le> length wire" using r1(3) by (simp add: reading_def)
    then have "length wire - k1 < n" using r1(2) Suc.prems(5) by linarith
    then obtain r2 where "read_rounds pr junk n r1 = Inr r2" "delivered kd body st2 later r1 r2"
      using Suc.IH [OF _ r1(3,4)] Suc.prems(1,4) fr by auto
    then show ?thesis using r1(1) Suc.prems(4) fr by (auto simp: delivered_def)
  qed
qed simp

section \<open>From the sender to the receiver\<close>

text \<open>
  What the two ends' keys have to do with each other, as the cipher library documents it: the ends use
  the same block size and MAC with the same key, and deciphering undoes enciphering as long as the two
  cipher states are in step, also when the first blocks are deciphered by a call of their own. An AEAD
  cipher recovers the length field from the first block and the packet from all of it.
\<close>

definition block_law :: "(byte list \<Rightarrow> byte list \<Rightarrow> bool) \<Rightarrow> nat \<Rightarrow> cipher_mode \<Rightarrow> cipher_mode \<Rightarrow> bool" where
  "block_law sync B mt mr \<longleftrightarrow> (\<forall>st st' bs out st2 n. sync st st' \<and> cm_encrypt mt st bs = Some (out, st2)
       \<and> n mod B = 0 \<and> length bs mod B = 0 \<and> 16 \<le> length bs \<and> length bs \<le> 35000 \<longrightarrow>
     (\<exists>s1 s2. cm_decrypt mr st' (take n out) = Some (take n bs, s1)
       \<and> cm_decrypt mr s1 (drop n out) = Some (drop n bs, s2) \<and> sync st2 s2))"

definition aead_law :: "(byte list \<Rightarrow> byte list \<Rightarrow> bool) \<Rightarrow> byte \<Rightarrow> byte \<Rightarrow> cipher_mode \<Rightarrow> cipher_mode \<Rightarrow> bool" where
  "aead_law sync B taglen mt mr \<longleftrightarrow> (\<forall>seqno st st' bs out st2. sync st st'
       \<and> the (cm_aead_crypt mt) seqno bs (of_nat (length bs)) (ucast taglen) st True = Some (out, st2) \<and> 16 \<le> length bs \<and> length bs \<le> 35000 \<longrightarrow>
     (\<exists>s1 s2. cm_aead_getlength mr seqno (take (unat B) out) (ucast B) st' = Some (LOAD32H (take 4 bs), s1)
       \<and> the (cm_aead_crypt mr) seqno out (of_nat (length bs)) (ucast taglen) s1 False = Some (bs, s2) \<and> sync st2 s2))"

definition cipher_pair :: "(byte list \<Rightarrow> byte list \<Rightarrow> bool) \<Rightarrow> key_context_directional \<Rightarrow> key_context_directional \<Rightarrow> bool" where
  "cipher_pair sync kt kr \<longleftrightarrow> kd_blocksize kr = kd_blocksize kt \<and> kd_hashsize kr = kd_hashsize kt
     \<and> kd_mac_keysize kr = kd_mac_keysize kt \<and> kd_hash_index kr = kd_hash_index kt \<and> kd_mackey kr = kd_mackey kt
     \<and> (cm_aead_crypt (kd_crypt_mode kr) = None \<longleftrightarrow> cm_aead_crypt (kd_crypt_mode kt) = None)
     \<and> (if cm_aead_crypt (kd_crypt_mode kt) = None then block_law sync (unat (kd_blocksize kt)) (kd_crypt_mode kt) (kd_crypt_mode kr)
        else aead_law sync (kd_blocksize kt) (kd_hashsize kt) (kd_crypt_mode kt) (kd_crypt_mode kr))"

definition in_step :: "(byte list \<Rightarrow> byte list \<Rightarrow> bool) \<Rightarrow> sshsession \<Rightarrow> sshsession \<Rightarrow> bool" where
  "in_step sync ses r \<longleftrightarrow> cipher_pair sync (kc_trans (keys ses)) (kc_recv (keys r))
     \<and> sync (kd_cipher_state (kc_trans (keys ses))) (kd_cipher_state (kc_recv (keys r)))
     \<and> transseq ses = recvseq r \<and> readbuf r = None \<and> payload r = None"

lemma block_lawD:
  "block_law sync B mt mr \<Longrightarrow> sync st st' \<Longrightarrow> cm_encrypt mt st bs = Some (out, st2) \<Longrightarrow> n mod B = 0 \<Longrightarrow> length bs mod B = 0 \<Longrightarrow> 16 \<le> length bs \<Longrightarrow> length bs \<le> 35000
   \<Longrightarrow> \<exists>s1 s2. cm_decrypt mr st' (take n out) = Some (take n bs, s1)
       \<and> cm_decrypt mr s1 (drop n out) = Some (drop n bs, s2) \<and> sync st2 s2"
  unfolding block_law_def by (drule spec [of _ st], drule spec [of _ st'], drule spec [of _ bs],
    drule spec [of _ out], drule spec [of _ st2], drule spec [of _ n]) simp

lemma aead_lawD:
  "aead_law sync B taglen mt mr \<Longrightarrow> cm_aead_crypt mt = Some f \<Longrightarrow> cm_aead_crypt mr = Some g \<Longrightarrow> sync st st'
   \<Longrightarrow> f seqno bs (of_nat (length bs)) (ucast taglen) st True = Some (out, st2) \<Longrightarrow> 16 \<le> length bs \<Longrightarrow> length bs \<le> 35000
   \<Longrightarrow> \<exists>s1 s2. cm_aead_getlength mr seqno (take (unat B) out) (ucast B) st' = Some (LOAD32H (take 4 bs), s1)
       \<and> g seqno out (of_nat (length bs)) (ucast taglen) s1 False = Some (bs, s2) \<and> sync st2 s2"
  unfolding aead_law_def by (drule spec [of _ seqno], drule spec [of _ st], drule spec [of _ st'], drule spec [of _ bs],
    drule spec [of _ out], drule spec [of _ st2]) simp

lemma cipher_pair_state:
  "cipher_pair sync (kt\<lparr>kd_cipher_state := a\<rparr>) (kr\<lparr>kd_cipher_state := b\<rparr>) = cipher_pair sync kt kr"
  by (simp add: cipher_pair_def)

lemma seal_opens:
  assumes cp: "cipher_pair sync kt kr" and sy: "sync (kd_cipher_state kt) (kd_cipher_state kr)" and tr: "trans_ok pr kt"
    and pad: "pad_ok kt body pad" and body: "1 \<le> length body" "length body \<le> 16384"
    and seal: "seal_spec pr kt seqno (clear_packet body pad) = Some (wire, st)"
  shows "\<exists>st1 st2. packet_ok pr kr seqno wire body pad st1 st2 \<and> sync st st2 \<and> length wire \<le> 16708"
proof -
  define clear where "clear = clear_packet body pad"
  have lc: "length clear = 5 + length body + length pad" "16 \<le> length clear" "length pad < 256" "length clear \<le> 35000"
    using pad body by (simp_all add: clear_def pad_ok_def)
  have eq: "kd_blocksize kr = kd_blocksize kt" "kd_hashsize kr = kd_hashsize kt" "kd_mac_keysize kr = kd_mac_keysize kt"
    "kd_hash_index kr = kd_hash_index kt" "kd_mackey kr = kd_mackey kt"
    "cm_aead_crypt (kd_crypt_mode kr) = None \<longleftrightarrow> cm_aead_crypt (kd_crypt_mode kt) = None"
    using cp by (auto simp: cipher_pair_def)
  have mo: "mac_of pr kr = mac_of pr kt" by (intro ext) (simp add: mac_of_def eq)
  have rk: "recv_ok pr kr" "unat (kd_hashsize kt) \<le> 64" using tr by (auto simp: trans_ok_def recv_ok_def mac_ok_def eq)
  have pk: "pad_ok kr body pad" using pad by (simp add: pad_ok_def eq)
  have "\<exists>st1 st2. opens pr kr seqno wire clear st1 st2 \<and> sync st st2 \<and> length wire = length clear + unat (kd_hashsize kt)"
  proof (cases "cm_aead_crypt (kd_crypt_mode kt)")
    case None
    obtain out where out: "cm_encrypt (kd_crypt_mode kt) (kd_cipher_state kt) clear = Some (out, st)" "wire = out @ mac_of pr kt seqno clear"
      using seal None by (auto simp: seal_spec_def clear_def split: option.splits)
    have m: "length clear mod unat (kd_blocksize kt) = 0" using pad None lc(1) by (simp add: pad_ok_def)
    have "\<exists>out st'. cm_encrypt (kd_crypt_mode kt) (kd_cipher_state kt) clear = Some (out, st') \<and> length out = length clear"
      using tr None m lc(2,4) by (simp add: trans_ok_def encrypt_ok_def)
    then have lo: "length out = length clear" using out(1) by auto
    have bl: "block_law sync (unat (kd_blocksize kt)) (kd_crypt_mode kt) (kd_crypt_mode kr)" using cp None by (simp add: cipher_pair_def)
    obtain s1 s2 where s: "cm_decrypt (kd_crypt_mode kr) (kd_cipher_state kr) (take (unat (kd_blocksize kt)) out)
          = Some (take (unat (kd_blocksize kt)) clear, s1)"
        "cm_decrypt (kd_crypt_mode kr) s1 (drop (unat (kd_blocksize kt)) out) = Some (drop (unat (kd_blocksize kt)) clear, s2)" "sync st s2"
      using block_lawD [OF bl sy out(1) mod_self m lc(2,4)] by (elim exE conjE) (rule that)
    have B: "unat (kd_blocksize kt) \<le> length clear" using m lc(2) by (intro dvd_imp_le) (auto simp: mod_eq_0_iff_dvd)
    have lm: "length (mac_of pr kt seqno clear) = unat (kd_hashsize kt)" using tr None length_mac_of by (simp add: trans_ok_def)
    have "opens pr kr seqno wire clear s1 s2"
      using s None eq lo lm mo B by (simp add: opens_def Let_def out(2))
    then show ?thesis using s(3) lo lm out(2) by auto
  next
    case (Some f)
    then obtain g where g: "cm_aead_crypt (kd_crypt_mode kr) = Some g" using eq(6) by auto
    have out: "f seqno clear (of_nat (length clear)) (ucast (kd_hashsize kt)) (kd_cipher_state kt) True = Some (wire, st)"
      using seal Some by (simp add: seal_spec_def clear_def)
    have "\<exists>out st'. f seqno clear (of_nat (length clear)) (ucast (kd_hashsize kt)) (kd_cipher_state kt) True = Some (out, st')
        \<and> length out = length clear + unat (kd_hashsize kt)"
      using tr Some lc(2,4) by (simp add: trans_ok_def encrypt_ok_def)
    then have lo: "length wire = length clear + unat (kd_hashsize kt)" using out by auto
    have "length clear - 4 = 1 + length body + length pad" using lc(1) by simp
    then have l4: "LOAD32H (take 4 clear) = of_nat (length clear - 4)" unfolding clear_def take4_clear by simp
    have al: "aead_law sync (kd_blocksize kt) (kd_hashsize kt) (kd_crypt_mode kt) (kd_crypt_mode kr)" using cp Some by (simp add: cipher_pair_def)
    obtain s1 s2 where "cm_aead_getlength (kd_crypt_mode kr) seqno (take (unat (kd_blocksize kt)) wire) (ucast (kd_blocksize kt)) (kd_cipher_state kr)
          = Some (LOAD32H (take 4 clear), s1)" "g seqno wire (of_nat (length clear)) (ucast (kd_hashsize kt)) s1 False = Some (clear, s2)" "sync st s2"
      using aead_lawD [OF al Some g sy out lc(2,4)] by (elim exE conjE) (rule that)
    then have "opens pr kr seqno wire clear s1 s2" using g eq lo l4 by (simp add: opens_def Let_def)
    then show ?thesis using \<open>sync st s2\<close> lo by auto
  qed
  then obtain st1 st2 where o: "opens pr kr seqno wire clear st1 st2" "sync st st2" "length wire = length clear + unat (kd_hashsize kt)"
    by (elim exE conjE) (rule that)
  have "length wire \<le> 16708" using o(3) rk(2) lc body by linarith
  then show ?thesis using rk pk body o by (auto simp: packet_ok_def clear_def)
qed

text \<open>Taking the packets off the transport, as the main loop does: the payload is freed before the next read.\<close>

primrec receive_all :: "primitives \<Rightarrow> (nat \<Rightarrow> byte) \<Rightarrow> nat \<Rightarrow> nat \<Rightarrow> sshsession \<Rightarrow> (byte list list \<times> sshsession) res" where
  "receive_all pr junk calls 0 r = Inr ([], r)"
| "receive_all pr junk calls (Suc k) r = rbind (read_rounds pr junk calls r) (\<lambda>r.
     case payload r of None \<Rightarrow> Inr ([], r)
     | Some p \<Rightarrow> rbind (receive_all pr junk calls k (r\<lparr>payload := None\<rparr>)) (\<lambda>(ms, r). Inr (buf_rest p # ms, r)))"

lemma receive_one:
  assumes st: "in_step sync ses r" and tr: "trans_ok pr (kc_trans (keys ses))" and da: "dataallowed ses"
    and e: "emitted pr ses m ses'" and m: "1 \<le> length m" "length m \<le> 16384"
    and wire: "queue_bytes (writequeue ses') = queue_bytes (writequeue ses) @ w" and s: "stream r (w @ later)"
  shows "\<exists>r' p. read_rounds pr junk 16709 r = Inr r' \<and> payload r' = Some p \<and> buf_rest p = m
     \<and> in_step sync ses' (r'\<lparr>payload := None\<rparr>) \<and> stream r' later"
proof -
  define kt where "kt = kc_trans (keys ses)"
  define kr where "kr = kc_recv (keys r)"
  obtain pad st' where e': "pad_ok kt m pad" "seal_spec pr kt (transseq ses) (clear_packet m pad) = Some (w, st')"
      "kc_trans (keys ses') = kt\<lparr>kd_cipher_state := st'\<rparr>" "transseq ses' = transseq ses + 1"
    using e da wire by (auto simp: emitted_def held_back_def kt_def)
  note st' = st [unfolded in_step_def, folded kt_def kr_def]
  obtain st1 st2 where o: "packet_ok pr kr (transseq ses) w m pad st1 st2" "sync st' st2" "length w \<le> 16708"
    using seal_opens [of sync kt kr pr m pad "transseq ses" w st'] st' tr e' m by (auto simp: kt_def)
  have "8 \<le> unat (kd_blocksize kr)" using packet_ok_facts(1) [OF o(1)] .
  then have rd: "reading kr w (clear_packet m pad) st1 r 0" using st' by (auto simp: reading_def kr_def)
  obtain r' where r': "read_rounds pr junk 16709 r = Inr r'" "delivered kr m st2 later r r'"
    using read_rounds_eq [OF _ rd, of pr st2 later 16709 junk] o st' s by auto
  have "cipher_pair sync (kt\<lparr>kd_cipher_state := st'\<rparr>) (kr\<lparr>kd_cipher_state := st2\<rparr>)" using st' by (simp add: cipher_pair_state)
  then show ?thesis using r' o(2) e' st' by (auto simp: delivered_def in_step_def)
qed

lemma emitted_all_bytes:
  "emitted_all pr ses ms ses' \<Longrightarrow> dataallowed ses \<Longrightarrow> \<exists>w. queue_bytes (writequeue ses') = queue_bytes (writequeue ses) @ w"
proof (induction ms arbitrary: ses)
  case (Cons m ms)
  then obtain s1 where s1: "app_same ses s1" "emitted pr ses m s1" "emitted_all pr s1 ms ses'" by auto
  have "dataallowed s1" using s1(1) Cons.prems(2) by (simp add: app_same_def)
  then obtain w where "queue_bytes (writequeue ses') = queue_bytes (writequeue s1) @ w" using Cons.IH [OF s1(3)] by auto
  then show ?case using s1(2) Cons.prems(2) by (auto simp: emitted_def held_back_def)
qed simp

lemma receive_all_eq:
  assumes "in_step sync ses r" and "sendable pr ses" and "dataallowed ses" and "emitted_all pr ses ms ses'"
    and "\<forall>m\<in>set ms. 1 \<le> length m \<and> length m \<le> 16384"
    and "queue_bytes (writequeue ses') = queue_bytes (writequeue ses) @ w" and "stream r (w @ later)"
  shows "\<exists>r'. receive_all pr junk 16709 (length ms) r = Inr (ms, r') \<and> in_step sync ses' r' \<and> stream r' later"
  using assms
proof (induction ms arbitrary: ses r w)
  case Nil
  then show ?case by (simp add: in_step_def)
next
  case (Cons m ms)
  obtain s1 where s1: "sendable pr s1" "app_same ses s1" "emitted pr ses m s1" "emitted_all pr s1 ms ses'"
    using Cons.prems(4) by auto
  have da1: "dataallowed s1" using s1(2) Cons.prems(3) by (simp add: app_same_def)
  obtain w1 where w1: "queue_bytes (writequeue s1) = queue_bytes (writequeue ses) @ w1"
    using s1(3) Cons.prems(3) by (auto simp: emitted_def held_back_def)
  obtain w2 where w2: "queue_bytes (writequeue ses') = queue_bytes (writequeue s1) @ w2"
    using emitted_all_bytes [OF s1(4) da1] by auto
  have w: "w = w1 @ w2" using w1 w2 Cons.prems(6) by simp
  have m: "1 \<le> length m" "length m \<le> 16384" using Cons.prems(5) by auto
  have tr: "trans_ok pr (kc_trans (keys ses))" using Cons.prems(2) by (simp add: sendable_def)
  have st: "stream r (w1 @ (w2 @ later))" using Cons.prems(7) w by simp
  obtain r1 p where r1: "read_rounds pr junk 16709 r = Inr r1" "payload r1 = Some p" "buf_rest p = m"
      "in_step sync s1 (r1\<lparr>payload := None\<rparr>)" "stream r1 (w2 @ later)"
    using receive_one [OF Cons.prems(1) tr Cons.prems(3) s1(3) m w1 st, of junk] by blast
  have "stream (r1\<lparr>payload := None\<rparr>) (w2 @ later)" using r1(5) by (simp add: stream_def)
  then obtain r2 where "receive_all pr junk 16709 (length ms) (r1\<lparr>payload := None\<rparr>) = Inr (ms, r2)" "in_step sync ses' r2" "stream r2 later"
    using Cons.IH [OF r1(4) s1(1) da1 s1(4) _ w2] Cons.prems(5) by auto
  then show ?case using r1 by simp
qed

section \<open>Properties\<close>

lemma toy_aead_pair: "cipher_pair (=) toy_aead_keys toy_aead_keys"
proof -
  have "aead_law (=) 8 16 (kd_crypt_mode toy_aead_keys) (kd_crypt_mode toy_aead_keys)"
    unfolding aead_law_def
  proof (intro allI impI)
    fix seqno st st' bs out st2
    assume a: "st = st' \<and> the (cm_aead_crypt (kd_crypt_mode toy_aead_keys)) seqno bs (of_nat (length bs)) (ucast (16 :: byte)) st True = Some (out, st2) \<and> 16 \<le> length bs \<and> length bs \<le> 35000"
    then have l: "unat (of_nat (length bs) :: u32) = length bs" "\<not> (of_nat (length bs) :: u32) < 4" by (simp_all add: word_less_nat_alt unat_of_nat_u32)
    then have out: "out = map (\<lambda>b. b + 85) bs @ toy_tag seqno (map (\<lambda>b. b + 85) bs)" "st2 = st" using a by (auto simp: toy_aead_def)
    have m: "map (\<lambda>b. b - 85) (map (\<lambda>b. b + 85) xs) = xs" for xs :: "byte list" by (induction xs) auto
    have "take 4 (take 8 out) = map (\<lambda>b. b + 85) (take 4 bs)" using a by (simp add: out take_map min_def)
    then show "\<exists>s1 s2. cm_aead_getlength (kd_crypt_mode toy_aead_keys) seqno (take (unat (8 :: byte)) out) (ucast (8 :: byte)) st' = Some (LOAD32H (take 4 bs), s1)
        \<and> the (cm_aead_crypt (kd_crypt_mode toy_aead_keys)) seqno out (of_nat (length bs)) (ucast (16 :: byte)) s1 False = Some (bs, s2) \<and> st2 = s2"
      using l m out conjunct1 [OF a] by (simp add: toy_aead_def) (simp add: toy_aead_keys_def m)
  qed
  then show ?thesis by (simp add: cipher_pair_def)
qed

text \<open>
  C5. What one end sends the other receives: messages the sender seals one after the other, with a block cipher and a MAC or with an AEAD cipher, arrive at a
  receiver whose keys and sequence number are in step exactly as they were, in order and none missing,
  for every way the network cuts the byte stream into non-empty pieces and whatever follows on the
  stream; the two ends are in step again afterwards. The receiver needs no more than one call of
  \<^verbatim>\<open>read_packet\<close> for each byte of a packet and one more.
\<close>

theorem packets_arrive_in_order:
  assumes "sendable pr ses" and "wp_empty ses" and "dataallowed ses" and "in_step sync ses r"
    and "\<forall>b\<in>set items. buf_ok b \<and> 1 \<le> unat (buf_len b) \<and> unat (buf_len b) \<le> 16384"
  shows "\<exists>ses' w. flush_items pr items ses = Inr ses' \<and> queue_bytes (writequeue ses') = queue_bytes (writequeue ses) @ w
     \<and> (\<forall>chunks later. [] \<notin> set chunks \<and> concat chunks = w @ later \<longrightarrow>
         (\<exists>r'. receive_all pr junk 16709 (length items) (r\<lparr>socket_input := map Read_bytes chunks\<rparr>) = Inr (map buf_body items, r')
           \<and> in_step sync ses' r' \<and> stream r' later))"
proof -
  obtain ses' where s: "flush_items pr items ses = Inr ses'" "emitted_all pr ses (map buf_body items) ses'"
    using flush_items_eq [OF assms(1-3,5)] by blast
  obtain w where w: "queue_bytes (writequeue ses') = queue_bytes (writequeue ses) @ w"
    using emitted_all_bytes [OF s(2) assms(3)] by blast
  have m: "\<forall>m\<in>set (map buf_body items). 1 \<le> length m \<and> length m \<le> 16384" using assms(5) by (auto simp: buf_body_def buf_ok_def)
  have "\<exists>r'. receive_all pr junk 16709 (length items) (r\<lparr>socket_input := map Read_bytes chunks\<rparr>) = Inr (map buf_body items, r')
           \<and> in_step sync ses' r' \<and> stream r' later"
    if "[] \<notin> set chunks" "concat chunks = w @ later" for chunks later
  proof -
    let ?r = "r\<lparr>socket_input := map Read_bytes chunks\<rparr>"
    have "in_step sync ses ?r" "stream ?r (w @ later)" using assms(4) that by (auto simp: in_step_def stream_def)
    from receive_all_eq [OF this(1) assms(1,3) s(2) m w this(2), of junk] show ?thesis by simp
  qed
  with s(1) w show ?thesis by blast
qed

theorem packets_arrive_in_order_witness:
  "\<exists>ses ses' w r'. common_session_init 3 4 ses_zero = Inr ses
     \<and> flush_items counting_primitives [\<lparr>buf_data = [99, 0, 0, 0, 1], buf_len = 5, buf_pos = 0, buf_size = 5\<rparr>] (aead_session ses) = Inr ses'
     \<and> queue_bytes (writequeue ses') = w
     \<and> receive_all counting_primitives (\<lambda>_. 0) 16709 1 ((aead_session ses)\<lparr>socket_input := map Read_bytes (map (\<lambda>b. [b]) w)\<rparr>)
         = Inr ([[99, 0, 0, 0, 1]], r')"
proof -
  obtain ses0 where s0: "common_session_init 3 4 ses_zero = Inr ses0" "sendable counting_primitives ses0" "wp_empty ses0" "dataallowed ses0"
      "transseq ses0 = 0" "queue_bytes (writequeue ses0) = []"
    using common_session_init_eq [OF counting_random_ok, of 3 4] by blast
  have z: "recvseq ses0 = 0" "readbuf ses0 = None" "payload ses0 = None"
    using s0(1) by (auto simp: common_session_init_def buf_new_def Let_def)
  define ses where "ses = aead_session ses0"
  have s: "sendable counting_primitives ses" "wp_empty ses" "dataallowed ses" "queue_bytes (writequeue ses) = []"
    using s0 aead_session_sendable by (simp_all add: ses_def) (simp_all add: aead_session_def)
  let ?b = "\<lparr>buf_data = [99, 0, 0, 0, 1], buf_len = 5, buf_pos = 0, buf_size = 5\<rparr>"
  have st: "in_step (=) ses ses" using s0 z toy_aead_pair by (simp add: in_step_def ses_def aead_session_def)
  have "\<forall>b\<in>set [?b]. buf_ok b \<and> 1 \<le> unat (buf_len b) \<and> unat (buf_len b) \<le> 16384" by (simp add: buf_ok_def)
  from packets_arrive_in_order [OF s(1-3) st this, of "\<lambda>_. 0"] obtain ses' w where w: "flush_items counting_primitives [?b] ses = Inr ses'"
      "queue_bytes (writequeue ses') = w"
      "[] \<notin> set (map (\<lambda>b. [b]) w) \<and> concat (map (\<lambda>b. [b]) w) = w @ [] \<longrightarrow> (\<exists>r'. receive_all counting_primitives (\<lambda>_. 0) 16709 (length [?b])
         (ses\<lparr>socket_input := map Read_bytes (map (\<lambda>b. [b]) w)\<rparr>) = Inr (map buf_body [?b], r')
           \<and> in_step (=) ses' r' \<and> stream r' [])"
    using s(4) by (metis append_Nil)
  have "concat (map (\<lambda>b. [b]) w) = w" by (induction w) auto
  then show ?thesis using s0(1) w unfolding ses_def by (auto simp: buf_body_def)
qed

section \<open>Arbitrary bytes from the peer\<close>

text \<open>What the library's deciphering functions promise whatever they are given: how much they write.\<close>

definition decrypt_ok :: "key_context_directional \<Rightarrow> bool" where
  "decrypt_ok kd \<longleftrightarrow> (\<forall>st bs out st'. cm_decrypt (kd_crypt_mode kd) st bs = Some (out, st') \<longrightarrow> length out = length bs)
     \<and> (\<forall>f seqno bs len taglen st out st'. cm_aead_crypt (kd_crypt_mode kd) = Some f \<longrightarrow>
          f seqno bs len taglen st False = Some (out, st') \<longrightarrow> length out = unat len)"

definition recv_inv :: "primitives \<Rightarrow> sshsession \<Rightarrow> bool" where
  "recv_inv pr ses \<longleftrightarrow> recv_ok pr (kc_recv (keys ses)) \<and> decrypt_ok (kc_recv (keys ses))
     \<and> (\<forall>b. readbuf ses = Some b \<longrightarrow> buf_ok b)"

lemma recv_ok_state: "recv_ok pr (kd\<lparr>kd_cipher_state := st\<rparr>) = recv_ok pr kd"
  "decrypt_ok (kd\<lparr>kd_cipher_state := st\<rparr>) = decrypt_ok kd" "mac_of pr (kd\<lparr>kd_cipher_state := st\<rparr>) = mac_of pr kd"
  by (auto simp: recv_ok_def mac_ok_def decrypt_ok_def mac_of_def fun_eq_iff)

lemma set_recv_state_fields [simp]:
  "kc_recv (keys (set_recv_state st ses)) = (kc_recv (keys ses))\<lparr>kd_cipher_state := st\<rparr>" "recvseq (set_recv_state st ses) = recvseq ses"
  "readbuf (set_recv_state st ses) = readbuf ses" "kexstate (set_recv_state st ses) = kexstate ses"
  "payload (set_recv_state st ses) = payload ses"
  by (simp_all add: set_recv_state_def)

text \<open>Deciphering in place stays between the position and the end and leaves the rest of the buffer alone.\<close>

lemma crypt_inplace_safe:
  assumes "buf_ok b" and "\<And>bs out st'. f st bs = Some (out, st') \<Longrightarrow> length out = length bs"
  shows "safe (\<lambda>(st', b'). buf_ok b' \<and> b' = b\<lparr>buf_data := buf_data b'\<rparr> \<and> unat (buf_pos b) + unat l \<le> unat (buf_len b)
     \<and> drop (unat (buf_pos b) + unat l) (buf_data b') = drop (unat (buf_pos b) + unat l) (buf_data b)) (crypt_inplace f err st b l)"
  unfolding crypt_inplace_def
proof (rule res_sat_bindI [OF buf_getptr_contract [OF assms(1)]], rule res_sat_bindI [OF buf_getwriteptr_contract [OF assms(1)]])
  fix r w assume r: "r = unat (buf_pos b) \<and> r + unat l \<le> unat (buf_len b)" and w: "w = unat (buf_pos b) \<and> w + unat l \<le> unat (buf_size b)"
  then have rd: "rd_mem (buf_data b) r (unat l) = Inr (take (unat l) (drop r (buf_data b)))"
    using assms(1) by (simp add: rd_mem_def buf_ok_def)
  have lo: "length out = unat l" if "f st (take (unat l) (drop r (buf_data b))) = Some (out, st')" for out st'
    using assms(2) [OF that] r assms(1) by (auto simp: buf_ok_def min_def)
  have wr: "wr_mem (buf_data b) w out = Inr (take w (buf_data b) @ out @ drop (w + unat l) (buf_data b))" if "length out = unat l" for out
    using w assms(1) that by (simp add: wr_mem_def buf_ok_def)
  have bl: "r + unat l \<le> length (buf_data b)" "w = r" using r w assms(1) by (auto simp: buf_ok_def)
  show "safe (\<lambda>(st', b'). buf_ok b' \<and> b' = b\<lparr>buf_data := buf_data b'\<rparr> \<and> unat (buf_pos b) + unat l \<le> unat (buf_len b)
     \<and> drop (unat (buf_pos b) + unat l) (buf_data b') = drop (unat (buf_pos b) + unat l) (buf_data b))
     (rbind (rd_mem (buf_data b) r (unat l)) (\<lambda>bs. case f st bs of None \<Rightarrow> Inl (Exit err)
       | Some (out, st) \<Rightarrow> rbind (wr_mem (buf_data b) w out) (\<lambda>d. Inr (st, b\<lparr>buf_data := d\<rparr>))))"
  proof (cases "f st (take (unat l) (drop r (buf_data b)))")
    case (Some y)
    then obtain out st' where y: "f st (take (unat l) (drop r (buf_data b))) = Some (out, st')" by (cases y) auto
    have "buf_ok (b\<lparr>buf_data := take w (buf_data b) @ out @ drop (w + unat l) (buf_data b)\<rparr>)"
      using assms(1) bl lo [OF y] by (intro buf_ok_data) auto
    then show ?thesis unfolding rd rbind.simps y option.case prod.case wr [OF lo [OF y]] using r w bl lo [OF y] by simp
  qed (simp add: rd)
qed

lemma aead_inplace_safe:
  assumes "buf_ok b" and "\<And>bs out st'. f seqno bs len taglen st enc = Some (out, st') \<Longrightarrow> length out = unat outlen"
  shows "safe (\<lambda>(st', b'). buf_ok b' \<and> b' = b\<lparr>buf_data := buf_data b'\<rparr>) (aead_inplace f err enc seqno st b inlen outlen len taglen)"
  unfolding aead_inplace_def
proof (rule res_sat_bindI [OF buf_getptr_contract [OF assms(1)]], rule res_sat_bindI [OF buf_getwriteptr_contract [OF assms(1)]])
  fix r w assume r: "r = unat (buf_pos b) \<and> r + unat inlen \<le> unat (buf_len b)" and w: "w = unat (buf_pos b) \<and> w + unat outlen \<le> unat (buf_size b)"
  then have rd: "rd_mem (buf_data b) r (unat inlen) = Inr (take (unat inlen) (drop r (buf_data b)))"
    using assms(1) by (simp add: rd_mem_def buf_ok_def)
  then show "safe (\<lambda>(st', b'). buf_ok b' \<and> b' = b\<lparr>buf_data := buf_data b'\<rparr>)
     (rbind (rd_mem (buf_data b) r (unat inlen)) (\<lambda>bs. case f seqno bs len taglen st enc of None \<Rightarrow> Inl (Exit err)
       | Some (out, st) \<Rightarrow> rbind (wr_mem (buf_data b) w out) (\<lambda>d. Inr (st, b\<lparr>buf_data := d\<rparr>))))"
    using w assms by (auto simp: wr_mem_def buf_ok_def split: option.splits)
qed

lemma checkmac_safe:
  assumes mac: "mac_ok pr (kc_recv (keys r))" and ae: "cm_aead_crypt (kd_crypt_mode (kc_recv (keys r))) = None" and ok: "buf_ok b"
  defines "M \<equiv> unat (kd_hashsize (kc_recv (keys r)))"
  shows "safe (\<lambda>(ok, b'). M \<le> unat (buf_len b) \<and> b' = b\<lparr>buf_pos := buf_pos b'\<rparr> \<and> buf_ok b'
     \<and> (ok \<longrightarrow> take M (drop (unat (buf_len b) - M) (buf_data b))
          = mac_of pr (kc_recv (keys r)) (recvseq r) (take (unat (buf_len b) - M) (buf_data b)))) (checkmac pr r b)"
proof (cases "M \<le> unat (buf_len b)")
  case True
  then show ?thesis using checkmac_eq [OF mac ae ok, of "unat (buf_len b) - M"] by (auto simp: M_def)
next
  case False
  define l where "l = buf_len b - ucast (kd_hashsize (kc_recv (keys r)))"
  have ul: "unat l = 4294967296 + unat (buf_len b) - M" using False by (simp add: l_def unat_sub_u32 unat_ucast_byte M_def)
  have h: "kd_hashsize (kc_recv (keys r)) > 0" using False by (cases "kd_hashsize (kc_recv (keys r)) = 0") (auto simp: M_def word_neq_0_conv)
  have ok1: "buf_ok (b\<lparr>buf_pos := 0\<rparr>)" using ok by (simp add: buf_ok_def)
  have "\<not> unat l \<le> length (buf_rest (b\<lparr>buf_pos := 0\<rparr>))"
    using ul False length_buf_rest [OF ok1] ok unat_lt_u8 [of "kd_hashsize (kc_recv (keys r))"]
    unfolding M_def buf_ok_def by (simp del: unat_lt_u8)
  then have "make_mac pr (recvseq r) (kc_recv (keys r)) (b\<lparr>buf_pos := 0\<rparr>) l = Inl (Exit ''Bad buf_getptr'')"
    using h mac by (simp add: make_mac_def mac_ok_def rd_mem_def buf_setpos_eq buf_getptr_eq [OF ok1])
  then show ?thesis by (simp add: checkmac_def Let_def buf_setpos_eq l_def)
qed


text \<open>What deciphering leaves: the contents, and after them the MAC that was checked against them.\<close>

definition authentic :: "primitives \<Rightarrow> sshsession \<Rightarrow> buffer \<Rightarrow> buffer \<Rightarrow> bool" where
  "authentic pr ses rb b' \<longleftrightarrow> (let kd = kc_recv (keys ses); M = unat (kd_hashsize kd); n = unat (buf_len rb) - M in
     M \<le> unat (buf_len rb) \<and> take M (drop n (buf_data b')) = mac_of pr kd (recvseq ses) (take n (buf_data b'))
     \<and> drop n (buf_data b') = drop n (buf_data rb))"

lemma decrypt_contents_safe:
  assumes kd: "kc_recv (keys ses) = kd" "recv_ok pr kd" "decrypt_ok kd" and ok: "buf_ok rb"
  shows "safe (\<lambda>(b', s'). buf_ok b' \<and> buf_len b' = buf_len rb \<and> (\<exists>st. s' = set_recv_state st ses)
     \<and> (cm_aead_crypt (kd_crypt_mode kd) = None \<longrightarrow> authentic pr ses rb b')) (decrypt_contents pr ses rb)"
proof (cases "cm_aead_crypt (kd_crypt_mode kd)")
  case (Some f)
  define len where "len = buf_len rb - ucast (kd_hashsize kd)"
  have ok1: "buf_ok (rb\<lparr>buf_pos := 0\<rparr>)" using ok by (simp add: buf_ok_def)
  have f: "\<And>bs out st'. f (recvseq ses) bs len (ucast (kd_hashsize kd)) (kd_cipher_state kd) False = Some (out, st') \<Longrightarrow> length out = unat len"
    using kd(3) Some unfolding decrypt_ok_def by metis
  define rb1 where "rb1 = rb\<lparr>buf_pos := 0\<rparr>"
  have "safe (\<lambda>(b', s'). buf_ok b' \<and> buf_len b' = buf_len rb \<and> (\<exists>st. s' = set_recv_state st ses))
    (rbind (aead_inplace f ''Error decrypting'' False (recvseq ses) (kd_cipher_state kd) rb1 (len + ucast (kd_hashsize kd)) len len (ucast (kd_hashsize kd)))
      (\<lambda>(st, rb). rbind (buf_incrpos rb len) (\<lambda>rb. Inr (rb, set_recv_state st ses))))"
  proof (rule res_sat_bindI [OF aead_inplace_safe [OF ok1 [folded rb1_def]]], erule f, clarify)
    fix st b' assume b': "buf_ok b'" "b' = rb1\<lparr>buf_data := buf_data b'\<rparr>"
    have "buf_len b' = buf_len rb" by (subst b'(2)) (simp add: rb1_def)
    with b'(1) show "safe (\<lambda>(b', s'). buf_ok b' \<and> buf_len b' = buf_len rb \<and> (\<exists>st. s' = set_recv_state st ses))
        (rbind (buf_incrpos b' len) (\<lambda>rb. Inr (rb, set_recv_state st ses)))"
      by (auto simp: buf_incrpos_eq buf_ok_adv)
  qed
  then show ?thesis
    using Some by (simp add: decrypt_contents_def kd(1) Let_def buf_setpos_eq rb1_def [symmetric]) (simp add: rb1_def len_def)
next
  case None
  define B :: u32 where "B = ucast (kd_blocksize kd)"
  define M where "M = unat (kd_hashsize kd)"
  define len where "len = buf_len rb - ucast (kd_hashsize kd) - B"
  show ?thesis
  proof (cases "unat B \<le> unat (buf_len rb)")
    case True
    define rb1 where "rb1 = rb\<lparr>buf_pos := B\<rparr>"
    have ok1: "buf_ok rb1" using ok True by (simp add: rb1_def buf_ok_def)
    have f: "\<And>bs out st'. cm_decrypt (kd_crypt_mode kd) (kd_cipher_state kd) bs = Some (out, st') \<Longrightarrow> length out = length bs"
      using kd(3) unfolding decrypt_ok_def by metis
    have "safe (\<lambda>(b', s'). buf_ok b' \<and> buf_len b' = buf_len rb \<and> (\<exists>st. s' = set_recv_state st ses) \<and> authentic pr ses rb b')
      (rbind (crypt_inplace (cm_decrypt (kd_crypt_mode kd)) ''Error decrypting'' (kd_cipher_state kd) rb1 len) (\<lambda>(st, rb).
         rbind (buf_incrpos rb len) (\<lambda>rb. rbind (checkmac pr (set_recv_state st ses) rb) (\<lambda>(mac_ok, rb).
         if \<not> mac_ok then Inl (Exit ''Integrity error'') else Inr (rb, set_recv_state st ses)))))"
    proof (rule res_sat_bindI [OF crypt_inplace_safe [OF ok1]], erule f, clarify)
      fix st b2 assume b2: "buf_ok b2" "b2 = rb1\<lparr>buf_data := buf_data b2\<rparr>" "unat (buf_pos rb1) + unat len \<le> unat (buf_len rb1)"
        "drop (unat (buf_pos rb1) + unat len) (buf_data b2) = drop (unat (buf_pos rb1) + unat len) (buf_data rb1)"
      have l2: "buf_len b2 = buf_len rb" by (subst b2(2)) (simp add: rb1_def)
      define s1 where "s1 = set_recv_state st ses"
      have mk: "mac_ok pr (kc_recv (keys s1))" using kd by (simp add: s1_def recv_ok_def mac_ok_def)
      have ak: "cm_aead_crypt (kd_crypt_mode (kc_recv (keys s1))) = None" using kd None by (simp add: s1_def)
      have hs: "kd_hashsize (kc_recv (keys s1)) = kd_hashsize kd" "mac_of pr (kc_recv (keys s1)) = mac_of pr kd" "recvseq s1 = recvseq ses"
        using kd by (simp_all add: s1_def recv_ok_state)
      have n: "unat (buf_len rb) - M = unat (buf_pos rb1) + unat len" if "M \<le> unat (buf_len rb)"
      proof -
        have "unat (buf_len rb - ucast (kd_hashsize kd)) = unat (buf_len rb) - M"
          using that by (simp add: unat_sub_u32 unat_ucast_byte M_def)
        then have "unat len = (if unat B \<le> unat (buf_len rb) - M then unat (buf_len rb) - M - unat B
            else 4294967296 + (unat (buf_len rb) - M) - unat B)"
          by (simp only: len_def unat_sub_u32 [of "buf_len rb - ucast (kd_hashsize kd)" B])
        then show ?thesis using b2(3) unat_lt_u32 [of "buf_len rb"] unat_lt_u32 [of B]
          by (simp add: rb1_def split: if_splits del: unat_lt_u32)
      qed
      have ok3: "buf_ok (adv b2 (unat len))" if "unat len \<le> length (buf_rest b2)" using b2(1) that by (rule buf_ok_adv)
      have "safe (\<lambda>(b', s'). buf_ok b' \<and> buf_len b' = buf_len rb \<and> (\<exists>st. s' = set_recv_state st ses) \<and> authentic pr ses rb b')
          (rbind (checkmac pr s1 (adv b2 (unat len))) (\<lambda>(mac_ok, rb). if \<not> mac_ok then Inl (Exit ''Integrity error'') else Inr (rb, s1)))"
        if "unat len \<le> length (buf_rest b2)"
      proof (rule res_sat_bindI [OF checkmac_safe [OF mk ak ok3 [OF that]]], clarify)
        fix c b4 assume b4: "unat (kd_hashsize (kc_recv (keys s1))) \<le> unat (buf_len (adv b2 (unat len)))"
          "b4 = adv b2 (unat len)\<lparr>buf_pos := buf_pos b4\<rparr>" "buf_ok b4"
          "c \<longrightarrow> take (unat (kd_hashsize (kc_recv (keys s1)))) (drop (unat (buf_len (adv b2 (unat len))) - unat (kd_hashsize (kc_recv (keys s1)))) (buf_data (adv b2 (unat len)))) =
             mac_of pr (kc_recv (keys s1)) (recvseq s1) (take (unat (buf_len (adv b2 (unat len))) - unat (kd_hashsize (kc_recv (keys s1)))) (buf_data (adv b2 (unat len))))"
        have l4: "buf_len b4 = buf_len rb" "buf_data b4 = buf_data b2" by (subst b4(2), simp add: l2)+
        have mlen: "M \<le> unat (buf_len rb)" using b4(1) by (simp add: hs l2 M_def)
        have "authentic pr ses rb b4" if "c"
          using b4(4) that mlen b2(4) n [OF mlen] unfolding authentic_def Let_def kd(1) hs by (simp add: l2 l4 M_def [symmetric]) (simp add: rb1_def)
        then show "safe (\<lambda>(b', s'). buf_ok b' \<and> buf_len b' = buf_len rb \<and> (\<exists>st. s' = set_recv_state st ses) \<and> authentic pr ses rb b')
           (if \<not> c then Inl (Exit ''Integrity error'') else Inr (b4, s1))"
          using b4(3) l4(1) by (auto simp: s1_def)
      qed
      then show "safe (\<lambda>(b', s'). buf_ok b' \<and> buf_len b' = buf_len rb \<and> (\<exists>st. s' = set_recv_state st ses) \<and> authentic pr ses rb b')
         (rbind (buf_incrpos b2 len) (\<lambda>rb. rbind (checkmac pr (set_recv_state st ses) rb) (\<lambda>(mac_ok, rb).
         if \<not> mac_ok then Inl (Exit ''Integrity error'') else Inr (rb, set_recv_state st ses))))"
        unfolding s1_def [symmetric] buf_incrpos_eq [OF b2(1)] by (cases "unat len \<le> length (buf_rest b2)") simp_all
    qed
    then show ?thesis
      using True None by (simp add: decrypt_contents_def kd(1) Let_def buf_setpos_eq B_def [symmetric] rb1_def [symmetric])
        (simp add: rb1_def len_def)
  next
    case False
    then show ?thesis using None by (simp add: decrypt_contents_def kd(1) Let_def buf_setpos_eq B_def)
  qed
qed


text \<open>The length left for the payload: a length that wrapped below zero is above the limit.\<close>

lemma payload_len:
  fixes L l :: u32 and padlen hs :: byte
  assumes "l = L - ucast padlen - 4 - 1 - ucast hs" and "\<not> l > RECV_MAX_PAYLOAD_LEN + ZLIB_COMPRESS_EXPANSION"
  shows "unat l + unat padlen + 5 + unat hs = unat L" "unat l \<le> 32789"
proof -
  show le: "unat l \<le> 32789" using assms(2) by (simp add: word_less_nat_alt unat_add_u32)
  have "l + ucast padlen + 5 + ucast hs = L" using assms(1) by simp
  then have "unat L = unat (l + ucast padlen + 5 + ucast hs)" by simp
  then show "unat l + unat padlen + 5 + unat hs = unat L"
    using le unat_lt_u8 [of padlen] unat_lt_u8 [of hs] by (simp add: unat_add_u32 unat_ucast_byte del: unat_lt_u8)
qed

lemma decrypt_packet_safe:
  assumes inv: "recv_inv pr ses" and rb: "readbuf ses = Some rb"
  defines "kd \<equiv> kc_recv (keys ses)"
  shows "safe (\<lambda>s'. recv_inv pr s' \<and> readbuf s' = None \<and> (\<exists>p. payload s' = Some p \<and> buf_ok p \<and> 1 \<le> length (buf_rest p)
       \<and> length (buf_rest p) \<le> 32789 \<and> (cm_aead_crypt (kd_crypt_mode kd) = None \<longrightarrow>
         (\<exists>clear. length clear + unat (kd_hashsize kd) = unat (buf_len rb)
            \<and> drop (length clear) (buf_body rb) = mac_of pr kd (recvseq ses) clear
            \<and> 5 + length (buf_rest p) + unat (clear ! 4) = length clear \<and> buf_rest p = take (length (buf_rest p)) (drop 5 clear)))))
     (decrypt_packet pr ses)"
proof -
  have k: "recv_ok pr kd" "decrypt_ok kd" "buf_ok rb" using inv rb by (auto simp: recv_inv_def kd_def)
  define s0 where "s0 = ses\<lparr>kexstate := (kexstate ses)\<lparr>datarecv := datarecv (kexstate ses) + buf_len rb\<rparr>\<rparr>"
  have s0: "kc_recv (keys s0) = kd" "recvseq s0 = recvseq ses" by (simp_all add: s0_def kd_def)
  define M where "M = unat (kd_hashsize kd)"
  have uM: "unat (ucast (kd_hashsize kd) :: u32) = M" by (simp add: unat_ucast_byte M_def)
  show ?thesis
    unfolding decrypt_packet_def rb option.case Let_def kd_def [symmetric] s0_def [symmetric]
  proof (rule res_sat_bindI [OF decrypt_contents_safe [OF s0(1) k]], clarify)
    fix b1 st assume b1: "buf_ok b1" "buf_len b1 = buf_len rb" "cm_aead_crypt (kd_crypt_mode kd) = None \<longrightarrow> authentic pr s0 rb b1"
    let ?Q = "\<lambda>s'. recv_inv pr s' \<and> readbuf s' = None \<and> (\<exists>p. payload s' = Some p \<and> buf_ok p \<and> 1 \<le> length (buf_rest p)
       \<and> length (buf_rest p) \<le> 32789 \<and> (cm_aead_crypt (kd_crypt_mode kd) = None \<longrightarrow>
         (\<exists>clear. length clear + unat (kd_hashsize kd) = unat (buf_len rb)
            \<and> drop (length clear) (buf_body rb) = mac_of pr kd (recvseq ses) clear
            \<and> 5 + length (buf_rest p) + unat (clear ! 4) = length clear \<and> buf_rest p = take (length (buf_rest p)) (drop 5 clear))))"
    show "safe ?Q (rbind (buf_setpos b1 PACKET_PADDING_OFF) (\<lambda>rb. rbind (buf_getbyte rb) (\<lambda>(padlen, rb).
       if RECV_MAX_PAYLOAD_LEN + ZLIB_COMPRESS_EXPANSION < buf_len rb - ucast padlen - 4 - 1 - ucast (kd_hashsize kd)
          \<or> buf_len rb - ucast padlen - 4 - 1 - ucast (kd_hashsize kd) < 1
       then Inl (Exit ''Bad packet size %u'')
       else rbind (buf_setpos rb PACKET_PAYLOAD_OFF) (\<lambda>rba. rbind (buf_setlen rba (buf_pos rba + (buf_len rb - ucast padlen - 4 - 1 - ucast (kd_hashsize kd))))
          (\<lambda>pl. Inr (set_recv_state st s0\<lparr>payload := Some pl, payload_beginning := buf_pos rba, readbuf := None,
                recvseq := recvseq (set_recv_state st s0) + 1\<rparr>))))))"
    proof (cases "4 < unat (buf_len rb)")
      case True
      define b2 where "b2 = b1\<lparr>buf_pos := 4\<rparr>"
      have ok2: "buf_ok b2" using b1(1,2) True by (simp add: b2_def buf_ok_def)
      have sp: "buf_setpos b1 4 = Inr b2" using True b1(2) by (simp add: buf_setpos_eq b2_def)
      have dl: "unat (buf_len rb) \<le> length (buf_data b1)" using b1(1,2) by (simp add: buf_ok_def)
      have hd2: "buf_rest b2 \<noteq> []" "hd (buf_rest b2) = buf_data b1 ! 4"
        using True dl by (auto simp: buf_rest_def b2_def b1(2) hd_drop_conv_nth)
      define pad where "pad = buf_data b1 ! 4"
      define l where "l = buf_len rb - ucast pad - 4 - 1 - ucast (kd_hashsize kd)"
      have gb: "buf_getbyte b2 = Inr (pad, adv b2 1)" using hd2 by (simp add: buf_getbyte_eq [OF ok2] pad_def)
      have lb: "buf_len (adv b2 1) = buf_len rb" by (simp add: b2_def b1(2))
      note run = sp rbind.simps gb prod.case lb l_def [symmetric]
      show ?thesis
      proof (cases "l > RECV_MAX_PAYLOAD_LEN + ZLIB_COMPRESS_EXPANSION \<or> l < 1")
        case True
        then show ?thesis unfolding run by simp
      next
        case False
        then have pl: "unat l + unat pad + 5 + M = unat (buf_len rb)" "unat l \<le> 32789" "1 \<le> unat l"
          using payload_len [OF l_def] by (auto simp: M_def word_less_nat_alt)
        define p where "p = b1\<lparr>buf_pos := 5, buf_len := 5 + l\<rparr>"
        have u5: "unat (5 + l) = 5 + unat l" using pl(2) by (simp add: unat_add_u32)
        have okp: "buf_ok p" using b1(1,2) pl(1) by (simp add: p_def buf_ok_def u5)
        have s5: "buf_setpos (adv b2 1) 5 = Inr (b1\<lparr>buf_pos := 5\<rparr>)" using pl b1(2) by (simp add: buf_setpos_eq b2_def adv_def)
        have sl: "buf_setlen (b1\<lparr>buf_pos := 5\<rparr>) (5 + l) = Inr p"
          using pl(1) b1(1,2) u5 by (simp add: buf_setlen_eq p_def min_def word_le_nat_alt buf_ok_def)
        have rest: "buf_rest p = take (unat l) (drop 5 (buf_data b1))" by (simp add: buf_rest_def p_def u5)
        then have lr: "length (buf_rest p) = unat l" using dl pl(1) by simp
        have au: "\<exists>clear. length clear + unat (kd_hashsize kd) = unat (buf_len rb)
            \<and> drop (length clear) (buf_body rb) = mac_of pr kd (recvseq ses) clear
            \<and> 5 + length (buf_rest p) + unat (clear ! 4) = length clear \<and> buf_rest p = take (length (buf_rest p)) (drop 5 clear)"
          if "cm_aead_crypt (kd_crypt_mode kd) = None"
        proof -
          define n where "n = unat (buf_len rb) - M"
          have a: "take M (drop n (buf_data b1)) = mac_of pr kd (recvseq ses) (take n (buf_data b1))" "drop n (buf_data b1) = drop n (buf_data rb)"
            using b1(3) [rule_format, OF that] unfolding authentic_def Let_def s0 n_def M_def by auto
          have n: "n = 5 + unat l + unat pad" using pl(1) by (simp add: n_def)
          have lc: "length (take n (buf_data b1)) = n" using dl pl(1) n by simp
          have "drop n (buf_body rb) = take M (drop n (buf_data rb))" using pl(1) n by (simp add: buf_body_def drop_take pl(1) [symmetric])
          then show ?thesis
            using a lc lr rest n pl(1) by (intro exI [of _ "take n (buf_data b1)"]) (simp add: M_def pad_def take_drop [symmetric] drop_take)
        qed
        have "recv_inv pr (set_recv_state st s0\<lparr>payload := Some p, payload_beginning := 5, readbuf := None, recvseq := recvseq ses + 1\<rparr>)"
          using k s0 by (simp add: recv_inv_def recv_ok_state)
        then show ?thesis
          unfolding run if_not_P [OF False] s5 using okp lr pl(2,3) au by (simp add: sl s0)
      qed
    next
      case False
      show ?thesis
      proof (cases "unat (buf_len rb) = 4")
        case True
        define b2 where "b2 = b1\<lparr>buf_pos := 4\<rparr>"
        have "buf_ok b2" "buf_rest b2 = []" using b1(1,2) True by (simp_all add: b2_def buf_ok_def buf_rest_def)
        then show ?thesis using True b1(2) by (simp add: buf_setpos_eq b2_def [symmetric] buf_getbyte_eq)
      qed (use False b1(2) in \<open>simp add: buf_setpos_eq\<close>)
    qed
  qed
qed

lemma sock_read_facts:
  "sock_read n ses = (r, s') \<Longrightarrow> s' = ses\<lparr>socket_input := socket_input s'\<rparr> \<and> (\<forall>bs. r = Read_bytes bs \<longrightarrow> length bs \<le> n)"
  by (auto simp: sock_read_def split: list.splits read_result.splits)

lemma recv_inv_input: "s' = ses\<lparr>socket_input := socket_input s'\<rparr> \<Longrightarrow> recv_inv pr s' = recv_inv pr ses"
  "s' = ses\<lparr>socket_input := socket_input s'\<rparr> \<Longrightarrow> payload s' = payload ses \<and> readbuf s' = readbuf ses \<and> keys s' = keys ses"
  by (erule ssubst, simp add: recv_inv_def)+

lemma recv_inv_readbuf: "recv_inv pr ses \<Longrightarrow> buf_ok b \<Longrightarrow> recv_inv pr (ses\<lparr>readbuf := Some b\<rparr>)"
  "recv_inv pr ses \<Longrightarrow> recv_inv pr (set_recv_state st ses)"
  by (simp_all add: recv_inv_def recv_ok_state)

text \<open>Storing what was read at a position with room for it.\<close>

lemma store_read:
  assumes "buf_ok b" and "length bs \<le> unat l" and "unat (buf_pos b) + unat l \<le> unat (buf_size b)"
  shows "\<exists>d. wr_mem (buf_data b) (unat (buf_pos b)) bs = Inr d \<and> buf_ok (b\<lparr>buf_data := d\<rparr>)"
  using assms by (simp add: wr_mem_def buf_ok_def)

lemma packet_length_safe:
  assumes kd: "recv_inv pr ses" and ok: "buf_ok rb"
  shows "safe (\<lambda>(len, plen, b', s'). buf_ok b' \<and> (\<exists>st. s' = set_recv_state st ses)) (packet_length ses rb)"
proof -
  define kd where "kd = kc_recv (keys ses)"
  have k: "decrypt_ok kd" using assms(1) by (simp add: recv_inv_def kd_def)
  show ?thesis
  proof (cases "cm_aead_crypt (kd_crypt_mode kd)")
    case None
    have f: "\<And>bs out st'. cm_decrypt (kd_crypt_mode kd) (kd_cipher_state kd) bs = Some (out, st') \<Longrightarrow> length out = length bs"
      using k unfolding decrypt_ok_def by metis
    show ?thesis
      unfolding packet_length_def kd_def [symmetric] Let_def None option.case
    proof (rule res_sat_bindI [OF crypt_inplace_safe [OF ok]], erule f, clarify)
      fix st b assume "buf_ok b"
      then show "safe (\<lambda>(len, plen, b', s'). buf_ok b' \<and> (\<exists>st. s' = set_recv_state st ses))
         (rbind (buf_getint b) (\<lambda>(v, rb). Inr (v + 4 + ucast (kd_hashsize kd), v + 4, rb, set_recv_state st ses)))"
        by (rule res_sat_bindI [OF buf_getint_contract]) auto
    qed
  next
    case (Some f)
    have "rd_mem (buf_data rb) r (unat l) \<noteq> Inl e" if "r + unat l \<le> unat (buf_len rb)" for r l e
      using that ok by (simp add: rd_mem_def buf_ok_def)
    then show ?thesis
      unfolding packet_length_def kd_def [symmetric] Let_def Some option.case
      using ok by (intro res_sat_bindI [OF buf_getptr_contract [OF ok]])
        (auto simp: res_sat_iff rbind_eq_Inl split: option.splits)
  qed
qed

lemma read_packet_init_safe:
  assumes inv: "recv_inv pr ses"
  shows "safe (\<lambda>(ready, s'). recv_inv pr s' \<and> readbuf s' \<noteq> None \<and> payload s' = payload ses) (read_packet_init junk ses)"
proof -
  define kd where "kd = kc_recv (keys ses)"
  define B :: u32 where "B = ucast (kd_blocksize kd)"
  have nz: "B \<noteq> 0" using inv by (auto simp: recv_inv_def recv_ok_def B_def kd_def u32_eq_iff unat_ucast_byte)
  have start: "safe buf_ok (case readbuf ses of None \<Rightarrow> buf_new INIT_READBUF | Some b \<Rightarrow> Inr b)"
    using inv res_sat_mono [OF buf_new_contract] by (auto simp: recv_inv_def split: option.splits)
  let ?Q = "\<lambda>(ready, s'). recv_inv pr s' \<and> readbuf s' \<noteq> None \<and> payload s' = payload ses"
  let ?tail = "\<lambda>(len, plen, rb, ses).
      if len > RECV_MAX_PACKET_LEN \<or> plen < B then Inl (Exit ''Integrity error (bad packet size %u)'')
      else rbind (umod plen B) (\<lambda>m. if m \<noteq> 0 then Inl (Exit ''Integrity error (bad packet size %u)'')
        else rbind (if len > buf_size rb then buf_resize junk rb len else Inr rb) (\<lambda>rb.
             rbind (buf_setlen rb len) (\<lambda>rb. rbind (buf_setpos rb B) (\<lambda>rb. Inr (True, ses\<lparr>readbuf := Some rb\<rparr>)))))"
  have fin: "safe ?Q (?tail (len, plen, rb, s1))" if "buf_ok rb" "recv_inv pr s1" "payload s1 = payload ses" for len plen rb s1
  proof -
    have "safe buf_ok (if len > buf_size rb then buf_resize junk rb len else Inr rb)" using that(1) buf_resize_contract by simp
    then have "safe ?Q (rbind (if len > buf_size rb then buf_resize junk rb len else Inr rb) (\<lambda>rb.
             rbind (buf_setlen rb len) (\<lambda>rb. rbind (buf_setpos rb B) (\<lambda>rb. Inr (True, s1\<lparr>readbuf := Some rb\<rparr>)))))"
      by (rule res_sat_bindI, intro res_sat_bindI [OF buf_setlen_contract] res_sat_bindI [OF buf_setpos_contract])
        (auto simp: that recv_inv_readbuf)
    then show ?thesis using nz by (simp add: umod_def)
  qed
  let ?got = "\<lambda>bs rb rba s1. if of_nat (length bs) \<noteq> B - buf_pos rb then Inr (False, s1\<lparr>readbuf := Some rba\<rparr>)
         else rbind (buf_setpos rba 0) (\<lambda>rb. rbind (packet_length s1 rb) ?tail)"
  have got: "safe ?Q (?got bs rb rba s1)" if "buf_ok rba" "recv_inv pr s1" "payload s1 = payload ses" for bs rb rba s1
  proof -
    have "safe ?Q (?tail x)" if "case x of (len, plen, b', s') \<Rightarrow> buf_ok b' \<and> (\<exists>st. s' = set_recv_state st s1)" for x
      using fin that \<open>recv_inv pr s1\<close> \<open>payload s1 = payload ses\<close>
      by (cases x) (clarify, simp only: recv_inv_readbuf set_recv_state_fields simp_thms)
    then have "safe ?Q (rbind (buf_setpos rba 0) (\<lambda>rb. rbind (packet_length s1 rb) ?tail))"
      by (intro res_sat_bindI [OF buf_setpos_contract [OF that(1)]] res_sat_bindI [OF packet_length_safe [OF that(2)]])
    then show ?thesis using that by (simp add: recv_inv_readbuf del: res_sat_rbind)
  qed
  show ?thesis
    unfolding read_packet_init_def kd_def [symmetric] B_def [symmetric] Let_def
  proof (rule res_sat_bindI [OF start], rule res_sat_bindI [OF buf_getwriteptr_contract], assumption)
    fix rb w assume rb: "buf_ok rb" and w: "w = unat (buf_pos rb) \<and> w + unat (B - buf_pos rb) \<le> unat (buf_size rb)"
    obtain r s1 where s1: "sock_read (unat (B - buf_pos rb)) ses = (r, s1)" by force
    note f = sock_read_facts [OF s1]
    have i1: "recv_inv pr s1" "payload s1 = payload ses" "kc_recv (keys s1) = kd" using f inv recv_inv_input [of s1 ses] by (auto simp: kd_def)
    have "safe ?Q (if bs = [] then svr_remoteclosed s1 else rbind (wr_mem (buf_data rb) w bs) (\<lambda>d.
        rbind (buf_incrwritepos (rb\<lparr>buf_data := d\<rparr>) (of_nat (length bs))) (\<lambda>rba. ?got bs rb rba s1)))" if rbs: "r = Read_bytes bs" for bs
    proof -
      obtain d where d: "wr_mem (buf_data rb) w bs = Inr d" "buf_ok (rb\<lparr>buf_data := d\<rparr>)"
        using store_read [OF rb, of bs "B - buf_pos rb"] f w rbs by auto
      have "safe ?Q (rbind (buf_incrwritepos (rb\<lparr>buf_data := d\<rparr>) (of_nat (length bs))) (\<lambda>rba. ?got bs rb rba s1))"
        by (rule res_sat_bindI [OF buf_incrwritepos_contract [OF d(2)]], rule got [OF _ i1(1,2)])
      then show ?thesis unfolding d(1) rbind.simps by (simp add: svr_remoteclosed_def del: res_sat_rbind)
    qed
    then show "safe ?Q (case sock_read (unat (B - buf_pos rb)) ses of (r, ses) \<Rightarrow> (case r of
       Read_bytes bs \<Rightarrow> if bs = [] then svr_remoteclosed ses else rbind (wr_mem (buf_data rb) w bs) (\<lambda>d.
         rbind (buf_incrwritepos (rb\<lparr>buf_data := d\<rparr>) (of_nat (length bs))) (\<lambda>rba. ?got bs rb rba ses))
     | Read_again \<Rightarrow> Inr (False, ses\<lparr>readbuf := Some rb\<rparr>) | Read_error \<Rightarrow> Inl (Exit ''Error reading: %s'')))"
      unfolding s1 prod.case using rb i1 by (cases r) (simp_all add: recv_inv_readbuf del: res_sat_rbind)
  qed
qed

definition payload_bounded :: "sshsession \<Rightarrow> bool" where
  "payload_bounded ses \<longleftrightarrow> (\<exists>p. payload ses = Some p \<and> buf_ok p \<and> 1 \<le> length (buf_rest p) \<and> length (buf_rest p) \<le> 32789)"

lemma read_packet_rest_safe:
  assumes inv: "recv_inv pr ses" and rb: "readbuf ses = Some rb"
  shows "safe (\<lambda>s'. recv_inv pr s' \<and> (payload s' = payload ses \<or> payload_bounded s')) (read_packet_rest pr ses)"
proof -
  have dec: "safe (\<lambda>s'. recv_inv pr s' \<and> (payload s' = payload ses \<or> payload_bounded s')) (decrypt_packet pr s1)"
    if "recv_inv pr s1" "readbuf s1 = Some b" for s1 b
    using decrypt_packet_safe [OF that] by (rule res_sat_mono) (auto simp: payload_bounded_def)
  have ok: "buf_ok rb" using inv rb by (simp add: recv_inv_def)
  define m where "m = buf_len rb - buf_pos rb"
  have um: "unat m = unat (buf_len rb) - unat (buf_pos rb)" using ok by (simp add: m_def unat_sub_u32 buf_ok_def)
  have gp: "buf_getptr rb m = Inr (unat (buf_pos rb))" using um length_buf_rest [OF ok] by (simp add: buf_getptr_eq [OF ok])
  obtain r s1 where s1: "sock_read (unat m) ses = (r, s1)" by force
  note f = sock_read_facts [OF s1]
  have i1: "recv_inv pr s1" "payload s1 = payload ses" using f inv recv_inv_input [of s1 ses] by auto
  have "safe (\<lambda>s'. recv_inv pr s' \<and> (payload s' = payload ses \<or> payload_bounded s'))
     (if bs = [] then svr_remoteclosed s1 else rbind (wr_mem (buf_data rb) (unat (buf_pos rb)) bs) (\<lambda>d.
        rbind (buf_incrpos (rb\<lparr>buf_data := d\<rparr>) (of_nat (length bs))) (\<lambda>rb.
        if of_nat (length bs) = m then decrypt_packet pr (s1\<lparr>readbuf := Some rb\<rparr>) else Inr (s1\<lparr>readbuf := Some rb\<rparr>))))"
    if rbs: "r = Read_bytes bs" for bs
  proof -
    obtain d where d: "wr_mem (buf_data rb) (unat (buf_pos rb)) bs = Inr d" "buf_ok (rb\<lparr>buf_data := d\<rparr>)"
      using store_read [OF ok, of bs m] f rbs um ok by (auto simp: buf_ok_def)
    have "safe (\<lambda>s'. recv_inv pr s' \<and> (payload s' = payload ses \<or> payload_bounded s'))
        (rbind (buf_incrpos (rb\<lparr>buf_data := d\<rparr>) (of_nat (length bs))) (\<lambda>rb.
         if of_nat (length bs) = m then decrypt_packet pr (s1\<lparr>readbuf := Some rb\<rparr>) else Inr (s1\<lparr>readbuf := Some rb\<rparr>)))"
      using dec i1 by (intro res_sat_bindI [OF buf_incrpos_contract [OF d(2)]]) (simp add: recv_inv_readbuf)
    then show ?thesis unfolding d(1) rbind.simps by (simp add: svr_remoteclosed_def del: res_sat_rbind)
  qed
  then show ?thesis
    unfolding read_packet_rest_def rb option.case Let_def m_def [symmetric] gp rbind.simps s1 prod.case
    using dec [OF inv rb] i1 by (cases r) (simp_all del: res_sat_rbind)
qed

text \<open>
  C6. No bytes a peer can send make the receiver misbehave: from every state reached, for every answer of
  the socket and every result of the ciphers, \<^verbatim>\<open>read_packet\<close> returns or ends the session with an error
  message; no access leaves a buffer, no division is by zero, and what is delivered is a well-formed,
  non-empty payload within the size limit, although the length arithmetic is modulo \<open>2 ^ 32\<close>.
\<close>

theorem read_packet_memory_safe:
  assumes "recv_inv pr ses"
  shows "safe (\<lambda>s'. recv_inv pr s' \<and> (payload s' = payload ses \<or> payload_bounded s')) (read_packet pr junk ses)"
proof -
  define B :: u32 where "B = ucast (kd_blocksize (kc_recv (keys ses)))"
  have ini: "safe (\<lambda>(ready, s'). recv_inv pr s' \<and> readbuf s' \<noteq> None \<and> payload s' = payload ses)
      (case readbuf ses of None \<Rightarrow> read_packet_init junk ses
       | Some rb \<Rightarrow> if buf_len rb < B then read_packet_init junk ses else Inr (True, ses))"
    using read_packet_init_safe [OF assms] assms by (auto split: option.splits)
  show ?thesis
    unfolding read_packet_def Let_def B_def [symmetric]
  proof (rule res_sat_bindI [OF ini], clarify)
    fix ready s1 rb assume s1: "recv_inv pr s1" "payload s1 = payload ses" "readbuf s1 = Some rb"
    show "safe (\<lambda>s'. recv_inv pr s' \<and> (payload s' = payload ses \<or> payload_bounded s')) (if \<not> ready then Inr s1 else read_packet_rest pr s1)"
      using read_packet_rest_safe [OF s1(1,3)] s1 by simp
  qed
qed

theorem read_packet_memory_safe_witness:
  "\<exists>ses. common_session_init 3 4 ses_zero = Inr ses \<and> safe (\<lambda>s'. payload s' = payload ses \<or> payload_bounded s')
     (read_packet counting_primitives (\<lambda>_. 0) (ses\<lparr>socket_input := [Read_bytes [255, 255, 255, 252, 0, 0, 0, 0]]\<rparr>))"
proof -
  obtain ses where s: "common_session_init 3 4 ses_zero = Inr ses"
    using common_session_init_eq [OF counting_random_ok, of 3 4] by blast
  let ?s = "ses\<lparr>socket_input := [Read_bytes [255, 255, 255, 252, 0, 0, 0, 0]]\<rparr>"
  have "recv_inv counting_primitives ?s"
    using s by (auto simp: common_session_init_def buf_new_def Let_def recv_inv_def recv_ok_def decrypt_ok_def mac_ok_def
        no_keys_directional_def dropbear_nocipher_def dropbear_nohash_def dropbear_mode_none_def void_cipher_def)
  from read_packet_memory_safe [OF this, of "\<lambda>_. 0"] have "safe (\<lambda>s'. payload s' = payload ses \<or> payload_bounded s')
      (read_packet counting_primitives (\<lambda>_. 0) ?s)" by (rule res_sat_mono) simp
  with s show ?thesis by blast
qed

text \<open>
  C7. Only authentic packets are delivered: when a MAC is used and \<^verbatim>\<open>decrypt_packet\<close> delivers a payload, the
  bytes that arrived end with the MAC, under the receiving key and sequence number, of the clear packet
  the payload was cut from, and the payload is all of that packet between its header and the padding the
  packet itself declares.
\<close>

theorem payload_is_authentic:
  assumes "recv_inv pr ses" and "readbuf ses = Some rb" and "cm_aead_crypt (kd_crypt_mode (kc_recv (keys ses))) = None"
    and "decrypt_packet pr ses = Inr ses'"
  shows "\<exists>p clear. payload ses' = Some p \<and> length clear + unat (kd_hashsize (kc_recv (keys ses))) = unat (buf_len rb)
     \<and> drop (length clear) (buf_body rb) = mac_of pr (kc_recv (keys ses)) (recvseq ses) clear
     \<and> 5 + length (buf_rest p) + unat (clear ! 4) = length clear \<and> buf_rest p = take (length (buf_rest p)) (drop 5 clear)"
  using res_sat_Inr [OF decrypt_packet_safe [OF assms(1,2)] assms(4)] assms(3) by blast

text \<open>The key of the witness: HMAC whose value is the first byte after the sequence number, on one byte of tag.\<close>

definition echo_primitives :: primitives where
  "echo_primitives = counting_primitives\<lparr>p_hmac := (\<lambda>_ _ bs. Some (take 1 (drop 9 bs @ [0])))\<rparr>"

definition echo_session :: sshsession where
  "echo_session = ses_zero\<lparr>keys := (keys ses_zero)\<lparr>kc_recv := no_keys_directional\<lparr>kd_algo_mac := \<lparr>dh_hash_desc = None, dh_keysize = 16, dh_hashsize = 1\<rparr>\<rparr>\<rparr>,
     readbuf := Some \<lparr>buf_data = [0, 0, 0, 12, 10, 42, 0, 0, 0, 0, 0, 0, 0, 0, 0, 0, 42], buf_len = 17, buf_pos = 17, buf_size = 17\<rparr>\<rparr>"

theorem payload_is_authentic_witness:
  "\<exists>ses' p clear. decrypt_packet echo_primitives echo_session = Inr ses' \<and> payload ses' = Some p \<and> length clear = 16
     \<and> [42] = mac_of echo_primitives (kc_recv (keys echo_session)) 0 clear \<and> 5 + length (buf_rest p) + unat (clear ! 4) = 16"
proof -
  let ?rb = "\<lparr>buf_data = [0, 0, 0, 12, 10, 42, 0, 0, 0, 0, 0, 0, 0, 0, 0, 0, 42], buf_len = 17, buf_pos = 17, buf_size = 17\<rparr> :: buffer"
  have inv: "recv_inv echo_primitives echo_session" and rb: "readbuf echo_session = Some ?rb"
      and none: "cm_aead_crypt (kd_crypt_mode (kc_recv (keys echo_session))) = None"
    by (auto simp: echo_session_def ses_zero_def recv_inv_def recv_ok_def decrypt_ok_def mac_ok_def echo_primitives_def
        no_keys_directional_def dropbear_nocipher_def dropbear_nohash_def dropbear_mode_none_def void_cipher_def buf_ok_def)
  have seq: "recvseq echo_session = 0" "kd_hashsize (kc_recv (keys echo_session)) = 1" by (simp_all add: echo_session_def ses_zero_def)
  have "\<not> isl (decrypt_packet echo_primitives echo_session)" by code_simp
  then obtain ses' where d: "decrypt_packet echo_primitives echo_session = Inr ses'" by (cases "decrypt_packet echo_primitives echo_session") auto
  obtain p clear where "payload ses' = Some p" "length clear = 16"
      "drop (length clear) (buf_body ?rb) = mac_of echo_primitives (kc_recv (keys echo_session)) 0 clear"
      "5 + length (buf_rest p) + unat (clear ! 4) = length clear"
    using payload_is_authentic [OF inv rb none d] seq by auto
  with d show ?thesis by (auto simp: buf_body_def)
qed

end
