(* ===== verification/Algo.thy ===== *)
theory Algo
  imports Session
begin

text \<open>
  Algorithm name lists, src/dropbear/src/common-algo.c: writing the comma-separated list of usable
  names, splitting a peer's list, choosing the algorithm both ends support, and filtering the list a
  user gives on the command line. The two ends of a negotiation are shown to choose the same name.
\<close>

section \<open>Lists of names\<close>

abbreviation MAX_PROPOSED_ALGO :: nat where "MAX_PROPOSED_ALGO \<equiv> 50"
abbreviation comma :: byte where "comma \<equiv> 44"

text \<open>The loop of \<^verbatim>\<open>buf_put_algolist_all\<close>; the second argument is \<^verbatim>\<open>donefirst\<close>.\<close>

fun put_algos :: "bool \<Rightarrow> bool \<Rightarrow> 'd algo_type list \<Rightarrow> buffer \<Rightarrow> buffer res" where
  "put_algos useall donefirst [] buf = Inr buf"
| "put_algos useall donefirst (a # as) buf = (if al_usable a \<or> useall then
     rbind (if donefirst then buf_putbyte buf comma else Inr buf) (\<lambda>buf.
     rbind (buf_putbytes buf (al_name a) (of_nat (length (al_name a)))) (\<lambda>buf. put_algos useall True as buf))
   else put_algos useall donefirst as buf)"

definition buf_put_algolist_all :: "buffer \<Rightarrow> 'd algo_type list \<Rightarrow> bool \<Rightarrow> buffer res" where
  "buf_put_algolist_all buf localalgos useall = (let startpos = buf_pos buf in
     rbind (buf_putint buf 0) (\<lambda>buf.
     rbind (put_algos useall False localalgos buf) (\<lambda>buf.
     let len = buf_pos buf - startpos - 4 in
     rbind (buf_setpos buf startpos) (\<lambda>buf.
     rbind (buf_putint buf len) (\<lambda>buf. buf_incrwritepos buf len)))))"

definition buf_put_algolist :: "buffer \<Rightarrow> 'd algo_type list \<Rightarrow> buffer res" where
  "buf_put_algolist buf localalgos = buf_put_algolist_all buf localalgos False"

text \<open>
  \<^verbatim>\<open>get_algolist\<close> overwrites each comma with a null byte and collects pointers to the names; a pointer is
  given here as the string it points to. \<open>names\<close> are the complete ones, \<open>cur\<close> is the part of the last one
  that was passed. The check of \<^verbatim>\<open>algolist_len\<close> sets a count that is overwritten by the next assignment.
\<close>

fun algolist_loop :: "nat \<Rightarrow> byte list list \<Rightarrow> byte list \<Rightarrow> byte list \<Rightarrow> byte list list res" where
  "algolist_loop max_count names cur [] = Inr (names @ [cur])"
| "algolist_loop max_count names cur (c # cs) =
     (if c = 0 then Inr []
      else if c = comma then
        (if length names + 1 \<ge> max_count then Inl (Exit ''Too many remote algorithms'')
         else algolist_loop max_count (names @ [cur]) [] cs)
      else algolist_loop max_count names (cur @ [c]) cs)"

definition get_algolist :: "byte list \<Rightarrow> nat \<Rightarrow> byte list list res" where
  "get_algolist algolist max_count = (if max_count = 0 then Inr [] else algolist_loop max_count [] [] algolist)"

definition buf_has_algo :: "buffer \<Rightarrow> byte list \<Rightarrow> (bool \<times> buffer) res" where
  "buf_has_algo buf algo = (let orig_pos = buf_pos buf in
     rbind (buf_getstring buf) (\<lambda>(algolist, len, buf).
     rbind (get_algolist algolist MAX_PROPOSED_ALGO) (\<lambda>remotenames.
     rbind (buf_setpos buf orig_pos) (\<lambda>buf.
     Inr (list_ex (\<lambda>n. n = algo) remotenames, buf)))))"

fun first_usable_algo :: "'d algo_type list \<Rightarrow> 'd algo_type option" where
  "first_usable_algo [] = None"
| "first_usable_algo (a # as) = (if al_usable a then Some a else first_usable_algo as)"

text \<open>The two nested loops of \<^verbatim>\<open>buf_match_algo\<close>; an unusable local algorithm is \<open>None\<close>.\<close>

fun match_inner :: "byte list option \<Rightarrow> byte list option list \<Rightarrow> nat \<Rightarrow> nat option" where
  "match_inner cli [] j = None"
| "match_inner cli (serv # servs) j =
     (if serv = None \<or> cli = None then match_inner cli servs (Suc j)
      else if serv = cli then Some j else match_inner cli servs (Suc j))"

fun match_outer :: "byte list option list \<Rightarrow> byte list option list \<Rightarrow> nat \<Rightarrow> (nat \<times> nat) option" where
  "match_outer [] servs i = None"
| "match_outer (cli # clis) servs i = (case match_inner cli servs 0 of
     Some j \<Rightarrow> Some (i, j) | None \<Rightarrow> match_outer clis servs (Suc i))"

text \<open>
  The result is the index of the chosen entry of \<open>localalgos\<close>, the value of \<^verbatim>\<open>*goodguess\<close> and the buffer.
  \<^verbatim>\<open>localnames\<close> has room for \<^verbatim>\<open>MAX_PROPOSED_ALGO\<close> entries.
\<close>

definition buf_match_algo :: "bool \<Rightarrow> buffer \<Rightarrow> 'd algo_type list \<Rightarrow> bool \<Rightarrow> (nat option \<times> bool \<times> buffer) res" where
  "buf_match_algo is_server buf localalgos kexguess2 =
     rbind (buf_getstring buf) (\<lambda>(algolist, len, buf).
     rbind (get_algolist algolist MAX_PROPOSED_ALGO) (\<lambda>remotenames.
     if length localalgos > MAX_PROPOSED_ALGO then Inl Mem_fault else
     let remote = map Some remotenames;
         localnames = map (\<lambda>a. if al_usable a then Some (al_name a) else None) localalgos;
         (clinames, servnames) = (if is_server then (remote, localnames) else (localnames, remote)) in
     (case match_outer clinames servnames 0 of
       None \<Rightarrow> Inr (None, False, buf)
     | Some (i, j) \<Rightarrow> Inr (Some (if is_server then j else i), (if kexguess2 then i = 0 else i = 0 \<and> j = 0), buf))))"

fun check_algo :: "byte list \<Rightarrow> 'd algo_type list \<Rightarrow> 'd algo_type option" where
  "check_algo algo_name [] = None"
| "check_algo algo_name (a # as) = (if al_name a = algo_name then Some a else check_algo algo_name as)"

text \<open>
  The loop of \<^verbatim>\<open>check_user_algos\<close> over the working copy of the string with its null byte: \<open>c\<close> and \<open>start\<close> are
  the two pointers, \<open>new\<close> is \<^verbatim>\<open>new_algos\<close>. Reading at or beyond the end of the allocation is a fault. The
  log messages are outside the model.
\<close>

function user_algos_loop :: "'d algo_type list \<Rightarrow> byte list \<Rightarrow> nat \<Rightarrow> nat \<Rightarrow> 'd algo_type list \<Rightarrow> 'd algo_type list res" where
  "user_algos_loop algos wl start c new =
     (if c \<ge> length wl then Inl Mem_fault
      else if length new \<ge> MAX_PROPOSED_ALGO then Inl (Exit ''Too many algorithms %s'')
      else let oc = wl ! c in
        if oc = comma \<or> oc = 0 then
          let wl = wl[c := 0]; name = cstr (drop start wl);
              new = (case check_algo name algos of None \<Rightarrow> new
                | Some a \<Rightarrow> (case check_algo name new of Some _ \<Rightarrow> new | None \<Rightarrow> new @ [a])) in
          if oc = 0 then Inr new else user_algos_loop algos wl (c + 1) (c + 2) new
        else user_algos_loop algos wl start (c + 1) new)"
  by pat_completeness auto

termination
  by (relation "measure (\<lambda>(algos, wl, start, c, new). length wl - c)") auto

declare user_algos_loop.simps [simp del]

definition check_user_algos :: "byte list \<Rightarrow> 'd algo_type list \<Rightarrow> 'd algo_type list res" where
  "check_user_algos user_algo_list algos = user_algos_loop algos (user_algo_list @ [0]) 0 0 []"

section \<open>The list on the wire\<close>

fun join :: "byte list list \<Rightarrow> byte list" where
  "join [] = []"
| "join [n] = n"
| "join (n # ns) = n @ comma # join ns"

definition usable_names :: "'d algo_type list \<Rightarrow> byte list list" where
  "usable_names as = map al_name (filter al_usable as)"

definition algolist_wire :: "'d algo_type list \<Rightarrow> byte list" where
  "algolist_wire as = STORE32H (of_nat (length (join (usable_names as)))) @ join (usable_names as)"

text \<open>A name of the protocol: no null byte and no comma. The lists in use are far below the string limit.\<close>

definition name_ok :: "byte list \<Rightarrow> bool" where
  "name_ok n \<longleftrightarrow> n \<noteq> [] \<and> 0 \<notin> set n \<and> comma \<notin> set n"

definition table_ok :: "'d algo_type list \<Rightarrow> bool" where
  "table_ok as \<longleftrightarrow> (\<forall>a\<in>set as. name_ok (al_name a)) \<and> length as \<le> MAX_PROPOSED_ALGO \<and> usable_names as \<noteq> []
     \<and> length (join (usable_names as)) \<le> 9000"

lemma join_Cons: "join (n # ns) = n @ (if ns = [] then [] else comma # join ns)"
  by (cases ns) auto

definition sep_join :: "bool \<Rightarrow> byte list list \<Rightarrow> byte list" where
  "sep_join df ns = (if df \<and> ns \<noteq> [] then comma # join ns else join ns)"

lemma put_algos_eq:
  assumes "buf_ok b" and "unat (buf_pos b) + length (sep_join df (usable_names as)) \<le> unat (buf_size b)"
  shows "put_algos False df as b = Inr (put_at b (sep_join df (usable_names as)))"
  using assms
proof (induction as arbitrary: b df)
  case Nil
  then show ?case by (simp add: usable_names_def sep_join_def put_at_def max_absorb1 buf_ok_def word_le_nat_alt)
next
  case (Cons a as)
  show ?case
  proof (cases "al_usable a")
    case False
    then have "usable_names (a # as) = usable_names as" by (simp add: usable_names_def)
    then show ?thesis using Cons.IH [OF Cons.prems(1), of df] Cons.prems(2) False by simp
  next
    case True
    let ?n = "al_name a" and ?rest = "sep_join True (usable_names as)"
    have u: "usable_names (a # as) = ?n # usable_names as" using True by (simp add: usable_names_def)
    let ?pre = "if df then [comma] else []"
    have jn: "sep_join df (usable_names (a # as)) = ?pre @ ?n @ ?rest" by (simp add: u join_Cons sep_join_def)
    have fits: "unat (buf_pos b) + length (?pre @ ?n @ ?rest) \<le> unat (buf_size b)" using Cons.prems(2) unfolding jn .
    define b1 where "b1 = put_at b ?pre"
    have p1: "(if df then buf_putbyte b comma else Inr b) = Inr b1"
      using Cons.prems(1) fits by (auto simp: b1_def buf_putbyte_eq put_at_def max_absorb1 buf_ok_def word_le_nat_alt)
    have ok1: "buf_ok b1" using buf_ok_put_at [OF Cons.prems(1), of ?pre] fits by (simp add: b1_def)
    have pos1: "unat (buf_pos b1) = unat (buf_pos b) + length ?pre" "buf_size b1 = buf_size b"
      using put_at_fields [OF Cons.prems(1), of ?pre] fits by (simp_all add: b1_def)
    have nl: "unat (of_nat (length ?n) :: u32) = length ?n"
      using fits Cons.prems(1) by (subst unat_of_nat_u32) (auto simp: buf_ok_def)
    define b2 where "b2 = put_at b1 ?n"
    have p2: "buf_putbytes b1 ?n (of_nat (length ?n)) = Inr b2"
      using buf_putbytes_eq [OF ok1, of "of_nat (length ?n)" ?n] fits pos1 nl by (simp add: b2_def)
    have ok2: "buf_ok b2" using buf_ok_put_at [OF ok1, of ?n] fits pos1 by (simp add: b2_def)
    have pos2: "unat (buf_pos b2) = unat (buf_pos b1) + length ?n" "buf_size b2 = buf_size b"
      using put_at_fields [OF ok1, of ?n] fits pos1 by (simp_all add: b2_def)
    have "put_algos False True as b2 = Inr (put_at b2 ?rest)"
      using Cons.IH [OF ok2, of True] fits pos1 pos2 by simp
    moreover have "put_at b2 ?rest = put_at b (?pre @ ?n @ ?rest)"
      using put_at_put_at [OF ok1, of ?n ?rest] put_at_put_at [OF Cons.prems(1), of ?pre "?n @ ?rest"] fits pos1
      by (simp add: b2_def b1_def)
    ultimately show ?thesis using True p1 p2 unfolding jn by simp
  qed
qed


lemma buf_put_algolist_eq:
  assumes ok: "buf_ok b" and fits: "unat (buf_pos b) + length (algolist_wire as) \<le> unat (buf_size b)"
  shows "buf_put_algolist b as = Inr (put_at b (algolist_wire as))"
proof -
  let ?J = "join (usable_names as)"
  define J where "J = ?J"
  have f: "unat (buf_pos b) + 4 + length J \<le> unat (buf_size b)" using fits by (simp add: algolist_wire_def J_def)
  have sz: "unat (buf_size b) \<le> 1000000000" "length (buf_data b) = unat (buf_size b)" "unat (buf_pos b) \<le> unat (buf_len b)"
      "unat (buf_len b) \<le> unat (buf_size b)" using ok by (simp_all add: buf_ok_def)
  define b1 where "b1 = put_at b (STORE32H 0)"
  have ok1: "buf_ok b1" using buf_ok_put_at [OF ok, of "STORE32H 0"] f by (simp add: b1_def)
  have p1: "unat (buf_pos b1) = unat (buf_pos b) + 4" "buf_size b1 = buf_size b"
    using put_at_fields [OF ok, of "STORE32H 0"] f by (simp_all add: b1_def)
  have pa: "put_algos False False as b1 = Inr (put_at b1 J)"
    using put_algos_eq [OF ok1, of False as] f p1 by (simp add: sep_join_def J_def)
  define b2 where "b2 = put_at b (STORE32H 0 @ J)"
  have b2: "put_at b1 J = b2" using put_at_put_at [OF ok, of "STORE32H 0" J] f by (simp add: b1_def b2_def)
  have ok2: "buf_ok b2" using buf_ok_put_at [OF ok, of "STORE32H 0 @ J"] f by (simp add: b2_def)
  have p2: "unat (buf_pos b2) = unat (buf_pos b) + 4 + length J" "unat (buf_len b2) = max (unat (buf_len b)) (unat (buf_pos b) + 4 + length J)"
      "buf_size b2 = buf_size b"
    using put_at_fields [OF ok, of "STORE32H 0 @ J"] f by (simp_all add: b2_def)
  have uJ: "unat (of_nat (length J) :: u32) = length J" using f sz by (subst unat_of_nat_u32) simp
  have len: "buf_pos b2 - buf_pos b - 4 = of_nat (length J)"
    by (simp add: b2_def put_at_def)
  define b3 where "b3 = b2\<lparr>buf_pos := buf_pos b\<rparr>"
  have sp: "buf_setpos b2 (buf_pos b) = Inr b3" using p2 by (simp add: buf_setpos_eq b3_def)
  have ok3: "buf_ok b3" using ok2 p2 by (simp add: b3_def buf_ok_def)
  define b4 where "b4 = put_at b3 (STORE32H (of_nat (length J)))"
  have pi: "buf_putint b3 (of_nat (length J)) = Inr b4" using f p2 by (simp add: buf_putint_eq [OF ok3] b4_def) (simp add: b3_def)
  have ok4: "buf_ok b4" using buf_ok_put_at [OF ok3, of "STORE32H (of_nat (length J))"] f p2 by (simp add: b4_def b3_def)
  have p4: "unat (buf_pos b4) = unat (buf_pos b) + 4" "buf_size b4 = buf_size b"
    using put_at_fields [OF ok3, of "STORE32H (of_nat (length J))"] f p2 by (simp_all add: b4_def b3_def)
  have "buf_incrwritepos b4 (of_nat (length J)) = Inr (put_at b (STORE32H (of_nat (length J)) @ J))"
  proof -
    have "buf_incrwritepos b4 (of_nat (length J)) = Inr (b4\<lparr>buf_pos := buf_pos b4 + of_nat (length J),
        buf_len := max (buf_len b4) (buf_pos b4 + of_nat (length J))\<rparr>)"
      using f p4 uJ by (simp add: buf_incrwritepos_eq [OF ok4])
    moreover have "buf_data b4 = take (unat (buf_pos b)) (buf_data b) @ STORE32H (of_nat (length J)) @ J @ drop (unat (buf_pos b) + 4 + length J) (buf_data b)"
      using f sz by (simp add: b4_def b3_def b2_def put_at_def min_absorb2 add.assoc)
    moreover have "buf_pos b4 + of_nat (length J) = buf_pos b + of_nat (4 + length J)" by (simp add: b4_def b3_def put_at_def)
    moreover have "max (buf_len b4) (buf_pos b4 + of_nat (length J)) = max (buf_len b) (buf_pos b + of_nat (4 + length J))"
    proof -
      have u: "unat (buf_pos b + of_nat (4 + length J)) = unat (buf_pos b) + 4 + length J" using p2(1) by (simp add: b2_def put_at_def)
      have "unat (buf_len b4) = max (unat (buf_len b2)) (unat (buf_pos b) + 4)"
        using put_at_fields(2) [OF ok3, of "STORE32H (of_nat (length J))"] f p2 by (simp add: b4_def b3_def)
      then show ?thesis using u calculation(3) p2(2) by (simp only: u32_eq_iff unat_max_u32)
    qed
    ultimately show ?thesis by (simp add: put_at_def b4_def b3_def b2_def add.assoc)
  qed
  then show ?thesis
    using f unfolding algolist_wire_def J_def [symmetric]
    by (simp add: buf_put_algolist_def buf_put_algolist_all_def Let_def buf_putint_eq [OF ok] b1_def [symmetric] pa b2 len sp pi)
qed


section \<open>Reading a list\<close>

lemma algolist_loop_word:
  "0 \<notin> set w \<Longrightarrow> comma \<notin> set w \<Longrightarrow> algolist_loop m ns cur (w @ rest) = algolist_loop m ns (cur @ w) rest"
  by (induction w arbitrary: cur) auto

lemma algolist_loop_join:
  assumes "\<forall>n\<in>set (x # xs). 0 \<notin> set n \<and> comma \<notin> set n" and "length ns + length (x # xs) \<le> m"
  shows "algolist_loop m ns [] (join (x # xs)) = Inr (ns @ x # xs)"
  using assms
proof (induction xs arbitrary: x ns)
  case Nil
  then show ?case using algolist_loop_word [of x m ns "[]" "[]"] by simp
next
  case (Cons y ys)
  have "algolist_loop m ns [] (x @ comma # join (y # ys)) = algolist_loop m (ns @ [x]) [] (join (y # ys))"
    using Cons.prems algolist_loop_word [of x m ns "[]" "comma # join (y # ys)"] by simp
  then show ?case using Cons.IH [of y "ns @ [x]"] Cons.prems by simp
qed

lemma get_algolist_join:
  assumes "ns \<noteq> []" and "\<forall>n\<in>set ns. name_ok n" and "length ns \<le> MAX_PROPOSED_ALGO"
  shows "get_algolist (join ns) MAX_PROPOSED_ALGO = Inr ns"
  using assms algolist_loop_join [of "hd ns" "tl ns" "[]" MAX_PROPOSED_ALGO]
  by (cases ns) (auto simp: get_algolist_def name_ok_def)

section \<open>Choosing\<close>

lemma match_inner_None [simp]: "match_inner None servs j = None"
  by (induction servs arbitrary: j) auto

lemma match_inner_Some:
  "match_inner (Some n) servs j = Some k \<Longrightarrow> j \<le> k \<and> k - j < length servs \<and> servs ! (k - j) = Some n"
proof (induction servs arbitrary: j)
  case (Cons s ss)
  show ?case
  proof (cases "s = Some n")
    case False
    then have "match_inner (Some n) ss (Suc j) = Some k" using Cons.prems by (simp split: if_splits)
    from Cons.IH [OF this] have "Suc j \<le> k" "k - j = Suc (k - Suc j)" "k - Suc j < length ss" "ss ! (k - Suc j) = Some n" by auto
    then show ?thesis by simp
  qed (use Cons.prems in simp)
qed simp

lemma match_inner_iff: "(\<exists>k. match_inner (Some n) servs j = Some k) \<longleftrightarrow> Some n \<in> set servs"
  by (induction servs arbitrary: j) auto

text \<open>
  The loops find the first client name the server has too: an index in the client's list with that name,
  and an index in the server's.
\<close>

lemma match_outer_eq:
  "match_outer clis servs i = None \<longleftrightarrow> find (\<lambda>c. Some c \<in> set servs) (map the (filter (\<lambda>c. c \<noteq> None) clis)) = None"
  "match_outer clis servs i = Some (k, j) \<Longrightarrow> i \<le> k \<and> k - i < length clis \<and> j < length servs
     \<and> (\<exists>n. clis ! (k - i) = Some n \<and> servs ! j = Some n \<and> find (\<lambda>c. Some c \<in> set servs) (map the (filter (\<lambda>c. c \<noteq> None) clis)) = Some n)"
proof (induction clis arbitrary: i)
  case (Cons c cs)
  {
    case 1
    show ?case
    proof (cases c)
      case (Some n)
      then show ?thesis using Cons.IH(1) match_inner_iff [of n servs 0] by (cases "match_inner (Some n) servs 0") auto
    qed (use Cons.IH(1) in simp)
  next
    case 2
    show ?case
    proof (cases "match_inner c servs 0")
      case None
      then have "c = None \<or> (\<exists>n. c = Some n \<and> Some n \<notin> set servs)" using match_inner_iff [of "the c" servs 0] by (cases c) auto
      moreover have "match_outer cs servs (Suc i) = Some (k, j)" using 2 None by simp
      ultimately show ?thesis using Cons.IH(2) [of "Suc i"] by (auto simp: Suc_diff_Suc nth_Cons' Suc_le_eq)
    next
      case (Some m)
      then obtain n where n: "c = Some n" by (cases c) auto
      then show ?thesis using 2 Some match_inner_Some [of n servs 0 m] nth_mem by fastforce
    qed
  }
qed auto


text \<open>What the code's choice comes to, on both sides of the connection.\<close>

lemma the_usable: "map the (filter (\<lambda>c. c \<noteq> None) (map (\<lambda>a. if al_usable a then Some (al_name a) else None) as)) = usable_names as"
  by (induction as) (auto simp: usable_names_def)

lemma usable_set: "Some n \<in> set (map (\<lambda>a. if al_usable a then Some (al_name a) else None) as) \<longleftrightarrow> n \<in> set (usable_names as)"
  by (induction as) (auto simp: usable_names_def)

definition agreed :: "'d algo_type list \<Rightarrow> 'e algo_type list \<Rightarrow> byte list option" where
  "agreed cli srv = find (\<lambda>n. n \<in> set (usable_names srv)) (usable_names cli)"

definition chosen :: "'d algo_type list \<Rightarrow> nat option \<Rightarrow> byte list option \<Rightarrow> bool" where
  "chosen as r n \<longleftrightarrow> (case r of None \<Rightarrow> n = None | Some j \<Rightarrow> j < length as \<and> al_usable (as ! j) \<and> n = Some (al_name (as ! j)))"

lemma length_usable: "length (usable_names as) \<le> length as"
  by (simp add: usable_names_def)

lemma read_names:
  assumes b: "buf_ok b" "buf_rest b = algolist_wire as @ tail" and t: "table_ok as"
  shows "buf_getstring b = Inr (join (usable_names as), of_nat (length (join (usable_names as))), adv b (length (algolist_wire as)))"
    and "get_algolist (join (usable_names as)) MAX_PROPOSED_ALGO = Inr (usable_names as)"
proof -
  show "buf_getstring b = Inr (join (usable_names as), of_nat (length (join (usable_names as))), adv b (length (algolist_wire as)))"
    using buf_getstring_wire [OF b(1), of "join (usable_names as)" tail] b(2) t by (simp add: table_ok_def algolist_wire_def)
  have "length (usable_names as) \<le> MAX_PROPOSED_ALGO" using t length_usable [of as] by (simp add: table_ok_def)
  moreover have "\<forall>n\<in>set (usable_names as). name_ok n" using t by (auto simp: table_ok_def usable_names_def)
  ultimately show "get_algolist (join (usable_names as)) MAX_PROPOSED_ALGO = Inr (usable_names as)"
    using get_algolist_join t by (simp add: table_ok_def)
qed

lemma match_algo_server:
  assumes b: "buf_ok b" "buf_rest b = algolist_wire cli @ tail" and t: "table_ok cli" "length srv \<le> MAX_PROPOSED_ALGO"
  shows "\<exists>r g. buf_match_algo True b srv kexguess2 = Inr (r, g, adv b (length (algolist_wire cli))) \<and> chosen srv r (agreed cli srv)"
proof -
  define sn where "sn = map (\<lambda>a. if al_usable a then Some (al_name a) else None) srv"
  have cl: "map the (filter (\<lambda>c. c \<noteq> None) (map Some ns)) = ns" for ns :: "byte list list" by (induction ns) auto
  have fd: "find (\<lambda>c. Some c \<in> set sn) ns = find (\<lambda>n. n \<in> set (usable_names srv)) ns" for ns
    by (simp add: sn_def usable_set del: set_map)
  show ?thesis
  proof (cases "match_outer (map Some (usable_names cli)) sn 0")
    case None
    then have "agreed cli srv = None" using match_outer_eq(1) [of "map Some (usable_names cli)" sn 0] unfolding cl fd agreed_def by simp
    with None show ?thesis
      using read_names [OF b t(1)] t(2) by (intro exI [of _ None] exI [of _ False]) (simp add: buf_match_algo_def Let_def sn_def [symmetric] chosen_def)
  next
    case (Some kj)
    obtain k j where kj: "kj = (k, j)" by force
    from match_outer_eq(2) [OF Some [unfolded kj]] obtain n where
      n: "j < length sn" "sn ! j = Some n" "agreed cli srv = Some n" unfolding cl fd agreed_def by auto
    then have "al_usable (srv ! j)" "al_name (srv ! j) = n" "j < length srv" by (auto simp: sn_def split: if_splits)
    then show ?thesis
      using read_names [OF b t(1)] t(2) Some kj n(3) by (simp add: buf_match_algo_def Let_def sn_def [symmetric] chosen_def)
  qed
qed

lemma match_algo_client:
  assumes b: "buf_ok b" "buf_rest b = algolist_wire srv @ tail" and t: "table_ok srv" "length cli \<le> MAX_PROPOSED_ALGO"
  shows "\<exists>r g. buf_match_algo False b cli kexguess2 = Inr (r, g, adv b (length (algolist_wire srv))) \<and> chosen cli r (agreed cli srv)"
proof -
  define cn where "cn = map (\<lambda>a. if al_usable a then Some (al_name a) else None) cli"
  have fd: "find (\<lambda>c. Some c \<in> set (map Some (usable_names srv))) ns = find (\<lambda>n. n \<in> set (usable_names srv)) ns" for ns
    by (simp add: image_iff)
  note cl = the_usable [of cli, folded cn_def]
  show ?thesis
  proof (cases "match_outer cn (map Some (usable_names srv)) 0")
    case None
    then have "agreed cli srv = None" using match_outer_eq(1) [of cn "map Some (usable_names srv)" 0] unfolding cl fd agreed_def by simp
    with None show ?thesis
      using read_names [OF b t(1)] t(2) by (intro exI [of _ None] exI [of _ False]) (simp add: buf_match_algo_def Let_def cn_def [symmetric] chosen_def)
  next
    case (Some kj)
    obtain k j where kj: "kj = (k, j)" by force
    from match_outer_eq(2) [OF Some [unfolded kj]] obtain n where
      n: "k < length cn" "cn ! k = Some n" "agreed cli srv = Some n" unfolding cl fd agreed_def by auto
    then have "al_usable (cli ! k)" "al_name (cli ! k) = n" "k < length cli" by (auto simp: cn_def split: if_splits)
    then show ?thesis
      using read_names [OF b t(1)] t(2) Some kj n(3) by (simp add: buf_match_algo_def Let_def cn_def [symmetric] chosen_def)
  qed
qed


section \<open>Properties\<close>

lemma read_back_list:
  assumes "buf_ok b" and "buf_pos b = 0" and "buf_len b = 0" and "length (algolist_wire as) \<le> unat (buf_size b)"
  shows "\<exists>b'. buf_put_algolist b as = Inr b' \<and> buf_ok (b'\<lparr>buf_pos := 0\<rparr>) \<and> buf_rest (b'\<lparr>buf_pos := 0\<rparr>) = algolist_wire as"
proof -
  have "buf_rest b = []" using assms(2,3) by (simp add: buf_rest_def)
  then show ?thesis
    using buf_put_algolist_eq [OF assms(1), of as] buf_rest_put_at [OF assms(1), of "algolist_wire as"]
      buf_ok_put_at [OF assms(1), of "algolist_wire as"] assms(2,4)
    by (intro exI [of _ "put_at b (algolist_wire as)"]) (auto simp: buf_ok_def)
qed

text \<open>
  C12. Both ends of a negotiation choose the same algorithm: when the client reads the list the server
  wrote with \<^verbatim>\<open>buf_put_algolist\<close> and the server the one the client wrote, the client's and the server's run
  of \<^verbatim>\<open>buf_match_algo\<close> return, each as an entry of its own table, the first name in the client's order that both
  can use, and both return none when there is no such name.
\<close>

theorem negotiation_agrees:
  assumes "table_ok cli" and "table_ok srv"
    and "buf_ok b" and "buf_pos b = 0" and "buf_len b = 0"
    and "length (algolist_wire cli) \<le> unat (buf_size b)" and "length (algolist_wire srv) \<le> unat (buf_size b)"
  shows "\<exists>bc bs rs gs bs' rc gc bc'. buf_put_algolist b cli = Inr bc \<and> buf_put_algolist b srv = Inr bs
     \<and> buf_match_algo True (bc\<lparr>buf_pos := 0\<rparr>) srv kexguess2 = Inr (rs, gs, bs') \<and> chosen srv rs (agreed cli srv)
     \<and> buf_match_algo False (bs\<lparr>buf_pos := 0\<rparr>) cli kexguess2 = Inr (rc, gc, bc') \<and> chosen cli rc (agreed cli srv)"
proof -
  obtain bc where bc: "buf_put_algolist b cli = Inr bc" "buf_ok (bc\<lparr>buf_pos := 0\<rparr>)" "buf_rest (bc\<lparr>buf_pos := 0\<rparr>) = algolist_wire cli"
    using read_back_list [OF assms(3-6)] by blast
  obtain bs where bs: "buf_put_algolist b srv = Inr bs" "buf_ok (bs\<lparr>buf_pos := 0\<rparr>)" "buf_rest (bs\<lparr>buf_pos := 0\<rparr>) = algolist_wire srv"
    using read_back_list [OF assms(3-5,7)] by blast
  have l: "length srv \<le> MAX_PROPOSED_ALGO" "length cli \<le> MAX_PROPOSED_ALGO" using assms(1,2) by (simp_all add: table_ok_def)
  from match_algo_server [OF bc(2), of cli "[]" srv kexguess2] match_algo_client [OF bs(2), of srv "[]" cli kexguess2]
  show ?thesis using bc bs assms(1,2) l by auto
qed

definition algo :: "string \<Rightarrow> bool \<Rightarrow> unit algo_type" where
  "algo s usable = \<lparr>al_name = str s, al_val = 0, al_data = None, al_usable = usable, al_mode = None\<rparr>"

theorem negotiation_agrees_witness:
  "let cli = [algo ''aes'' True, algo ''3des'' True]; srv = [algo ''aes'' False, algo ''3des'' True] in
   \<exists>b bc bs rs gs bs' rc gc bc'. buf_new 64 = Inr b \<and> buf_put_algolist b cli = Inr bc \<and> buf_put_algolist b srv = Inr bs
     \<and> buf_match_algo True (bc\<lparr>buf_pos := 0\<rparr>) srv False = Inr (rs, gs, bs') \<and> chosen srv rs (Some (str ''3des''))
     \<and> buf_match_algo False (bs\<lparr>buf_pos := 0\<rparr>) cli False = Inr (rc, gc, bc') \<and> chosen cli rc (Some (str ''3des''))"
proof -
  let ?cli = "[algo ''aes'' True, algo ''3des'' True]" and ?srv = "[algo ''aes'' False, algo ''3des'' True]"
  obtain b where b: "buf_new 64 = Inr b" "buf_ok b" "buf_pos b = 0" "buf_len b = 0" "buf_size b = 64"
    by (simp add: buf_new_def buf_ok_def)
  have t: "table_ok ?cli" "table_ok ?srv" by code_simp+
  have l: "length (algolist_wire ?cli) = 12" "length (algolist_wire ?srv) = 8" "agreed ?cli ?srv = Some (str ''3des'')" by code_simp+
  from negotiation_agrees [OF t b(2-4), of False] b(1,5) l show ?thesis by (simp add: Let_def)
qed

section \<open>The user's list\<close>

definition add_algo :: "'d algo_type list \<Rightarrow> byte list \<Rightarrow> 'd algo_type list \<Rightarrow> 'd algo_type list" where
  "add_algo algos n new = (case check_algo n algos of None \<Rightarrow> new
     | Some a \<Rightarrow> (case check_algo n new of Some _ \<Rightarrow> new | None \<Rightarrow> new @ [a]))"

lemma check_algo_None: "check_algo n as = None \<longleftrightarrow> n \<notin> al_name ` set as"
  by (induction as) auto

lemma check_algo_Some: "check_algo n as = Some a \<Longrightarrow> al_name a = n \<and> a \<in> set as"
  by (induction as) (auto split: if_splits)

lemma add_algo_length: "length (add_algo algos n new) \<le> Suc (length new)"
  by (simp add: add_algo_def split: option.split)

text \<open>The pointer runs over the rest of a name without stopping.\<close>

lemma user_loop_word:
  assumes "0 \<notin> set w" and "comma \<notin> set w" and "length p + k \<le> length p + length w" and "length new < MAX_PROPOSED_ALGO"
  shows "user_algos_loop algos (p @ w @ d # q) start (length p + k) new
     = user_algos_loop algos (p @ w @ d # q) start (length p + length w) new"
  using assms(3)
proof (induction "length w - k" arbitrary: k)
  case (Suc m)
  then have k: "k < length w" by simp
  have "(p @ w @ d # q) ! (length p + k) = w ! k" using k by (simp add: nth_append)
  moreover have "w ! k \<noteq> comma" "w ! k \<noteq> 0" using assms(1,2) nth_mem [OF k] by metis+
  moreover have "length p + k < length (p @ w @ d # q)" using k by simp
  ultimately have "user_algos_loop algos (p @ w @ d # q) start (length p + k) new
      = user_algos_loop algos (p @ w @ d # q) start (length p + Suc k) new"
    using assms(4) by (subst user_algos_loop.simps) (simp add: Let_def)
  also have "\<dots> = user_algos_loop algos (p @ w @ d # q) start (length p + length w) new"
    using Suc.hyps(1) [of "Suc k"] Suc.hyps(2) k by simp
  finally show ?case .
qed simp

lemma user_loop_name:
  assumes "name_ok w" and "k \<le> 1" and "length new < MAX_PROPOSED_ALGO" and "d = comma \<or> d = 0"
  shows "user_algos_loop algos (p @ w @ d # q) (length p) (length p + k) new
     = (if d = 0 then Inr (add_algo algos w new)
        else user_algos_loop algos (p @ w @ 0 # q) (length p + length w + 1) (length p + length w + 1 + 1) (add_algo algos w new))"
proof -
  have w: "0 \<notin> set w" "comma \<notin> set w" "length p + k \<le> length p + length w"
    using assms(1,2) by (cases w; auto simp: name_ok_def)+
  have "cstr (w @ 0 # q) = w" using w(1) by (induction w) (auto simp: cstr_def)
  then have cs: "cstr (drop (length p) (p @ w @ 0 # q)) = w" by simp
  have "user_algos_loop algos (p @ w @ d # q) (length p) (length p + k) new
     = user_algos_loop algos (p @ w @ d # q) (length p) (length (p @ w)) new"
    using user_loop_word [OF w assms(3)] by simp
  also have "\<dots> = (if d = 0 then Inr (add_algo algos w new)
        else user_algos_loop algos (p @ w @ 0 # q) (length p + length w + 1) (length p + length w + 1 + 1) (add_algo algos w new))"
  proof -
    have "(p @ w @ d # q) ! length (p @ w) = d" "(p @ w @ d # q)[length (p @ w) := 0] = p @ w @ 0 # q"
      by (simp_all add: nth_append list_update_append)
    then show ?thesis
      using assms(3,4) unfolding user_algos_loop.simps [of algos "p @ w @ d # q" "length p" "length (p @ w)" new]
      by (simp add: Let_def del: drop_append) (simp only: cs add_algo_def, simp)
  qed
  finally show ?thesis .
qed

lemma user_loop_names:
  assumes "\<forall>n\<in>set (n # ns). name_ok n" and "length new + length ns < MAX_PROPOSED_ALGO" and "k \<le> 1"
  shows "user_algos_loop algos (p @ join (n # ns) @ [0]) (length p) (length p + k) new = Inr (fold (add_algo algos) (n # ns) new)"
  using assms
proof (induction ns arbitrary: n p k new)
  case Nil
  then show ?case using user_loop_name [of n k new 0 algos p "[]"] by simp
next
  case (Cons m ns)
  have nl: "length (add_algo algos n new) \<le> Suc (length new)" by (rule add_algo_length)
  have "user_algos_loop algos (p @ join (n # m # ns) @ [0]) (length p) (length p + k) new
      = user_algos_loop algos ((p @ n @ [0]) @ join (m # ns) @ [0]) (length (p @ n @ [0])) (length (p @ n @ [0]) + 1) (add_algo algos n new)"
    using user_loop_name [of n k new comma algos p "join (m # ns) @ [0]"] Cons.prems by (simp add: add.assoc)
  also have "\<dots> = Inr (fold (add_algo algos) (m # ns) (add_algo algos n new))"
    using Cons.prems nl by (intro Cons.IH) auto
  finally show ?case by simp
qed

text \<open>A comma at the end: the pointer skips the null byte.\<close>

lemma user_loop_trailing:
  assumes "\<forall>n\<in>set (n # ns). name_ok n" and "length new + length ns < MAX_PROPOSED_ALGO" and "k \<le> 1"
  shows "user_algos_loop algos (p @ join (n # ns) @ [comma, 0]) (length p) (length p + k) new = Inl Mem_fault"
  using assms
proof (induction ns arbitrary: n p k new)
  case Nil
  then have "user_algos_loop algos (p @ join [n] @ [comma, 0]) (length p) (length p + k) new
     = user_algos_loop algos (p @ n @ [0, 0]) (length p + length n + 1) (length p + length n + 1 + 1) (add_algo algos n new)"
    using user_loop_name [of n k new comma algos p "[0]"] by simp
  also have "\<dots> = Inl Mem_fault" by (subst user_algos_loop.simps) simp
  finally show ?case .
next
  case (Cons m ns)
  have nl: "length (add_algo algos n new) \<le> Suc (length new)" by (rule add_algo_length)
  have "user_algos_loop algos (p @ join (n # m # ns) @ [comma, 0]) (length p) (length p + k) new
      = user_algos_loop algos ((p @ n @ [0]) @ join (m # ns) @ [comma, 0]) (length (p @ n @ [0])) (length (p @ n @ [0]) + 1) (add_algo algos n new)"
    using user_loop_name [of n k new comma algos p "join (m # ns) @ [comma, 0]"] Cons.prems by (simp add: add.assoc)
  also have "\<dots> = Inl Mem_fault" using Cons.prems nl by (intro Cons.IH) auto
  finally show ?case .
qed

text \<open>The names kept, in the user's order and each once.\<close>

lemma fold_add_algo:
  "set (map al_name (fold (add_algo algos) ns new)) = al_name ` set new \<union> (set ns \<inter> al_name ` set algos)"
  "distinct (map al_name new) \<Longrightarrow> distinct (map al_name (fold (add_algo algos) ns new))"
  "set new \<subseteq> set algos \<Longrightarrow> set (fold (add_algo algos) ns new) \<subseteq> set algos"
proof (induction ns arbitrary: new)
  case (Cons n ns)
  have s: "al_name ` set (add_algo algos n new) = al_name ` set new \<union> ({n} \<inter> al_name ` set algos)" for new
  proof (cases "check_algo n algos")
    case None
    then show ?thesis using check_algo_None [of n algos] by (simp add: add_algo_def)
  next
    case (Some a)
    note a = check_algo_Some [OF Some]
    show ?thesis
    proof (cases "check_algo n new")
      case None
      then show ?thesis using Some a by (auto simp: add_algo_def)
    next
      case (Some b)
      then show ?thesis using \<open>check_algo n algos = Some a\<close> check_algo_Some [OF Some] by (auto simp: add_algo_def)
    qed
  qed
  have d: "distinct (map al_name new) \<Longrightarrow> distinct (map al_name (add_algo algos n new))" for new
    using check_algo_None [of n new] check_algo_Some [of n algos] by (auto simp: add_algo_def split: option.split)
  have m: "set new \<subseteq> set algos \<Longrightarrow> set (add_algo algos n new) \<subseteq> set algos" for new
    using check_algo_Some [of n algos] by (auto simp: add_algo_def split: option.split)
  {
    case 1
    have "set (map al_name (fold (add_algo algos) (n # ns) new)) = (al_name ` set new \<union> {n} \<inter> al_name ` set algos) \<union> set ns \<inter> al_name ` set algos"
      by (simp only: fold_simps Cons.IH(1) s)
    also have "\<dots> = al_name ` set new \<union> set (n # ns) \<inter> al_name ` set algos" by (simp only: list.set Un_assoc Int_Un_distrib2 insert_is_Un [of n "set ns"])
    finally show ?case .
  next
    case 2
    then show ?case using Cons.IH(2) [OF d] by simp
  next
    case 3
    then show ?case using Cons.IH(3) [OF m] by simp
  }
qed auto


section \<open>Properties of the user's list\<close>

text \<open>
  A well-formed list given on the command line is filtered as documented: \<^verbatim>\<open>check_user_algos\<close> returns entries
  of the table whose names are exactly the requested ones that are supported, each once.
\<close>

theorem user_algos_filtered:
  assumes "\<forall>n\<in>set ns. name_ok n" and "ns \<noteq> []" and "length ns \<le> MAX_PROPOSED_ALGO"
  shows "\<exists>r. check_user_algos (join ns) algos = Inr r \<and> set r \<subseteq> set algos \<and> distinct (map al_name r)
     \<and> set (map al_name r) = set ns \<inter> al_name ` set algos"
proof -
  obtain n ms where ns: "ns = n # ms" using assms(2) by (cases ns) auto
  have "check_user_algos (join ns) algos = Inr (fold (add_algo algos) ns [])"
    using user_loop_names [of n ms "[]" 0 algos "[]"] assms by (simp add: check_user_algos_def ns)
  then show ?thesis using fold_add_algo [where algos = algos and ns = ns and new = "[]"] by auto
qed

theorem user_algos_filtered_witness:
  "\<exists>r. check_user_algos (str ''bb,zz,aa,bb'') [algo ''aa'' True, algo ''bb'' True, algo ''cc'' True] = Inr r
     \<and> distinct (map al_name r) \<and> set (map al_name r) = {str ''bb'', str ''aa''}"
proof -
  have j: "join [str ''bb'', str ''zz'', str ''aa'', str ''bb''] = str ''bb,zz,aa,bb''" by code_simp
  have ok: "\<forall>n\<in>set [str ''bb'', str ''zz'', str ''aa'', str ''bb'']. name_ok n" by code_simp
  have s: "set [str ''bb'', str ''zz'', str ''aa'', str ''bb''] \<inter> al_name ` set [algo ''aa'' True, algo ''bb'' True, algo ''cc'' True]
      = {str ''bb'', str ''aa''}" by code_simp
  from user_algos_filtered [OF ok, of "[algo ''aa'' True, algo ''bb'' True, algo ''cc'' True]"] show ?thesis
    unfolding j s by auto
qed

text \<open>
  C13. A list that ends with a comma makes \<^verbatim>\<open>check_user_algos\<close> read past the end of its copy of the string: after
  the comma the loop advances over the byte it should look at next, which here is the null byte that ends
  the string.
\<close>

theorem user_algos_trailing_comma_overreads:
  assumes "\<forall>n\<in>set ns. name_ok n" and "ns \<noteq> []" and "length ns \<le> MAX_PROPOSED_ALGO"
  shows "check_user_algos (join ns @ [comma]) algos = Inl Mem_fault"
proof -
  obtain n ms where ns: "ns = n # ms" using assms(2) by (cases ns) auto
  then show ?thesis using user_loop_trailing [of n ms "[]" 0 algos "[]"] assms by (simp add: check_user_algos_def)
qed

theorem user_algos_trailing_comma_overreads_witness:
  "check_user_algos (str ''aes128-ctr,'') [algo ''aes128-ctr'' True] = Inl Mem_fault"
proof -
  have j: "join [str ''aes128-ctr''] @ [comma] = str ''aes128-ctr,''" by code_simp
  have ok: "\<forall>n\<in>set [str ''aes128-ctr'']. name_ok n" by code_simp
  from user_algos_trailing_comma_overreads [OF ok, of "[algo ''aes128-ctr'' True]"] show ?thesis unfolding j by simp
qed

text \<open>
  \<^verbatim>\<open>buf_match_algo\<close> counts unusable entries of its own table in the position that decides \<^verbatim>\<open>goodguess\<close>, but they
  are not in the list it sends: with the server's first entry unusable, the server takes a guess for wrong
  that the client takes for right.
\<close>

lemma goodguess_differs:
  "let cli = [algo ''rsa'' True]; srv = [algo ''ed25519'' False, algo ''rsa'' True] in
   \<exists>b bc bs bs' bc'. buf_new 64 = Inr b \<and> buf_put_algolist b cli = Inr bc \<and> buf_put_algolist b srv = Inr bs
     \<and> buf_match_algo True (bc\<lparr>buf_pos := 0\<rparr>) srv False = Inr (Some 1, False, bs')
     \<and> buf_match_algo False (bs\<lparr>buf_pos := 0\<rparr>) cli False = Inr (Some 0, True, bc')"
proof -
  let ?cli = "[algo ''rsa'' True]" and ?srv = "[algo ''ed25519'' False, algo ''rsa'' True]"
  let ?run = "\<lambda>put r. rbind (buf_new 64) (\<lambda>b. rbind (buf_put_algolist b put) (\<lambda>bc.
    rbind (if r then buf_match_algo True (bc\<lparr>buf_pos := 0\<rparr>) ?srv False else buf_match_algo False (bc\<lparr>buf_pos := 0\<rparr>) ?cli False)
      (\<lambda>(i, g, b'). Inr (i, g))))"
  have "?run ?cli True = Inr (Some 1, False)" "?run ?srv False = Inr (Some 0, True)" by code_simp+
  then show ?thesis by (auto simp: Let_def)
qed

end
