(* ===== verification/Kex.thy ===== *)
theory Kex
  imports Receive Algo
begin

text \<open>
  The key exchange of src/dropbear/src/common-kex.c and src/dropbear/src/svr-kex.c, on the server's side: our KEXINIT, the choice of
  algorithms from the peer's, the hash buffer, the derivation of keys and the switch to them in each
  direction. The arithmetic of the key agreement and the signature are a parameter.
\<close>

section \<open>What the exchange is given\<close>

text \<open>
  The algorithm tables, \<^verbatim>\<open>find_cipher\<close> and \<^verbatim>\<open>find_hash\<close> of the cryptographic library, and
  \<^verbatim>\<open>send_msg_kexdh_reply\<close>, which does the key agreement, computes the exchange hash, signs it and sends the reply.
  The signature algorithms are in the session, since they change.
\<close>

record kex_env =
  ke_sshkex :: "dropbear_kex algo_type list"
  ke_sshciphers :: "dropbear_cipher algo_type list"
  ke_sshhashes :: "dropbear_hash algo_type list"
  ke_nocompress :: "unit algo_type list"
  ke_find_cipher :: "string \<Rightarrow> int"
  ke_find_hash :: "string \<Rightarrow> int"
  ke_kexdh_reply :: "int \<Rightarrow> buffer option \<Rightarrow> sshsession \<Rightarrow> sshsession res"

abbreviation KEXHASHBUF_MAX_INTS :: u32 where "KEXHASHBUF_MAX_INTS \<equiv> 3012"
abbreviation SSH_MSG_EXT_INFO :: byte where "SSH_MSG_EXT_INFO \<equiv> 7"

definition LOCAL_IDENT :: "byte list" where "LOCAL_IDENT = str ''SSH-2.0-dropbear_2026.91''"
definition KEXGUESS2_ALGO_NAME :: "byte list" where "KEXGUESS2_ALGO_NAME = str ''kexguess2@matt.ucc.asn.au''"
definition SSH_STRICT_KEX_C :: "byte list" where "SSH_STRICT_KEX_C = str ''kex-strict-c-v00@openssh.com''"
definition SSH_EXT_INFO_C :: "byte list" where "SSH_EXT_INFO_C = str ''ext-info-c''"
definition SSH_SERVER_SIG_ALGS :: "byte list" where "SSH_SERVER_SIG_ALGS = str ''server-sig-algs''"

text \<open>A zeroed \<^verbatim>\<open>struct key_context\<close>; the null algorithm pointers are overwritten before they are followed.\<close>

definition kd_zero :: key_context_directional where
  "kd_zero = \<lparr>kd_algo_crypt = \<lparr>dc_cipherdesc = None, dc_keysize = 0, dc_blocksize = 0\<rparr>, kd_crypt_mode = dropbear_mode_none,
     kd_algo_mac = \<lparr>dh_hash_desc = None, dh_keysize = 0, dh_hashsize = 0\<rparr>, kd_hash_index = 0, kd_cipher_state = [],
     kd_mackey = replicate MAX_MAC_LEN 0, kd_valid = False\<rparr>"

definition kc_zero :: key_context where
  "kc_zero = \<lparr>kc_recv = kd_zero, kc_trans = kd_zero, kc_algo_kex = None, kc_algo_hostkey = 0, kc_algo_signature = 0\<rparr>"

text \<open>\<^verbatim>\<open>enum signkey_type\<close> of this build: RSA, Ed25519, sk-Ed25519 and their number; 101 is RSA with SHA-256.\<close>

definition signkey_type_from_signature :: "int \<Rightarrow> int res" where
  "signkey_type_from_signature sigtype = (if sigtype = 101 then Inr 0
     else if sigtype < 3 then Inr sigtype else Inl Assert_fail)"

section \<open>Starting an exchange\<close>

definition kexinitialise :: "sshsession \<Rightarrow> sshsession" where
  "kexinitialise ses = ses\<lparr>kexstate := (kexstate ses)\<lparr>sentkexinit := False, recvkexinit := False, recvnewkeys := False,
     sentnewkeys := False, them_firstfollows := False, datatrans := 0, datarecv := 0, our_first_follows_matches := False,
     lastkextime := clock ses\<rparr>\<rparr>"

text \<open>\<^verbatim>\<open>kex_setup_compress\<close> chooses the list without compression in this build, and does nothing else.\<close>

definition kexfirstinitialise :: "sshsession \<Rightarrow> sshsession" where
  "kexfirstinitialise ses = kexinitialise ses"

text \<open>The server sends no guess, \<^verbatim>\<open>ses.send_kex_first_guess\<close> is null.\<close>

definition send_msg_kexinit :: "kex_env \<Rightarrow> primitives \<Rightarrow> sshsession \<Rightarrow> sshsession res" where
  "send_msg_kexinit ke pr ses =
     rbind (wp_putbyte SSH_MSG_KEXINIT ses) (\<lambda>ses.
     rbind (buf_getwriteptr (writepayload ses) 16) (\<lambda>w.
     case genrandom pr 16 ses of (cookie, ses) \<Rightarrow>
     rbind (wr_mem (buf_data (writepayload ses)) w cookie) (\<lambda>d.
     rbind (with_wp (\<lambda>b. buf_incrwritepos (b\<lparr>buf_data := d\<rparr>) 16) ses) (\<lambda>ses.
     rbind (with_wp (\<lambda>b. buf_put_algolist b (ke_sshkex ke)) ses) (\<lambda>ses.
     rbind (with_wp (\<lambda>b. buf_put_algolist b (sigalgs ses)) ses) (\<lambda>ses.
     rbind (with_wp (\<lambda>b. buf_put_algolist b (ke_sshciphers ke)) ses) (\<lambda>ses.
     rbind (with_wp (\<lambda>b. buf_put_algolist b (ke_sshciphers ke)) ses) (\<lambda>ses.
     rbind (with_wp (\<lambda>b. buf_put_algolist b (ke_sshhashes ke)) ses) (\<lambda>ses.
     rbind (with_wp (\<lambda>b. buf_put_algolist b (ke_sshhashes ke)) ses) (\<lambda>ses.
     rbind (with_wp (\<lambda>b. buf_put_algolist b (ke_nocompress ke)) ses) (\<lambda>ses.
     rbind (with_wp (\<lambda>b. buf_put_algolist b (ke_nocompress ke)) ses) (\<lambda>ses.
     rbind (put_fields [F_str [], F_str [], F_byte 0, F_int 0] ses) (\<lambda>ses.
     rbind (buf_newcopy (writepayload ses)) (\<lambda>tk.
     rbind (encrypt_packet pr (ses\<lparr>transkexinit := Some tk\<rparr>)) (\<lambda>ses.
     Inr (ses\<lparr>dataallowed := False, kexstate := (kexstate ses)\<lparr>sentkexinit := True\<rparr>, newkeys := Some kc_zero\<rparr>))))))))))))))))"

section \<open>Deriving the keys\<close>

definition hash_process_mp :: "byte list \<Rightarrow> int \<Rightarrow> byte list res" where
  "hash_process_mp hs mp = rbind (buf_new 532) (\<lambda>buf. rbind (buf_putmpint buf mp) (\<lambda>buf.
     rbind (rd_mem (buf_data buf) 0 (unat (buf_len buf))) (\<lambda>bs. Inr (hs @ bs))))"

text \<open>
  The loop of \<^verbatim>\<open>hashkeys\<close>: \<open>out\<close> is the part of the output that is written, at least \<open>offset\<close> bytes. The
  temporary array has \<^verbatim>\<open>MAX_HASH_SIZE\<close> = 64 bytes.
\<close>

function hashkeys_loop :: "hash_descriptor \<Rightarrow> nat \<Rightarrow> byte list \<Rightarrow> byte list \<Rightarrow> nat \<Rightarrow> byte list res" where
  "hashkeys_loop hde outlen hs out offset = (if offset < outlen then
       if hd_hashsize hde = 0 then Inl Diverge
       else hashkeys_loop hde outlen hs
         (take offset out @ take (min (outlen - offset) (hd_hashsize hde)) (hd_fun hde (hs @ take offset out))) (offset + hd_hashsize hde)
     else Inr out)"
  by pat_completeness auto

termination
  by (relation "measure (\<lambda>(hde, outlen, hs, out, offset). outlen - offset)") auto

declare hashkeys_loop.simps [simp del]

definition hashkeys :: "hash_descriptor \<Rightarrow> nat \<Rightarrow> byte list \<Rightarrow> byte list \<Rightarrow> byte \<Rightarrow> byte list res" where
  "hashkeys hde outlen hs sid X = (if hd_hashsize hde > 64 then Inl Mem_fault
     else hashkeys_loop hde outlen hs (take (min (hd_hashsize hde) outlen) (hd_fun hde (hs @ [X] @ sid))) (hd_hashsize hde))"

text \<open>Starting the cipher of one direction.\<close>

definition start_cipher :: "kex_env \<Rightarrow> byte list \<Rightarrow> byte list \<Rightarrow> key_context_directional \<Rightarrow> key_context_directional res" where
  "start_cipher ke iv key kd = (case dc_cipherdesc (kd_algo_crypt kd) of None \<Rightarrow> Inr kd
     | Some name \<Rightarrow>
       rbind (case name of None \<Rightarrow> Inr (- 1)
         | Some n \<Rightarrow> if ke_find_cipher ke n < 0 then Inl (Exit ''Crypto error'') else Inr (ke_find_cipher ke n)) (\<lambda>cipher.
       case cm_start (kd_crypt_mode kd) cipher iv key (dc_keysize (kd_algo_crypt kd)) of
         None \<Rightarrow> Inl (Exit ''Crypto error'') | Some st \<Rightarrow> Inr (kd\<lparr>kd_cipher_state := st\<rparr>)))"

text \<open>The MAC key of one direction, written into the array \<^verbatim>\<open>mackey\<close>.\<close>

definition set_mackey :: "kex_env \<Rightarrow> hash_descriptor \<Rightarrow> byte list \<Rightarrow> byte list \<Rightarrow> byte \<Rightarrow> key_context_directional \<Rightarrow> key_context_directional res" where
  "set_mackey ke hde hs sid X kd = (case dh_hash_desc (kd_algo_mac kd) of None \<Rightarrow> Inr kd
     | Some name \<Rightarrow>
       rbind (hashkeys hde (kd_mac_keysize kd) hs sid X) (\<lambda>out.
       rbind (wr_mem (kd_mackey kd) 0 out) (\<lambda>mk.
       Inr (kd\<lparr>kd_mackey := mk, kd_hash_index := ke_find_hash ke name\<rparr>))))"

text \<open>\<^verbatim>\<open>MAX_IV_LEN\<close> is 20 and \<^verbatim>\<open>MAX_KEY_LEN\<close> 64. The letters are 'A' to 'F'; the server's are those given here. \<open>derive_keys\<close> is the body of \<^verbatim>\<open>gen_new_keys\<close>, on the session's fields it reads.\<close>

definition derive_keys :: "kex_env \<Rightarrow> key_context option \<Rightarrow> int option \<Rightarrow> buffer option \<Rightarrow> buffer option \<Rightarrow> buffer option \<Rightarrow> key_context res" where
  "derive_keys ke newks K K_bytes kexhash sessionid = (case newks of None \<Rightarrow> Inl Mem_fault | Some nk \<Rightarrow>
     (case kc_algo_kex nk of None \<Rightarrow> Inl Mem_fault | Some kex \<Rightarrow>
     let hde = kx_hash_desc kex in
     rbind (case K of None \<Rightarrow> Inr [] | Some k \<Rightarrow> hash_process_mp [] k) (\<lambda>hs.
     rbind (case K_bytes of None \<Rightarrow> Inr hs | Some kb \<Rightarrow>
        rbind (rd_mem (buf_data kb) 0 (unat (buf_len kb))) (\<lambda>bs. Inr (hs @ bs))) (\<lambda>hs.
     case kexhash of None \<Rightarrow> Inl Mem_fault | Some h \<Rightarrow>
     rbind (rd_mem (buf_data h) 0 (unat (buf_len h))) (\<lambda>bs. let hs = hs @ bs in
     case sessionid of None \<Rightarrow> Inl Mem_fault | Some si \<Rightarrow>
     rbind (rd_mem (buf_data si) 0 (unat (buf_len si))) (\<lambda>sid.
     rbind (hashkeys hde 20 hs sid 65) (\<lambda>C2S_IV.
     rbind (hashkeys hde 20 hs sid 66) (\<lambda>S2C_IV.
     rbind (hashkeys hde 64 hs sid 67) (\<lambda>C2S_key.
     rbind (hashkeys hde 64 hs sid 68) (\<lambda>S2C_key.
     rbind (start_cipher ke C2S_IV C2S_key (kc_recv nk)) (\<lambda>recv.
     rbind (start_cipher ke S2C_IV S2C_key (kc_trans nk)) (\<lambda>trans.
     rbind (set_mackey ke hde hs sid 70 trans) (\<lambda>trans.
     rbind (set_mackey ke hde hs sid 69 recv) (\<lambda>recv.
     Inr (nk\<lparr>kc_recv := recv\<lparr>kd_valid := True\<rparr>, kc_trans := trans\<lparr>kd_valid := True\<rparr>\<rparr>)))))))))))))))"

definition gen_new_keys :: "kex_env \<Rightarrow> sshsession \<Rightarrow> sshsession res" where
  "gen_new_keys ke ses =
     rbind (derive_keys ke (newkeys ses) (dh_K ses) (dh_K_bytes ses) (ses_hash ses) (session_id ses)) (\<lambda>nk.
     Inr (ses\<lparr>dh_K := None, dh_K_bytes := None, ses_hash := None, newkeys := Some nk\<rparr>))"

section \<open>Switching to the new keys\<close>

text \<open>\<^verbatim>\<open>ses.keys\<close> is never null once the session is initialised.\<close>

definition switch_keys :: "sshsession \<Rightarrow> sshsession res" where
  "switch_keys ses = (if \<not> (sentkexinit (kexstate ses) \<and> recvkexinit (kexstate ses)) then Inl (Exit ''Unexpected newkeys message'')
     else case newkeys ses of None \<Rightarrow> Inl Mem_fault | Some nk \<Rightarrow>
       let (ks, nk) = (if recvnewkeys (kexstate ses) \<and> kd_valid (kc_recv nk)
             then ((keys ses)\<lparr>kc_recv := kc_recv nk\<rparr>, nk\<lparr>kc_recv := kd_zero\<rparr>) else (keys ses, nk));
           (ks, nk) = (if sentnewkeys (kexstate ses) \<and> kd_valid (kc_trans nk)
             then (ks\<lparr>kc_trans := kc_trans nk\<rparr>, nk\<lparr>kc_trans := kd_zero\<rparr>) else (ks, nk)) in
       if sentnewkeys (kexstate ses) \<and> recvnewkeys (kexstate ses)
       then Inr (kexinitialise (ses\<lparr>keys := ks\<lparr>kc_algo_kex := kc_algo_kex nk, kc_algo_hostkey := kc_algo_hostkey nk,
              kc_algo_signature := kc_algo_signature nk\<rparr>, newkeys := None\<rparr>))
       else Inr (ses\<lparr>keys := ks, newkeys := Some nk\<rparr>))"

definition send_msg_newkeys :: "kex_env \<Rightarrow> primitives \<Rightarrow> sshsession \<Rightarrow> sshsession res" where
  "send_msg_newkeys ke pr ses =
     rbind (wp_putbyte SSH_MSG_NEWKEYS ses) (\<lambda>ses.
     rbind (encrypt_packet pr ses) (\<lambda>ses.
     let ks = (kexstate ses)\<lparr>sentnewkeys := True\<rparr>;
         ks = (if donefirstkex ks then ks\<lparr>donesecondkex := True\<rparr> else ks) in
     rbind (gen_new_keys ke (ses\<lparr>kexstate := ks\<lparr>donefirstkex := True\<rparr>, dataallowed := True\<rparr>)) (\<lambda>ses.
     rbind (switch_keys ses) (\<lambda>ses.
     Inr (if strict_kex (kexstate ses) then ses\<lparr>transseq := 0\<rparr> else ses)))))"

definition recv_msg_newkeys :: "sshsession \<Rightarrow> sshsession res" where
  "recv_msg_newkeys ses =
     rbind (switch_keys (ses\<lparr>kexstate := (kexstate ses)\<lparr>recvnewkeys := True\<rparr>\<rparr>)) (\<lambda>ses.
     let ses = (if strict_kex (kexstate ses) then ses\<lparr>recvseq := 0\<rparr> else ses) in
     Inr (ses\<lparr>kexstate := (kexstate ses)\<lparr>recvfirstnewkeys := True\<rparr>\<rparr>))"

section \<open>The peer's KEXINIT\<close>

text \<open>\<^verbatim>\<open>buf_has_algo\<close> and \<^verbatim>\<open>buf_match_algo\<close> on \<^verbatim>\<open>ses.payload\<close>.\<close>

definition payload_has :: "byte list \<Rightarrow> sshsession \<Rightarrow> (bool \<times> sshsession) res" where
  "payload_has name ses = from_payload (\<lambda>b. buf_has_algo b name) ses"

definition payload_match :: "'d algo_type list \<Rightarrow> bool \<Rightarrow> sshsession \<Rightarrow> (('d algo_type option \<times> bool) \<times> sshsession) res" where
  "payload_match algos kexguess2 ses = from_payload (\<lambda>b. rbind (buf_match_algo (isserver ses) b algos kexguess2)
     (\<lambda>(r, g, b). Inr ((map_option (\<lambda>i. algos ! i) r, g), b))) ses"

definition need :: "'a option \<Rightarrow> 'a res" where
  "need x = (case x of None \<Rightarrow> Inl (Exit ''No matching algo %s'') | Some v \<Rightarrow> Inr v)"

definition deref :: "'a option \<Rightarrow> 'a res" where
  "deref x = (case x of None \<Rightarrow> Inl Mem_fault | Some v \<Rightarrow> Inr v)"

text \<open>The MAC of a direction: none is negotiated when the cipher authenticates itself.\<close>

definition hash_choice :: "dropbear_cipher algo_type \<Rightarrow> dropbear_hash algo_type option \<Rightarrow> dropbear_hash algo_type option res" where
  "hash_choice cipher_algo hash_algo = rbind (deref (al_mode cipher_algo)) (\<lambda>mode.
     if cm_aead_crypt mode \<noteq> None then Inr None else rbind (need hash_algo) (\<lambda>h. Inr (Some h)))"

definition set_algos :: "dropbear_cipher algo_type \<Rightarrow> dropbear_hash algo_type option \<Rightarrow> key_context_directional \<Rightarrow> key_context_directional res" where
  "set_algos cipher_algo hash_algo kd =
     rbind (deref (al_data cipher_algo)) (\<lambda>crypt.
     rbind (deref (al_mode cipher_algo)) (\<lambda>mode.
     rbind (deref (case hash_algo of None \<Rightarrow> cm_aead_mac mode | Some h \<Rightarrow> al_data h)) (\<lambda>mac.
     Inr (kd\<lparr>kd_algo_crypt := crypt, kd_crypt_mode := mode, kd_algo_mac := mac\<rparr>))))"

text \<open>The first part of \<^verbatim>\<open>read_kex_algos\<close>: the names that are flags, not algorithms. The value is \<^verbatim>\<open>kexguess2\<close>.\<close>

definition read_kex_flags :: "sshsession \<Rightarrow> (bool \<times> sshsession) res" where
  "read_kex_flags ses =
     rbind (on_payload (\<lambda>b. buf_incrpos b 16) ses) (\<lambda>ses.
     rbind (deref (newkeys ses)) (\<lambda>_.
     rbind (payload_has KEXGUESS2_ALGO_NAME (ses\<lparr>newkeys := Some kc_zero\<rparr>)) (\<lambda>(kexguess2, ses).
     if donefirstkex (kexstate ses) then Inr (kexguess2, ses)
     else rbind (payload_has SSH_EXT_INFO_C ses) (\<lambda>(ext, ses).
       let ses = (if ext then ses\<lparr>allow_ext_info := True\<rparr> else ses) in
       rbind (payload_has SSH_STRICT_KEX_C ses) (\<lambda>(strict, ses).
       Inr (kexguess2, if strict then ses\<lparr>kexstate := (kexstate ses)\<lparr>strict_kex := True\<rparr>\<rparr> else ses))))))"

definition read_kex_algos :: "kex_env \<Rightarrow> sshsession \<Rightarrow> sshsession res" where
  "read_kex_algos ke ses =
     rbind (read_kex_flags ses) (\<lambda>(kexguess2, ses).
     rbind (payload_match (ke_sshkex ke) kexguess2 ses) (\<lambda>((algo, goodguess), ses). let allgood = goodguess in
     rbind (need algo) (\<lambda>algo. rbind (need (al_data algo)) (\<lambda>algo_kex.
     rbind (payload_match (sigalgs ses) kexguess2 ses) (\<lambda>((algo, goodguess), ses). let allgood = (allgood \<and> goodguess) in
     rbind (need algo) (\<lambda>algo.
     rbind (signkey_type_from_signature (al_val algo)) (\<lambda>hostkey.
     let nk = kc_zero\<lparr>kc_algo_kex := Some algo_kex, kc_algo_signature := al_val algo, kc_algo_hostkey := hostkey\<rparr> in
     rbind (payload_match (ke_sshciphers ke) False ses) (\<lambda>((c2s_cipher_algo, _), ses).
     rbind (need c2s_cipher_algo) (\<lambda>c2s_cipher_algo.
     rbind (payload_match (ke_sshciphers ke) False ses) (\<lambda>((s2c_cipher_algo, _), ses).
     rbind (need s2c_cipher_algo) (\<lambda>s2c_cipher_algo.
     rbind (payload_match (ke_sshhashes ke) False ses) (\<lambda>((c2s_hash_algo, _), ses).
     rbind (hash_choice c2s_cipher_algo c2s_hash_algo) (\<lambda>c2s_hash_algo.
     rbind (payload_match (ke_sshhashes ke) False ses) (\<lambda>((s2c_hash_algo, _), ses).
     rbind (hash_choice s2c_cipher_algo s2c_hash_algo) (\<lambda>s2c_hash_algo.
     rbind (payload_match (ke_nocompress ke) False ses) (\<lambda>((c2s_comp_algo, _), ses).
     rbind (need c2s_comp_algo) (\<lambda>_.
     rbind (payload_match (ke_nocompress ke) False ses) (\<lambda>((s2c_comp_algo, _), ses).
     rbind (need s2c_comp_algo) (\<lambda>_.
     rbind (on_payload buf_eatstring ses) (\<lambda>ses.
     rbind (on_payload buf_eatstring ses) (\<lambda>ses.
     rbind (from_payload buf_getbool ses) (\<lambda>(follows, ses).
     let ses = (if follows \<noteq> 0 then ses\<lparr>kexstate := (kexstate ses)\<lparr>them_firstfollows := True\<rparr>,
           ignorenext := (if allgood then ignorenext ses else True)\<rparr> else ses) in
     rbind (set_algos c2s_cipher_algo c2s_hash_algo (kc_recv nk)) (\<lambda>recv.
     rbind (set_algos s2c_cipher_algo s2c_hash_algo (kc_trans nk)) (\<lambda>trans.
     rbind (from_payload buf_getint (ses\<lparr>newkeys := Some (nk\<lparr>kc_recv := recv, kc_trans := trans\<rparr>)\<rparr>)) (\<lambda>(_, ses).
     Inr ses)))))))))))))))))))))))))"

text \<open>Adding the peer's KEXINIT and ours, with the identification strings, to the hash buffer.\<close>

definition fill_kexhashbuf :: "byte list \<Rightarrow> buffer \<Rightarrow> buffer \<Rightarrow> sshsession \<Rightarrow> (buffer \<times> sshsession) res" where
  "fill_kexhashbuf rid tk kh ses =
     rbind (buf_putstring kh rid (of_nat (length rid))) (\<lambda>kh.
     rbind (buf_putstring kh LOCAL_IDENT (of_nat (length LOCAL_IDENT))) (\<lambda>kh.
     rbind (on_payload (\<lambda>b. buf_setpos b (payload_beginning ses)) ses) (\<lambda>ses.
     rbind (deref (payload ses)) (\<lambda>pl.
     rbind (buf_getptr pl (buf_len pl - buf_pos pl)) (\<lambda>p.
     rbind (buf_putstring kh (drop p (buf_data pl)) (buf_len pl - buf_pos pl)) (\<lambda>kh.
     rbind (buf_putstring kh (buf_data tk) (buf_len tk)) (\<lambda>kh. Inr (kh, ses))))))))"

definition recv_msg_kexinit :: "kex_env \<Rightarrow> primitives \<Rightarrow> sshsession \<Rightarrow> sshsession res" where
  "recv_msg_kexinit ke pr ses =
     rbind (if \<not> sentkexinit (kexstate ses) then send_msg_kexinit ke pr ses else Inr ses) (\<lambda>ses.
     if recvkexinit (kexstate ses) then Inl (Exit ''Unexpected KEXINIT'') else
     rbind (deref (remoteident ses)) (\<lambda>rid.
     rbind (deref (transkexinit ses)) (\<lambda>tk.
     rbind (deref (payload ses)) (\<lambda>pl.
     rbind (buf_new (of_nat (length LOCAL_IDENT) + of_nat (length rid) + buf_len tk + buf_len pl + KEXHASHBUF_MAX_INTS)) (\<lambda>kh.
     rbind (read_kex_algos ke ses) (\<lambda>ses.
     rbind (fill_kexhashbuf rid tk kh ses) (\<lambda>(kh, ses).
     let ses = ses\<lparr>kexhashbuf := Some kh, requirenext := SSH_MSG_KEXDH_INIT, transkexinit := None,
           kexstate := (kexstate ses)\<lparr>recvkexinit := True\<rparr>\<rparr> in
     if strict_kex (kexstate ses) \<and> \<not> donefirstkex (kexstate ses) \<and> recvseq ses \<noteq> 1
     then Inl (Exit ''First packet wasn't kexinit'') else Inr ses)))))))"

definition finish_kexhashbuf :: "sshsession \<Rightarrow> sshsession res" where
  "finish_kexhashbuf ses = rbind (deref (newkeys ses)) (\<lambda>nk. rbind (deref (kc_algo_kex nk)) (\<lambda>kex.
     rbind (deref (kexhashbuf ses)) (\<lambda>kh.
     let hde = kx_hash_desc kex in
     rbind (buf_setpos kh 0) (\<lambda>kh.
     rbind (buf_getptr kh (buf_len kh)) (\<lambda>p.
     rbind (rd_mem (buf_data kh) p (unat (buf_len kh))) (\<lambda>bs.
     rbind (buf_new (of_nat (hd_hashsize hde))) (\<lambda>h.
     rbind (buf_getwriteptr h (of_nat (hd_hashsize hde))) (\<lambda>w.
     rbind (wr_mem (buf_data h) w (hd_fun hde bs)) (\<lambda>d.
     rbind (buf_setlen (h\<lparr>buf_data := d\<rparr>) (of_nat (hd_hashsize hde))) (\<lambda>h.
     let ses = ses\<lparr>ses_hash := Some h, kexhashbuf := None\<rparr> in
     (case session_id ses of Some _ \<Rightarrow> Inr ses
      | None \<Rightarrow> rbind (buf_newcopy h) (\<lambda>si. Inr (ses\<lparr>session_id := Some si\<rparr>)))))))))))))"

section \<open>The key agreement message\<close>

definition disable_sig_except :: "int \<Rightarrow> unit algo_type list \<Rightarrow> unit algo_type list" where
  "disable_sig_except allow_type = map (\<lambda>a. if al_val a \<noteq> allow_type then a\<lparr>al_usable := False\<rparr> else a)"

definition send_msg_ext_info :: "primitives \<Rightarrow> sshsession \<Rightarrow> sshsession res" where
  "send_msg_ext_info pr ses =
     rbind (put_fields [F_byte SSH_MSG_EXT_INFO, F_int 1, F_str SSH_SERVER_SIG_ALGS] ses) (\<lambda>ses.
     rbind (with_wp (\<lambda>b. buf_put_algolist_all b (sigalgs ses) True) ses) (\<lambda>ses. encrypt_packet pr ses))"

text \<open>The value the client sends: a number for a group exchange, a string otherwise.\<close>

definition read_kexdh_value :: "kex_mode \<Rightarrow> sshsession \<Rightarrow> ((int \<times> buffer option) \<times> sshsession) res" where
  "read_kexdh_value mode ses = (case mode of
     DROPBEAR_KEX_NORMAL_DH \<Rightarrow> rbind (from_payload buf_getmpint ses) (\<lambda>(r, ses).
       case r of None \<Rightarrow> Inl (Exit ''Bad kex value'') | Some dh_e \<Rightarrow> Inr ((dh_e, None), ses))
   | _ \<Rightarrow> rbind (from_payload buf_getstringbuf ses) (\<lambda>(q_c, ses). Inr ((0, Some q_c), ses)))"

definition recv_msg_kexdh_init :: "kex_env \<Rightarrow> primitives \<Rightarrow> sshsession \<Rightarrow> sshsession res" where
  "recv_msg_kexdh_init ke pr ses = (if \<not> recvkexinit (kexstate ses) then Inl (Exit ''Premature kexdh_init message received'')
     else rbind (deref (newkeys ses)) (\<lambda>nk. rbind (deref (kc_algo_kex nk)) (\<lambda>kex.
     rbind (read_kexdh_value (kx_mode kex) ses) (\<lambda>((dh_e, q_c), ses).
     rbind (deref (payload ses)) (\<lambda>pl.
     if buf_pos pl \<noteq> buf_len pl then Inl (Exit ''Bad kex value'')
     else rbind (ke_kexdh_reply ke dh_e q_c ses) (\<lambda>ses.
       rbind (send_msg_newkeys ke pr ses) (\<lambda>ses.
       rbind (if \<not> donesecondkex (kexstate ses) \<and> allow_ext_info ses then send_msg_ext_info pr ses else Inr ses) (\<lambda>ses.
       rbind (if \<not> donesecondkex (kexstate ses)
         then rbind (deref (newkeys ses)) (\<lambda>nk. Inr (ses\<lparr>sigalgs := disable_sig_except (kc_algo_signature nk) (sigalgs ses)\<rparr>))
         else Inr ses) (\<lambda>ses.
       Inr (ses\<lparr>requirenext := SSH_MSG_NEWKEYS\<rparr>))))))))))"

section \<open>The server's table of signature algorithms\<close>

text \<open>\<^verbatim>\<open>disablekey\<close> marks the first entry of a type; the configuration calls it for each host key that is absent.\<close>

fun disablekey :: "int \<Rightarrow> unit algo_type list \<Rightarrow> unit algo_type list" where
  "disablekey type [] = []"
| "disablekey type (a # as) = (if al_val a = type then a\<lparr>al_usable := False\<rparr> # as else a # disablekey type as)"

text \<open>The part of \<^verbatim>\<open>svr_algos_initialise\<close> that concerns the signature algorithms, on the console.\<close>

definition svr_sigalgs_initialise :: "unit algo_type list \<Rightarrow> unit algo_type list" where
  "svr_sigalgs_initialise = map (\<lambda>a. let a = a\<lparr>al_usable := True\<rparr> in
     if al_name a = str ''ssh-ed25519'' then a\<lparr>al_val := 1\<rparr>
     else if al_name a = str ''sk-ssh-ed25519@openssh.com'' then a\<lparr>al_val := 2\<rparr>
     else if al_name a = str ''rsa-sha2-256'' then a\<lparr>al_val := 101\<rparr> else a)"

text \<open>The part that concerns the key exchange methods: every entry usable but the client's markers.\<close>

definition svr_sshkex_initialise :: "dropbear_kex algo_type list \<Rightarrow> dropbear_kex algo_type list" where
  "svr_sshkex_initialise = map (\<lambda>a. a\<lparr>al_usable := \<not> (al_name a = SSH_EXT_INFO_C \<or> al_name a = SSH_STRICT_KEX_C)\<rparr>)"

section \<open>The derived keys\<close>

text \<open>The key material of RFC 4253 section 7.2: each block hashes the secret, the exchange hash and all blocks before.\<close>

primrec key_material :: "hash_descriptor \<Rightarrow> byte list \<Rightarrow> byte list \<Rightarrow> byte \<Rightarrow> nat \<Rightarrow> byte list" where
  "key_material hde hs sid X 0 = hd_fun hde (hs @ [X] @ sid)"
| "key_material hde hs sid X (Suc n) = key_material hde hs sid X n @ hd_fun hde (hs @ key_material hde hs sid X n)"

definition hash_ok :: "hash_descriptor \<Rightarrow> bool" where
  "hash_ok hde \<longleftrightarrow> 0 < hd_hashsize hde \<and> hd_hashsize hde \<le> 64 \<and> (\<forall>bs. length (hd_fun hde bs) = hd_hashsize hde)"

lemma length_key_material: "hash_ok hde \<Longrightarrow> length (key_material hde hs sid X n) = Suc n * hd_hashsize hde"
  by (induction n) (auto simp: hash_ok_def)

lemma key_material_prefix: "m \<le> n \<Longrightarrow> \<exists>t. key_material hde hs sid X n = key_material hde hs sid X m @ t"
proof (induction n)
  case (Suc n)
  then show ?case by (cases "m = Suc n") auto
qed simp

lemma hashkeys_loop_eq:
  assumes h: "hash_ok hde" and "Suc k * hd_hashsize hde < outlen + hd_hashsize hde"
  shows "hashkeys_loop hde outlen hs (take outlen (key_material hde hs sid X k)) (Suc k * hd_hashsize hde)
     = Inr (take outlen (key_material hde hs sid X outlen))"
  using assms(2)
proof (induction "outlen - k" arbitrary: k rule: less_induct)
  case less
  let ?s = "hd_hashsize hde" and ?K = "key_material hde hs sid X"
  have s: "0 < ?s" "\<And>bs. length (hd_fun hde bs) = ?s" using h by (auto simp: hash_ok_def)
  have lk: "length (?K k) = Suc k * ?s" by (rule length_key_material [OF h])
  have "k * ?s < outlen" using less.prems by simp
  moreover have "k * 1 \<le> k * ?s" using s(1) by (intro mult_le_mono2) simp
  ultimately have ko: "k < outlen" by linarith
  show ?case
  proof (cases "Suc k * ?s < outlen")
    case True
    have "take (Suc k * ?s) (take outlen (?K k)) = ?K k" using lk True by simp
    moreover have "take outlen (?K (Suc k)) = ?K k @ take (min (outlen - Suc k * ?s) ?s) (hd_fun hde (hs @ ?K k))"
      using lk True s(2) by (simp add: min_def)
    ultimately have "hashkeys_loop hde outlen hs (take outlen (?K k)) (Suc k * ?s)
        = hashkeys_loop hde outlen hs (take outlen (?K (Suc k))) (Suc (Suc k) * ?s)"
      using True s(1) by (subst hashkeys_loop.simps) (simp add: add.commute)
    also have "\<dots> = Inr (take outlen (?K outlen))"
      using True ko by (intro less.hyps) auto
    finally show ?thesis .
  next
    case False
    obtain t where "?K outlen = ?K k @ t" using key_material_prefix [of k outlen] ko by fastforce
    then show ?thesis using False lk by (subst hashkeys_loop.simps) simp
  qed
qed

text \<open>
  C14. Keys are derived as RFC 4253 says: \<^verbatim>\<open>hashkeys\<close> ends, whatever the lengths of hash and key, with the first
  \<open>outlen\<close> bytes of the blocks that each hash the shared secret, the exchange hash and all blocks before them.
\<close>

theorem hashkeys_rfc4253:
  assumes "hash_ok hde"
  shows "hashkeys hde outlen hs sid X = Inr (take outlen (key_material hde hs sid X outlen))"
proof (cases "outlen = 0")
  case True
  then show ?thesis using assms by (simp add: hashkeys_def hash_ok_def hashkeys_loop.simps)
next
  case False
  have l: "length (key_material hde hs sid X 0) = hd_hashsize hde" using length_key_material [OF assms, of hs sid X 0] by simp
  have "take (min (hd_hashsize hde) outlen) (key_material hde hs sid X 0) = take outlen (key_material hde hs sid X 0)"
    using l by (simp add: min_def del: key_material.simps)
  then show ?thesis
    using hashkeys_loop_eq [OF assms, of 0 outlen hs sid X] False assms by (simp add: hashkeys_def hash_ok_def)
qed

definition toy_hash :: hash_descriptor where
  "toy_hash = \<lparr>hd_hashsize = 2, hd_fun = (\<lambda>bs. [of_nat (length bs), sum_list bs])\<rparr>"

theorem hashkeys_rfc4253_witness:
  "hashkeys toy_hash 5 [1, 2] [9] 65 = Inr (take 5 (key_material toy_hash [1, 2] [9] 65 5)) \<and> hashkeys toy_hash 5 [1, 2] [9] 65 = Inr [4, 77, 4, 84, 6]"
proof -
  have "hash_ok toy_hash" by (simp add: hash_ok_def toy_hash_def)
  from hashkeys_rfc4253 [OF this, of 5 "[1, 2]" "[9]" 65] have 1: "hashkeys toy_hash 5 [1, 2] [9] 65 = Inr (take 5 (key_material toy_hash [1, 2] [9] 65 5))" .
  have "take 5 (key_material toy_hash [1, 2] [9] 65 5) = [4, 77, 4, 84, 6]" by code_simp
  with 1 show ?thesis by simp
qed

section \<open>The switch of keys\<close>

abbreviation derived :: "kex_env \<Rightarrow> sshsession \<Rightarrow> key_context res" where
  "derived ke ses \<equiv> derive_keys ke (newkeys ses) (dh_K ses) (dh_K_bytes ses) (ses_hash ses) (session_id ses)"

lemma derive_keys_valid: "derive_keys ke nks K kb h si = Inr nk \<Longrightarrow> kd_valid (kc_recv nk) \<and> kd_valid (kc_trans nk)"
  by (auto simp: derive_keys_def Let_def split: option.splits)

lemma kexstate_same:
  "(k'\<lparr>datatrans := 0\<rparr> :: KEXState) = k\<lparr>datatrans := 0\<rparr> \<Longrightarrow> k' = k\<lparr>datatrans := datatrans k'\<rparr>"
  by (cases k; cases k') simp

text \<open>What the switch does once our NEWKEYS is out and the peer's is not in.\<close>

definition after_sent :: "key_context \<Rightarrow> sshsession \<Rightarrow> sshsession \<Rightarrow> bool" where
  "after_sent nk ses ses' \<longleftrightarrow> kc_trans (keys ses') = kc_trans nk \<and> kc_recv (keys ses') = kc_recv (keys ses)
     \<and> newkeys ses' = Some (nk\<lparr>kc_trans := kd_zero\<rparr>) \<and> dataallowed ses' \<and> sentnewkeys (kexstate ses') \<and> donefirstkex (kexstate ses')
     \<and> sentkexinit (kexstate ses') \<and> recvkexinit (kexstate ses') \<and> \<not> recvnewkeys (kexstate ses')
     \<and> strict_kex (kexstate ses') = strict_kex (kexstate ses) \<and> recvseq ses' = recvseq ses
     \<and> transseq ses' = (if strict_kex (kexstate ses) then 0 else transseq ses + 1)"

lemma send_msg_newkeys_eq:
  assumes s: "sendable pr ses" "wp_empty ses" and k: "sentkexinit (kexstate ses)" "recvkexinit (kexstate ses)" "\<not> recvnewkeys (kexstate ses)"
    and d: "derived ke ses = Inr nk"
  shows "\<exists>ses1 ses'. rbind (put_fields [F_byte SSH_MSG_NEWKEYS] ses) (encrypt_packet pr) = Inr ses1 \<and> emitted pr ses [SSH_MSG_NEWKEYS] ses1
     \<and> app_same ses ses1 \<and> send_msg_newkeys ke pr ses = Inr ses' \<and> after_sent nk ses ses' \<and> wp_empty ses'
     \<and> ses' = ses1\<lparr>keys := keys ses', newkeys := newkeys ses', dh_K := None, dh_K_bytes := None, ses_hash := None,
         kexstate := kexstate ses', dataallowed := True, transseq := transseq ses'\<rparr>"
proof -
  have m: "message [F_byte SSH_MSG_NEWKEYS] = [SSH_MSG_NEWKEYS]" by (simp add: message_def)
  obtain s1 where s1: "rbind (put_fields [F_byte SSH_MSG_NEWKEYS] ses) (encrypt_packet pr) = Inr s1" "wp_empty s1" "app_same ses s1"
      "emitted pr ses [SSH_MSG_NEWKEYS] s1"
    using ssh.send_fields [OF s, of "[F_byte SSH_MSG_NEWKEYS]"] unfolding m by auto
  have nh: "\<not> held_back ses SSH_MSG_NEWKEYS" by (simp add: held_back_def packet_is_okay_kex_def)
  have ts: "transseq s1 = transseq ses + 1" using s1(4) nh by (auto simp: emitted_def)
  have a: "newkeys s1 = newkeys ses" "dh_K s1 = dh_K ses" "dh_K_bytes s1 = dh_K_bytes ses" "ses_hash s1 = ses_hash ses"
      "session_id s1 = session_id ses" "kc_recv (keys s1) = kc_recv (keys ses)" "recvseq s1 = recvseq ses"
    using s1(3) by (simp_all add: app_same_def)
  have "(kexstate s1)\<lparr>datatrans := 0\<rparr> = (kexstate ses)\<lparr>datatrans := 0\<rparr>" using s1(3) by (simp add: app_same_def)
  then obtain dt where ks: "kexstate s1 = (kexstate ses)\<lparr>datatrans := dt\<rparr>" using kexstate_same by blast
  note v = derive_keys_valid [OF d]
  define ks0 where "ks0 = (kexstate s1)\<lparr>sentnewkeys := True\<rparr>"
  define ks1 where "ks1 = (if donefirstkex ks0 then ks0\<lparr>donesecondkex := True\<rparr> else ks0)\<lparr>donefirstkex := True\<rparr>"
  have k1: "sentkexinit ks1" "recvkexinit ks1" "\<not> recvnewkeys ks1" "sentnewkeys ks1" "donefirstkex ks1" "strict_kex ks1 = strict_kex (kexstate ses)"
    using k by (simp_all add: ks1_def ks0_def ks)
  define g where "g = s1\<lparr>kexstate := ks1, dataallowed := True, dh_K := None, dh_K_bytes := None, ses_hash := None, newkeys := Some nk\<rparr>"
  have gen: "gen_new_keys ke (s1\<lparr>kexstate := ks1, dataallowed := True\<rparr>) = Inr g" using d a by (simp add: gen_new_keys_def g_def)
  define s2 where "s2 = g\<lparr>keys := (keys s1)\<lparr>kc_trans := kc_trans nk\<rparr>, newkeys := Some (nk\<lparr>kc_trans := kd_zero\<rparr>)\<rparr>"
  have sw: "switch_keys g = Inr s2" using k1 v by (simp add: switch_keys_def g_def s2_def)
  define s3 where "s3 = (if strict_kex ks1 then s2\<lparr>transseq := 0\<rparr> else s2)"
  have run: "send_msg_newkeys ke pr ses = Inr s3"
  proof -
    obtain x where x: "wp_putbyte SSH_MSG_NEWKEYS ses = Inr x" "encrypt_packet pr x = Inr s1" using s1(1) by auto
    have "strict_kex (kexstate s2) = strict_kex ks1" by (simp add: s2_def g_def)
    then show ?thesis
      unfolding send_msg_newkeys_def x rbind.simps Let_def ks0_def [symmetric] ks1_def [symmetric] gen sw by (simp add: s3_def)
  qed
  have "after_sent nk ses s3" using k1 a ts unfolding after_sent_def s3_def s2_def g_def by simp
  moreover have "wp_empty s3" using s1(2) by (simp add: s3_def s2_def g_def wp_empty_def)
  moreover have "s3 = s1\<lparr>keys := keys s3, newkeys := newkeys s3, dh_K := None, dh_K_bytes := None, ses_hash := None,
         kexstate := kexstate s3, dataallowed := True, transseq := transseq s3\<rparr>"
    by (simp add: s3_def s2_def g_def)
  ultimately show ?thesis using s1 run by blast
qed


text \<open>The peer's NEWKEYS completes the exchange.\<close>

definition exchanged :: "key_context \<Rightarrow> sshsession \<Rightarrow> sshsession \<Rightarrow> bool" where
  "exchanged nk ses ses' \<longleftrightarrow> keys ses' = nk \<and> newkeys ses' = None
     \<and> \<not> sentkexinit (kexstate ses') \<and> \<not> recvkexinit (kexstate ses') \<and> \<not> sentnewkeys (kexstate ses') \<and> \<not> recvnewkeys (kexstate ses')
     \<and> recvfirstnewkeys (kexstate ses') \<and> donefirstkex (kexstate ses') \<and> datatrans (kexstate ses') = 0 \<and> datarecv (kexstate ses') = 0
     \<and> recvseq ses' = (if strict_kex (kexstate ses) then 0 else recvseq ses)
     \<and> transseq ses' = (if strict_kex (kexstate ses) then 0 else transseq ses + 1)"

lemma recv_msg_newkeys_eq:
  assumes a: "after_sent nk ses ses1" and v: "kd_valid (kc_recv nk)"
  shows "\<exists>ses'. recv_msg_newkeys ses1 = Inr ses' \<and> exchanged nk ses ses'"
proof -
  have z: "\<not> kd_valid kd_zero" by (simp add: kd_zero_def)
  have f: "newkeys ses1 = Some (nk\<lparr>kc_trans := kd_zero\<rparr>)" "sentkexinit (kexstate ses1)" "recvkexinit (kexstate ses1)" "sentnewkeys (kexstate ses1)"
    "strict_kex (kexstate ses1) = strict_kex (kexstate ses)" "kc_trans (keys ses1) = kc_trans nk" "donefirstkex (kexstate ses1)"
    "recvseq ses1 = recvseq ses" "transseq ses1 = (if strict_kex (kexstate ses) then 0 else transseq ses + 1)"
    using a by (simp_all add: after_sent_def)
  define s1 where "s1 = ses1\<lparr>kexstate := (kexstate ses1)\<lparr>recvnewkeys := True\<rparr>\<rparr>"
  have kk: "(keys ses1)\<lparr>kc_recv := kc_recv nk, kc_algo_kex := kc_algo_kex nk, kc_algo_hostkey := kc_algo_hostkey nk,
      kc_algo_signature := kc_algo_signature nk\<rparr> = nk" using f(6) by (cases "keys ses1"; cases nk) simp
  have sw: "switch_keys s1 = Inr (kexinitialise (s1\<lparr>keys := nk, newkeys := None\<rparr>))"
    using f v z by (simp add: switch_keys_def s1_def) (simp only: kk)
  show ?thesis
    unfolding recv_msg_newkeys_def s1_def [symmetric] sw rbind.simps Let_def
    using f by (simp add: exchanged_def kexinitialise_def s1_def)
qed

definition toy_env :: kex_env where
  "toy_env = \<lparr>ke_sshkex = [], ke_sshciphers = [], ke_sshhashes = [], ke_nocompress = [], ke_find_cipher = (\<lambda>_. 0),
     ke_find_hash = (\<lambda>_. 0), ke_kexdh_reply = (\<lambda>_ _ ses. Inr ses)\<rparr>"

definition toy_newkeys :: key_context where
  "toy_newkeys = \<lparr>kc_recv = no_keys_directional, kc_trans = no_keys_directional,
     kc_algo_kex = Some \<lparr>kx_mode = DROPBEAR_KEX_CURVE25519, kx_hash_desc = \<lparr>hd_hashsize = 64, hd_fun = (\<lambda>_. replicate 64 0)\<rparr>\<rparr>, kc_algo_hostkey = 1, kc_algo_signature = 1\<rparr>"

definition in_kex :: "sshsession \<Rightarrow> sshsession" where
  "in_kex ses = (let b = \<lparr>buf_data = [7, 7], buf_len = 2, buf_pos = 0, buf_size = 2\<rparr> in
     ses\<lparr>kexstate := (kexstate ses)\<lparr>sentkexinit := True, recvkexinit := True, strict_kex := True\<rparr>, newkeys := Some toy_newkeys,
         ses_hash := Some b, session_id := Some b\<rparr>)"

text \<open>A session in the middle of an exchange, for the witnesses.\<close>

lemma in_kex_session:
  "\<exists>ses nk. common_session_init 3 4 ses_zero = Inr ses \<and> sendable counting_primitives (in_kex ses) \<and> wp_empty (in_kex ses)
     \<and> sentkexinit (kexstate (in_kex ses)) \<and> recvkexinit (kexstate (in_kex ses)) \<and> \<not> recvnewkeys (kexstate (in_kex ses))
     \<and> strict_kex (kexstate (in_kex ses)) \<and> derived toy_env (in_kex ses) = Inr nk"
proof -
  obtain ses where s: "common_session_init 3 4 ses_zero = Inr ses" "sendable counting_primitives ses" "wp_empty ses"
    using common_session_init_eq [OF counting_random_ok, of 3 4] by blast
  have z: "dh_K ses = None" "dh_K_bytes ses = None" "recvnewkeys (kexstate ses) = False"
    using s(1) by (auto simp: common_session_init_def buf_new_def Let_def update_channel_prio_def ses_zero_def kexstate_zero_def)
  let ?b = "\<lparr>buf_data = [7, 7], buf_len = 2, buf_pos = 0, buf_size = 2\<rparr> :: buffer"
  have "\<not> isl (derive_keys toy_env (Some toy_newkeys) None None (Some ?b) (Some ?b))" by code_simp
  then obtain nk where "derive_keys toy_env (Some toy_newkeys) None None (Some ?b) (Some ?b) = Inr nk"
    by (cases "derive_keys toy_env (Some toy_newkeys) None None (Some ?b) (Some ?b)") auto
  then show ?thesis using s z by (intro exI [of _ ses] exI [of _ nk]) (simp add: in_kex_def Let_def sendable_def wp_ok_def wp_empty_def)
qed

text \<open>
  C15. Our NEWKEYS message is the last one under the old keys: \<^verbatim>\<open>send_msg_newkeys\<close> returns with the message
  sealed under the keys and sequence number in use before, and from then on the keys derived for sending
  are in use, data may be sent, the receiving keys are unchanged, and the sending sequence number starts
  at zero again when both ends agreed on strict key exchange.
\<close>

theorem newkeys_cutover:
  assumes "sendable pr ses" and "wp_empty ses" and "sentkexinit (kexstate ses)" and "recvkexinit (kexstate ses)"
    and "\<not> recvnewkeys (kexstate ses)" and "derived ke ses = Inr nk"
  shows "\<exists>ses' pad wire st. send_msg_newkeys ke pr ses = Inr ses' \<and> after_sent nk ses ses'
     \<and> seal_spec pr (kc_trans (keys ses)) (transseq ses) (clear_packet [SSH_MSG_NEWKEYS] pad) = Some (wire, st)
     \<and> queue_bytes (writequeue ses') = queue_bytes (writequeue ses) @ wire"
proof -
  obtain s1 s' where s: "emitted pr ses [SSH_MSG_NEWKEYS] s1" "send_msg_newkeys ke pr ses = Inr s'" "after_sent nk ses s'"
      "s' = s1\<lparr>keys := keys s', newkeys := newkeys s', dh_K := None, dh_K_bytes := None, ses_hash := None,
         kexstate := kexstate s', dataallowed := True, transseq := transseq s'\<rparr>"
    using send_msg_newkeys_eq [OF assms] by blast
  have "\<not> held_back ses SSH_MSG_NEWKEYS" by (simp add: held_back_def packet_is_okay_kex_def)
  then obtain pad wire st where "seal_spec pr (kc_trans (keys ses)) (transseq ses) (clear_packet [SSH_MSG_NEWKEYS] pad) = Some (wire, st)"
      "queue_bytes (writequeue s1) = queue_bytes (writequeue ses) @ wire"
    using s(1) by (auto simp: emitted_def)
  moreover have "writequeue s' = writequeue s1" by (subst s(4)) simp
  ultimately show ?thesis using s(2,3) by auto
qed

theorem newkeys_cutover_witness:
  "\<exists>ses ses' nk. common_session_init 3 4 ses_zero = Inr ses \<and> send_msg_newkeys toy_env counting_primitives (in_kex ses) = Inr ses'
     \<and> after_sent nk (in_kex ses) ses' \<and> transseq ses' = 0"
proof -
  obtain ses nk where k: "common_session_init 3 4 ses_zero = Inr ses" "sendable counting_primitives (in_kex ses)" "wp_empty (in_kex ses)"
      "sentkexinit (kexstate (in_kex ses))" "recvkexinit (kexstate (in_kex ses))" "\<not> recvnewkeys (kexstate (in_kex ses))"
      "strict_kex (kexstate (in_kex ses))" "derived toy_env (in_kex ses) = Inr nk" using in_kex_session by blast
  from newkeys_cutover [OF k(2-6,8)] k(1,7) show ?thesis by (auto simp: after_sent_def)
qed

text \<open>
  When both NEWKEYS messages have passed the exchange is over: sending ours and then handling the peer's
  leaves the derived keys in use in both directions, no pending keys, the exchange state and the byte
  counts reset for the next exchange, and both sequence numbers at zero under strict key exchange.
\<close>

theorem rekey_completes:
  assumes "sendable pr ses" and "wp_empty ses" and "sentkexinit (kexstate ses)" and "recvkexinit (kexstate ses)"
    and "\<not> recvnewkeys (kexstate ses)" and "derived ke ses = Inr nk"
  shows "\<exists>ses'. rbind (send_msg_newkeys ke pr ses) recv_msg_newkeys = Inr ses' \<and> exchanged nk ses ses'"
proof -
  obtain s' where s: "send_msg_newkeys ke pr ses = Inr s'" "after_sent nk ses s'" using send_msg_newkeys_eq [OF assms] by blast
  show ?thesis using recv_msg_newkeys_eq [OF s(2)] derive_keys_valid [OF assms(6)] s(1) by simp
qed

theorem rekey_completes_witness:
  "\<exists>ses ses' nk. common_session_init 3 4 ses_zero = Inr ses
     \<and> rbind (send_msg_newkeys toy_env counting_primitives (in_kex ses)) recv_msg_newkeys = Inr ses' \<and> exchanged nk (in_kex ses) ses'"
proof -
  obtain ses nk where k: "common_session_init 3 4 ses_zero = Inr ses" "sendable counting_primitives (in_kex ses)" "wp_empty (in_kex ses)"
      "sentkexinit (kexstate (in_kex ses))" "recvkexinit (kexstate (in_kex ses))" "\<not> recvnewkeys (kexstate (in_kex ses))"
      "strict_kex (kexstate (in_kex ses))" "derived toy_env (in_kex ses) = Inr nk" using in_kex_session by blast
  from rekey_completes [OF k(2-6,8)] k(1) show ?thesis by blast
qed

end
