(* ===== verification/Dispatch.thy ===== *)
theory Dispatch
  imports Receive
begin

text \<open>
  The dispatch of a decrypted packet to its handler, src/dropbear/src/process-packet.c: what is allowed before a key
  exchange is complete and before the user is authenticated. The table of handlers is an argument.
\<close>

type_synonym handler = "sshsession \<Rightarrow> sshsession res"

abbreviation MAX_UNAUTH_PACKET_TYPE :: byte where "MAX_UNAUTH_PACKET_TYPE \<equiv> 60"

definition recv_unimplemented :: "primitives \<Rightarrow> sshsession \<Rightarrow> sshsession res" where
  "recv_unimplemented pr ses = rbind (put_fields [F_byte SSH_MSG_UNIMPLEMENTED, F_int (recvseq ses - 1)] ses) (encrypt_packet pr)"

text \<open>The search of \<^verbatim>\<open>ses.packettypes\<close>, which an entry of type 0 ends.\<close>

fun find_handler :: "(byte \<times> handler) list \<Rightarrow> byte \<Rightarrow> handler option" where
  "find_handler [] type = None"
| "find_handler ((t, h) # table) type = (if t = 0 then None else if t = type then Some h else find_handler table type)"

text \<open>What follows the label \<^verbatim>\<open>out\<close>.\<close>

definition process_out :: "byte \<Rightarrow> sshsession \<Rightarrow> sshsession res" where
  "process_out type ses = Inr (ses\<lparr>lastpacket := type, payload := None\<rparr>)"

text \<open>The end of \<^verbatim>\<open>process_packet\<close>: the check of the authentication state and the call of the handler.\<close>

definition dispatch :: "primitives \<Rightarrow> (byte \<times> handler) list \<Rightarrow> byte \<Rightarrow> sshsession \<Rightarrow> sshsession res" where
  "dispatch pr table type ses =
     (if \<not> au_authdone (authstate ses) \<and> type > MAX_UNAUTH_PACKET_TYPE
      then Inl (Exit ''Received message %d before userauth'')
      else rbind (case find_handler table type of Some h \<Rightarrow> h ses | None \<Rightarrow> recv_unimplemented pr ses) (process_out type))"

text \<open>The checks before that, for a packet whose type was read.\<close>

definition process_type :: "primitives \<Rightarrow> (byte \<times> handler) list \<Rightarrow> bool \<Rightarrow> byte \<Rightarrow> sshsession \<Rightarrow> sshsession res" where
  "process_type pr table first_strict_kex type ses =
     (let now = clock ses; ses = ses\<lparr>last_packet_time_keepalive_recv := now\<rparr> in
     if type = SSH_MSG_DISCONNECT then Inl (Close ''Disconnect received'')
     else if \<not> first_strict_kex \<and> (type = SSH_MSG_IGNORE \<or> type = SSH_MSG_DEBUG \<or> type = SSH_MSG_UNIMPLEMENTED)
     then process_out type ses
     else let ses = (if \<not> (type = SSH_MSG_GLOBAL_REQUEST \<or> type = SSH_MSG_REQUEST_FAILURE \<or> type = SSH_MSG_CHANNEL_FAILURE)
            then ses\<lparr>last_packet_time_idle := now\<rparr> else ses) in
     if requirenext ses \<noteq> 0 \<and> requirenext ses \<noteq> type then
       (if type \<ge> 1 \<and> type \<le> 49 \<and> type \<noteq> SSH_MSG_SERVICE_REQUEST \<and> type \<noteq> SSH_MSG_SERVICE_ACCEPT
           \<and> type \<noteq> SSH_MSG_KEXINIT \<and> \<not> first_strict_kex
        then rbind (recv_unimplemented pr ses) (process_out type)
        else Inl (Exit ''Unexpected packet type %d, expected %d''))
     else if ignorenext ses then process_out type (ses\<lparr>ignorenext := False\<rparr>)
     else dispatch pr table type (if requirenext ses \<noteq> 0 \<and> requirenext ses = type then ses\<lparr>requirenext := 0\<rparr> else ses))"

definition process_packet :: "primitives \<Rightarrow> (byte \<times> handler) list \<Rightarrow> sshsession \<Rightarrow> sshsession res" where
  "process_packet pr table ses =
     (let first_strict_kex = (strict_kex (kexstate ses) \<and> \<not> recvfirstnewkeys (kexstate ses)) in
      rbind (from_payload buf_getbyte ses) (\<lambda>(type, ses). process_type pr table first_strict_kex type ses))"

lemma from_payload_same: "from_payload f ses = Inr (v, ses') \<Longrightarrow> ses' = ses\<lparr>payload := payload ses'\<rparr>"
  by (auto simp: from_payload_def split: option.splits)

lemma from_payload_getbyte:
  "payload ses = Some b \<Longrightarrow> buf_ok b \<Longrightarrow> buf_rest b = t # ts \<Longrightarrow> from_payload buf_getbyte ses = Inr (t, ses\<lparr>payload := Some (adv b 1)\<rparr>)"
  by (simp add: from_payload_def buf_getbyte_eq)

section \<open>Properties\<close>

text \<open>
  C16. Before the user is authenticated no handler of the connection protocol can run: the outcome of
  \<^verbatim>\<open>process_packet\<close> does not depend on the handlers of the message types above 60.
\<close>

theorem no_handler_before_auth:
  assumes "\<not> au_authdone (authstate ses)" and "\<forall>t \<le> MAX_UNAUTH_PACKET_TYPE. find_handler table t = find_handler table' t"
  shows "process_packet pr table ses = process_packet pr table' ses"
proof -
  have d: "dispatch pr table t s = dispatch pr table' t s" if "authstate s = authstate ses" for s t
    using assms that by (cases "t \<le> MAX_UNAUTH_PACKET_TYPE") (auto simp: dispatch_def not_le)
  have p: "process_type pr table fsk t s = process_type pr table' fsk t s" if "authstate s = authstate ses" for s t fsk
    unfolding process_type_def Let_def using that by (subst d) auto
  show ?thesis
    unfolding process_packet_def Let_def
  proof (intro rbind_cong refl, clarify)
    fix t s assume "from_payload buf_getbyte ses = Inr (t, s)"
    from from_payload_same [OF this] have "authstate s = authstate ses" by (rule ssubst) simp
    then show "process_type pr table (strict_kex (kexstate ses) \<and> \<not> recvfirstnewkeys (kexstate ses)) t s
       = process_type pr table' (strict_kex (kexstate ses) \<and> \<not> recvfirstnewkeys (kexstate ses)) t s" by (rule p)
  qed
qed

theorem no_handler_before_auth_witness:
  "let ses = ses_zero\<lparr>payload := Some \<lparr>buf_data = [90, 0], buf_len = 2, buf_pos = 0, buf_size = 2\<rparr>\<rparr>;
       opens = \<lambda>s. Inr (s\<lparr>chancount := 1\<rparr>) in
   process_packet counting_primitives [(SSH_MSG_CHANNEL_OPEN, opens)] ses = process_packet counting_primitives [] ses
   \<and> process_packet counting_primitives [(SSH_MSG_CHANNEL_OPEN, opens)] ses = Inl (Exit ''Received message %d before userauth'')
   \<and> process_packet counting_primitives [(SSH_MSG_CHANNEL_OPEN, opens)] (ses\<lparr>authstate := (authstate ses)\<lparr>au_authdone := True\<rparr>\<rparr>)
       = Inr (ses\<lparr>authstate := (authstate ses)\<lparr>au_authdone := True\<rparr>, chancount := 1, lastpacket := SSH_MSG_CHANNEL_OPEN, payload := None\<rparr>)"
proof -
  let ?b = "\<lparr>buf_data = [90, 0], buf_len = 2, buf_pos = 0, buf_size = 2\<rparr> :: buffer"
  let ?s = "ses_zero\<lparr>payload := Some ?b\<rparr>" and ?h = "\<lambda>s :: sshsession. Inr (s\<lparr>chancount := 1\<rparr>) :: sshsession res"
  let ?t = "?s\<lparr>authstate := (authstate ?s)\<lparr>au_authdone := True\<rparr>\<rparr>"
  have n: "\<not> au_authdone (authstate ?s)" by (simp add: ses_zero_def authstate_zero_def)
  have b: "buf_ok ?b" "buf_rest ?b = 90 # [0]" by (simp_all add: buf_ok_def buf_rest_def)
  have "\<forall>t \<le> MAX_UNAUTH_PACKET_TYPE. find_handler [(SSH_MSG_CHANNEL_OPEN, ?h)] t = find_handler [] t" by auto
  from no_handler_before_auth [OF n this] have "process_packet counting_primitives [(SSH_MSG_CHANNEL_OPEN, ?h)] ?s = process_packet counting_primitives [] ?s" .
  moreover have "process_packet counting_primitives [(SSH_MSG_CHANNEL_OPEN, ?h)] ?s = Inl (Exit ''Received message %d before userauth'')"
    using from_payload_getbyte [of ?s ?b 90 "[0]"] b by (simp add: process_packet_def process_type_def dispatch_def Let_def ses_zero_def authstate_zero_def)
  moreover have "process_packet counting_primitives [(SSH_MSG_CHANNEL_OPEN, ?h)] ?t
      = Inr (?t\<lparr>chancount := 1, lastpacket := SSH_MSG_CHANNEL_OPEN, payload := None\<rparr>)"
    using from_payload_getbyte [of ?t ?b 90 "[0]"] b
    by (simp add: process_packet_def process_type_def dispatch_def process_out_def Let_def ses_zero_def authstate_zero_def)
  ultimately show ?thesis by (simp only: Let_def)
qed

text \<open>
  C17. With strict key exchange nothing can be inserted into the first exchange: while a particular message
  is required, \<^verbatim>\<open>process_packet\<close> returns only when the packet is that message; every other type, also those
  that may otherwise be sent at any time, ends the session.
\<close>

theorem strict_kex_only_required:
  assumes "strict_kex (kexstate ses)" and "\<not> recvfirstnewkeys (kexstate ses)" and "requirenext ses \<noteq> 0"
    and "payload ses = Some b" and "buf_ok b" and "process_packet pr table ses = Inr ses'"
  shows "\<exists>ts. buf_rest b = requirenext ses # ts"
proof (cases "buf_rest b")
  case Nil
  then show ?thesis using assms(4-6) by (simp add: process_packet_def from_payload_def buf_getbyte_eq)
next
  case (Cons t ts)
  then show ?thesis
    using assms from_payload_getbyte [OF assms(4,5) Cons]
    by (auto simp: process_packet_def process_type_def Let_def split: if_splits)
qed

theorem strict_kex_only_required_witness:
  "\<exists>ses ses'. common_session_init 3 4 ses_zero = Inr ses \<and> requirenext ses = SSH_MSG_KEXINIT
     \<and> process_packet counting_primitives [(SSH_MSG_KEXINIT, Inr)] (ses\<lparr>kexstate := (kexstate ses)\<lparr>strict_kex := True\<rparr>,
         payload := Some \<lparr>buf_data = [20], buf_len = 1, buf_pos = 0, buf_size = 1\<rparr>\<rparr>) = Inr ses'
     \<and> (\<exists>ts. buf_rest \<lparr>buf_data = [20], buf_len = 1, buf_pos = 0, buf_size = 1\<rparr> = SSH_MSG_KEXINIT # ts)"
proof -
  let ?b = "\<lparr>buf_data = [20], buf_len = 1, buf_pos = 0, buf_size = 1\<rparr> :: buffer"
  obtain ses where s: "common_session_init 3 4 ses_zero = Inr ses"
    using common_session_init_eq [OF counting_random_ok, of 3 4] by blast
  have z: "requirenext ses = SSH_MSG_KEXINIT" "recvfirstnewkeys (kexstate ses) = False" "ignorenext ses = False"
    using s by (auto simp: common_session_init_def buf_new_def Let_def update_channel_prio_def ses_zero_def kexstate_zero_def)
  let ?s = "ses\<lparr>kexstate := (kexstate ses)\<lparr>strict_kex := True\<rparr>, payload := Some ?b\<rparr>"
  have b: "buf_ok ?b" "buf_rest ?b = [20]" by (simp_all add: buf_ok_def buf_rest_def)
  obtain ses' where p: "process_packet counting_primitives [(SSH_MSG_KEXINIT, Inr)] ?s = Inr ses'"
    using from_payload_getbyte [of ?s ?b 20 "[]"] b z
    by (simp add: process_packet_def process_type_def Let_def dispatch_def process_out_def)
  from strict_kex_only_required [OF _ _ _ _ b(1) p] z s p show ?thesis by auto
qed

end
