(* ===== verification/Listen.thy ===== *)
theory Listen
  imports Session
begin

text \<open>
  The table of listening sockets of src/dropbear/src/listener.c: slots that are reused, a bound on their number,
  and the loops that watch the sockets and hand connections to the acceptors.
\<close>

section \<open>The table\<close>

text \<open>
  The functions a listener points to. An acceptor is given the slot of the listener and the socket, a cleanup
  function the slot. A set of descriptors is an \<^verbatim>\<open>fd_set\<close>.
\<close>

record listen_env =
  le_acceptors :: "(nat \<Rightarrow> int \<Rightarrow> sshsession \<Rightarrow> sshsession res) list"
  le_cleanups :: "(nat \<Rightarrow> sshsession \<Rightarrow> sshsession res) list"

abbreviation LISTENER_TYPE_TCPFORWARDED :: int where "LISTENER_TYPE_TCPFORWARDED \<equiv> 1"
abbreviation LISTENER_TYPE_STREAMFORWARDED :: int where "LISTENER_TYPE_STREAMFORWARDED \<equiv> 2"
abbreviation CHANNEL_ID_STREAMLOCALFORWARDED :: int where "CHANNEL_ID_STREAMLOCALFORWARDED \<equiv> 1400140389"

abbreviation MAX_LISTENERS :: u32 where "MAX_LISTENERS \<equiv> 20"
abbreviation LISTENER_EXTEND_SIZE :: u32 where "LISTENER_EXTEND_SIZE \<equiv> 1"
abbreviation DROPBEAR_MAX_SOCKS :: nat where "DROPBEAR_MAX_SOCKS \<equiv> 2"

text \<open>\<^verbatim>\<open>ses.listeners[i]\<close>, which is a fault outside the allocation, and a function out of a table.\<close>

definition listener_at :: "nat \<Rightarrow> sshsession \<Rightarrow> Listener option res" where
  "listener_at i ses = (if i < length (listeners ses) then Inr (listeners ses ! i) else Inl Mem_fault)"

definition entry :: "'a list \<Rightarrow> nat \<Rightarrow> 'a res" where
  "entry xs i = (if i < length xs then Inr (xs ! i) else Inl Mem_fault)"

definition close_fd :: "int \<Rightarrow> sshsession \<Rightarrow> sshsession" where
  "close_fd fd ses = ses\<lparr>fds := (fds ses)\<lparr>fw_closed := fd # fw_closed (fds ses)\<rparr>\<rparr>"

section \<open>The operations\<close>

definition listeners_initialise :: "sshsession \<Rightarrow> sshsession" where
  "listeners_initialise ses = ses\<lparr>listeners := [None], listensize := 1\<rparr>"

definition set_listener_fds :: "int set \<Rightarrow> sshsession \<Rightarrow> int set res" where
  "set_listener_fds readfds ses = uloop (\<lambda>_. listensize ses) (\<lambda>i fs. rbind (listener_at (unat i) ses) (\<lambda>l.
     case l of None \<Rightarrow> Inr fs | Some l \<Rightarrow> Inr (fs \<union> set (ls_socks l)))) 0 readfds"

text \<open>
  The inner loop of \<^verbatim>\<open>handle_listeners\<close>, which reads its bound again in each round, since an acceptor
  may change the table. The array of sockets has \<^verbatim>\<open>DROPBEAR_MAX_SOCKS\<close> places.
\<close>

function accept_socks :: "listen_env \<Rightarrow> int set \<Rightarrow> nat \<Rightarrow> nat \<Rightarrow> sshsession \<Rightarrow> sshsession res" where
  "accept_socks le readfds i j ses = rbind (listener_at i ses) (\<lambda>l. case l of None \<Rightarrow> Inl Mem_fault | Some l \<Rightarrow>
     if j < length (ls_socks l) then
       if j \<ge> DROPBEAR_MAX_SOCKS then Inl Mem_fault
       else rbind (if ls_socks l ! j \<in> readfds then rbind (entry (le_acceptors le) (ls_acceptor l)) (\<lambda>acceptor. acceptor i (ls_socks l ! j) ses)
              else Inr ses) (\<lambda>ses. accept_socks le readfds i (Suc j) ses)
     else Inr ses)"
  by pat_completeness auto

termination
  by (relation "measure (\<lambda>(le, readfds, i, j, ses). DROPBEAR_MAX_SOCKS - j)") auto

declare accept_socks.simps [simp del]

definition handle_listeners :: "listen_env \<Rightarrow> int set \<Rightarrow> sshsession \<Rightarrow> sshsession res" where
  "handle_listeners le readfds ses = uloop listensize (\<lambda>i ses. rbind (listener_at (unat i) ses) (\<lambda>l.
     case l of None \<Rightarrow> Inr ses | Some _ \<Rightarrow> accept_socks le readfds (unat i) 0 ses)) 0 ses"

text \<open>The first free slot below the bound, or the bound.\<close>

fun first_free :: "'a option list \<Rightarrow> nat \<Rightarrow> nat" where
  "first_free xs 0 = 0"
| "first_free [] (Suc n) = Suc n"
| "first_free (x # xs) (Suc n) = (if x = None then 0 else Suc (first_free xs n))"

text \<open>The value is the slot of the new listener. On failure the sockets are closed.\<close>

definition place_listener :: "nat \<Rightarrow> int list \<Rightarrow> int \<Rightarrow> listen_data \<Rightarrow> nat \<Rightarrow> nat option \<Rightarrow> sshsession \<Rightarrow> (nat option \<times> sshsession) res" where
  "place_listener i socks type typedata acceptor cleanup ses =
     (if length socks > DROPBEAR_MAX_SOCKS \<or> i \<ge> length (listeners ses) then Inl Mem_fault
      else Inr (Some i, ses\<lparr>maxfd := foldl max (maxfd ses) socks,
        listeners := (listeners ses)[i := Some \<lparr>ls_socks = socks, ls_index = i, ls_acceptor = acceptor, ls_cleanup = cleanup,
          ls_type = type, ls_typedata = typedata\<rparr>]\<rparr>))"

definition new_listener :: "int list \<Rightarrow> int \<Rightarrow> listen_data \<Rightarrow> nat \<Rightarrow> nat option \<Rightarrow> sshsession \<Rightarrow> (nat option \<times> sshsession) res" where
  "new_listener socks type typedata acceptor cleanup ses =
     (if length (listeners ses) < unat (listensize ses) then Inl Mem_fault else
      let i = first_free (listeners ses) (unat (listensize ses)) in
      if i = unat (listensize ses) then
        if listensize ses > MAX_LISTENERS then Inr (None, foldl (\<lambda>ses fd. close_fd fd ses) ses socks)
        else place_listener i socks type typedata acceptor cleanup
          (ses\<lparr>listeners := take i (listeners ses) @ replicate (unat LISTENER_EXTEND_SIZE) None,
               listensize := listensize ses + LISTENER_EXTEND_SIZE\<rparr>)
      else place_listener i socks type typedata acceptor cleanup ses)"

fun find_listener :: "int \<Rightarrow> listen_data \<Rightarrow> (listen_data \<Rightarrow> listen_data \<Rightarrow> bool res) \<Rightarrow> Listener option list \<Rightarrow> nat \<Rightarrow> nat option res" where
  "find_listener type typedata mtch [] i = Inr None"
| "find_listener type typedata mtch (None # ls) i = find_listener type typedata mtch ls (Suc i)"
| "find_listener type typedata mtch (Some l # ls) i = (if ls_type l = type
     then rbind (mtch typedata (ls_typedata l)) (\<lambda>b. if b then Inr (Some i) else find_listener type typedata mtch ls (Suc i))
     else find_listener type typedata mtch ls (Suc i))"

definition get_listener :: "int \<Rightarrow> listen_data \<Rightarrow> (listen_data \<Rightarrow> listen_data \<Rightarrow> bool res) \<Rightarrow> sshsession \<Rightarrow> nat option res" where
  "get_listener type typedata mtch ses = (if length (listeners ses) < unat (listensize ses) then Inl Mem_fault
     else find_listener type typedata mtch (take (unat (listensize ses)) (listeners ses)) 0)"

definition remove_listener :: "listen_env \<Rightarrow> nat \<Rightarrow> sshsession \<Rightarrow> sshsession res" where
  "remove_listener le i ses = rbind (listener_at i ses) (\<lambda>l. case l of None \<Rightarrow> Inl Mem_fault | Some l \<Rightarrow>
     rbind (case ls_cleanup l of None \<Rightarrow> Inr ses | Some k \<Rightarrow> rbind (entry (le_cleanups le) k) (\<lambda>cleanup. cleanup i ses)) (\<lambda>ses.
     rbind (listener_at i ses) (\<lambda>l. case l of None \<Rightarrow> Inl Mem_fault | Some l \<Rightarrow>
     rbind (listener_at (ls_index l) ses) (\<lambda>_.
     Inr ((foldl (\<lambda>ses fd. close_fd fd ses) ses (ls_socks l))\<lparr>listeners := (listeners ses)[ls_index l := None]\<rparr>)))))"

definition remove_all_listeners :: "listen_env \<Rightarrow> sshsession \<Rightarrow> sshsession res" where
  "remove_all_listeners le ses = rbind (uloop listensize (\<lambda>i ses. rbind (listener_at (unat i) ses) (\<lambda>l.
     case l of None \<Rightarrow> Inr ses | Some _ \<Rightarrow> remove_listener le (unat i) ses)) 0 ses) (\<lambda>ses.
     Inr (ses\<lparr>listeners := []\<rparr>))"

section \<open>The invariant of the table\<close>

definition listener_ok :: "listen_env \<Rightarrow> nat \<Rightarrow> Listener \<Rightarrow> bool" where
  "listener_ok le i l \<longleftrightarrow> ls_index l = i \<and> length (ls_socks l) \<le> DROPBEAR_MAX_SOCKS \<and> ls_acceptor l < length (le_acceptors le)
     \<and> (case ls_cleanup l of None \<Rightarrow> True | Some k \<Rightarrow> k < length (le_cleanups le)) \<and> ls_type l \<in> {0, 1, 2}"

definition listeners_ok :: "listen_env \<Rightarrow> sshsession \<Rightarrow> bool" where
  "listeners_ok le ses \<longleftrightarrow> length (listeners ses) = unat (listensize ses) \<and> unat (listensize ses) \<le> 21
     \<and> (\<forall>i l. i < length (listeners ses) \<longrightarrow> listeners ses ! i = Some l \<longrightarrow> listener_ok le i l)"

end
