(* ===== verification/Channel.thy ===== *)
theory Channel
  imports Packet Listen
begin

text \<open>
  The channels of src/dropbear/src/common-channel.c: the table of channels, flow control in both directions, the data path
  between the wire, the ring buffer and the local descriptors, and the close handshake.
\<close>

section \<open>What the channels are given\<close>

text \<open>
  \<^verbatim>\<open>struct ChanType\<close>: the handlers are given the slot of the channel; a null pointer is \<open>None\<close>. \<open>ce_types\<close> are all channel
  types, \<open>ce_chantypes\<close> is \<^verbatim>\<open>ses.chantypes\<close>, the indices of those a peer may open, and \<open>ce_recv_window\<close> is
  \<^verbatim>\<open>opts.recv_window\<close>.
\<close>

record chan_type =
  ct_name :: "byte list"
  ct_inithandler :: "(nat \<Rightarrow> sshsession \<Rightarrow> (int \<times> sshsession) res) option"
  ct_check_close :: "(nat \<Rightarrow> sshsession \<Rightarrow> (bool \<times> sshsession) res) option"
  ct_reqhandler :: "(nat \<Rightarrow> sshsession \<Rightarrow> sshsession res) option"
  ct_closehandler :: "(nat \<Rightarrow> sshsession \<Rightarrow> sshsession res) option"
  ct_cleanup :: "(nat \<Rightarrow> sshsession \<Rightarrow> sshsession res) option"

record chan_env =
  ce_pr :: primitives
  ce_types :: "chan_type list"
  ce_chantypes :: "nat list"
  ce_recv_window :: u32
  ce_listen :: listen_env

abbreviation FD_UNINIT :: int where "FD_UNINIT \<equiv> - 2"
abbreviation FD_CLOSED :: int where "FD_CLOSED \<equiv> - 1"
abbreviation MAX_CHANNELS :: u32 where "MAX_CHANNELS \<equiv> 1000"
abbreviation CHAN_EXTEND_SIZE :: u32 where "CHAN_EXTEND_SIZE \<equiv> 3"
abbreviation MAX_NAME_LEN :: u32 where "MAX_NAME_LEN \<equiv> 64"
abbreviation RECV_MAX_CHANNEL_DATA_LEN :: u32 where "RECV_MAX_CHANNEL_DATA_LEN \<equiv> RECV_MAX_PAYLOAD_LEN - (1 + 4 + 4)"
abbreviation SSH_OPEN_CONNECT_FAILED :: int where "SSH_OPEN_CONNECT_FAILED \<equiv> 2"
abbreviation SSH_OPEN_UNKNOWN_CHANNEL_TYPE :: int where "SSH_OPEN_UNKNOWN_CHANNEL_TYPE \<equiv> 3"
abbreviation SSH_OPEN_RESOURCE_SHORTAGE :: int where "SSH_OPEN_RESOURCE_SHORTAGE \<equiv> 4"
abbreviation SSH_OPEN_IN_PROGRESS :: int where "SSH_OPEN_IN_PROGRESS \<equiv> 99"
abbreviation SSH_EXTENDED_DATA_STDERR :: u32 where "SSH_EXTENDED_DATA_STDERR \<equiv> 1"

abbreviation RECV_WINDOWEXTEND :: "chan_env \<Rightarrow> u32" where "RECV_WINDOWEXTEND ce \<equiv> ce_recv_window ce div 3"
abbreviation ERRFD_IS_READ :: "Channel \<Rightarrow> bool" where "ERRFD_IS_READ c \<equiv> ch_extrabuf c = None"
abbreviation ERRFD_IS_WRITE :: "Channel \<Rightarrow> bool" where "ERRFD_IS_WRITE c \<equiv> \<not> ERRFD_IS_READ c"

text \<open>
  A pointer to a channel is its slot in \<^verbatim>\<open>ses.channels\<close>; following it when the channel is gone is a fault. \<open>chan_type_of\<close>
  follows \<^verbatim>\<open>channel->type\<close>.
\<close>

definition chan :: "nat \<Rightarrow> sshsession \<Rightarrow> Channel res" where
  "chan i ses = (if i < length (channels ses)
     then (case channels ses ! i of None \<Rightarrow> Inl Mem_fault | Some c \<Rightarrow> Inr c) else Inl Mem_fault)"

definition set_chan :: "nat \<Rightarrow> Channel \<Rightarrow> sshsession \<Rightarrow> sshsession" where
  "set_chan i c ses = ses\<lparr>channels := (channels ses)[i := Some c]\<rparr>"

definition mod_chan :: "nat \<Rightarrow> (Channel \<Rightarrow> Channel) \<Rightarrow> sshsession \<Rightarrow> sshsession res" where
  "mod_chan i f ses = rbind (chan i ses) (\<lambda>c. Inr (set_chan i (f c) ses))"

definition chan_type_of :: "chan_env \<Rightarrow> Channel \<Rightarrow> chan_type res" where
  "chan_type_of ce c = entry (ce_types ce) (ch_type c)"

text \<open>A null check on \<^verbatim>\<open>ses.channels[i]\<close>, and a handler that may be null.\<close>

definition slot :: "u32 \<Rightarrow> sshsession \<Rightarrow> Channel option res" where
  "slot i ses = entry (channels ses) (unat i)"

definition handle :: "(nat \<Rightarrow> sshsession \<Rightarrow> sshsession res) option \<Rightarrow> nat \<Rightarrow> sshsession \<Rightarrow> sshsession res" where
  "handle h i ses = (case h of None \<Rightarrow> Inr ses | Some f \<Rightarrow> f i ses)"

section \<open>Local descriptors\<close>

text \<open>\<^verbatim>\<open>m_close\<close> of src/dropbear/src/dbutil.c.\<close>

definition m_close :: "int \<Rightarrow> sshsession \<Rightarrow> sshsession res" where
  "m_close fd ses = (if fd < 0 then Inr ses
     else if fw_close_ok (fds ses) fd then Inr (close_fd fd ses) else Inl (Exit ''Error closing fd %d, %s''))"

definition fd_read :: "int \<Rightarrow> nat \<Rightarrow> sshsession \<Rightarrow> fd_read \<times> sshsession" where
  "fd_read fd n ses = (case fw_reads (fds ses) fd of
     [] \<Rightarrow> (Fd_error, ses)
   | Fd_bytes bs # rs \<Rightarrow> (Fd_bytes (take n bs), ses\<lparr>fds := (fds ses)\<lparr>fw_reads := (fw_reads (fds ses))
       (fd := (if length bs \<le> n then rs else Fd_bytes (drop n bs) # rs))\<rparr>\<rparr>)
   | r # rs \<Rightarrow> (r, ses\<lparr>fds := (fds ses)\<lparr>fw_reads := (fw_reads (fds ses))(fd := rs)\<rparr>\<rparr>))"

definition fd_writev :: "int \<Rightarrow> byte list list \<Rightarrow> sshsession \<Rightarrow> write_result \<times> sshsession" where
  "fd_writev fd iov ses = (case fw_writes (fds ses) fd of
     [] \<Rightarrow> (Write_again, ses)
   | Wrote n # rs \<Rightarrow> (let k = min n (length (concat iov)) in
       (Wrote k, ses\<lparr>fds := (fds ses)\<lparr>fw_writes := (fw_writes (fds ses))(fd := rs),
          fw_written := (fw_written (fds ses))(fd := fw_written (fds ses) fd @ take k (concat iov))\<rparr>\<rparr>))
   | r # rs \<Rightarrow> (r, ses\<lparr>fds := (fds ses)\<lparr>fw_writes := (fw_writes (fds ses))(fd := rs)\<rparr>\<rparr>))"

text \<open>
  \<^verbatim>\<open>shutdown\<close> has no effect the session sees. The last argument is whether \<open>how\<close> is \<^verbatim>\<open>SHUT_RD\<close>, which is 0; the
  channel's descriptors after the call are computed first.
\<close>

definition chan_fd_closed :: "int \<Rightarrow> bool \<Rightarrow> Channel \<Rightarrow> Channel" where
  "chan_fd_closed fd rd c = (let closeout = (\<not> ch_bidir_fd c \<or> rd); closein = (\<not> ch_bidir_fd c \<or> \<not> rd) in
     c\<lparr>ch_readfd := (if closeout \<and> fd = ch_readfd c then FD_CLOSED else ch_readfd c),
       ch_writefd := (if closein \<and> fd = ch_writefd c then FD_CLOSED else ch_writefd c),
       ch_errfd := (if (closeout \<and> ERRFD_IS_READ c \<or> closein \<and> ERRFD_IS_WRITE c) \<and> fd = ch_errfd c then FD_CLOSED else ch_errfd c)\<rparr>)"

definition close_chan_fd :: "nat \<Rightarrow> int \<Rightarrow> bool \<Rightarrow> sshsession \<Rightarrow> sshsession res" where
  "close_chan_fd i fd rd ses =
     rbind (chan i ses) (\<lambda>c.
     rbind (if ch_bidir_fd c then Inr ses else m_close fd ses) (\<lambda>ses.
     let c = chan_fd_closed fd rd c; ses = set_chan i c ses in
     if ch_bidir_fd c \<and> ch_readfd c = FD_CLOSED \<and> ch_writefd c = FD_CLOSED \<and> ch_errfd c = FD_CLOSED
     then m_close fd ses else Inr ses))"

section \<open>The table of channels\<close>

definition chaninitialise :: "sshsession \<Rightarrow> sshsession" where
  "chaninitialise ses = listeners_initialise (ses\<lparr>channels := [None], chansize := 1, chancount := 0\<rparr>)"

definition new_chan :: "chan_env \<Rightarrow> nat \<Rightarrow> u32 \<Rightarrow> nat \<Rightarrow> u32 \<Rightarrow> u32 \<Rightarrow> circbuffer \<Rightarrow> Channel" where
  "new_chan ce i remotechan type transwindow transmaxpacket wb = \<lparr>ch_index = of_nat i, ch_remotechan = remotechan,
     ch_recvwindow = ce_recv_window ce, ch_transwindow = transwindow, ch_recvdonelen = 0,
     ch_recvmaxpacket = RECV_MAX_CHANNEL_DATA_LEN, ch_transmaxpacket = transmaxpacket, ch_writefd = FD_UNINIT,
     ch_readfd = FD_UNINIT, ch_errfd = FD_CLOSED, ch_bidir_fd = False, ch_writebuf = Some wb, ch_extrabuf = None,
     ch_sent_close = False, ch_recv_close = False, ch_recv_eof = False, ch_sent_eof = False, ch_flushing = False,
     ch_conn_pending = False, ch_await_open = False, ch_type = type, ch_typedata = None, ch_prio = DROPBEAR_PRIO_NORMAL\<rparr>"

definition newchannel :: "chan_env \<Rightarrow> u32 \<Rightarrow> nat \<Rightarrow> u32 \<Rightarrow> u32 \<Rightarrow> sshsession \<Rightarrow> (nat option \<times> sshsession) res" where
  "newchannel ce remotechan type transwindow transmaxpacket ses =
     (if length (channels ses) < unat (chansize ses) then Inl Mem_fault else
      let i = first_free (channels ses) (unat (chansize ses)) in
      if i = unat (chansize ses) \<and> chansize ses \<ge> MAX_CHANNELS then Inr (None, ses)
      else
        let ses = (if i = unat (chansize ses)
              then ses\<lparr>channels := take i (channels ses) @ replicate (unat CHAN_EXTEND_SIZE) None, chansize := chansize ses + CHAN_EXTEND_SIZE\<rparr>
              else ses) in
        rbind (cbuf_new (ce_recv_window ce)) (\<lambda>wb.
        Inr (Some i, (set_chan i (new_chan ce i remotechan type transwindow transmaxpacket wb) ses)\<lparr>chancount := chancount ses + 1\<rparr>)))"

text \<open>Finding the channel a message names. A peer that names none ends the session.\<close>

definition getchannel_msg :: "string option \<Rightarrow> sshsession \<Rightarrow> (nat \<times> sshsession) res" where
  "getchannel_msg kind ses =
     rbind (from_payload buf_getint ses) (\<lambda>(ch, ses).
     rbind (if ch \<ge> chansize ses then Inr None else slot ch ses) (\<lambda>c.
     case c of None \<Rightarrow> Inl (Exit (if kind = None then ''Unknown channel %d'' else ''%s for unknown channel %d''))
       | Some _ \<Rightarrow> Inr (unat ch, ses)))"

definition getchannel :: "sshsession \<Rightarrow> (nat \<times> sshsession) res" where
  "getchannel ses = getchannel_msg None ses"

text \<open>\<^verbatim>\<open>cancel_connect\<close> concerns the pending connection only.\<close>

definition remove_channel :: "chan_env \<Rightarrow> nat \<Rightarrow> sshsession \<Rightarrow> sshsession res" where
  "remove_channel ce i ses =
     rbind (chan i ses) (\<lambda>c.
     rbind (case ch_writebuf c of None \<Rightarrow> Inl Mem_fault | Some wb \<Rightarrow> cbuf_free wb) (\<lambda>_.
     rbind (case ch_extrabuf c of None \<Rightarrow> Inr None | Some eb \<Rightarrow> cbuf_free eb) (\<lambda>_.
     let ses = set_chan i (c\<lparr>ch_writebuf := None, ch_extrabuf := None\<rparr>) ses in
     rbind (if isserver ses \<or> ch_writefd c \<noteq> 1
       then rbind (m_close (ch_writefd c) ses) (\<lambda>ses. rbind (m_close (ch_readfd c) ses) (m_close (ch_errfd c))) else Inr ses) (\<lambda>ses.
     rbind (chan_type_of ce c) (\<lambda>type.
     rbind (handle (ct_cleanup type) i ses) (\<lambda>ses.
     rbind (chan i ses) (\<lambda>c.
     rbind (slot (ch_index c) ses) (\<lambda>_.
     Inr (update_channel_prio (ses\<lparr>channels := (channels ses)[unat (ch_index c) := None], chancount := chancount ses - 1\<rparr>))))))))))"

definition chancleanup :: "chan_env \<Rightarrow> sshsession \<Rightarrow> sshsession res" where
  "chancleanup ce ses = rbind (uloop chansize (\<lambda>i ses. rbind (slot i ses) (\<lambda>c.
     case c of None \<Rightarrow> Inr ses | Some _ \<Rightarrow> remove_channel ce (unat i) ses)) 0 ses) (\<lambda>ses. Inr (ses\<lparr>channels := []\<rparr>))"

section \<open>Messages\<close>

text \<open>A message is put together in the outgoing payload and handed to \<^verbatim>\<open>encrypt_packet\<close>.\<close>

definition send_fields :: "chan_env \<Rightarrow> field list \<Rightarrow> sshsession \<Rightarrow> sshsession res" where
  "send_fields ce fs ses = rbind (put_fields fs ses) (encrypt_packet (ce_pr ce))"

definition send_msg_channel_window_adjust :: "chan_env \<Rightarrow> nat \<Rightarrow> u32 \<Rightarrow> sshsession \<Rightarrow> sshsession res" where
  "send_msg_channel_window_adjust ce i incr ses = rbind (chan i ses) (\<lambda>c.
     send_fields ce [F_byte SSH_MSG_CHANNEL_WINDOW_ADJUST, F_int (ch_remotechan c), F_int incr] ses)"

definition send_msg_channel_eof :: "chan_env \<Rightarrow> nat \<Rightarrow> sshsession \<Rightarrow> sshsession res" where
  "send_msg_channel_eof ce i ses = rbind (chan i ses) (\<lambda>c.
     rbind (send_fields ce [F_byte SSH_MSG_CHANNEL_EOF, F_int (ch_remotechan c)] ses) (\<lambda>ses.
     mod_chan i (\<lambda>c. c\<lparr>ch_sent_eof := True\<rparr>) ses))"

definition send_msg_channel_close :: "chan_env \<Rightarrow> nat \<Rightarrow> sshsession \<Rightarrow> sshsession res" where
  "send_msg_channel_close ce i ses = rbind (chan i ses) (\<lambda>c. rbind (chan_type_of ce c) (\<lambda>type.
     rbind (handle (ct_closehandler type) i ses) (\<lambda>ses. rbind (chan i ses) (\<lambda>c.
     rbind (send_fields ce [F_byte SSH_MSG_CHANNEL_CLOSE, F_int (ch_remotechan c)] ses) (\<lambda>ses.
     rbind (mod_chan i (\<lambda>c. c\<lparr>ch_sent_eof := True, ch_sent_close := True\<rparr>) ses) (\<lambda>ses.
     rbind (chan i ses) (\<lambda>c. rbind (close_chan_fd i (ch_readfd c) True ses) (\<lambda>ses.
     rbind (chan i ses) (\<lambda>c. rbind (close_chan_fd i (ch_errfd c) False ses) (\<lambda>ses.
     rbind (chan i ses) (\<lambda>c. close_chan_fd i (ch_writefd c) False ses)))))))))))"

definition send_msg_channel_failure :: "chan_env \<Rightarrow> nat \<Rightarrow> sshsession \<Rightarrow> sshsession res" where
  "send_msg_channel_failure ce i ses = rbind (chan i ses) (\<lambda>c. if ch_sent_close c then Inr ses
     else send_fields ce [F_byte SSH_MSG_CHANNEL_FAILURE, F_int (ch_remotechan c)] ses)"

definition send_msg_channel_success :: "chan_env \<Rightarrow> nat \<Rightarrow> sshsession \<Rightarrow> sshsession res" where
  "send_msg_channel_success ce i ses = rbind (chan i ses) (\<lambda>c. if ch_sent_close c then Inr ses
     else send_fields ce [F_byte SSH_MSG_CHANNEL_SUCCESS, F_int (ch_remotechan c)] ses)"

definition send_msg_channel_open_failure :: "chan_env \<Rightarrow> u32 \<Rightarrow> int \<Rightarrow> byte list \<Rightarrow> byte list \<Rightarrow> sshsession \<Rightarrow> sshsession res" where
  "send_msg_channel_open_failure ce remotechan reason msg lang ses =
     send_fields ce [F_byte SSH_MSG_CHANNEL_OPEN_FAILURE, F_int remotechan, F_int (of_int reason), F_str msg, F_str lang] ses"

definition send_msg_channel_open_confirmation :: "chan_env \<Rightarrow> nat \<Rightarrow> u32 \<Rightarrow> u32 \<Rightarrow> sshsession \<Rightarrow> sshsession res" where
  "send_msg_channel_open_confirmation ce i recvwindow recvmaxpacket ses = rbind (chan i ses) (\<lambda>c.
     send_fields ce [F_byte SSH_MSG_CHANNEL_OPEN_CONFIRMATION, F_int (ch_remotechan c), F_int (ch_index c),
       F_int recvwindow, F_int recvmaxpacket] ses)"

definition send_msg_request_success :: "chan_env \<Rightarrow> sshsession \<Rightarrow> sshsession res" where
  "send_msg_request_success ce ses = send_fields ce [F_byte SSH_MSG_REQUEST_SUCCESS] ses"

definition send_msg_request_failure :: "chan_env \<Rightarrow> sshsession \<Rightarrow> sshsession res" where
  "send_msg_request_failure ce ses = send_fields ce [F_byte SSH_MSG_REQUEST_FAILURE] ses"

definition start_send_channel_request :: "nat \<Rightarrow> byte list \<Rightarrow> sshsession \<Rightarrow> sshsession res" where
  "start_send_channel_request i type ses = rbind (chan i ses) (\<lambda>c.
     put_fields [F_byte SSH_MSG_CHANNEL_REQUEST, F_int (ch_remotechan c), F_str type] ses)"

section \<open>The data path\<close>

text \<open>The ring buffer a call works on: \<^verbatim>\<open>channel->writebuf\<close> or \<^verbatim>\<open>channel->extrabuf\<close>.\<close>

datatype cbuf_ref = Writebuf | Extrabuf

fun the_cbuf :: "cbuf_ref \<Rightarrow> Channel \<Rightarrow> circbuffer option" where
  "the_cbuf Writebuf c = ch_writebuf c"
| "the_cbuf Extrabuf c = ch_extrabuf c"

fun put_cbuf :: "cbuf_ref \<Rightarrow> circbuffer \<Rightarrow> Channel \<Rightarrow> Channel" where
  "put_cbuf Writebuf cb c = c\<lparr>ch_writebuf := Some cb\<rparr>"
| "put_cbuf Extrabuf cb c = c\<lparr>ch_extrabuf := Some cb\<rparr>"

definition get_cbuf :: "cbuf_ref \<Rightarrow> Channel \<Rightarrow> circbuffer res" where
  "get_cbuf r c = (case the_cbuf r c of None \<Rightarrow> Inl Mem_fault | Some cb \<Rightarrow> Inr cb)"

text \<open>
  Writing out the buffered bytes and \<open>moredata\<close>. The value is whether the write did not fail, and how many bytes
  of \<open>moredata\<close> were consumed.
\<close>

definition writechannel_writev :: "nat \<Rightarrow> int \<Rightarrow> cbuf_ref \<Rightarrow> byte list option \<Rightarrow> sshsession \<Rightarrow> ((bool \<times> u32) \<times> sshsession) res" where
  "writechannel_writev i fd r moredata ses =
     rbind (chan i ses) (\<lambda>c. rbind (get_cbuf r c) (\<lambda>cbuf.
     case cbuf_readptrs cbuf of ((circ_p1, circ_len1), (circ_p2, circ_len2)) \<Rightarrow>
     rbind (cbuf_load cbuf circ_p1 circ_len1) (\<lambda>xs.
     rbind (cbuf_load cbuf (case circ_p2 of None \<Rightarrow> 0 | Some p \<Rightarrow> p) circ_len2) (\<lambda>ys.
     let iov = (if circ_len1 > 0 then [xs] else []) @ (if circ_len2 > 0 then [ys] else [])
           @ (case moredata of None \<Rightarrow> [] | Some m \<Rightarrow> [m]) in
     if iov = [] then Inr ((True, 0), ses)
     else (case fd_writev fd iov ses of (res, ses) \<Rightarrow>
       (case res of
          Write_again \<Rightarrow> Inr ((True, 0), ses)
        | Write_error \<Rightarrow> rbind (close_chan_fd i fd False ses) (\<lambda>ses. Inr ((False, 0), ses))
        | Wrote written \<Rightarrow>
            let cbuf_written = min (circ_len1 + circ_len2) (of_nat written) in
            rbind (cbuf_incrread cbuf cbuf_written) (\<lambda>cbuf.
            Inr ((True, of_nat written - cbuf_written),
              set_chan i ((put_cbuf r cbuf c)\<lparr>ch_recvdonelen := ch_recvdonelen c + of_nat written\<rparr>) ses))))))))"

definition window_asserts :: "chan_env \<Rightarrow> Channel \<Rightarrow> unit res" where
  "window_asserts ce c =
     rbind (dropbear_assert (ch_recvwindow c \<le> ce_recv_window ce)) (\<lambda>_.
     rbind (get_cbuf Writebuf c) (\<lambda>wb.
     rbind (dropbear_assert (ch_recvwindow c \<le> cbuf_getavail wb)) (\<lambda>_.
     dropbear_assert (case ch_extrabuf c of None \<Rightarrow> True | Some eb \<Rightarrow> ch_recvwindow c \<le> cbuf_getavail eb))))"

definition adjust_window :: "chan_env \<Rightarrow> nat \<Rightarrow> sshsession \<Rightarrow> sshsession res" where
  "adjust_window ce i ses = rbind (chan i ses) (\<lambda>c.
     if ch_recvdonelen c \<ge> RECV_WINDOWEXTEND ce
     then rbind (send_msg_channel_window_adjust ce i (ch_recvdonelen c) ses) (\<lambda>ses.
       mod_chan i (\<lambda>c. c\<lparr>ch_recvwindow := ch_recvwindow c + ch_recvdonelen c, ch_recvdonelen := 0\<rparr>) ses)
     else Inr ses)"

definition writechannel :: "chan_env \<Rightarrow> nat \<Rightarrow> int \<Rightarrow> cbuf_ref \<Rightarrow> byte list option \<Rightarrow> sshsession \<Rightarrow> ((bool \<times> u32) \<times> sshsession) res" where
  "writechannel ce i fd r moredata ses =
     rbind (writechannel_writev i fd r moredata ses) (\<lambda>(ret, ses).
     rbind (adjust_window ce i ses) (\<lambda>ses.
     rbind (chan i ses) (\<lambda>c. rbind (window_asserts ce c) (\<lambda>_. Inr (ret, ses)))))"

text \<open>The payload is read in place; the copy into the ring buffer is the loop of the ring buffer theory.\<close>

definition common_recv_msg_channel_data :: "chan_env \<Rightarrow> nat \<Rightarrow> int \<Rightarrow> cbuf_ref \<Rightarrow> sshsession \<Rightarrow> sshsession res" where
  "common_recv_msg_channel_data ce i fd r ses =
     rbind (chan i ses) (\<lambda>c.
     if ch_recv_eof c then Inl (Exit ''Received data after eof'')
     else if fd < 0 \<or> the_cbuf r c = None then Inr ses
     else rbind (from_payload buf_getint ses) (\<lambda>(datalen, ses).
     rbind (get_cbuf r c) (\<lambda>cbuf.
     if datalen > cbuf_getavail cbuf then Inl (Exit ''Oversized packet'')
     else rbind (dropbear_assert (ch_recvwindow c \<ge> datalen)) (\<lambda>_.
     let c = c\<lparr>ch_recvwindow := ch_recvwindow c - datalen\<rparr>; ses = set_chan i c ses in
     rbind (dropbear_assert (ch_recvwindow c \<le> ce_recv_window ce)) (\<lambda>_.
     rbind (case payload ses of None \<Rightarrow> Inl Mem_fault | Some p \<Rightarrow> rbind (buf_getptr p datalen) (\<lambda>q. rd_mem (buf_data p) q (unat datalen))) (\<lambda>bytes.
     rbind (writechannel ce i fd r (Some bytes) ses) (\<lambda>((res, consumed), ses).
     rbind (on_payload (\<lambda>p. buf_incrpos p consumed) ses) (\<lambda>ses.
     if \<not> res then Inr ses
     else rbind (chan i ses) (\<lambda>c. rbind (get_cbuf r c) (\<lambda>cbuf.
       case payload ses of None \<Rightarrow> Inl Mem_fault | Some p \<Rightarrow>
       rbind (copy_into_cbuf cbuf p (datalen - consumed)) (\<lambda>(cbuf, p).
       Inr (set_chan i (put_cbuf r cbuf c) (ses\<lparr>payload := Some p\<rparr>)))))))))))))"

definition recv_msg_channel_data :: "chan_env \<Rightarrow> sshsession \<Rightarrow> sshsession res" where
  "recv_msg_channel_data ce ses = rbind (getchannel ses) (\<lambda>(i, ses). rbind (chan i ses) (\<lambda>c.
     common_recv_msg_channel_data ce i (ch_writefd c) Writebuf ses))"

definition recv_msg_channel_window_adjust :: "sshsession \<Rightarrow> sshsession res" where
  "recv_msg_channel_window_adjust ses = rbind (getchannel ses) (\<lambda>(i, ses).
     rbind (from_payload buf_getint ses) (\<lambda>(incr, ses). rbind (chan i ses) (\<lambda>c.
     let newwin = ch_transwindow c + incr; newwin = (if newwin < ch_transwindow c then 0xffffffff else newwin) in
     Inr (set_chan i (c\<lparr>ch_transwindow := newwin\<rparr>) ses))))"

text \<open>
  Reading from the local side and sending what was read. \<^verbatim>\<open>read_mangler\<close> is null in the server. The size is put as
  a dummy first and overwritten when the data is there.
\<close>

definition send_msg_channel_data :: "chan_env \<Rightarrow> nat \<Rightarrow> bool \<Rightarrow> sshsession \<Rightarrow> sshsession res" where
  "send_msg_channel_data ce i isextended ses =
     rbind (chan i ses) (\<lambda>c.
     rbind (dropbear_assert (\<not> ch_sent_close c)) (\<lambda>_.
     let fd = (if isextended then ch_errfd c else ch_readfd c) in
     rbind (dropbear_assert (fd \<ge> 0)) (\<lambda>_.
     let maxlen = min (min (ch_transwindow c) (ch_transmaxpacket c))
           (buf_size (writepayload ses) - 1 - 4 - 4 - (if isextended then 4 else 0)) in
     if maxlen = 0 then Inr ses
     else rbind (put_fields ([F_byte (if isextended then SSH_MSG_CHANNEL_EXTENDED_DATA else SSH_MSG_CHANNEL_DATA), F_int (ch_remotechan c)]
            @ (if isextended then [F_int SSH_EXTENDED_DATA_STDERR] else [])) ses) (\<lambda>ses.
     let size_pos = buf_pos (writepayload ses) in
     rbind (put_fields [F_int 0] ses) (\<lambda>ses.
     rbind (buf_getwriteptr (writepayload ses) maxlen) (\<lambda>w.
     case fd_read fd (unat maxlen) ses of (res, ses) \<Rightarrow>
     (case res of
        Fd_eintr \<Rightarrow> wp_reset ses
      | Fd_error \<Rightarrow> rbind (close_chan_fd i fd True ses) wp_reset
      | Fd_bytes bs \<Rightarrow>
          if bs = [] then rbind (close_chan_fd i fd True ses) wp_reset
          else rbind (wr_mem (buf_data (writepayload ses)) w bs) (\<lambda>d.
          rbind (with_wp (\<lambda>b. buf_incrwritepos (b\<lparr>buf_data := d\<rparr>) (of_nat (length bs))) ses) (\<lambda>ses.
          rbind (with_wp (\<lambda>b. buf_setpos b size_pos) ses) (\<lambda>ses.
          rbind (put_fields [F_int (of_nat (length bs))] ses) (\<lambda>ses.
          rbind (mod_chan i (\<lambda>c. c\<lparr>ch_transwindow := ch_transwindow c - of_nat (length bs)\<rparr>) ses) (\<lambda>ses.
          encrypt_packet (ce_pr ce) ses))))))))))))"

section \<open>Closing\<close>

definition write_pending :: "Channel \<Rightarrow> bool res" where
  "write_pending c = rbind (if ch_writefd c \<ge> 0 then rbind (get_cbuf Writebuf c) (\<lambda>wb. Inr (cbuf_getused wb > 0)) else Inr False) (\<lambda>p.
     Inr (p \<or> (ch_errfd c \<ge> 0 \<and> (case ch_extrabuf c of None \<Rightarrow> False | Some eb \<Rightarrow> cbuf_getused eb > 0))))"

text \<open>\<^verbatim>\<open>fd_read_pending\<close> asks the kernel.\<close>

definition flush_fds :: "nat \<Rightarrow> sshsession \<Rightarrow> sshsession res" where
  "flush_fds i ses = rbind (chan i ses) (\<lambda>c. if \<not> ch_flushing c then Inr ses else
     rbind (if ch_readfd c \<ge> 0 \<and> \<not> fw_pending (fds ses) (ch_readfd c) then close_chan_fd i (ch_readfd c) True ses else Inr ses) (\<lambda>ses.
     rbind (chan i ses) (\<lambda>c.
     if ERRFD_IS_READ c \<and> ch_errfd c \<ge> 0 \<and> \<not> fw_pending (fds ses) (ch_errfd c) then close_chan_fd i (ch_errfd c) True ses else Inr ses)))"

definition close_permitted :: "chan_env \<Rightarrow> nat \<Rightarrow> sshsession \<Rightarrow> (bool \<times> sshsession) res" where
  "close_permitted ce i ses = rbind (chan i ses) (\<lambda>c. rbind (chan_type_of ce c) (\<lambda>type.
     case ct_check_close type of None \<Rightarrow> Inr (True, ses)
       | Some f \<Rightarrow> if ch_sent_close c then Inr (True, ses) else f i ses))"

text \<open>The part of \<^verbatim>\<open>check_close\<close> for a channel the peer has not closed, or which still has data to write.\<close>

definition half_close :: "chan_env \<Rightarrow> nat \<Rightarrow> bool \<Rightarrow> sshsession \<Rightarrow> sshsession res" where
  "half_close ce i close_allowed ses =
     rbind (chan i ses) (\<lambda>c. rbind (write_pending c) (\<lambda>pending. rbind (chan_type_of ce c) (\<lambda>type.
     rbind (if (ch_recv_eof c \<and> \<not> pending) \<or> (ch_writefd c \<noteq> FD_UNINIT \<and> ct_check_close type \<noteq> None \<and> close_allowed)
       then close_chan_fd i (ch_writefd c) False ses else Inr ses) (\<lambda>ses.
     rbind (chan i ses) (\<lambda>c.
     rbind (if \<not> ch_sent_eof c \<and> ch_readfd c = FD_CLOSED \<and> (ERRFD_IS_WRITE c \<or> ch_errfd c = FD_CLOSED)
       then send_msg_channel_eof ce i ses else Inr ses) (\<lambda>ses.
     rbind (chan i ses) (\<lambda>c. rbind (write_pending c) (\<lambda>pending.
     if ch_readfd c = FD_CLOSED \<and> ch_writefd c = FD_CLOSED \<and> (ERRFD_IS_WRITE c \<or> ch_errfd c = FD_CLOSED)
        \<and> \<not> ch_sent_close c \<and> close_allowed \<and> \<not> pending
     then send_msg_channel_close ce i ses else Inr ses))))))))"

definition check_close :: "chan_env \<Rightarrow> nat \<Rightarrow> sshsession \<Rightarrow> sshsession res" where
  "check_close ce i ses =
     rbind (close_permitted ce i ses) (\<lambda>(close_allowed, ses).
     rbind (flush_fds i ses) (\<lambda>ses.
     rbind (chan i ses) (\<lambda>c. rbind (write_pending c) (\<lambda>pending.
     if ch_recv_close c \<and> \<not> pending \<and> close_allowed then
       rbind (if \<not> ch_sent_close c then send_msg_channel_close ce i ses else Inr ses) (\<lambda>ses. remove_channel ce i ses)
     else half_close ce i close_allowed ses))))"

definition recv_msg_channel_eof :: "chan_env \<Rightarrow> sshsession \<Rightarrow> sshsession res" where
  "recv_msg_channel_eof ce ses = rbind (getchannel_msg (Some ''EOF'') ses) (\<lambda>(i, ses).
     rbind (mod_chan i (\<lambda>c. c\<lparr>ch_recv_eof := True\<rparr>) ses) (check_close ce i))"

definition recv_msg_channel_close :: "chan_env \<Rightarrow> sshsession \<Rightarrow> sshsession res" where
  "recv_msg_channel_close ce ses = rbind (getchannel_msg (Some ''Close'') ses) (\<lambda>(i, ses).
     rbind (mod_chan i (\<lambda>c. c\<lparr>ch_recv_eof := True, ch_recv_close := True\<rparr>) ses) (check_close ce i))"

section \<open>Opening\<close>

definition channel_connect_done :: "chan_env \<Rightarrow> bool \<Rightarrow> int \<Rightarrow> nat \<Rightarrow> byte list \<Rightarrow> sshsession \<Rightarrow> sshsession res" where
  "channel_connect_done ce result sock i errstring ses = (if result then
       rbind (mod_chan i (\<lambda>c. c\<lparr>ch_readfd := sock, ch_writefd := sock, ch_bidir_fd := True, ch_conn_pending := False\<rparr>) ses) (\<lambda>ses.
       rbind (chan i ses) (\<lambda>c. send_msg_channel_open_confirmation ce i (ch_recvwindow c) (ch_recvmaxpacket c) ses))
     else rbind (chan i ses) (\<lambda>c.
       rbind (send_msg_channel_open_failure ce (ch_remotechan c) SSH_OPEN_CONNECT_FAILED errstring [] ses) (remove_channel ce i)))"

text \<open>The loop over \<^verbatim>\<open>ses.chantypes\<close>; \<^verbatim>\<open>strcmp\<close> sees the name the peer sent up to its first null byte.\<close>

definition find_chantype :: "chan_env \<Rightarrow> byte list \<Rightarrow> nat option" where
  "find_chantype ce type = find (\<lambda>k. ct_name (ce_types ce ! k) = cstr type) (ce_chantypes ce)"

text \<open>What \<^verbatim>\<open>recv_msg_channel_open\<close> does with the new channel: the value is the error, if any.\<close>

definition init_channel :: "chan_env \<Rightarrow> nat \<Rightarrow> sshsession \<Rightarrow> (int option \<times> sshsession) res" where
  "init_channel ce i ses = rbind (chan i ses) (\<lambda>c. rbind (chan_type_of ce c) (\<lambda>type.
     rbind (case ct_inithandler type of None \<Rightarrow> Inr (0, ses) | Some f \<Rightarrow> f i ses) (\<lambda>(ret, ses).
     if ct_inithandler type \<noteq> None \<and> ret = SSH_OPEN_IN_PROGRESS then Inr (None, ses)
     else if ct_inithandler type \<noteq> None \<and> ret > 0 then rbind (remove_channel ce i ses) (\<lambda>ses. Inr (Some ret, ses))
     else let ses = update_channel_prio ses in
       rbind (chan i ses) (\<lambda>c. rbind (send_msg_channel_open_confirmation ce i (ch_recvwindow c) (ch_recvmaxpacket c) ses) (\<lambda>ses.
       Inr (None, ses))))))"

definition recv_msg_channel_open :: "chan_env \<Rightarrow> sshsession \<Rightarrow> sshsession res" where
  "recv_msg_channel_open ce ses =
     rbind (from_payload (\<lambda>b. rbind (buf_getstring b) (\<lambda>(s, l, b). Inr ((s, l), b))) ses) (\<lambda>((type, typelen), ses).
     rbind (from_payload buf_getint ses) (\<lambda>(remotechan, ses).
     rbind (from_payload buf_getint ses) (\<lambda>(transwindow, ses).
     rbind (from_payload buf_getint ses) (\<lambda>(transmaxpacket, ses).
     let transmaxpacket = min transmaxpacket TRANS_MAX_PAYLOAD_LEN;
         failure = (\<lambda>errtype ses. send_msg_channel_open_failure ce remotechan errtype [] [] ses) in
     if typelen > MAX_NAME_LEN then failure SSH_OPEN_UNKNOWN_CHANNEL_TYPE ses
     else case find_chantype ce type of
       None \<Rightarrow> failure SSH_OPEN_UNKNOWN_CHANNEL_TYPE ses
     | Some k \<Rightarrow> rbind (newchannel ce remotechan k transwindow transmaxpacket ses) (\<lambda>(r, ses).
         case r of None \<Rightarrow> failure SSH_OPEN_RESOURCE_SHORTAGE ses
         | Some i \<Rightarrow> rbind (init_channel ce i ses) (\<lambda>(err, ses).
             case err of None \<Rightarrow> Inr ses | Some errtype \<Rightarrow> failure errtype ses))))))"

text \<open>Opening a channel from our side; the caller adds to the message and sends it. The value is the slot.\<close>

definition send_msg_channel_open_init :: "chan_env \<Rightarrow> int \<Rightarrow> nat \<Rightarrow> sshsession \<Rightarrow> (nat option \<times> sshsession) res" where
  "send_msg_channel_open_init ce fd type ses =
     rbind (newchannel ce 0 type 0 0 ses) (\<lambda>(r, ses). case r of None \<Rightarrow> Inr (None, ses) | Some i \<Rightarrow>
     rbind (mod_chan i (\<lambda>c. c\<lparr>ch_writefd := fd, ch_readfd := fd, ch_bidir_fd := True, ch_await_open := True\<rparr>)
       (ses\<lparr>maxfd := max (maxfd ses) fd\<rparr>)) (\<lambda>ses.
     rbind (entry (ce_types ce) type) (\<lambda>ty. rbind (chan i ses) (\<lambda>c.
     rbind (put_fields [F_byte SSH_MSG_CHANNEL_OPEN, F_str (ct_name ty), F_int (ch_index c), F_int (ce_recv_window ce),
       F_int RECV_MAX_CHANNEL_DATA_LEN] ses) (\<lambda>ses. Inr (Some i, ses))))))"

definition recv_msg_channel_open_confirmation :: "chan_env \<Rightarrow> sshsession \<Rightarrow> sshsession res" where
  "recv_msg_channel_open_confirmation ce ses = rbind (getchannel ses) (\<lambda>(i, ses). rbind (chan i ses) (\<lambda>c.
     if \<not> ch_await_open c then Inl (Exit ''Unexpected channel reply'')
     else rbind (from_payload buf_getint (set_chan i (c\<lparr>ch_await_open := False\<rparr>) ses)) (\<lambda>(remotechan, ses).
     rbind (from_payload buf_getint ses) (\<lambda>(transwindow, ses).
     rbind (from_payload buf_getint ses) (\<lambda>(transmaxpacket, ses).
     rbind (mod_chan i (\<lambda>c. c\<lparr>ch_remotechan := remotechan, ch_transwindow := transwindow, ch_transmaxpacket := transmaxpacket\<rparr>) ses) (\<lambda>ses.
     rbind (chan_type_of ce c) (\<lambda>type.
     rbind (case ct_inithandler type of None \<Rightarrow> Inr (0, ses) | Some f \<Rightarrow> f i ses) (\<lambda>(ret, ses).
     if ct_inithandler type \<noteq> None \<and> ret > 0 then remove_channel ce i ses else Inr (update_channel_prio ses)))))))))"

definition recv_msg_channel_open_failure :: "chan_env \<Rightarrow> sshsession \<Rightarrow> sshsession res" where
  "recv_msg_channel_open_failure ce ses = rbind (getchannel ses) (\<lambda>(i, ses). rbind (chan i ses) (\<lambda>c.
     if \<not> ch_await_open c then Inl (Exit ''Unexpected channel reply'')
     else remove_channel ce i (set_chan i (c\<lparr>ch_await_open := False\<rparr>) ses)))"

definition recv_msg_channel_request :: "chan_env \<Rightarrow> sshsession \<Rightarrow> sshsession res" where
  "recv_msg_channel_request ce ses = rbind (getchannel ses) (\<lambda>(i, ses). rbind (chan i ses) (\<lambda>c. rbind (chan_type_of ce c) (\<lambda>type.
     case ct_reqhandler type of Some f \<Rightarrow> f i ses
     | None \<Rightarrow> rbind (on_payload buf_eatstring ses) (\<lambda>ses. rbind (from_payload buf_getbool ses) (\<lambda>(wantreply, ses).
         if wantreply \<noteq> 0 then send_msg_channel_failure ce i ses else Inr ses)))))"

section \<open>The event loop's part\<close>

definition channel_fds :: "bool \<Rightarrow> bool \<Rightarrow> Channel \<Rightarrow> int set \<times> int set \<Rightarrow> (int set \<times> int set) res" where
  "channel_fds data allow_reads c = (\<lambda>(readfds, writefds).
     let readfds = (if ch_transwindow c > 0 \<and> data \<and> allow_reads
           then readfds \<union> (if ch_readfd c \<ge> 0 then {ch_readfd c} else {})
                  \<union> (if ERRFD_IS_READ c \<and> ch_errfd c \<ge> 0 then {ch_errfd c} else {}) else readfds) in
     rbind (if ch_writefd c \<ge> 0 then rbind (get_cbuf Writebuf c) (\<lambda>wb.
         Inr (if cbuf_getused wb > 0 then insert (ch_writefd c) writefds else writefds)) else Inr writefds) (\<lambda>writefds.
     Inr (readfds, case ch_extrabuf c of None \<Rightarrow> writefds
       | Some eb \<Rightarrow> if ch_errfd c \<ge> 0 \<and> cbuf_getused eb > 0 then insert (ch_errfd c) writefds else writefds)))"

definition setchannelfds :: "bool \<Rightarrow> sshsession \<Rightarrow> int set \<times> int set \<Rightarrow> (int set \<times> int set) res" where
  "setchannelfds allow_reads ses fs =
     rbind (uloop (\<lambda>_. chansize ses) (\<lambda>i fs. rbind (slot i ses) (\<lambda>c.
       case c of None \<Rightarrow> Inr fs | Some c \<Rightarrow> channel_fds (dataallowed ses) allow_reads c fs)) 0 fs) (\<lambda>(readfds, writefds).
     rbind (set_listener_fds readfds ses) (\<lambda>readfds. Inr (readfds, writefds)))"

text \<open>One round of the loop of \<^verbatim>\<open>channelio\<close>; each step looks at the channel as the step before left it.\<close>

definition io_read :: "chan_env \<Rightarrow> int set \<Rightarrow> nat \<Rightarrow> bool \<times> sshsession \<Rightarrow> (bool \<times> sshsession) res" where
  "io_read ce readfds i = (\<lambda>(chk, ses). rbind (chan i ses) (\<lambda>c.
     if ch_readfd c \<ge> 0 \<and> ch_readfd c \<in> readfds
     then rbind (send_msg_channel_data ce i False ses) (\<lambda>ses. Inr (True, ses)) else Inr (chk, ses)))"

definition io_readerr :: "chan_env \<Rightarrow> int set \<Rightarrow> nat \<Rightarrow> bool \<times> sshsession \<Rightarrow> (bool \<times> sshsession) res" where
  "io_readerr ce readfds i = (\<lambda>(chk, ses). rbind (chan i ses) (\<lambda>c.
     if ERRFD_IS_READ c \<and> ch_errfd c \<ge> 0 \<and> ch_errfd c \<in> readfds
     then rbind (send_msg_channel_data ce i True ses) (\<lambda>ses. Inr (True, ses)) else Inr (chk, ses)))"

definition io_write :: "chan_env \<Rightarrow> int set \<Rightarrow> nat \<Rightarrow> bool \<times> sshsession \<Rightarrow> (bool \<times> sshsession) res" where
  "io_write ce writefds i = (\<lambda>(chk, ses). rbind (chan i ses) (\<lambda>c.
     if ch_writefd c \<ge> 0 \<and> ch_writefd c \<in> writefds
     then rbind (writechannel ce i (ch_writefd c) Writebuf None ses) (\<lambda>(_, ses). Inr (True, ses)) else Inr (chk, ses)))"

definition io_writeerr :: "chan_env \<Rightarrow> int set \<Rightarrow> nat \<Rightarrow> bool \<times> sshsession \<Rightarrow> (bool \<times> sshsession) res" where
  "io_writeerr ce writefds i = (\<lambda>(chk, ses). rbind (chan i ses) (\<lambda>c.
     if ERRFD_IS_WRITE c \<and> ch_errfd c \<ge> 0 \<and> ch_errfd c \<in> writefds
     then rbind (writechannel ce i (ch_errfd c) Extrabuf None ses) (\<lambda>(_, ses). Inr (True, ses)) else Inr (chk, ses)))"

definition channel_round :: "chan_env \<Rightarrow> int set \<Rightarrow> int set \<Rightarrow> u32 \<Rightarrow> sshsession \<Rightarrow> sshsession res" where
  "channel_round ce readfds writefds i ses = rbind (slot i ses) (\<lambda>c. case c of None \<Rightarrow> Inr ses | Some _ \<Rightarrow>
     rbind (io_read ce readfds (unat i) (False, ses)) (\<lambda>st.
     rbind (io_readerr ce readfds (unat i) st) (\<lambda>st.
     rbind (io_write ce writefds (unat i) st) (\<lambda>st.
     rbind (io_writeerr ce writefds (unat i) st) (\<lambda>(do_check_close, ses).
     if do_check_close \<or> channel_signal_pending ses then check_close ce (unat i) ses else Inr ses)))))"

definition channelio :: "chan_env \<Rightarrow> int set \<Rightarrow> int set \<Rightarrow> sshsession \<Rightarrow> sshsession res" where
  "channelio ce readfds writefds ses =
     rbind (uloop chansize (channel_round ce readfds writefds) 0 ses) (handle_listeners (ce_listen ce) readfds)"

definition get_any_ready_channel :: "sshsession \<Rightarrow> nat option res" where
  "get_any_ready_channel ses = (if chancount ses = 0 then Inr None
     else if length (channels ses) < unat (chansize ses) then Inl Mem_fault
     else Inr (find (\<lambda>i. case channels ses ! i of None \<Rightarrow> False
       | Some c \<Rightarrow> \<not> (ch_sent_eof c \<or> ch_recv_eof c) \<and> \<not> ch_await_open c) [0 ..< unat (chansize ses)]))"

section \<open>Invariants\<close>

text \<open>
  The bytes waiting in a channel's buffers, and the invariant of a channel: the window that is advertised, what was
  consumed but not yet acknowledged and what is still buffered never exceed the configured window, which is the size
  of the buffers. A channel that has sent its close may still be given descriptors, by a request that arrives late.
\<close>

fun used_of :: "circbuffer option \<Rightarrow> nat" where
  "used_of None = 0"
| "used_of (Some cb) = unat (cb_used cb)"

definition held :: "Channel \<Rightarrow> nat" where
  "held c = used_of (ch_writebuf c) + used_of (ch_extrabuf c)"

definition bufs_ok :: "chan_env \<Rightarrow> Channel \<Rightarrow> bool" where
  "bufs_ok ce c \<longleftrightarrow> (\<exists>wb. ch_writebuf c = Some wb \<and> cbuf_ok wb \<and> cb_size wb = ce_recv_window ce)
     \<and> (\<forall>eb. ch_extrabuf c = Some eb \<longrightarrow> cbuf_ok eb \<and> cb_size eb = ce_recv_window ce)"

definition window_ok :: "chan_env \<Rightarrow> Channel \<Rightarrow> bool" where
  "window_ok ce c \<longleftrightarrow> unat (ch_recvwindow c) + unat (ch_recvdonelen c) + held c \<le> unat (ce_recv_window ce)"

definition fds_ok :: "Channel \<Rightarrow> bool" where
  "fds_ok c \<longleftrightarrow> (ch_bidir_fd c \<longrightarrow> ch_errfd c = FD_CLOSED)"

definition chan_core :: "chan_env \<Rightarrow> nat \<Rightarrow> Channel \<Rightarrow> bool" where
  "chan_core ce i c \<longleftrightarrow> unat (ch_index c) = i \<and> ch_type c < length (ce_types ce) \<and> bufs_ok ce c \<and> window_ok ce c \<and> fds_ok c"

text \<open>
  A channel of a type with handlers that follow \<^verbatim>\<open>typedata\<close> has it, and a channel whose opening the peer has yet to
  confirm is of a type without an \<^verbatim>\<open>inithandler\<close>. Both hold of a channel once it is initialised. The backend of a
  session channel never ends by a signal.
\<close>

definition sess_ok :: "ChanSess \<Rightarrow> bool" where
  "sess_ok cs \<longleftrightarrow> (ex_exitpid (cs_exit cs) \<ge> 0 \<longrightarrow> ex_exitsignal (cs_exit cs) = - 1)"

definition typed_ok :: "chan_env \<Rightarrow> Channel \<Rightarrow> bool" where
  "typed_ok ce c \<longleftrightarrow> (let t = ce_types ce ! ch_type c in
     (ct_check_close t \<noteq> None \<or> ct_reqhandler t \<noteq> None \<longrightarrow> ch_typedata c \<noteq> None) \<and> (ch_await_open c \<longrightarrow> ct_inithandler t = None))
     \<and> (\<forall>cs. ch_typedata c = Some cs \<longrightarrow> sess_ok cs)"

definition chan_ok :: "chan_env \<Rightarrow> nat \<Rightarrow> Channel \<Rightarrow> bool" where
  "chan_ok ce i c \<longleftrightarrow> chan_core ce i c \<and> typed_ok ce c"

definition newborn :: "chan_env \<Rightarrow> nat \<Rightarrow> Channel \<Rightarrow> bool" where
  "newborn ce i c \<longleftrightarrow> chan_core ce i c \<and> ch_typedata c = None \<and> \<not> ch_await_open c \<and> \<not> ch_sent_close c
     \<and> ch_readfd c < 0 \<and> ch_writefd c < 0 \<and> ch_errfd c = FD_CLOSED \<and> \<not> ch_bidir_fd c"

text \<open>A session channel that has a listener for an agent refers to a listener that refers back to it and has no cleanup function.\<close>

definition agent_of :: "Channel \<Rightarrow> nat option" where
  "agent_of c = Option.bind (ch_typedata c) cs_agentlistener"

definition agents_ok :: "sshsession \<Rightarrow> bool" where
  "agents_ok ses \<longleftrightarrow> (\<forall>i c j. i < length (channels ses) \<longrightarrow> channels ses ! i = Some c \<longrightarrow> agent_of c = Some j
     \<longrightarrow> j < length (listeners ses) \<and> (\<exists>l. listeners ses ! j = Some l \<and> ls_typedata l = Agent i \<and> ls_cleanup l = None))"

definition base_ok :: "chan_env \<Rightarrow> sshsession \<Rightarrow> bool" where
  "base_ok ce ses \<longleftrightarrow> sendable (ce_pr ce) ses \<and> wp_empty ses \<and> payload_ok ses \<and> listeners_ok (ce_listen ce) ses \<and> agents_ok ses"

text \<open>The table: as many slots as \<^verbatim>\<open>chansize\<close> says, \<^verbatim>\<open>chancount\<close> of them in use, each by a channel that is in order.\<close>

definition occupied :: "'a option list \<Rightarrow> nat" where
  "occupied xs = length (filter (\<lambda>x. x \<noteq> None) xs)"

definition slots_ok :: "chan_env \<Rightarrow> sshsession \<Rightarrow> bool" where
  "slots_ok ce ses \<longleftrightarrow> length (channels ses) = unat (chansize ses) \<and> unat (chansize ses) \<le> 1002
     \<and> unat (chancount ses) = occupied (channels ses)
     \<and> (\<forall>i c. i < length (channels ses) \<longrightarrow> channels ses ! i = Some c \<longrightarrow> chan_ok ce i c)"

definition chans_ok :: "chan_env \<Rightarrow> sshsession \<Rightarrow> bool" where
  "chans_ok ce ses \<longleftrightarrow> base_ok ce ses \<and> slots_ok ce ses"

text \<open>The session \<open>ses\<close> is \<open>ses0\<close> with the channel in slot \<open>i\<close> set to \<open>c\<close>, as far as the channels are concerned.\<close>

definition with_chan :: "chan_env \<Rightarrow> sshsession \<Rightarrow> nat \<Rightarrow> Channel \<Rightarrow> sshsession \<Rightarrow> bool" where
  "with_chan ce ses0 i c ses \<longleftrightarrow> base_ok ce ses \<and> i < length (channels ses0) \<and> channels ses = (channels ses0)[i := Some c]
     \<and> chansize ses = chansize ses0 \<and> chancount ses = chancount ses0"

named_theorems chan_step \<open>contracts of the steps on one channel\<close>

lemma chan_eq: "chan i ses = Inr c \<longleftrightarrow> i < length (channels ses) \<and> channels ses ! i = Some c"
  by (auto simp: chan_def split: option.splits)

lemma agent_of_simps [simp]:
  "agent_of (c\<lparr>ch_index := x1\<rparr>) = agent_of c"
  "agent_of (c\<lparr>ch_remotechan := x2\<rparr>) = agent_of c"
  "agent_of (c\<lparr>ch_recvwindow := x3\<rparr>) = agent_of c"
  "agent_of (c\<lparr>ch_transwindow := x4\<rparr>) = agent_of c"
  "agent_of (c\<lparr>ch_recvdonelen := x5\<rparr>) = agent_of c"
  "agent_of (c\<lparr>ch_recvmaxpacket := x6\<rparr>) = agent_of c"
  "agent_of (c\<lparr>ch_transmaxpacket := x7\<rparr>) = agent_of c"
  "agent_of (c\<lparr>ch_writefd := x8\<rparr>) = agent_of c"
  "agent_of (c\<lparr>ch_readfd := x9\<rparr>) = agent_of c"
  "agent_of (c\<lparr>ch_errfd := x10\<rparr>) = agent_of c"
  "agent_of (c\<lparr>ch_bidir_fd := x11\<rparr>) = agent_of c"
  "agent_of (c\<lparr>ch_writebuf := x12\<rparr>) = agent_of c"
  "agent_of (c\<lparr>ch_extrabuf := x13\<rparr>) = agent_of c"
  "agent_of (c\<lparr>ch_sent_close := x14\<rparr>) = agent_of c"
  "agent_of (c\<lparr>ch_recv_close := x15\<rparr>) = agent_of c"
  "agent_of (c\<lparr>ch_recv_eof := x16\<rparr>) = agent_of c"
  "agent_of (c\<lparr>ch_sent_eof := x17\<rparr>) = agent_of c"
  "agent_of (c\<lparr>ch_flushing := x18\<rparr>) = agent_of c"
  "agent_of (c\<lparr>ch_conn_pending := x19\<rparr>) = agent_of c"
  "agent_of (c\<lparr>ch_await_open := x20\<rparr>) = agent_of c"
  "agent_of (c\<lparr>ch_type := x21\<rparr>) = agent_of c"
  "agent_of (c\<lparr>ch_prio := x22\<rparr>) = agent_of c"
  "agent_of (chan_fd_closed fd rd c) = agent_of c"
  by (simp_all add: agent_of_def chan_fd_closed_def Let_def)

lemma typed_ok_simps [simp]:
  "typed_ok ce (c\<lparr>ch_index := x1\<rparr>) = typed_ok ce c"
  "typed_ok ce (c\<lparr>ch_remotechan := x2\<rparr>) = typed_ok ce c"
  "typed_ok ce (c\<lparr>ch_recvwindow := x3\<rparr>) = typed_ok ce c"
  "typed_ok ce (c\<lparr>ch_transwindow := x4\<rparr>) = typed_ok ce c"
  "typed_ok ce (c\<lparr>ch_recvdonelen := x5\<rparr>) = typed_ok ce c"
  "typed_ok ce (c\<lparr>ch_recvmaxpacket := x6\<rparr>) = typed_ok ce c"
  "typed_ok ce (c\<lparr>ch_transmaxpacket := x7\<rparr>) = typed_ok ce c"
  "typed_ok ce (c\<lparr>ch_writefd := x8\<rparr>) = typed_ok ce c"
  "typed_ok ce (c\<lparr>ch_readfd := x9\<rparr>) = typed_ok ce c"
  "typed_ok ce (c\<lparr>ch_errfd := x10\<rparr>) = typed_ok ce c"
  "typed_ok ce (c\<lparr>ch_bidir_fd := x11\<rparr>) = typed_ok ce c"
  "typed_ok ce (c\<lparr>ch_writebuf := x12\<rparr>) = typed_ok ce c"
  "typed_ok ce (c\<lparr>ch_extrabuf := x13\<rparr>) = typed_ok ce c"
  "typed_ok ce (c\<lparr>ch_sent_close := x14\<rparr>) = typed_ok ce c"
  "typed_ok ce (c\<lparr>ch_recv_close := x15\<rparr>) = typed_ok ce c"
  "typed_ok ce (c\<lparr>ch_recv_eof := x16\<rparr>) = typed_ok ce c"
  "typed_ok ce (c\<lparr>ch_sent_eof := x17\<rparr>) = typed_ok ce c"
  "typed_ok ce (c\<lparr>ch_flushing := x18\<rparr>) = typed_ok ce c"
  "typed_ok ce (c\<lparr>ch_conn_pending := x19\<rparr>) = typed_ok ce c"
  "typed_ok ce (c\<lparr>ch_prio := x20\<rparr>) = typed_ok ce c"
  "typed_ok ce (chan_fd_closed fd rd c) = typed_ok ce c"
  by (simp_all add: typed_ok_def chan_fd_closed_def Let_def)

lemma typed_ok_open: "typed_ok ce c \<Longrightarrow> typed_ok ce (c\<lparr>ch_await_open := False\<rparr>)"
  by (simp add: typed_ok_def Let_def)

lemma chan_ok_open: "chan_ok ce i c \<Longrightarrow> chan_ok ce i (c\<lparr>ch_await_open := False\<rparr>)"
  by (simp add: chan_ok_def chan_core_def bufs_ok_def window_ok_def held_def fds_ok_def typed_ok_open)

lemma with_chan_chan: "with_chan ce ses0 i c ses \<Longrightarrow> chan i ses = Inr c"
  by (simp add: with_chan_def chan_eq)

lemma agents_ok_simps [simp]:
  "agents_ok (ses\<lparr>payload := x1\<rparr>) = agents_ok ses"
  "agents_ok (ses\<lparr>fds := x2\<rparr>) = agents_ok ses"
  "agents_ok (ses\<lparr>writepayload := x3\<rparr>) = agents_ok ses"
  "agents_ok (ses\<lparr>chancount := x4\<rparr>) = agents_ok ses"
  "agents_ok (ses\<lparr>chansize := x5\<rparr>) = agents_ok ses"
  "agents_ok (ses\<lparr>maxfd := x6\<rparr>) = agents_ok ses"
  "agents_ok (ses\<lparr>files := x7\<rparr>) = agents_ok ses"
  "agents_ok (ses\<lparr>authstate := x8\<rparr>) = agents_ok ses"
  "agents_ok (ses\<lparr>rng := x9\<rparr>) = agents_ok ses"
  "agents_ok (ses\<lparr>socket_prio := x10\<rparr>) = agents_ok ses"
  by (simp_all add: agents_ok_def)

lemma agents_okD:
  "agents_ok ses \<Longrightarrow> channels ses ! i = Some c \<Longrightarrow> i < length (channels ses) \<Longrightarrow> agent_of c = Some j \<Longrightarrow>
    j < length (listeners ses) \<and> (\<exists>l. listeners ses ! j = Some l \<and> ls_typedata l = Agent i \<and> ls_cleanup l = None)"
  by (simp add: agents_ok_def)

lemma agents_ok_upd:
  assumes "agents_ok ses" and "listeners s = listeners ses"
    and "\<And>i c. i < length (channels s) \<Longrightarrow> channels s ! i = Some c \<Longrightarrow>
      agent_of c = None \<or> (\<exists>c'. i < length (channels ses) \<and> channels ses ! i = Some c' \<and> agent_of c = agent_of c')"
  shows "agents_ok s"
  unfolding agents_ok_def
proof (intro allI impI)
  fix i c j assume "i < length (channels s)" "channels s ! i = Some c" "agent_of c = Some j"
  with assms(3) [of i c] obtain c' where "i < length (channels ses)" "channels ses ! i = Some c'" "agent_of c' = Some j" by auto
  from agents_okD [OF assms(1) this(2,1,3)] show "j < length (listeners s) \<and> (\<exists>l. listeners s ! j = Some l \<and> ls_typedata l = Agent i \<and> ls_cleanup l = None)"
    by (simp add: assms(2))
qed

lemma nth_update_cases:
  "xs[i := v] ! k = Some c \<Longrightarrow> k < length xs \<Longrightarrow> k = i \<and> v = Some c \<or> k \<noteq> i \<and> xs ! k = Some c"
  by (cases "k = i") auto

lemma agents_ok_set:
  assumes "agents_ok ses" and "i < length (channels ses) \<Longrightarrow> channels ses ! i = Some c" and "agent_of c' = agent_of c"
  shows "agents_ok (ses\<lparr>channels := (channels ses)[i := Some c']\<rparr>)"
  by (rule agents_ok_upd [OF assms(1)]) (use assms(2,3) in \<open>auto dest!: nth_update_cases\<close>)

lemma agents_ok_same:
  "agents_ok ses \<Longrightarrow> channels s = channels ses \<Longrightarrow> listeners s = listeners ses \<Longrightarrow> agents_ok s"
  by (simp add: agents_ok_def)

lemma with_chan_set:
  "with_chan ce ses0 i c ses \<Longrightarrow> agent_of c' = agent_of c \<Longrightarrow> with_chan ce ses0 i c' (set_chan i c' ses)"
  using agents_ok_set [of ses i c c']
  by (auto simp: with_chan_def set_chan_def base_ok_def sendable_def wp_empty_def payload_ok_def wp_ok_def listeners_ok_def)

lemma with_chan_start: "chans_ok ce ses \<Longrightarrow> chan i ses = Inr c \<Longrightarrow> with_chan ce ses i c ses"
  unfolding with_chan_def chans_ok_def chan_eq by (metis list_update_id)

lemma slot_some: "with_chan ce s i c s \<Longrightarrow> channels s ! i \<noteq> None"
  unfolding with_chan_def by (metis nth_list_update_eq option.distinct(1))

lemma base_ok_fds: "base_ok ce (ses\<lparr>fds := w\<rparr>) = base_ok ce ses"
  by (simp add: base_ok_def sendable_def wp_empty_def payload_ok_def wp_ok_def listeners_ok_def)

lemma with_chan_fds: "with_chan ce ses0 i c ses \<Longrightarrow> with_chan ce ses0 i c (ses\<lparr>fds := w\<rparr>)"
  by (simp add: with_chan_def base_ok_fds)

lemma mod_chan_step [chan_step]:
  "with_chan ce ses0 i c ses \<Longrightarrow> agent_of (f c) = agent_of c \<Longrightarrow> safe (with_chan ce ses0 i (f c)) (mod_chan i f ses)"
  by (simp add: mod_chan_def with_chan_chan with_chan_set)

lemma m_close_step [chan_step]:
  "with_chan ce ses0 i c ses \<Longrightarrow> safe (with_chan ce ses0 i c) (m_close fd ses)"
  by (simp add: m_close_def close_fd_def with_chan_fds)

lemma close_chan_fd_step [chan_step]:
  assumes "with_chan ce ses0 i c ses"
  shows "safe (with_chan ce ses0 i (chan_fd_closed fd rd c)) (close_chan_fd i fd rd ses)"
proof -
  have m: "safe (with_chan ce ses0 i c) (if ch_bidir_fd c then Inr ses else m_close fd ses)"
    using assms by (simp add: m_close_step)
  show ?thesis
    unfolding close_chan_fd_def with_chan_chan [OF assms] rbind.simps
    by (rule res_sat_bindI [OF m]) (auto simp: Let_def intro!: m_close_step with_chan_set)
qed

text \<open>Sending a message never fails and leaves the channels alone.\<close>

lemma app_same_chan:
  "with_chan ce ses0 i c ses \<Longrightarrow> sendable (ce_pr ce) s \<Longrightarrow> wp_empty s \<Longrightarrow> app_same ses s \<Longrightarrow> with_chan ce ses0 i c s"
  using agents_ok_same [of ses s]
  by (simp add: with_chan_def base_ok_def app_same_def payload_ok_def listeners_ok_def)

lemma send_fields_ok:
  assumes "base_ok ce ses" and "message fs \<noteq> []" and "length (message fs) \<le> 16384"
  shows "\<exists>s. send_fields ce fs ses = Inr s \<and> base_ok ce s \<and> app_same ses s \<and> emitted (ce_pr ce) ses (message fs) s"
  using ssh.send_fields [of "ce_pr ce" ses fs] assms
  by (auto simp: base_ok_def send_fields_def payload_ok_def app_same_def listeners_ok_def intro: agents_ok_same)

lemma send_fields_step:
  assumes "with_chan ce ses0 i c ses" and "message fs \<noteq> []" and "length (message fs) \<le> 16384"
  shows "safe (with_chan ce ses0 i c) (send_fields ce fs ses)"
proof -
  obtain s where "send_fields ce fs ses = Inr s" "base_ok ce s" "app_same ses s"
    using send_fields_ok [of ce ses fs] assms by (auto simp: with_chan_def)
  then show ?thesis using app_same_chan [OF assms(1), of s] by (simp add: base_ok_def)
qed

lemma message_small:
  "message (F_byte a # fs) \<noteq> []" "length (message [F_byte a]) \<le> 16384" "length (message [F_byte a, F_int x]) \<le> 16384"
  "length (message [F_byte a, F_int x, F_int y]) \<le> 16384" "length (message [F_byte a, F_int x, F_int y, F_int z, F_int w]) \<le> 16384"
  "length (message [F_byte a, F_int x, F_int y, F_str [], F_str []]) \<le> 16384"
  by (simp_all add: message_def)

lemma send_msg_steps [chan_step]:
  assumes w: "with_chan ce ses0 i c ses"
  shows "safe (with_chan ce ses0 i c) (send_msg_channel_window_adjust ce i incr ses)"
    and "safe (with_chan ce ses0 i c) (send_msg_channel_failure ce i ses)"
    and "safe (with_chan ce ses0 i c) (send_msg_channel_success ce i ses)"
    and "safe (with_chan ce ses0 i c) (send_msg_channel_open_confirmation ce i rw rm ses)"
  using w
  unfolding send_msg_channel_window_adjust_def send_msg_channel_failure_def
    send_msg_channel_success_def send_msg_channel_open_confirmation_def with_chan_chan [OF w] rbind.simps
  by (auto intro!: send_fields_step simp: message_small)

lemma send_msg_channel_eof_step [chan_step]:
  assumes w: "with_chan ce ses0 i c ses"
  shows "safe (with_chan ce ses0 i (c\<lparr>ch_sent_eof := True\<rparr>)) (send_msg_channel_eof ce i ses)"
  unfolding send_msg_channel_eof_def with_chan_chan [OF w] rbind.simps
  by (rule res_sat_bindI [OF send_fields_step [OF w]], (simp add: message_small)+) (rule mod_chan_step, assumption, simp)

subsection \<open>What steps keep\<close>

definition keeps :: "chan_env \<Rightarrow> sshsession \<Rightarrow> nat \<Rightarrow> sshsession \<Rightarrow> bool" where
  "keeps ce ses0 i ses \<longleftrightarrow> (\<exists>c. with_chan ce ses0 i c ses \<and> chan_ok ce i c)"

lemma fd_closed_same [simp]:
  "ch_index (chan_fd_closed fd rd c) = ch_index c" "ch_type (chan_fd_closed fd rd c) = ch_type c"
  "ch_writebuf (chan_fd_closed fd rd c) = ch_writebuf c" "ch_extrabuf (chan_fd_closed fd rd c) = ch_extrabuf c"
  "ch_recvwindow (chan_fd_closed fd rd c) = ch_recvwindow c" "ch_recvdonelen (chan_fd_closed fd rd c) = ch_recvdonelen c"
  "ch_bidir_fd (chan_fd_closed fd rd c) = ch_bidir_fd c" "ch_sent_close (chan_fd_closed fd rd c) = ch_sent_close c"
  "ch_recv_close (chan_fd_closed fd rd c) = ch_recv_close c" "ch_recv_eof (chan_fd_closed fd rd c) = ch_recv_eof c"
  "ch_sent_eof (chan_fd_closed fd rd c) = ch_sent_eof c" "ch_remotechan (chan_fd_closed fd rd c) = ch_remotechan c"
  "ch_transwindow (chan_fd_closed fd rd c) = ch_transwindow c"
  by (simp_all add: chan_fd_closed_def Let_def)

lemma fd_closed_fds:
  "ch_readfd (chan_fd_closed fd rd c) = (if (\<not> ch_bidir_fd c \<or> rd) \<and> fd = ch_readfd c then FD_CLOSED else ch_readfd c)"
  "ch_writefd (chan_fd_closed fd rd c) = (if (\<not> ch_bidir_fd c \<or> \<not> rd) \<and> fd = ch_writefd c then FD_CLOSED else ch_writefd c)"
  "ch_errfd (chan_fd_closed fd rd c) = (if (\<not> ch_bidir_fd c \<or> rd = ERRFD_IS_READ c) \<and> fd = ch_errfd c then FD_CLOSED else ch_errfd c)"
  by (auto simp: chan_fd_closed_def Let_def)

lemma fd_closed_bufs [simp]:
  "bufs_ok ce (chan_fd_closed fd rd c) = bufs_ok ce c" "window_ok ce (chan_fd_closed fd rd c) = window_ok ce c"
  by (simp_all only: bufs_ok_def window_ok_def held_def fd_closed_same)

lemma fd_closed_cases:
  "ch_readfd (chan_fd_closed fd rd c) = ch_readfd c \<or> ch_readfd (chan_fd_closed fd rd c) = FD_CLOSED"
  "ch_writefd (chan_fd_closed fd rd c) = ch_writefd c \<or> ch_writefd (chan_fd_closed fd rd c) = FD_CLOSED"
  "ch_errfd (chan_fd_closed fd rd c) = ch_errfd c \<or> ch_errfd (chan_fd_closed fd rd c) = FD_CLOSED"
  by (simp_all only: fd_closed_fds split: if_split) blast+

lemma fds_ok_closed: "fds_ok c \<Longrightarrow> fds_ok (chan_fd_closed fd rd c)"
  unfolding fds_ok_def fd_closed_same
  using fd_closed_cases [of fd rd c] by auto

lemma chan_ok_fd_closed: "chan_ok ce i c \<Longrightarrow> chan_ok ce i (chan_fd_closed fd rd c)"
  unfolding chan_ok_def chan_core_def fd_closed_same fd_closed_bufs by (simp add: fds_ok_closed)

lemma chan_ok_flags [simp]:
  "chan_ok ce i (c\<lparr>ch_sent_eof := b\<rparr>) = chan_ok ce i c"
  "chan_ok ce i (c\<lparr>ch_recv_eof := b\<rparr>) = chan_ok ce i c"
  "chan_ok ce i (c\<lparr>ch_recv_close := b\<rparr>) = chan_ok ce i c"
  "chan_ok ce i (c\<lparr>ch_flushing := b\<rparr>) = chan_ok ce i c"
  "chan_ok ce i (c\<lparr>ch_conn_pending := b\<rparr>) = chan_ok ce i c"
  "chan_ok ce i (c\<lparr>ch_transwindow := x\<rparr>) = chan_ok ce i c"
  "chan_ok ce i (c\<lparr>ch_transmaxpacket := x\<rparr>) = chan_ok ce i c"
  "chan_ok ce i (c\<lparr>ch_remotechan := x\<rparr>) = chan_ok ce i c"
  by (simp_all add: chan_ok_def chan_core_def bufs_ok_def window_ok_def held_def fds_ok_def)

text \<open>The three closes at the end of \<^verbatim>\<open>send_msg_channel_close\<close> leave no descriptor.\<close>

lemma chan_ok_all_closed:
  fixes c :: Channel
  defines "c1 \<equiv> chan_fd_closed (ch_readfd c) True (c\<lparr>ch_sent_eof := True, ch_sent_close := True\<rparr>)"
  defines "c2 \<equiv> chan_fd_closed (ch_errfd c1) False c1"
  assumes "chan_ok ce i c"
  shows "chan_ok ce i (chan_fd_closed (ch_writefd c2) False c2)"
proof -
  have "fds_ok (chan_fd_closed (ch_writefd c2) False c2)"
    using assms(3) by (auto simp: chan_ok_def chan_core_def fds_ok_def c1_def c2_def fd_closed_fds)
  moreover have "bufs_ok ce (c\<lparr>ch_sent_eof := True, ch_sent_close := True\<rparr>) = bufs_ok ce c"
      "window_ok ce (c\<lparr>ch_sent_eof := True, ch_sent_close := True\<rparr>) = window_ok ce c"
    by (simp_all add: bufs_ok_def window_ok_def held_def)
  ultimately show ?thesis using assms(3) by (simp add: chan_ok_def chan_core_def c1_def c2_def)
qed

lemma occupied_update: "i < length xs \<Longrightarrow> xs ! i \<noteq> None \<Longrightarrow> occupied (xs[i := Some c]) = occupied xs"
proof (induction xs arbitrary: i)
  case (Cons x xs)
  then show ?case by (cases i) (auto simp: occupied_def)
qed simp

lemma keeps_chans_ok:
  assumes "slots_ok ce ses0" and "channels ses0 ! i \<noteq> None" and "keeps ce ses0 i ses"
  shows "chans_ok ce ses"
  using assms by (auto simp: chans_ok_def slots_ok_def keeps_def with_chan_def occupied_update nth_list_update split: if_splits)

text \<open>A rule to walk through a handler: fetching the channel.\<close>

lemma keeps_chanI:
  assumes "keeps ce ses0 i ses" and "\<And>c. with_chan ce ses0 i c ses \<Longrightarrow> chan_ok ce i c \<Longrightarrow> res_sat E Q (f c)"
  shows "res_sat E Q (rbind (chan i ses) f)"
proof -
  obtain c where w: "with_chan ce ses0 i c ses" and ok: "chan_ok ce i c" using assms(1) by (auto simp: keeps_def)
  show ?thesis unfolding with_chan_chan [OF w] rbind.simps by (rule assms(2) [OF w ok])
qed

lemma keepsI: "with_chan ce ses0 i c ses \<Longrightarrow> chan_ok ce i c \<Longrightarrow> keeps ce ses0 i ses"
  by (auto simp: keeps_def)

lemma close_fd_keeps: "keeps ce ses0 i ses \<Longrightarrow> safe (keeps ce ses0 i) (close_chan_fd i fd rd ses)"
  unfolding keeps_def by (elim exE conjE, rule res_sat_mono, erule close_chan_fd_step) (blast intro: chan_ok_fd_closed)

lemma flush_fds_step: "keeps ce ses0 i ses \<Longrightarrow> safe (keeps ce ses0 i) (flush_fds i ses)"
  unfolding flush_fds_def
  by (rule keeps_chanI, assumption, rule res_sat_if, simp, rule res_sat_bindI [where P = "keeps ce ses0 i"],
      rule res_sat_if, erule close_fd_keeps, simp, rule keeps_chanI, assumption, rule res_sat_if, erule close_fd_keeps, simp)

lemma write_pending_ok: "chan_ok ce i c \<Longrightarrow> \<exists>b. write_pending c = Inr b"
  by (auto simp: write_pending_def chan_ok_def chan_core_def bufs_ok_def get_cbuf_def)

lemma write_pendingI:
  "chan_ok ce i c \<Longrightarrow> (\<And>b. write_pending c = Inr b \<Longrightarrow> res_sat E Q (f b)) \<Longrightarrow> res_sat E Q (rbind (write_pending c) f)"
  using write_pending_ok by fastforce

section \<open>Channels with well-behaved handlers\<close>

text \<open>
  What the channel code relies on: a window the ring buffer accepts, and handlers that end in an orderly way, leave the
  outgoing packet empty and change no channel but their own, which they keep in order. They are only called for channels of
  their type. A type without an \<^verbatim>\<open>inithandler\<close> has no handler that follows \<^verbatim>\<open>typedata\<close>; an \<^verbatim>\<open>inithandler\<close> sees a
  channel that is new and puts it in order. A close handler does not change the channel; a cleanup function is called with
  the buffers already freed.
\<close>

locale channel_handlers =
  fixes ce :: chan_env
  assumes window_pos: "0 < unat (ce_recv_window ce)" and window_max: "unat (ce_recv_window ce) \<le> 10485760"
    and chantypes_valid: "k \<in> set (ce_chantypes ce) \<Longrightarrow> k < length (ce_types ce)"
    and untyped: "t \<in> set (ce_types ce) \<Longrightarrow> ct_inithandler t = None \<Longrightarrow> ct_check_close t = None \<and> ct_reqhandler t = None"
    and init_keeps: "ct_inithandler t = Some f \<Longrightarrow> with_chan ce ses0 i c ses \<Longrightarrow> newborn ce i c \<Longrightarrow> chan_type_of ce c = Inr t
      \<Longrightarrow> payload ses \<noteq> None \<Longrightarrow> safe (\<lambda>(r, s). keeps ce ses0 i s) (f i ses)"
    and check_keeps: "ct_check_close t = Some g \<Longrightarrow> with_chan ce ses0 i c ses \<Longrightarrow> chan_ok ce i c \<Longrightarrow> chan_type_of ce c = Inr t
      \<Longrightarrow> safe (\<lambda>(r, s). keeps ce ses0 i s) (g i ses)"
    and req_keeps: "ct_reqhandler t = Some h \<Longrightarrow> with_chan ce ses0 i c ses \<Longrightarrow> chan_ok ce i c \<Longrightarrow> chan_type_of ce c = Inr t
      \<Longrightarrow> payload ses \<noteq> None \<Longrightarrow> safe (keeps ce ses0 i) (h i ses)"
    and close_keeps: "ct_closehandler t = Some h \<Longrightarrow> with_chan ce ses0 i c ses \<Longrightarrow> chan_ok ce i c \<Longrightarrow> chan_type_of ce c = Inr t
      \<Longrightarrow> safe (with_chan ce ses0 i c) (h i ses)"
    and cleanup_keeps: "ct_cleanup t = Some h \<Longrightarrow> with_chan ce ses0 i c ses \<Longrightarrow> chan_type_of ce c = Inr t
      \<Longrightarrow> safe (\<lambda>s. \<exists>c'. with_chan ce ses0 i c' s \<and> ch_index c' = ch_index c) (h i ses)"
    and acceptors_keep: "a \<in> set (le_acceptors (ce_listen ce)) \<Longrightarrow> chans_ok ce ses
      \<Longrightarrow> safe (\<lambda>s. chans_ok ce s \<and> listeners s = listeners ses \<and> listensize s = listensize ses) (a j sock ses)"
begin

lemma chan_type_ok: "chan_ok ce i c \<Longrightarrow> \<exists>t. chan_type_of ce c = Inr t \<and> t \<in> set (ce_types ce)"
  by (simp add: chan_ok_def chan_core_def chan_type_of_def entry_def)

lemma close_step:
  assumes w: "with_chan ce ses0 i c ses" and ok: "chan_ok ce i c"
  shows "safe (\<lambda>s. \<exists>c'. with_chan ce ses0 i c' s \<and> chan_ok ce i c' \<and> ch_sent_close c' \<and> ch_recv_close c' = ch_recv_close c) (send_msg_channel_close ce i ses)"
proof -
  obtain t where t: "chan_type_of ce c = Inr t" "t \<in> set (ce_types ce)" using chan_type_ok [OF ok] by blast
  let ?c0 = "c\<lparr>ch_sent_eof := True, ch_sent_close := True\<rparr>"
  let ?c1 = "chan_fd_closed (ch_readfd ?c0) True ?c0"
  let ?c2 = "chan_fd_closed (ch_errfd ?c1) False ?c1"
  let ?c3 = "chan_fd_closed (ch_writefd ?c2) False ?c2"
  have h: "safe (with_chan ce ses0 i c) (handle (ct_closehandler t) i ses)"
    using w close_keeps [OF _ w ok t(1)] by (simp add: handle_def split: option.split)
  have s: "safe (with_chan ce ses0 i c) (send_fields ce [F_byte SSH_MSG_CHANNEL_CLOSE, F_int (ch_remotechan c)] s)"
    if "with_chan ce ses0 i c s" for s using send_fields_step [OF that] message_small by simp
  have ok3: "chan_ok ce i ?c3" using chan_ok_all_closed [OF ok] by simp
  have "safe (with_chan ce ses0 i ?c3) (send_msg_channel_close ce i ses)"
    unfolding send_msg_channel_close_def with_chan_chan [OF w] rbind.simps t(1)
    apply (rule res_sat_bindI [OF h])
    subgoal for s1
      apply (subst with_chan_chan, assumption, simp only: rbind.simps)
      apply (rule res_sat_bindI [OF s], assumption)
      apply (rule res_sat_bindI [OF mod_chan_step], assumption, simp)
      apply (subst with_chan_chan, assumption, simp only: rbind.simps)
      apply (rule res_sat_bindI [OF close_chan_fd_step], assumption)
      apply (subst with_chan_chan, assumption, simp only: rbind.simps)
      apply (rule res_sat_bindI [OF close_chan_fd_step], assumption)
      apply (subst with_chan_chan, assumption, simp only: rbind.simps)
      apply (rule close_chan_fd_step, assumption)
      done
    done
  then show ?thesis by (rule res_sat_mono) (use ok3 in auto)
qed

lemma close_permitted_step:
  assumes "keeps ce ses0 i ses"
  shows "safe (\<lambda>(b, s). keeps ce ses0 i s) (close_permitted ce i ses)"
proof -
  obtain c where w: "with_chan ce ses0 i c ses" and ok: "chan_ok ce i c" using assms by (auto simp: keeps_def)
  obtain t where t: "chan_type_of ce c = Inr t" "t \<in> set (ce_types ce)" using chan_type_ok [OF ok] by blast
  show ?thesis unfolding close_permitted_def with_chan_chan [OF w] rbind.simps t(1)
    using check_keeps [OF _ w ok t(1)] assms by (auto split: option.split)
qed

lemma chan_typeI:
  "chan_ok ce i c \<Longrightarrow> (\<And>t. t \<in> set (ce_types ce) \<Longrightarrow> chan_type_of ce c = Inr t \<Longrightarrow> res_sat E Q (f t)) \<Longrightarrow> res_sat E Q (rbind (chan_type_of ce c) f)"
  using chan_type_ok by fastforce

lemma eof_keeps: "keeps ce ses0 i s \<Longrightarrow> safe (keeps ce ses0 i) (send_msg_channel_eof ce i s)"
  unfolding keeps_def by (elim exE conjE) (rule res_sat_mono, erule send_msg_channel_eof_step, auto)

lemma close_keeps_chan: "keeps ce ses0 i s \<Longrightarrow> safe (keeps ce ses0 i) (send_msg_channel_close ce i s)"
  unfolding keeps_def by (elim exE conjE) (rule res_sat_mono, erule (1) close_step, auto)

lemma half_close_step: "keeps ce ses0 i ses \<Longrightarrow> safe (keeps ce ses0 i) (half_close ce i allowed ses)"
  unfolding half_close_def
  apply (rule keeps_chanI, assumption, rule write_pendingI, assumption, rule chan_typeI, assumption)
  apply (rule res_sat_bindI [where P = "keeps ce ses0 i"], rule res_sat_if, erule close_fd_keeps, simp)
  apply (rule keeps_chanI, assumption)
  apply (rule res_sat_bindI [where P = "keeps ce ses0 i"], rule res_sat_if, erule eof_keeps, simp)
  apply (rule keeps_chanI, assumption, rule write_pendingI, assumption)
  apply (rule res_sat_if, erule close_keeps_chan, simp)
  done

end

lemma base_ok_prio [simp]: "base_ok ce (update_channel_prio ses) = base_ok ce ses"
  by (simp add: update_channel_prio_def Let_def base_ok_def sendable_def wp_empty_def payload_ok_def wp_ok_def listeners_ok_def)

lemma prio_same [simp]:
  "channels (update_channel_prio ses) = channels ses" "chansize (update_channel_prio ses) = chansize ses"
  "chancount (update_channel_prio ses) = chancount ses" "fds (update_channel_prio ses) = fds ses"
  "listeners (update_channel_prio ses) = listeners ses" "listensize (update_channel_prio ses) = listensize ses"
  "payload (update_channel_prio ses) = payload ses"
  by (simp_all add: update_channel_prio_def Let_def)

lemma slots_ok_prio [simp]: "slots_ok ce (update_channel_prio ses) = slots_ok ce ses"
  by (simp add: slots_ok_def)

lemma with_chan_prio: "with_chan ce ses0 i c ses \<Longrightarrow> with_chan ce ses0 i c (update_channel_prio ses)"
  by (simp add: with_chan_def)

lemma cbuf_free_ok: "cbuf_ok cb \<Longrightarrow> \<exists>d. cbuf_free cb = Inr d"
  by (auto simp: cbuf_free_def cbuf_ok_def wr_mem_def split: option.splits)

lemma occupied_remove:
  "i < length xs \<Longrightarrow> xs ! i \<noteq> None \<Longrightarrow> Suc (occupied (xs[i := None])) = occupied xs"
proof (induction xs arbitrary: i)
  case (Cons x xs)
  then show ?case by (cases i) (auto simp: occupied_def)
qed simp

lemma slots_ok_remove:
  assumes "slots_ok ce ses0" and "i < length (channels ses0)" and "channels ses0 ! i \<noteq> None"
    and "channels s = (channels ses0)[i := None]" and "chansize s = chansize ses0" and "chancount s = chancount ses0 - 1"
  shows "slots_ok ce s"
proof -
  have "Suc (occupied (channels s)) = unat (chancount ses0)"
    using occupied_remove [OF assms(2,3)] assms(1,4) by (simp add: slots_ok_def)
  then have "unat (chancount s) = occupied (channels s)"
    using assms(6) by (simp add: unat_sub_u32)
  then show ?thesis using assms(1,2,4,5) by (auto simp: slots_ok_def nth_list_update split: if_splits)
qed

context channel_handlers
begin

lemma remove_channel_step:
  assumes w: "with_chan ce ses0 i c ses" and ok: "chan_ok ce i c"
    and s0: "slots_ok ce ses0" "channels ses0 ! i \<noteq> None"
  shows "safe (\<lambda>s. chans_ok ce s \<and> channels s = (channels ses0)[i := None]) (remove_channel ce i ses)"
proof -
  obtain t where t: "chan_type_of ce c = Inr t" "t \<in> set (ce_types ce)" using chan_type_ok [OF ok] by blast
  have len: "i < length (channels ses0)" and idx: "unat (ch_index c) = i" using w ok by (auto simp: with_chan_def chan_ok_def chan_core_def)
  let ?c = "c\<lparr>ch_writebuf := None, ch_extrabuf := None\<rparr>"
  obtain wb d where wb: "ch_writebuf c = Some wb" "cbuf_free wb = Inr d"
    using ok unfolding chan_ok_def chan_core_def bufs_ok_def using cbuf_free_ok by blast
  obtain d' where eb: "(case ch_extrabuf c of None \<Rightarrow> Inr None | Some eb \<Rightarrow> cbuf_free eb) = Inr d'"
    using ok cbuf_free_ok by (cases "ch_extrabuf c") (auto simp: chan_ok_def chan_core_def bufs_ok_def)
  define s1 where "s1 = set_chan i ?c ses"
  have w1: "with_chan ce ses0 i ?c s1" using with_chan_set [OF w] by (simp add: s1_def)
  have cl: "safe (with_chan ce ses0 i ?c) (if isserver s1 \<or> ch_writefd c \<noteq> 1
      then rbind (m_close (ch_writefd c) s1) (\<lambda>s. rbind (m_close (ch_readfd c) s) (m_close (ch_errfd c))) else Inr s1)"
    using w1 by (intro res_sat_if, intro res_sat_bindI [OF m_close_step] m_close_step) auto
  have tc: "chan_type_of ce ?c = Inr t" using t(1) by (simp add: chan_type_of_def)
  have cu: "safe (\<lambda>s. \<exists>c'. with_chan ce ses0 i c' s \<and> ch_index c' = ch_index c) (handle (ct_cleanup t) i s)" if s: "with_chan ce ses0 i ?c s" for s
  proof (cases "ct_cleanup t")
    case None
    then show ?thesis using s by (auto simp: handle_def)
  next
    case (Some h)
    then show ?thesis using cleanup_keeps [OF Some s tc] by (simp add: handle_def)
  qed
  have fin: "chans_ok ce (update_channel_prio (s\<lparr>channels := (channels s)[i := None], chancount := chancount s - 1\<rparr>))"
      "(channels s)[i := None] = (channels ses0)[i := None]" "i < length (channels s)"
    if s: "with_chan ce ses0 i c' s" for s c'
  proof -
    show eq: "(channels s)[i := None] = (channels ses0)[i := None]" using s by (simp add: with_chan_def)
    show "i < length (channels s)" using s by (simp add: with_chan_def)
    have "agents_ok s" using s by (simp add: with_chan_def base_ok_def)
    then have "agents_ok (s\<lparr>channels := (channels s)[i := None]\<rparr>)"
      by (rule agents_ok_upd) (auto dest!: nth_update_cases)
    then have "base_ok ce (s\<lparr>channels := (channels s)[i := None], chancount := y\<rparr>)" for y
      using s by (simp add: with_chan_def base_ok_def sendable_def wp_empty_def payload_ok_def wp_ok_def listeners_ok_def)
    moreover have "slots_ok ce (s\<lparr>channels := (channels s)[i := None], chancount := chancount s - 1\<rparr>)"
      by (rule slots_ok_remove [OF s0(1) len s0(2)]) (use s eq in \<open>simp_all add: with_chan_def\<close>)
    ultimately show "chans_ok ce (update_channel_prio (s\<lparr>channels := (channels s)[i := None], chancount := chancount s - 1\<rparr>))"
      by (simp add: chans_ok_def)
  qed
  have last: "safe (\<lambda>s. chans_ok ce s \<and> channels s = (channels ses0)[i := None]) (rbind (chan i s) (\<lambda>c. rbind (slot (ch_index c) s) (\<lambda>_.
      Inr (update_channel_prio (s\<lparr>channels := (channels s)[unat (ch_index c) := None], chancount := chancount s - 1\<rparr>)))))"
    if s: "with_chan ce ses0 i c' s" and x: "ch_index c' = ch_index c" for s c'
    unfolding with_chan_chan [OF s] rbind.simps using fin [OF s] idx x by (simp add: slot_def entry_def)
  show ?thesis
    unfolding remove_channel_def with_chan_chan [OF w] rbind.simps wb(1) option.case wb(2) eb Let_def s1_def [symmetric] t(1)
    by (rule res_sat_bindI [OF cl], rule res_sat_bindI [OF cu], assumption, elim exE conjE, erule (1) last)
qed

lemma check_close_step:
  assumes k: "keeps ce ses0 i ses" and s0: "slots_ok ce ses0" "channels ses0 ! i \<noteq> None"
  shows "safe (chans_ok ce) (check_close ce i ses)"
proof -
  have rm: "safe (chans_ok ce) (rbind (if b then send_msg_channel_close ce i s else Inr s) (\<lambda>s. remove_channel ce i s))"
    if s: "keeps ce ses0 i s" for b s
  proof (rule res_sat_bindI [where P = "keeps ce ses0 i"])
    show "safe (keeps ce ses0 i) (if b then send_msg_channel_close ce i s else Inr s)"
      using s close_keeps_chan [OF s] by simp
  next
    fix s assume "keeps ce ses0 i s"
    then obtain c where "with_chan ce ses0 i c s" "chan_ok ce i c" by (auto simp: keeps_def)
    then show "safe (chans_ok ce) (remove_channel ce i s)"
      by (intro res_sat_mono [OF remove_channel_step [OF _ _ s0]]) auto
  qed
  have hc: "safe (chans_ok ce) (half_close ce i b s)" if "keeps ce ses0 i s" for b s
    by (rule res_sat_mono [OF half_close_step [OF that]]) (rule keeps_chans_ok [OF s0])
  show ?thesis
    unfolding check_close_def
    apply (rule res_sat_bind2I [OF close_permitted_step [OF k]])
    apply (rule res_sat_bindI [OF flush_fds_step], assumption)
    apply (rule keeps_chanI, assumption, rule write_pendingI, assumption)
    apply (rule res_sat_if, erule rm, erule hc)
    done
qed

end

section \<open>Writing out\<close>

lemma the_cbuf_put [simp]:
  "the_cbuf r (put_cbuf r cb c) = Some cb"
  by (cases r) simp_all

lemma put_cbuf_same [simp]:
  "ch_index (put_cbuf r cb c) = ch_index c" "ch_type (put_cbuf r cb c) = ch_type c" "ch_recvwindow (put_cbuf r cb c) = ch_recvwindow c"
  "ch_recvdonelen (put_cbuf r cb c) = ch_recvdonelen c" "ch_recv_eof (put_cbuf r cb c) = ch_recv_eof c"
  "ch_readfd (put_cbuf r cb c) = ch_readfd c" "ch_writefd (put_cbuf r cb c) = ch_writefd c" "ch_errfd (put_cbuf r cb c) = ch_errfd c"
  "ch_bidir_fd (put_cbuf r cb c) = ch_bidir_fd c" "ch_sent_close (put_cbuf r cb c) = ch_sent_close c"
  "agent_of (put_cbuf r cb c) = agent_of c" "typed_ok ce (put_cbuf r cb c) = typed_ok ce c"
  by (cases r; simp)+

lemma the_cbuf_upd [simp]:
  "the_cbuf r (c\<lparr>ch_recvdonelen := x\<rparr>) = the_cbuf r c" "the_cbuf r (c\<lparr>ch_recvwindow := x\<rparr>) = the_cbuf r c"
  "the_cbuf r (chan_fd_closed fd rd c) = the_cbuf r c"
  by (cases r; simp)+

lemma bufs_ok_cbuf: "bufs_ok ce c \<Longrightarrow> the_cbuf r c = Some cb \<Longrightarrow> cbuf_ok cb \<and> cb_size cb = ce_recv_window ce"
  by (cases r) (auto simp: bufs_ok_def)

lemma bufs_ok_put: "bufs_ok ce c \<Longrightarrow> cbuf_ok cb \<Longrightarrow> cb_size cb = ce_recv_window ce \<Longrightarrow> bufs_ok ce (put_cbuf r cb c)"
  by (cases r) (auto simp: bufs_ok_def)

lemma bufs_ok_upd [simp]:
  "bufs_ok ce (c\<lparr>ch_recvdonelen := x\<rparr>) = bufs_ok ce c" "bufs_ok ce (c\<lparr>ch_recvwindow := x\<rparr>) = bufs_ok ce c"
  by (simp_all add: bufs_ok_def)

lemma held_upd [simp]:
  "held (c\<lparr>ch_recvdonelen := x\<rparr>) = held c" "held (c\<lparr>ch_recvwindow := x\<rparr>) = held c" "held (chan_fd_closed fd rd c) = held c"
  by (simp_all add: held_def)

lemma held_put: "the_cbuf r c = Some cb \<Longrightarrow> held (put_cbuf r cb' c) + unat (cb_used cb) = held c + unat (cb_used cb')"
  by (cases r) (auto simp: held_def)

lemma held_cbuf: "the_cbuf r c = Some cb \<Longrightarrow> unat (cb_used cb) \<le> held c"
  by (cases r) (auto simp: held_def)

text \<open>What the kernel does with a write: it takes a prefix, or nothing.\<close>

definition same_but_fds :: "sshsession \<Rightarrow> sshsession \<Rightarrow> bool" where
  "same_but_fds ses s \<longleftrightarrow> s = ses\<lparr>fds := fds s\<rparr>"

lemma fd_writev_cases:
  "same_but_fds ses (snd (fd_writev fd iov ses))
   \<and> (\<forall>k. fst (fd_writev fd iov ses) = Wrote k \<longrightarrow> k \<le> length (concat iov)
       \<and> fw_written (fds (snd (fd_writev fd iov ses))) fd = fw_written (fds ses) fd @ take k (concat iov))
   \<and> (fst (fd_writev fd iov ses) = Write_again \<or> fst (fd_writev fd iov ses) = Write_error
       \<longrightarrow> fw_written (fds (snd (fd_writev fd iov ses))) = fw_written (fds ses))"
proof (cases "fw_writes (fds ses) fd")
  case (Cons x xs)
  then show ?thesis by (cases x) (simp_all add: fd_writev_def same_but_fds_def Let_def)
qed (simp add: fd_writev_def same_but_fds_def)

lemma with_chan_but_fds: "with_chan ce ses0 i c ses \<Longrightarrow> same_but_fds ses s \<Longrightarrow> with_chan ce ses0 i c s"
  using with_chan_fds [of ce ses0 i c ses "fds s"] by (simp add: same_but_fds_def)

lemma close_chan_fd_payload: "safe (\<lambda>s. payload s = payload ses) (close_chan_fd i fd rd ses)" if "chan i ses = Inr c" for c
  using that by (auto simp: close_chan_fd_def m_close_def close_fd_def set_chan_def Let_def)

text \<open>
  The outcomes of a write of a ring buffer with contents and more data: nothing happened; the descriptor failed and was
  closed; or a prefix went out, first of the buffer, then of the data.
\<close>

definition wrote_out :: "int \<Rightarrow> cbuf_ref \<Rightarrow> Channel \<Rightarrow> byte list \<Rightarrow> sshsession \<Rightarrow> Channel \<Rightarrow> nat \<Rightarrow> sshsession \<Rightarrow> bool" where
  "wrote_out fd r c m ses c' n s \<longleftrightarrow> (\<exists>cb cb' k. the_cbuf r c = Some cb \<and> c' = (put_cbuf r cb' c)\<lparr>ch_recvdonelen := k\<rparr>
     \<and> cbuf_ok cb' \<and> cb_size cb' = cb_size cb \<and> n \<le> length m
     \<and> unat k + unat (cb_used cb') = unat (ch_recvdonelen c) + unat (cb_used cb) + n
     \<and> fw_written (fds s) fd @ cbuf_contents cb' @ drop n m = fw_written (fds ses) fd @ cbuf_contents cb @ m)"

lemma wrote_out_nothing:
  assumes "the_cbuf r c = Some cb" and "cbuf_ok cb" and "fw_written (fds s) = fw_written (fds ses)"
  shows "wrote_out fd r c m ses c 0 s"
proof -
  have "c = (put_cbuf r cb c)\<lparr>ch_recvdonelen := ch_recvdonelen c\<rparr>" using assms(1) by (cases r) simp_all
  then show ?thesis using assms unfolding wrote_out_def by fastforce
qed

lemma writev_outcome:
  assumes w: "with_chan ce ses0 i c ses" and ok: "bufs_ok ce c" and cb: "the_cbuf r c = Some cb"
    and m: "m = (case moredata of None \<Rightarrow> [] | Some m \<Rightarrow> m)"
    and win: "unat (ch_recvdonelen c) + held c + length m \<le> 10485760"
  shows "safe (\<lambda>((good, n), s). payload s = payload ses \<and> (if good
      then \<exists>c'. with_chan ce ses0 i c' s \<and> wrote_out fd r c m ses c' (unat n) s
      else n = 0 \<and> with_chan ce ses0 i (chan_fd_closed fd False c) s)) (writechannel_writev i fd r moredata ses)"
proof -
  have cok: "cbuf_ok cb" using bufs_ok_cbuf [OF ok cb] by simp
  obtain p1 len1 p2 len2 where ptrs: "cbuf_readptrs cb = ((p1, len1), (p2, len2))" by (metis surj_pair)
  obtain xs ys where l1: "cbuf_load cb p1 len1 = Inr xs" and l2: "cbuf_load cb (case p2 of None \<Rightarrow> 0 | Some p \<Rightarrow> p) len2 = Inr ys"
    and xy: "xs @ ys = cbuf_contents cb" and lens: "unat len1 + unat len2 = unat (cb_used cb)"
    using cbuf_readptrs_eq [OF cok ptrs] by blast
  define iov where "iov = (if len1 > 0 then [xs] else []) @ (if len2 > 0 then [ys] else []) @ (case moredata of None \<Rightarrow> [] | Some m \<Rightarrow> [m])"
  have xe: "len1 = 0 \<Longrightarrow> xs = []" "len2 = 0 \<Longrightarrow> ys = []" using l1 l2 by (auto simp: cbuf_load_def)
  have cat: "concat iov = cbuf_contents cb @ m"
    using xe xy m by (cases moredata) (auto simp: iov_def word_gt_0)
  obtain res s where rs: "fd_writev fd iov ses = (res, s)" by (metis surj_pair)
  note k = fd_writev_cases [of ses fd iov, unfolded rs fst_conv snd_conv]
  have ws: "with_chan ce ses0 i c s" using with_chan_but_fds [OF w] k by blast
  have "payload s = payload (ses\<lparr>fds := fds s\<rparr>)" using k unfolding same_but_fds_def by (intro arg_cong [of s _ payload]) blast
  then have ps: "payload s = payload ses" by simp
  show ?thesis
    unfolding writechannel_writev_def with_chan_chan [OF w] rbind.simps get_cbuf_def cb option.case ptrs prod.case l1 l2
      Let_def iov_def [symmetric] rs
  proof (rule res_sat_if)
    assume "iov = []"
    then show "safe (\<lambda>((good, n), s). payload s = payload ses \<and> (if good
      then \<exists>c'. with_chan ce ses0 i c' s \<and> wrote_out fd r c m ses c' (unat n) s
      else n = 0 \<and> with_chan ce ses0 i (chan_fd_closed fd False c) s)) (Inr ((True, 0), ses))"
      using w wrote_out_nothing [OF cb cok] by auto
  next
    show "safe (\<lambda>((good, n), s). payload s = payload ses \<and> (if good
      then \<exists>c'. with_chan ce ses0 i c' s \<and> wrote_out fd r c m ses c' (unat n) s
      else n = 0 \<and> with_chan ce ses0 i (chan_fd_closed fd False c) s))
      (case res of
          Write_again \<Rightarrow> Inr ((True, 0), s)
        | Write_error \<Rightarrow> rbind (close_chan_fd i fd False s) (\<lambda>ses. Inr ((False, 0), ses))
        | Wrote written \<Rightarrow>
            rbind (cbuf_incrread cb (min (len1 + len2) (of_nat written))) (\<lambda>cbuf.
            Inr ((True, of_nat written - min (len1 + len2) (of_nat written)),
              set_chan i ((put_cbuf r cbuf c)\<lparr>ch_recvdonelen := ch_recvdonelen c + of_nat written\<rparr>) s)))"
    proof (cases res)
      case Write_again
      then show ?thesis using ws ps k wrote_out_nothing [OF cb cok, of s ses] by auto
    next
      case Write_error
      show ?thesis unfolding Write_error write_result.case
        by (rule res_sat_bindI [OF res_sat_conj [OF close_chan_fd_step [OF ws] close_chan_fd_payload [OF with_chan_chan [OF ws]]]]) (simp add: ps)
    next
      case (Wrote n)
      define u where "u = unat (cb_used cb)"
      have n: "n \<le> u + length m" and wr: "fw_written (fds s) fd = fw_written (fds ses) fd @ take n (cbuf_contents cb @ m)"
        using k Wrote cat length_cbuf_contents [OF cok] by (auto simp: u_def)
      have uh: "u \<le> held c" using held_cbuf [OF cb] by (simp add: u_def)
      then have un: "unat (of_nat n :: u32) = n" using n win by (simp add: unat_of_nat_u32)
      have "unat (len1 + len2) = u" using lens unat_lt_u32 [of "cb_used cb"] by (simp add: unat_add_u32 u_def del: unat_lt_u32)
      then have um: "unat (min (len1 + len2) (of_nat n)) = min u n" by (simp add: unat_min_u32 un)
      obtain c1 where c1: "cbuf_incrread cb (min (len1 + len2) (of_nat n)) = Inr c1" "cbuf_ok c1" "cb_size c1 = cb_size cb"
          "unat (cb_used c1) = u - min u n" "cbuf_contents c1 = drop (min u n) (cbuf_contents cb)"
        using cbuf_incrread_eq [OF cok, of "min (len1 + len2) (of_nat n)"] um by (auto simp: u_def)
      have ud: "unat (of_nat n - min (len1 + len2) (of_nat n) :: u32) = n - min u n"
        by (subst unat_sub_u32) (simp add: um un)
      have ur: "unat (ch_recvdonelen c + of_nat n) = unat (ch_recvdonelen c) + n"
        using win n uh by (simp add: unat_add_u32 un)
      have lc: "length (cbuf_contents cb) = u" using length_cbuf_contents [OF cok] by (simp add: u_def)
      have "fw_written (fds s) fd @ cbuf_contents c1 @ drop (n - min u n) m = fw_written (fds ses) fd @ cbuf_contents cb @ m"
        using lc by (cases "n \<le> u") (simp_all add: wr c1(5) min_def)
      then have wo: "wrote_out fd r c m ses ((put_cbuf r c1 c)\<lparr>ch_recvdonelen := ch_recvdonelen c + of_nat n\<rparr>) (n - min u n) s"
        unfolding wrote_out_def using cb c1(2,3,4) ur n
        by (intro exI [of _ cb] exI [of _ c1] exI [of _ "ch_recvdonelen c + of_nat n"]) (auto simp: u_def min_def)
      define C where "C = (put_cbuf r c1 c)\<lparr>ch_recvdonelen := ch_recvdonelen c + of_nat n\<rparr>"
      have "with_chan ce ses0 i C (set_chan i C s)" "wrote_out fd r c m ses C (n - min u n) (set_chan i C s)"
          "payload (set_chan i C s) = payload ses"
        using with_chan_set [OF ws, of C] wo ps by (simp_all add: C_def wrote_out_def set_chan_def)
      then show ?thesis unfolding Wrote write_result.case c1(1) rbind.simps C_def [symmetric] res_sat.simps prod.case ud if_True by blast
    qed
  qed
qed

section \<open>Flow control\<close>

definition adjusted :: "chan_env \<Rightarrow> Channel \<Rightarrow> Channel" where
  "adjusted ce c = (if ch_recvdonelen c \<ge> RECV_WINDOWEXTEND ce
     then c\<lparr>ch_recvwindow := ch_recvwindow c + ch_recvdonelen c, ch_recvdonelen := 0\<rparr> else c)"

lemma adjusted_typed [simp]:
  "agent_of (adjusted ce c) = agent_of c" "typed_ok ce' (adjusted ce c) = typed_ok ce' c"
  by (simp_all add: adjusted_def)

lemma adjust_window_eq:
  assumes w: "with_chan ce ses0 i c ses"
  shows "\<exists>s. adjust_window ce i ses = Inr s \<and> with_chan ce ses0 i (adjusted ce c) s \<and> fds s = fds ses \<and> payload s = payload ses"
proof (cases "ch_recvdonelen c \<ge> RECV_WINDOWEXTEND ce")
  case True
  obtain s where s: "send_fields ce [F_byte SSH_MSG_CHANNEL_WINDOW_ADJUST, F_int (ch_remotechan c), F_int (ch_recvdonelen c)] ses = Inr s"
      "base_ok ce s" "app_same ses s"
    using send_fields_ok [of ce ses "[F_byte SSH_MSG_CHANNEL_WINDOW_ADJUST, F_int (ch_remotechan c), F_int (ch_recvdonelen c)]"] w message_small
    by (auto simp: with_chan_def)
  have ws: "with_chan ce ses0 i c s" using app_same_chan [OF w _ _ s(3)] s(2) by (simp add: base_ok_def)
  have "fds s = fds ses" "payload s = payload ses" using s(3) by (simp_all add: app_same_def)
  then show ?thesis
    using with_chan_set [OF ws, of "adjusted ce c"] True
    by (simp add: adjust_window_def send_msg_channel_window_adjust_def with_chan_chan [OF w] s(1) mod_chan_def with_chan_chan [OF ws])
      (simp add: adjusted_def set_chan_def)
next
  case False
  then show ?thesis using w by (simp add: adjust_window_def with_chan_chan [OF w] adjusted_def)
qed

lemma adjusted_same [simp]:
  "bufs_ok ce (adjusted ce c) = bufs_ok ce c" "fds_ok (adjusted ce c) = fds_ok c" "held (adjusted ce c) = held c"
  "ch_index (adjusted ce c) = ch_index c" "ch_type (adjusted ce c) = ch_type c" "the_cbuf r (adjusted ce c) = the_cbuf r c"
  "ch_writefd (adjusted ce c) = ch_writefd c"
  by (simp_all add: adjusted_def fds_ok_def)

lemma adjusted_window:
  "unat (ch_recvwindow c) + unat (ch_recvdonelen c) \<le> 10485760 \<Longrightarrow>
    unat (ch_recvwindow (adjusted ce c)) + unat (ch_recvdonelen (adjusted ce c)) = unat (ch_recvwindow c) + unat (ch_recvdonelen c)"
  by (simp add: adjusted_def unat_add_u32)

lemma window_asserts_ok:
  assumes "bufs_ok ce c" and "window_ok ce c"
  shows "window_asserts ce c = Inr ()"
proof -
  obtain wb where wb: "ch_writebuf c = Some wb" "cbuf_ok wb" "cb_size wb = ce_recv_window ce" using assms(1) by (auto simp: bufs_ok_def)
  have avail: "ch_recvwindow c \<le> cbuf_getavail cb" if "the_cbuf r c = Some cb" for r cb
    using bufs_ok_cbuf [OF assms(1) that] held_cbuf [OF that] assms(2)
    by (auto simp: window_ok_def word_le_nat_alt unat_cbuf_getavail)
  have "ch_recvwindow c \<le> ce_recv_window ce" using assms(2) by (simp add: window_ok_def word_le_nat_alt)
  then show ?thesis
    using avail [of Writebuf] avail [of Extrabuf] wb(1)
    by (cases "ch_extrabuf c") (simp_all add: window_asserts_def get_cbuf_def)
qed

lemma wrote_out_fields:
  assumes "wrote_out fd r c m ses c' n s" and "bufs_ok ce c"
  shows "bufs_ok ce c'" and "ch_recvwindow c' = ch_recvwindow c" and "unat (ch_recvdonelen c') + held c' = unat (ch_recvdonelen c) + held c + n"
    and "fds_ok c' = fds_ok c" and "ch_index c' = ch_index c" and "ch_type c' = ch_type c" and "n \<le> length m" and "ch_writefd c' = ch_writefd c"
    and "typed_ok ce c' = typed_ok ce c"
proof -
  obtain cb cb' k where x: "the_cbuf r c = Some cb" "c' = (put_cbuf r cb' c)\<lparr>ch_recvdonelen := k\<rparr>" "cbuf_ok cb'" "cb_size cb' = cb_size cb"
      "n \<le> length m" "unat k + unat (cb_used cb') = unat (ch_recvdonelen c) + unat (cb_used cb) + n"
    using assms(1) by (auto simp: wrote_out_def)
  show "bufs_ok ce c'" using bufs_ok_put [OF assms(2) x(3)] x(2,4) bufs_ok_cbuf [OF assms(2) x(1)] by simp
  show "unat (ch_recvdonelen c') + held c' = unat (ch_recvdonelen c) + held c + n"
    using x(2,6) held_put [OF x(1), of cb'] by simp
  show "ch_recvwindow c' = ch_recvwindow c" "fds_ok c' = fds_ok c" "ch_index c' = ch_index c" "ch_type c' = ch_type c" "n \<le> length m"
      "ch_writefd c' = ch_writefd c"
    using x(2,5) by (simp_all add: fds_ok_def)
  show "typed_ok ce c' = typed_ok ce c" by (simp add: x(2))
qed

lemma writechannel_outcome:
  assumes w: "with_chan ce ses0 i c ses" and ok: "bufs_ok ce c" and cb: "the_cbuf r c = Some cb"
    and m: "m = (case moredata of None \<Rightarrow> [] | Some m \<Rightarrow> m)"
    and win: "unat (ch_recvwindow c) + unat (ch_recvdonelen c) + held c + length m \<le> unat (ce_recv_window ce)"
    and max: "unat (ce_recv_window ce) \<le> 10485760"
  shows "safe (\<lambda>((good, n), s). payload s = payload ses \<and> (if good
      then \<exists>c'. with_chan ce ses0 i (adjusted ce c') s \<and> wrote_out fd r c m ses c' (unat n) s
      else n = 0 \<and> with_chan ce ses0 i (adjusted ce (chan_fd_closed fd False c)) s)) (writechannel ce i fd r moredata ses)"
proof -
  have tail: "\<exists>s'. rbind (adjust_window ce i s) (\<lambda>s. rbind (chan i s) (\<lambda>c. rbind (window_asserts ce c) (\<lambda>_. Inr (ret, s)))) = Inr (ret, s')
      \<and> with_chan ce ses0 i (adjusted ce c') s' \<and> fds s' = fds s \<and> payload s' = payload s"
    if ws: "with_chan ce ses0 i c' s" and "bufs_ok ce c'" and "unat (ch_recvwindow c') + unat (ch_recvdonelen c') + held c' \<le> unat (ce_recv_window ce)"
    for s c' and ret :: "bool \<times> u32"
  proof -
    obtain s' where s': "adjust_window ce i s = Inr s'" "with_chan ce ses0 i (adjusted ce c') s'" "fds s' = fds s" "payload s' = payload s"
      using adjust_window_eq [OF ws] by blast
    have "window_asserts ce (adjusted ce c') = Inr ()"
      using that(2,3) max adjusted_window [of c' ce] by (intro window_asserts_ok) (simp_all add: window_ok_def)
    then show ?thesis using s' with_chan_chan [OF s'(2)] by simp
  qed
  have "unat (ch_recvdonelen c) + held c + length m \<le> 10485760" using win max by linarith
  note v = writev_outcome [OF w ok cb m this, of fd]
  show ?thesis
    unfolding writechannel_def
  proof (rule res_sat_bindI [OF v], goal_cases)
    case (1 x)
    obtain good n s where xe: "x = ((good, n), s)" by (metis surj_pair)
    note x = 1 [unfolded xe]
    show ?case
    proof (cases good)
      case True
      then obtain c' where c': "with_chan ce ses0 i c' s" "wrote_out fd r c m ses c' (unat n) s" and p: "payload s = payload ses" using x xe by auto
      note f = wrote_out_fields [OF c'(2) ok]
      obtain s' where s': "rbind (adjust_window ce i s) (\<lambda>s. rbind (chan i s) (\<lambda>c. rbind (window_asserts ce c) (\<lambda>_. Inr ((good, n), s)))) = Inr ((good, n), s')"
          "with_chan ce ses0 i (adjusted ce c') s'" "fds s' = fds s" "payload s' = payload s"
        using tail [OF c'(1) f(1), of "(good, n)"] f(2,3,7) win by auto
      have "wrote_out fd r c m ses c' (unat n) s'" using c'(2) s'(3) by (simp add: wrote_out_def)
      then show ?thesis unfolding xe prod.case s'(1) using s'(2,4) p True by auto
    next
      case False
      then have c': "with_chan ce ses0 i (chan_fd_closed fd False c) s" and p: "payload s = payload ses" "n = 0" using x xe by auto
      obtain s' where s': "rbind (adjust_window ce i s) (\<lambda>s. rbind (chan i s) (\<lambda>c. rbind (window_asserts ce c) (\<lambda>_. Inr ((good, n), s)))) = Inr ((good, n), s')"
          "with_chan ce ses0 i (adjusted ce (chan_fd_closed fd False c)) s'" "payload s' = payload s"
        using tail [OF c', of "(good, n)"] ok win by auto
      show ?thesis unfolding xe prod.case s'(1) using s'(2,3) p False by auto
    qed
  qed
qed

lemma copy_into_cbuf_eq:
  assumes "cbuf_ok c" and "buf_ok p"
    and "unat len \<le> unat (cbuf_getavail c)" and "unat len \<le> length (buf_rest p)"
  shows "\<exists>c'. copy_into_cbuf c p len = Inr (c', adv p (unat len)) \<and> cbuf_ok c' \<and> cb_size c' = cb_size c
     \<and> cbuf_contents c' = cbuf_contents c @ take (unat len) (buf_rest p)"
  using copy_loop_eq [OF assms] by (auto simp: copy_into_cbuf_def)

lemma with_chan_payload:
  "with_chan ce ses0 i c ses \<Longrightarrow> buf_ok b \<Longrightarrow> with_chan ce ses0 i c (ses\<lparr>payload := Some b\<rparr>)"
  by (simp add: with_chan_def base_ok_def sendable_def wp_empty_def payload_ok_def wp_ok_def listeners_ok_def)

lemma fds_ok_put [simp]: "fds_ok (put_cbuf r cb c) = fds_ok c"
  by (simp add: fds_ok_def)

section \<open>Receiving data\<close>

definition chan_data :: "cbuf_ref \<Rightarrow> Channel \<Rightarrow> byte list" where
  "chan_data r c = (case the_cbuf r c of None \<Rightarrow> [] | Some cb \<Rightarrow> cbuf_contents cb)"

text \<open>The second half of the handler: after the window was reduced, the data is written out as far as possible and the rest buffered.\<close>

lemma recv_data_tail:
  assumes w: "with_chan ce ses0 i c ses" and ok: "bufs_ok ce c" "fds_ok c" "unat (ch_index c) = i" "ch_type c < length (ce_types ce)" "typed_ok ce c"
    and cb: "the_cbuf r c = Some cb" and p: "payload ses = Some p" "buf_ok p" and len: "unat L \<le> length (buf_rest p)"
    and win: "unat (ch_recvwindow c) + unat (ch_recvdonelen c) + held c + unat L \<le> unat (ce_recv_window ce)"
    and max: "unat (ce_recv_window ce) \<le> 10485760"
  defines "d \<equiv> take (unat L) (buf_rest p)"
  shows "safe (\<lambda>s. \<exists>c'. with_chan ce ses0 i c' s \<and> chan_ok ce i c' \<and> ch_writefd c' \<in> {ch_writefd c, FD_CLOSED}
      \<and> (ch_writefd c' = ch_writefd c \<longrightarrow> r = Writebuf \<longrightarrow> fd = ch_writefd c \<longrightarrow> 0 \<le> fd \<longrightarrow>
          fw_written (fds s) fd @ chan_data r c' = fw_written (fds ses) fd @ chan_data r c @ d))
    (rbind (writechannel ce i fd r (Some d) ses) (\<lambda>((res, consumed), ses).
     rbind (on_payload (\<lambda>p. buf_incrpos p consumed) ses) (\<lambda>ses.
     if \<not> res then Inr ses
     else rbind (chan i ses) (\<lambda>c. rbind (get_cbuf r c) (\<lambda>cbuf.
       case payload ses of None \<Rightarrow> Inl Mem_fault | Some p \<Rightarrow>
       rbind (copy_into_cbuf cbuf p (L - consumed)) (\<lambda>(cbuf, p).
       Inr (set_chan i (put_cbuf r cbuf c) (ses\<lparr>payload := Some p\<rparr>))))))))" (is "safe ?Q _")
proof -
  have ld: "length d = unat L" using len by (simp add: d_def)
  have win': "unat (ch_recvwindow c) + unat (ch_recvdonelen c) + held c + length d \<le> unat (ce_recv_window ce)" using win ld by simp
  have "d = (case Some d of None \<Rightarrow> [] | Some m \<Rightarrow> m)" by simp
  note v = writechannel_outcome [OF w ok(1) cb this win' max, of fd]
  show ?thesis
  proof (rule res_sat_bindI [OF v], goal_cases)
    case (1 x)
    obtain good n s where xe: "x = ((good, n), s)" by (metis surj_pair)
    note x = 1 [unfolded xe prod.case]
    have ps: "payload s = Some p" using x p by simp
    show ?case
    proof (cases good)
      case False
      let ?c = "adjusted ce (chan_fd_closed fd False c)"
      have n: "n = 0" and ws: "with_chan ce ses0 i ?c s" using x False by auto
      have "chan_ok ce i ?c"
        using ok fds_ok_closed [OF ok(2), of fd False] win max adjusted_window [of "chan_fd_closed fd False c" ce]
        by (simp add: chan_ok_def chan_core_def window_ok_def)
      moreover have "ch_writefd ?c \<in> {ch_writefd c, FD_CLOSED}" using fd_closed_cases(2) [of fd False c] by auto
      moreover have "ch_writefd ?c \<noteq> ch_writefd c" if "fd = ch_writefd c" "0 \<le> fd" using that by (simp add: fd_closed_fds)
      moreover have "with_chan ce ses0 i ?c (s\<lparr>payload := Some p\<rparr>)" by (rule with_chan_payload [OF ws p(2)])
      ultimately have "?Q (s\<lparr>payload := Some p\<rparr>)" by (intro exI [of _ ?c]) auto
      moreover have "buf_incrpos p 0 = Inr p" using p(2) by (simp add: buf_incrpos_eq adv_def)
      ultimately show ?thesis by (simp only: xe prod.case on_payload_def ps option.case n rbind.simps False not_False_eq_True if_True res_sat.simps)
    next
      case True
      obtain c' where ws: "with_chan ce ses0 i (adjusted ce c') s" and wo: "wrote_out fd r c d ses c' (unat n) s" using x True by auto
      note f = wrote_out_fields [OF wo ok(1)]
      obtain cb' where cb': "the_cbuf r c' = Some cb'" "cbuf_ok cb'" "cb_size cb' = cb_size cb"
          "fw_written (fds s) fd @ cbuf_contents cb' @ drop (unat n) d = fw_written (fds ses) fd @ cbuf_contents cb @ d"
        using wo cb by (auto simp: wrote_out_def)
      have nl: "unat n \<le> unat L" using f(7) ld by simp
      have ul: "unat (L - n) = unat L - unat n" using nl by (simp add: unat_sub_u32)
      define p' where "p' = adv p (unat n)"
      have p': "buf_ok p'" "buf_rest p' = drop (unat n) (buf_rest p)"
        using buf_ok_adv [OF p(2)] buf_rest_adv [OF p(2)] nl len by (simp_all add: p'_def)
      have total: "unat (ch_recvwindow (adjusted ce c')) + unat (ch_recvdonelen (adjusted ce c')) + held c' + (unat L - unat n) \<le> unat (ce_recv_window ce)"
        using f(2,3) win max nl adjusted_window [of c' ce] by simp
      have av: "unat (L - n) \<le> unat (cbuf_getavail cb')"
        using total held_cbuf [OF cb'(1)] bufs_ok_cbuf [OF ok(1) cb] by (simp add: ul unat_cbuf_getavail [OF cb'(2)] cb'(3))
      have lr: "unat (L - n) \<le> length (buf_rest p')" using p'(2) ul len by simp
      obtain cb'' where cb'': "copy_into_cbuf cb' p' (L - n) = Inr (cb'', adv p' (unat (L - n)))" "cbuf_ok cb''" "cb_size cb'' = cb_size cb'"
          "cbuf_contents cb'' = cbuf_contents cb' @ take (unat (L - n)) (buf_rest p')"
        using copy_into_cbuf_eq [OF cb'(2) p'(1) av] lr by blast
      have dr: "take (unat (L - n)) (buf_rest p') = drop (unat n) d" by (simp add: p'(2) d_def ul drop_take)
      have us: "unat (cb_used cb'') = unat (cb_used cb') + (unat L - unat n)"
        using arg_cong [OF cb''(4), of length] length_cbuf_contents [OF cb''(2)] length_cbuf_contents [OF cb'(2)] ld by (simp add: dr)
      let ?c = "put_cbuf r cb'' (adjusted ce c')" and ?p = "adv p' (unat (L - n))"
      have "held ?c = held c' + (unat L - unat n)" using held_put [of r "adjusted ce c'" cb' cb''] cb'(1) us by simp
      then have okc: "chan_ok ce i ?c"
        using total ok(2-5) f(4-6,9) bufs_ok_put [of ce "adjusted ce c'" cb'' r] f(1) cb''(2,3) cb'(3) bufs_ok_cbuf [OF ok(1) cb]
        by (simp add: chan_ok_def chan_core_def window_ok_def)
      have bp: "buf_ok ?p" using buf_ok_adv [OF p'(1)] p'(2) ul len by simp
      define s2 where "s2 = s\<lparr>payload := Some p'\<rparr>"
      have w2: "with_chan ce ses0 i (adjusted ce c') s2" unfolding s2_def by (rule with_chan_payload [OF ws p'(1)])
      have w3: "with_chan ce ses0 i ?c (set_chan i ?c (s2\<lparr>payload := Some ?p\<rparr>))" by (rule with_chan_set [OF with_chan_payload [OF w2 bp]]) simp
      have "fw_written (fds (set_chan i ?c (s2\<lparr>payload := Some ?p\<rparr>))) fd @ chan_data r ?c = fw_written (fds ses) fd @ chan_data r c @ d"
        using cb'(4) cb by (simp add: chan_data_def cb''(4) dr s2_def set_chan_def)
      then have q: "?Q (set_chan i ?c (s2\<lparr>payload := Some ?p\<rparr>))" using w3 okc f(8) by (intro exI [of _ ?c]) auto
      have inc: "buf_incrpos p n = Inr p'" using p(2) nl len by (simp add: buf_incrpos_eq p'_def)
      have gc: "get_cbuf r (adjusted ce c') = Inr cb'" using cb'(1) by (simp add: get_cbuf_def)
      have p2: "payload s2 = Some p'" by (simp add: s2_def)
      show ?thesis
        unfolding xe prod.case on_payload_def ps option.case inc rbind.simps s2_def [symmetric] True not_True_eq_False if_False
          with_chan_chan [OF w2] gc p2 cb''(1)
        by (rule res_sat_if, simp add: True, subst res_sat.simps, rule q)
    qed
  qed
qed

text \<open>
  The whole handler, for a channel in order and any payload: it keeps the invariant or ends the session. Only a peer that
  sends more than its window can make an assertion fail.
\<close>

lemma common_recv_data:
  assumes w: "with_chan ce ses0 i c ses" and ok: "chan_ok ce i c" and p: "payload ses = Some p" "buf_ok p"
    and max: "unat (ce_recv_window ce) \<le> 10485760"
  shows "res_sat (\<lambda>e. orderly e \<or> e = Assert_fail \<and> 4 \<le> length (buf_rest p) \<and> ch_recvwindow c < LOAD32H (take 4 (buf_rest p)))
     (\<lambda>s. \<exists>c'. with_chan ce ses0 i c' s \<and> chan_ok ce i c' \<and> (r = Writebuf \<longrightarrow> fd = ch_writefd c \<longrightarrow> 0 \<le> fd \<longrightarrow>
        ch_writefd c' = FD_CLOSED \<or> ch_writefd c' = fd \<and> fw_written (fds s) fd @ chan_data r c'
          = fw_written (fds ses) fd @ chan_data r c @ take (unat (LOAD32H (take 4 (buf_rest p)))) (drop 4 (buf_rest p))))
     (common_recv_msg_channel_data ce i fd r ses)" (is "res_sat ?E ?Q _")
proof (cases "ch_recv_eof c \<or> fd < 0 \<or> the_cbuf r c = None")
  case True
  have "r = Writebuf \<Longrightarrow> the_cbuf r c \<noteq> None" using ok by (auto simp: chan_ok_def chan_core_def bufs_ok_def)
  then have "?Q ses" if "fd < 0 \<or> the_cbuf r c = None" using w ok that by auto
  then show ?thesis using True unfolding common_recv_msg_channel_data_def with_chan_chan [OF w] rbind.simps by auto
next
  case False
  then obtain cb where cb: "the_cbuf r c = Some cb" and ne: "\<not> ch_recv_eof c" "\<not> fd < 0" by auto
  define L where "L = LOAD32H (take 4 (buf_rest p))"
  have start: "common_recv_msg_channel_data ce i fd r ses = rbind (from_payload buf_getint ses) (\<lambda>(datalen, ses).
     if datalen > cbuf_getavail cb then Inl (Exit ''Oversized packet'')
     else rbind (dropbear_assert (ch_recvwindow c \<ge> datalen)) (\<lambda>_.
     let c = c\<lparr>ch_recvwindow := ch_recvwindow c - datalen\<rparr>; ses = set_chan i c ses in
     rbind (dropbear_assert (ch_recvwindow c \<le> ce_recv_window ce)) (\<lambda>_.
     rbind (case payload ses of None \<Rightarrow> Inl Mem_fault | Some p \<Rightarrow> rbind (buf_getptr p datalen) (\<lambda>q. rd_mem (buf_data p) q (unat datalen))) (\<lambda>bytes.
     rbind (writechannel ce i fd r (Some bytes) ses) (\<lambda>((res, consumed), ses).
     rbind (on_payload (\<lambda>p. buf_incrpos p consumed) ses) (\<lambda>ses.
     if \<not> res then Inr ses
     else rbind (chan i ses) (\<lambda>c. rbind (get_cbuf r c) (\<lambda>cbuf.
       case payload ses of None \<Rightarrow> Inl Mem_fault | Some p \<Rightarrow>
       rbind (copy_into_cbuf cbuf p (datalen - consumed)) (\<lambda>(cbuf, p).
       Inr (set_chan i (put_cbuf r cbuf c) (ses\<lparr>payload := Some p\<rparr>)))))))))))"
    using ne unfolding common_recv_msg_channel_data_def with_chan_chan [OF w] rbind.simps get_cbuf_def cb option.case
    by (simp only: if_False option.distinct simp_thms)
  show ?thesis
  proof (cases "4 \<le> length (buf_rest p) \<and> L \<le> cbuf_getavail cb \<and> L \<le> ch_recvwindow c")
    case False
    then show ?thesis
      unfolding start from_payload_def p(1) option.case buf_getint_eq [OF p(2)]
      by (auto simp: L_def [symmetric] not_le dropbear_assert_def)
  next
    case True
    have win: "unat (ch_recvwindow c) + unat (ch_recvdonelen c) + held c \<le> unat (ce_recv_window ce)" and L: "unat L \<le> unat (ch_recvwindow c)"
      using ok True by (auto simp: chan_ok_def chan_core_def window_ok_def word_le_nat_alt)
    define c1 where "c1 = c\<lparr>ch_recvwindow := ch_recvwindow c - L\<rparr>"
    have u1: "unat (ch_recvwindow c1) = unat (ch_recvwindow c) - unat L" using L by (simp add: c1_def unat_sub_u32)
    define p1 where "p1 = adv p 4"
    have p1: "buf_ok p1" "buf_rest p1 = drop 4 (buf_rest p)" using buf_ok_adv [OF p(2)] buf_rest_adv [OF p(2)] True by (simp_all add: p1_def)
    define s1 where "s1 = set_chan i c1 (ses\<lparr>payload := Some p1\<rparr>)"
    have w1: "with_chan ce ses0 i c1 s1" unfolding s1_def by (rule with_chan_set [OF with_chan_payload [OF w p1(1)]]) (simp add: c1_def)
    have ps1: "payload s1 = Some p1" by (simp add: s1_def set_chan_def)
    have a1: "\<not> L > cbuf_getavail cb" "dropbear_assert (ch_recvwindow c \<ge> L) = Inr ()" "dropbear_assert (ch_recvwindow c1 \<le> ce_recv_window ce) = Inr ()"
      using True win u1 by (simp_all add: word_le_nat_alt not_less)
    have gi: "buf_getint p = Inr (L, p1)" using True by (simp add: buf_getint_eq [OF p(2)] L_def p1_def)
    show ?thesis
    proof (cases "unat L \<le> length (buf_rest p1)")
      case False
      then have "buf_getptr p1 L = Inl (Exit ''Bad buf_getptr'')" by (simp add: buf_getptr_eq [OF p1(1)])
      then show ?thesis
        unfolding start from_payload_def p(1) option.case gi rbind.simps prod.case a1(2) Let_def c1_def [symmetric] s1_def [symmetric] a1(3) ps1
        using a1(1) by simp
    next
      case len: True
      let ?d = "take (unat L) (buf_rest p1)"
      have rd: "rbind (buf_getptr p1 L) (\<lambda>q. rd_mem (buf_data p1) q (unat L)) = Inr ?d"
        using rd_rest [OF p1(1) len] len by (simp add: buf_getptr_eq [OF p1(1)])
      have same: "bufs_ok ce c1" "fds_ok c1" "unat (ch_index c1) = i" "ch_type c1 < length (ce_types ce)" "typed_ok ce c1" "the_cbuf r c1 = Some cb"
          "ch_writefd c1 = ch_writefd c" "chan_data r c1 = chan_data r c" "fds s1 = fds ses"
        using ok cb by (simp_all add: c1_def chan_ok_def chan_core_def fds_ok_def chan_data_def s1_def set_chan_def)
      have win1: "unat (ch_recvwindow c1) + unat (ch_recvdonelen c1) + held c1 + unat L \<le> unat (ce_recv_window ce)"
        using win L u1 by (simp add: c1_def)
      note t = recv_data_tail [OF w1 same(1-6) ps1 p1(1) len win1 max, of fd, unfolded same(7-9) p1(2)]
      show ?thesis
        unfolding start from_payload_def p(1) option.case gi rbind.simps prod.case a1(2) Let_def c1_def [symmetric] s1_def [symmetric] a1(3) ps1 rd
          if_not_P [OF a1(1)] L_def [symmetric] p1(2)
        by (rule res_sat_weaken [OF t]) auto
    qed
  qed
qed

section \<open>Sending data\<close>

text \<open>The header, a dummy size, the data, and the size put over the dummy.\<close>

lemma assemble:
  fixes v :: u32
  assumes ok: "buf_ok b0" and e: "buf_pos b0 = 0" "buf_len b0 = 0" and fits: "length A + 4 + length bs \<le> unat (buf_size b0)"
  defines "b2 \<equiv> put_at (put_at (put_at b0 A) (STORE32H 0)) bs"
  defines "b4 \<equiv> put_at (b2\<lparr>buf_pos := buf_pos (put_at b0 A)\<rparr>) (STORE32H v)"
  shows "buf_ok b4" and "buf_body b4 = A @ STORE32H v @ bs" and "unat (buf_pos (put_at b0 A)) \<le> unat (buf_len b2)"
    and "unat (buf_pos (put_at b0 A)) + 4 \<le> unat (buf_size b2)" and "buf_ok b2" and "buf_size b4 = buf_size b0"
proof -
  have b2: "b2 = put_at b0 (A @ STORE32H 0 @ bs)"
    using put_at_put_at [OF ok, of A "STORE32H 0"] put_at_put_at [OF ok, of "A @ STORE32H 0" bs] fits e by (simp add: b2_def)
  have p: "unat (buf_pos (put_at b0 A)) = length A" using put_at_fields(1) [OF ok, of A] e fits by simp
  have n: "unat (buf_len b2) = length A + 4 + length bs" "buf_size b2 = buf_size b0"
    using put_at_fields(2,3) [OF ok, of "A @ STORE32H 0 @ bs"] e fits by (simp_all add: b2)
  have d: "buf_data b2 = A @ STORE32H 0 @ bs @ drop (length A + 4 + length bs) (buf_data b0)"
    using e by (simp add: b2 put_at_def add.assoc)
  show ok2: "buf_ok b2" using buf_ok_put_at [OF ok, of "A @ STORE32H 0 @ bs"] e fits by (simp add: b2)
  show "unat (buf_pos (put_at b0 A)) \<le> unat (buf_len b2)" "unat (buf_pos (put_at b0 A)) + 4 \<le> unat (buf_size b2)"
    using p n fits by simp_all
  let ?b3 = "b2\<lparr>buf_pos := buf_pos (put_at b0 A)\<rparr>"
  have ok3: "buf_ok ?b3" using ok2 n(1) p by (simp add: buf_ok_def)
  have r: "unat (buf_pos ?b3) + length (STORE32H v) \<le> unat (buf_size ?b3)" using p n fits by simp
  show "buf_ok b4" unfolding b4_def by (rule buf_ok_put_at [OF ok3 r])
  have "unat (buf_len b4) = length A + 4 + length bs" using put_at_fields(2) [OF ok3 r] n p by (simp add: b4_def)
  moreover have "buf_data b4 = A @ STORE32H v @ bs @ drop (length A + 4 + length bs) (buf_data b0)"
    using p by (simp add: b4_def put_at_def d)
  ultimately show "buf_body b4 = A @ STORE32H v @ bs" by (simp add: buf_body_def)
  show "buf_size b4 = buf_size b0" using n(2) by (simp add: b4_def put_at_def)
qed

lemma m_close_wp: "m_close fd (ses\<lparr>writepayload := b\<rparr>) = rbind (m_close fd ses) (\<lambda>s. Inr (s\<lparr>writepayload := b\<rparr>))"
  by (simp add: m_close_def close_fd_def)

lemma set_chan_wp: "set_chan i c (ses\<lparr>writepayload := b\<rparr>) = (set_chan i c ses)\<lparr>writepayload := b\<rparr>"
  by (simp add: set_chan_def)

lemma chan_wp [simp]: "chan i (ses\<lparr>writepayload := b\<rparr>) = chan i ses"
  by (simp add: chan_def)

lemma close_chan_fd_wp:
  "close_chan_fd i fd rd (ses\<lparr>writepayload := b\<rparr>) = rbind (close_chan_fd i fd rd ses) (\<lambda>s. Inr (s\<lparr>writepayload := b\<rparr>))"
proof (cases "chan i ses")
  case (Inl e)
  then show ?thesis by (simp add: close_chan_fd_def)
next
  case (Inr c)
  have m: "(if B then Inr (ses\<lparr>writepayload := b\<rparr>) else m_close fd (ses\<lparr>writepayload := b\<rparr>))
      = rbind (if B then Inr ses else m_close fd ses) (\<lambda>s. Inr (s\<lparr>writepayload := b\<rparr>))" for B by (simp add: m_close_wp)
  have n: "(if B then m_close fd (s\<lparr>writepayload := b\<rparr>) else Inr (s\<lparr>writepayload := b\<rparr>))
      = rbind (if B then m_close fd s else Inr s) (\<lambda>s. Inr (s\<lparr>writepayload := b\<rparr>))" for B s by (simp add: m_close_wp)
  show ?thesis unfolding close_chan_fd_def chan_wp Inr rbind.simps m rbind_assoc Let_def set_chan_wp n by (rule refl)
qed

lemma with_chan_wp:
  "with_chan ce ses0 i c ses \<Longrightarrow> buf_ok b \<Longrightarrow> unat (buf_size b) = 16384 \<Longrightarrow> buf_pos b = 0 \<Longrightarrow> buf_len b = 0
    \<Longrightarrow> with_chan ce ses0 i c (ses\<lparr>writepayload := b\<rparr>)"
  by (simp add: with_chan_def base_ok_def sendable_def wp_empty_def payload_ok_def wp_ok_def listeners_ok_def)

text \<open>Giving up in the middle of the message: the outgoing payload is emptied again.\<close>

lemma close_and_reset:
  assumes w: "with_chan ce ses0 i c ses" and b: "buf_ok b" "unat (buf_size b) = 16384"
  shows "safe (with_chan ce ses0 i (chan_fd_closed fd rd c)) (rbind (close_chan_fd i fd rd (ses\<lparr>writepayload := b\<rparr>)) wp_reset)"
    and "safe (with_chan ce ses0 i c) (wp_reset (ses\<lparr>writepayload := b\<rparr>))"
proof -
  let ?b = "b\<lparr>buf_pos := 0, buf_len := 0\<rparr>"
  have "buf_ok ?b" "unat (buf_size ?b) = 16384" using b by (simp_all add: buf_ok_def)
  then have r: "with_chan ce ses0 i c' (s\<lparr>writepayload := ?b\<rparr>)" if "with_chan ce ses0 i c' s" for c' s
    using with_chan_wp [OF that, of ?b] by simp
  have e: "wp_reset (s\<lparr>writepayload := b\<rparr>) = Inr (s\<lparr>writepayload := ?b\<rparr>)" for s by (simp add: wp_reset_eq wp_cleared_def)
  show "safe (with_chan ce ses0 i c) (wp_reset (ses\<lparr>writepayload := b\<rparr>))" using r [OF w] by (simp add: e)
  show "safe (with_chan ce ses0 i (chan_fd_closed fd rd c)) (rbind (close_chan_fd i fd rd (ses\<lparr>writepayload := b\<rparr>)) wp_reset)"
    unfolding close_chan_fd_wp rbind_assoc rbind.simps e
    by (rule res_sat_bindI [OF close_chan_fd_step [OF w]]) (simp add: r)
qed

lemma fd_read_cases:
  "same_but_fds ses (snd (fd_read fd n ses)) \<and> (\<forall>bs. fst (fd_read fd n ses) = Fd_bytes bs \<longrightarrow> length bs \<le> n)"
proof (cases "fw_reads (fds ses) fd")
  case (Cons x xs)
  then show ?thesis by (cases x) (simp_all add: fd_read_def same_but_fds_def)
qed (simp add: fd_read_def same_but_fds_def)

lemma emitted_cong:
  "dataallowed s1 = dataallowed s2 \<Longrightarrow> reply_queue s1 = reply_queue s2 \<Longrightarrow> writequeue s1 = writequeue s2 \<Longrightarrow> keys s1 = keys s2
    \<Longrightarrow> transseq s1 = transseq s2 \<Longrightarrow> emitted pr s1 m s = emitted pr s2 m s"
  by (simp add: emitted_def held_back_def)

definition data_header :: "Channel \<Rightarrow> bool \<Rightarrow> field list" where
  "data_header c isextended = [F_byte (if isextended then SSH_MSG_CHANNEL_EXTENDED_DATA else SSH_MSG_CHANNEL_DATA), F_int (ch_remotechan c)]
     @ (if isextended then [F_int SSH_EXTENDED_DATA_STDERR] else [])"

definition sent_data :: "chan_env \<Rightarrow> sshsession \<Rightarrow> Channel \<Rightarrow> bool \<Rightarrow> byte list \<Rightarrow> sshsession \<Rightarrow> bool" where
  "sent_data ce ses c isextended bs s \<longleftrightarrow> bs \<noteq> [] \<and> length bs \<le> unat (ch_transwindow c) \<and> length bs \<le> unat (ch_transmaxpacket c)
     \<and> emitted (ce_pr ce) ses (message (data_header c isextended @ [F_str bs])) s"

lemma message_append: "message (fs @ gs) = message fs @ message gs"
  by (simp add: message_def)

lemma send_data_outcome:
  assumes w: "with_chan ce ses0 i c ses" and nc: "\<not> ch_sent_close c"
    and fd: "fd = (if isextended then ch_errfd c else ch_readfd c)" "0 \<le> fd"
  shows "safe (\<lambda>s. with_chan ce ses0 i c s \<or> with_chan ce ses0 i (chan_fd_closed fd True c) s
      \<or> (\<exists>bs. with_chan ce ses0 i (c\<lparr>ch_transwindow := ch_transwindow c - of_nat (length bs)\<rparr>) s \<and> sent_data ce ses c isextended bs s))
    (send_msg_channel_data ce i isextended ses)" (is "safe ?Q _")
proof -
  let ?A = "message (data_header c isextended)" and ?b0 = "writepayload ses"
  have b0: "buf_ok ?b0" "unat (buf_size ?b0) = 16384" "buf_pos ?b0 = 0" "buf_len ?b0 = 0" and send: "sendable (ce_pr ce) ses"
    using w by (simp_all add: with_chan_def base_ok_def wp_empty_def sendable_def wp_ok_def)
  have wp: "wp_ok ses" using b0 by (simp add: wp_ok_def)
  have lA: "length ?A = (if isextended then 9 else 5)" and neA: "?A \<noteq> []" by (simp_all add: data_header_def message_def)
  define maxlen where "maxlen = min (min (ch_transwindow c) (ch_transmaxpacket c)) (buf_size ?b0 - 1 - 4 - 4 - (if isextended then 4 else 0))"
  have um: "unat maxlen \<le> unat (ch_transwindow c)" "unat maxlen \<le> unat (ch_transmaxpacket c)" "length ?A + 4 + unat maxlen \<le> 16384"
    using b0(2) lA by (auto simp: maxlen_def unat_min_u32 unat_sub_u32)
  have bs16: "buf_size ?b0 = 16384" using b0(2) by (simp add: u32_eq_iff)
  define b1 where "b1 = put_at ?b0 ?A"
  define b1' where "b1' = put_at b1 (STORE32H 0)"
  have b1: "buf_ok b1" "buf_size b1 = buf_size ?b0" "unat (buf_pos b1) = length ?A"
    using buf_ok_put_at [OF b0(1), of ?A] put_at_fields [OF b0(1), of ?A] b0 um(3) by (simp_all add: b1_def)
  have b1': "buf_ok b1'" "unat (buf_size b1') = 16384" "unat (buf_pos b1') = length ?A + 4"
    using buf_ok_put_at [OF b1(1), of "STORE32H 0"] put_at_fields [OF b1(1), of "STORE32H 0"] b1 b0 um(3) by (simp_all add: b1'_def)
  have put1: "put_fields (data_header c isextended) ses = Inr (ses\<lparr>writepayload := b1\<rparr>)"
    using put_fields_eq [OF wp, of "data_header c isextended"] b0 um(3) by (simp add: b1_def)
  have "wp_ok (ses\<lparr>writepayload := b1\<rparr>)" using b1 b0 by (simp add: wp_ok_def)
  then have put2: "put_fields [F_int 0] (ses\<lparr>writepayload := b1\<rparr>) = Inr (ses\<lparr>writepayload := b1'\<rparr>)"
    using put_fields_eq [of "ses\<lparr>writepayload := b1\<rparr>" "[F_int 0]"] b1(3) um(3) by (simp add: message_def b1'_def)
  have wptr: "buf_getwriteptr b1' maxlen = Inr (unat (buf_pos b1'))" using b1' um(3) by (simp add: buf_getwriteptr_eq)
  obtain res s where rs: "fd_read fd (unat maxlen) (ses\<lparr>writepayload := b1'\<rparr>) = (res, s)" by (metis surj_pair)
  have k: "same_but_fds (ses\<lparr>writepayload := b1'\<rparr>) s" "\<And>bs. res = Fd_bytes bs \<Longrightarrow> length bs \<le> unat maxlen"
    using fd_read_cases [of "ses\<lparr>writepayload := b1'\<rparr>" fd "unat maxlen"] rs by auto
  define t where "t = ses\<lparr>fds := fds s\<rparr>"
  have "ses\<lparr>writepayload := b1', fds := fds s\<rparr> = t\<lparr>writepayload := b1'\<rparr>" by (simp add: t_def)
  with k(1) have s: "s = t\<lparr>writepayload := b1'\<rparr>" unfolding same_but_fds_def by (rule trans)
  have wt: "with_chan ce ses0 i c t" unfolding t_def by (rule with_chan_fds [OF w])
  note rst = close_and_reset [OF wt b1'(1,2), folded s]
  have main: "safe ?Q (rbind (wr_mem (buf_data (writepayload s)) (unat (buf_pos b1')) bs) (\<lambda>d.
          rbind (with_wp (\<lambda>b. buf_incrwritepos (b\<lparr>buf_data := d\<rparr>) (of_nat (length bs))) s) (\<lambda>ses.
          rbind (with_wp (\<lambda>b. buf_setpos b (buf_pos b1)) ses) (\<lambda>ses.
          rbind (put_fields [F_int (of_nat (length bs))] ses) (\<lambda>ses.
          rbind (mod_chan i (\<lambda>c. c\<lparr>ch_transwindow := ch_transwindow c - of_nat (length bs)\<rparr>) ses) (\<lambda>ses.
          encrypt_packet (ce_pr ce) ses))))))" if bs: "bs \<noteq> []" "length bs \<le> unat maxlen" for bs
  proof -
    let ?v = "of_nat (length bs) :: u32" and ?c = "c\<lparr>ch_transwindow := ch_transwindow c - of_nat (length bs)\<rparr>"
    define b2 where "b2 = put_at b1' bs"
    define b4 where "b4 = put_at (b2\<lparr>buf_pos := buf_pos b1\<rparr>) (STORE32H ?v)"
    have fits: "length ?A + 4 + length bs \<le> unat (buf_size ?b0)" using um(3) bs(2) b0(2) by simp
    note as4 = assemble(1,2,6) [OF b0(1,3,4) fits, of ?v, folded b1_def b1'_def b2_def, folded b4_def]
    note as2 = assemble(3,4,5) [OF b0(1,3,4) fits, folded b1_def b1'_def b2_def]
    have "rbind (wr_mem (buf_data b1') (unat (buf_pos b1')) bs) (\<lambda>d. buf_incrwritepos (b1'\<lparr>buf_data := d\<rparr>) ?v) = Inr b2"
      using wr_incr_eq_put_at [OF b1'(1), of bs] b1' fits b0(2) by (simp add: b2_def)
    then obtain d where d: "wr_mem (buf_data b1') (unat (buf_pos b1')) bs = Inr d" "buf_incrwritepos (b1'\<lparr>buf_data := d\<rparr>) ?v = Inr b2"
      by auto
    have e2: "with_wp (\<lambda>b. buf_incrwritepos (b\<lparr>buf_data := d\<rparr>) ?v) s = Inr (t\<lparr>writepayload := b2\<rparr>)" by (simp add: with_wp_def s d(2))
    let ?b3 = "b2\<lparr>buf_pos := buf_pos b1\<rparr>"
    have e3: "with_wp (\<lambda>b. buf_setpos b (buf_pos b1)) (t\<lparr>writepayload := b2\<rparr>) = Inr (t\<lparr>writepayload := ?b3\<rparr>)"
      using as2(1) by (simp add: with_wp_def buf_setpos_eq)
    have ok3: "buf_ok ?b3" using as2(1,3) by (simp add: buf_ok_def)
    have sz: "unat (buf_size ?b3) = 16384" using as4(3) b0(2) by (simp add: b4_def put_at_def)
    have e4: "put_fields [F_int ?v] (t\<lparr>writepayload := ?b3\<rparr>) = Inr (t\<lparr>writepayload := b4\<rparr>)"
      using put_fields_eq [of "t\<lparr>writepayload := ?b3\<rparr>" "[F_int ?v]"] ok3 sz as2(2) by (simp add: wp_ok_def message_def b4_def)
    define u where "u = set_chan i ?c (t\<lparr>writepayload := b4\<rparr>)"
    have e5: "mod_chan i (\<lambda>c. c\<lparr>ch_transwindow := ch_transwindow c - of_nat (length bs)\<rparr>) (t\<lparr>writepayload := b4\<rparr>) = Inr u"
      by (simp add: mod_chan_def with_chan_chan [OF wt] u_def)
    have bu: "wp_body u = message (data_header c isextended @ [F_str bs])"
      using as4(2) by (simp add: wp_body_buf u_def set_chan_def message_append) (simp add: message_def)
    have su: "sendable (ce_pr ce) u" using send as4(1,3) b0(2) by (simp add: u_def set_chan_def t_def sendable_def wp_ok_def)
    obtain f where f: "encrypt_packet (ce_pr ce) u = Inr f" "sendable (ce_pr ce) f" "app_same u f" "wp_empty f" "emitted (ce_pr ce) u (wp_body u) f"
      using ssh.send_law [OF su] bu neA by (auto simp: message_append)
    have wu: "with_chan ce ses0 i ?c (u\<lparr>writepayload := writepayload ses\<rparr>)"
      using with_chan_set [OF wt, of ?c] b0 by (simp add: u_def set_chan_def t_def)
    have "app_same (u\<lparr>writepayload := writepayload ses\<rparr>) f" using f(3) by (simp add: app_same_def)
    then have "with_chan ce ses0 i ?c f" by (rule app_same_chan [OF wu f(2,4)])
    moreover have "emitted (ce_pr ce) ses (wp_body u) f"
      using f(5) by (subst emitted_cong [where ?s2.0 = u]) (simp_all add: u_def set_chan_def t_def)
    then have "sent_data ce ses c isextended bs f" using bs um(1,2) by (simp add: sent_data_def bu)
    ultimately have "?Q f" by blast
    then show ?thesis unfolding s sshsession.simps using d(1) e2 e3 e4 e5 f(1) by (simp add: s)
  qed
  show ?thesis
  proof (cases "maxlen = 0")
    case True
    then show ?thesis using w nc fd
      unfolding send_msg_channel_data_def with_chan_chan [OF w] rbind.simps Let_def maxlen_def [symmetric] fd(1) [symmetric] by simp
  next
    case False
    have a: "dropbear_assert (\<not> ch_sent_close c) = Inr ()" "dropbear_assert (fd \<ge> 0) = Inr ()" using nc fd(2) by simp_all
    have wpb: "writepayload (x\<lparr>writepayload := b\<rparr>) = b" for x :: sshsession and b by simp
    have "send_msg_channel_data ce i isextended ses = (case res of
        Fd_eintr \<Rightarrow> wp_reset s
      | Fd_error \<Rightarrow> rbind (close_chan_fd i fd True s) wp_reset
      | Fd_bytes bs \<Rightarrow>
          if bs = [] then rbind (close_chan_fd i fd True s) wp_reset
          else rbind (wr_mem (buf_data (writepayload s)) (unat (buf_pos b1')) bs) (\<lambda>d.
          rbind (with_wp (\<lambda>b. buf_incrwritepos (b\<lparr>buf_data := d\<rparr>) (of_nat (length bs))) s) (\<lambda>ses.
          rbind (with_wp (\<lambda>b. buf_setpos b (buf_pos b1)) ses) (\<lambda>ses.
          rbind (put_fields [F_int (of_nat (length bs))] ses) (\<lambda>ses.
          rbind (mod_chan i (\<lambda>c. c\<lparr>ch_transwindow := ch_transwindow c - of_nat (length bs)\<rparr>) ses) (\<lambda>ses.
          encrypt_packet (ce_pr ce) ses))))))"
      unfolding send_msg_channel_data_def with_chan_chan [OF w] rbind.simps Let_def maxlen_def [symmetric] fd(1) [symmetric] a
        if_not_P [OF False] data_header_def [symmetric] put1 wpb put2 wptr rs prod.case by (rule refl)
    then show ?thesis
    proof (rule ssubst)
      have cl: "safe ?Q (rbind (close_chan_fd i fd True s) wp_reset)" by (rule res_sat_mono [OF rst(1)]) blast
      show "safe ?Q (case res of
        Fd_eintr \<Rightarrow> wp_reset s
      | Fd_error \<Rightarrow> rbind (close_chan_fd i fd True s) wp_reset
      | Fd_bytes bs \<Rightarrow>
          if bs = [] then rbind (close_chan_fd i fd True s) wp_reset
          else rbind (wr_mem (buf_data (writepayload s)) (unat (buf_pos b1')) bs) (\<lambda>d.
          rbind (with_wp (\<lambda>b. buf_incrwritepos (b\<lparr>buf_data := d\<rparr>) (of_nat (length bs))) s) (\<lambda>ses.
          rbind (with_wp (\<lambda>b. buf_setpos b (buf_pos b1)) ses) (\<lambda>ses.
          rbind (put_fields [F_int (of_nat (length bs))] ses) (\<lambda>ses.
          rbind (mod_chan i (\<lambda>c. c\<lparr>ch_transwindow := ch_transwindow c - of_nat (length bs)\<rparr>) ses) (\<lambda>ses.
          encrypt_packet (ce_pr ce) ses))))))"
      proof (cases res)
        case (Fd_bytes bs)
        show ?thesis unfolding Fd_bytes fd_read.case by (rule res_sat_if, rule cl, erule main, rule k(2), rule Fd_bytes)
      next
        case Fd_eintr
        show ?thesis unfolding Fd_eintr fd_read.case by (rule res_sat_mono [OF rst(2)]) blast
      next
        case Fd_error
        show ?thesis unfolding Fd_error fd_read.case by (rule cl)
      qed
    qed
  qed
qed

section \<open>The messages about channels\<close>

definition has_payload :: "sshsession \<Rightarrow> bool" where
  "has_payload ses \<longleftrightarrow> (\<exists>b. payload ses = Some b \<and> buf_ok b)"

lemma chans_ok_payload: "chans_ok ce ses \<Longrightarrow> buf_ok b \<Longrightarrow> chans_ok ce (ses\<lparr>payload := Some b\<rparr>)"
  by (simp add: chans_ok_def slots_ok_def base_ok_def sendable_def wp_empty_def payload_ok_def wp_ok_def listeners_ok_def)

lemma with_chan_has_payload: "with_chan ce ses0 i c ses \<Longrightarrow> payload ses \<noteq> None \<Longrightarrow> has_payload ses"
  by (auto simp: with_chan_def base_ok_def payload_ok_def has_payload_def)

lemma from_payload_step:
  assumes "has_payload ses" and "\<And>b. buf_ok b \<Longrightarrow> safe (\<lambda>(v, b'). P v \<and> buf_ok b') (f b)"
  shows "safe (\<lambda>(v, s). P v \<and> has_payload s \<and> (\<exists>b. buf_ok b \<and> s = ses\<lparr>payload := Some b\<rparr>)) (from_payload f ses)"
proof -
  obtain b where b: "payload ses = Some b" "buf_ok b" using assms(1) by (auto simp: has_payload_def)
  show ?thesis unfolding from_payload_def b(1) option.case
    by (rule res_sat_bindI [OF assms(2) [OF b(2)]]) (auto simp: has_payload_def)
qed

lemma getint_step:
  "has_payload ses \<Longrightarrow> safe (\<lambda>(v, s). has_payload s \<and> (\<exists>b. buf_ok b \<and> s = ses\<lparr>payload := Some b\<rparr>)) (from_payload buf_getint ses)"
  using from_payload_step [of ses "\<lambda>_. True" buf_getint] buf_getint_contract by simp

lemma getchannel_step:
  assumes "chans_ok ce ses" and "has_payload ses"
  shows "safe (\<lambda>(i, s). \<exists>c. with_chan ce s i c s \<and> chan_ok ce i c \<and> slots_ok ce s \<and> has_payload s) (getchannel_msg kind ses)"
  unfolding getchannel_msg_def
proof (rule res_sat_bind2I [OF getint_step [OF assms(2)]], goal_cases)
  case (1 ch s)
  then obtain b where b: "buf_ok b" "s = ses\<lparr>payload := Some b\<rparr>" and hp: "has_payload s" by blast
  have ok: "chans_ok ce s" using chans_ok_payload [OF assms(1) b(1)] b(2) by simp
  then have sl: "slots_ok ce s" by (simp add: chans_ok_def)
  show ?case
  proof (cases "ch < chansize s \<and> channels s ! unat ch \<noteq> None")
    case True
    then obtain c where c: "channels s ! unat ch = Some c" by blast
    have len: "unat ch < length (channels s)" using True sl by (simp add: slots_ok_def word_less_nat_alt)
    have "with_chan ce s (unat ch) c s" by (rule with_chan_start [OF ok]) (simp add: chan_eq c len)
    moreover have "chan_ok ce (unat ch) c" using sl c len by (simp add: slots_ok_def)
    ultimately show ?thesis using True c len sl hp by (auto simp: slot_def entry_def not_le)
  next
    case False
    have "\<not> ch \<ge> chansize s \<Longrightarrow> unat ch < length (channels s)" using sl by (simp add: slots_ok_def word_le_nat_alt)
    then show ?thesis using False by (auto simp: slot_def entry_def)
  qed
qed

lemma keeps_final: "slots_ok ce s0 \<Longrightarrow> with_chan ce s0 i c0 s0 \<Longrightarrow> keeps ce s0 i s \<Longrightarrow> chans_ok ce s"
  by (rule keeps_chans_ok) (auto simp: with_chan_def, metis nth_list_update_eq option.distinct(1))

lemma with_chan_keeps_payload: "keeps ce s0 i s \<Longrightarrow> buf_ok b \<Longrightarrow> keeps ce s0 i (s\<lparr>payload := Some b\<rparr>)"
  unfolding keeps_def by (blast intro: with_chan_payload)

lemma mod_keeps:
  "keeps ce s0 i s \<Longrightarrow> (\<And>c. chan_ok ce i c \<Longrightarrow> chan_ok ce i (f c) \<and> agent_of (f c) = agent_of c) \<Longrightarrow> safe (keeps ce s0 i) (mod_chan i f s)"
  unfolding keeps_def by (elim exE conjE) (rule res_sat_mono, erule mod_chan_step, blast+)

lemma set_keeps:
  "with_chan ce s0 i c s \<Longrightarrow> chan_ok ce i c' \<Longrightarrow> agent_of c' = agent_of c \<Longrightarrow> keeps ce s0 i (set_chan i c' s)"
  unfolding keeps_def by (blast intro: with_chan_set)

lemma recv_window_adjust_ok:
  assumes "chans_ok ce ses" and "has_payload ses"
  shows "safe (chans_ok ce) (recv_msg_channel_window_adjust ses)"
  unfolding recv_msg_channel_window_adjust_def getchannel_def
proof (rule res_sat_bind2I [OF getchannel_step [OF assms]], goal_cases)
  case (1 i s)
  then obtain c where c: "with_chan ce s i c s" "chan_ok ce i c" "slots_ok ce s" "has_payload s" by blast
  show ?case
  proof (rule res_sat_bind2I [OF getint_step [OF c(4)]], goal_cases)
    case (1 v s')
    then have k: "with_chan ce s i c s'" using with_chan_payload [OF c(1)] by auto
    show ?case unfolding with_chan_chan [OF k] rbind.simps Let_def res_sat.simps
      by (rule keeps_final [OF c(3,1)], rule set_keeps [OF k]) (simp_all add: c(2))
  qed
qed

lemma recv_data_ok:
  assumes "chans_ok ce ses" and "has_payload ses" and "unat (ce_recv_window ce) \<le> 10485760"
  shows "memsafe (chans_ok ce) (recv_msg_channel_data ce ses)"
  unfolding recv_msg_channel_data_def getchannel_def
proof (rule res_sat_bind2I [OF safe_memsafe [OF getchannel_step [OF assms(1,2)]]], goal_cases)
  case (1 i s)
  then obtain c p where c: "with_chan ce s i c s" "chan_ok ce i c" "slots_ok ce s" "payload s = Some p" "buf_ok p" by (auto simp: has_payload_def)
  have "memsafe (keeps ce s i) (common_recv_msg_channel_data ce i (ch_writefd c) Writebuf s)"
    by (rule res_sat_weaken [OF common_recv_data [OF c(1,2,4,5) assms(3)]]) (auto intro: orderly_defined keepsI)
  then show ?case unfolding with_chan_chan [OF c(1)] rbind.simps
    by (rule res_sat_mono) (rule keeps_final [OF c(3,1)])
qed

section \<open>Opening a channel\<close>

lemma first_free_le: "first_free xs n \<le> n"
  by (induction xs n rule: first_free.induct) auto

lemma first_free_None: "first_free xs n < n \<Longrightarrow> n \<le> length xs \<Longrightarrow> xs ! first_free xs n = None"
  by (induction xs n rule: first_free.induct) auto

lemma occupied_add: "i < length xs \<Longrightarrow> xs ! i = None \<Longrightarrow> occupied (xs[i := Some c]) = Suc (occupied xs)"
proof (induction xs arbitrary: i)
  case (Cons x xs)
  then show ?case by (cases i) (auto simp: occupied_def)
qed simp

lemma occupied_le: "occupied xs \<le> length xs"
  by (simp add: occupied_def)

lemma occupied_grow: "occupied (xs @ replicate n None) = occupied xs"
  by (simp add: occupied_def)

definition grow_table :: "sshsession \<Rightarrow> sshsession" where
  "grow_table ses = ses\<lparr>channels := channels ses @ replicate 3 None, chansize := chansize ses + 3\<rparr>"

lemma chans_ok_grow:
  assumes ok: "chans_ok ce ses" and n: "unat (chansize ses) < 1000"
  shows "chans_ok ce (grow_table ses)"
proof -
  have u: "unat (chansize ses + 3) = unat (chansize ses) + 3" using n by (simp add: unat_add_u32)
  have "agents_ok ses" using ok by (simp add: chans_ok_def base_ok_def)
  then have ag: "agents_ok (ses\<lparr>channels := channels ses @ replicate 3 None\<rparr>)"
    by (rule agents_ok_upd) (auto simp: nth_append nth_Cons' split: if_splits)
  have "base_ok ce (grow_table ses)"
    using ok ag by (simp add: chans_ok_def grow_table_def base_ok_def sendable_def wp_empty_def payload_ok_def wp_ok_def listeners_ok_def)
  moreover have "slots_ok ce (grow_table ses)"
    using ok n by (auto simp: chans_ok_def slots_ok_def grow_table_def u occupied_grow nth_append nth_Cons' split: if_splits)
  ultimately show ?thesis by (simp add: chans_ok_def)
qed

lemma place_channel:
  assumes ok: "chans_ok ce ses" and i: "i < length (channels ses)" "channels ses ! i = None" and c: "agent_of c = None"
  defines "s \<equiv> (set_chan i c ses)\<lparr>chancount := chancount ses + 1\<rparr>"
  shows "with_chan ce s i c s" and "chan_ok ce i c \<Longrightarrow> slots_ok ce s" and "payload s = payload ses"
proof -
  have sl: "slots_ok ce ses" using ok by (simp add: chans_ok_def)
  have "occupied (channels ses) \<le> 1002" using sl occupied_le [of "channels ses"] by (simp add: slots_ok_def)
  then have "unat (chancount ses + 1) = Suc (occupied (channels ses))"
    using sl by (simp add: slots_ok_def unat_add_u32)
  then show "slots_ok ce s" if "chan_ok ce i c"
    using sl i that by (auto simp: slots_ok_def s_def set_chan_def occupied_add nth_list_update split: if_splits)
  have "agents_ok ses" using ok by (simp add: chans_ok_def base_ok_def)
  then have "agents_ok s"
    by (rule agents_ok_upd) (use c in \<open>auto simp: s_def set_chan_def dest!: nth_update_cases\<close>)
  then have "base_ok ce s"
    using ok by (simp add: chans_ok_def s_def set_chan_def base_ok_def sendable_def wp_empty_def payload_ok_def wp_ok_def listeners_ok_def)
  then show "with_chan ce s i c s" using i by (simp add: with_chan_def s_def set_chan_def)
  show "payload s = payload ses" by (simp add: s_def set_chan_def)
qed

lemma new_chan_newborn:
  assumes "cbuf_new (ce_recv_window ce) = Inr wb" and "0 < unat (ce_recv_window ce)" "unat (ce_recv_window ce) \<le> 10485760"
    and "i < 1002" and "type < length (ce_types ce)"
  shows "newborn ce i (new_chan ce i remotechan type transwindow transmaxpacket wb)"
proof -
  have "cbuf_ok wb" "cb_size wb = ce_recv_window ce" "cb_used wb = 0"
    using cbuf_new_ok [OF assms(2)] assms(1,3) by (auto simp: cbuf_new_def split: if_splits)
  moreover have "unat (of_nat i :: u32) = i" using assms(4) by (simp add: unat_of_nat_u32)
  ultimately show ?thesis using assms(5)
    by (simp add: newborn_def chan_core_def new_chan_def bufs_ok_def window_ok_def held_def fds_ok_def)
qed

definition fresh_chan :: "chan_env \<Rightarrow> u32 \<Rightarrow> nat \<Rightarrow> u32 \<Rightarrow> u32 \<Rightarrow> nat \<Rightarrow> Channel" where
  "fresh_chan ce remotechan type transwindow transmaxpacket i = new_chan ce i remotechan type transwindow transmaxpacket
     \<lparr>cb_size = ce_recv_window ce, cb_readpos = 0, cb_writepos = 0, cb_used = 0, cb_data = None\<rparr>"

text \<open>A new channel takes the first free slot, growing the table by three when there is none, up to the maximum.\<close>

lemma newchannel_eq:
  assumes ok: "chans_ok ce ses" and win: "0 < unat (ce_recv_window ce)" "unat (ce_recv_window ce) \<le> 10485760"
  defines "i \<equiv> first_free (channels ses) (length (channels ses))"
  shows "newchannel ce remotechan type transwindow transmaxpacket ses =
    (if i = length (channels ses) \<and> 1000 \<le> length (channels ses) then Inr (None, ses)
     else let s = (if i = length (channels ses) then grow_table ses else ses) in
       Inr (Some i, (set_chan i (fresh_chan ce remotechan type transwindow transmaxpacket i) s)\<lparr>chancount := chancount s + 1\<rparr>))"
proof -
  have len: "length (channels ses) = unat (chansize ses)" using ok by (simp add: chans_ok_def slots_ok_def)
  have nb: "cbuf_new (ce_recv_window ce) = Inr \<lparr>cb_size = ce_recv_window ce, cb_readpos = 0, cb_writepos = 0, cb_used = 0, cb_data = None\<rparr>"
    using win by (simp add: cbuf_new_def word_less_nat_alt)
  have m: "(1000 \<le> chansize ses) = (1000 \<le> unat (chansize ses))" by (simp add: word_le_nat_alt)
  show ?thesis
    unfolding newchannel_def nb rbind.simps fresh_chan_def i_def len m grow_table_def using len
    by (simp add: Let_def)
qed

text \<open>
  The state a new channel is in until its type has initialised it: as if its slot held a channel in order before. The dummy
  stands for that channel.
\<close>

lemma newborn_typed:
  "newborn ce i c \<Longrightarrow> sess_ok x \<Longrightarrow> chan_ok ce i (c\<lparr>ch_typedata := Some x\<rparr>)"
  by (simp add: newborn_def chan_ok_def chan_core_def typed_ok_def bufs_ok_def window_ok_def held_def fds_ok_def Let_def)

lemma place_newborn:
  assumes ok: "chans_ok ce ses" and i: "i < length (channels ses)" "channels ses ! i = None" and c: "newborn ce i c"
  defines "s \<equiv> (set_chan i c ses)\<lparr>chancount := chancount ses + 1\<rparr>"
  shows "\<exists>ses0. with_chan ce ses0 i c s \<and> slots_ok ce ses0 \<and> channels ses0 ! i \<noteq> None"
proof -
  define x where "x = (undefined :: ChanSess)\<lparr>cs_agentlistener := None, cs_exit := \<lparr>ex_exitpid = - 1, ex_exitstatus = 0, ex_exitsignal = 0, ex_exitcore = 0\<rparr>\<rparr>"
  define d where "d = c\<lparr>ch_typedata := Some x\<rparr>"
  define ses0 where "ses0 = (set_chan i d ses)\<lparr>chancount := chancount ses + 1\<rparr>"
  have d: "chan_ok ce i d" "agent_of d = None" using newborn_typed [OF c, of x] by (simp_all add: d_def x_def agent_of_def sess_ok_def)
  have a: "agent_of c = None" using c by (simp add: newborn_def agent_of_def)
  note pd = place_channel [OF ok i d(2), folded ses0_def] and pc = place_channel [OF ok i a, folded s_def]
  have "with_chan ce ses0 i c s" using pc(1) i by (simp add: with_chan_def ses0_def s_def set_chan_def)
  then show ?thesis using pd(2) [OF d(1)] slot_some [OF pd(1)] by blast
qed

lemma newchannel_step:
  assumes ok: "chans_ok ce ses" and win: "0 < unat (ce_recv_window ce)" "unat (ce_recv_window ce) \<le> 10485760"
    and type: "type < length (ce_types ce)"
  shows "safe (\<lambda>(r, s). payload s = payload ses \<and> listeners s = listeners ses \<and> listensize s = listensize ses \<and> (case r of None \<Rightarrow> s = ses
      | Some i \<Rightarrow> \<exists>ses0 c. with_chan ce ses0 i c s \<and> newborn ce i c \<and> ch_type c = type \<and> slots_ok ce ses0 \<and> channels ses0 ! i \<noteq> None))
    (newchannel ce remotechan type transwindow transmaxpacket ses)"
proof -
  define i where "i = first_free (channels ses) (length (channels ses))"
  define s where "s = (if i = length (channels ses) then grow_table ses else ses)"
  have len: "length (channels ses) = unat (chansize ses)" "unat (chansize ses) \<le> 1002" using ok by (auto simp: chans_ok_def slots_ok_def)
  show ?thesis
  proof (cases "i = length (channels ses) \<and> 1000 \<le> length (channels ses)")
    case True
    then show ?thesis by (simp add: newchannel_eq [OF ok win] i_def)
  next
    case False
    have oks: "chans_ok ce s" using chans_ok_grow [OF ok] ok False len by (auto simp: s_def)
    have sl: "i < length (channels s)" "channels s ! i = None"
      using first_free_le [of "channels ses" "length (channels ses)"] first_free_None [of "channels ses" "length (channels ses)"]
      by (auto simp: s_def i_def grow_table_def nth_append)
    have i: "i < 1002" using sl(1) oks by (simp add: chans_ok_def slots_ok_def)
    let ?c = "fresh_chan ce remotechan type transwindow transmaxpacket i"
    have nb: "newborn ce i ?c" unfolding fresh_chan_def
      by (rule new_chan_newborn [OF _ win i type]) (use win in \<open>simp add: cbuf_new_def word_less_nat_alt\<close>)
    have ty: "ch_type ?c = type" by (simp add: fresh_chan_def new_chan_def)
    have same: "payload s = payload ses" "listeners s = listeners ses" "listensize s = listensize ses" by (simp_all add: s_def grow_table_def)
    show ?thesis
      unfolding newchannel_eq [OF ok win] i_def [symmetric] Let_def s_def [symmetric] if_not_P [OF False]
      using place_newborn [OF oks sl nb] nb ty same by (auto simp: set_chan_def)
  qed
qed

lemma chans_ok_send:
  "chans_ok ce ses \<Longrightarrow> message fs \<noteq> [] \<Longrightarrow> length (message fs) \<le> 16384 \<Longrightarrow> safe (chans_ok ce) (send_fields ce fs ses)"
  using send_fields_ok [of ce ses fs] by (auto simp: chans_ok_def slots_ok_def app_same_def)

lemma chans_ok_prio [simp]: "chans_ok ce (update_channel_prio ses) = chans_ok ce ses"
  by (simp add: chans_ok_def)

lemma open_failure_ok:
  "chans_ok ce ses \<Longrightarrow> safe (chans_ok ce) (send_msg_channel_open_failure ce remotechan reason [] [] ses)"
  unfolding send_msg_channel_open_failure_def by (rule chans_ok_send) (simp_all add: message_small)

lemma keeps_prio: "keeps ce s0 i s \<Longrightarrow> keeps ce s0 i (update_channel_prio s)"
  unfolding keeps_def by (blast intro: with_chan_prio)

lemma keeps_self: "with_chan ce s i c s \<Longrightarrow> chan_ok ce i c \<Longrightarrow> keeps ce s i s"
  by (rule keepsI)

context channel_handlers
begin

lemma remove_keeps:
  assumes "keeps ce s0 i s" and "slots_ok ce s0" and "channels s0 ! i \<noteq> None"
  shows "safe (chans_ok ce) (remove_channel ce i s)"
proof -
  obtain c where "with_chan ce s0 i c s" "chan_ok ce i c" using assms(1) by (auto simp: keeps_def)
  then show ?thesis by (rule res_sat_mono [OF remove_channel_step]) (use assms in auto)
qed

lemma init_handler:
  assumes w: "with_chan ce s0 i c s" and nb: "newborn ce i c" and t: "chan_type_of ce c = Inr t" and p: "payload s \<noteq> None"
  shows "safe (\<lambda>(r, s). keeps ce s0 i s) (case ct_inithandler t of None \<Rightarrow> Inr (0, s) | Some f \<Rightarrow> f i s)"
proof (cases "ct_inithandler t")
  case None
  have "t \<in> set (ce_types ce)" "ce_types ce ! ch_type c = t"
    using t nb by (auto simp: chan_type_of_def entry_def newborn_def chan_core_def split: if_splits)
  then have "chan_ok ce i c" using untyped None nb by (simp add: newborn_def chan_ok_def typed_ok_def Let_def)
  then show ?thesis using None w by (auto intro: keepsI)
next
  case (Some f)
  then show ?thesis using init_keeps [OF Some w nb t p] by simp
qed

lemma init_channel_ok:
  assumes w: "with_chan ce s0 i c s" and nb: "newborn ce i c" and s0: "slots_ok ce s0" "channels s0 ! i \<noteq> None" and p: "payload s \<noteq> None"
  shows "safe (\<lambda>(e, s). chans_ok ce s) (init_channel ce i s)"
proof -
  obtain t where t: "chan_type_of ce c = Inr t"
    using nb by (auto simp: chan_type_of_def entry_def newborn_def chan_core_def)
  note h = init_handler [OF w nb t p]
  have conf: "safe (\<lambda>(e, s). chans_ok ce s) (rbind (chan i s) (\<lambda>c. rbind (send_msg_channel_open_confirmation ce i (ch_recvwindow c) (ch_recvmaxpacket c) s)
      (\<lambda>s. Inr (None, s))))" if "keeps ce s0 i s" for s
  proof (rule keeps_chanI [OF that], goal_cases)
    case (1 c)
    show ?case
      by (rule res_sat_bindI [OF send_msg_steps(4) [OF 1(1)]]) (use 1 in \<open>simp add: keeps_chans_ok [OF s0 keepsI]\<close>)
  qed
  show ?thesis
    unfolding init_channel_def with_chan_chan [OF w] rbind.simps t
  proof (rule res_sat_bind2I [OF h], rule res_sat_if, goal_cases)
    case (1 r s)
    then show ?case using keeps_chans_ok [OF s0] by simp
  next
    case (2 r s)
    show ?case
      unfolding Let_def
      by (rule res_sat_if, rule res_sat_bindI [OF remove_keeps [OF 2(1) s0]], simp, rule conf, rule keeps_prio [OF 2(1)])
  qed
qed

lemma recv_open_ok:
  assumes "chans_ok ce ses" and "has_payload ses"
  shows "safe (chans_ok ce) (recv_msg_channel_open ce ses)"
proof -
  let ?P = "\<lambda>s. chans_ok ce s \<and> has_payload s"
  have gi: "safe (\<lambda>(v, s). ?P s) (from_payload buf_getint s)" if "?P s" for s
    by (rule res_sat_mono [OF getint_step]) (use that chans_ok_payload in auto)
  have gs: "safe (\<lambda>(v, s). ?P s) (from_payload (\<lambda>b. rbind (buf_getstring b) (\<lambda>(s, l, b). Inr ((s, l), b))) ses)"
  proof (rule res_sat_mono [OF from_payload_step [OF assms(2), where P = "\<lambda>_. True"]])
    fix b assume "buf_ok b"
    then show "safe (\<lambda>(v, b'). True \<and> buf_ok b') (rbind (buf_getstring b) (\<lambda>(s, l, b). Inr ((s, l), b)))"
      by (intro res_sat_bindI [OF buf_getstring_contract]) auto
  qed (use assms chans_ok_payload in auto)
  have fail: "safe (chans_ok ce) (send_msg_channel_open_failure ce rc e [] [] s)" if "?P s" for rc e s using that open_failure_ok by blast
  have new: "safe (chans_ok ce) (rbind (newchannel ce rc k tw tm s) (\<lambda>(r, ses).
         case r of None \<Rightarrow> send_msg_channel_open_failure ce rc SSH_OPEN_RESOURCE_SHORTAGE [] [] ses
         | Some i \<Rightarrow> rbind (init_channel ce i ses) (\<lambda>(err, ses).
             case err of None \<Rightarrow> Inr ses | Some errtype \<Rightarrow> send_msg_channel_open_failure ce rc errtype [] [] ses)))"
    if "?P s" "k < length (ce_types ce)" for rc k tw tm s
  proof (rule res_sat_bind2I [OF newchannel_step [OF _ window_pos window_max that(2)]], use that in blast, goal_cases)
    case (1 r s')
    show ?case
    proof (cases r)
      case None
      then show ?thesis using 1 that fail by simp
    next
      case (Some i)
      then obtain ses0 c where c: "with_chan ce ses0 i c s'" "newborn ce i c" "slots_ok ce ses0" "channels ses0 ! i \<noteq> None" "payload s' = payload s"
        using 1 by auto
      have p: "payload s' \<noteq> None" using that c(5) by (auto simp: has_payload_def)
      show ?thesis unfolding Some option.case
        by (rule res_sat_bind2I [OF init_channel_ok [OF c(1-4) p]])
          (auto split: option.split intro: open_failure_ok)
    qed
  qed
  have find: "find_chantype ce ty = Some k \<Longrightarrow> k < length (ce_types ce)" for ty k
    using chantypes_valid by (auto simp: find_chantype_def find_Some_iff)
  show ?thesis
    unfolding recv_msg_channel_open_def
    apply (rule res_sat_bindI [OF gs], clarsimp simp only: split_paired_all prod.case)
    apply (rule res_sat_bind2I [OF gi], simp)
    apply (rule res_sat_bind2I [OF gi], assumption)
    apply (rule res_sat_bind2I [OF gi], assumption)
    apply (unfold Let_def, rule res_sat_if, erule fail)
    subgoal for ty tl s rc s1 tw s2 tm s3
      by (cases "find_chantype ce ty") (auto simp only: option.case intro!: fail new find)
    done
qed

lemma recv_open_confirmation_ok:
  assumes "chans_ok ce ses" and "has_payload ses"
  shows "safe (chans_ok ce) (recv_msg_channel_open_confirmation ce ses)"
  unfolding recv_msg_channel_open_confirmation_def getchannel_def
proof (rule res_sat_bind2I [OF getchannel_step [OF assms]], goal_cases)
  case (1 i s)
  then obtain c where c: "with_chan ce s i c s" "chan_ok ce i c" "slots_ok ce s" "has_payload s" by blast
  let ?K = "\<lambda>x. keeps ce s i x \<and> has_payload x"
  have gi: "safe (\<lambda>(v, x). ?K x) (from_payload buf_getint x)" if "?K x" for x
    by (rule res_sat_mono [OF getint_step]) (use that with_chan_keeps_payload in auto)
  have k0: "?K (set_chan i (c\<lparr>ch_await_open := False\<rparr>) s)"
    using set_keeps [OF c(1) chan_ok_open [OF c(2)]] c(4) by (simp add: has_payload_def set_chan_def)
  obtain t where t: "chan_type_of ce c = Inr t" "t \<in> set (ce_types ce)" using chan_type_ok [OF c(2)] by blast
  have md: "safe ?K (mod_chan i (\<lambda>c. c\<lparr>ch_remotechan := a, ch_transwindow := b, ch_transmaxpacket := d\<rparr>) x)" if kx: "?K x" for a b d x
  proof -
    obtain c' where c': "with_chan ce s i c' x" "chan_ok ce i c'" using kx by (auto simp: keeps_def)
    show ?thesis unfolding mod_chan_def with_chan_chan [OF c'(1)] rbind.simps res_sat.simps
      using set_keeps [OF c'(1)] c'(2) kx by (simp add: has_payload_def set_chan_def)
  qed
  have none: "ct_inithandler t = None" if "ch_await_open c"
    using c(2) t(1) that by (auto simp: chan_ok_def typed_ok_def Let_def chan_type_of_def entry_def split: if_splits)
  have h: "safe (\<lambda>(r, x). keeps ce s i x) (case ct_inithandler t of None \<Rightarrow> Inr (0, x) | Some f \<Rightarrow> f i x)" if "?K x" "ct_inithandler t = None" for x
    using that by simp
  have fin: "safe (chans_ok ce) (if b then remove_channel ce i x else Inr (update_channel_prio x))" if "keeps ce s i x" for b x
    using remove_keeps [OF that c(3) slot_some [OF c(1)]] keeps_final [OF c(3,1) that] by simp
  show ?case
    unfolding with_chan_chan [OF c(1)] rbind.simps t(1)
    apply (rule res_sat_if, simp)
    apply (rule res_sat_bind2I [OF gi], rule k0)
    apply (rule res_sat_bind2I [OF gi], assumption)
    apply (rule res_sat_bind2I [OF gi], assumption)
    apply (rule res_sat_bindI [OF md], assumption)
    apply (rule res_sat_bind2I [OF h], assumption, use none in blast)
    apply (erule fin)
    done
qed

lemma recv_open_failure_ok:
  assumes "chans_ok ce ses" and "has_payload ses"
  shows "safe (chans_ok ce) (recv_msg_channel_open_failure ce ses)"
  unfolding recv_msg_channel_open_failure_def getchannel_def
proof (rule res_sat_bind2I [OF getchannel_step [OF assms]], goal_cases)
  case (1 i s)
  then obtain c where c: "with_chan ce s i c s" "chan_ok ce i c" "slots_ok ce s" by blast
  show ?case unfolding with_chan_chan [OF c(1)] rbind.simps
    by (rule res_sat_if, simp, rule remove_keeps [OF set_keeps [OF c(1) chan_ok_open [OF c(2)]] c(3) slot_some [OF c(1)]]) simp
qed

lemma recv_eof_close_ok:
  assumes "chans_ok ce ses" and "has_payload ses"
  shows "safe (chans_ok ce) (recv_msg_channel_eof ce ses)" and "safe (chans_ok ce) (recv_msg_channel_close ce ses)"
  unfolding recv_msg_channel_eof_def recv_msg_channel_close_def
  by ((rule res_sat_bind2I [OF getchannel_step [OF assms]], elim exE conjE,
      rule res_sat_bindI [OF mod_keeps [OF keepsI]], assumption, assumption, simp,
      erule check_close_step, assumption, erule slot_some)+)

lemma recv_request_ok:
  assumes "chans_ok ce ses" and "has_payload ses"
  shows "safe (chans_ok ce) (recv_msg_channel_request ce ses)"
  unfolding recv_msg_channel_request_def getchannel_def
proof (rule res_sat_bind2I [OF getchannel_step [OF assms]], goal_cases)
  case (1 i s)
  then obtain c b where c: "with_chan ce s i c s" "chan_ok ce i c" "slots_ok ce s" "has_payload s" "payload s = Some b" "buf_ok b"
    by (auto simp: has_payload_def)
  obtain t where t: "chan_type_of ce c = Inr t" "t \<in> set (ce_types ce)" using chan_type_ok [OF c(2)] by blast
  note k = keepsI [OF c(1,2)]
  have eat: "safe (\<lambda>x. keeps ce s i x \<and> has_payload x) (on_payload buf_eatstring s)"
    unfolding on_payload_def c(5) option.case
    by (rule res_sat_bindI [OF buf_eatstring_contract [OF c(6)]]) (simp add: with_chan_keeps_payload [OF k] has_payload_def)
  have gb: "safe (\<lambda>(v, x). keeps ce s i x) (from_payload buf_getbool x)" if "keeps ce s i x" "has_payload x" for x
  proof (rule res_sat_mono [OF from_payload_step [OF that(2), where P = "\<lambda>_. True"]])
    show "safe (\<lambda>(v, b'). True \<and> buf_ok b') (buf_getbool b)" if "buf_ok b" for b
      by (rule res_sat_mono [OF buf_getbool_contract [OF that]]) auto
  qed (use that with_chan_keeps_payload in auto)
  have fl: "safe (chans_ok ce) (if b then send_msg_channel_failure ce i x else Inr x)" if x: "keeps ce s i x" for b x
  proof -
    obtain c' where c': "with_chan ce s i c' x" "chan_ok ce i c'" using x by (auto simp: keeps_def)
    show ?thesis using keeps_final [OF c(3,1)] x res_sat_mono [OF send_msg_steps(2) [OF c'(1)]] keepsI [OF _ c'(2)] by auto
  qed
  have none: "safe (chans_ok ce) (rbind (on_payload buf_eatstring s) (\<lambda>ses. rbind (from_payload buf_getbool ses) (\<lambda>(wantreply, ses).
         if wantreply \<noteq> 0 then send_msg_channel_failure ce i ses else Inr ses)))"
    by (rule res_sat_bindI [OF eat], erule conjE, rule res_sat_bind2I [OF gb], assumption, assumption, erule fl)
  show ?case unfolding with_chan_chan [OF c(1)] rbind.simps t(1)
  proof (cases "ct_reqhandler t")
    case None
    then show "safe (chans_ok ce) (case ct_reqhandler t of Some f \<Rightarrow> f i s
      | None \<Rightarrow> rbind (on_payload buf_eatstring s) (\<lambda>ses. rbind (from_payload buf_getbool ses) (\<lambda>(wantreply, ses).
         if wantreply \<noteq> 0 then send_msg_channel_failure ce i ses else Inr ses)))" using none by simp
  next
    case (Some f)
    have "safe (chans_ok ce) (f i s)"
      by (rule res_sat_mono [OF req_keeps [OF Some c(1,2) t(1)]]) (use c(5) keeps_final [OF c(3,1)] in auto)
    then show "safe (chans_ok ce) (case ct_reqhandler t of Some f \<Rightarrow> f i s
      | None \<Rightarrow> rbind (on_payload buf_eatstring s) (\<lambda>ses. rbind (from_payload buf_getbool ses) (\<lambda>(wantreply, ses).
         if wantreply \<noteq> 0 then send_msg_channel_failure ce i ses else Inr ses)))" using Some by simp
  qed
qed

end

section \<open>The event loop\<close>

lemma writechannel_keeps:
  assumes k: "keeps ce s0 i s" and c: "with_chan ce s0 i c s" "chan_ok ce i c" "the_cbuf r c = Some cb" and max: "unat (ce_recv_window ce) \<le> 10485760"
  shows "safe (\<lambda>(x, s). keeps ce s0 i s) (writechannel ce i fd r None s)"
proof -
  have ok: "bufs_ok ce c" "fds_ok c" "unat (ch_index c) = i" "ch_type c < length (ce_types ce)" "typed_ok ce c"
    and win: "unat (ch_recvwindow c) + unat (ch_recvdonelen c) + held c \<le> unat (ce_recv_window ce)"
    using c(2) by (simp_all add: chan_ok_def chan_core_def window_ok_def)
  have adj: "chan_ok ce i (adjusted ce c')" if "bufs_ok ce c'" "fds_ok c'" "ch_index c' = ch_index c" "ch_type c' = ch_type c" "typed_ok ce c' = typed_ok ce c"
      "unat (ch_recvwindow c') + unat (ch_recvdonelen c') + held c' \<le> unat (ce_recv_window ce)" for c'
    using that ok(3-5) max adjusted_window [of c' ce] by (simp add: chan_ok_def chan_core_def window_ok_def)
  have m: "([] :: byte list) = (case None of None \<Rightarrow> [] | Some m \<Rightarrow> m)" by simp
  have w: "unat (ch_recvwindow c) + unat (ch_recvdonelen c) + held c + length ([] :: byte list) \<le> unat (ce_recv_window ce)" using win by simp
  show ?thesis
  proof (rule res_sat_mono [OF writechannel_outcome [OF c(1) ok(1) c(3) m w max]], goal_cases)
    case (1 x)
    obtain good n t where xe: "x = ((good, n), t)" by (metis surj_pair)
    show ?case
    proof (cases good)
      case True
      then obtain c' where c': "with_chan ce s0 i (adjusted ce c') t" "wrote_out fd r c [] s c' (unat n) t" using 1 xe by auto
      note f = wrote_out_fields [OF c'(2) ok(1)]
      have "chan_ok ce i (adjusted ce c')" using f ok(2) win by (intro adj) simp_all
      then show ?thesis using c'(1) xe by (auto intro: keepsI)
    next
      case False
      then have "with_chan ce s0 i (adjusted ce (chan_fd_closed fd False c)) t" using 1 xe by auto
      moreover have "chan_ok ce i (adjusted ce (chan_fd_closed fd False c))"
        using ok win fds_ok_closed [OF ok(2)] by (intro adj) simp_all
      ultimately show ?thesis using xe by (auto intro: keepsI)
    qed
  qed
qed

lemma send_data_keeps:
  assumes c: "with_chan ce s0 i c s" "chan_ok ce i c" and fd: "0 \<le> (if ext then ch_errfd c else ch_readfd c)"
  shows "memsafe (keeps ce s0 i) (send_msg_channel_data ce i ext s)"
proof (cases "ch_sent_close c")
  case True
  then show ?thesis by (simp add: send_msg_channel_data_def with_chan_chan [OF c(1)] dropbear_assert_def defined_fault_def)
next
  case False
  from send_data_outcome [OF c(1) False refl fd] have "safe (keeps ce s0 i) (send_msg_channel_data ce i ext s)"
    by (rule res_sat_mono) (use c(2) chan_ok_fd_closed [OF c(2)] in \<open>auto intro: keepsI\<close>)
  then show ?thesis by (rule safe_memsafe)
qed

definition io_keeps :: "chan_env \<Rightarrow> sshsession \<Rightarrow> nat \<Rightarrow> (bool \<times> sshsession \<Rightarrow> (bool \<times> sshsession) res) \<Rightarrow> bool" where
  "io_keeps ce s0 i f \<longleftrightarrow> (\<forall>b s. keeps ce s0 i s \<longrightarrow> memsafe (\<lambda>(b, s). keeps ce s0 i s) (f (b, s)))"

lemma io_keepsI:
  assumes "\<And>b s c. with_chan ce s0 i c s \<Longrightarrow> chan_ok ce i c \<Longrightarrow> memsafe (\<lambda>(b, s). keeps ce s0 i s) (f c b s)"
  shows "io_keeps ce s0 i (\<lambda>(b, s). rbind (chan i s) (\<lambda>c. f c b s))"
  unfolding io_keeps_def prod.case by (intro allI impI, erule keeps_chanI, rule assms)

lemma io_step:
  "memsafe P (g s) \<Longrightarrow> (\<And>x. P x \<Longrightarrow> keeps ce s0 i (h x)) \<Longrightarrow> keeps ce s0 i s \<Longrightarrow>
    memsafe (\<lambda>(b, s). keeps ce s0 i s) (if Q then rbind (g s) (\<lambda>x. Inr (True, h x)) else Inr (b, s))"
  by (auto intro: res_sat_mono)

lemma io_read_keeps: "io_keeps ce s0 i (io_read ce readfds i)"
  unfolding io_read_def
proof (rule io_keepsI, rule res_sat_if, goal_cases)
  case (1 b s c)
  have "memsafe (keeps ce s0 i) (send_msg_channel_data ce i False s)" using send_data_keeps [OF 1(1,2), of False] 1(3) by simp
  then show ?case by (rule res_sat_bindI) simp
qed (auto intro: keepsI)

lemma io_readerr_keeps: "io_keeps ce s0 i (io_readerr ce readfds i)"
  unfolding io_readerr_def
proof (rule io_keepsI, rule res_sat_if, goal_cases)
  case (1 b s c)
  have "memsafe (keeps ce s0 i) (send_msg_channel_data ce i True s)" using send_data_keeps [OF 1(1,2), of True] 1(3) by simp
  then show ?case by (rule res_sat_bindI) simp
qed (auto intro: keepsI)

lemma io_write_keeps: "unat (ce_recv_window ce) \<le> 10485760 \<Longrightarrow> io_keeps ce s0 i (io_write ce writefds i)"
  unfolding io_write_def
proof (rule io_keepsI, rule res_sat_if, goal_cases)
  case (1 b s c)
  obtain wb where "the_cbuf Writebuf c = Some wb" using 1(3) by (auto simp: chan_ok_def chan_core_def bufs_ok_def)
  from safe_memsafe [OF writechannel_keeps [OF keepsI [OF 1(2,3)] 1(2,3) this 1(1)]] show ?case by (rule res_sat_bindI) auto
qed (auto intro: keepsI)

lemma io_writeerr_keeps: "unat (ce_recv_window ce) \<le> 10485760 \<Longrightarrow> io_keeps ce s0 i (io_writeerr ce writefds i)"
  unfolding io_writeerr_def
proof (rule io_keepsI, rule res_sat_if, goal_cases)
  case (1 b s c)
  obtain eb where "the_cbuf Extrabuf c = Some eb" using 1(4) by auto
  from safe_memsafe [OF writechannel_keeps [OF keepsI [OF 1(2,3)] 1(2,3) this 1(1)]] show ?case by (rule res_sat_bindI) auto
qed (auto intro: keepsI)

lemma io_keepsD: "io_keeps ce s0 i f \<Longrightarrow> keeps ce s0 i (snd st) \<Longrightarrow> memsafe (\<lambda>st. keeps ce s0 i (snd st)) (f st)"
  unfolding io_keeps_def by (metis (no_types, lifting) case_prod_beta prod.collapse res_sat_mono)

context channel_handlers
begin

lemma channel_round_ok:
  assumes ok: "chans_ok ce s" and i: "i < chansize s"
  shows "memsafe (chans_ok ce) (channel_round ce readfds writefds i s)"
proof -
  have sl: "slots_ok ce s" using ok by (simp add: chans_ok_def)
  have len: "unat i < length (channels s)" using sl i by (simp add: slots_ok_def word_less_nat_alt)
  show ?thesis
  proof (cases "channels s ! unat i")
    case None
    then show ?thesis using ok len by (simp add: channel_round_def slot_def entry_def)
  next
    case (Some c)
    have w: "with_chan ce s (unat i) c s" by (rule with_chan_start [OF ok]) (simp add: chan_eq Some len)
    have c: "chan_ok ce (unat i) c" using sl Some len by (simp add: slots_ok_def)
    have k0: "keeps ce s (unat i) (snd (False, s))" using keepsI [OF w c] by simp
    note io = io_keepsD [OF io_read_keeps] io_keepsD [OF io_readerr_keeps] io_keepsD [OF io_write_keeps [OF window_max]]
      io_keepsD [OF io_writeerr_keeps [OF window_max]]
    have sle: "slot i s = Inr (Some c)" using len Some by (simp add: slot_def entry_def)
    have fin: "memsafe (chans_ok ce) (case st of (chk, ses) \<Rightarrow> if chk \<or> channel_signal_pending ses then check_close ce (unat i) ses else Inr ses)"
      if "keeps ce s (unat i) (snd st)" for st
      using that safe_memsafe [OF check_close_step [OF _ sl slot_some [OF w]]] keeps_final [OF sl w] by (auto split: prod.split)
    show ?thesis unfolding channel_round_def sle rbind.simps option.case
      by (rule res_sat_bindI [OF io(1) [OF k0]], rule res_sat_bindI [OF io(2)], assumption,
          rule res_sat_bindI [OF io(3)], assumption, rule res_sat_bindI [OF io(4)], assumption, erule fin)
  qed
qed

lemma accept_socks_ok:
  assumes "chans_ok ce s" and "i < length (listeners s)" and "listeners s ! i = Some l"
  shows "safe (chans_ok ce) (accept_socks (ce_listen ce) readfds i j s)"
  using assms
proof (induction "DROPBEAR_MAX_SOCKS - j" arbitrary: j s rule: less_induct)
  case less
  have lo: "listener_ok (ce_listen ce) i l" using less.prems by (simp add: chans_ok_def base_ok_def listeners_ok_def)
  have at: "listener_at i s = Inr (Some l)" using less.prems by (simp add: listener_at_def)
  show ?case
  proof (cases "j < length (ls_socks l)")
    case True
    then have j: "j < DROPBEAR_MAX_SOCKS" using lo by (simp add: listener_ok_def)
    have ac: "entry (le_acceptors (ce_listen ce)) (ls_acceptor l) = Inr (le_acceptors (ce_listen ce) ! ls_acceptor l)"
      "le_acceptors (ce_listen ce) ! ls_acceptor l \<in> set (le_acceptors (ce_listen ce))" using lo by (simp_all add: listener_ok_def entry_def)
    have st: "safe (\<lambda>x. chans_ok ce x \<and> listeners x = listeners s \<and> listensize x = listensize s)
        (if ls_socks l ! j \<in> readfds then rbind (entry (le_acceptors (ce_listen ce)) (ls_acceptor l)) (\<lambda>acceptor. acceptor i (ls_socks l ! j) s) else Inr s)"
      using acceptors_keep [OF ac(2) less.prems(1)] less.prems(1) by (simp add: ac(1))
    have nx: "safe (chans_ok ce) (accept_socks (ce_listen ce) readfds i (Suc j) x)"
      if "chans_ok ce x \<and> listeners x = listeners s \<and> listensize x = listensize s" for x
      using that less.prems(2,3) j by (intro less.hyps) auto
    show ?thesis
      by (subst accept_socks.simps, unfold at rbind.simps option.case if_P [OF True], rule res_sat_if)
        (use j in simp, rule res_sat_bindI [OF st], erule nx)
  qed (subst accept_socks.simps, simp add: at less.prems(1))
qed

lemma handle_listeners_ok: "chans_ok ce s \<Longrightarrow> safe (chans_ok ce) (handle_listeners (ce_listen ce) readfds s)"
  unfolding handle_listeners_def
proof (erule res_sat_uloop)
  fix i x assume ok: "chans_ok ce x" and i: "i < listensize x"
  have len: "unat i < length (listeners x)" using ok i by (simp add: chans_ok_def base_ok_def listeners_ok_def word_less_nat_alt)
  show "safe (chans_ok ce) (rbind (listener_at (unat i) x) (\<lambda>l. case l of None \<Rightarrow> Inr x | Some _ \<Rightarrow> accept_socks (ce_listen ce) readfds (unat i) 0 x))"
    using accept_socks_ok [OF ok len] ok len by (auto simp: listener_at_def split: option.split)
qed

lemma channelio_ok: "chans_ok ce s \<Longrightarrow> memsafe (chans_ok ce) (channelio ce readfds writefds s)"
  unfolding channelio_def
  by (rule res_sat_bindI [OF res_sat_uloop [where P = "chans_ok ce"]], assumption, erule (1) channel_round_ok, rule safe_memsafe, erule handle_listeners_ok)

lemma connect_done_ok:
  assumes ok: "chans_ok ce s" and c: "chan i s = Inr c" and ns: "\<not> ch_sent_close c" "ch_errfd c = FD_CLOSED" and err: "length errstring \<le> 1000"
  shows "safe (chans_ok ce) (channel_connect_done ce result sock i errstring s)"
proof -
  have w: "with_chan ce s i c s" by (rule with_chan_start [OF ok c])
  have sl: "slots_ok ce s" using ok by (simp add: chans_ok_def)
  have co: "chan_ok ce i c" using sl c by (simp add: slots_ok_def chan_eq)
  let ?c = "c\<lparr>ch_readfd := sock, ch_writefd := sock, ch_bidir_fd := True, ch_conn_pending := False\<rparr>"
  have co': "chan_ok ce i ?c" using co ns by (simp add: chan_ok_def chan_core_def bufs_ok_def window_ok_def held_def fds_ok_def)
  have w': "with_chan ce s i ?c (set_chan i ?c s)" by (rule with_chan_set [OF w]) simp
  have good: "safe (chans_ok ce) (send_msg_channel_open_confirmation ce i x y (set_chan i ?c s))" for x y
    by (rule res_sat_mono [OF send_msg_steps(4) [OF w']]) (rule keeps_final [OF sl w keepsI [OF _ co']])
  have bad: "safe (chans_ok ce) (rbind (send_msg_channel_open_failure ce (ch_remotechan c) SSH_OPEN_CONNECT_FAILED errstring [] s) (remove_channel ce i))"
    unfolding send_msg_channel_open_failure_def
    by (rule res_sat_bindI [OF send_fields_step [OF w]], simp add: message_small, (use err in \<open>simp add: message_def\<close>),
        rule remove_keeps [OF keepsI [OF _ co] sl slot_some [OF w]])
  show ?thesis
    unfolding channel_connect_done_def mod_chan_def c rbind.simps with_chan_chan [OF w'] using good bad by simp
qed

end

section \<open>Properties\<close>

text \<open>An event of a session: a message about channels with its payload, or a round of the event loop.\<close>

datatype chan_event = Message byte buffer | Round "int set" "int set"

fun chan_handler :: "chan_env \<Rightarrow> byte \<Rightarrow> sshsession \<Rightarrow> sshsession res" where
  "chan_handler ce t ses = (if t = SSH_MSG_CHANNEL_OPEN then recv_msg_channel_open ce ses
     else if t = SSH_MSG_CHANNEL_OPEN_CONFIRMATION then recv_msg_channel_open_confirmation ce ses
     else if t = SSH_MSG_CHANNEL_OPEN_FAILURE then recv_msg_channel_open_failure ce ses
     else if t = SSH_MSG_CHANNEL_WINDOW_ADJUST then recv_msg_channel_window_adjust ses
     else if t = SSH_MSG_CHANNEL_DATA then recv_msg_channel_data ce ses
     else if t = SSH_MSG_CHANNEL_EOF then recv_msg_channel_eof ce ses
     else if t = SSH_MSG_CHANNEL_CLOSE then recv_msg_channel_close ce ses
     else if t = SSH_MSG_CHANNEL_REQUEST then recv_msg_channel_request ce ses else Inr ses)"

fun event_step :: "chan_env \<Rightarrow> chan_event \<Rightarrow> sshsession \<Rightarrow> sshsession res" where
  "event_step ce (Message t b) ses = chan_handler ce t (ses\<lparr>payload := Some b\<rparr>)"
| "event_step ce (Round readfds writefds) ses = channelio ce readfds writefds ses"

fun event_steps :: "chan_env \<Rightarrow> chan_event list \<Rightarrow> sshsession \<Rightarrow> sshsession res" where
  "event_steps ce [] ses = Inr ses"
| "event_steps ce (e # es) ses = rbind (event_step ce e ses) (event_steps ce es)"

fun event_ok :: "chan_event \<Rightarrow> bool" where
  "event_ok (Message t b) = buf_ok b"
| "event_ok (Round readfds writefds) = True"

context channel_handlers
begin

lemma event_step_ok: "chans_ok ce s \<Longrightarrow> event_ok e \<Longrightarrow> memsafe (chans_ok ce) (event_step ce e s)"
proof (cases e)
  case (Message t b)
  assume "chans_ok ce s" "event_ok e"
  then have ok: "chans_ok ce (s\<lparr>payload := Some b\<rparr>)" "has_payload (s\<lparr>payload := Some b\<rparr>)"
    using Message chans_ok_payload by (simp_all add: has_payload_def)
  show ?thesis unfolding Message event_step.simps chan_handler.simps
    using recv_open_ok [OF ok] recv_open_confirmation_ok [OF ok] recv_open_failure_ok [OF ok] recv_window_adjust_ok [OF ok]
      recv_data_ok [OF ok window_max] recv_eof_close_ok [OF ok] recv_request_ok [OF ok] ok(1)
    by (auto intro: safe_memsafe)
next
  case (Round readfds writefds)
  assume "chans_ok ce s"
  then show ?thesis using channelio_ok by (simp add: Round)
qed

lemma event_steps_ok: "chans_ok ce s \<Longrightarrow> list_all event_ok es \<Longrightarrow> memsafe (chans_ok ce) (event_steps ce es s)"
proof (induction es arbitrary: s)
  case (Cons e es)
  then show ?case by (auto intro!: res_sat_bindI [OF event_step_ok] simp del: res_sat_rbind)
qed simp

end

end
