(* ===== verification/PubkeyOptions.thy ===== *)
theory PubkeyOptions
  imports Session
begin

text \<open>
  The options of a public key, src/dropbear/src/svr-authpubkeyoptions.c: the questions the server asks about the key a
  session was authenticated with.
\<close>

section \<open>What a key allows\<close>

text \<open>A session that was not authenticated with a key, or with a key without options, is not restricted.\<close>

definition key_option :: "(PubKeyOptions \<Rightarrow> bool) \<Rightarrow> sshsession \<Rightarrow> bool" where
  "key_option p ses = (case au_pubkey_options (authstate ses) of None \<Rightarrow> False | Some po \<Rightarrow> p po)"

definition svr_pubkey_allows_agentfwd :: "sshsession \<Rightarrow> bool" where
  "svr_pubkey_allows_agentfwd ses \<longleftrightarrow> \<not> key_option po_no_agent_forwarding_flag ses"

definition svr_pubkey_allows_tcpfwd :: "sshsession \<Rightarrow> bool" where
  "svr_pubkey_allows_tcpfwd ses \<longleftrightarrow> \<not> key_option po_no_port_forwarding_flag ses"

definition svr_pubkey_has_forced_command :: "sshsession \<Rightarrow> bool" where
  "svr_pubkey_has_forced_command ses = key_option (\<lambda>po. po_forced_command po \<noteq> None) ses"

definition svr_pubkey_allows_x11fwd :: "sshsession \<Rightarrow> bool" where
  "svr_pubkey_allows_x11fwd ses \<longleftrightarrow> \<not> key_option po_no_x11_forwarding_flag ses"

definition svr_pubkey_allows_pty :: "sshsession \<Rightarrow> bool" where
  "svr_pubkey_allows_pty ses \<longleftrightarrow> \<not> key_option po_no_pty_flag ses"

abbreviation PUBKEY_OPTIONS_ANY_PORT :: u32 where "PUBKEY_OPTIONS_ANY_PORT \<equiv> 0xffffffff"

definition svr_pubkey_allows_local_tcpfwd :: "byte list \<Rightarrow> u32 \<Rightarrow> sshsession \<Rightarrow> bool" where
  "svr_pubkey_allows_local_tcpfwd host port ses = (case au_pubkey_options (authstate ses) of None \<Rightarrow> True
     | Some po \<Rightarrow> (case po_permit_open_destinations po of None \<Rightarrow> True
       | Some es \<Rightarrow> list_ex (\<lambda>e. pe_host e = Some host \<and> (pe_port e = PUBKEY_OPTIONS_ANY_PORT \<or> pe_port e = port)) es))"

definition svr_pubkey_allows_remote_tcpfwd :: "byte list \<Rightarrow> u32 \<Rightarrow> sshsession \<Rightarrow> bool" where
  "svr_pubkey_allows_remote_tcpfwd host port ses = (case au_pubkey_options (authstate ses) of None \<Rightarrow> True
     | Some po \<Rightarrow> (case po_permit_listens po of None \<Rightarrow> True | Some es \<Rightarrow> list_ex (\<lambda>e. pe_port e = port) es))"

text \<open>The command a key forces replaces the one the client asked for, which is kept.\<close>

definition svr_pubkey_set_forced_command :: "sshsession \<Rightarrow> ChanSess \<Rightarrow> ChanSess" where
  "svr_pubkey_set_forced_command ses cs = (case Option.bind (au_pubkey_options (authstate ses)) po_forced_command of
       None \<Rightarrow> cs
     | Some cmd \<Rightarrow> cs\<lparr>cs_original_command := Some (case cs_cmd cs of None \<Rightarrow> [] | Some c \<Rightarrow> c), cs_cmd := Some cmd\<rparr>)"

end
