(* ===== verification/Ps4Fs.thy ===== *)
theory Ps4Fs
  imports Ps4State
begin

text \<open>
  What the in-process shell and the copy service use of the operating system: a file system with the calls
  \<^verbatim>\<open>open\<close>, \<^verbatim>\<open>read\<close>, \<^verbatim>\<open>write\<close>, \<^verbatim>\<open>stat\<close>, \<^verbatim>\<open>mkdir\<close>, \<^verbatim>\<open>rmdir\<close>, \<^verbatim>\<open>unlink\<close>, \<^verbatim>\<open>rename\<close>, \<^verbatim>\<open>chmod\<close> and \<^verbatim>\<open>readdir\<close>, the
  error number, and C's conversions of numbers from and to text. Every call may be made to fail, and every read
  and write to be short: the answers are part of the state. Absolute paths name inodes, so that two names may
  stand for one file; nobody else changes the files while a command runs.
\<close>

section \<open>Calls\<close>

abbreviation EPERM :: nat where "EPERM \<equiv> 1"
abbreviation ENOENT :: nat where "ENOENT \<equiv> 2"
abbreviation EINTR :: nat where "EINTR \<equiv> 4"
abbreviation E2BIG :: nat where "E2BIG \<equiv> 7"
abbreviation EEXIST :: nat where "EEXIST \<equiv> 17"
abbreviation ENOTDIR :: nat where "ENOTDIR \<equiv> 20"
abbreviation EISDIR :: nat where "EISDIR \<equiv> 21"
abbreviation EINVAL :: nat where "EINVAL \<equiv> 22"
abbreviation EFBIG :: nat where "EFBIG \<equiv> 27"
abbreviation ENOSPC :: nat where "ENOSPC \<equiv> 28"
abbreviation ERANGE :: nat where "ERANGE \<equiv> 34"
abbreviation ENAMETOOLONG :: nat where "ENAMETOOLONG \<equiv> 63"
abbreviation ENOTEMPTY :: nat where "ENOTEMPTY \<equiv> 66"
abbreviation EOVERFLOW :: nat where "EOVERFLOW \<equiv> 84"

definition seterr :: "nat \<Rightarrow> fs \<Rightarrow> fs" where
  "seterr e f = f\<lparr>fs_errno := e\<rparr>"

definition fail :: "nat \<Rightarrow> fs \<Rightarrow> 'a option \<times> fs" where
  "fail e f = (None, seterr e f)"

text \<open>A call \<open>k\<close> that may be made to fail before it does anything.\<close>

definition call :: "(fs \<Rightarrow> 'a option \<times> fs) \<Rightarrow> fs \<Rightarrow> 'a option \<times> fs" where
  "call k f = (case fs_faults f of [] \<Rightarrow> k f | e # es \<Rightarrow> let f = f\<lparr>fs_faults := es\<rparr> in if e = 0 then k f else fail e f)"

text \<open>How many of \<open>n\<close> bytes the next read or write moves.\<close>

definition io_size :: "nat \<Rightarrow> fs \<Rightarrow> nat \<times> fs" where
  "io_size n f = (case fs_sizes f of [] \<Rightarrow> (n, f) | k # ks \<Rightarrow> (min n (max 1 k), f\<lparr>fs_sizes := ks\<rparr>))"

definition inode_at :: "path \<Rightarrow> fs \<Rightarrow> nat option" where
  "inode_at p f = (case map_of (fs_names f) p of None \<Rightarrow> None | Some n \<Rightarrow> if n < length (fs_inodes f) then Some n else None)"

definition ino :: "nat \<Rightarrow> fs \<Rightarrow> inode" where
  "ino n f = fs_inodes f ! n"

definition put_file :: "nat \<Rightarrow> inode \<Rightarrow> fs \<Rightarrow> fs" where
  "put_file n i f = f\<lparr>fs_inodes := (fs_inodes f)[n := i]\<rparr>"

fun bytes_of :: "node \<Rightarrow> byte list" where
  "bytes_of (Reg bs) = bs"
| "bytes_of Directory = []"
| "bytes_of Other = []"

text \<open>What a path holds, when it is a regular file.\<close>

definition content :: "path \<Rightarrow> fs \<Rightarrow> byte list option" where
  "content p f = (case inode_at p f of None \<Rightarrow> None
     | Some n \<Rightarrow> (case in_node (ino n f) of Reg bs \<Rightarrow> Some bs | Directory \<Rightarrow> None | Other \<Rightarrow> None))"

section \<open>Paths\<close>

abbreviation slash :: byte where "slash \<equiv> 0x2f"
abbreviation dot :: byte where "dot \<equiv> 0x2e"

text \<open>The directory a path is in, and its last component.\<close>

definition parent :: "path \<Rightarrow> path" where
  "parent p = (let q = butlast (rev (dropWhile (\<lambda>b. b \<noteq> slash) (rev p))) in if q = [] then [slash] else q)"

definition basename :: "path \<Rightarrow> byte list" where
  "basename p = rev (takeWhile (\<lambda>b. b \<noteq> slash) (rev p))"

definition is_dir :: "path \<Rightarrow> fs \<Rightarrow> bool" where
  "is_dir p f = (case inode_at p f of None \<Rightarrow> False | Some n \<Rightarrow> in_node (ino n f) = Directory)"

definition children :: "path \<Rightarrow> fs \<Rightarrow> byte list list" where
  "children p f = map (basename \<circ> fst) (filter (\<lambda>(q, n). q \<noteq> [slash] \<and> parent q = p) (fs_names f))"

section \<open>Calls\<close>

definition sys_stat :: "path \<Rightarrow> fs \<Rightarrow> inode option \<times> fs" where
  "sys_stat p = call (\<lambda>f. case inode_at p f of None \<Rightarrow> fail ENOENT f | Some n \<Rightarrow> (Some (ino n f), f))"

definition sys_fstat :: "nat \<Rightarrow> fs \<Rightarrow> inode option \<times> fs" where
  "sys_fstat n = call (\<lambda>f. (Some (ino n f), f))"

definition sys_open_read :: "path \<Rightarrow> fs \<Rightarrow> nat option \<times> fs" where
  "sys_open_read p = call (\<lambda>f. case inode_at p f of None \<Rightarrow> fail ENOENT f | Some n \<Rightarrow> (Some n, f))"

definition sys_read :: "nat \<Rightarrow> nat \<Rightarrow> nat \<Rightarrow> fs \<Rightarrow> byte list option \<times> fs" where
  "sys_read n off len = call (\<lambda>f. if in_node (ino n f) = Directory then fail EISDIR f
     else case io_size len f of (k, f) \<Rightarrow> (Some (take k (drop off (bytes_of (in_node (ino n f))))), f))"

definition create :: "path \<Rightarrow> nat \<Rightarrow> node \<Rightarrow> fs \<Rightarrow> nat option \<times> fs" where
  "create p mode nd f = (if \<not> is_dir (parent p) f then fail ENOENT f
     else (Some (length (fs_inodes f)), f\<lparr>fs_names := fs_names f @ [(p, length (fs_inodes f))],
       fs_inodes := fs_inodes f @ [\<lparr>in_node = nd, in_mode = mode, in_mtime = fs_now f\<rparr>]\<rparr>))"

text \<open>\<^verbatim>\<open>O_WRONLY | O_CREAT\<close>, with \<^verbatim>\<open>O_TRUNC\<close> or \<^verbatim>\<open>O_EXCL\<close>.\<close>

definition sys_open_write :: "path \<Rightarrow> bool \<Rightarrow> bool \<Rightarrow> nat \<Rightarrow> fs \<Rightarrow> nat option \<times> fs" where
  "sys_open_write p trunc excl mode = call (\<lambda>f. case inode_at p f of
       None \<Rightarrow> create p mode (Reg []) f
     | Some n \<Rightarrow> if excl then fail EEXIST f
         else if in_node (ino n f) = Directory then fail EISDIR f
         else (Some n, if trunc \<and> in_node (ino n f) \<noteq> Other then put_file n ((ino n f)\<lparr>in_node := Reg [], in_mtime := fs_now f\<rparr>) f else f))"

definition sys_write :: "nat \<Rightarrow> nat \<Rightarrow> byte list \<Rightarrow> fs \<Rightarrow> nat option \<times> fs" where
  "sys_write n off bs = call (\<lambda>f. case io_size (length bs) f of (k, f) \<Rightarrow>
     (Some k, case in_node (ino n f) of
        Reg old \<Rightarrow> put_file n ((ino n f)\<lparr>in_node := Reg (take off old @ take k bs @ drop (off + k) old), in_mtime := fs_now f\<rparr>) f
      | Directory \<Rightarrow> f | Other \<Rightarrow> f))"

definition sys_close :: "fs \<Rightarrow> unit option \<times> fs" where
  "sys_close = call (\<lambda>f. (Some (), f))"

definition sys_mkdir :: "path \<Rightarrow> nat \<Rightarrow> fs \<Rightarrow> unit option \<times> fs" where
  "sys_mkdir p mode = call (\<lambda>f. if inode_at p f \<noteq> None then fail EEXIST f
     else case create p mode Directory f of (r, f) \<Rightarrow> (map_option (\<lambda>_. ()) r, f))"

definition drop_name :: "path \<Rightarrow> fs \<Rightarrow> fs" where
  "drop_name p f = f\<lparr>fs_names := filter (\<lambda>(q, n). q \<noteq> p) (fs_names f)\<rparr>"

definition sys_rmdir :: "path \<Rightarrow> fs \<Rightarrow> unit option \<times> fs" where
  "sys_rmdir p = call (\<lambda>f. if inode_at p f = None then fail ENOENT f
     else if \<not> is_dir p f then fail ENOTDIR f
     else if children p f \<noteq> [] \<or> p = [slash] then fail ENOTEMPTY f
     else (Some (), drop_name p f))"

definition sys_unlink :: "path \<Rightarrow> fs \<Rightarrow> unit option \<times> fs" where
  "sys_unlink p = call (\<lambda>f. if inode_at p f = None then fail ENOENT f
     else if is_dir p f then fail EPERM f
     else (Some (), drop_name p f))"

definition below :: "path \<Rightarrow> path \<Rightarrow> bool" where
  "below p q \<longleftrightarrow> take (Suc (length p)) q = p @ [slash]"

definition move_names :: "path \<Rightarrow> path \<Rightarrow> fs \<Rightarrow> fs" where
  "move_names p q f = f\<lparr>fs_names := map (\<lambda>(x, n). (if x = p \<or> (is_dir p f \<and> below p x) then q @ drop (length p) x else x, n))
     (filter (\<lambda>(x, n). x \<noteq> q) (fs_names f))\<rparr>"

definition sys_rename :: "path \<Rightarrow> path \<Rightarrow> fs \<Rightarrow> unit option \<times> fs" where
  "sys_rename p q = call (\<lambda>f. if inode_at p f = None \<or> \<not> is_dir (parent q) f then fail ENOENT f
     else if inode_at q f = inode_at p f then (Some (), f)
     else if is_dir p f \<and> below p q then fail EINVAL f
     else if inode_at q f \<noteq> None \<and> is_dir p f \<and> \<not> is_dir q f then fail ENOTDIR f
     else if is_dir q f \<and> \<not> is_dir p f then fail EISDIR f
     else if is_dir q f \<and> children q f \<noteq> [] then fail ENOTEMPTY f
     else (Some (), move_names p q f))"

definition sys_chmod :: "path \<Rightarrow> nat \<Rightarrow> fs \<Rightarrow> unit option \<times> fs" where
  "sys_chmod p mode = call (\<lambda>f. case inode_at p f of None \<Rightarrow> fail ENOENT f
     | Some n \<Rightarrow> (Some (), put_file n ((ino n f)\<lparr>in_mode := mode\<rparr>) f))"

text \<open>\<^verbatim>\<open>opendir\<close> with the names that \<^verbatim>\<open>readdir\<close> then delivers.\<close>

definition sys_opendir :: "path \<Rightarrow> fs \<Rightarrow> byte list list option \<times> fs" where
  "sys_opendir p = call (\<lambda>f. if inode_at p f = None then fail ENOENT f
     else if \<not> is_dir p f then fail ENOTDIR f
     else (Some ([dot] # [dot, dot] # children p f), f))"

section \<open>Numbers as text\<close>

text \<open>\<open>digits b n\<close> are the digits of \<open>n\<close> to the base \<open>b\<close>, as \<^verbatim>\<open>%u\<close>, \<^verbatim>\<open>%o\<close> and \<^verbatim>\<open>%x\<close> print them; \<open>pad\<close> fills on the left.\<close>

definition digit :: "nat \<Rightarrow> byte" where
  "digit d = (if d < 10 then 0x30 + of_nat d else 0x61 + of_nat (d - 10))"

fun digits :: "nat \<Rightarrow> nat \<Rightarrow> byte list" where
  "digits b n = (if b < 2 \<or> n < b then [digit n] else digits b (n div b) @ [digit (n mod b)])"

declare digits.simps [simp del]

definition pad :: "byte \<Rightarrow> nat \<Rightarrow> byte list \<Rightarrow> byte list" where
  "pad c w bs = replicate (w - length bs) c @ bs"

definition print_int :: "int \<Rightarrow> byte list" where
  "print_int i = (if i < 0 then 0x2d # digits 10 (nat (- i)) else digits 10 (nat i))"

text \<open>
  The value of a digit, and the reading of an unsigned number by \<^verbatim>\<open>strtoul\<close> and its kin: white space, a sign, digits.
  The value is the number the digits denote, the sign, and what was not read; without a digit nothing is read.
\<close>

definition digit_val :: "byte \<Rightarrow> nat option" where
  "digit_val c = (if 0x30 \<le> c \<and> c \<le> 0x39 then Some (unat (c - 0x30))
     else if 0x61 \<le> c \<and> c \<le> 0x7a then Some (unat (c - 0x61) + 10)
     else if 0x41 \<le> c \<and> c \<le> 0x5a then Some (unat (c - 0x41) + 10) else None)"

definition is_digit :: "nat \<Rightarrow> byte \<Rightarrow> bool" where
  "is_digit b c = (case digit_val c of None \<Rightarrow> False | Some d \<Rightarrow> d < b)"

definition is_space :: "byte \<Rightarrow> bool" where
  "is_space c \<longleftrightarrow> c = 0x20 \<or> 0x09 \<le> c \<and> c \<le> 0x0d"

definition digits_val :: "nat \<Rightarrow> byte list \<Rightarrow> nat" where
  "digits_val b ds = foldl (\<lambda>v c. v * b + (case digit_val c of None \<Rightarrow> 0 | Some d \<Rightarrow> d)) 0 ds"

definition scan_number :: "nat \<Rightarrow> byte list \<Rightarrow> (bool \<times> nat \<times> byte list) option" where
  "scan_number b s = (let t = dropWhile is_space s;
      neg = (t \<noteq> [] \<and> hd t = 0x2d);
      u = (if t \<noteq> [] \<and> (hd t = 0x2d \<or> hd t = 0x2b) then tl t else t);
      ds = takeWhile (is_digit b) u in
     if ds = [] then None else Some (neg, digits_val b ds, dropWhile (is_digit b) u))"

text \<open>
  \<^verbatim>\<open>strtoul\<close> and \<^verbatim>\<open>strtoull\<close> at 64 bits: the value, the rest, and whether \<^verbatim>\<open>ERANGE\<close> was set. Where nothing is read the
  rest is the whole text.
\<close>

definition strtoul :: "nat \<Rightarrow> byte list \<Rightarrow> nat \<times> byte list \<times> bool" where
  "strtoul b s = (case scan_number b s of None \<Rightarrow> (0, s, False)
     | Some (neg, v, rest) \<Rightarrow> if v \<ge> 2 ^ 64 then (2 ^ 64 - 1, rest, True)
         else (if neg then (2 ^ 64 - v) mod 2 ^ 64 else v, rest, False))"

definition strtol :: "nat \<Rightarrow> byte list \<Rightarrow> int \<times> byte list" where
  "strtol b s = (case scan_number b s of None \<Rightarrow> (0, s)
     | Some (neg, v, rest) \<Rightarrow> if neg then (- int (min v (2 ^ 63)), rest) else (int (min v (2 ^ 63 - 1)), rest))"

section \<open>What the calls keep\<close>

text \<open>Reading never changes what is read, and moves forward.\<close>

lemma call_cases:
  "(\<exists>e. call k f = fail e (f\<lparr>fs_faults := tl (fs_faults f)\<rparr>) \<and> fs_faults f \<noteq> []) \<or> call k f = k (f\<lparr>fs_faults := tl (fs_faults f)\<rparr>)"
  by (cases f) (auto simp: call_def Let_def split: list.splits)

lemma io_size_le: "io_size n f = (k, g) \<Longrightarrow> k \<le> n \<and> (0 < n \<longrightarrow> 0 < k) \<and> fs_inodes g = fs_inodes f \<and> fs_names g = fs_names f
    \<and> fs_faults g = fs_faults f \<and> fs_errno g = fs_errno f \<and> fs_strerror g = fs_strerror f"
  by (auto simp: io_size_def split: list.splits)

lemma sys_read_same:
  assumes "sys_read n off len f = (r, g)"
  shows "fs_inodes g = fs_inodes f" and "fs_names g = fs_names f" and "fs_faults g = tl (fs_faults f)" and "fs_strerror g = fs_strerror f"
    and "r = None \<Longrightarrow> in_node (ino n f) \<noteq> Directory \<Longrightarrow> fs_faults f \<noteq> []"
    and "r = Some bs \<Longrightarrow> \<exists>k \<le> len. bs = take k (drop off (bytes_of (in_node (ino n f)))) \<and> (0 < len \<longrightarrow> 0 < k)"
proof -
  have c: "call h f = h (f\<lparr>fs_faults := tl (fs_faults f)\<rparr>) \<or> (\<exists>e. call h f = fail e (f\<lparr>fs_faults := tl (fs_faults f)\<rparr>) \<and> fs_faults f \<noteq> [])"
    for h :: "fs \<Rightarrow> byte list option \<times> fs" using call_cases [of h f] by blast
  show "fs_inodes g = fs_inodes f" and "fs_names g = fs_names f" and "fs_faults g = tl (fs_faults f)" and "fs_strerror g = fs_strerror f"
    and "r = None \<Longrightarrow> in_node (ino n f) \<noteq> Directory \<Longrightarrow> fs_faults f \<noteq> []"
    and "r = Some bs \<Longrightarrow> \<exists>k \<le> len. bs = take k (drop off (bytes_of (in_node (ino n f)))) \<and> (0 < len \<longrightarrow> 0 < k)"
    using assms c [of "\<lambda>f. if in_node (ino n f) = Directory then fail EISDIR f
       else case io_size len f of (k, f) \<Rightarrow> (Some (take k (drop off (bytes_of (in_node (ino n f))))), f)"]
    by (auto simp: sys_read_def fail_def seterr_def ino_def split: prod.splits if_splits dest!: io_size_le)
qed

lemma sys_read_progress:
  assumes "sys_read n off len f = (Some bs, g)" and "bs \<noteq> []"
  shows "length (bytes_of (in_node (ino n g))) - (off + length bs) < length (bytes_of (in_node (ino n f))) - off"
proof -
  have e: "ino n g = ino n f" using sys_read_same(1) [OF assms(1)] by (simp add: ino_def)
  obtain k where "bs = take k (drop off (bytes_of (in_node (ino n f))))" using sys_read_same(6) [OF assms(1) refl] by blast
  then have "0 < length bs" "off + length bs \<le> length (bytes_of (in_node (ino n f)))" using assms(2) by auto
  then show ?thesis unfolding e by linarith
qed

text \<open>A read that was interrupted used up one of the answers.\<close>

lemma sys_read_again:
  assumes "sys_read n off len f = (None, g)" and "fs_errno g = EINTR"
  shows "ino n g = ino n f" and "length (fs_faults g) < length (fs_faults f)"
proof -
  show "ino n g = ino n f" using sys_read_same(1) [OF assms(1)] by (simp add: ino_def)
  have "fs_faults f \<noteq> []"
    using assms call_cases [of "\<lambda>f. if in_node (ino n f) = Directory then fail EISDIR f
       else case io_size len f of (k, f) \<Rightarrow> (Some (take k (drop off (bytes_of (in_node (ino n f))))), f)" f]
    by (auto simp: sys_read_def fail_def seterr_def split: prod.splits if_splits)
  then show "length (fs_faults g) < length (fs_faults f)" using sys_read_same(3) [OF assms(1)] by simp
qed

section \<open>Printing and reading numbers\<close>

lemma digit_val_digit: "d < 16 \<Longrightarrow> digit_val (digit d) = Some d"
proof -
  assume "d < 16"
  then have "d \<in> set [0 ..< 16]" by simp
  moreover have "\<forall>d \<in> set [0 ..< 16]. digit_val (digit d) = Some d" by code_simp
  ultimately show ?thesis by blast
qed

lemma digits_val_snoc: "digits_val b (ds @ [c]) = digits_val b ds * b + (case digit_val c of None \<Rightarrow> 0 | Some d \<Rightarrow> d)"
  by (simp add: digits_val_def)

lemma digits_val_digits:
  assumes "2 \<le> b" and "b \<le> 16"
  shows "digits_val b (digits b n) = n \<and> (\<forall>c \<in> set (digits b n). is_digit b c) \<and> digits b n \<noteq> []"
proof (induction n rule: less_induct)
  case (less n)
  show ?case
  proof (cases "n < b")
    case True
    then have "digits b n = [digit n]" "digit_val (digit n) = Some n" using assms digit_val_digit [of n] by (subst digits.simps, simp_all)
    then show ?thesis using True by (simp add: digits_val_def is_digit_def)
  next
    case False
    have d: "digits b n = digits b (n div b) @ [digit (n mod b)]" using False assms by (subst digits.simps) simp
    have v: "digit_val (digit (n mod b)) = Some (n mod b)" using digit_val_digit [of "n mod b"] assms mod_less_divisor [of b n] by linarith
    have "n div b < n" using False assms by (simp add: div_less_dividend)
    from less.IH [OF this] show ?thesis using v assms by (simp add: d digits_val_snoc is_digit_def)
  qed
qed

lemma digits_val_pad: "digits_val b (pad 0x30 w ds) = digits_val b ds"
proof -
  have z: "digit_val (0x30 :: byte) = Some 0" by code_simp
  have "foldl (\<lambda>v c. v * b + (case digit_val c of None \<Rightarrow> 0 | Some d \<Rightarrow> d)) 0 (replicate k 0x30) = 0" for k
    by (induction k) (auto simp: z)
  then show ?thesis by (simp add: digits_val_def pad_def)
qed

lemma scan_printed:
  assumes "2 \<le> b" and "b \<le> 16" and "\<not> is_digit b c"
  shows "scan_number b (pad 0x30 w (digits b n) @ c # rest) = Some (False, n, c # rest)"
proof -
  let ?t = "pad 0x30 w (digits b n)"
  note d = digits_val_digits [OF assms(1,2), of n]
  have z: "is_digit b (0x30 :: byte)" using assms(1) by (simp add: is_digit_def digit_val_def)
  have dg: "\<forall>x \<in> set ?t. is_digit b x" using d z by (auto simp: pad_def)
  have ne: "?t \<noteq> []" using d by (simp add: pad_def)
  have ns: "\<not> is_space x \<and> x \<noteq> 0x2d \<and> x \<noteq> 0x2b" if "is_digit b x" for x
    using that by (auto simp: is_digit_def digit_val_def is_space_def word_le_nat_alt split: if_splits)
  have h: "hd (?t @ c # rest) = hd ?t" "is_digit b (hd ?t)" using ne dg by auto
  have dw: "dropWhile is_space (?t @ c # rest) = ?t @ c # rest" using ne ns [OF h(2)] by (cases ?t) auto
  have tw: "takeWhile (is_digit b) (?t @ c # rest) = ?t" "dropWhile (is_digit b) (?t @ c # rest) = c # rest"
    using dg assms(3) by (simp_all add: takeWhile_append2 dropWhile_append2)
  show ?thesis unfolding scan_number_def dw Let_def using ns [OF h(2)] h(1) tw ne d digits_val_pad [of b w "digits b n"] by simp
qed

lemma strtoul_printed:
  assumes "2 \<le> b" and "b \<le> 16" and "\<not> is_digit b c" and "n < 2 ^ 64"
  shows "strtoul b (pad 0x30 w (digits b n) @ c # rest) = (n, c # rest, False)"
  using scan_printed [OF assms(1-3)] assms(4) by (simp add: strtoul_def)

end
