(* ===== verification/Agentfwd.thy ===== *)
theory Agentfwd
  imports Channel PubkeyOptions Ps4Fs
begin

text \<open>
  Forwarding of an authentication agent, src/dropbear/src/svr-agentfwd.c: a listening socket in a directory of its own for a
  session channel, the channels that connections to it open, and the removal of both. The build drops the privileges
  of the server after authentication, so that the effective user is not changed here.
\<close>

section \<open>Calls\<close>

text \<open>The next answer of the operating system, and a 32-bit number made of random bytes.\<close>

definition sys_answer :: "sshsession \<Rightarrow> int \<times> sshsession" where
  "sys_answer ses = (case fw_answers (fds ses) of [] \<Rightarrow> (- 1, ses)
     | a # as \<Rightarrow> (a, ses\<lparr>fds := (fds ses)\<lparr>fw_answers := as\<rparr>\<rparr>))"

definition random_u32 :: "primitives \<Rightarrow> sshsession \<Rightarrow> u32 \<times> sshsession" where
  "random_u32 pr ses = (case genrandom pr 4 ses of (bs, ses) \<Rightarrow> (word_rcat (rev bs), ses))"

definition on_files :: "(fs \<Rightarrow> 'a \<times> fs) \<Rightarrow> sshsession \<Rightarrow> 'a \<times> sshsession" where
  "on_files k ses = (case k (files ses) of (a, f) \<Rightarrow> (a, ses\<lparr>files := f\<rparr>))"

text \<open>\<^verbatim>\<open>bind\<close> of a local socket makes its name.\<close>

abbreviation EADDRINUSE :: nat where "EADDRINUSE \<equiv> 48"

definition sys_bind :: "path \<Rightarrow> fs \<Rightarrow> nat option \<times> fs" where
  "sys_bind p = call (\<lambda>f. if inode_at p f \<noteq> None then fail EADDRINUSE f else create p 0 Other f)"

text \<open>\<^verbatim>\<open>channel->typedata\<close> of a session channel; a null pointer that is followed is a fault.\<close>

definition chansess :: "nat \<Rightarrow> sshsession \<Rightarrow> ChanSess res" where
  "chansess i ses = rbind (chan i ses) (\<lambda>c. case ch_typedata c of None \<Rightarrow> Inl Mem_fault | Some cs \<Rightarrow> Inr cs)"

definition mod_sess :: "nat \<Rightarrow> (ChanSess \<Rightarrow> ChanSess) \<Rightarrow> sshsession \<Rightarrow> sshsession res" where
  "mod_sess i f ses = rbind (chansess i ses) (\<lambda>cs. mod_chan i (\<lambda>c. c\<lparr>ch_typedata := Some (f cs)\<rparr>) ses)"

section \<open>The operations\<close>

definition AGENTDIRPREFIX :: "byte list" where
  "AGENTDIRPREFIX = str ''/tmp/dropbear-''"

definition hex8 :: "u32 \<Rightarrow> byte list" where
  "hex8 w = pad 0x30 8 (digits 16 (unat w))"

text \<open>The loop of \<^verbatim>\<open>bindagent\<close>, with the rounds that are left. The arrays the names are printed into are larger than the names.\<close>

fun agent_dir :: "primitives \<Rightarrow> nat \<Rightarrow> sshsession \<Rightarrow> path option \<times> sshsession" where
  "agent_dir pr 0 ses = (None, ses)"
| "agent_dir pr (Suc k) ses = (case random_u32 pr ses of (prefix, ses) \<Rightarrow>
     let path = AGENTDIRPREFIX @ hex8 prefix in
     case on_files (sys_mkdir path 448) ses of
       (Some _, ses) \<Rightarrow> (Some path, ses)
     | (None, ses) \<Rightarrow> if fs_errno (files ses) \<noteq> EEXIST then (None, ses) else agent_dir pr k ses)"

definition bindagent :: "primitives \<Rightarrow> int \<Rightarrow> nat \<Rightarrow> sshsession \<Rightarrow> (bool \<times> sshsession) res" where
  "bindagent pr fd i ses = (case agent_dir pr 20 ses of
       (None, ses) \<Rightarrow> Inr (False, ses)
     | (Some path, ses) \<Rightarrow> (case random_u32 pr ses of (prefix, ses) \<Rightarrow>
         let sockfile = str ''auth-'' @ hex8 prefix @ str ''-'' @ print_int fd in
         case on_files (sys_bind (path @ [slash] @ sockfile)) ses of
           (None, ses) \<Rightarrow> Inr (False, ses)
         | (Some _, ses) \<Rightarrow> rbind (mod_sess i (\<lambda>cs. cs\<lparr>cs_agentdir := Some path, cs_agentfile := Some sockfile\<rparr>) ses) (\<lambda>ses. Inr (True, ses))))"

definition svr_agentcleanup :: "listen_env \<Rightarrow> nat \<Rightarrow> sshsession \<Rightarrow> sshsession res" where
  "svr_agentcleanup le i ses = rbind (chansess i ses) (\<lambda>cs.
     rbind (case cs_agentlistener cs of None \<Rightarrow> Inr ses
       | Some j \<Rightarrow> rbind (remove_listener le j ses) (mod_sess i (\<lambda>cs. cs\<lparr>cs_agentlistener := None\<rparr>))) (\<lambda>ses.
     rbind (chansess i ses) (\<lambda>cs. case (cs_agentfile cs, cs_agentdir cs) of
       (Some file', Some dir) \<Rightarrow>
         (case on_files (sys_unlink (dir @ [slash] @ file')) ses of (_, ses) \<Rightarrow>
          case on_files (sys_rmdir dir) ses of (_, ses) \<Rightarrow>
          mod_sess i (\<lambda>cs. cs\<lparr>cs_agentfile := None, cs_agentdir := None\<rparr>) ses)
     | _ \<Rightarrow> Inr ses)))"

abbreviation LISTENER_TYPE_DEFAULT :: int where "LISTENER_TYPE_DEFAULT \<equiv> 0"
abbreviation AGENT_ACCEPTOR :: nat where "AGENT_ACCEPTOR \<equiv> 0"

text \<open>\<^verbatim>\<open>DROPBEAR_SUCCESS\<close> is \<open>True\<close>. The label \<^verbatim>\<open>fail\<close> is the function \<open>bad\<close>.\<close>

definition svr_agentreq :: "primitives \<Rightarrow> listen_env \<Rightarrow> nat \<Rightarrow> sshsession \<Rightarrow> (bool \<times> sshsession) res" where
  "svr_agentreq pr le i ses = rbind (chansess i ses) (\<lambda>cs.
     if \<not> svr_pubkey_allows_agentfwd ses \<or> cs_agentlistener cs \<noteq> None then Inr (False, ses)
     else case sys_answer ses of (fd, ses) \<Rightarrow>
       let bad = (\<lambda>ses. rbind (m_close fd ses) (\<lambda>ses. rbind (svr_agentcleanup le i ses) (\<lambda>ses. Inr (False, ses)))) in
       if fd < 0 then bad ses
       else rbind (bindagent pr fd i ses) (\<lambda>(ok, ses).
         if \<not> ok then bad ses
         else case sys_answer ses of (r, ses) \<Rightarrow>
           if r < 0 then bad ses
           else rbind (new_listener [fd] LISTENER_TYPE_DEFAULT (Agent i) AGENT_ACCEPTOR None ses) (\<lambda>(l, ses).
             rbind (mod_sess i (\<lambda>cs. cs\<lparr>cs_agentlistener := l\<rparr>) ses) (\<lambda>ses.
             if l = None then bad ses else Inr (True, ses)))))"

abbreviation CHAN_SVR_AGENT :: nat where "CHAN_SVR_AGENT \<equiv> 1"

definition chan_svr_agent :: chan_type where
  "chan_svr_agent = \<lparr>ct_name = str ''auth-agent@openssh.com'', ct_inithandler = None, ct_check_close = None, ct_reqhandler = None,
     ct_closehandler = None, ct_cleanup = None\<rparr>"

definition send_msg_channel_open_agent :: "chan_env \<Rightarrow> int \<Rightarrow> sshsession \<Rightarrow> (bool \<times> sshsession) res" where
  "send_msg_channel_open_agent ce fd ses = rbind (send_msg_channel_open_init ce fd CHAN_SVR_AGENT ses) (\<lambda>(r, ses).
     case r of None \<Rightarrow> Inr (False, ses)
     | Some _ \<Rightarrow> rbind (encrypt_packet (ce_pr ce) ses) (\<lambda>ses. Inr (True, ses)))"

definition agentaccept :: "chan_env \<Rightarrow> nat \<Rightarrow> int \<Rightarrow> sshsession \<Rightarrow> sshsession res" where
  "agentaccept ce l sock ses = (case sys_answer ses of (fd, ses) \<Rightarrow>
     if fd < 0 then Inr ses
     else rbind (send_msg_channel_open_agent ce fd ses) (\<lambda>(ok, ses). Inr (if ok then ses else close_fd fd ses)))"

section \<open>The contracts\<close>

text \<open>A channel with its session data.\<close>

definition sess_at :: "chan_env \<Rightarrow> sshsession \<Rightarrow> nat \<Rightarrow> Channel \<Rightarrow> ChanSess \<Rightarrow> sshsession \<Rightarrow> bool" where
  "sess_at ce ses0 i c cs ses \<longleftrightarrow> with_chan ce ses0 i c ses \<and> ch_typedata c = Some cs"

lemma sess_at_chansess: "sess_at ce ses0 i c cs ses \<Longrightarrow> chansess i ses = Inr cs"
  by (auto simp: sess_at_def chansess_def dest: with_chan_chan)

lemma mod_sess_eq:
  "sess_at ce ses0 i c cs ses \<Longrightarrow> mod_sess i f ses = Inr (set_chan i (c\<lparr>ch_typedata := Some (f cs)\<rparr>) ses)"
  using sess_at_chansess [of ce ses0 i c cs ses] by (auto simp: sess_at_def mod_sess_def mod_chan_def dest: with_chan_chan)

lemma sess_at_set:
  "sess_at ce ses0 i c cs ses \<Longrightarrow> cs_agentlistener cs' = cs_agentlistener cs \<Longrightarrow>
    sess_at ce ses0 i (c\<lparr>ch_typedata := Some cs'\<rparr>) cs' (set_chan i (c\<lparr>ch_typedata := Some cs'\<rparr>) ses)"
  unfolding sess_at_def by (auto intro!: with_chan_set simp: agent_of_def)

lemma base_ok_world [simp]:
  "base_ok ce (ses\<lparr>files := f\<rparr>) = base_ok ce ses" "base_ok ce (ses\<lparr>rng := r\<rparr>) = base_ok ce ses" "base_ok ce (ses\<lparr>maxfd := m\<rparr>) = base_ok ce ses"
  by (simp_all add: base_ok_def sendable_def wp_empty_def payload_ok_def wp_ok_def listeners_ok_def)

lemma with_chan_world:
  assumes "with_chan ce ses0 i c ses"
  shows "with_chan ce ses0 i c (ses\<lparr>files := f\<rparr>)" and "with_chan ce ses0 i c (ses\<lparr>rng := r\<rparr>)" and "with_chan ce ses0 i c (ses\<lparr>maxfd := m\<rparr>)"
    and "with_chan ce ses0 i c (snd (sys_answer ses))" and "with_chan ce ses0 i c (snd (random_u32 pr ses))"
    and "with_chan ce ses0 i c (snd (on_files k ses))" and "with_chan ce ses0 i c (close_fd fd ses)"
  using assms with_chan_fds [OF assms]
  by (simp_all add: with_chan_def sys_answer_def random_u32_def genrandom_def on_files_def close_fd_def split: list.split prod.split)

lemma agent_dir_step: "with_chan ce ses0 i c ses \<Longrightarrow> with_chan ce ses0 i c (snd (agent_dir pr k ses))"
proof (induction pr k ses rule: agent_dir.induct)
  case (2 pr k ses)
  obtain prefix s where s: "random_u32 pr ses = (prefix, s)" by fastforce
  obtain r t where t: "on_files (sys_mkdir (AGENTDIRPREFIX @ hex8 prefix) 448) s = (r, t)" by fastforce
  have "with_chan ce ses0 i c s" using with_chan_world(5) [OF 2(2), of pr] s by simp
  then have w: "with_chan ce ses0 i c t" using with_chan_world(6) [of ce ses0 i c s "sys_mkdir (AGENTDIRPREFIX @ hex8 prefix) 448"] t by simp
  show ?case using w 2(1) [OF s [symmetric] refl t [symmetric]] by (simp add: s t split: option.split)
qed simp

definition agent_change :: "ChanSess \<Rightarrow> ChanSess \<Rightarrow> bool" where
  "agent_change cs cs' \<longleftrightarrow> (\<exists>l f d. cs' = cs\<lparr>cs_agentlistener := l, cs_agentfile := f, cs_agentdir := d\<rparr>)"

text \<open>The channel with new session data, which differ in the fields of the agent only.\<close>

definition agent_step :: "chan_env \<Rightarrow> sshsession \<Rightarrow> nat \<Rightarrow> Channel \<Rightarrow> ChanSess \<Rightarrow> sshsession \<Rightarrow> bool" where
  "agent_step ce ses0 i c cs s \<longleftrightarrow> (\<exists>cs'. sess_at ce ses0 i (c\<lparr>ch_typedata := Some cs'\<rparr>) cs' s \<and> agent_change cs cs')"

lemma agent_change_refl: "agent_change cs cs"
  unfolding agent_change_def by (rule exI [of _ "cs_agentlistener cs"], rule exI [of _ "cs_agentfile cs"], rule exI [of _ "cs_agentdir cs"]) simp

lemma agent_change_upd:
  "agent_change cs cs' \<Longrightarrow> agent_change cs (cs'\<lparr>cs_agentlistener := l\<rparr>)"
  "agent_change cs cs' \<Longrightarrow> agent_change cs (cs'\<lparr>cs_agentfile := f, cs_agentdir := d\<rparr>)"
  "agent_change cs cs' \<Longrightarrow> agent_change cs (cs'\<lparr>cs_agentdir := d, cs_agentfile := f\<rparr>)"
  unfolding agent_change_def by (elim exE, simp, metis ChanSess.surjective ChanSess.update_convs(17-19))+


lemma agent_stepI: "sess_at ce ses0 i c' cs' s \<Longrightarrow> c' = c\<lparr>ch_typedata := Some cs'\<rparr> \<Longrightarrow> agent_change cs cs' \<Longrightarrow> agent_step ce ses0 i c cs s"
  unfolding agent_step_def by blast

lemma typedata_self: "ch_typedata c = Some cs \<Longrightarrow> c\<lparr>ch_typedata := Some cs\<rparr> = c"
  by (cases c) simp

lemma agent_step_refl: "sess_at ce ses0 i c cs s \<Longrightarrow> agent_step ce ses0 i c cs s"
  by (rule agent_stepI [OF _ _ agent_change_refl]) (auto simp: sess_at_def typedata_self)

lemma agent_step_trans: "sess_at ce ses0 i (c\<lparr>ch_typedata := Some cs'\<rparr>) cs' s \<Longrightarrow> agent_change cs cs' \<Longrightarrow>
    agent_step ce ses0 i (c\<lparr>ch_typedata := Some cs'\<rparr>) cs' t \<Longrightarrow> agent_step ce ses0 i c cs t"
  unfolding agent_step_def agent_change_def by fastforce

lemma agent_step_world:
  assumes "agent_step ce ses0 i c cs ses"
  shows "agent_step ce ses0 i c cs (snd (sys_answer ses))" and "agent_step ce ses0 i c cs (snd (on_files k ses))"
    and "safe (agent_step ce ses0 i c cs) (m_close fd ses)"
  using assms unfolding agent_step_def sess_at_def
  by (auto intro: with_chan_world) (metis (mono_tags, lifting) m_close_step res_sat_mono)

text \<open>A listener without a cleanup function goes away with its sockets.\<close>

lemma foldl_close_fds: "foldl (\<lambda>ses fd. close_fd fd ses) ses socks = ses\<lparr>fds := (fds ses)\<lparr>fw_closed := rev socks @ fw_closed (fds ses)\<rparr>\<rparr>"
  by (induction socks arbitrary: ses) (simp_all add: close_fd_def)

lemma remove_listener_eq:
  "j < length (listeners ses) \<Longrightarrow> listeners ses ! j = Some l \<Longrightarrow> ls_index l = j \<Longrightarrow> ls_cleanup l = None \<Longrightarrow>
    remove_listener le j ses = Inr (ses\<lparr>fds := (fds ses)\<lparr>fw_closed := rev (ls_socks l) @ fw_closed (fds ses)\<rparr>, listeners := (listeners ses)[j := None]\<rparr>)"
  by (simp add: remove_listener_def listener_at_def foldl_close_fds)

lemma listeners_ok_remove:
  "listeners_ok le ses \<Longrightarrow> listeners_ok le (ses\<lparr>listeners := (listeners ses)[j := None]\<rparr>)"
  unfolding listeners_ok_def by (auto dest!: nth_update_cases)

lemma sess_at_agent:
  assumes s: "sess_at ce ses0 i c cs ses" and j: "cs_agentlistener cs = Some j"
  obtains l where "j < length (listeners ses)" "listeners ses ! j = Some l" "ls_typedata l = Agent i" "ls_cleanup l = None" "ls_index l = j"
proof -
  have ag: "agents_ok ses" and lo: "listeners_ok (ce_listen ce) ses" using s by (simp_all add: sess_at_def with_chan_def base_ok_def)
  have "chan i ses = Inr c" using s by (auto simp: sess_at_def dest: with_chan_chan)
  moreover have "agent_of c = Some j" using s j by (simp add: sess_at_def agent_of_def)
  ultimately obtain l where l: "j < length (listeners ses)" "listeners ses ! j = Some l" "ls_typedata l = Agent i" "ls_cleanup l = None"
    using agents_okD [OF ag, of i c j] by (auto simp: chan_eq)
  moreover have "ls_index l = j" using lo l(1,2) by (simp add: listeners_ok_def listener_ok_def)
  ultimately show thesis by (rule that)
qed

text \<open>Removing the listener and forgetting it, in one step: between the two the table and the channel disagree.\<close>

lemma drop_agent_listener:
  assumes s: "sess_at ce ses0 i c cs ses" and j: "cs_agentlistener cs = Some j"
  shows "\<exists>t. rbind (remove_listener le j ses) (mod_sess i (\<lambda>cs. cs\<lparr>cs_agentlistener := None\<rparr>)) = Inr t
    \<and> sess_at ce ses0 i (c\<lparr>ch_typedata := Some (cs\<lparr>cs_agentlistener := None\<rparr>)\<rparr>) (cs\<lparr>cs_agentlistener := None\<rparr>) t"
proof -
  obtain l where l: "j < length (listeners ses)" "listeners ses ! j = Some l" "ls_typedata l = Agent i" "ls_cleanup l = None" "ls_index l = j"
    by (rule sess_at_agent [OF s j])
  define s1 where "s1 = ses\<lparr>fds := (fds ses)\<lparr>fw_closed := rev (ls_socks l) @ fw_closed (fds ses)\<rparr>, listeners := (listeners ses)[j := None]\<rparr>"
  define cs' where "cs' = cs\<lparr>cs_agentlistener := None\<rparr>"
  define t where "t = set_chan i (c\<lparr>ch_typedata := Some cs'\<rparr>) s1"
  have w: "with_chan ce ses0 i c ses" "ch_typedata c = Some cs" using s by (simp_all add: sess_at_def)
  have ci: "chan i s1 = Inr c" using with_chan_chan [OF w(1)] by (simp add: chan_eq s1_def)
  have e: "mod_sess i (\<lambda>cs. cs\<lparr>cs_agentlistener := None\<rparr>) s1 = Inr t"
    by (simp add: mod_sess_def chansess_def ci w(2) mod_chan_def t_def cs'_def)
  have ag: "agents_ok ses" and len: "i < length (channels ses)" using w(1) by (simp_all add: with_chan_def base_ok_def)
  have "agents_ok t"
    unfolding agents_ok_def
  proof (intro allI impI)
    fix k d j' assume k: "k < length (channels t)" "channels t ! k = Some d" "agent_of d = Some j'"
    then have "k \<noteq> i \<and> channels ses ! k = Some d"
      by (auto simp: t_def s1_def set_chan_def agent_of_def cs'_def dest!: nth_update_cases)
    moreover have "k < length (channels ses)" using k(1) by (simp add: t_def s1_def set_chan_def)
    ultimately obtain l' where l': "j' < length (listeners ses)" "listeners ses ! j' = Some l'" "ls_typedata l' = Agent k" "ls_cleanup l' = None" "k \<noteq> i"
      using agents_okD [OF ag _ _ k(3)] by blast
    then have "j' \<noteq> j" using l by auto
    then show "j' < length (listeners t) \<and> (\<exists>l. listeners t ! j' = Some l \<and> ls_typedata l = Agent k \<and> ls_cleanup l = None)"
      using l' by (simp add: t_def s1_def set_chan_def)
  qed
  then have "base_ok ce t"
    using w(1) listeners_ok_remove [of "ce_listen ce" ses j]
    by (simp add: with_chan_def base_ok_def sendable_def wp_empty_def payload_ok_def wp_ok_def t_def s1_def set_chan_def listeners_ok_def)
  then have "sess_at ce ses0 i (c\<lparr>ch_typedata := Some cs'\<rparr>) cs' t"
    using w(1) by (simp add: sess_at_def with_chan_def t_def s1_def set_chan_def)
  then show ?thesis using remove_listener_eq [OF l(1,2,5,4), of le] e by (simp add: s1_def [symmetric] cs'_def [symmetric])
qed


lemma svr_agentcleanup_step:
  assumes "sess_at ce ses0 i c cs ses"
  shows "safe (\<lambda>s. \<exists>cs'. sess_at ce ses0 i (c\<lparr>ch_typedata := Some cs'\<rparr>) cs' s \<and> agent_change cs cs' \<and> cs_agentlistener cs' = None)
    (svr_agentcleanup le i ses)"
proof -
  have files: "safe (\<lambda>s. \<exists>cs'. sess_at ce ses0 i (c\<lparr>ch_typedata := Some cs'\<rparr>) cs' s \<and> agent_change cs cs' \<and> cs_agentlistener cs' = None)
     (rbind (chansess i s) (\<lambda>cs. case (cs_agentfile cs, cs_agentdir cs) of
       (Some file', Some dir) \<Rightarrow>
         (case on_files (sys_unlink (dir @ [slash] @ file')) s of (_, ses) \<Rightarrow>
          case on_files (sys_rmdir dir) ses of (_, ses) \<Rightarrow>
          mod_sess i (\<lambda>cs. cs\<lparr>cs_agentfile := None, cs_agentdir := None\<rparr>) ses)
     | _ \<Rightarrow> Inr s))"
    if s: "sess_at ce ses0 i (c\<lparr>ch_typedata := Some d\<rparr>) d s" "agent_change cs d" "cs_agentlistener d = None" for s d
  proof -
    have one: "\<exists>cs'. sess_at ce ses0 i (c\<lparr>ch_typedata := Some cs'\<rparr>) cs' s \<and> agent_change cs cs' \<and> cs_agentlistener cs' = None" using s by blast
    have two: "safe (\<lambda>s. \<exists>cs'. sess_at ce ses0 i (c\<lparr>ch_typedata := Some cs'\<rparr>) cs' s \<and> agent_change cs cs' \<and> cs_agentlistener cs' = None)
        (mod_sess i (\<lambda>cs. cs\<lparr>cs_agentfile := None, cs_agentdir := None\<rparr>) t)" if t: "sess_at ce ses0 i (c\<lparr>ch_typedata := Some d\<rparr>) d t" for t
      using sess_at_set [OF t, of "d\<lparr>cs_agentfile := None, cs_agentdir := None\<rparr>"] mod_sess_eq [OF t] agent_change_upd(2) [OF s(2)] s(3) by auto
    have three: "sess_at ce ses0 i (c\<lparr>ch_typedata := Some d\<rparr>) d (snd (on_files k t))" if "sess_at ce ses0 i (c\<lparr>ch_typedata := Some d\<rparr>) d t" for k and t
      using that with_chan_world(6) by (auto simp: sess_at_def)
    show ?thesis
      unfolding sess_at_chansess [OF s(1)] rbind.simps case_prod_beta
      using one two [OF three [OF three [OF s(1)]]] by (auto split: option.split)
  qed
  show ?thesis
  proof (cases "cs_agentlistener cs")
    case None
    have "sess_at ce ses0 i (c\<lparr>ch_typedata := Some cs\<rparr>) cs ses" using assms by (auto simp: sess_at_def typedata_self)
    from files [OF this agent_change_refl None] show ?thesis
      unfolding svr_agentcleanup_def sess_at_chansess [OF assms] rbind.simps None option.case by (simp add: sess_at_chansess [OF assms])
  next
    case (Some j)
    obtain t where t: "rbind (remove_listener le j ses) (mod_sess i (\<lambda>cs. cs\<lparr>cs_agentlistener := None\<rparr>)) = Inr t"
        "sess_at ce ses0 i (c\<lparr>ch_typedata := Some (cs\<lparr>cs_agentlistener := None\<rparr>)\<rparr>) (cs\<lparr>cs_agentlistener := None\<rparr>) t"
      using drop_agent_listener [OF assms Some, of le] by blast
    from files [OF t(2) agent_change_upd(1) [OF agent_change_refl]] show ?thesis
      unfolding svr_agentcleanup_def sess_at_chansess [OF assms] rbind.simps Some option.case t(1) by simp
  qed
qed


lemma sess_at_world:
  assumes "sess_at ce ses0 i c cs ses"
  shows "sess_at ce ses0 i c cs (snd (sys_answer ses))" and "sess_at ce ses0 i c cs (snd (random_u32 pr ses))"
    and "sess_at ce ses0 i c cs (snd (on_files k ses))" and "sess_at ce ses0 i c cs (snd (agent_dir pr n ses))"
    and "sess_at ce ses0 i c cs (close_fd fd ses)" and "safe (sess_at ce ses0 i c cs) (m_close fd ses)"
  using assms with_chan_world agent_dir_step m_close_step [of ce ses0 i c ses fd] by (auto simp: sess_at_def intro: res_sat_mono)

lemma bindagent_step:
  assumes "sess_at ce ses0 i c cs ses"
  shows "safe (\<lambda>(b, s). \<exists>cs'. sess_at ce ses0 i (c\<lparr>ch_typedata := Some cs'\<rparr>) cs' s \<and> agent_change cs cs' \<and> cs_agentlistener cs' = cs_agentlistener cs)
    (bindagent pr fd i ses)"
proof -
  have c: "c\<lparr>ch_typedata := Some cs\<rparr> = c" using assms by (simp add: sess_at_def typedata_self)
  have one: "\<exists>cs'. sess_at ce ses0 i (c\<lparr>ch_typedata := Some cs'\<rparr>) cs' s \<and> agent_change cs cs' \<and> cs_agentlistener cs' = cs_agentlistener cs"
    if "sess_at ce ses0 i c cs s" for s using that c agent_change_refl by metis
  have two: "safe (\<lambda>s. \<exists>cs'. sess_at ce ses0 i (c\<lparr>ch_typedata := Some cs'\<rparr>) cs' s \<and> agent_change cs cs' \<and> cs_agentlistener cs' = cs_agentlistener cs)
      (mod_sess i (\<lambda>cs. cs\<lparr>cs_agentdir := d, cs_agentfile := f\<rparr>) t)" if t: "sess_at ce ses0 i c cs t" for t d f
    using sess_at_set [OF t, of "cs\<lparr>cs_agentdir := d, cs_agentfile := f\<rparr>"] mod_sess_eq [OF t] agent_change_upd(3) [OF agent_change_refl] by auto
  obtain r s where s: "agent_dir pr 20 ses = (r, s)" by fastforce
  have ws: "sess_at ce ses0 i c cs s" using sess_at_world(4) [OF assms, of pr 20] s by simp
  show ?thesis
  proof (cases r)
    case (Some path)
    obtain prefix t where t: "random_u32 pr s = (prefix, t)" by fastforce
    have wt: "sess_at ce ses0 i c cs t" using sess_at_world(2) [OF ws, of pr] t by simp
    let ?f = "str ''auth-'' @ hex8 prefix @ str ''-'' @ print_int fd"
    obtain b u where u: "on_files (sys_bind (path @ [slash] @ ?f)) t = (b, u)" by fastforce
    have "sess_at ce ses0 i c cs u" using sess_at_world(3) [OF wt, of "sys_bind (path @ [slash] @ ?f)"] u by simp
    note wu = one [OF this] two [OF this]
    show ?thesis
      unfolding bindagent_def s Some prod.case option.case t Let_def u
      using wu by (auto split: option.split simp del: res_sat_rbind intro!: res_sat_bindI [OF wu(2)])
  qed (use one [OF ws] in \<open>simp add: bindagent_def s\<close>)
qed

text \<open>A new listener with one socket and no cleanup function takes a slot that was free, or there is no room.\<close>

lemma new_listener_eq:
  assumes "listeners_ok le ses"
  shows "new_listener [fd] type data acceptor cleanup ses = Inr (None, close_fd fd ses) \<or>
    (\<exists>j ls n. new_listener [fd] type data acceptor cleanup ses = Inr (Some j, ses\<lparr>maxfd := max (maxfd ses) fd, listeners := ls, listensize := n\<rparr>)
      \<and> j < length ls \<and> length ls = unat n \<and> unat n \<le> 21
      \<and> ls ! j = Some \<lparr>ls_socks = [fd], ls_index = j, ls_acceptor = acceptor, ls_cleanup = cleanup, ls_type = type, ls_typedata = data\<rparr>
      \<and> (\<forall>k l. k < length (listeners ses) \<longrightarrow> listeners ses ! k = Some l \<longrightarrow> k < length ls \<and> ls ! k = Some l)
      \<and> (\<forall>k l. k < length ls \<longrightarrow> k \<noteq> j \<longrightarrow> ls ! k = Some l \<longrightarrow> k < length (listeners ses) \<and> listeners ses ! k = Some l))"
proof -
  define n where "n = unat (listensize ses)"
  have len: "length (listeners ses) = n" and n21: "n \<le> 21" using assms by (simp_all add: listeners_ok_def n_def)
  define j where "j = first_free (listeners ses) n"
  show ?thesis
  proof (cases "j = n")
    case full: True
    show ?thesis
    proof (cases "listensize ses > MAX_LISTENERS")
      case True
      then show ?thesis using full len by (simp add: new_listener_def Let_def j_def n_def)
    next
      case False
      have u: "unat (listensize ses + 1) = Suc n" using n21 by (simp add: n_def unat_add_u32)
      have "n \<le> 20" using False by (simp add: n_def word_less_nat_alt)
      then show ?thesis
        using full len False u
        by (intro disjI2 exI [of _ n] exI [of _ "(listeners ses @ [None])[n := Some \<lparr>ls_socks = [fd], ls_index = n, ls_acceptor = acceptor,
              ls_cleanup = cleanup, ls_type = type, ls_typedata = data\<rparr>]"] exI [of _ "listensize ses + 1"])
          (auto simp: new_listener_def Let_def j_def n_def [symmetric] place_listener_def nth_append nth_list_update)
    qed
  next
    case False
    then have j: "j < n" using first_free_le [of "listeners ses" n] by (simp add: j_def)
    then have "listeners ses ! j = None" unfolding j_def by (rule first_free_None) (simp add: len)
    then show ?thesis
      using False j len n21
      by (intro disjI2 exI [of _ j] exI [of _ "(listeners ses)[j := Some \<lparr>ls_socks = [fd], ls_index = j, ls_acceptor = acceptor,
            ls_cleanup = cleanup, ls_type = type, ls_typedata = data\<rparr>]"] exI [of _ "listensize ses"])
        (auto simp: new_listener_def Let_def j_def [symmetric] n_def [symmetric] place_listener_def nth_list_update)
  qed
qed


text \<open>Making the listener and remembering it, in one step.\<close>

lemma add_agent_listener:
  assumes s: "sess_at ce ses0 i c cs ses" and none: "cs_agentlistener cs = None" and acc: "AGENT_ACCEPTOR < length (le_acceptors (ce_listen ce))"
    and r: "new_listener [fd] LISTENER_TYPE_DEFAULT (Agent i) AGENT_ACCEPTOR None ses = Inr (l, s1)"
  shows "\<exists>t. mod_sess i (\<lambda>cs. cs\<lparr>cs_agentlistener := l\<rparr>) s1 = Inr t
    \<and> sess_at ce ses0 i (c\<lparr>ch_typedata := Some (cs\<lparr>cs_agentlistener := l\<rparr>)\<rparr>) (cs\<lparr>cs_agentlistener := l\<rparr>) t"
proof -
  have w: "with_chan ce ses0 i c ses" "ch_typedata c = Some cs" using s by (simp_all add: sess_at_def)
  have b: "agents_ok ses" "listeners_ok (ce_listen ce) ses" and len: "i < length (channels ses)" using w(1) by (simp_all add: with_chan_def base_ok_def)
  let ?L = "\<lambda>j. \<lparr>ls_socks = [fd], ls_index = j, ls_acceptor = AGENT_ACCEPTOR, ls_cleanup = None, ls_type = LISTENER_TYPE_DEFAULT, ls_typedata = Agent i\<rparr>"
  from new_listener_eq [OF b(2), of fd LISTENER_TYPE_DEFAULT "Agent i" AGENT_ACCEPTOR None]
  consider (room) j ls n where "l = Some j" "s1 = ses\<lparr>maxfd := max (maxfd ses) fd, listeners := ls, listensize := n\<rparr>" "j < length ls"
      "length ls = unat n" "unat n \<le> 21" "ls ! j = Some (?L j)"
      "\<forall>k l. k < length (listeners ses) \<longrightarrow> listeners ses ! k = Some l \<longrightarrow> k < length ls \<and> ls ! k = Some l"
      "\<forall>k l. k < length ls \<longrightarrow> k \<noteq> j \<longrightarrow> ls ! k = Some l \<longrightarrow> k < length (listeners ses) \<and> listeners ses ! k = Some l"
    | (full) "l = None" "s1 = close_fd fd ses"
    unfolding r by (elim disjE exE conjE) (simp only: sum.inject prod.inject, blast)+
  then show ?thesis
  proof cases
    case full
    have "sess_at ce ses0 i c cs s1" using sess_at_world(5) [OF s, of fd] full(2) by simp
    from mod_sess_eq [OF this, of "\<lambda>cs. cs\<lparr>cs_agentlistener := l\<rparr>"] sess_at_set [OF this, of "cs\<lparr>cs_agentlistener := l\<rparr>"] show ?thesis
      using none full(1) by simp
  next
    case (room j ls n)
    define cs' where "cs' = cs\<lparr>cs_agentlistener := l\<rparr>"
    define t where "t = set_chan i (c\<lparr>ch_typedata := Some cs'\<rparr>) s1"
    have ci: "chan i s1 = Inr c" using with_chan_chan [OF w(1)] by (simp add: chan_eq room(2))
    have e: "mod_sess i (\<lambda>cs. cs\<lparr>cs_agentlistener := l\<rparr>) s1 = Inr t"
      by (simp add: mod_sess_def chansess_def ci w(2) mod_chan_def t_def cs'_def)
    have ch: "channels t = (channels ses)[i := Some (c\<lparr>ch_typedata := Some cs'\<rparr>)]" "listeners t = ls" "listensize t = n"
      by (simp_all add: t_def room(2) set_chan_def)
    have "agents_ok t"
      unfolding agents_ok_def ch
    proof (intro allI impI)
      fix k d j' assume k: "k < length ((channels ses)[i := Some (c\<lparr>ch_typedata := Some cs'\<rparr>)])"
        "(channels ses)[i := Some (c\<lparr>ch_typedata := Some cs'\<rparr>)] ! k = Some d" "agent_of d = Some j'"
      show "j' < length ls \<and> (\<exists>l. ls ! j' = Some l \<and> ls_typedata l = Agent k \<and> ls_cleanup l = None)"
      proof (cases "k = i")
        case True
        then have "j' = j" using k len by (auto simp: agent_of_def cs'_def room(1))
        then show ?thesis using room(3,6) True by simp
      next
        case False
        then have "channels ses ! k = Some d" "k < length (channels ses)" using k(1,2) by auto
        then show ?thesis using agents_okD [OF b(1) _ _ k(3)] room(7) by blast
      qed
    qed
    moreover have "listeners_ok (ce_listen ce) t"
      unfolding listeners_ok_def ch
    proof (intro conjI allI impI)
      fix k x assume k: "k < length ls" "ls ! k = Some x"
      show "listener_ok (ce_listen ce) k x"
      proof (cases "k = j")
        case True
        then show ?thesis using k room(6) acc by (auto simp: listener_ok_def)
      next
        case False
        then have "k < length (listeners ses)" "listeners ses ! k = Some x" using k room(8) by blast+
        then show ?thesis using b(2) unfolding listeners_ok_def by blast
      qed
    qed (use room in simp_all)
    ultimately have "base_ok ce t"
      using w(1) by (simp add: with_chan_def base_ok_def sendable_def wp_empty_def payload_ok_def wp_ok_def t_def room(2) set_chan_def)
    then have "sess_at ce ses0 i (c\<lparr>ch_typedata := Some cs'\<rparr>) cs' t"
      using w(1) by (simp add: sess_at_def with_chan_def t_def room(2) set_chan_def)
    then show ?thesis using e by (simp add: cs'_def [symmetric])
  qed
qed

lemma svr_agentreq_step:
  assumes s: "sess_at ce ses0 i c cs ses" and acc: "AGENT_ACCEPTOR < length (le_acceptors (ce_listen ce))"
  shows "safe (\<lambda>(b, s). agent_step ce ses0 i c cs s) (svr_agentreq pr le i ses)"
proof -
  have bad: "safe (\<lambda>(b, s). agent_step ce ses0 i c cs s)
      (rbind (m_close fd t) (\<lambda>ses. rbind (svr_agentcleanup le i ses) (\<lambda>ses. Inr (False, ses))))"
    if t: "sess_at ce ses0 i (c\<lparr>ch_typedata := Some d\<rparr>) d t" "agent_change cs d" for fd t d
  proof (rule res_sat_bindI [OF sess_at_world(6) [OF t(1)]])
    fix u assume u: "sess_at ce ses0 i (c\<lparr>ch_typedata := Some d\<rparr>) d u"
    show "safe (\<lambda>(b, s). agent_step ce ses0 i c cs s) (rbind (svr_agentcleanup le i u) (\<lambda>ses. Inr (False, ses)))"
      by (rule res_sat_bindI [OF svr_agentcleanup_step [OF u]])
        (use agent_step_trans [OF t] in \<open>auto simp: agent_step_def\<close>)
  qed
  obtain fd s1 where s1: "sys_answer ses = (fd, s1)" by fastforce
  have w1: "sess_at ce ses0 i c cs s1" using sess_at_world(1) [OF s] s1 by simp
  have c: "c\<lparr>ch_typedata := Some cs\<rparr> = c" using s by (simp add: sess_at_def typedata_self)
  show ?thesis
  proof (cases "\<not> svr_pubkey_allows_agentfwd ses \<or> cs_agentlistener cs \<noteq> None")
    case True
    then show ?thesis using agent_step_refl [OF s] by (simp add: svr_agentreq_def sess_at_chansess [OF s])
  next
    case False
    have rest: "safe (\<lambda>(b, s). agent_step ce ses0 i c cs s) (case sys_answer t of (r, t) \<Rightarrow>
           if r < 0 then rbind (m_close fd t) (\<lambda>ses. rbind (svr_agentcleanup le i ses) (\<lambda>ses. Inr (False, ses)))
           else rbind (new_listener [fd] LISTENER_TYPE_DEFAULT (Agent i) AGENT_ACCEPTOR None t) (\<lambda>(l, ses).
             rbind (mod_sess i (\<lambda>cs. cs\<lparr>cs_agentlistener := l\<rparr>) ses) (\<lambda>ses.
             if l = None then rbind (m_close fd ses) (\<lambda>ses. rbind (svr_agentcleanup le i ses) (\<lambda>ses. Inr (False, ses))) else Inr (True, ses))))"
      if t: "sess_at ce ses0 i (c\<lparr>ch_typedata := Some d\<rparr>) d t" "agent_change cs d" "cs_agentlistener d = None" for t d
    proof -
      obtain r u where u: "sys_answer t = (r, u)" by fastforce
      have wu: "sess_at ce ses0 i (c\<lparr>ch_typedata := Some d\<rparr>) d u" using sess_at_world(1) [OF t(1)] u by simp
      have "listeners_ok (ce_listen ce) u" using wu by (simp add: sess_at_def with_chan_def base_ok_def)
      then obtain l v where v: "new_listener [fd] LISTENER_TYPE_DEFAULT (Agent i) AGENT_ACCEPTOR None u = Inr (l, v)"
        using new_listener_eq by blast
      obtain x where x: "mod_sess i (\<lambda>cs. cs\<lparr>cs_agentlistener := l\<rparr>) v = Inr x"
          "sess_at ce ses0 i (c\<lparr>ch_typedata := Some (d\<lparr>cs_agentlistener := l\<rparr>)\<rparr>) (d\<lparr>cs_agentlistener := l\<rparr>) x"
        using add_agent_listener [OF wu t(3) acc v] by auto
      note ch = agent_change_upd(1) [OF t(2), of l]
      show ?thesis unfolding u prod.case v rbind.simps x(1)
        by (intro res_sat_if bad [OF wu t(2)] bad [OF x(2) ch]) (use x(2) ch in \<open>auto simp: agent_step_def\<close>)
    qed
    show ?thesis
      unfolding svr_agentreq_def sess_at_chansess [OF s] rbind.simps if_not_P [OF False] s1 prod.case Let_def
    proof (rule res_sat_if)
      show "safe (\<lambda>(b, s). agent_step ce ses0 i c cs s) (rbind (m_close fd s1) (\<lambda>ses. rbind (svr_agentcleanup le i ses) (\<lambda>ses. Inr (False, ses))))"
        using bad [of cs s1] w1 c agent_change_refl by simp
    qed (rule res_sat_bind2I [OF bindagent_step [OF w1]], elim exE conjE, rule res_sat_if, erule (1) bad, erule (1) rest, use False in simp)
  qed
qed

section \<open>Accepting connections\<close>

text \<open>A type of channel that only the server opens and that adds nothing to the channel.\<close>

definition plain_type :: "chan_type \<Rightarrow> bool" where
  "plain_type t \<longleftrightarrow> ct_inithandler t = None \<and> ct_check_close t = None \<and> ct_reqhandler t = None \<and> length (ct_name t) \<le> 64"

lemma newborn_open:
  assumes "newborn ce i c" and "plain_type (ce_types ce ! ch_type c)"
  shows "chan_ok ce i (c\<lparr>ch_writefd := fd, ch_readfd := fd, ch_bidir_fd := True, ch_await_open := True\<rparr>)"
  using assms by (simp add: newborn_def chan_ok_def chan_core_def typed_ok_def plain_type_def bufs_ok_def window_ok_def held_def fds_ok_def Let_def)

lemma chan_index_open:
  "newborn ce i c \<Longrightarrow> unat (ch_index c) = i"
  by (simp add: newborn_def chan_core_def)

lemma open_channel_ok:
  assumes ok: "chans_ok ce ses" and win: "0 < unat (ce_recv_window ce)" "unat (ce_recv_window ce) \<le> 10485760"
    and type: "type < length (ce_types ce)" "plain_type (ce_types ce ! type)"
  shows "safe (\<lambda>(b, s). chans_ok ce s \<and> listeners s = listeners ses \<and> listensize s = listensize ses)
    (rbind (send_msg_channel_open_init ce fd type ses) (\<lambda>(r, ses).
      case r of None \<Rightarrow> Inr (False, ses) | Some _ \<Rightarrow> rbind (encrypt_packet (ce_pr ce) ses) (\<lambda>ses. Inr (True, ses))))"
proof -
  obtain r s where rs: "newchannel ce 0 type 0 0 ses = Inr (r, s)"
    unfolding newchannel_eq [OF ok win] Let_def
    by (cases "first_free (channels ses) (length (channels ses)) = length (channels ses) \<and> 1000 \<le> length (channels ses)") (simp_all only: if_True if_False simp_thms)
  note n = res_sat_Inr [OF newchannel_step [OF ok win type(1), of 0 0 0] rs, unfolded prod.case]
  show ?thesis
  proof (cases r)
    case None
    then show ?thesis using n ok by (simp add: send_msg_channel_open_init_def rs)
  next
    case (Some i)
    then obtain ses0 c where c: "with_chan ce ses0 i c s" "newborn ce i c" "ch_type c = type" "slots_ok ce ses0" "channels ses0 ! i \<noteq> None"
      using n by auto
    define s1 where "s1 = s\<lparr>maxfd := max (maxfd s) fd\<rparr>"
    define d where "d = c\<lparr>ch_writefd := fd, ch_readfd := fd, ch_bidir_fd := True, ch_await_open := True\<rparr>"
    have w1: "with_chan ce ses0 i c s1" using with_chan_world(3) [OF c(1)] by (simp add: s1_def)
    have wd: "with_chan ce ses0 i d (set_chan i d s1)" by (rule with_chan_set [OF w1]) (simp add: d_def)
    have okd: "chan_ok ce i d" using newborn_open [OF c(2)] type(2) c(3) by (simp add: d_def)
    let ?fs = "[F_byte SSH_MSG_CHANNEL_OPEN, F_str (ct_name (ce_types ce ! type)), F_int (ch_index d), F_int (ce_recv_window ce), F_int RECV_MAX_CHANNEL_DATA_LEN]"
    have "base_ok ce (set_chan i d s1)" using wd by (simp add: with_chan_def)
    then obtain t where t: "send_fields ce ?fs (set_chan i d s1) = Inr t" "base_ok ce t" "app_same (set_chan i d s1) t"
      using send_fields_ok [of ce "set_chan i d s1" ?fs] type(2) by (auto simp: message_def plain_type_def)
    then obtain u where u: "put_fields ?fs (set_chan i d s1) = Inr u" "encrypt_packet (ce_pr ce) u = Inr t"
      by (auto simp: send_fields_def)
    have wt: "with_chan ce ses0 i d t" using app_same_chan [OF wd _ _ t(3)] t(2) by (simp add: base_ok_def)
    have "chans_ok ce t" by (rule keeps_chans_ok [OF c(4,5) keepsI [OF wt okd]])
    moreover have "listeners t = listeners ses \<and> listensize t = listensize ses"
      using t(3) n by (simp add: app_same_def s1_def set_chan_def)
    moreover have m: "mod_chan i (\<lambda>c. c\<lparr>ch_writefd := fd, ch_readfd := fd, ch_bidir_fd := True, ch_await_open := True\<rparr>) s1 = Inr (set_chan i d s1)"
      by (simp add: mod_chan_def with_chan_chan [OF w1] d_def)
    moreover have ty: "entry (ce_types ce) type = Inr (ce_types ce ! type)" using type(1) by (simp add: entry_def)
    ultimately show ?thesis
      unfolding send_msg_channel_open_init_def rs rbind.simps prod.case Some option.case s1_def [symmetric] m ty with_chan_chan [OF wd] u by simp
  qed
qed

lemma chans_ok_fds: "chans_ok ce ses \<Longrightarrow> chans_ok ce (ses\<lparr>fds := w\<rparr>)"
  by (simp add: chans_ok_def base_ok_fds slots_ok_def)

lemma agentaccept_ok:
  assumes ok: "chans_ok ce ses" and win: "0 < unat (ce_recv_window ce)" "unat (ce_recv_window ce) \<le> 10485760"
    and type: "CHAN_SVR_AGENT < length (ce_types ce)" "plain_type (ce_types ce ! CHAN_SVR_AGENT)"
  shows "safe (\<lambda>s. chans_ok ce s \<and> listeners s = listeners ses \<and> listensize s = listensize ses) (agentaccept ce l sock ses)"
proof -
  obtain fd s where s: "sys_answer ses = (fd, s)" by fastforce
  have oks: "chans_ok ce s" "listeners s = listeners ses" "listensize s = listensize ses"
    using s ok chans_ok_fds [OF ok] by (auto simp: sys_answer_def split: list.splits)
  show ?thesis
    unfolding agentaccept_def s prod.case send_msg_channel_open_agent_def
    by (rule res_sat_if, simp add: oks, rule res_sat_bind2I [OF open_channel_ok [OF oks(1) win type]])
      (use oks chans_ok_fds in \<open>auto simp: close_fd_def\<close>)
qed

lemma agentaccept_env: "agentaccept (ce\<lparr>ce_listen := le\<rparr>) = agentaccept ce"
proof -
  have sel: "ce_recv_window (ce\<lparr>ce_listen := le\<rparr>) = ce_recv_window ce" "ce_types (ce\<lparr>ce_listen := le\<rparr>) = ce_types ce" "ce_pr (ce\<lparr>ce_listen := le\<rparr>) = ce_pr ce"
    by simp_all
  have "send_msg_channel_open_init (ce\<lparr>ce_listen := le\<rparr>) = send_msg_channel_open_init ce"
    unfolding send_msg_channel_open_init_def [abs_def] newchannel_def [abs_def] new_chan_def [abs_def] sel by (rule refl)
  then have agent: "send_msg_channel_open_agent (ce\<lparr>ce_listen := le\<rparr>) = send_msg_channel_open_agent ce"
    unfolding send_msg_channel_open_agent_def [abs_def] sel by simp
  show ?thesis unfolding agentaccept_def [abs_def] agent by (rule refl)
qed

end
