(* ===== verification/Ps4Shell.thy ===== *)
theory Ps4Shell
  imports Ps4Fs "HOL-Library.List_Lexorder" "HOL-Library.Sublist"
begin

text \<open>
  The in-process shell of src/dropbear/src/ps4-shell.c: the resolution of paths, the splitting of a command line into
  words, and the built-in commands over the file system.
\<close>

section \<open>Output\<close>

text \<open>
  \<^verbatim>\<open>ps4_shell_write_fn\<close>: a writer is given the bytes and its context, and answers whether it returned 0. \<^verbatim>\<open>write_fmt\<close>
  formats into an array of 2048 bytes, so that longer texts are cut.
\<close>

type_synonym 'o writer = "byte list \<Rightarrow> 'o \<Rightarrow> bool \<times> 'o"

definition write_all :: "'o writer \<Rightarrow> byte list \<Rightarrow> 'o \<Rightarrow> bool \<times> 'o" where
  "write_all w bs ctx = (if bs = [] then (True, ctx) else w bs ctx)"

definition write_fmt :: "'o writer \<Rightarrow> byte list \<Rightarrow> 'o \<Rightarrow> bool \<times> 'o" where
  "write_fmt w bs ctx = write_all w (take 2047 bs) ctx"

definition shell_error :: "'o writer \<Rightarrow> byte list \<Rightarrow> byte list \<Rightarrow> nat \<Rightarrow> 'o \<times> fs \<Rightarrow> int \<times> 'o \<times> fs" where
  "shell_error w command p error = (\<lambda>(ctx, f).
     case write_fmt w (command @ str '': '' @ p @ str '': '' @ fs_strerror f error @ [0x0a]) ctx of
       (ok, ctx) \<Rightarrow> (if ok then 1 else - 1, ctx, f))"

section \<open>Paths\<close>

definition ps4_shell_init :: "byte list \<Rightarrow> ps4_shell_state" where
  "ps4_shell_init home = (let home = (if home = [] then [slash] else home) in
     \<lparr>sh_cwd = take (PS4_SHELL_PATH_MAX - 1) home, sh_home = take (PS4_SHELL_PATH_MAX - 1) home\<rparr>)"

text \<open>
  The array \<^verbatim>\<open>resolved\<close> holds the bytes of \<open>out\<close> and a null byte; \<open>store\<close> writes \<open>bs\<close> behind them, which is a fault when
  they do not fit into the \<open>rsize\<close> bytes of the array. \<open>pop_len\<close> is the inner loop for \<^verbatim>\<open>..\<close>, which moves
  \<^verbatim>\<open>output_len\<close> back to the last separator.
\<close>

definition store :: "nat \<Rightarrow> byte list \<Rightarrow> byte list \<Rightarrow> byte list res" where
  "store rsize out bs = (if length out + length bs < rsize then Inr (out @ bs) else Inl Mem_fault)"

fun pop_len :: "byte list \<Rightarrow> nat \<Rightarrow> nat" where
  "pop_len out 0 = 0"
| "pop_len out (Suc n) = (if n \<ge> 1 \<and> out ! n \<noteq> slash then pop_len out n else Suc n)"

definition pop_component :: "byte list \<Rightarrow> byte list" where
  "pop_component out = (let n = pop_len out (length out) in take (if n > 1 then n - 1 else n) out)"

text \<open>The loop over the components; \<open>None\<close> is \<^verbatim>\<open>ENAMETOOLONG\<close>.\<close>

lemma length_dropWhile_less: "xs \<noteq> [] \<Longrightarrow> P (hd xs) \<Longrightarrow> length (dropWhile P xs) < length xs"
  by (cases xs) (auto intro: le_imp_less_Suc length_dropWhile_le)

lemma hd_dropWhile_not: "dropWhile P xs \<noteq> [] \<Longrightarrow> \<not> P (hd (dropWhile P xs))"
  by (rule hd_dropWhile)

lemma component_shorter:
  "dropWhile (\<lambda>b. b = s) xs \<noteq> [] \<Longrightarrow> length (dropWhile (\<lambda>b. b \<noteq> s) (dropWhile (\<lambda>b. b = s) xs)) < length xs"
  using length_dropWhile_less [of "dropWhile (\<lambda>b. b = s) xs" "\<lambda>b. b \<noteq> s"] hd_dropWhile_not [of "\<lambda>b. b = s" xs]
    length_dropWhile_le [of "\<lambda>b. b = s" xs] by fastforce

function resolve_loop :: "nat \<Rightarrow> byte list \<Rightarrow> byte list \<Rightarrow> byte list option res" where
  "resolve_loop rsize combined out = (let inp = dropWhile (\<lambda>b. b = slash) combined in
     if inp = [] then Inr (Some out)
     else let comp = takeWhile (\<lambda>b. b \<noteq> slash) inp; rest = dropWhile (\<lambda>b. b \<noteq> slash) inp in
       if comp = [dot] then resolve_loop rsize rest out
       else if comp = [dot, dot] then resolve_loop rsize rest (pop_component out)
       else if length out > 1 \<and> length out + 1 \<ge> rsize then Inr None
       else rbind (if length out > 1 then store rsize out [slash] else Inr out) (\<lambda>out.
         if length out + length comp \<ge> rsize then Inr None
         else rbind (store rsize out comp) (\<lambda>out. resolve_loop rsize rest out)))"
  by pat_completeness auto

termination
  by (relation "measure (\<lambda>(rsize, combined, out). length combined)") (auto simp: component_shorter)

declare resolve_loop.simps [simp del]

text \<open>A null and an empty \<^verbatim>\<open>path\<close> are treated alike. \<^verbatim>\<open>combined\<close> is an array of 2048 bytes.\<close>

definition ps4_shell_resolve :: "byte list \<Rightarrow> byte list \<Rightarrow> nat \<Rightarrow> byte list option res" where
  "ps4_shell_resolve cwd p rsize = (let p = (if p = [] then cwd else p);
      combined = (if p \<noteq> [] \<and> hd p = slash then p else cwd @ [slash] @ p) in
     if length combined \<ge> PS4_SHELL_PATH_MAX * 2 \<or> rsize < 2 then Inr None
     else resolve_loop rsize combined [slash])"

section \<open>Words\<close>

text \<open>
  The inner loop of \<^verbatim>\<open>split_command\<close>, which reads one word; \<open>q\<close> is the quote that is open, 0 when none is, and \<open>remaining\<close>
  is how many of the 2048 bytes of \<^verbatim>\<open>storage\<close> are free. An error number, or the word, what is left of the line and how
  many bytes are free behind the word's null byte.
\<close>

abbreviation squote :: byte where "squote \<equiv> 0x27"
abbreviation dquote :: byte where "dquote \<equiv> 0x22"
abbreviation backslash :: byte where "backslash \<equiv> 0x5c"
abbreviation is_blank :: "byte \<Rightarrow> bool" where "is_blank c \<equiv> c = 0x20 \<or> c = 0x09"

type_synonym word_result = "nat + (byte list \<times> byte list \<times> nat)"

definition end_word :: "byte list \<Rightarrow> byte list \<Rightarrow> nat \<Rightarrow> word_result res" where
  "end_word out inp remaining = (if remaining = 0 then Inl Mem_fault else Inr (Inr (out, inp, remaining - 1)))"

function split_word :: "byte \<Rightarrow> byte list \<Rightarrow> nat \<Rightarrow> byte list \<Rightarrow> word_result res" where
  "split_word q [] remaining out = (if q \<noteq> 0 then Inr (Inl EINVAL) else end_word out [] remaining)"
| "split_word q (ch # inp) remaining out =
     (if q = 0 \<and> is_blank ch then end_word out inp remaining
      else if ch = backslash \<and> q \<noteq> squote then
        (case inp of [] \<Rightarrow> Inr (Inl EINVAL)
         | c # inp \<Rightarrow> if remaining < 2 then Inr (Inl E2BIG) else split_word q inp (remaining - 1) (out @ [c]))
      else if (ch = squote \<or> ch = dquote) \<and> q = 0 then split_word ch inp remaining out
      else if (ch = squote \<or> ch = dquote) \<and> q = ch then split_word 0 inp remaining out
      else if remaining < 2 then Inr (Inl E2BIG)
      else split_word q inp (remaining - 1) (out @ [ch]))"
  by pat_completeness auto

termination
  by (relation "measure (\<lambda>(q, inp, remaining, out). length inp)") auto

lemma split_word_shorter: "split_word q inp remaining out = Inr (Inr (w, rest, r)) \<Longrightarrow> length rest \<le> length inp"
proof (induction q inp remaining out rule: split_word.induct)
  case (2 q ch inp remaining out)
  show ?case
    using "2.prems" "2.IH"
    by (auto simp: end_word_def split: if_splits list.splits dest: le_SucI)
qed (auto simp: end_word_def split: if_splits)

lemma split_word_less:
  assumes "inp \<noteq> []" and "\<not> is_blank (hd inp)" and "split_word 0 inp remaining out = Inr (Inr (w, rest, r))"
  shows "length rest < length inp"
proof -
  obtain ch xs where inp: "inp = ch # xs" using assms(1) by (cases inp) auto
  show ?thesis
    using assms(2,3) unfolding inp
    by (auto split: if_splits list.splits dest!: split_word_shorter)
qed

text \<open>The outer loop. The value is an error number or \<^verbatim>\<open>argv\<close>.\<close>

lemma split_args_less:
  assumes ne: "dropWhile is_blank line \<noteq> []" and w: "split_word 0 (dropWhile is_blank line) remaining [] = Inr (Inr (w, rest, r))"
  shows "length rest < length line"
proof -
  have "\<not> is_blank (hd (dropWhile is_blank line))" using hd_dropWhile_not [OF ne] .
  then have "length rest < length (dropWhile is_blank line)" using split_word_less [OF ne _ w] by blast
  also have "\<dots> \<le> length line" by (rule length_dropWhile_le)
  finally show ?thesis .
qed

function split_args :: "byte list \<Rightarrow> nat \<Rightarrow> byte list list \<Rightarrow> (nat + byte list list) res" where
  "split_args line remaining argv = (let inp = dropWhile is_blank line in
     if inp = [] then Inr (Inr argv)
     else if length argv = PS4_SHELL_MAX_ARGS \<or> remaining < 2 then Inr (Inl E2BIG)
     else rbind (split_word 0 inp remaining []) (\<lambda>r. case r of Inl e \<Rightarrow> Inr (Inl e)
       | Inr (word, rest, remaining) \<Rightarrow> split_args rest remaining (argv @ [word])))"
  by pat_completeness auto

termination
  by (relation "measure (\<lambda>(line, remaining, argv). length line)") (auto simp del: dropWhile_eq_Nil_conv dest: split_args_less)

declare split_args.simps [simp del]

definition split_command :: "byte list \<Rightarrow> (nat + byte list list) res" where
  "split_command command = split_args command 2048 []"

definition resolve_arg :: "ps4_shell_state \<Rightarrow> byte list \<Rightarrow> fs \<Rightarrow> (byte list option \<times> fs) res" where
  "resolve_arg state arg f = rbind (ps4_shell_resolve (sh_cwd state) arg PS4_SHELL_PATH_MAX) (\<lambda>r.
     Inr (case r of None \<Rightarrow> fail ENAMETOOLONG f | Some p \<Rightarrow> (Some p, f)))"

definition shell_commands :: "byte list list" where
  "shell_commands = map str [''pwd'', ''cd'', ''ls'', ''cat'', ''head'', ''tail'', ''stat'', ''touch'', ''mkdir'', ''rmdir'', ''rm'',
     ''cp'', ''mv'', ''chmod'', ''grep'', ''hexdump'', ''find'']"

definition ps4_shell_handles :: "byte list \<Rightarrow> bool res" where
  "ps4_shell_handles command = rbind (split_command command) (\<lambda>r.
     Inr (case r of Inl _ \<Rightarrow> False | Inr [] \<Rightarrow> False | Inr (a # _) \<Rightarrow> a \<in> set shell_commands))"

section \<open>What a path means\<close>

text \<open>
  The reference: the components of a path are its non-empty segments between slashes; they are taken in order, \<^verbatim>\<open>.\<close> is
  skipped and \<^verbatim>\<open>..\<close> removes the component before it.
\<close>

fun segments :: "byte list \<Rightarrow> byte list list" where
  "segments [] = [[]]"
| "segments (b # bs) = (if b = slash then [] # segments bs else (b # hd (segments bs)) # tl (segments bs))"

definition components :: "byte list \<Rightarrow> byte list list" where
  "components s = filter (\<lambda>c. c \<noteq> []) (segments s)"

definition walk :: "byte list list \<Rightarrow> byte list \<Rightarrow> byte list list" where
  "walk cs c = (if c = [dot] then cs else if c = [dot, dot] then butlast cs else cs @ [c])"

definition render :: "byte list list \<Rightarrow> byte list" where
  "render cs = (if cs = [] then [slash] else concat (map (\<lambda>c. slash # c) cs))"

definition is_component :: "byte list \<Rightarrow> bool" where
  "is_component c \<longleftrightarrow> c \<noteq> [] \<and> slash \<notin> set c"

lemma segments_ne: "segments s \<noteq> []"
  by (cases s) auto

lemma segments_append: "slash \<notin> set c \<Longrightarrow> segments (c @ s) = (c @ hd (segments s)) # tl (segments s)"
  by (induction c) (auto simp: segments_ne)

lemma components_slash: "components (slash # s) = components s"
  by (simp add: components_def)

lemma components_drop: "components (dropWhile (\<lambda>b. b = slash) s) = components s"
  by (induction s) (auto simp: components_slash)

lemma components_word:
  assumes "is_component c" and "s = [] \<or> hd s = slash"
  shows "components (c @ s) = c # components s"
proof -
  have h: "hd (segments s) = []" using assms(2) by (cases s) auto
  have t: "filter (\<lambda>c. c \<noteq> []) (tl (segments s)) = components s"
    using h segments_ne [of s] by (cases "segments s") (auto simp: components_def)
  have "segments (c @ s) = c # tl (segments s)" using assms(1) h segments_append [of c s] by (simp add: is_component_def)
  then show ?thesis using t assms(1) by (simp add: components_def is_component_def)
qed

lemma components_next:
  assumes "dropWhile (\<lambda>b. b = slash) s \<noteq> []"
  defines "inp \<equiv> dropWhile (\<lambda>b. b = slash) s"
  shows "is_component (takeWhile (\<lambda>b. b \<noteq> slash) inp)"
    and "components s = takeWhile (\<lambda>b. b \<noteq> slash) inp # components (dropWhile (\<lambda>b. b \<noteq> slash) inp)"
proof -
  let ?c = "takeWhile (\<lambda>b. b \<noteq> slash) inp" and ?r = "dropWhile (\<lambda>b. b \<noteq> slash) inp"
  have ne: "inp \<noteq> []" and h: "hd inp \<noteq> slash" using assms hd_dropWhile_not [of "\<lambda>b. b = slash" s] by auto
  have "slash \<notin> set ?c" by (auto dest: set_takeWhileD)
  then show c: "is_component ?c" using ne h by (cases inp) (auto simp: is_component_def)
  have r: "?r = [] \<or> hd ?r = slash" using hd_dropWhile_not [of "\<lambda>b. b \<noteq> slash" inp] by blast
  have "components s = components (?c @ ?r)" unfolding takeWhile_dropWhile_id inp_def components_drop ..
  then show "components s = ?c # components ?r" using components_word [OF c r] by simp
qed

lemma render_snoc: "render (cs @ [c]) = (if cs = [] then [] else render cs) @ slash # c"
  by (simp add: render_def)

lemma render_length: "list_all is_component cs \<Longrightarrow> (1 < length (render cs)) = (cs \<noteq> [])"
  by (cases cs) (auto simp: render_def is_component_def)

lemma pop_len_app: "slash \<notin> set c \<Longrightarrow> 1 \<le> length xs \<Longrightarrow> last xs = slash \<Longrightarrow> pop_len (xs @ c @ ys) (length xs + length c) = length xs"
proof (induction c arbitrary: ys rule: rev_induct)
  case Nil
  then obtain n where "length xs = Suc n" by (cases xs) auto
  moreover have "xs ! n = slash" using Nil calculation by (metis diff_Suc_1 last_conv_nth length_0_conv nat.simps(3))
  ultimately show ?case by (simp add: nth_append)
next
  case (snoc b c)
  have "pop_len (xs @ (c @ [b]) @ ys) (length xs + length (c @ [b])) = pop_len (xs @ (c @ [b]) @ ys) (length xs + length c)"
    using snoc.prems by (simp add: nth_append)
  then show ?case using snoc.IH [of "b # ys"] snoc.prems by simp
qed

lemma pop_render: "list_all is_component cs \<Longrightarrow> pop_component (render cs) = render (butlast cs)"
proof (cases cs rule: rev_cases)
  case Nil
  then show ?thesis by (simp add: render_def pop_component_def)
next
  case (snoc ds c)
  assume "list_all is_component cs"
  then have c: "slash \<notin> set c" and ds: "list_all is_component ds" using snoc by (auto simp: is_component_def)
  let ?p = "if ds = [] then [] else render ds"
  have "pop_len ((?p @ [slash]) @ c @ []) (length (?p @ [slash]) + length c) = length (?p @ [slash])"
    by (rule pop_len_app [OF c]) auto
  then have "pop_component (render cs) = take (if length ?p \<ge> 1 then length ?p else 1) (?p @ slash # c)"
    by (simp add: pop_component_def snoc render_snoc Let_def del: pop_len.simps) (simp add: Suc_le_eq)
  also have "\<dots> = render ds" by (auto simp: render_def Suc_le_eq split: list.split)
  finally show ?thesis using snoc by simp
qed

lemma walk_ok: "list_all is_component cs \<Longrightarrow> is_component c \<Longrightarrow> list_all is_component (walk cs c)"
  by (auto simp: walk_def list_all_iff dest: in_set_butlastD)

text \<open>Whether every path on the way is shorter than \<open>n\<close>.\<close>

fun fits :: "nat \<Rightarrow> byte list list \<Rightarrow> byte list list \<Rightarrow> bool" where
  "fits n cs [] = True"
| "fits n cs (c # rest) = (length (render (walk cs c)) < n \<and> fits n (walk cs c) rest)"

lemma render_butlast: "list_all is_component cs \<Longrightarrow> length (render (butlast cs)) \<le> length (render cs)"
  by (cases cs rule: rev_cases) (auto simp: render_snoc render_def)

lemma resolve_loop_eq:
  assumes "list_all is_component cs" and "length (render cs) < n"
  shows "resolve_loop n s (render cs) =
    Inr (if fits n cs (components s) then Some (render (foldl walk cs (components s))) else None)"
  using assms
proof (induction "length s" arbitrary: s cs rule: less_induct)
  case less
  define inp where "inp = dropWhile (\<lambda>b. b = slash) s"
  define c where "c = takeWhile (\<lambda>b. b \<noteq> slash) inp"
  define rest where "rest = dropWhile (\<lambda>b. b \<noteq> slash) inp"
  show ?case
  proof (cases "inp = []")
    case True
    have "components s = []" using components_drop [of s] True unfolding inp_def by (simp only: components_def) (simp only: segments.simps filter.simps simp_thms if_False)
    then show ?thesis using True by (subst resolve_loop.simps) (simp add: inp_def [symmetric])
  next
    case False
    have c: "is_component c" and s: "components s = c # components rest"
      using components_next [of s] False by (simp_all add: inp_def c_def rest_def)
    have len: "length rest < length s" using component_shorter [of slash s] False by (simp add: inp_def rest_def)
    note IH = less.hyps [OF len]
    have w: "list_all is_component (walk cs c)" by (rule walk_ok [OF less.prems(1) c])
    show ?thesis
    proof (cases "c = [dot] \<or> c = [dot, dot]")
      case True
      then have "length (render (walk cs c)) < n"
        using less.prems render_butlast [OF less.prems(1)] by (auto simp: walk_def)
      note IH [OF w this]
      moreover have "resolve_loop n s (render cs) = resolve_loop n rest (render (walk cs c))"
        using True False pop_render [OF less.prems(1)]
        by (subst resolve_loop.simps) (auto simp: inp_def [symmetric] c_def [symmetric] rest_def [symmetric] walk_def Let_def)
      ultimately show ?thesis using \<open>length (render (walk cs c)) < n\<close> by (simp add: s)
    next
      case nodot: False
      have wr: "walk cs c = cs @ [c]" using nodot by (simp add: walk_def)
      have cl: "0 < length c" using c by (simp add: is_component_def)
      have st: "resolve_loop n s (render cs) = (if length (render (cs @ [c])) < n then resolve_loop n rest (render (cs @ [c])) else Inr None)"
      proof (cases "cs = []")
        case True
        then show ?thesis using False nodot
          by (subst resolve_loop.simps)
            (auto simp: inp_def [symmetric] c_def [symmetric] rest_def [symmetric] Let_def store_def render_def)
      next
        case ne: False
        then have "1 < length (render cs)" using render_length [OF less.prems(1)] by simp
        then show ?thesis using False nodot ne cl
          by (subst resolve_loop.simps)
            (auto simp: inp_def [symmetric] c_def [symmetric] rest_def [symmetric] Let_def store_def render_snoc)
      qed
      show ?thesis
      proof (cases "length (render (cs @ [c])) < n")
        case True
        then show ?thesis using IH [of "cs @ [c]"] w by (simp add: st s wr)
      qed (simp add: st s wr)
    qed
  qed
qed

definition absolute :: "byte list \<Rightarrow> byte list \<Rightarrow> byte list" where
  "absolute cwd p = (if p \<noteq> [] \<and> hd p = slash then p else if p = [] \<and> cwd \<noteq> [] \<and> hd cwd = slash then cwd
     else cwd @ [slash] @ (if p = [] then cwd else p))"

lemma resolve_eq:
  "ps4_shell_resolve cwd p n = Inr (if 2 \<le> n \<and> length (absolute cwd p) < 2048 \<and> fits n [] (components (absolute cwd p))
     then Some (render (foldl walk [] (components (absolute cwd p)))) else None)"
proof -
  have "resolve_loop n (absolute cwd p) [slash] = Inr (if fits n [] (components (absolute cwd p))
      then Some (render (foldl walk [] (components (absolute cwd p)))) else None)" if "2 \<le> n"
    using resolve_loop_eq [of "[]" n "absolute cwd p"] that by (simp add: render_def)
  then show ?thesis by (auto simp: ps4_shell_resolve_def absolute_def Let_def)
qed

lemma components_render: "list_all is_component cs \<Longrightarrow> components (render cs) = cs"
proof (induction cs)
  case Nil
  then show ?case by (simp add: render_def components_def)
next
  case (Cons c cs)
  have "components (slash # c @ concat (map (\<lambda>c. slash # c) cs)) = c # components (concat (map (\<lambda>c. slash # c) cs))"
    unfolding components_slash by (rule components_word) (use Cons.prems in \<open>cases cs; auto\<close>)+
  moreover have "components (concat (map (\<lambda>c. slash # c) cs)) = cs"
    using Cons by (cases cs) (auto simp: render_def components_def)
  ultimately show ?case by (simp add: render_def)
qed

definition plain :: "byte list \<Rightarrow> bool" where
  "plain c \<longleftrightarrow> is_component c \<and> c \<noteq> [dot] \<and> c \<noteq> [dot, dot]"

lemma walk_plain: "list_all plain cs \<Longrightarrow> is_component c \<Longrightarrow> list_all plain (walk cs c)"
  by (auto simp: walk_def list_all_iff plain_def dest: in_set_butlastD)

lemma components_ok: "list_all is_component (components s)"
proof (induction "length s" arbitrary: s rule: less_induct)
  case less
  show ?case
  proof (cases "dropWhile (\<lambda>b. b = slash) s = []")
    case True
    then show ?thesis using components_drop [of s] by (simp only: components_def) simp
  next
    case False
    then show ?thesis using components_next [OF False] less.hyps [OF component_shorter [OF False]] by simp
  qed
qed

lemma walks_plain: "list_all plain cs \<Longrightarrow> list_all is_component ds \<Longrightarrow> list_all plain (foldl walk cs ds)"
  by (induction ds arbitrary: cs) (auto intro: walk_plain)

lemma walk_plains: "list_all plain ds \<Longrightarrow> foldl walk cs ds = cs @ ds"
  by (induction ds arbitrary: cs) (auto simp: walk_def plain_def)

lemma plain_components: "list_all plain cs \<Longrightarrow> list_all is_component cs"
  by (auto simp: list_all_iff plain_def)

lemma fits_prefix: "list_all plain ds \<Longrightarrow> length (render (cs @ ds)) < n \<Longrightarrow> ds = [] \<or> fits n cs ds"
proof (induction ds arbitrary: cs)
  case (Cons d ds)
  have "walk cs d = cs @ [d]" using Cons.prems by (simp add: walk_def plain_def)
  moreover have "length (render (cs @ [d])) \<le> length (render (cs @ d # ds))" by (simp add: render_def)
  ultimately show ?case using Cons.IH [of "cs @ [d]"] Cons.prems by auto
qed simp

lemma fits_last: "fits n cs ds \<Longrightarrow> length (render cs) < n \<Longrightarrow> length (render (foldl walk cs ds)) < n"
  by (induction ds arbitrary: cs) auto

text \<open>What a successful resolution yields: an absolute path in normal form, which fits.\<close>

definition normal :: "nat \<Rightarrow> byte list \<Rightarrow> bool" where
  "normal n q \<longleftrightarrow> (\<exists>cs. q = render cs \<and> list_all plain cs) \<and> length q < n"

lemma resolve_normal:
  assumes "ps4_shell_resolve cwd p n = Inr (Some q)"
  shows "normal n q"
proof -
  let ?cs = "foldl walk [] (components (absolute cwd p))"
  have q: "q = render ?cs" "fits n [] (components (absolute cwd p))" "2 \<le> n" using assms by (auto simp: resolve_eq split: if_splits)
  have "list_all plain ?cs" by (rule walks_plain [OF _ components_ok]) simp
  moreover have "length q < n" using fits_last [OF q(2)] q(1,3) by (simp add: render_def)
  ultimately show ?thesis using q(1) by (auto simp: normal_def)
qed

lemma resolve_fixed:
  assumes "normal n q" and "n \<le> 2048"
  shows "ps4_shell_resolve cwd q n = Inr (Some q)"
proof -
  obtain cs where cs: "q = render cs" "list_all plain cs" "length q < n" using assms by (auto simp: normal_def)
  have "components q = cs" using components_render [OF plain_components [OF cs(2)]] cs(1) by simp
  moreover have "absolute cwd q = q" by (cases cs) (auto simp: absolute_def cs(1) render_def)
  moreover have "fits n [] cs" using fits_prefix [OF cs(2), of "[]" n] cs by auto
  moreover have "q \<noteq> []" by (simp add: cs(1) render_def split: list.split)
  then have "2 \<le> n" using cs(3) by (cases q) auto
  ultimately show ?thesis using assms cs walk_plains [OF cs(2), of "[]"] by (simp add: resolve_eq)
qed

text \<open>
  C18. Path resolution is the walk over the components: \<^verbatim>\<open>ps4_shell_resolve\<close> never touches memory outside its arrays, and
  yields the absolute path that results from taking the components of the working directory and the argument in order,
  skipping \<^verbatim>\<open>.\<close> and going up at \<^verbatim>\<open>..\<close>, or \<^verbatim>\<open>ENAMETOOLONG\<close> when a path on the way does not fit. What it yields is
  absolute, contains neither \<^verbatim>\<open>.\<close> nor \<^verbatim>\<open>..\<close>, fits into the array, and resolves to itself.
\<close>

theorem ps4_shell_resolve_correct:
  assumes "n \<le> 2048"
  shows "ps4_shell_resolve cwd p n = Inr (if 2 \<le> n \<and> length (absolute cwd p) < 2048 \<and> fits n [] (components (absolute cwd p))
       then Some (render (foldl walk [] (components (absolute cwd p)))) else None)
    \<and> (ps4_shell_resolve cwd p n = Inr (Some q) \<longrightarrow> hd q = slash \<and> length q < n \<and> list_all plain (components q)
       \<and> ps4_shell_resolve cwd' q n = Inr (Some q))"
proof (intro conjI impI)
  assume "ps4_shell_resolve cwd p n = Inr (Some q)"
  then have q: "normal n q" by (rule resolve_normal)
  then obtain cs where cs: "q = render cs" "list_all plain cs" by (auto simp: normal_def)
  show "hd q = slash" by (cases cs) (auto simp: cs(1) render_def)
  show "length q < n" using q by (simp add: normal_def)
  show "list_all plain (components q)" using components_render [OF plain_components [OF cs(2)]] cs by simp
  show "ps4_shell_resolve cwd' q n = Inr (Some q)" by (rule resolve_fixed [OF q assms])
qed (rule resolve_eq)

theorem ps4_shell_resolve_correct_witness:
  "ps4_shell_resolve (str ''/data/dropbear'') (str ''../games/./saves'') 1024 = Inr (Some (str ''/data/games/saves''))
   \<and> ps4_shell_resolve [] (str ''/data/games/saves'') 1024 = Inr (Some (str ''/data/games/saves''))"
proof -
  have "ps4_shell_resolve (str ''/data/dropbear'') (str ''../games/./saves'') 1024 = Inr (Some (str ''/data/games/saves''))"
    by code_simp
  then show ?thesis
    using ps4_shell_resolve_correct [of 1024 "str ''/data/dropbear''" "str ''../games/./saves''" "str ''/data/games/saves''" "[]"] by simp
qed

section \<open>What a command line means\<close>

text \<open>The words fit into the storage with their null bytes, and there are at most 16.\<close>

definition words_fit :: "byte list list \<Rightarrow> bool" where
  "words_fit argv \<longleftrightarrow> length argv \<le> PS4_SHELL_MAX_ARGS \<and> sum_list (map (\<lambda>w. length w + 1) argv) \<le> 2048"

fun word_ok :: "nat \<Rightarrow> word_result \<Rightarrow> bool" where
  "word_ok n (Inl e) = (e \<in> {EINVAL, E2BIG})"
| "word_ok n (Inr (w, rest, r)) = (length w + 1 + r = n)"

lemma split_word_ok: "1 \<le> remaining \<Longrightarrow> \<exists>r. split_word q inp remaining out = Inr r \<and> word_ok (length out + remaining) r"
proof (induction q inp remaining out rule: split_word.induct)
  case (1 q remaining out)
  then show ?case by (simp add: end_word_def)
next
  case (2 q ch inp remaining out)
  have put: "\<exists>r. (if remaining < 2 then Inr (Inl E2BIG) else m) = Inr r \<and> word_ok (length out + remaining) r"
    if "\<not> remaining < 2 \<Longrightarrow> \<exists>r. m = Inr r \<and> word_ok (length (out @ [c]) + (remaining - 1)) r" for m c
    using that by (cases "remaining < 2") auto
  consider (blank) "q = 0 \<and> is_blank ch" | (esc) "\<not> (q = 0 \<and> is_blank ch)" and "ch = backslash \<and> q \<noteq> squote"
    | (opens) "\<not> (q = 0 \<and> is_blank ch)" and "\<not> (ch = backslash \<and> q \<noteq> squote)" and "(ch = squote \<or> ch = dquote) \<and> q = 0"
    | (closes) "\<not> (q = 0 \<and> is_blank ch)" and "\<not> (ch = backslash \<and> q \<noteq> squote)" and "\<not> ((ch = squote \<or> ch = dquote) \<and> q = 0)" and "(ch = squote \<or> ch = dquote) \<and> q = ch"
    | (otherch) "\<not> (q = 0 \<and> is_blank ch)" and "\<not> (ch = backslash \<and> q \<noteq> squote)" and "\<not> ((ch = squote \<or> ch = dquote) \<and> q = 0)" and "\<not> ((ch = squote \<or> ch = dquote) \<and> q = ch)"
    by blast
  then show ?case
  proof cases
    case blank
    then show ?thesis using "2.prems" by (simp add: end_word_def)
  next
    case esc
    show ?thesis
    proof (cases inp)
      case Nil
      then show ?thesis unfolding split_word.simps if_not_P [OF esc(1)] if_P [OF esc(2)] by simp
    next
      case (Cons c inp')
      show ?thesis unfolding split_word.simps if_not_P [OF esc(1)] if_P [OF esc(2)] Cons list.case
        by (rule put) (use "2.IH"(1) [OF esc Cons] in simp)
    qed
  next
    case opens
    then show ?thesis unfolding split_word.simps if_not_P [OF opens(1)] if_not_P [OF opens(2)] if_P [OF opens(3)]
      using "2.IH"(2) [OF opens "2.prems"] by simp
  next
    case closes
    then show ?thesis unfolding split_word.simps if_not_P [OF closes(1)] if_not_P [OF closes(2)] if_not_P [OF closes(3)] if_P [OF closes(4)]
      using "2.IH"(3) [OF closes "2.prems"] by simp
  next
    case otherch
    show ?thesis unfolding split_word.simps if_not_P [OF otherch(1)] if_not_P [OF otherch(2)] if_not_P [OF otherch(3)] if_not_P [OF otherch(4)]
      by (rule put) (use "2.IH"(4) [OF otherch] in simp)
  qed
qed

fun args_ok :: "nat + byte list list \<Rightarrow> bool" where
  "args_ok (Inl e) = (e \<in> {EINVAL, E2BIG})"
| "args_ok (Inr argv) = words_fit argv"

lemma split_args_ok:
  "length argv \<le> 16 \<Longrightarrow> sum_list (map (\<lambda>w. length w + 1) argv) + remaining = 2048 \<Longrightarrow> \<exists>r. split_args line remaining argv = Inr r \<and> args_ok r"
proof (induction "length line" arbitrary: line remaining argv rule: less_induct)
  case less
  define inp where "inp = dropWhile is_blank line"
  show ?case
  proof (cases "inp = [] \<or> length argv = 16 \<or> remaining < 2")
    case True
    then show ?thesis using less.prems by (subst split_args.simps) (auto simp: inp_def [symmetric] words_fit_def Let_def)
  next
    case False
    obtain r where r: "split_word 0 inp remaining [] = Inr r" "word_ok remaining r" using split_word_ok [of remaining 0 inp "[]"] False by auto
    have st: "split_args line remaining argv = (case r of Inl e \<Rightarrow> Inr (Inl e)
         | Inr (word, rest, remaining) \<Rightarrow> split_args rest remaining (argv @ [word]))"
      using False r(1) by (subst split_args.simps) (simp add: inp_def [symmetric])
    show ?thesis
    proof (cases r)
      case (Inr x)
      obtain word rest rem where x: "x = (word, rest, rem)" by (metis surj_pair)
      have "length rest < length line" using split_args_less [of line remaining word rest rem] False r(1) Inr x by (simp add: inp_def)
      then show ?thesis using less.hyps [of rest "argv @ [word]" rem] less.prems False r(2) by (simp add: st Inr x)
    qed (use st r(2) in simp)
  qed
qed

lemma split_command_ok: "\<exists>r. split_command command = Inr r \<and> args_ok r"
  unfolding split_command_def by (rule split_args_ok) simp_all

text \<open>The quoting a client applies: single quotes around a word, and a quote inside it as an escaped one between two quoted parts.\<close>

definition quote_char :: "byte \<Rightarrow> byte list" where
  "quote_char c = (if c = squote then [squote, backslash, squote, squote] else [c])"

definition quote_word :: "byte list \<Rightarrow> byte list" where
  "quote_word w = squote # concat (map quote_char w) @ [squote]"

lemma split_quoted:
  "length w < remaining \<Longrightarrow> split_word squote (concat (map quote_char w) @ squote # rest) remaining out
     = split_word 0 rest (remaining - length w) (out @ w)"
proof (induction w arbitrary: remaining out)
  case (Cons c w)
  then show ?case by (cases "c = squote") (auto simp: quote_char_def)
qed simp

lemma split_quote_word:
  "length w < remaining \<Longrightarrow> split_word 0 (quote_word w @ 0x20 # rest) remaining [] = Inr (Inr (w, rest, remaining - length w - 1))"
  using split_quoted [of w remaining "0x20 # rest" "[]"] by (simp add: quote_word_def end_word_def)

lemma split_quoted_args:
  "length argv + length args \<le> 16 \<Longrightarrow> sum_list (map (\<lambda>w. length w + 1) args) < remaining \<Longrightarrow>
    split_args (concat (map (\<lambda>w. quote_word w @ [0x20]) args)) remaining argv = Inr (Inr (argv @ args))"
proof (induction args arbitrary: argv remaining)
  case Nil
  then show ?case by (subst split_args.simps) simp
next
  case (Cons w args)
  let ?l = "concat (map (\<lambda>w. quote_word w @ [0x20]) args)"
  have d: "dropWhile is_blank (quote_word w @ 0x20 # ?l) = quote_word w @ 0x20 # ?l" by (simp add: quote_word_def)
  have ne: "quote_word w @ 0x20 # ?l \<noteq> []" by simp
  have s: "split_word 0 (quote_word w @ 0x20 # ?l) remaining [] = Inr (Inr (w, ?l, remaining - length w - 1))"
    by (rule split_quote_word) (use Cons.prems in simp)
  have "split_args (quote_word w @ 0x20 # ?l) remaining argv = split_args ?l (remaining - length w - 1) (argv @ [w])"
    by (subst split_args.simps) (use Cons.prems in \<open>simp add: Let_def d s\<close>)
  then show ?case using Cons.IH [of "argv @ [w]" "remaining - length w - 1"] Cons.prems by simp
qed

text \<open>
  C19. Splitting a command line stays inside the storage for any line, and yields at most 16 words which fit into it, or one of the
  two errors; it reads back any quoted list of words: quoting arbitrary words and joining them with blanks gives a line that splits into these words.
\<close>

theorem split_command_roundtrip:
  assumes "length args \<le> 16" and "sum_list (map (\<lambda>w. length w + 1) args) < 2048"
  shows "split_command (concat (map (\<lambda>w. quote_word w @ [0x20]) args)) = Inr (Inr args)
    \<and> (\<exists>r. split_command command = Inr r \<and> args_ok r)"
  using split_quoted_args [of "[]" args 2048] assms split_command_ok [of command] by (simp add: split_command_def)

theorem split_command_roundtrip_witness:
  "split_command (concat (map (\<lambda>w. quote_word w @ [0x20]) [str ''cp'', str ''a b'', [squote, slash]])) = Inr (Inr [str ''cp'', str ''a b'', [squote, slash]])"
  using split_command_roundtrip [of "[str ''cp'', str ''a b'', [squote, slash]]" "[]"] by simp

end
