(* ===== verification/Ps4Commands.thy ===== *)
theory Ps4Commands
  imports Ps4Shell
begin

text \<open>
  The built-in commands of src/dropbear/src/ps4-shell.c and their dispatch. A command is given a writer, the writer's
  context and the file system, and returns its exit status with the new context and file system; -1 is the
  source's answer when the output cannot be written. Memory allocation succeeds.
\<close>

type_synonym 'o outcome = "(int \<times> 'o \<times> fs) res"

abbreviation finish :: "int \<Rightarrow> 'o \<times> fs \<Rightarrow> 'o outcome" where "finish status st \<equiv> Inr (status, st)"

text \<open>Resolving an argument, or reporting the error.\<close>

definition with_path :: "'o writer \<Rightarrow> byte list \<Rightarrow> ps4_shell_state \<Rightarrow> byte list \<Rightarrow> (byte list \<Rightarrow> 'o \<times> fs \<Rightarrow> 'o outcome) \<Rightarrow> 'o \<times> fs \<Rightarrow> 'o outcome" where
  "with_path w command state name k = (\<lambda>(ctx, f). rbind (resolve_arg state name f) (\<lambda>(r, f). case r of
       None \<Rightarrow> Inr (shell_error w command name (fs_errno f) (ctx, f))
     | Some p \<Rightarrow> k p (ctx, f)))"

text \<open>The common way of opening the file an argument names.\<close>

definition with_file :: "'o writer \<Rightarrow> byte list \<Rightarrow> ps4_shell_state \<Rightarrow> byte list \<Rightarrow> (nat \<Rightarrow> 'o \<times> fs \<Rightarrow> 'o outcome) \<Rightarrow> 'o \<times> fs \<Rightarrow> 'o outcome" where
  "with_file w command state name k = with_path w command state name (\<lambda>p (ctx, f).
     case sys_open_read p f of
       (None, f) \<Rightarrow> Inr (shell_error w command name (fs_errno f) (ctx, f))
     | (Some n, f) \<Rightarrow> k n (ctx, f))"

section \<open>Reading a file\<close>

text \<open>
  Bytes that are stored from the beginning of an array of a given size, which must not end before them. Paths and messages are put into their arrays by \<^verbatim>\<open>snprintf\<close>, which
  stops at the end of the array.
\<close>

definition in_array :: "nat \<Rightarrow> byte list \<Rightarrow> 'a res \<Rightarrow> 'a res" where
  "in_array room bs r = (if length bs \<le> room then r else Inl Mem_fault)"

lemma in_array_cong [fundef_cong]:
  "room = room' \<Longrightarrow> bs = bs' \<Longrightarrow> (length bs' \<le> room' \<Longrightarrow> r = r') \<Longrightarrow> in_array room bs r = in_array room' bs' r'"
  by (simp add: in_array_def)

function cat_loop :: "'o writer \<Rightarrow> byte list \<Rightarrow> nat \<Rightarrow> nat \<Rightarrow> 'o \<times> fs \<Rightarrow> 'o outcome" where
  "cat_loop w name n off (ctx, f) = (case sys_read n off 16384 f of
       (None, f) \<Rightarrow> Inr (shell_error w (str ''cat'') name (fs_errno f) (ctx, f))
     | (Some bs, f) \<Rightarrow> in_array 16384 bs (if bs = [] then finish 0 (ctx, f)
         else (case write_all w bs ctx of (ok, ctx) \<Rightarrow>
           if \<not> ok then finish (- 1) (ctx, f) else cat_loop w name n (off + length bs) (ctx, f))))"
  by pat_completeness auto

termination
  by (relation "measure (\<lambda>(w, name, n, off, ctx, f). length (bytes_of (in_node (ino n f))) - off)") (auto dest: sys_read_progress [OF sym])

declare cat_loop.simps [simp del]

definition command_cat :: "'o writer \<Rightarrow> ps4_shell_state \<Rightarrow> byte list \<Rightarrow> 'o \<times> fs \<Rightarrow> 'o outcome" where
  "command_cat w state name = with_file w (str ''cat'') state name (\<lambda>n st. cat_loop w name n 0 st)"

text \<open>
  \<^verbatim>\<open>head\<close>: the scan of one buffer counts lines down; the value is how much of it is written and how many lines are left.
  A read that fails ends the loop like the end of the file.
\<close>

fun head_scan :: "byte list \<Rightarrow> nat \<Rightarrow> nat \<times> nat" where
  "head_scan [] l = (0, l)"
| "head_scan (b # bs) l = (if b = 0x0a \<and> l - 1 = 0 then (1, 0)
     else case head_scan bs (if b = 0x0a then l - 1 else l) of (n, l) \<Rightarrow> (Suc n, l))"

function head_loop :: "'o writer \<Rightarrow> nat \<Rightarrow> nat \<Rightarrow> nat \<Rightarrow> 'o \<times> fs \<Rightarrow> 'o outcome" where
  "head_loop w n off l (ctx, f) = (if l = 0 then finish 0 (ctx, f) else case sys_read n off 4096 f of
       (None, f) \<Rightarrow> finish 0 (ctx, f)
     | (Some bs, f) \<Rightarrow> in_array 4096 bs (if bs = [] then finish 0 (ctx, f)
         else (case head_scan bs l of (len, l) \<Rightarrow> (case write_all w (take len bs) ctx of (ok, ctx) \<Rightarrow>
           if \<not> ok then finish (- 1) (ctx, f) else head_loop w n (off + length bs) l (ctx, f)))))"
  by pat_completeness auto

termination
  by (relation "measure (\<lambda>(w, n, off, l, ctx, f). length (bytes_of (in_node (ino n f))) - off)") (auto dest: sys_read_progress [OF sym])

declare head_loop.simps [simp del]

definition command_head :: "'o writer \<Rightarrow> ps4_shell_state \<Rightarrow> byte list \<Rightarrow> nat \<Rightarrow> 'o \<times> fs \<Rightarrow> 'o outcome" where
  "command_head w state name l = with_file w (str ''head'') state name (\<lambda>n st. head_loop w n 0 l st)"

text \<open>
  \<^verbatim>\<open>tail\<close> reads the file at once and walks back over it; \<^verbatim>\<open>lines\<close> is a signed counter. The value is where the
  output starts, and the counter.
\<close>

fun tail_scan :: "byte list \<Rightarrow> nat \<Rightarrow> int \<Rightarrow> nat \<times> int" where
  "tail_scan d 0 l = (0, l)"
| "tail_scan d (Suc i) l = (if d ! i = 0x0a \<and> Suc i \<noteq> length d
     then (if l - 1 = 0 then (Suc i, 0) else tail_scan d i (l - 1)) else tail_scan d i l)"

definition st_size :: "inode \<Rightarrow> nat" where
  "st_size i = length (bytes_of (in_node i))"

definition command_tail :: "'o writer \<Rightarrow> ps4_shell_state \<Rightarrow> byte list \<Rightarrow> nat \<Rightarrow> 'o \<times> fs \<Rightarrow> 'o outcome" where
  "command_tail w state name l = with_file w (str ''tail'') state name (\<lambda>n (ctx, f). case sys_fstat n f of
       (None, f) \<Rightarrow> Inr (shell_error w (str ''tail'') name (fs_errno f) (ctx, f))
     | (Some st, f) \<Rightarrow> if st_size st > 16 * 1024 * 1024 then Inr (shell_error w (str ''tail'') name EFBIG (ctx, f))
         else (case sys_read n 0 (st_size st) f of
           (None, f) \<Rightarrow> Inr (shell_error w (str ''tail'') name (fs_errno f) (ctx, f))
         | (Some d, f) \<Rightarrow> in_array (st_size st + 1) d (case tail_scan d (length d) (int l) of (start, l) \<Rightarrow>
             (case write_all w (drop (if l > 0 then 0 else start) d) ctx of (ok, ctx) \<Rightarrow> finish (if ok then 0 else - 1) (ctx, f)))))"

definition parse_line_count :: "byte list list \<Rightarrow> (nat \<times> byte list) option" where
  "parse_line_count args = (case args of
       [_, name] \<Rightarrow> Some (10, name)
     | [_, opt, count, name] \<Rightarrow> if opt = str ''-n'' then (case strtol 10 count of (v, rest) \<Rightarrow>
           if rest = [] \<and> v \<ge> 0 \<and> v \<le> 100000 then Some (nat v, name) else None) else None
     | _ \<Rightarrow> None)"

text \<open>
  \<^verbatim>\<open>grep\<close> collects a line in an array of 65536 bytes, with a null byte behind it when it is complete; \<^verbatim>\<open>strstr\<close> sees it up to the first null byte.
\<close>

definition strstr :: "byte list \<Rightarrow> byte list \<Rightarrow> bool" where
  "strstr hay needle = list_ex (\<lambda>s. prefix needle s) (suffixes (cstr hay))"

function grep_loop :: "'o writer \<Rightarrow> byte list \<Rightarrow> byte list \<Rightarrow> nat \<Rightarrow> nat \<Rightarrow> byte list \<Rightarrow> bool \<Rightarrow> 'o \<times> fs \<Rightarrow> 'o outcome" where
  "grep_loop w name needle n off line matched (ctx, f) = (case sys_read n off 1 f of
       (None, f) \<Rightarrow> Inr (shell_error w (str ''grep'') name (fs_errno f) (ctx, f))
     | (Some bs, f) \<Rightarrow> in_array 1 bs (if bs = [] then
           (if line \<noteq> [] then in_array 65536 (line @ [0]) (if strstr line needle then
              (case write_all w line ctx of (ok, ctx) \<Rightarrow> if \<not> ok then finish (- 1) (ctx, f)
               else (case write_all w [0x0a] ctx of (ok, ctx) \<Rightarrow> if \<not> ok then finish (- 1) (ctx, f) else finish 0 (ctx, f)))
            else finish (if matched then 0 else 1) (ctx, f)) else finish (if matched then 0 else 1) (ctx, f))
         else if length line = 65535 then Inr (shell_error w (str ''grep'') name EOVERFLOW (ctx, f))
         else let line = line @ bs in in_array 65536 line (
           if bs = [0x0a] then in_array 65536 (line @ [0]) (
             if strstr line needle then (case write_all w line ctx of (ok, ctx) \<Rightarrow> if \<not> ok then finish (- 1) (ctx, f)
                else grep_loop w name needle n (off + length bs) [] True (ctx, f))
              else grep_loop w name needle n (off + length bs) [] matched (ctx, f))
           else grep_loop w name needle n (off + length bs) line matched (ctx, f))))"
  by pat_completeness auto

termination
  by (relation "measure (\<lambda>(w, name, needle, n, off, line, matched, ctx, f). length (bytes_of (in_node (ino n f))) - off)")
    (auto dest: sys_read_progress [OF sym])

declare grep_loop.simps [simp del]

definition command_grep :: "'o writer \<Rightarrow> ps4_shell_state \<Rightarrow> byte list \<Rightarrow> byte list \<Rightarrow> 'o \<times> fs \<Rightarrow> 'o outcome" where
  "command_grep w state needle name = with_file w (str ''grep'') state name (\<lambda>n st. grep_loop w name needle n 0 [] False st)"

text \<open>\<^verbatim>\<open>hexdump\<close> writes up to \<open>limit\<close> bytes, 16 to a line, and tries again when a read is interrupted.\<close>

fun hex_bytes :: "'o writer \<Rightarrow> byte list \<Rightarrow> 'o \<Rightarrow> bool \<times> 'o" where
  "hex_bytes w [] ctx = (True, ctx)"
| "hex_bytes w (b # bs) ctx = (case write_fmt w (pad 0x30 2 (digits 16 (unat b)) @ (if bs = [] then [] else [0x20])) ctx of
     (ok, ctx) \<Rightarrow> if \<not> ok then (False, ctx) else hex_bytes w bs ctx)"

function hexdump_loop :: "'o writer \<Rightarrow> byte list \<Rightarrow> nat \<Rightarrow> nat \<Rightarrow> nat \<Rightarrow> 'o \<times> fs \<Rightarrow> 'o outcome" where
  "hexdump_loop w name n limit off (ctx, f) = (if off \<ge> limit then finish 0 (ctx, f) else
     case sys_read n off (min (limit - off) 16) f of
       (None, g) \<Rightarrow> if fs_errno g = EINTR then hexdump_loop w name n limit off (ctx, g)
           else Inr (shell_error w (str ''hexdump'') name (fs_errno g) (ctx, g))
     | (Some bs, g) \<Rightarrow> in_array 16 bs (if bs = [] then finish 0 (ctx, g)
         else (case write_fmt w (pad 0x30 8 (digits 16 off) @ str ''  '') ctx of (ok, ctx) \<Rightarrow> if \<not> ok then finish (- 1) (ctx, g)
         else (case hex_bytes w bs ctx of (ok, ctx) \<Rightarrow> if \<not> ok then finish (- 1) (ctx, g)
         else (case write_all w [0x0a] ctx of (ok, ctx) \<Rightarrow> if \<not> ok then finish (- 1) (ctx, g)
         else hexdump_loop w name n limit (off + length bs) (ctx, g))))))"
  by pat_completeness auto

termination
proof (relation "measures [\<lambda>(w, name, n, limit, off, ctx, f). length (bytes_of (in_node (ino n f))) - off,
    \<lambda>(w, name, n, limit, off, ctx, f). length (fs_faults f)]", goal_cases)
  case 2
  then show ?case using sys_read_again [OF sym] by auto
qed (auto dest: sys_read_progress [OF sym])

declare hexdump_loop.simps [simp del]

definition command_hexdump :: "'o writer \<Rightarrow> ps4_shell_state \<Rightarrow> byte list \<Rightarrow> nat \<Rightarrow> 'o \<times> fs \<Rightarrow> 'o outcome" where
  "command_hexdump w state name limit = with_file w (str ''hexdump'') state name (\<lambda>n st. hexdump_loop w name n limit 0 st)"

section \<open>Directories\<close>

text \<open>The options of \<^verbatim>\<open>ls\<close>: the target, whether hidden names are shown and whether the format is long, or an option that is not known.\<close>

fun ls_args :: "byte list list \<Rightarrow> byte list \<times> bool \<times> bool \<Rightarrow> byte list + (byte list \<times> bool \<times> bool)" where
  "ls_args [] opts = Inr opts"
| "ls_args (a # as) (target, hidden, long) = (case a of
       c # cs \<Rightarrow> if c \<noteq> 0x2d then ls_args as (a, hidden, long)
         else if \<not> set cs \<subseteq> set (str ''al'') then Inl a
         else ls_args as (target, hidden \<or> 0x61 \<in> set cs, long \<or> 0x6c \<in> set cs)
     | [] \<Rightarrow> ls_args as (a, hidden, long))"

definition join :: "path \<Rightarrow> byte list \<Rightarrow> path" where
  "join p name = p @ (if p = [slash] then [] else [slash]) @ name"

definition dir_mark :: "bool \<Rightarrow> byte list" where
  "dir_mark d = (if d then [slash] else [])"

definition ls_line :: "bool \<Rightarrow> bool \<Rightarrow> inode \<Rightarrow> byte list \<Rightarrow> byte list" where
  "ls_line long d st name = (if long
     then (if d then 0x64 else 0x2d) # pad 0x30 4 (digits 8 (in_mode st)) @ [0x20] @ pad 0x20 10 (digits 10 (st_size st)) @ [0x20] @ name @ dir_mark d @ [0x0a]
     else name @ dir_mark d @ [0x0a])"

fun ls_items :: "'o writer \<Rightarrow> path \<Rightarrow> bool \<Rightarrow> byte list list \<Rightarrow> 'o \<times> fs \<Rightarrow> int \<times> 'o \<times> fs" where
  "ls_items w p long [] (ctx, f) = (0, ctx, f)"
| "ls_items w p long (name # names) (ctx, f) = (let full = join p name in
     if length full \<ge> PS4_SHELL_PATH_MAX then (- 1, ctx, f)
     else case sys_stat full f of (r, f) \<Rightarrow>
       let d = (case r of None \<Rightarrow> False | Some st \<Rightarrow> in_node st = Directory) in
       case (if long then sys_stat full f else (None, f)) of (r, f) \<Rightarrow>
       case write_fmt w (case r of None \<Rightarrow> name @ dir_mark d @ [0x0a] | Some st \<Rightarrow> ls_line True d st name) ctx of (ok, ctx) \<Rightarrow>
       if \<not> ok then (- 1, ctx, f) else ls_items w p long names (ctx, f))"

definition visible :: "bool \<Rightarrow> byte list \<Rightarrow> bool" where
  "visible hidden name \<longleftrightarrow> hidden \<or> name = [] \<or> hd name \<noteq> dot"

text \<open>The loop that reads the directory into an array, which is enlarged when it is full.\<close>

fun ls_collect :: "bool \<Rightarrow> byte list list \<Rightarrow> nat \<Rightarrow> byte list list \<Rightarrow> byte list list res" where
  "ls_collect hidden [] capacity entries = Inr entries"
| "ls_collect hidden (name # names) capacity entries = (if \<not> visible hidden name then ls_collect hidden names capacity entries
     else let capacity = (if length entries = capacity then if capacity = 0 then 32 else capacity * 2 else capacity) in
       if length entries < capacity then ls_collect hidden names capacity (entries @ [name]) else Inl Mem_fault)"

text \<open>\<^verbatim>\<open>qsort\<close> with \<^verbatim>\<open>strcmp\<close> sorts the names as lists of unsigned bytes.\<close>

definition command_ls :: "'o writer \<Rightarrow> ps4_shell_state \<Rightarrow> byte list list \<Rightarrow> 'o \<times> fs \<Rightarrow> 'o outcome" where
  "command_ls w state args = (\<lambda>(ctx, f). case ls_args (tl args) ([dot], False, False) of
       Inl a \<Rightarrow> (case write_fmt w (str ''ls: unsupported option: '' @ a @ [0x0a]) ctx of (ok, ctx) \<Rightarrow> finish (if ok then 1 else - 1) (ctx, f))
     | Inr (target, hidden, long) \<Rightarrow> with_path w (str ''ls'') state target (\<lambda>p (ctx, f). case sys_opendir p f of
           (None, f) \<Rightarrow> Inr (shell_error w (str ''ls'') target (fs_errno f) (ctx, f))
         | (Some names, f) \<Rightarrow> rbind (ls_collect hidden names 0 []) (\<lambda>entries. Inr (ls_items w p long (sort entries) (ctx, f)))) (ctx, f))"

text \<open>\<^verbatim>\<open>find\<close> descends at most 32 levels; the argument counts them down.\<close>

fun command_find_path :: "'o writer \<Rightarrow> nat \<Rightarrow> path \<Rightarrow> 'o \<times> fs \<Rightarrow> int \<times> 'o \<times> fs"
  and find_entries :: "'o writer \<Rightarrow> nat \<Rightarrow> path \<Rightarrow> byte list list \<Rightarrow> 'o \<times> fs \<Rightarrow> int \<times> 'o \<times> fs" where
  "command_find_path w k p (ctx, f) = (case sys_stat p f of
       (None, f) \<Rightarrow> shell_error w (str ''find'') p (fs_errno f) (ctx, f)
     | (Some st, f) \<Rightarrow> (case write_fmt w (p @ dir_mark (in_node st = Directory) @ [0x0a]) ctx of (ok, ctx) \<Rightarrow>
         if \<not> ok then (- 1, ctx, f)
         else case k of 0 \<Rightarrow> (0, ctx, f)
         | Suc k \<Rightarrow> if in_node st \<noteq> Directory then (0, ctx, f)
         else (case sys_opendir p f of
           (None, f) \<Rightarrow> shell_error w (str ''find'') p (fs_errno f) (ctx, f)
         | (Some names, f) \<Rightarrow> find_entries w k p names (ctx, f))))"
| "find_entries w k p [] st = (0, st)"
| "find_entries w k p (name # names) st =
     (if name = [dot] \<or> name = [dot, dot] then find_entries w k p names st
      else if length (join p name) \<ge> PS4_SHELL_PATH_MAX then (- 1, st)
      else case command_find_path w k (join p name) st of (result, st) \<Rightarrow>
        if result \<noteq> 0 then (result, st) else find_entries w k p names st)"

section \<open>Copying\<close>

lemma sys_write_same:
  assumes "sys_write n off bs f = (r, g)"
  shows "fs_faults g = tl (fs_faults f)" and "fs_names g = fs_names f" and "r = None \<Longrightarrow> fs_faults f \<noteq> []"
    and "r = Some k \<Longrightarrow> k \<le> length bs \<and> (bs \<noteq> [] \<longrightarrow> 0 < k)"
  using assms call_cases [of "\<lambda>f. case io_size (length bs) f of (k, f) \<Rightarrow>
     (Some k, case in_node (ino n f) of
        Reg old \<Rightarrow> put_file n ((ino n f)\<lparr>in_node := Reg (take off old @ take k bs @ drop (off + k) old), in_mtime := fs_now f\<rparr>) f
      | Directory \<Rightarrow> f | Other \<Rightarrow> f)" f]
  by (auto simp: sys_write_def fail_def seterr_def put_file_def split: prod.splits node.splits dest!: io_size_le)

lemma sys_write_again: "sys_write n off bs f = (None, g) \<Longrightarrow> length (fs_faults g) < length (fs_faults f)"
  using sys_write_same(1,3) [of n off bs f None g] by (cases "fs_faults f") auto

text \<open>The inner loop writes a buffer, again after an interruption; the value is whether it succeeded.\<close>

function copy_out :: "nat \<Rightarrow> nat \<Rightarrow> byte list \<Rightarrow> fs \<Rightarrow> bool \<times> fs" where
  "copy_out n off bs f = (if bs = [] then (True, f) else case sys_write n off bs f of
       (None, g) \<Rightarrow> if fs_errno g = EINTR then copy_out n off bs g else (False, g)
     | (Some k, g) \<Rightarrow> if k = 0 then (False, g) else copy_out n (off + k) (drop k bs) g)"
  by pat_completeness auto

termination
proof (relation "measures [\<lambda>(n, off, bs, f). length bs, \<lambda>(n, off, bs, f). length (fs_faults f)]", goal_cases)
  case 2
  then show ?case using sys_write_again [OF sym] by auto
qed auto

declare copy_out.simps [simp del]

text \<open>
  The outer loop. \<open>fuel\<close> bounds the number of rounds, since the two descriptors could stand for one file that grows
  while it is read; running out of it is \<open>Diverge\<close>. The value is whether the loop ended without an error, and
  whether the last read succeeded.
\<close>

fun copy_file_loop :: "nat \<Rightarrow> nat \<Rightarrow> nat \<Rightarrow> nat \<Rightarrow> fs \<Rightarrow> ((bool \<times> bool) \<times> fs) res" where
  "copy_file_loop 0 i out off f = Inl Diverge"
| "copy_file_loop (Suc fuel) i out off f = (case sys_read i off 16384 f of
       (None, f) \<Rightarrow> Inr ((True, False), f)
     | (Some bs, f) \<Rightarrow> in_array 16384 bs (if bs = [] then Inr ((True, True), f)
         else (case copy_out out off bs f of (ok, f) \<Rightarrow>
           if ok then copy_file_loop fuel i out (off + length bs) f else Inr ((False, True), f))))"

definition copy_file :: "path \<Rightarrow> path \<Rightarrow> fs \<Rightarrow> (bool \<times> fs) res" where
  "copy_file source destination f = (case sys_open_read source f of
       (None, f) \<Rightarrow> Inr (False, seterr EINVAL f)
     | (Some i, f) \<Rightarrow> (case sys_fstat i f of
         (None, f) \<Rightarrow> Inr (False, seterr EINVAL f)
       | (Some st, f) \<Rightarrow> (case in_node st of
           Reg _ \<Rightarrow> (case sys_open_write destination True False (in_mode st mod 512) f of
               (None, f) \<Rightarrow> Inr (False, f)
             | (Some out, f) \<Rightarrow> rbind (copy_file_loop (Suc (st_size (ino i f))) i out 0 f) (\<lambda>((wrote, got), f).
                 if \<not> wrote then Inr (False, f)
                 else case sys_close f of (None, f) \<Rightarrow> Inr (False, f)
                 | (Some _, f) \<Rightarrow> (case sys_close f of (None, f) \<Rightarrow> Inr (False, f) | (Some _, f) \<Rightarrow> Inr (got, f))))
         | Directory \<Rightarrow> Inr (False, seterr EINVAL f)
         | Other \<Rightarrow> Inr (False, seterr EINVAL f))))"

section \<open>Dispatch\<close>

text \<open>
  \<^verbatim>\<open>ps4_shell_execute\<close>, one case per \<^verbatim>\<open>if\<close> of the source, in its order; a command whose number of arguments does not fit falls
  through to the end. The value carries the shell's state, which \<^verbatim>\<open>cd\<close> changes.
\<close>

definition simple :: "'o writer \<Rightarrow> byte list \<Rightarrow> byte list \<Rightarrow> bool \<times> fs \<Rightarrow> 'o \<Rightarrow> 'o outcome" where
  "simple w command name r ctx = (case r of (ok, f) \<Rightarrow> if ok then finish 0 (ctx, f)
     else Inr (shell_error w command name (fs_errno f) (ctx, f)))"

definition path_call :: "'o writer \<Rightarrow> byte list \<Rightarrow> ps4_shell_state \<Rightarrow> byte list \<Rightarrow> (path \<Rightarrow> fs \<Rightarrow> unit option \<times> fs) \<Rightarrow> 'o \<times> fs \<Rightarrow> 'o outcome" where
  "path_call w command state name k = with_path w command state name (\<lambda>p (ctx, f). case k p f of (r, f) \<Rightarrow> simple w command name (r \<noteq> None, f) ctx)"

definition command_cd :: "'o writer \<Rightarrow> ps4_shell_state \<Rightarrow> byte list \<Rightarrow> 'o \<times> fs \<Rightarrow> (int \<times> ps4_shell_state \<times> 'o \<times> fs) res" where
  "command_cd w state name = (\<lambda>(ctx, f). rbind (resolve_arg state name f) (\<lambda>(r, f).
     let report = (\<lambda>e f. case shell_error w (str ''cd'') name e (ctx, f) of (i, st) \<Rightarrow> Inr (i, state, st)) in
     case r of None \<Rightarrow> report (fs_errno f) f
     | Some p \<Rightarrow> (case sys_stat p f of (None, f) \<Rightarrow> report (fs_errno f) f
       | (Some st, f) \<Rightarrow> if in_node st \<noteq> Directory then report ENOTDIR f
           else Inr (0, state\<lparr>sh_cwd := take (PS4_SHELL_PATH_MAX - 1) p\<rparr>, ctx, f))))"

definition command_touch :: "'o writer \<Rightarrow> ps4_shell_state \<Rightarrow> byte list \<Rightarrow> 'o \<times> fs \<Rightarrow> 'o outcome" where
  "command_touch w state name = path_call w (str ''touch'') state name (\<lambda>p f. case sys_open_write p False False 420 f of
     (None, f) \<Rightarrow> (None, f) | (Some _, f) \<Rightarrow> sys_close f)"

text \<open>The root is never removed; the error number is then the one an earlier call left.\<close>

definition command_rm :: "'o writer \<Rightarrow> ps4_shell_state \<Rightarrow> byte list \<Rightarrow> 'o \<times> fs \<Rightarrow> 'o outcome" where
  "command_rm w state name = (\<lambda>(ctx, f). rbind (resolve_arg state name f) (\<lambda>(r, f).
     case (case r of None \<Rightarrow> (None, f) | Some p \<Rightarrow> if p = [slash] then (None, f) else sys_unlink p f) of (r, f) \<Rightarrow>
     if r \<noteq> None then finish 0 (ctx, f)
     else Inr (shell_error w (str ''rm'') name (if fs_errno f = 0 then EPERM else fs_errno f) (ctx, f))))"

definition command_cp_mv :: "'o writer \<Rightarrow> ps4_shell_state \<Rightarrow> byte list \<Rightarrow> byte list \<Rightarrow> byte list \<Rightarrow> 'o \<times> fs \<Rightarrow> 'o outcome" where
  "command_cp_mv w state command name1 name2 = (\<lambda>(ctx, f). rbind (resolve_arg state name1 f) (\<lambda>(r1, f). case r1 of
       None \<Rightarrow> Inr (shell_error w command name1 (fs_errno f) (ctx, f))
     | Some p1 \<Rightarrow> rbind (resolve_arg state name2 f) (\<lambda>(r2, f). case r2 of
         None \<Rightarrow> Inr (shell_error w command name1 (fs_errno f) (ctx, f))
       | Some p2 \<Rightarrow> rbind (if command = str ''cp'' then copy_file p1 p2 f
             else case sys_rename p1 p2 f of (r, f) \<Rightarrow> Inr (r \<noteq> None, f)) (\<lambda>r. simple w command name1 r ctx))))"

definition command_chmod :: "'o writer \<Rightarrow> ps4_shell_state \<Rightarrow> byte list \<Rightarrow> byte list \<Rightarrow> 'o \<times> fs \<Rightarrow> 'o outcome" where
  "command_chmod w state mode_text name = (\<lambda>(ctx, f). case strtoul 8 mode_text of (mode, rest, erange) \<Rightarrow>
     let f = (if erange then seterr ERANGE f else f);
         report = (\<lambda>f. Inr (shell_error w (str ''chmod'') name (if fs_errno f = 0 then EINVAL else fs_errno f) (ctx, f))) in
     if rest \<noteq> [] \<or> mode > 4095 then report f
     else rbind (resolve_arg state name f) (\<lambda>(r, f). case r of None \<Rightarrow> report f
       | Some p \<Rightarrow> (case sys_chmod p mode f of (None, f) \<Rightarrow> report f | (Some _, f) \<Rightarrow> finish 0 (ctx, f))))"

definition node_kind :: "node \<Rightarrow> byte list" where
  "node_kind nd = (case nd of Directory \<Rightarrow> str ''directory'' | Reg _ \<Rightarrow> str ''file'' | Other \<Rightarrow> str ''other'')"

definition command_stat :: "'o writer \<Rightarrow> ps4_shell_state \<Rightarrow> byte list \<Rightarrow> 'o \<times> fs \<Rightarrow> 'o outcome" where
  "command_stat w state name = with_path w (str ''stat'') state name (\<lambda>p (ctx, f). case sys_stat p f of
       (None, f) \<Rightarrow> Inr (shell_error w (str ''stat'') name (fs_errno f) (ctx, f))
     | (Some st, f) \<Rightarrow> (case write_fmt w (str ''path: '' @ p @ [0x0a] @ str ''type: '' @ node_kind (in_node st) @ [0x0a]
           @ str ''mode: '' @ pad 0x30 4 (digits 8 (in_mode st)) @ [0x0a] @ str ''room: '' @ digits 10 (st_size st) @ [0x0a]
           @ str ''mtime: '' @ print_int (in_mtime st) @ [0x0a]) ctx of (ok, ctx) \<Rightarrow> finish (if ok then 0 else - 1) (ctx, f)))"

definition invalid_command :: "'o writer \<Rightarrow> byte list \<Rightarrow> 'o \<times> fs \<Rightarrow> 'o outcome" where
  "invalid_command w name = (\<lambda>(ctx, f). case write_fmt w (name @ str '': command not found or invalid arguments'' @ [0x0a]) ctx of
     (ok, ctx) \<Rightarrow> finish (if ok then 127 else - 1) (ctx, f))"

text \<open>The limit of \<^verbatim>\<open>hexdump\<close> and its file.\<close>

definition hexdump_args :: "byte list list \<Rightarrow> (nat \<times> byte list) option" where
  "hexdump_args args = (case args of
       [_, name] \<Rightarrow> Some (2 ^ 64 - 1, name)
     | [_, opt, count, name] \<Rightarrow> if opt \<noteq> str ''-n'' then None else (case strtoul 10 count of (v, rest, _) \<Rightarrow> if rest \<noteq> [] then None else Some (v, name))
     | _ \<Rightarrow> None)"

definition run_command :: "'o writer \<Rightarrow> ps4_shell_state \<Rightarrow> byte list list \<Rightarrow> 'o \<times> fs \<Rightarrow> 'o outcome" where
  "run_command w state argv st = (let cmd = hd argv; argc = length argv in
     if cmd = str ''pwd'' \<and> argc = 1 then
       (case st of (ctx, f) \<Rightarrow> case write_fmt w (sh_cwd state @ [0x0a]) ctx of (ok, ctx) \<Rightarrow> finish (if ok then 0 else - 1) (ctx, f))
     else if cmd = str ''ls'' then command_ls w state argv st
     else if cmd = str ''cat'' \<and> argc = 2 then command_cat w state (argv ! 1) st
     else if cmd = str ''head'' then (case parse_line_count argv of None \<Rightarrow> invalid_command w cmd st | Some (l, name) \<Rightarrow> command_head w state name l st)
     else if cmd = str ''tail'' then (case parse_line_count argv of None \<Rightarrow> invalid_command w cmd st | Some (l, name) \<Rightarrow> command_tail w state name l st)
     else if cmd = str ''mkdir'' \<and> argc = 2 then path_call w cmd state (argv ! 1) (\<lambda>p. sys_mkdir p 493) st
     else if cmd = str ''rmdir'' \<and> argc = 2 then path_call w cmd state (argv ! 1) sys_rmdir st
     else if cmd = str ''touch'' \<and> argc = 2 then command_touch w state (argv ! 1) st
     else if cmd = str ''rm'' \<and> argc = 2 then command_rm w state (argv ! 1) st
     else if (cmd = str ''cp'' \<or> cmd = str ''mv'') \<and> argc = 3 then command_cp_mv w state cmd (argv ! 1) (argv ! 2) st
     else if cmd = str ''chmod'' \<and> argc = 3 then command_chmod w state (argv ! 1) (argv ! 2) st
     else if cmd = str ''grep'' \<and> argc = 3 then command_grep w state (argv ! 1) (argv ! 2) st
     else if cmd = str ''hexdump'' then (case hexdump_args argv of None \<Rightarrow> invalid_command w cmd st | Some (limit, name) \<Rightarrow> command_hexdump w state name limit st)
     else if cmd = str ''find'' \<and> argc \<le> 2 then
       (let name = (if argc = 2 then argv ! 1 else [dot]) in with_path w cmd state name (\<lambda>p st. Inr (command_find_path w 32 p st)) st)
     else if cmd = str ''stat'' \<and> argc = 2 then command_stat w state (argv ! 1) st
     else invalid_command w cmd st)"

definition ps4_shell_execute :: "'o writer \<Rightarrow> ps4_shell_state \<Rightarrow> byte list \<Rightarrow> 'o \<times> fs \<Rightarrow> (int \<times> ps4_shell_state \<times> 'o \<times> fs) res" where
  "ps4_shell_execute w state command = (\<lambda>(ctx, f). rbind (split_command command) (\<lambda>r.
     let keep = (\<lambda>m. rbind m (\<lambda>(i, st). Inr (i, state, st))) in
     case r of Inl e \<Rightarrow> keep (Inr (shell_error w (str ''shell'') command e (ctx, seterr e f)))
     | Inr argv \<Rightarrow> if argv = [] then Inr (0, state, ctx, f)
         else if hd argv = str ''cd'' \<and> length argv \<le> 2
         then command_cd w state (if length argv = 1 then sh_home state else argv ! 1) (ctx, f)
         else keep (run_command w state argv (ctx, f))))"

section \<open>Every command ends\<close>

abbreviation total :: "('a \<Rightarrow> bool) \<Rightarrow> 'a res \<Rightarrow> bool" where
  "total \<equiv> res_sat (\<lambda>_. False)"

lemma resolve_arg_cases:
  "\<exists>r g. resolve_arg state arg f = Inr (r, g) \<and> (\<forall>p. r = Some p \<longrightarrow> normal PS4_SHELL_PATH_MAX p \<and> g = f)
     \<and> fs_inodes g = fs_inodes f \<and> fs_names g = fs_names f"
proof -
  obtain r where r: "ps4_shell_resolve (sh_cwd state) arg PS4_SHELL_PATH_MAX = Inr r" by (simp add: resolve_eq)
  then show ?thesis using resolve_normal [of "sh_cwd state" arg PS4_SHELL_PATH_MAX]
    by (cases r) (auto simp: resolve_arg_def fail_def seterr_def)
qed

lemma with_path_total:
  "(\<And>p st. total (\<lambda>_. True) (k p st)) \<Longrightarrow> total (\<lambda>_. True) (with_path w command state name k st)"
  using resolve_arg_cases [of state name "snd st"] by (cases st) (auto simp: with_path_def split: option.split)

lemma with_file_total:
  "(\<And>n st. total (\<lambda>_. True) (k n st)) \<Longrightarrow> total (\<lambda>_. True) (with_file w command state name k st)"
  unfolding with_file_def by (rule with_path_total) (auto split: prod.split option.split)

lemma path_call_total: "total (\<lambda>_. True) (path_call w command state name k st)"
  unfolding path_call_def by (rule with_path_total) (auto simp: simple_def split: prod.split)

lemma in_array_total [simp]: "total P (in_array room bs r) \<longleftrightarrow> length bs \<le> room \<and> total P r"
  by (simp add: in_array_def)

lemma in_array_fits [simp]: "length bs \<le> room \<Longrightarrow> in_array room bs r = r"
  by (simp add: in_array_def)

lemma sys_read_fits: "sys_read n off len f = (Some bs, g) \<Longrightarrow> length bs \<le> len"
  using call_cases [of "\<lambda>f. if in_node (ino n f) = Directory then fail EISDIR f
     else case io_size len f of (k, f) \<Rightarrow> (Some (take k (drop off (bytes_of (in_node (ino n f))))), f)" f]
  by (auto simp: sys_read_def fail_def split: prod.splits if_splits dest!: io_size_le)

lemma cat_loop_total: "total (\<lambda>_. True) (cat_loop w name n off st)"
proof (induction w name n off st rule: cat_loop.induct)
  case (1 w name n off ctx f)
  have "length bs \<le> 16384" if "sys_read n off 16384 f = (Some bs, g)" for bs g using sys_read_fits [OF that] .
  then show ?case by (subst cat_loop.simps) (use 1 in \<open>auto split: prod.split option.split\<close>)
qed

lemma head_loop_total: "total (\<lambda>_. True) (head_loop w n off l st)"
proof (induction w n off l st rule: head_loop.induct)
  case (1 w n off l ctx f)
  have "length bs \<le> 4096" if "sys_read n off 4096 f = (Some bs, g)" for bs g using sys_read_fits [OF that] .
  then show ?case by (subst head_loop.simps) (use 1 in \<open>auto split: prod.split option.split\<close>)
qed

lemma grep_loop_total: "length line \<le> 65535 \<Longrightarrow> total (\<lambda>_. True) (grep_loop w name needle n off line matched (ctx, f))"
proof (induction "length (bytes_of (in_node (ino n f))) - off" arbitrary: off line matched ctx f rule: less_induct)
  case less
  obtain r g where r: "sys_read n off 1 f = (r, g)" by force
  show ?case
  proof (cases r)
    case (Some bs)
    note rd = r [unfolded Some]
    have fits: "length bs \<le> 1" by (rule sys_read_fits [OF rd])
    have again: "total (\<lambda>_. True) (grep_loop w name needle n (off + length bs) line' m (c, g))" if "bs \<noteq> []" "length line' \<le> 65535" for line' m c
      by (rule less.hyps [OF sys_read_progress [OF rd that(1)] that(2)])
    show ?thesis using less.prems fits again
      unfolding grep_loop.simps [of w name needle n off line matched ctx f] rd prod.case option.case Let_def
      by (cases "bs = []") (auto split: prod.split)
  qed (simp only: grep_loop.simps [of w name needle n off line matched ctx f] r prod.case option.case, simp)
qed

lemma hexdump_loop_total: "total (\<lambda>_. True) (hexdump_loop w name n limit off st)"
  proof (induction w name n limit off st rule: hexdump_loop.induct)
  case (1 w name n limit off ctx f)
  have "length bs \<le> 16" if "sys_read n off (min (limit - off) 16) f = (Some bs, g)" for bs g using sys_read_fits [OF that] by simp
  then show ?case by (subst hexdump_loop.simps) (use 1 in \<open>auto split: prod.split option.split\<close>)
qed

lemma sys_write_other:
  assumes "sys_write n off bs f = (r, g)"
  shows "m \<noteq> n \<Longrightarrow> ino m g = ino m f" and "length (fs_inodes g) = length (fs_inodes f)"
  using assms call_cases [of "\<lambda>f. case io_size (length bs) f of (k, f) \<Rightarrow>
     (Some k, case in_node (ino n f) of
        Reg old \<Rightarrow> put_file n ((ino n f)\<lparr>in_node := Reg (take off old @ take k bs @ drop (off + k) old), in_mtime := fs_now f\<rparr>) f
      | Directory \<Rightarrow> f | Other \<Rightarrow> f)" f]
  by (auto simp: sys_write_def fail_def seterr_def put_file_def ino_def split: prod.splits node.splits dest!: io_size_le)

lemma copy_out_other: "copy_out n off bs f = (ok, g) \<Longrightarrow> m \<noteq> n \<Longrightarrow> ino m g = ino m f"
proof (induction n off bs f rule: copy_out.induct)
  case (1 n off bs f)
  obtain r h where w: "sys_write n off bs f = (r, h)" by force
  have h: "ino m h = ino m f" by (rule sys_write_other(1) [OF w "1.prems"(2)])
  show ?case
  proof (cases "bs = []")
    case False
    show ?thesis
      using "1.prems"(1) "1.IH"(1) [OF False w [symmetric]] "1.IH"(2) [OF False w [symmetric]] "1.prems"(2) h False w
      by (subst (asm) (1) copy_out.simps) (auto split: option.splits if_splits)
  qed (use "1.prems"(1) in \<open>subst (asm) (1) copy_out.simps, auto\<close>)
qed

lemma copy_loop_total:
  "st_size (ino i f) - off < fuel \<Longrightarrow> i \<noteq> out \<or> st_size (ino i f) = 0 \<Longrightarrow> total (\<lambda>_. True) (copy_file_loop fuel i out off f)"
proof (induction fuel arbitrary: off f)
  case (Suc fuel)
  obtain r g where r: "sys_read i off 16384 f = (r, g)" by force
  have e: "ino i g = ino i f" using sys_read_same(1) [OF r] by (simp add: ino_def)
  show ?case
  proof (cases r)
    case (Some bs)
    obtain ok h where h: "copy_out out off bs g = (ok, h)" by force
    have ne: "i \<noteq> out" if "bs \<noteq> []"
      using that Suc.prems(2) sys_read_same(6) [OF r Some] by (auto simp: st_size_def)
    have "total (\<lambda>_. True) (copy_file_loop fuel i out (off + length bs) h)" if "bs \<noteq> []"
    proof (rule Suc.IH)
      have "ino i h = ino i g" by (rule copy_out_other [OF h ne [OF that]])
      then show "st_size (ino i h) - (off + length bs) < fuel"
        using sys_read_progress [OF r [unfolded Some] that] Suc.prems(1) by (simp add: st_size_def)
    qed (use ne [OF that] in simp)
    then show ?thesis using sys_read_fits [OF r [unfolded Some]] by (auto simp: r Some h)
  qed (simp add: r)
qed simp

lemma copy_file_total: "total (\<lambda>_. True) (copy_file source destination f)"
proof -
  obtain r1 f1 where r1: "sys_open_read source f = (r1, f1)" by force
  show ?thesis
  proof (cases r1)
    case (Some i)
    obtain r2 f2 where r2: "sys_fstat i f1 = (r2, f2)" by force
    have f2: "r2 = Some st \<Longrightarrow> st = ino i f2" for st
      using r2 call_cases [of "\<lambda>f. (Some (ino i f), f)" f1] by (auto simp: sys_fstat_def fail_def ino_def)
    obtain r3 f3 where r3: "sys_open_write destination True False (in_mode (the r2) mod 512) f2 = (r3, f3)" by force
    have sz: "i \<noteq> out \<or> st_size (ino i f3) = 0" if "r3 = Some out" "in_node (ino i f2) = Reg bs" for out bs
    proof -
      let ?k = "\<lambda>f. case inode_at destination f of
         None \<Rightarrow> create destination (in_mode (the r2) mod 512) (Reg []) f
       | Some n \<Rightarrow> if False then fail EEXIST f
         else if in_node (ino n f) = Directory then fail EISDIR f
         else (Some n, if True \<and> in_node (ino n f) \<noteq> Other then put_file n ((ino n f)\<lparr>in_node := Reg [], in_mtime := fs_now f\<rparr>) f else f)"
      have "(r3, f3) = ?k (f2\<lparr>fs_faults := tl (fs_faults f2)\<rparr>)"
        using r3 that(1) call_cases [of ?k f2] by (auto simp: sys_open_write_def fail_def)
      then show ?thesis using that
        by (auto simp: create_def fail_def put_file_def ino_def inode_at_def st_size_def split: option.splits if_splits)
    qed
    have cl: "total (\<lambda>_. True) (copy_file_loop (Suc (st_size (ino i f3))) i out 0 f3)"
      if "r3 = Some out" "in_node (ino i f2) = Reg bs" for out bs
      by (rule copy_loop_total) (use sz [OF that] in auto)
    show ?thesis
    proof (cases r2)
      case (Some st)
      then have st: "st = ino i f2" by (rule f2)
      show ?thesis
      proof (cases "in_node st")
        case (Reg bs)
        show ?thesis
        proof (cases r3)
          case None
          then show ?thesis using r1 r2 r3 \<open>r1 = Some i\<close> \<open>r2 = Some st\<close> Reg by (simp add: copy_file_def)
        next
          case (Some out)
          have "total (\<lambda>_. True) (rbind (copy_file_loop (Suc (st_size (ino i f3))) i out 0 f3) (\<lambda>((wrote, got), f).
                 if \<not> wrote then Inr (False, f)
                 else case sys_close f of (None, f) \<Rightarrow> Inr (False, f)
                 | (Some _, f) \<Rightarrow> (case sys_close f of (None, f) \<Rightarrow> Inr (False, f) | (Some _, f) \<Rightarrow> Inr (got, f))))"
            by (rule res_sat_bindI [OF cl [OF Some Reg [unfolded st]]]) (auto split: prod.split option.split)
          then show ?thesis using r1 r2 r3 \<open>r1 = Some i\<close> \<open>r2 = Some st\<close> Reg Some by (simp add: copy_file_def)
        qed
      qed (use r1 r2 \<open>r1 = Some i\<close> Some in \<open>simp_all add: copy_file_def\<close>)
    qed (use r1 r2 Some in \<open>simp add: copy_file_def\<close>)
  qed (simp add: copy_file_def r1)
qed

lemma resolve_arg_total: "(\<And>r f. total (\<lambda>_. True) (k r f)) \<Longrightarrow> total (\<lambda>_. True) (rbind (resolve_arg state arg f) (\<lambda>(r, f). k r f))"
  using resolve_arg_cases [of state arg f] by auto

lemma ls_collect_eq: "length entries \<le> capacity \<Longrightarrow> ls_collect hidden names capacity entries = Inr (entries @ filter (visible hidden) names)"
  by (induction names arbitrary: capacity entries) (auto simp: Let_def)

lemma command_ls_total: "total (\<lambda>_. True) (command_ls w state args st)"
proof (cases st)
  case (Pair ctx f)
  have "total (\<lambda>_. True) (with_path w (str ''ls'') state target (\<lambda>p (ctx, f). case sys_opendir p f of
           (None, f) \<Rightarrow> Inr (shell_error w (str ''ls'') target (fs_errno f) (ctx, f))
         | (Some names, f) \<Rightarrow> rbind (ls_collect hidden names 0 []) (\<lambda>entries. Inr (ls_items w p long (sort entries) (ctx, f)))) (ctx, f))" for target long hidden
    by (rule with_path_total) (auto simp: ls_collect_eq split: prod.split option.split)
  then show ?thesis by (auto simp: command_ls_def Pair split: sum.split prod.split)
qed

lemma command_totals:
  "total (\<lambda>_. True) (command_cat w state name st)" "total (\<lambda>_. True) (command_head w state name l st)"
  "total (\<lambda>_. True) (command_grep w state needle name st)" "total (\<lambda>_. True) (command_hexdump w state name limit st)"
  "total (\<lambda>_. True) (command_tail w state name l st)" "total (\<lambda>_. True) (command_touch w state name st)"
  unfolding command_cat_def command_head_def command_grep_def command_hexdump_def command_tail_def command_touch_def
  by (intro with_file_total cat_loop_total head_loop_total hexdump_loop_total path_call_total;
      auto simp: grep_loop_total split: prod.split option.split dest: sys_read_fits intro: le_SucI path_call_total)+

lemma command_rm_total: "total (\<lambda>_. True) (command_rm w state name st)"
  by (cases st) (auto simp: command_rm_def intro!: resolve_arg_total simp del: res_sat_rbind split: prod.split)

lemma command_cp_mv_total: "total (\<lambda>_. True) (command_cp_mv w state command name1 name2 st)"
proof (cases st)
  case (Pair ctx f)
  have c: "total (\<lambda>_. True) (rbind (if command = str ''cp'' then copy_file p1 p2 f
      else case sys_rename p1 p2 f of (r, f) \<Rightarrow> Inr (r \<noteq> None, f)) (\<lambda>r. simple w command name1 r ctx))" for p1 p2 f
    by (rule res_sat_bindI [where P = "\<lambda>_. True"]) (auto simp: copy_file_total simple_def split: prod.split)
  show ?thesis unfolding command_cp_mv_def Pair prod.case
    by (rule resolve_arg_total, rule res_sat_option, simp, rule resolve_arg_total, rule res_sat_option, simp, rule c)
qed

lemma command_chmod_total: "total (\<lambda>_. True) (command_chmod w state mode_text name st)"
  by (cases st) (auto simp: command_chmod_def Let_def intro!: resolve_arg_total simp del: res_sat_rbind split: prod.split option.split)

lemma command_stat_total: "total (\<lambda>_. True) (command_stat w state name st)"
  unfolding command_stat_def by (rule with_path_total) (auto split: prod.split option.split)

lemma invalid_command_total: "total (\<lambda>_. True) (invalid_command w name st)"
  by (cases st) (simp add: invalid_command_def split: prod.split)

lemmas commands_total = command_totals command_ls_total command_rm_total command_cp_mv_total command_chmod_total command_stat_total
  invalid_command_total path_call_total

lemma run_command_total: "total (\<lambda>_. True) (run_command w state argv st)"
  unfolding run_command_def Let_def
  by (intro res_sat_if; (rule commands_total | (auto simp: commands_total intro: with_path_total split: prod.split option.split)))

lemma command_cd_total:
  "normal PS4_SHELL_PATH_MAX (sh_cwd state) \<Longrightarrow> total (\<lambda>(i, s, st). normal PS4_SHELL_PATH_MAX (sh_cwd s)) (command_cd w state name st)"
  using resolve_arg_cases [of state name "snd st"]
  by (cases st) (auto simp: command_cd_def Let_def normal_def split: prod.split option.split)

lemma shell_execute_keeps:
  assumes "normal PS4_SHELL_PATH_MAX (sh_cwd state)"
  shows "total (\<lambda>(i, s, st). normal PS4_SHELL_PATH_MAX (sh_cwd s)) (ps4_shell_execute w state command (ctx, f))"
proof -
  obtain r where r: "split_command command = Inr r" using split_command_ok by blast
  show ?thesis
  proof (cases r)
    case (Inr argv)
    have "total (\<lambda>(i, s, st). normal PS4_SHELL_PATH_MAX (sh_cwd s)) (rbind (run_command w state argv (ctx, f)) (\<lambda>(i, st). Inr (i, state, st)))"
      by (rule res_sat_bindI [OF run_command_total]) (use assms in \<open>auto split: prod.split\<close>)
    then show ?thesis using assms by (simp add: ps4_shell_execute_def r Inr Let_def del: res_sat_rbind) (blast intro: command_cd_total [OF assms])
  qed (use assms in \<open>simp add: ps4_shell_execute_def r Let_def split: prod.split\<close>)
qed

text \<open>
  C20. Every command line, on any file system, with any writer and whatever calls fail, runs to an exit status: no loop runs forever and no
  array is overrun. The working directory stays an absolute path in normal form that fits into its array.
\<close>

theorem ps4_shell_execute_total:
  assumes "normal PS4_SHELL_PATH_MAX (sh_cwd state)"
  shows "\<exists>status state' ctx' f'. ps4_shell_execute w state command (ctx, f) = Inr (status, state', ctx', f')
    \<and> normal PS4_SHELL_PATH_MAX (sh_cwd state')"
  using shell_execute_keeps [OF assms, of w command ctx f] by (cases "ps4_shell_execute w state command (ctx, f)") auto

section \<open>What the commands do\<close>

text \<open>A writer that collects the output, and a file system on which no call is made to fail.\<close>

definition collect :: "byte list writer" where
  "collect bs out = (True, out @ bs)"

lemma write_all_collect [simp]: "write_all collect bs out = (True, out @ bs)"
  by (simp add: write_all_def collect_def)

definition same_files :: "fs \<Rightarrow> fs \<Rightarrow> bool" where
  "same_files f g \<longleftrightarrow> fs_names g = fs_names f \<and> fs_inodes g = fs_inodes f \<and> fs_faults g = fs_faults f"

lemma same_files_trans: "same_files f g \<Longrightarrow> same_files g h \<Longrightarrow> same_files f h"
  by (simp add: same_files_def)

lemma same_files_ino: "same_files f g \<Longrightarrow> ino n g = ino n f"
  by (simp add: same_files_def ino_def)

lemma call_ok: "fs_faults f = [] \<Longrightarrow> call k f = k f"
  by (simp add: call_def)

lemma sys_read_ok:
  assumes "fs_faults f = []" and "in_node (ino n f) = Reg d" and "0 < len"
  shows "\<exists>k g. sys_read n off len f = (Some (take k (drop off d)), g) \<and> 0 < k \<and> k \<le> len \<and> same_files f g"
  using assms by (fastforce simp: sys_read_def call_ok same_files_def ino_def split: prod.splits dest!: io_size_le)

lemma open_read_ok:
  assumes "content p f = Some d" and "fs_faults f = []"
  shows "\<exists>n. sys_open_read p f = (Some n, f) \<and> inode_at p f = Some n \<and> in_node (ino n f) = Reg d"
  using assms by (auto simp: content_def sys_open_read_def call_ok split: option.splits node.splits)

lemma with_file_ok:
  assumes "ps4_shell_resolve (sh_cwd state) name PS4_SHELL_PATH_MAX = Inr (Some p)" and "content p f = Some d" and "fs_faults f = []"
  shows "\<exists>n. in_node (ino n f) = Reg d \<and> with_file w command state name k (ctx, f) = k n (ctx, f)"
  using open_read_ok [OF assms(2,3)] assms(1) by (auto simp: with_file_def with_path_def resolve_arg_def)

fun first_lines :: "nat \<Rightarrow> byte list \<Rightarrow> byte list" where
  "first_lines 0 bs = []"
| "first_lines (Suc l) [] = []"
| "first_lines (Suc l) (b # bs) = b # first_lines (if b = 0x0a then l else Suc l) bs"

lemma head_scan_lines: "0 < l \<Longrightarrow> head_scan bs l = (n, m) \<Longrightarrow> first_lines l (bs @ rest) = take n bs @ first_lines m rest"
proof (induction bs l arbitrary: n m rule: head_scan.induct)
  case (2 b bs l)
  obtain j where l: "l = Suc j" using "2.prems" by (cases l) auto
  obtain n' m' where h: "head_scan bs (if b = 0x0a then l - 1 else l) = (n', m')" by force
  show ?case
  proof (cases "b = 0x0a \<and> l - 1 = 0")
    case True
    then show ?thesis using "2.prems" l by auto
  next
    case False
    then have "0 < (if b = 0x0a then l - 1 else l)" using l by auto
    from "2.IH" [OF False this h] show ?thesis using "2.prems"(2) False h l by (auto split: if_splits)
  qed
qed auto

lemma first_lines_Nil [simp]: "first_lines l [] = []"
  by (cases l) auto

lemma chunk_rest: "take k (drop off d) @ drop (off + length (take k (drop off d))) d = drop off d"
proof -
  have "take (length (take k (drop off d))) (drop off d) = take k (drop off d)" by (simp add: min_def)
  then show ?thesis by (metis add.commute append_take_drop_id drop_drop)
qed

lemma head_loop_lines:
  assumes "fs_faults f = []" and "in_node (ino n f) = Reg d"
  shows "\<exists>g. head_loop collect n off l (out, f) = Inr (0, out @ first_lines l (drop off d), g) \<and> same_files f g"
  using assms
proof (induction "length d - off" arbitrary: off l out f rule: less_induct)
  case less
  show ?case
  proof (cases "l = 0")
    case True
    then show ?thesis by (subst head_loop.simps) (simp add: same_files_def)
  next
    case False
    obtain k g where r: "sys_read n off 4096 f = (Some (take k (drop off d)), g)" "0 < k" "same_files f g"
      using sys_read_ok [OF less.prems, of 4096 off] by auto
    let ?bs = "take k (drop off d)"
    show ?thesis
    proof (cases "drop off d = []")
      case True
      then show ?thesis using False r by (subst head_loop.simps) simp
    next
      case ne: False
      obtain len m where h: "head_scan ?bs l = (len, m)" by force
      have g: "fs_faults g = []" "in_node (ino n g) = Reg d" using less.prems r(3) by (simp_all add: same_files_def ino_def)
      have sh: "length d - (off + length ?bs) < length d - off" using ne r(2) by simp
      obtain g' where g': "head_loop collect n (off + length ?bs) m (out @ take len ?bs, g) =
          Inr (0, (out @ take len ?bs) @ first_lines m (drop (off + length ?bs) d), g')" "same_files g g'"
        using less.hyps [OF sh g] by blast
      have "first_lines l (drop off d) = take len ?bs @ first_lines m (drop (off + length ?bs) d)"
        using head_scan_lines [OF _ h, of "drop (off + length ?bs) d"] False chunk_rest [of k off d] by simp
      then show ?thesis using False ne r h g' same_files_trans [OF r(3) g'(2)] by (subst head_loop.simps) (simp add: in_array_fits [OF sys_read_fits [OF r(1)]])
    qed
  qed
qed

text \<open>
  \<^verbatim>\<open>head\<close> writes the first \<open>l\<close> lines of a file and nothing else, however the reads cut it up, and leaves every file as it is.
\<close>

theorem command_head_lines:
  assumes "ps4_shell_resolve (sh_cwd state) name PS4_SHELL_PATH_MAX = Inr (Some p)" and "content p f = Some d" and "fs_faults f = []"
  shows "\<exists>g. command_head collect state name l (out, f) = Inr (0, out @ first_lines l d, g) \<and> same_files f g"
proof -
  obtain n where n: "in_node (ino n f) = Reg d" "with_file collect (str ''head'') state name (\<lambda>n st. head_loop collect n 0 l st) (out, f) = head_loop collect n 0 l (out, f)"
    using with_file_ok [OF assms, where ?k = "\<lambda>n st. head_loop collect n 0 l st"] by blast
  then show ?thesis using head_loop_lines [OF assms(3) n(1), of 0 l out] by (simp add: command_head_def)
qed

lemma cat_loop_content:
  assumes "fs_faults f = []" and "in_node (ino n f) = Reg d"
  shows "\<exists>g. cat_loop collect name n off (out, f) = Inr (0, out @ drop off d, g) \<and> same_files f g"
  using assms
proof (induction "length d - off" arbitrary: off out f rule: less_induct)
  case less
  obtain k g where r: "sys_read n off 16384 f = (Some (take k (drop off d)), g)" "0 < k" "same_files f g"
    using sys_read_ok [OF less.prems, of 16384 off] by auto
  let ?bs = "take k (drop off d)"
  show ?case
  proof (cases "drop off d = []")
    case True
    then show ?thesis using r by (subst cat_loop.simps) simp
  next
    case ne: False
    have g: "fs_faults g = []" "in_node (ino n g) = Reg d" using less.prems r(3) by (simp_all add: same_files_def ino_def)
    have sh: "length d - (off + length ?bs) < length d - off" using ne r(2) by simp
    obtain g' where g': "cat_loop collect name n (off + length ?bs) (out @ ?bs, g) = Inr (0, (out @ ?bs) @ drop (off + length ?bs) d, g')" "same_files g g'"
      using less.hyps [OF sh g] by blast
    then show ?thesis using ne r chunk_rest [of k off d] same_files_trans [OF r(3) g'(2)] by (subst cat_loop.simps) (simp add: in_array_fits [OF sys_read_fits [OF r(1)]])
  qed
qed

text \<open>The lines of a text with their newlines; the last one may lack it.\<close>

fun lines_of :: "byte list \<Rightarrow> byte list list" where
  "lines_of [] = []"
| "lines_of (b # bs) = (if b = 0x0a then [b] # lines_of bs else (case lines_of bs of [] \<Rightarrow> [[b]] | l # ls \<Rightarrow> (b # l) # ls))"

definition last_lines :: "nat \<Rightarrow> byte list \<Rightarrow> byte list" where
  "last_lines l d = concat (drop (length (lines_of d) - l) (lines_of d))"

lemma concat_lines: "concat (lines_of bs) = bs"
  by (induction bs) (auto split: list.split)

lemma lines_append: "xs = [] \<or> last xs = 0x0a \<Longrightarrow> lines_of (xs @ ys) = lines_of xs @ lines_of ys"
proof (induction xs)
  case (Cons x xs)
  show ?case
  proof (cases "xs = []")
    case False
    then have "lines_of xs \<noteq> []" by (cases xs) (auto split: list.split)
    then show ?thesis using Cons False by (cases "lines_of xs") auto
  qed (use Cons in simp)
qed simp

lemma lines_length:
  "length (lines_of (b # bs)) = (if b = 0x0a \<or> bs = [] then Suc (length (lines_of bs)) else length (lines_of bs))"
proof -
  have "lines_of bs \<noteq> []" if "bs \<noteq> []" using that by (cases bs) (auto split: list.split)
  then show ?thesis by (auto split: list.split)
qed

lemma tail_start:
  assumes "i < length d" and "0 < l" and "int (length (lines_of (drop i d))) = int l0 + 1 - l"
  shows "\<exists>s l'. tail_scan d i l = (s, l') \<and> (if l' > 0 then drop 0 d else drop s d) = last_lines l0 d"
  using assms
proof (induction i arbitrary: l)
  case 0
  then have "length (lines_of d) \<le> l0" by simp
  then show ?case using 0 by (simp add: last_lines_def concat_lines)
next
  case (Suc i)
  have d: "drop i d = d ! i # drop (Suc i) d" using Suc.prems(1) by (simp add: Cons_nth_drop_Suc)
  have ne: "drop (Suc i) d \<noteq> []" using Suc.prems(1) by simp
  show ?case
  proof (cases "d ! i = 0x0a")
    case True
    show ?thesis
    proof (cases "l - 1 = 0")
      case one: True
      have "last (take (Suc i) d) = 0x0a" using True Suc.prems(1) by (simp add: take_Suc_conv_app_nth)
      then have "lines_of d = lines_of (take (Suc i) d) @ lines_of (drop (Suc i) d)"
        using lines_append [of "take (Suc i) d" "drop (Suc i) d"] by simp
      then have "last_lines l0 d = drop (Suc i) d" using one Suc.prems(3) by (simp add: last_lines_def concat_lines)
      then show ?thesis using True one Suc.prems(1) by simp
    next
      case False
      have "int (length (lines_of (drop i d))) = int l0 + 1 - (l - 1)" using Suc.prems(3) lines_length [of "d ! i"] True by (simp add: d)
      from Suc.IH [OF _ _ this] show ?thesis using False True Suc.prems(1,2) by simp
    qed
  next
    case False
    have "int (length (lines_of (drop i d))) = int l0 + 1 - l" using Suc.prems(3) lines_length [of "d ! i"] False ne by (simp add: d)
    from Suc.IH [OF _ Suc.prems(2) this] show ?thesis using False Suc.prems(1) by simp
  qed
qed

lemma tail_lines:
  assumes "0 < l0"
  shows "\<exists>s l'. tail_scan d (length d) (int l0) = (s, l') \<and> drop (if l' > 0 then 0 else s) d = last_lines l0 d"
proof (cases d rule: rev_cases)
  case Nil
  then show ?thesis by (simp add: last_lines_def)
next
  case (snoc xs b)
  let ?i = "length xs"
  have "drop ?i d = [b]" using snoc by simp
  then have "int (length (lines_of (drop ?i d))) = int l0 + 1 - int l0" by (simp add: lines_length)
  from tail_start [OF _ _ this] obtain s l' where t: "tail_scan d ?i (int l0) = (s, l')" "(if l' > 0 then drop 0 d else drop s d) = last_lines l0 d"
    using assms snoc by auto
  have "tail_scan d (length d) (int l0) = tail_scan d ?i (int l0)" using snoc by simp
  then show ?thesis using t by (auto split: if_splits)
qed

lemma tail_none: "l \<le> 0 \<Longrightarrow> \<exists>l' \<le> 0. tail_scan d i l = (0, l')"
  by (induction d i l rule: tail_scan.induct) auto

text \<open>
  C21. \<^verbatim>\<open>tail\<close> writes the last \<open>l\<close> lines of a file, when the file is read in one piece and \<open>l\<close> is positive; a count of 0 makes it write the whole
  file, since the counter is then never 0 again.
\<close>

theorem command_tail_lines:
  assumes "ps4_shell_resolve (sh_cwd state) name PS4_SHELL_PATH_MAX = Inr (Some p)" and "content p f = Some d" and "fs_faults f = []"
    and "fs_sizes f = []" and "length d \<le> 16777216"
  shows "command_tail collect state name l (out, f) = Inr (0, out @ (if l = 0 then d else last_lines l d), f)"
proof -
  let ?k = "\<lambda>n (ctx, f). case sys_fstat n f of
       (None, f) \<Rightarrow> Inr (shell_error collect (str ''tail'') name (fs_errno f) (ctx, f))
     | (Some st, f) \<Rightarrow> if st_size st > 16 * 1024 * 1024 then Inr (shell_error collect (str ''tail'') name EFBIG (ctx, f))
         else (case sys_read n 0 (st_size st) f of
           (None, f) \<Rightarrow> Inr (shell_error collect (str ''tail'') name (fs_errno f) (ctx, f))
         | (Some d, f) \<Rightarrow> in_array (st_size st + 1) d (case tail_scan d (length d) (int l) of (start, l) \<Rightarrow>
             (case write_all collect (drop (if l > 0 then 0 else start) d) ctx of (ok, ctx) \<Rightarrow> finish (if ok then 0 else - 1) (ctx, f))))"
  obtain n where n: "in_node (ino n f) = Reg d" "with_file collect (str ''tail'') state name ?k (out, f) = ?k n (out, f)"
    using with_file_ok [OF assms(1-3), where ?k = ?k] by blast
  have r: "sys_fstat n f = (Some (ino n f), f)" "sys_read n 0 (length d) f = (Some d, f)" "st_size (ino n f) = length d"
    using assms(3,4) n(1) by (simp_all add: sys_fstat_def sys_read_def call_ok io_size_def st_size_def)
  have "\<exists>s l'. tail_scan d (length d) (int l) = (s, l') \<and> drop (if l' > 0 then 0 else s) d = (if l = 0 then d else last_lines l d)"
    using tail_lines [of l d] tail_none [of "int l" d "length d"] by (cases "l = 0") (fastforce, simp)
  then show ?thesis unfolding command_tail_def n(2) using r assms(5) by (auto simp: Let_def)
qed

definition only_file :: "nat \<Rightarrow> node \<Rightarrow> fs \<Rightarrow> fs \<Rightarrow> bool" where
  "only_file n nd f g \<longleftrightarrow> fs_names g = fs_names f \<and> fs_faults g = [] \<and> length (fs_inodes g) = length (fs_inodes f)
     \<and> in_node (ino n g) = nd \<and> (\<forall>m. m \<noteq> n \<longrightarrow> ino m g = ino m f)"

lemma only_file_trans: "only_file n x f g \<Longrightarrow> only_file n y g h \<Longrightarrow> only_file n y f h"
  by (simp add: only_file_def)

lemma sys_write_ok:
  assumes "fs_faults f = []" and "n < length (fs_inodes f)" and "in_node (ino n f) = Reg old" and "bs \<noteq> []"
  shows "\<exists>k g. sys_write n (length old) bs f = (Some k, g) \<and> 0 < k \<and> k \<le> length bs \<and> only_file n (Reg (old @ take k bs)) f g"
proof -
  obtain k h where k: "io_size (length bs) f = (k, h)" by force
  have h: "ino n h = ino n f" using io_size_le [OF k] by (simp add: ino_def)
  have "sys_write n (length old) bs f = (Some k, put_file n ((ino n h)\<lparr>in_node := Reg (old @ take k bs), in_mtime := fs_now h\<rparr>) h)"
    using assms(1,3) h by (simp add: sys_write_def call_ok k)
  then show ?thesis using io_size_le [OF k] assms
    by (auto simp: only_file_def put_file_def ino_def)
qed

lemma copy_out_ok:
  assumes "fs_faults f = []" and "n < length (fs_inodes f)" and "in_node (ino n f) = Reg old"
  shows "\<exists>g. copy_out n (length old) bs f = (True, g) \<and> only_file n (Reg (old @ bs)) f g"
  using assms
proof (induction "length bs" arbitrary: bs old f rule: less_induct)
  case less
  show ?case
  proof (cases "bs = []")
    case True
    then show ?thesis using less.prems by (subst copy_out.simps) (simp add: only_file_def)
  next
    case False
    obtain k g where w: "sys_write n (length old) bs f = (Some k, g)" "0 < k" "k \<le> length bs" "only_file n (Reg (old @ take k bs)) f g"
      using sys_write_ok [OF less.prems False] by blast
    have g: "fs_faults g = []" "n < length (fs_inodes g)" "in_node (ino n g) = Reg (old @ take k bs)"
      using w(4) less.prems(2) by (simp_all add: only_file_def)
    have l: "length (drop k bs) < length bs" using w(2) False by simp
    obtain h where h: "copy_out n (length (old @ take k bs)) (drop k bs) g = (True, h)" "only_file n (Reg ((old @ take k bs) @ drop k bs)) g h"
      using less.hyps [OF l g] by blast
    have "copy_out n (length old) bs f = (True, h)" using False w h(1) by (subst copy_out.simps) (simp add: min_absorb2)
    then show ?thesis using only_file_trans [OF w(4) h(2)] by auto
  qed
qed

lemma copy_loop_ok:
  assumes "fs_faults f = []" and "i \<noteq> out" and "out < length (fs_inodes f)" and "in_node (ino i f) = Reg d"
    and "in_node (ino out f) = Reg (take off d)" and "off \<le> length d" and "length d - off < fuel"
  shows "\<exists>g. copy_file_loop fuel i out off f = Inr ((True, True), g) \<and> only_file out (Reg d) f g"
  using assms
proof (induction fuel arbitrary: off f)
  case (Suc fuel)
  obtain k g where r: "sys_read i off 16384 f = (Some (take k (drop off d)), g)" "0 < k" "same_files f g"
    using sys_read_ok [OF Suc.prems(1,4), of 16384 off] by auto
  let ?bs = "take k (drop off d)"
  have fg: "only_file out (Reg (take off d)) f g" using r(3) Suc.prems by (simp add: only_file_def same_files_def ino_def)
  show ?case
  proof (cases "drop off d = []")
    case True
    then show ?thesis using r fg by auto
  next
    case ne: False
    have old: "length (take off d) = off" using Suc.prems(6) by simp
    have g: "fs_faults g = []" "out < length (fs_inodes g)" "in_node (ino out g) = Reg (take off d)" using fg Suc.prems(3) by (simp_all add: only_file_def)
    obtain h where h: "copy_out out off ?bs g = (True, h)" "only_file out (Reg (take off d @ ?bs)) g h"
      using copy_out_ok [OF g, of ?bs] old by auto
    have e: "take off d @ ?bs = take (off + length ?bs) d" using Suc.prems(6) by (simp add: take_add min_def)
    have h': "fs_faults h = []" "out < length (fs_inodes h)" "in_node (ino i h) = Reg d" "in_node (ino out h) = Reg (take (off + length ?bs) d)"
      using h(2) fg Suc.prems(2,3,4) unfolding e by (simp_all add: only_file_def)
    have fu: "length d - (off + length ?bs) < fuel" using Suc.prems(7) ne r(2) by auto
    have "off + length ?bs \<le> length d" using Suc.prems(6) by simp
    then obtain g' where "copy_file_loop fuel i out (off + length ?bs) h = Inr ((True, True), g')" "only_file out (Reg d) h g'"
      using Suc.IH [OF h'(1) Suc.prems(2) h'(2-4) _ fu] by blast
    then show ?thesis using r h ne only_file_trans [OF fg only_file_trans [OF h(2)]] by (auto simp: in_array_fits [OF sys_read_fits [OF r(1)]])
  qed
qed simp

lemma content_ino: "inode_at p f = Some n \<Longrightarrow> content p f = (case in_node (ino n f) of Reg bs \<Rightarrow> Some bs | Directory \<Rightarrow> None | Other \<Rightarrow> None)"
  by (simp add: content_def)

lemma inode_at_same: "fs_names g = fs_names f \<Longrightarrow> length (fs_inodes g) = length (fs_inodes f) \<Longrightarrow> inode_at p g = inode_at p f"
  by (simp add: inode_at_def cong: option.case_cong)

lemma inode_at_bound: "inode_at p f = Some n \<Longrightarrow> n < length (fs_inodes f)"
  by (auto simp: inode_at_def split: option.splits if_splits)

lemma map_of_snoc: "map_of xs p = Some n \<Longrightarrow> map_of (xs @ [(q, m)]) p = Some n"
  by (simp add: map_add_Some_iff)

text \<open>Opening the destination empties it or creates it.\<close>

lemma open_trunc_ok:
  assumes "fs_faults f = []" and "inode_at p f = Some i" and "in_node (ino i f) = Reg d"
    and "content q f \<noteq> None \<or> (map_of (fs_names f) q = None \<and> is_dir (parent q) f)"
  shows "\<exists>out g. sys_open_write q True False mode f = (Some out, g) \<and> fs_faults g = [] \<and> inode_at q g = Some out \<and> inode_at p g = Some i
    \<and> in_node (ino out g) = Reg [] \<and> (if inode_at q f = Some i then out = i else out \<noteq> i \<and> in_node (ino i g) = Reg d)"
proof (cases "inode_at q f")
  case None
  then have q: "map_of (fs_names f) q = None" "is_dir (parent q) f" using assms(4) by (auto simp: content_def)
  have i: "i < length (fs_inodes f)" by (rule inode_at_bound [OF assms(2)])
  show ?thesis using None q assms(1-3) i
    by (auto simp: sys_open_write_def call_ok create_def inode_at_def ino_def nth_append map_add_def split: option.splits if_splits)
next
  case (Some n)
  then obtain old where old: "in_node (ino n f) = Reg old" using assms(4) by (auto simp: content_def inode_at_def split: node.splits option.splits)
  have n: "n < length (fs_inodes f)" by (rule inode_at_bound [OF Some])
  show ?thesis using Some old assms(1-3) n
    by (auto simp: sys_open_write_def call_ok put_file_def ino_def inode_at_def nth_list_update split: option.splits if_splits)
qed

text \<open>
  C22. Copying a regular file: when no call fails, the destination ends up with exactly the bytes of the source, however reads and writes are cut up, and the
  source is unchanged. If both names stand for one file, for example in \<^verbatim>\<open>cp a a\<close>, the file is emptied: opening the destination truncates it before
  it is read.
\<close>

theorem copy_file_content:
  assumes "fs_faults f = []" and "content p f = Some d"
    and "content q f \<noteq> None \<or> (map_of (fs_names f) q = None \<and> is_dir (parent q) f)"
  shows "\<exists>g. copy_file p q f = Inr (True, g)
    \<and> content q g = Some (if inode_at q f = inode_at p f then [] else d)
    \<and> content p g = Some (if inode_at q f = inode_at p f then [] else d)"
proof -
  obtain i where i: "sys_open_read p f = (Some i, f)" "inode_at p f = Some i" "in_node (ino i f) = Reg d" using open_read_ok [OF assms(2,1)] by blast
  obtain out g where g: "sys_open_write q True False (in_mode (ino i f) mod 512) f = (Some out, g)" "fs_faults g = []" "inode_at q g = Some out"
      "inode_at p g = Some i" "in_node (ino out g) = Reg []" "if inode_at q f = Some i then out = i else out \<noteq> i \<and> in_node (ino i g) = Reg d"
    using open_trunc_ok [OF assms(1) i(2,3) assms(3)] by blast
  have st: "sys_fstat i f = (Some (ino i f), f)" using assms(1) by (simp add: sys_fstat_def call_ok)
  let ?d = "if inode_at q f = inode_at p f then [] else d"
  have lp: "\<exists>h. copy_file_loop (Suc (st_size (ino i g))) i out 0 g = Inr ((True, True), h) \<and> only_file out (Reg ?d) g h"
  proof (cases "inode_at q f = Some i")
    case True
    then have e: "out = i" using g(6) by simp
    obtain k h where r: "sys_read i 0 16384 g = (Some (take k (drop 0 [])), h)" "same_files g h" using sys_read_ok [OF g(2), of i "[]" 16384 0] g(5) e by auto
    then show ?thesis using True i(2) g(5) e g(2) by (auto simp: only_file_def same_files_def ino_def)
  next
    case False
    then have o: "i \<noteq> out" "in_node (ino i g) = Reg d" using g(6) by auto
    show ?thesis using copy_loop_ok [OF g(2) o(1) inode_at_bound [OF g(3)] o(2), of 0 "Suc (st_size (ino i g))"] g(5) False i(2) o(2) by (simp add: st_size_def)
  qed
  then obtain h where h: "copy_file_loop (Suc (st_size (ino i g))) i out 0 g = Inr ((True, True), h)" "only_file out (Reg ?d) g h" by blast
  have c: "sys_close h = (Some (), h)" using h(2) by (simp add: sys_close_def call_ok only_file_def)
  have res: "copy_file p q f = Inr (True, h)" using i st g(1) h(1) c by (simp add: copy_file_def)
  have "inode_at q h = Some out" "inode_at p h = Some i" using inode_at_same [of h g] h(2) g(3,4) by (simp_all add: only_file_def)
  then have "content q h = Some ?d" "content p h = Some ?d"
    using h(2) g(6) i(2) by (auto simp: content_ino only_file_def split: if_splits)
  then show ?thesis using res by blast
qed

section \<open>Concrete runs\<close>

text \<open>A file system with a root directory and one file of three lines.\<close>

definition three_lines :: "byte list" where
  "three_lines = [0x78, 0x0a, 0x79, 0x0a, 0x7a, 0x0a]"

definition small_fs :: fs where
  "small_fs = \<lparr>fs_names = [([slash], 0), (str ''/a'', 1)],
     fs_inodes = [\<lparr>in_node = Directory, in_mode = 493, in_mtime = 0\<rparr>, \<lparr>in_node = Reg three_lines, in_mode = 420, in_mtime = 0\<rparr>],
     fs_faults = [], fs_sizes = [], fs_errno = 0, fs_strerror = (\<lambda>_. str ''error''), fs_now = 0\<rparr>"

definition root_shell :: ps4_shell_state where
  "root_shell = ps4_shell_init []"

lemma small_fs_facts:
  "fs_faults small_fs = []" "fs_sizes small_fs = []" "content (str ''/a'') small_fs = Some three_lines" "content (str ''/b'') small_fs = None"
  "map_of (fs_names small_fs) (str ''/b'') = None" "is_dir (parent (str ''/b'')) small_fs"
  "inode_at (str ''/a'') small_fs = Some 1" "inode_at (str ''/b'') small_fs = None"
  by code_simp+

lemma root_shell_facts:
  "sh_cwd root_shell = [slash]" "normal PS4_SHELL_PATH_MAX (sh_cwd root_shell)"
  "ps4_shell_resolve (sh_cwd root_shell) (str ''a'') PS4_SHELL_PATH_MAX = Inr (Some (str ''/a''))"
proof -
  show c: "sh_cwd root_shell = [slash]" by code_simp
  show "normal PS4_SHELL_PATH_MAX (sh_cwd root_shell)" unfolding c normal_def by (intro conjI exI [where x = "[]"]) (simp_all add: render_def)
  show "ps4_shell_resolve (sh_cwd root_shell) (str ''a'') PS4_SHELL_PATH_MAX = Inr (Some (str ''/a''))" by code_simp
qed

theorem ps4_shell_execute_total_witness:
  "\<exists>status state' ctx' f'. ps4_shell_execute collect root_shell (str ''cat a'') ([], small_fs) = Inr (status, state', ctx', f')
    \<and> normal PS4_SHELL_PATH_MAX (sh_cwd state')"
  by (rule ps4_shell_execute_total) (rule root_shell_facts(2))

theorem command_head_lines_witness:
  "\<exists>g. command_head collect root_shell (str ''a'') 2 ([], small_fs) = Inr (0, [0x78, 0x0a, 0x79, 0x0a], g)"
proof -
  have "first_lines 2 three_lines = [0x78, 0x0a, 0x79, 0x0a]" by code_simp
  then show ?thesis using command_head_lines [OF root_shell_facts(3) small_fs_facts(3,1), of 2 "[]"] by auto
qed

theorem command_tail_lines_witness:
  "command_tail collect root_shell (str ''a'') 1 ([], small_fs) = Inr (0, [0x7a, 0x0a], small_fs)
   \<and> command_tail collect root_shell (str ''a'') 0 ([], small_fs) = Inr (0, three_lines, small_fs)"
  using command_tail_lines [OF root_shell_facts(3) small_fs_facts(3,1,2), of 1 "[]"]
    command_tail_lines [OF root_shell_facts(3) small_fs_facts(3,1,2), of 0 "[]"]
  by (simp add: three_lines_def last_lines_def)

theorem copy_file_content_witness:
  "(\<exists>g. copy_file (str ''/a'') (str ''/b'') small_fs = Inr (True, g) \<and> content (str ''/b'') g = Some three_lines)
   \<and> (\<exists>g. copy_file (str ''/a'') (str ''/a'') small_fs = Inr (True, g) \<and> content (str ''/a'') g = Some [])"
  using copy_file_content [OF small_fs_facts(1,3), of "str ''/b''"] copy_file_content [OF small_fs_facts(1,3), of "str ''/a''"] small_fs_facts
  by auto

end
