(* ===== verification/Ps4Scp.thy ===== *)
theory Ps4Scp
  imports Ps4Commands
begin

text \<open>
  The in-process copy service of src/dropbear/src/ps4-scp.c: the command line of the remote \<^verbatim>\<open>scp\<close>, the reception of
  files into a temporary file that is then renamed, and the sending of one file.
\<close>

section \<open>The connection\<close>

text \<open>
  The local end of the socket pair: what each \<^verbatim>\<open>read\<close> and \<^verbatim>\<open>send\<close> answers, and the bytes that were sent. When there are no answers left, reads
  find the end of the stream and sends take everything.
\<close>

datatype conn_in = In_bytes "byte list" | In_intr | In_again | In_error
datatype conn_send = Out_sent nat | Out_intr | Out_again | Out_error

record conn =
  cn_in :: "conn_in list"
  cn_sends :: "conn_send list"
  cn_out :: "byte list"

definition conn_read :: "nat \<Rightarrow> conn \<Rightarrow> conn_in \<times> conn" where
  "conn_read len c = (case cn_in c of
       [] \<Rightarrow> (In_bytes [], c)
     | In_bytes bs # rs \<Rightarrow> (In_bytes (take len bs), c\<lparr>cn_in := (if length bs \<le> len then rs else In_bytes (drop len bs) # rs)\<rparr>)
     | r # rs \<Rightarrow> (r, c\<lparr>cn_in := rs\<rparr>))"

text \<open>\<^verbatim>\<open>scp_write\<close> sends at most 512 bytes at a time.\<close>

definition scp_write :: "byte list \<Rightarrow> conn \<Rightarrow> conn_send \<times> conn" where
  "scp_write bs c = (let chunk = min (length bs) 512 in case cn_sends c of
       [] \<Rightarrow> (Out_sent chunk, c\<lparr>cn_out := cn_out c @ take chunk bs\<rparr>)
     | Out_sent k # rs \<Rightarrow> (Out_sent (min k chunk), c\<lparr>cn_sends := rs, cn_out := cn_out c @ take (min k chunk) bs\<rparr>)
     | r # rs \<Rightarrow> (r, c\<lparr>cn_sends := rs\<rparr>))"

text \<open>\<^verbatim>\<open>retry_pause\<close> yields the processor, and gives up after 30000 times.\<close>

definition retry_pause :: "nat \<Rightarrow> nat option" where
  "retry_pause retries = (if Suc retries > 30000 then None else Some (Suc retries))"

function scp_write_all :: "nat \<Rightarrow> byte list \<Rightarrow> conn \<Rightarrow> bool \<times> conn" where
  "scp_write_all retries bs c = (if bs = [] then (True, c) else case scp_write bs c of
       (Out_intr, c) \<Rightarrow> scp_write_all retries bs c
     | (Out_again, c) \<Rightarrow> (case retry_pause retries of None \<Rightarrow> (False, c) | Some retries \<Rightarrow> scp_write_all retries bs c)
     | (Out_error, c) \<Rightarrow> (False, c)
     | (Out_sent k, c) \<Rightarrow> if k = 0 then (False, c) else scp_write_all 0 (drop k bs) c)"
  by pat_completeness auto

termination
  by (relation "measures [\<lambda>(retries, bs, c). length bs, \<lambda>(retries, bs, c). length (cn_sends c)]")
    (auto simp: scp_write_def Let_def split: list.splits conn_send.splits if_splits)

declare scp_write_all.simps [simp del]

text \<open>Reading moves forward.\<close>

fun left :: "conn_in list \<Rightarrow> nat" where
  "left [] = 0"
| "left (In_bytes bs # rs) = Suc (length bs) + left rs"
| "left (r # rs) = Suc (left rs)"

lemma conn_read_left:
  "conn_read len c = (r, c') \<Longrightarrow> left (cn_in c') \<le> left (cn_in c)"
  "conn_read len c = (r, c') \<Longrightarrow> 0 < len \<Longrightarrow> r \<noteq> In_bytes [] \<Longrightarrow> left (cn_in c') < left (cn_in c)"
  by (auto simp: conn_read_def split: list.splits conn_in.splits if_splits)

lemma conn_read_len: "conn_read len c = (In_bytes bs, c') \<Longrightarrow> length bs \<le> len"
  by (auto simp: conn_read_def split: list.splits conn_in.splits if_splits)

function read_all :: "nat \<Rightarrow> nat \<Rightarrow> byte list \<Rightarrow> conn \<Rightarrow> byte list option \<times> conn" where
  "read_all retries len acc c = (if len = 0 then (Some acc, c) else case conn_read len c of
       (In_intr, c) \<Rightarrow> read_all retries len acc c
     | (In_again, c) \<Rightarrow> (case retry_pause retries of None \<Rightarrow> (None, c) | Some retries \<Rightarrow> read_all retries len acc c)
     | (In_error, c) \<Rightarrow> (None, c)
     | (In_bytes bs, c) \<Rightarrow> if bs = [] then (None, c) else read_all 0 (len - length bs) (acc @ bs) c)"
  by pat_completeness auto

termination
  by (relation "measure (\<lambda>(retries, len, acc, c). left (cn_in c))") (auto dest: conn_read_left(2) [OF sym])

declare read_all.simps [simp del]

text \<open>
  \<^verbatim>\<open>read_line\<close> reads byte by byte into an array of 1024 bytes: \<open>Some (Some line)\<close> for a line with its newline, \<open>Some None\<close> for the end of the
  stream before a line, \<open>None\<close> for an error.
\<close>

function read_line :: "nat \<Rightarrow> byte list \<Rightarrow> conn \<Rightarrow> byte list option option \<times> conn" where
  "read_line retries line c = (if length line + 1 \<ge> 1024 then (None, c) else case conn_read 1 c of
       (In_intr, c) \<Rightarrow> read_line retries line c
     | (In_again, c) \<Rightarrow> (case retry_pause retries of None \<Rightarrow> (None, c) | Some retries \<Rightarrow> read_line retries line c)
     | (In_error, c) \<Rightarrow> (None, c)
     | (In_bytes bs, c) \<Rightarrow> if bs = [] then (if line = [] then (Some None, c) else (None, c))
         else if bs = [0x0a] then (Some (Some (line @ bs)), c) else read_line 0 (line @ bs) c)"
  by pat_completeness auto

termination
  by (relation "measure (\<lambda>(retries, line, c). left (cn_in c))") (auto dest: conn_read_left(2) [OF sym])

declare read_line.simps [simp del]

definition send_status :: "byte \<Rightarrow> byte list \<Rightarrow> conn \<Rightarrow> bool \<times> conn" where
  "send_status status msg c = (case scp_write_all 0 [status] c of (ok, c) \<Rightarrow>
     if \<not> ok then (False, c)
     else if status \<noteq> 0 \<and> msg \<noteq> [] then (case scp_write_all 0 msg c of (ok, c) \<Rightarrow>
       if \<not> ok then (False, c) else scp_write_all 0 [0x0a] c)
     else (True, c))"

definition read_status :: "conn \<Rightarrow> bool \<times> conn" where
  "read_status c = (case read_all 0 1 [] c of (None, c) \<Rightarrow> (False, c)
     | (Some st, c) \<Rightarrow> if st = [0] then (True, c)
         else (False, if st = [1] \<or> st = [2] then snd (read_line 0 [] c) else c))"

section \<open>The request\<close>

datatype ps4_scp_mode = PS4_SCP_RECEIVE | PS4_SCP_SEND

record ps4_scp_request =
  rq_mode :: ps4_scp_mode
  rq_path :: path
  rq_preserve :: bool
  rq_target_dir :: bool

abbreviation PS4_SCP_PATH_MAX :: nat where "PS4_SCP_PATH_MAX \<equiv> PS4_SHELL_PATH_MAX"
abbreviation PS4_SCP_MAX_FILE_SIZE :: nat where "PS4_SCP_MAX_FILE_SIZE \<equiv> 8589934592"
abbreviation PS4_SCP_SAFE_SEND_MAX :: nat where "PS4_SCP_SAFE_SEND_MAX \<equiv> 8192"

text \<open>The letters of one option, and the loop over the options; the last word is the path. The splitting is that of the shell.\<close>

type_synonym scp_flags = "ps4_scp_mode option \<times> bool \<times> bool"

fun scp_letters :: "byte list \<Rightarrow> scp_flags \<Rightarrow> scp_flags option" where
  "scp_letters [] fl = Some fl"
| "scp_letters (c # cs) (mode, p, d) =
     (if c = 0x74 then (if mode \<noteq> None then None else scp_letters cs (Some PS4_SCP_RECEIVE, p, d))
      else if c = 0x66 then (if mode \<noteq> None then None else scp_letters cs (Some PS4_SCP_SEND, p, d))
      else if c = 0x70 then scp_letters cs (mode, True, d)
      else if c = 0x64 then scp_letters cs (mode, p, True)
      else if c \<in> set (str ''vqT'') then scp_letters cs (mode, p, d)
      else None)"

fun scp_options :: "byte list list \<Rightarrow> scp_flags \<Rightarrow> scp_flags option" where
  "scp_options [] fl = Some fl"
| "scp_options (opt # opts) fl =
     (if opt = str ''--'' then (if opts \<noteq> [] then None else Some fl)
      else case opt of c # cs \<Rightarrow> if c \<noteq> 0x2d \<or> cs = [] then None
          else (case scp_letters cs fl of None \<Rightarrow> None | Some fl \<Rightarrow> scp_options opts fl)
        | [] \<Rightarrow> None)"

definition ps4_scp_parse_command :: "byte list \<Rightarrow> byte list \<Rightarrow> ps4_scp_request option res" where
  "ps4_scp_parse_command command cwd = rbind (split_command command) (\<lambda>r. case r of Inl _ \<Rightarrow> Inr None
     | Inr argv \<Rightarrow> if length argv < 3 \<or> hd argv \<noteq> str ''scp'' then Inr None
         else case scp_options (butlast (tl argv)) (None, False, False) of None \<Rightarrow> Inr None
         | Some (mode, p, d) \<Rightarrow> (case mode of None \<Rightarrow> Inr None | Some mode \<Rightarrow>
             rbind (ps4_shell_resolve cwd (last argv) PS4_SCP_PATH_MAX) (\<lambda>path. case path of None \<Rightarrow> Inr None
             | Some path \<Rightarrow> Inr (Some \<lparr>rq_mode = mode, rq_path = path, rq_preserve = p, rq_target_dir = d\<rparr>))))"

definition safe_name :: "byte list \<Rightarrow> bool" where
  "safe_name name \<longleftrightarrow> name \<noteq> [] \<and> name \<noteq> [dot] \<and> name \<noteq> [dot, dot] \<and> slash \<notin> set name \<and> backslash \<notin> set name"

section \<open>Receiving\<close>

text \<open>
  The loop that moves the bytes of the file; the inner loop that writes a buffer out is the one of \<^verbatim>\<open>copy_file\<close>. The value is whether it
  succeeded.
\<close>

function receive_loop :: "nat \<Rightarrow> nat \<Rightarrow> nat \<Rightarrow> nat \<Rightarrow> conn \<times> fs \<Rightarrow> bool \<times> conn \<times> fs" where
  "receive_loop retries outp off remaining (c, f) = (if remaining = 0 then (True, c, f) else
     case conn_read (min remaining 4096) c of
       (In_intr, c) \<Rightarrow> receive_loop retries outp off remaining (c, f)
     | (In_again, c) \<Rightarrow> (case retry_pause retries of None \<Rightarrow> (False, c, f) | Some retries \<Rightarrow> receive_loop retries outp off remaining (c, f))
     | (In_error, c) \<Rightarrow> (False, c, f)
     | (In_bytes bs, c) \<Rightarrow> if bs = [] then (False, c, f)
         else (case copy_out outp off bs f of (ok, f) \<Rightarrow>
           if ok then receive_loop 0 outp (off + length bs) (remaining - length bs) (c, f) else (False, c, f)))"
  by pat_completeness auto

termination
  by (relation "measure (\<lambda>(retries, outp, off, remaining, c, f). left (cn_in c))") (auto dest: conn_read_left(2) [OF sym])

declare receive_loop.simps [simp del]

definition temporary :: "path \<Rightarrow> path" where
  "temporary p = p @ str ''.ps4scp-part''"

definition receive_file :: "path \<Rightarrow> nat \<Rightarrow> nat \<Rightarrow> conn \<times> fs \<Rightarrow> bool \<times> conn \<times> fs" where
  "receive_file p mode rsize = (\<lambda>(c, f). if length (temporary p) \<ge> PS4_SCP_PATH_MAX then (False, c, f)
     else case sys_unlink (temporary p) f of (_, f) \<Rightarrow>
     case sys_open_write (temporary p) False True (mode mod 512) f of (None, f) \<Rightarrow> (False, c, f)
     | (Some outp, f) \<Rightarrow>
       case send_status 0 [] c of (ok, c) \<Rightarrow>
       case (if ok then receive_loop 0 outp 0 rsize (c, f) else (False, c, f)) of (ok, c, f) \<Rightarrow>
       case (if ok then (case read_all 0 1 [] c of (r, c) \<Rightarrow> (r = Some [0], c)) else (False, c)) of (ok, c) \<Rightarrow>
       case sys_close f of (cl, f) \<Rightarrow>
       if \<not> ok \<or> cl = None then (case sys_unlink (temporary p) f of (_, f) \<Rightarrow> (False, c, f))
       else case sys_rename (temporary p) p f of
         (None, f) \<Rightarrow> (case sys_unlink (temporary p) f of (_, f) \<Rightarrow> (False, c, f))
       | (Some _, f) \<Rightarrow> (case send_status 0 [] c of (ok, c) \<Rightarrow> (ok, c, f)))"

text \<open>
  A control record \<^verbatim>\<open>C<mode> <size> <name>\<close>: the mode, the size and the name. The record is a C string, which ends at the first null byte.
\<close>

definition parse_control :: "byte list \<Rightarrow> (nat \<times> nat \<times> byte list) option" where
  "parse_control record = (let line = cstr record in case strtoul 8 (tl line) of (mode, rest, erange) \<Rightarrow>
     if erange \<or> rest = tl line \<or> rest = [] \<or> hd rest \<noteq> 0x20 then None
     else case strtoul 10 (tl rest) of (rsize, rest', erange) \<Rightarrow>
       if erange \<or> rest' = tl rest \<or> rest' = [] \<or> hd rest' \<noteq> 0x20 \<or> rsize > PS4_SCP_MAX_FILE_SIZE then None
       else let name = takeWhile (\<lambda>b. b \<noteq> 0x0a) (tl rest') in if 0x0a \<in> set (tl rest') \<and> safe_name name then Some (mode, rsize, name) else None)"

definition destination :: "ps4_scp_request \<Rightarrow> bool \<Rightarrow> bool \<Rightarrow> byte list \<Rightarrow> path option" where
  "destination request is_directory received name = (if is_directory
     then (if length (join (rq_path request) name) \<ge> PS4_SCP_PATH_MAX then None else Some (join (rq_path request) name))
     else if received then None else Some (take (PS4_SCP_PATH_MAX - 1) (rq_path request)))"

text \<open>Nothing the service does gives bytes back to the stream.\<close>

lemma scp_write_in: "scp_write bs c = (r, c') \<Longrightarrow> cn_in c' = cn_in c"
  by (auto simp: scp_write_def Let_def split: list.splits conn_send.splits)

lemma scp_write_all_in: "scp_write_all retries bs c = (ok, c') \<Longrightarrow> cn_in c' = cn_in c"
proof (induction retries bs c rule: scp_write_all.induct)
  case (1 retries bs c)
  obtain r d where w: "scp_write bs c = (r, d)" by force
  show ?case
    using "1.prems" scp_write_in [OF w] "1.IH" [OF _ w [symmetric]] w
    by (subst (asm) (1) scp_write_all.simps) (auto split: if_splits conn_send.splits option.splits)
qed

lemma send_status_in: "send_status status msg c = (ok, c') \<Longrightarrow> cn_in c' = cn_in c"
  by (auto simp: send_status_def split: prod.splits if_splits dest!: scp_write_all_in)

lemma read_all_left: "read_all retries len acc c = (r, c') \<Longrightarrow> left (cn_in c') \<le> left (cn_in c)"
proof (induction retries len acc c rule: read_all.induct)
  case (1 retries len acc c)
  obtain r d where w: "conn_read len c = (r, d)" by force
  show ?case
    using "1.prems" conn_read_left(1) [OF w] "1.IH" [OF _ w [symmetric]] w
    by (subst (asm) (1) read_all.simps) (fastforce split: if_splits conn_in.splits option.splits)
qed

lemma read_line_left: "read_line retries line c = (r, c') \<Longrightarrow> left (cn_in c') \<le> left (cn_in c) \<and> (r \<noteq> None \<longrightarrow> r \<noteq> Some None \<longrightarrow> left (cn_in c') < left (cn_in c))"
proof (induction retries line c rule: read_line.induct)
  case (1 retries line c)
  obtain r d where w: "conn_read 1 c = (r, d)" by force
  have l: "r \<noteq> In_bytes [] \<Longrightarrow> left (cn_in d) < left (cn_in c)" using conn_read_left(2) [OF w] by simp
  show ?case
    using "1.prems" conn_read_left(1) [OF w] l "1.IH" [OF _ w [symmetric]] w
    by (subst (asm) (1) read_line.simps) (fastforce split: if_splits conn_in.splits option.splits)
qed

lemma receive_loop_left: "receive_loop retries outp off remaining st = (ok, c', f') \<Longrightarrow> left (cn_in c') \<le> left (cn_in (fst st))"
proof (induction retries outp off remaining st arbitrary: ok c' f' rule: receive_loop.induct)
  case (1 retries outp off remaining c f)
  obtain r d where w: "conn_read (min remaining 4096) c = (r, d)" by force
  show ?case
    using "1.prems" conn_read_left(1) [OF w] "1.IH" [OF _ w [symmetric]] w
    by (subst (asm) (1) receive_loop.simps) (fastforce split: if_splits conn_in.splits option.splits prod.splits)
qed

lemma receive_file_left: "receive_file p mode rsize st = (ok, c', f') \<Longrightarrow> left (cn_in c') \<le> left (cn_in (fst st))"
  by (cases st) (fastforce simp: receive_file_def split: prod.splits if_splits option.splits dest!: send_status_in receive_loop_left read_all_left)

text \<open>
  The loop over the records, with whether the target is a directory and whether a file was received; the value is the exit status. A
  \<^verbatim>\<open>T\<close> record with times is acknowledged and ignored.
\<close>

lemma serve_step_left:
  assumes "(Some (Some line), d) = read_line 0 [] c"
  shows "(ok, d') = send_status x m d \<Longrightarrow> left (cn_in d') < left (cn_in c)"
    and "(case receive_file p mode rsize (d, f) of (ok, d', f') \<Rightarrow> left (cn_in d')) < left (cn_in c)"
  using read_line_left [OF assms [symmetric]] send_status_in [OF sym, of ok d' x m d] receive_file_left [of p mode rsize "(d, f)"]
  by (auto split: prod.split dest: le_less_trans)

function receive_records :: "ps4_scp_request \<Rightarrow> bool \<Rightarrow> bool \<Rightarrow> conn \<times> fs \<Rightarrow> int \<times> conn \<times> fs" where
  "receive_records request is_directory received (c, f) = (case read_line 0 [] c of
       (Some None, c) \<Rightarrow> (0, c, f)
     | (None, c) \<Rightarrow> (1, c, f)
     | (Some (Some line), c) \<Rightarrow>
         if hd line = 0x54 then (case send_status 0 [] c of (ok, c) \<Rightarrow>
           if ok then receive_records request is_directory received (c, f) else (1, c, f))
         else if hd line \<noteq> 0x43 then (1, snd (send_status 1 (str ''scp: only regular files are supported'') c), f)
         else case parse_control line of
           None \<Rightarrow> (1, snd (send_status 1 (str ''scp: invalid control record'') c), f)
         | Some (mode, rsize, name) \<Rightarrow> (case destination request is_directory received name of
             None \<Rightarrow> (1, snd (send_status 1 (str ''scp: invalid control record'') c), f)
           | Some p \<Rightarrow> (case receive_file p mode rsize (c, f) of (ok, c, f) \<Rightarrow>
               if ok then receive_records request is_directory True (c, f) else (1, c, f))))"
  by pat_completeness auto

termination
  by (relation "measure (\<lambda>(request, is_directory, received, c, f). left (cn_in c))") (auto intro: serve_step_left)

declare receive_records.simps [simp del]

definition serve_receive :: "ps4_scp_request \<Rightarrow> conn \<times> fs \<Rightarrow> int \<times> conn \<times> fs" where
  "serve_receive request = (\<lambda>(c, f). case sys_stat (rq_path request) f of (r, f) \<Rightarrow>
     let is_directory = (case r of None \<Rightarrow> False | Some st \<Rightarrow> in_node st = Directory) in
     if rq_target_dir request \<and> \<not> is_directory then (1, snd (send_status 1 (str ''scp: target is not a directory'') c), f)
     else case send_status 0 [] c of (ok, c) \<Rightarrow>
       if ok then receive_records request is_directory False (c, f) else (1, c, f))"

section \<open>Sending\<close>

text \<open>The loop that sends the file; a read that is interrupted is repeated.\<close>

function send_loop :: "nat \<Rightarrow> nat \<Rightarrow> nat \<Rightarrow> conn \<times> fs \<Rightarrow> bool \<times> conn \<times> fs" where
  "send_loop n off remaining (c, f) = (if remaining = 0 then (True, c, f) else
     case sys_read n off (min remaining 4096) f of
       (None, f) \<Rightarrow> if fs_errno f = EINTR then send_loop n off remaining (c, f) else (False, c, f)
     | (Some bs, f) \<Rightarrow> if bs = [] then (False, c, f)
         else (case scp_write_all 0 bs c of (ok, c) \<Rightarrow>
           if ok then send_loop n (off + length bs) (remaining - length bs) (c, f) else (False, c, f)))"
  by pat_completeness auto

termination
proof (relation "measures [\<lambda>(n, off, remaining, c, f). length (bytes_of (in_node (ino n f))) - off,
    \<lambda>(n, off, remaining, c, f). length (fs_faults f)]", goal_cases)
  case 2
  then show ?case using sys_read_again [OF sym] by auto
qed (auto dest: sys_read_progress [OF sym])

declare send_loop.simps [simp del]

definition control_record :: "inode \<Rightarrow> byte list \<Rightarrow> byte list" where
  "control_record st name = 0x43 # pad 0x30 4 (digits 8 (in_mode st mod 512)) @ [0x20] @ digits 10 (st_size st) @ [0x20] @ name @ [0x0a]"

definition serve_send :: "ps4_scp_request \<Rightarrow> conn \<times> fs \<Rightarrow> int \<times> conn \<times> fs" where
  "serve_send request = (\<lambda>(c, f). case read_status c of (ok, c) \<Rightarrow> if \<not> ok then (1, c, f) else
     case sys_stat (rq_path request) f of (r, f) \<Rightarrow>
     let refuse = (\<lambda>msg. (1, snd (send_status 1 msg c), f)) in
     case r of None \<Rightarrow> refuse (str ''scp: source is not a regular file'')
     | Some st \<Rightarrow> (case in_node st of
         Directory \<Rightarrow> refuse (str ''scp: source is not a regular file'')
       | Other \<Rightarrow> refuse (str ''scp: source is not a regular file'')
       | Reg _ \<Rightarrow> if st_size st > PS4_SCP_SAFE_SEND_MAX
           then refuse (str ''scp: downloads are limited to 8192 bytes; use GoldHEN FTP for larger files'')
         else let name = basename (rq_path request) in
           if \<not> safe_name name then (1, c, f)
           else let control = control_record st name in
           if length control \<ge> PS4_SCP_PATH_MAX + 64 then (1, c, f)
           else case scp_write_all 0 control c of (ok, c) \<Rightarrow> if \<not> ok then (1, c, f)
           else case read_status c of (ok, c) \<Rightarrow> if \<not> ok then (1, c, f)
           else case sys_open_read (rq_path request) f of (None, f) \<Rightarrow> (1, c, f)
           | (Some n, f) \<Rightarrow> (case send_loop n 0 (st_size st) (c, f) of (ok, c, f) \<Rightarrow> if \<not> ok then (1, c, f)
               else case sys_close f of (None, f) \<Rightarrow> (1, c, f)
               | (Some _, f) \<Rightarrow> (case scp_write_all 0 [0] c of (ok, c) \<Rightarrow> if \<not> ok then (1, c, f)
                   else case read_status c of (ok, c) \<Rightarrow> (if ok then 0 else 1, c, f)))))"

definition ps4_scp_serve :: "ps4_scp_request \<Rightarrow> conn \<times> fs \<Rightarrow> int \<times> conn \<times> fs" where
  "ps4_scp_serve request st = (case rq_mode request of PS4_SCP_RECEIVE \<Rightarrow> serve_receive request st | PS4_SCP_SEND \<Rightarrow> serve_send request st)"

section \<open>What reception changes\<close>

text \<open>
  \<open>confined T N f g\<close>: between \<open>f\<close> and \<open>g\<close> only the paths in \<open>T\<close> may have changed their meaning, and the first \<open>N\<close> inodes are as they were.
\<close>

definition confined :: "path set \<Rightarrow> nat \<Rightarrow> fs \<Rightarrow> fs \<Rightarrow> bool" where
  "confined T N f g \<longleftrightarrow> (\<forall>p. p \<notin> T \<longrightarrow> map_of (fs_names g) p = map_of (fs_names f) p) \<and> (\<forall>n < N. ino n g = ino n f)
     \<and> length (fs_inodes f) \<le> length (fs_inodes g)"

lemma confined_refl [simp]: "confined T N f f"
  by (simp add: confined_def)

lemma confined_trans: "confined T N f g \<Longrightarrow> confined T N g h \<Longrightarrow> confined T N f h"
  by (simp add: confined_def)

lemma confined_mono: "confined T N f g \<Longrightarrow> T \<subseteq> U \<Longrightarrow> M \<le> N \<Longrightarrow> confined U M f g"
  unfolding confined_def by (meson less_le_trans subsetD)

lemma confined_same: "fs_names g = fs_names f \<Longrightarrow> fs_inodes g = fs_inodes f \<Longrightarrow> confined T N f g"
  by (simp add: confined_def ino_def)

lemma confined_call:
  assumes "\<And>f'. fs_names f' = fs_names f \<Longrightarrow> fs_inodes f' = fs_inodes f \<Longrightarrow> confined T N f' (snd (k f'))"
  shows "confined T N f (snd (call k f))"
proof -
  have "confined T N (f\<lparr>fs_faults := x\<rparr>) (snd (k (f\<lparr>fs_faults := x\<rparr>)))" for x by (rule assms) simp_all
  then have "confined T N f (snd (k (f\<lparr>fs_faults := x\<rparr>)))" for x by (simp add: confined_def ino_def)
  then show ?thesis using call_cases [of k f] by (auto simp: fail_def seterr_def intro: confined_same)
qed

lemma map_of_filter_ne: "x \<noteq> p \<Longrightarrow> map_of (filter (\<lambda>(q, n). q \<noteq> p) xs) x = map_of xs x"
  by (induction xs) auto

lemma map_of_rename:
  "x \<noteq> p \<Longrightarrow> x \<noteq> q \<Longrightarrow> map_of (map (\<lambda>(y, n). (if y = p then q else y, n)) xs) x = map_of xs x"
  by (induction xs) auto

lemma unlink_confined: "confined {p} N f (snd (sys_unlink p f))"
  unfolding sys_unlink_def
  by (rule confined_call) (auto simp: fail_def seterr_def drop_name_def confined_def ino_def map_of_filter_ne)

lemma close_confined: "confined T N f (snd (sys_close f))"
  unfolding sys_close_def by (rule confined_call) simp

lemma open_excl_confined: "N \<le> length (fs_inodes f) \<Longrightarrow> confined {p} N f (snd (sys_open_write p False True mode f))"
  unfolding sys_open_write_def
  by (rule confined_call)
    (auto simp: fail_def seterr_def create_def confined_def ino_def nth_append map_add_def split: option.splits)

lemma rename_file_confined:
  assumes "\<not> is_dir p f"
  shows "confined {p, q} N f (snd (sys_rename p q f))"
  unfolding sys_rename_def
proof (rule confined_call)
  fix f' :: fs assume e: "fs_names f' = fs_names f" "fs_inodes f' = fs_inodes f"
  have nd: "\<not> is_dir p f'" using assms inode_at_same [of f' f p] e by (simp add: is_dir_def ino_def split: option.splits)
  have "move_names p q f' = f'\<lparr>fs_names := map (\<lambda>(y, n). (if y = p then q else y, n)) (filter (\<lambda>(x, n). x \<noteq> q) (fs_names f'))\<rparr>"
    using nd by (auto simp: move_names_def)
  then have "confined {p, q} N f' (move_names p q f')"
    by (auto simp: confined_def ino_def map_of_rename map_of_filter_ne)
  then show "confined {p, q} N f' (snd (if inode_at p f' = None \<or> \<not> is_dir (parent q) f' then fail ENOENT f'
     else if inode_at q f' = inode_at p f' then (Some (), f')
     else if is_dir p f' \<and> below p q then fail EINVAL f'
     else if inode_at q f' \<noteq> None \<and> is_dir p f' \<and> \<not> is_dir q f' then fail ENOTDIR f'
     else if is_dir q f' \<and> \<not> is_dir p f' then fail EISDIR f'
     else if is_dir q f' \<and> children q f' \<noteq> [] then fail ENOTEMPTY f'
     else (Some (), move_names p q f')))"
    by (auto simp: fail_def seterr_def intro: confined_same)
qed

lemma copy_out_names: "copy_out n off bs f = (ok, g) \<Longrightarrow> fs_names g = fs_names f \<and> length (fs_inodes g) = length (fs_inodes f)"
proof (induction n off bs f rule: copy_out.induct)
  case (1 n off bs f)
  obtain r h where w: "sys_write n off bs f = (r, h)" by force
  show ?case
    using "1.prems" "1.IH" [OF _ w [symmetric]] w sys_write_same(2) [OF w] sys_write_other(2) [OF w]
    by (subst (asm) (1) copy_out.simps) (auto split: option.splits if_splits)
qed

lemma copy_out_confined: "N \<le> n \<Longrightarrow> confined T N f (snd (copy_out n off bs f))"
  using copy_out_names [of n off bs f] copy_out_other [of n off bs f]
  by (cases "copy_out n off bs f") (auto simp: confined_def)

lemma receive_loop_confined: "N \<le> n \<Longrightarrow> confined T N (snd st) (snd (snd (receive_loop retries n off remaining st)))"
proof (induction retries n off remaining st rule: receive_loop.induct)
  case (1 retries n off remaining c f)
  obtain r d where w: "conn_read (min remaining 4096) c = (r, d)" by force
  have IH: "confined T N f (snd (snd (receive_loop 0 n (off + length bs) (remaining - length bs) (d, g))))"
    if "remaining \<noteq> 0" "r = In_bytes bs" "bs \<noteq> []" "copy_out n off bs f = (True, g)" for bs g
    using "1.IH"(1) [OF that(1) w [symmetric] that(2,3) that(4) [symmetric]] copy_out_confined [OF "1.prems", of T f off bs] that(4) "1.prems"
    by (auto intro: confined_trans)
  show ?case
    by (subst receive_loop.simps) (use w "1.IH"(2,3) [OF _ w [symmetric]] IH copy_out_confined [OF "1.prems", of T f off] "1.prems" in
      \<open>auto split: conn_in.split option.split prod.split; metis snd_conv\<close>)
qed

text \<open>The bytes a stream will deliver.\<close>

fun wire :: "conn_in list \<Rightarrow> byte list" where
  "wire [] = []"
| "wire (In_bytes bs # rs) = bs @ wire rs"
| "wire (r # rs) = wire rs"

lemma conn_read_wire: "conn_read len c = (r, c') \<Longrightarrow> wire (cn_in c) = (case r of In_bytes bs \<Rightarrow> bs | _ \<Rightarrow> []) @ wire (cn_in c')"
  by (auto simp: conn_read_def split: list.splits conn_in.splits if_splits)

lemma read_all_wire: "read_all retries len acc c = (Some bs, c') \<Longrightarrow> \<exists>d. bs = acc @ d \<and> length d = len \<and> wire (cn_in c) = d @ wire (cn_in c')"
proof (induction retries len acc c rule: read_all.induct)
  case (1 retries len acc c)
  obtain r d where w: "conn_read len c = (r, d)" by force
  show ?case
  proof (cases "len = 0")
    case True
    then show ?thesis using "1.prems" by (subst (asm) read_all.simps) auto
  next
    case False
    show ?thesis
      using "1.prems" conn_read_wire [OF w] conn_read_len [of len c _ d] "1.IH" [OF False w [symmetric]] w False
      by (subst (asm) (1) read_all.simps) (fastforce split: if_splits conn_in.splits option.splits)
  qed
qed

lemma sys_write_content:
  assumes "sys_write n (length old) bs f = (r, g)" and "n < length (fs_inodes f)" and "in_node (ino n f) = Reg old"
  shows "in_node (ino n g) = Reg (case r of None \<Rightarrow> old | Some k \<Rightarrow> old @ take k bs)"
  using assms call_cases [of "\<lambda>f. case io_size (length bs) f of (k, f) \<Rightarrow>
     (Some k, case in_node (ino n f) of
        Reg x \<Rightarrow> put_file n ((ino n f)\<lparr>in_node := Reg (take (length old) x @ take k bs @ drop (length old + k) x), in_mtime := fs_now f\<rparr>) f
      | Directory \<Rightarrow> f | Other \<Rightarrow> f)" f]
  by (auto simp: sys_write_def fail_def seterr_def put_file_def ino_def split: prod.splits node.splits dest!: io_size_le)

lemma copy_out_content:
  "copy_out n off bs f = (ok, g) \<Longrightarrow> off = length old \<Longrightarrow> n < length (fs_inodes f) \<Longrightarrow> in_node (ino n f) = Reg old \<Longrightarrow>
    \<exists>new. in_node (ino n g) = Reg new \<and> (ok \<longrightarrow> new = old @ bs)"
proof (induction n off bs f arbitrary: old rule: copy_out.induct)
  case (1 n off bs f)
  obtain r h where w: "sys_write n off bs f = (r, h)" by force
  have h: "in_node (ino n h) = Reg (case r of None \<Rightarrow> old | Some k \<Rightarrow> old @ take k bs)" "n < length (fs_inodes h)"
    using sys_write_content [OF w [unfolded "1.prems"(2)] "1.prems"(3,4)] sys_write_other(2) [OF w] "1.prems"(3) by auto
  show ?case
  proof (cases "bs = []")
    case True
    then show ?thesis using "1.prems" by (subst (asm) copy_out.simps) auto
  next
    case False
    show ?thesis
    proof (cases r)
      case None
      then show ?thesis
        using "1.prems"(1) "1.IH"(1) [OF False w [symmetric] None] "1.prems"(2) h w False
        by (subst (asm) copy_out.simps) (auto split: if_splits)
    next
      case (Some k)
      have k: "k \<le> length bs" using sys_write_same(4) [OF w Some] by simp
      then have l: "off + k = length (old @ take k bs)" using "1.prems"(2) by simp
      show ?thesis
      proof (cases "k = 0")
        case True
        then show ?thesis using "1.prems"(1) Some w False h by (subst (asm) copy_out.simps) auto
      next
        case nz: False
        have "copy_out n (off + k) (drop k bs) h = (ok, g)" using "1.prems"(1) Some w False nz by (subst (asm) copy_out.simps) auto
        from "1.IH"(2) [OF False w [symmetric] Some nz this l h(2)] show ?thesis using h(1) Some by simp
      qed
    qed
  qed
qed

lemma receive_loop_content:
  "receive_loop retries n off remaining st = (ok, c', g) \<Longrightarrow> off = length old \<Longrightarrow> n < length (fs_inodes (snd st)) \<Longrightarrow> in_node (ino n (snd st)) = Reg old \<Longrightarrow>
    \<exists>new. in_node (ino n g) = Reg new \<and> fs_names g = fs_names (snd st) \<and> length (fs_inodes g) = length (fs_inodes (snd st))
      \<and> (ok \<longrightarrow> (\<exists>d. new = old @ d \<and> length d = remaining \<and> wire (cn_in (fst st)) = d @ wire (cn_in c')))"
proof (induction retries n off remaining st arbitrary: old rule: receive_loop.induct)
  case (1 retries n off remaining c f)
  obtain r d where w: "conn_read (min remaining 4096) c = (r, d)" by force
  have wr: "wire (cn_in c) = (case r of In_bytes bs \<Rightarrow> bs | _ \<Rightarrow> []) @ wire (cn_in d)" by (rule conn_read_wire [OF w])
  show ?case
  proof (cases "remaining = 0")
    case True
    then show ?thesis using "1.prems" by (subst (asm) receive_loop.simps) auto
  next
    case False
    show ?thesis
    proof (cases r)
      case (In_bytes bs)
      have bl: "length bs \<le> remaining" using conn_read_len [OF w [unfolded In_bytes]] by simp
      obtain ok1 g1 where co: "copy_out n off bs f = (ok1, g1)" by force
      have old: "n < length (fs_inodes f)" "in_node (ino n f) = Reg old" using "1.prems"(3,4) by simp_all
      obtain new where new: "in_node (ino n g1) = Reg new" "ok1 \<longrightarrow> new = old @ bs" using copy_out_content [OF co "1.prems"(2) old] by blast
      have nm: "fs_names g1 = fs_names f" "length (fs_inodes g1) = length (fs_inodes f)" using copy_out_names [OF co] by auto
      show ?thesis
      proof (cases "bs \<noteq> [] \<and> ok1")
        case True
        have eq: "receive_loop 0 n (off + length bs) (remaining - length bs) (d, g1) = (ok, c', g)"
          using "1.prems"(1) False w In_bytes co True by (subst (asm) receive_loop.simps) auto
        have nx: "off + length bs = length new" "n < length (fs_inodes (snd (d, g1)))" "in_node (ino n (snd (d, g1))) = Reg new"
          using new True "1.prems"(2) nm old by auto
        have bs: "bs \<noteq> []" "(True, g1) = copy_out n off bs f" using True co by auto
        from "1.IH"(1) [OF False w [symmetric] In_bytes bs(1) bs(2) TrueI eq nx]
        show ?thesis using nm wr In_bytes new True bl by auto
      next
        case stop: False
        then show ?thesis using "1.prems"(1,3,4) False w In_bytes co new nm by (subst (asm) receive_loop.simps) (auto split: if_splits)
      qed
    next
      case In_intr
      have "receive_loop retries n off remaining (d, f) = (ok, c', g)"
        using "1.prems"(1) False w In_intr by (subst (asm) receive_loop.simps) auto
      from "1.IH"(2) [OF False w [symmetric] In_intr this "1.prems"(2)] show ?thesis using "1.prems"(3,4) wr In_intr by auto
    next
      case In_again
      show ?thesis
      proof (cases "retry_pause retries")
        case None
        then show ?thesis using "1.prems" False w In_again by (subst (asm) receive_loop.simps) auto
      next
        case (Some rt)
        have "receive_loop rt n off remaining (d, f) = (ok, c', g)"
          using "1.prems"(1) False w In_again Some by (subst (asm) receive_loop.simps) auto
        from "1.IH"(3) [OF False w [symmetric] In_again Some this "1.prems"(2)] show ?thesis using "1.prems"(3,4) wr In_again by auto
      qed
    next
      case In_error
      then show ?thesis using "1.prems" False w by (subst (asm) receive_loop.simps) auto
    qed
  qed
qed

definition fs_ok :: "fs \<Rightarrow> bool" where
  "fs_ok f \<longleftrightarrow> (\<forall>(x, n) \<in> set (fs_names f). n < length (fs_inodes f))"

lemma fs_ok_lookup: "fs_ok f \<Longrightarrow> map_of (fs_names f) x = Some n \<Longrightarrow> n < length (fs_inodes f)"
  by (auto simp: fs_ok_def dest: map_of_SomeD)

lemma content_confined:
  assumes "confined T (length (fs_inodes f)) f g" and "p \<notin> T" and "fs_ok f"
  shows "content p g = content p f"
  using assms fs_ok_lookup [OF assms(3), of p]
  by (auto simp: confined_def content_def inode_at_def split: option.splits)

lemma temporary_ne: "temporary p \<noteq> p"
  by (simp add: temporary_def str_def)

lemma unlink_ok: "sys_unlink p f = (r, g) \<Longrightarrow> fs_ok f \<Longrightarrow> fs_ok g \<and> fs_inodes g = fs_inodes f"
  using call_cases [of "\<lambda>f. if inode_at p f = None then fail ENOENT f else if is_dir p f then fail EPERM f else (Some (), drop_name p f)" f]
  by (auto simp: sys_unlink_def fail_def seterr_def drop_name_def fs_ok_def split: if_splits)

lemma open_excl_new:
  assumes "sys_open_write p False True mode f = (Some n, g)" and "fs_ok f"
  shows "n = length (fs_inodes f) \<and> inode_at p g = Some n \<and> in_node (ino n g) = Reg [] \<and> length (fs_inodes g) = Suc n"
proof -
  let ?k = "\<lambda>f. case inode_at p f of
       None \<Rightarrow> create p mode (Reg []) f
     | Some n \<Rightarrow> if True then fail EEXIST f
         else if in_node (ino n f) = Directory then fail EISDIR f
         else (Some n, if False \<and> in_node (ino n f) \<noteq> Other then put_file n ((ino n f)\<lparr>in_node := Reg [], in_mtime := fs_now f\<rparr>) f else f)"
  have "?k (f\<lparr>fs_faults := tl (fs_faults f)\<rparr>) = (Some n, g)" using assms(1) call_cases [of ?k f] by (auto simp: sys_open_write_def fail_def)
  moreover have "fs_ok (f\<lparr>fs_faults := tl (fs_faults f)\<rparr>)" using assms(2) by (simp add: fs_ok_def)
  ultimately show ?thesis using fs_ok_lookup [of "f\<lparr>fs_faults := tl (fs_faults f)\<rparr>" p]
    by (auto simp: create_def fail_def inode_at_def ino_def map_add_def nth_append split: option.splits if_splits)
qed

lemma map_of_renamed:
  "p \<noteq> q \<Longrightarrow> map_of (map (\<lambda>(y, n). (if y = p then q else y, n)) (filter (\<lambda>(x, n). x \<noteq> q) xs)) q = map_of xs p"
  by (induction xs) auto

lemma rename_file:
  assumes r: "sys_rename p q f = (r, g)" and n: "inode_at p f = Some n" and nd: "in_node (ino n f) \<noteq> Directory" and q: "inode_at q f \<noteq> Some n" and ne: "p \<noteq> q"
  shows "fs_inodes g = fs_inodes f" and "r = None \<Longrightarrow> fs_names g = fs_names f" and "r \<noteq> None \<Longrightarrow> inode_at q g = Some n"
proof -
  let ?f = "f\<lparr>fs_faults := tl (fs_faults f)\<rparr>"
  have e: "inode_at x ?f = inode_at x f" "is_dir x ?f = is_dir x f" for x by (simp_all add: inode_at_def is_dir_def ino_def split: option.split)
  have d: "\<not> is_dir p f" using n nd by (simp add: is_dir_def)
  have mv: "move_names p q ?f = ?f\<lparr>fs_names := map (\<lambda>(y, n). (if y = p then q else y, n)) (filter (\<lambda>(x, n). x \<noteq> q) (fs_names f))\<rparr>"
    using d by (auto simp: move_names_def e)
  have iq: "inode_at q (move_names p q ?f) = Some n"
    unfolding mv using n map_of_renamed [OF ne, of "fs_names f"] by (simp add: inode_at_def split: option.splits if_splits)
  note c = call_cases [of "\<lambda>f. if inode_at p f = None \<or> \<not> is_dir (parent q) f then fail ENOENT f
     else if inode_at q f = inode_at p f then (Some (), f)
     else if is_dir p f \<and> below p q then fail EINVAL f
     else if inode_at q f \<noteq> None \<and> is_dir p f \<and> \<not> is_dir q f then fail ENOTDIR f
     else if is_dir q f \<and> \<not> is_dir p f then fail EISDIR f
     else if is_dir q f \<and> children q f \<noteq> [] then fail ENOTEMPTY f
     else (Some (), move_names p q f)" f]
  show "fs_inodes g = fs_inodes f" and "r = None \<Longrightarrow> fs_names g = fs_names f" and "r \<noteq> None \<Longrightarrow> inode_at q g = Some n"
    using r c n q d iq unfolding sys_rename_def e
    by (auto simp: fail_def seterr_def move_names_def split: if_splits)
qed


text \<open>What a reception does to the file system, step by step; \<open>d\<close> are the bytes of the file.\<close>

definition received_as :: "path \<Rightarrow> nat \<Rightarrow> conn \<Rightarrow> conn \<Rightarrow> fs \<Rightarrow> bool" where
  "received_as p rsize c c' g \<longleftrightarrow> (\<exists>d. wire (cn_in c) = d @ 0 # wire (cn_in c') \<and> length d = rsize \<and> content p g = Some d)"

lemma receive_file_outcome:
  assumes r: "receive_file p mode rsize (c, f) = (ok, c', g)" and f: "fs_ok f"
  shows "(\<not> ok \<and> confined {temporary p} (length (fs_inodes f)) f g)
    \<or> (confined {p, temporary p} (length (fs_inodes f)) f g \<and> received_as p rsize c c' g)"
proof -
  let ?t = "temporary p" and ?N = "length (fs_inodes f)"
  obtain r1 f1 where u: "sys_unlink ?t f = (r1, f1)" by force
  have f1: "fs_ok f1" "fs_inodes f1 = fs_inodes f" "confined {?t} ?N f f1" using unlink_ok [OF u f] unlink_confined [of ?t ?N f] u by auto
  obtain r2 f2 where o: "sys_open_write ?t False True (mode mod 512) f1 = (r2, f2)" by force
  have f2: "confined {?t} ?N f f2" using confined_trans [OF f1(3)] open_excl_confined [of ?N f1 ?t "mode mod 512"] f1(2) o by simp
  have ul: "confined {?t} ?N f (snd (sys_unlink ?t h))" if "confined {?t} ?N f h" for h by (rule confined_trans [OF that unlink_confined])
  show ?thesis
  proof (cases "length ?t \<ge> PS4_SCP_PATH_MAX \<or> r2 = None")
    case True
    then show ?thesis using r u o f2 by (cases "length ?t \<ge> PS4_SCP_PATH_MAX") (auto simp: receive_file_def)
  next
    case False
    then obtain n where n: "r2 = Some n" by auto
    have new: "n = ?N" "inode_at ?t f2 = Some n" "in_node (ino n f2) = Reg []" "length (fs_inodes f2) = Suc n"
      using open_excl_new [OF o [unfolded n] f1(1)] f1(2) by auto
    obtain s1 c1 where s: "send_status 0 [] c = (s1, c1)" by force
    have c1: "cn_in c1 = cn_in c" by (rule send_status_in [OF s])
    obtain l1 c2 f3 where l: "(if s1 then receive_loop 0 n 0 rsize (c1, f2) else (False, c1, f2)) = (l1, c2, f3)" by (metis surj_pair)
    obtain data where f3: "in_node (ino n f3) = Reg data" "fs_names f3 = fs_names f2" "length (fs_inodes f3) = length (fs_inodes f2)"
        "l1 \<Longrightarrow> length data = rsize \<and> wire (cn_in c) = data @ wire (cn_in c2)"
      using receive_loop_content [of 0 n 0 rsize "(c1, f2)" l1 c2 f3 "[]"] l new c1 by (cases s1) auto
    have "confined {?t} ?N f2 f3" using receive_loop_confined [of ?N n "{?t}" "(c1, f2)" 0 0 rsize] l new(1) by (cases s1) auto
    then have f3c: "confined {?t} ?N f f3" by (rule confined_trans [OF f2])
    obtain e1 c3 where e: "(if l1 then (case read_all 0 1 [] c2 of (r, c) \<Rightarrow> (r = Some [0], c)) else (False, c2)) = (e1, c3)" by force
    have c3: "wire (cn_in c2) = 0 # wire (cn_in c3)" if e1
      using e that read_all_wire [of 0 1 "[]" c2 "[0]"] by (auto split: if_splits prod.splits simp: length_Suc_conv)
    have l1e: "e1 \<Longrightarrow> l1" using e by (simp split: if_splits)
    obtain k f4 where k: "sys_close f3 = (k, f4)" by force
    have f4: "fs_names f4 = fs_names f3" "fs_inodes f4 = fs_inodes f3"
      using k call_cases [of "\<lambda>f. (Some (), f)" f3] by (auto simp: sys_close_def fail_def seterr_def)
    have f4c: "confined {?t} ?N f f4" by (rule confined_trans [OF f3c confined_same [OF f4]])
    show ?thesis
    proof (cases "e1 \<and> k \<noteq> None")
      case bad: False
      have "receive_file p mode rsize (c, f) = (False, c3, snd (sys_unlink ?t f4))"
        unfolding receive_file_def using False bad u o n s l e k by (auto split: prod.split)
      then show ?thesis using r ul [OF f4c] by simp
    next
      case good: True
      obtain r5 f5 where rn: "sys_rename ?t p f4 = (r5, f5)" by force
      have it: "inode_at ?t f4 = Some n" "in_node (ino n f4) = Reg data"
        using inode_at_same [of f4 f2 ?t] f4 f3 new(2) by (simp_all add: ino_def)
      have ip: "inode_at p f4 \<noteq> Some n"
      proof
        assume "inode_at p f4 = Some n"
        then have "map_of (fs_names f4) p = Some n" by (auto simp: inode_at_def split: option.splits if_splits)
        then have "map_of (fs_names f) p = Some n" using f4c temporary_ne [of p] by (auto simp: confined_def)
        then show False using fs_ok_lookup [OF f] new(1) by blast
      qed
      have nd: "in_node (ino n f4) \<noteq> Directory" using it(2) by simp
      note rf = rename_file [OF rn it(1) nd ip temporary_ne]
      show ?thesis
      proof (cases r5)
        case None
        have "receive_file p mode rsize (c, f) = (False, c3, snd (sys_unlink ?t f5))"
          unfolding receive_file_def using False good u o n s l e k rn None by (auto split: prod.split)
        moreover have "confined {?t} ?N f f5" by (rule confined_trans [OF f4c confined_same]) (use rf None in auto)
        ultimately show ?thesis using r ul by simp
      next
        case (Some x)
        obtain s2 c4 where s2: "send_status 0 [] c3 = (s2, c4)" by force
        have "receive_file p mode rsize (c, f) = (s2, c4, f5)"
          unfolding receive_file_def using False good u o n s l e k rn Some s2 by auto
        then have res: "ok = s2" "c' = c4" "g = f5" using r by auto
        have "confined {p, ?t} ?N f4 f5" using rename_file_confined [of ?t f4 p ?N] it nd rn by (simp add: is_dir_def insert_commute)
        then have cf: "confined {p, ?t} ?N f f5" using confined_mono [OF f4c, of "{p, ?t}" ?N] confined_trans by blast
        have "content p f5 = Some data" using rf Some it(2) by (simp add: content_ino ino_def)
        moreover have "wire (cn_in c) = data @ 0 # wire (cn_in c4)" "length data = rsize"
          using good f3(4) [OF l1e] c3 send_status_in [OF s2] by auto
        ultimately show ?thesis using cf res by (auto simp: received_as_def)
      qed
    qed
  qed
qed


text \<open>
  C24. Receiving a file is all or nothing: whatever the peer sends and whichever calls fail, the destination is either exactly as before, and the reception failed, or it holds
  exactly the announced number of bytes, which are the bytes the stream delivered before the final null byte. No file that existed before
  is changed, and the only other path that may change is the temporary one.
\<close>

theorem receive_file_atomic:
  assumes "receive_file p mode rsize (c, f) = (ok, c', g)" and "fs_ok f"
  shows "((\<not> ok \<and> content p g = content p f)
      \<or> (\<exists>d. wire (cn_in c) = d @ 0 # wire (cn_in c') \<and> length d = rsize \<and> content p g = Some d))
    \<and> confined {p, temporary p} (length (fs_inodes f)) f g"
proof -
  have ne: "p \<notin> {temporary p}" using temporary_ne [of p] by auto
  show ?thesis
    using receive_file_outcome [OF assms] content_confined [OF _ ne assms(2), of g]
      confined_mono [of "{temporary p}" "length (fs_inodes f)" f g "{p, temporary p}"] by (auto simp: received_as_def)
qed

section \<open>Where received files go\<close>

lemma fs_ok_same: "fs_names g = fs_names f \<Longrightarrow> length (fs_inodes g) = length (fs_inodes f) \<Longrightarrow> fs_ok g = fs_ok f"
  by (simp add: fs_ok_def)

lemma call_fs_ok:
  assumes "\<And>f'. fs_ok f' \<Longrightarrow> fs_ok (snd (k f'))" and "fs_ok f"
  shows "fs_ok (snd (call k f))"
proof -
  have "fs_ok (f\<lparr>fs_faults := x\<rparr>)" for x using assms(2) by (simp add: fs_ok_def)
  then have "fs_ok (snd (k (f\<lparr>fs_faults := x\<rparr>)))" "fs_ok (snd (fail e (f\<lparr>fs_faults := x\<rparr>)))" for x e
    using assms(1) by (blast, simp add: fail_def seterr_def fs_ok_def)
  then show ?thesis using call_cases [of k f] by auto
qed

lemma calls_fs_ok:
  "fs_ok f \<Longrightarrow> fs_ok (snd (sys_unlink p f))" "fs_ok f \<Longrightarrow> fs_ok (snd (sys_open_write p trunc excl mode f))"
  "fs_ok f \<Longrightarrow> fs_ok (snd (sys_close f))" "fs_ok f \<Longrightarrow> fs_ok (snd (sys_rename p q f))" "fs_ok f \<Longrightarrow> fs_ok (snd (sys_stat p f))"
  unfolding sys_unlink_def sys_open_write_def sys_close_def sys_rename_def sys_stat_def
  by (rule call_fs_ok; auto simp: fail_def seterr_def drop_name_def create_def put_file_def move_names_def fs_ok_def less_Suc_eq split: option.split)+

lemma receive_loop_names:
  "fs_names (snd (snd (receive_loop retries n off remaining st))) = fs_names (snd st)
     \<and> length (fs_inodes (snd (snd (receive_loop retries n off remaining st)))) = length (fs_inodes (snd st))"
proof (induction retries n off remaining st rule: receive_loop.induct)
  case (1 retries n off remaining c f)
  obtain r d where w: "conn_read (min remaining 4096) c = (r, d)" by force
  have IH: "fs_names (snd (snd (receive_loop 0 n (off + length bs) (remaining - length bs) (d, g)))) = fs_names f
      \<and> length (fs_inodes (snd (snd (receive_loop 0 n (off + length bs) (remaining - length bs) (d, g))))) = length (fs_inodes f)"
    if "remaining \<noteq> 0" "r = In_bytes bs" "bs \<noteq> []" "copy_out n off bs f = (True, g)" for bs g
    using "1.IH"(1) [OF that(1) w [symmetric] that(2,3) that(4) [symmetric]] copy_out_names [OF that(4)] by simp
  show ?case
    by (subst (1 2) receive_loop.simps) (use w "1.IH"(2,3) [OF _ w [symmetric]] IH in
      \<open>auto split: conn_in.split option.split prod.split dest: copy_out_names\<close>)
qed

lemma receive_file_fs_ok:
  assumes r: "receive_file p mode rsize (c, f) = (ok, c', g)" and "fs_ok f"
  shows "fs_ok g"
proof -
  let ?t = "temporary p"
  obtain r1 f1 where u: "sys_unlink ?t f = (r1, f1)" by force
  obtain r2 f2 where o: "sys_open_write ?t False True (mode mod 512) f1 = (r2, f2)" by force
  have f2: "fs_ok f2" using calls_fs_ok(1) [OF assms(2), of ?t] calls_fs_ok(2) [of f1 ?t False True "mode mod 512"] u o by simp
  obtain s1 c1 where s: "send_status 0 [] c = (s1, c1)" by force
  obtain l1 c2 f3 where l: "(if s1 then receive_loop 0 (the r2) 0 rsize (c1, f2) else (False, c1, f2)) = (l1, c2, f3)" by (metis surj_pair)
  have "fs_names f3 = fs_names f2 \<and> length (fs_inodes f3) = length (fs_inodes f2)"
    using receive_loop_names [of 0 "the r2" 0 rsize "(c1, f2)"] l by (cases s1) auto
  then have f3: "fs_ok f3" using f2 by (simp add: fs_ok_def)
  obtain e1 c3 where e: "(if l1 then (case read_all 0 1 [] c2 of (r, c) \<Rightarrow> (r = Some [0], c)) else (False, c2)) = (e1, c3)" by force
  obtain k f4 where k: "sys_close f3 = (k, f4)" by force
  have f4: "fs_ok f4" using calls_fs_ok(3) [OF f3] k by simp
  obtain r5 f5 where rn: "sys_rename ?t p f4 = (r5, f5)" by force
  have f5: "fs_ok f5" using calls_fs_ok(4) [OF f4, of ?t p] rn by simp
  obtain s2 c4 where s2: "send_status 0 [] c3 = (s2, c4)" by force
  obtain x f6 where u6: "sys_unlink ?t f4 = (x, f6)" by force
  obtain y f7 where u7: "sys_unlink ?t f5 = (y, f7)" by force
  have f67: "fs_ok f6" "fs_ok f7" using calls_fs_ok(1) [OF f4, of ?t] calls_fs_ok(1) [OF f5, of ?t] u6 u7 by auto
  show ?thesis
  proof (cases "length ?t \<ge> PS4_SCP_PATH_MAX")
    case True
    then show ?thesis using r assms(2) by (simp add: receive_file_def)
  next
    case False
    show ?thesis
    proof (cases r2)
      case None
      then show ?thesis using r False u o f2 by (simp add: receive_file_def)
    next
      case (Some n)
      then have l': "(if s1 then receive_loop 0 n 0 rsize (c1, f2) else (False, c1, f2)) = (l1, c2, f3)" using l by (simp split: if_splits)
      have "receive_file p mode rsize (c, f) = (if \<not> e1 \<or> k = None then (False, c3, f6)
          else case r5 of None \<Rightarrow> (False, c3, f7) | Some _ \<Rightarrow> (s2, c4, f5))"
        unfolding receive_file_def using False u o Some s l' e k rn s2 u6 u7 by (simp split: option.split)
      then show ?thesis using r f5 f67 by (auto split: if_splits option.splits)
    qed
  qed
qed

text \<open>The paths a request may change: the requested one or those directly below it, and the temporary ones beside them.\<close>

definition targets :: "ps4_scp_request \<Rightarrow> path set" where
  "targets request = {rq_path request, temporary (rq_path request)}
     \<union> {join (rq_path request) x | x. x \<noteq> [] \<and> x \<noteq> [dot] \<and> x \<noteq> [dot, dot] \<and> slash \<notin> set x}"

lemma join_temporary: "temporary (join p x) = join p (x @ str ''.ps4scp-part'')"
  by (simp add: temporary_def join_def)

lemma no_slash_suffix: "slash \<notin> set (str ''.ps4scp-part'')"
  by (simp add: str_def)

lemma destination_targets:
  assumes "destination request is_directory received name = Some p" and "safe_name name" and "length (rq_path request) < PS4_SCP_PATH_MAX"
  shows "{p, temporary p} \<subseteq> targets request"
proof (cases is_directory)
  case True
  then have p: "p = join (rq_path request) name" using assms(1) by (auto simp: destination_def split: if_splits)
  have "name @ str ''.ps4scp-part'' \<notin> {[], [dot], [dot, dot]}" using assms(2) by (auto simp: safe_name_def str_def append_eq_Cons_conv)
  then show ?thesis using p assms(2) no_slash_suffix by (auto simp: targets_def join_temporary safe_name_def)
next
  case False
  then show ?thesis using assms by (auto simp: destination_def targets_def split: if_splits)
qed

lemma parse_control_safe: "parse_control line = Some (mode, rsize, name) \<Longrightarrow> safe_name name"
  by (auto simp: parse_control_def Let_def split: prod.splits if_splits)

lemma receive_records_confined:
  assumes "length (rq_path request) < PS4_SCP_PATH_MAX" and "fs_ok (snd st)" and "N \<le> length (fs_inodes (snd st))"
  shows "confined (targets request) N (snd st) (snd (snd (receive_records request is_directory received st)))"
  using assms
proof (induction request is_directory received st rule: receive_records.induct)
  case (1 request is_directory received c f)
  obtain r d where w: "read_line 0 [] c = (r, d)" by force
  show ?case
  proof (cases "\<exists>line. r = Some (Some line)")
    case False
    then show ?thesis using w by (subst receive_records.simps) (auto split: option.split)
  next
    case True
    then obtain line where line: "r = Some (Some line)" by blast
    obtain ok e where s: "send_status 0 [] d = (ok, e)" by force
    consider (times) "hd line = 0x54" | (bad) "hd line \<noteq> 0x54" "hd line \<noteq> 0x43 \<or> parse_control line = None"
      | (regular) mode rsize name where "hd line \<noteq> 0x54" "hd line = 0x43" "parse_control line = Some (mode, rsize, name)"
      by (cases "parse_control line") auto
    then show ?thesis
    proof cases
      case times
      have IH: "ok \<Longrightarrow> confined (targets request) N f (snd (snd (receive_records request is_directory received (e, f))))"
        using "1.IH"(1) [OF w [symmetric] line refl times s [symmetric]] "1.prems" by simp
      show ?thesis using w line times s IH by (subst receive_records.simps) auto
    next
      case bad
      then show ?thesis using w line by (subst receive_records.simps) (auto split: option.split)
    next
      case (regular mode rsize name)
      show ?thesis
      proof (cases "destination request is_directory received name")
        case None
        then show ?thesis using w line regular by (subst receive_records.simps) auto
      next
        case (Some p)
        obtain ok2 c2 g where rf: "receive_file p mode rsize (d, f) = (ok2, c2, g)" by (metis surj_pair)
        have f: "fs_ok f" using "1.prems" by simp
        have tg: "{p, temporary p} \<subseteq> targets request" by (rule destination_targets [OF Some parse_control_safe [OF regular(3)] "1.prems"(1)])
        have "confined {p, temporary p} (length (fs_inodes f)) f g"
          using receive_file_outcome [OF rf f] confined_mono [of "{temporary p}" "length (fs_inodes f)" f g "{p, temporary p}"] by auto
        then have cg: "confined (targets request) N f g" by (rule confined_mono [OF _ tg]) (use "1.prems" in simp)
        have g: "fs_ok g" "N \<le> length (fs_inodes g)" using receive_file_fs_ok [OF rf f] cg "1.prems"(3) by (auto simp: confined_def)
        have IH: "confined (targets request) N f (snd (snd (receive_records request is_directory True (c2, g))))" if ok2
          using "1.IH"(2) [OF w [symmetric] line refl regular(1) _ regular(3) refl refl Some rf [symmetric] refl that] regular(2) "1.prems"(1) g confined_trans [OF cg] by simp
        show ?thesis using w line regular Some rf IH cg by (subst receive_records.simps) auto
      qed
    qed
  qed
qed

text \<open>
  C25. A peer cannot make the service write outside the requested place: whatever bytes it sends, after receiving files every path other than the requested one, the
  paths directly below it and the temporary names beside them means what it meant before, and every file that existed before has the same
  content under its old inode. In particular names with a slash, \<^verbatim>\<open>.\<close> and \<^verbatim>\<open>..\<close> have no effect.
\<close>

theorem serve_receive_confined:
  assumes "length (rq_path request) < PS4_SCP_PATH_MAX" and "fs_ok f" and "serve_receive request (c, f) = (status, c', g)"
  shows "confined (targets request) (length (fs_inodes f)) f g"
proof -
  obtain r f1 where s: "sys_stat (rq_path request) f = (r, f1)" by force
  have f1: "fs_names f1 = fs_names f" "fs_inodes f1 = fs_inodes f"
    using s call_cases [of "\<lambda>f. case inode_at (rq_path request) f of None \<Rightarrow> fail ENOENT f | Some n \<Rightarrow> (Some (ino n f), f)" f]
    by (auto simp: sys_stat_def fail_def seterr_def split: option.splits)
  have ok: "fs_ok f1" using assms(2) f1 by (simp add: fs_ok_def)
  have rec: "confined (targets request) (length (fs_inodes f)) f (snd (snd (receive_records request b False (d, f1))))" for b d
    by (rule confined_trans [OF confined_same [OF f1]]) (use receive_records_confined [OF assms(1), of "(d, f1)"] ok f1 in simp)
  show ?thesis
    using assms(3) s confined_same [OF f1] rec unfolding serve_receive_def Let_def
    by (auto split: if_splits prod.splits option.splits; metis snd_conv)
qed

section \<open>Sending to the receiver\<close>

text \<open>A connection without interruptions that will deliver \<open>bs\<close> and has sent \<open>out\<close>.\<close>

definition link :: "byte list \<Rightarrow> byte list \<Rightarrow> conn" where
  "link bs out = \<lparr>cn_in = (if bs = [] then [] else [In_bytes bs]), cn_sends = [], cn_out = out\<rparr>"

lemma link_read: "0 < len \<Longrightarrow> conn_read len (link bs out) = (In_bytes (take len bs), link (drop len bs) out)"
  by (auto simp: link_def conn_read_def)

lemma link_write_all: "scp_write_all r bs (link xs out) = (True, link xs (out @ bs))"
proof (induction "length bs" arbitrary: bs out r rule: less_induct)
  case less
  show ?case
  proof (cases "bs = []")
    case False
    let ?k = "min (length bs) 512"
    have w: "scp_write bs (link xs out) = (Out_sent ?k, link xs (out @ take ?k bs))" by (simp add: scp_write_def link_def Let_def)
    have "scp_write_all 0 (drop ?k bs) (link xs (out @ take ?k bs)) = (True, link xs ((out @ take ?k bs) @ drop ?k bs))"
      by (rule less) (use False in simp)
    then show ?thesis using False w by (subst scp_write_all.simps) simp
  qed (subst scp_write_all.simps, simp)
qed

lemma link_status: "send_status 0 [] (link xs out) = (True, link xs (out @ [0]))"
  by (simp add: send_status_def link_write_all)

lemma link_read_byte: "read_all 0 1 [] (link (b # bs) out) = (Some [b], link bs out)"
  by (subst read_all.simps, simp add: link_read) (subst read_all.simps, simp)

lemma link_read_status: "read_status (link (0 # bs) out) = (True, link bs out)"
  unfolding read_status_def link_read_byte by simp

lemma link_read_line:
  "0x0a \<notin> set xs \<Longrightarrow> length line + length xs < 1023 \<Longrightarrow> read_line r line (link (xs @ 0x0a # rest) out) = (Some (Some (line @ xs @ [0x0a])), link rest out)"
proof (induction xs arbitrary: line r)
  case Nil
  then show ?case by (subst read_line.simps) (simp add: link_read)
next
  case (Cons x xs)
  then have "read_line 0 (line @ [x]) (link (xs @ 0x0a # rest) out) = (Some (Some ((line @ [x]) @ xs @ [0x0a])), link rest out)" by (intro Cons.IH) auto
  then show ?case using Cons.prems by (subst read_line.simps) (simp add: link_read)
qed

lemma link_read_end: "read_line r [] (link [] out) = (Some None, link [] out)"
  by (subst read_line.simps) (simp add: link_read)

lemma link_receive_loop:
  assumes "fs_faults f = []" and "n < length (fs_inodes f)" and "in_node (ino n f) = Reg old"
  shows "\<exists>g. receive_loop r n (length old) (length d) (link (d @ rest) out, f) = (True, link rest out, g) \<and> only_file n (Reg (old @ d)) f g"
  using assms
proof (induction "length d" arbitrary: d old f r rule: less_induct)
  case less
  show ?case
  proof (cases "d = []")
    case True
    then show ?thesis using less.prems by (subst receive_loop.simps) (simp add: only_file_def)
  next
    case False
    let ?k = "min (length d) 4096"
    let ?bs = "take ?k d"
    have rd: "conn_read ?k (link (d @ rest) out) = (In_bytes ?bs, link (drop ?k d @ rest) out)" using False by (simp add: link_read)
    obtain h where h: "copy_out n (length old) ?bs f = (True, h)" "only_file n (Reg (old @ ?bs)) f h" using copy_out_ok [OF less.prems] by blast
    have h': "fs_faults h = []" "n < length (fs_inodes h)" "in_node (ino n h) = Reg (old @ ?bs)" using h(2) less.prems(2) by (simp_all add: only_file_def)
    have l: "length (drop ?k d) < length d" using False by simp
    obtain g where g: "receive_loop 0 n (length (old @ ?bs)) (length (drop ?k d)) (link (drop ?k d @ rest) out, h) = (True, link rest out, g)"
        "only_file n (Reg ((old @ ?bs) @ drop ?k d)) h g" using less.hyps [OF l h'] by blast
    have "receive_loop r n (length old) (length d) (link (d @ rest) out, f) = (True, link rest out, g)"
      using False rd h(1) g(1) by (subst receive_loop.simps) simp
    then show ?thesis using only_file_trans [OF h(2) g(2)] by auto
  qed
qed

lemma link_send_loop:
  assumes "fs_faults f = []" and "in_node (ino n f) = Reg d" and "off \<le> length d"
  shows "\<exists>g. send_loop n off (length d - off) (link xs out, f) = (True, link xs (out @ drop off d), g) \<and> same_files f g"
  using assms
proof (induction "length d - off" arbitrary: off out f rule: less_induct)
  case less
  show ?case
  proof (cases "off = length d")
    case True
    then show ?thesis by (subst send_loop.simps) (simp add: same_files_def)
  next
    case False
    then have lt: "off < length d" using less.prems(3) by simp
    obtain k g where r: "sys_read n off (min (length d - off) 4096) f = (Some (take k (drop off d)), g)" "0 < k" "k \<le> min (length d - off) 4096" "same_files f g"
      using sys_read_ok [OF less.prems(1,2), of "min (length d - off) 4096" off] lt by auto
    let ?bs = "take k (drop off d)"
    have len: "length ?bs = k" using r(3) by simp
    have g: "fs_faults g = []" "in_node (ino n g) = Reg d" using r(4) less.prems by (simp_all add: same_files_def ino_def)
    have sh: "length d - (off + k) < length d - off" and sh2: "off + k \<le> length d" using r(2,3) lt by auto
    obtain h where h: "send_loop n (off + k) (length d - (off + k)) (link xs (out @ ?bs), g) = (True, link xs ((out @ ?bs) @ drop (off + k) d), h)" "same_files g h"
      using less.hyps [OF sh g sh2] by blast
    have "out @ ?bs @ drop (off + k) d = out @ drop off d" using chunk_rest [of k off d] len by simp
    then have "send_loop n off (length d - off) (link xs out, f) = (True, link xs (out @ drop off d), h)"
      using lt r h(1) len by (subst send_loop.simps) (auto simp: link_write_all)
    then show ?thesis using same_files_trans [OF r(4) h(2)] by auto
  qed
qed

lemma digits_length: "2 \<le> b \<Longrightarrow> n < b ^ k \<Longrightarrow> 0 < k \<Longrightarrow> length (digits b n) \<le> k"
proof (induction k arbitrary: n)
  case (Suc k)
  show ?case
  proof (cases "n < b")
    case True
    then show ?thesis by (subst digits.simps) simp
  next
    case False
    then have "k \<noteq> 0" using Suc.prems by (cases k) auto
    moreover have "n div b < b ^ k" using Suc.prems by (simp add: less_mult_imp_div_less mult.commute)
    ultimately show ?thesis using Suc.IH [of "n div b"] Suc.prems(1) False by (subst digits.simps) simp
  qed
qed simp

lemma control_parsed:
  assumes "safe_name name" and "0 \<notin> set name" and "0x0a \<notin> set name" and "st_size st \<le> 8192"
  shows "parse_control (control_record st name) = Some (in_mode st mod 512, st_size st, name)"
    and "\<exists>xs. control_record st name = xs @ [0x0a] \<and> 0x0a \<notin> set xs \<and> length xs \<le> 11 + length name" and "hd (control_record st name) = 0x43"
proof -
  let ?m = "pad 0x30 4 (digits 8 (in_mode st mod 512))" and ?s = "digits 10 (st_size st)"
  have nd: "\<not> is_digit 8 0x20" "\<not> is_digit 10 0x20" by code_simp+
  have dg: "c \<noteq> 0 \<and> c \<noteq> 0x0a" if "is_digit b c" for b and c :: byte using that by (auto simp: is_digit_def digit_val_def split: if_splits)
  have m: "\<forall>c \<in> set ?m. c \<noteq> 0 \<and> c \<noteq> 0x0a"
    using digits_val_digits [of 8 "in_mode st mod 512"] dg [of 8] by (auto simp: pad_def)
  have s: "\<forall>c \<in> set ?s. c \<noteq> 0 \<and> c \<noteq> 0x0a" using digits_val_digits [of 10 "st_size st"] dg [of 10] by auto
  have cs: "cstr (control_record st name) = control_record st name"
    using m s assms(2) unfolding cstr_def by (intro takeWhile_eq_all_conv [THEN iffD2]) (auto simp: control_record_def)
  have t: "tl (control_record st name) = ?m @ 0x20 # ?s @ 0x20 # name @ [0x0a]" by (simp add: control_record_def)
  have p1: "strtoul 8 (?m @ 0x20 # ?s @ 0x20 # name @ [0x0a]) = (in_mode st mod 512, 0x20 # ?s @ 0x20 # name @ [0x0a], False)"
    by (rule strtoul_printed) (simp_all add: nd order_less_trans [OF mod_less_divisor])
  have "?s = pad 0x30 0 ?s" by (simp add: pad_def)
  then have p2: "strtoul 10 (?s @ 0x20 # name @ [0x0a]) = (st_size st, 0x20 # name @ [0x0a], False)"
    using strtoul_printed [OF _ _ nd(2), of "st_size st" 0 "name @ [0x0a]"] assms(4) by simp
  have ne: "?m \<noteq> []" "?s \<noteq> []" using digits_val_digits [of 8 "in_mode st mod 512"] digits_val_digits [of 10 "st_size st"] by (auto simp: pad_def)
  have tw: "takeWhile (\<lambda>b. b \<noteq> 0x0a) (name @ [0x0a]) = name" using assms(3) by (subst takeWhile_append2) auto
  show "parse_control (control_record st name) = Some (in_mode st mod 512, st_size st, name)"
    unfolding parse_control_def Let_def cs t p1 prod.case list.sel p2 using assms ne tw by simp
  have "length ?m \<le> 4" using digits_length [of 8 "in_mode st mod 512" 3] by (simp add: pad_def)
  moreover have "length ?s \<le> 4" using digits_length [of 10 "st_size st" 4] assms(4) by simp
  ultimately show "\<exists>xs. control_record st name = xs @ [0x0a] \<and> 0x0a \<notin> set xs \<and> length xs \<le> 11 + length name"
    using m s assms(3) by (intro exI [where x = "0x43 # ?m @ [0x20] @ ?s @ [0x20] @ name"]) (auto simp: control_record_def)
  show "hd (control_record st name) = 0x43" by (simp add: control_record_def)
qed


lemma parent_temporary: "parent (temporary p) = parent p"
proof -
  have "dropWhile (\<lambda>b. b \<noteq> slash) (rev (p @ str ''.ps4scp-part'')) = dropWhile (\<lambda>b. b \<noteq> slash) (rev p)"
    unfolding rev_append by (rule dropWhile_append2) (use no_slash_suffix in auto)
  then show ?thesis by (simp add: parent_def temporary_def Let_def)
qed

lemma wire_link [simp]: "wire (cn_in (link bs out)) = bs"
  by (simp add: link_def)

lemma is_dir_cong: "inode_at x g = inode_at x f \<Longrightarrow> (\<And>n. inode_at x f = Some n \<Longrightarrow> in_node (ino n g) = in_node (ino n f)) \<Longrightarrow> is_dir x g = is_dir x f"
  by (auto simp: is_dir_def split: option.split)

lemma inode_at_drop: "inode_at x (drop_name p f) = (if x = p then None else inode_at x f)"
proof -
  have "map_of (filter (\<lambda>(q, n). q \<noteq> p) xs) p = None" for xs :: "(path \<times> nat) list" by (induction xs) auto
  then show ?thesis by (auto simp: inode_at_def drop_name_def map_of_filter_ne split: option.split)
qed

lemma inode_at_errno: "inode_at x (f\<lparr>fs_errno := e\<rparr>) = inode_at x f"
  by (simp add: inode_at_def split: option.split)

lemma link_receive_file:
  assumes f: "fs_ok f" "fs_faults f = []" and q: "is_dir (parent q) f" "\<not> is_dir q f" "\<not> is_dir (temporary q) f" "length (temporary q) < PS4_SCP_PATH_MAX"
  shows "\<exists>g. receive_file q mode (length d) (link (d @ 0 # rest) out, f) = (True, link rest (out @ [0, 0]), g) \<and> content q g = Some d"
proof -
  let ?t = "temporary q"
  obtain r1 f1 where u: "sys_unlink ?t f = (r1, f1)" by force
  have f1: "fs_faults f1 = []" "fs_inodes f1 = fs_inodes f" "inode_at ?t f1 = None" "\<And>x. x \<noteq> ?t \<Longrightarrow> inode_at x f1 = inode_at x f"
    using u f(2) q(3) inode_at_drop [of _ ?t f] inode_at_errno [of _ ENOENT f]
    by (auto simp: sys_unlink_def call_ok fail_def seterr_def split: if_splits) (auto simp: drop_name_def)
  have ok1: "fs_ok f1" using unlink_ok [OF u f(1)] by simp
  have ne: "parent q \<noteq> ?t" "q \<noteq> ?t" using q temporary_ne [of q] by auto
  have d1: "is_dir x f1 = is_dir x f" if "x \<noteq> ?t" for x by (rule is_dir_cong) (use that f1 in \<open>auto simp: ino_def\<close>)
  let ?n = "length (fs_inodes f)"
  obtain f2 where f2: "sys_open_write ?t False True (mode mod 512) f1 = (Some ?n, f2)" "fs_faults f2 = []"
    using f1 d1 [OF ne(1)] q(1) by (simp add: sys_open_write_def call_ok create_def parent_temporary)
  have n2: "inode_at ?t f2 = Some ?n" "in_node (ino ?n f2) = Reg []" "length (fs_inodes f2) = Suc ?n" using open_excl_new [OF f2(1) ok1] f1(2) by auto
  have "confined {?t} ?n f1 f2" using open_excl_confined [of ?n f1 ?t "mode mod 512"] f2(1) f1(2) by simp
  then have i2: "inode_at x f2 = inode_at x f" if "x \<noteq> ?t" for x
    using that f1(4) [OF that] n2(3) f1(2) fs_ok_lookup [OF ok1, of x] by (auto simp: confined_def inode_at_def split: option.splits)
  obtain f3 where f3: "receive_loop 0 ?n 0 (length d) (link (d @ 0 # rest) (out @ [0]), f2) = (True, link (0 # rest) (out @ [0]), f3)" "only_file ?n (Reg d) f2 f3"
    using link_receive_loop [OF f2(2) _ n2(2), of 0 d "0 # rest" "out @ [0]"] n2(3) by auto
  have cl: "sys_close f3 = (Some (), f3)" using f3(2) by (simp add: sys_close_def call_ok only_file_def)
  have i3: "inode_at x f3 = inode_at x f2" for x by (rule inode_at_same) (use f3(2) in \<open>simp_all add: only_file_def\<close>)
  have nn: "inode_at x f \<noteq> Some ?n" for x using inode_at_bound [of x f ?n] by auto
  have n1: "ino m f2 = ino m f" if "m < ?n" for m using \<open>confined {?t} ?n f1 f2\<close> that f1(2) by (auto simp: confined_def ino_def)
  have d3: "is_dir x f3 = is_dir x f" if "x \<noteq> ?t" for x
  proof (rule is_dir_cong)
    show "inode_at x f3 = inode_at x f" using i3 i2 [OF that] by simp
    fix m assume "inode_at x f = Some m"
    then have "m < ?n" by (rule inode_at_bound)
    then show "in_node (ino m f3) = in_node (ino m f)" using n1 f3(2) by (simp add: only_file_def)
  qed
  have t3: "\<not> is_dir ?t f3" using i3 n2(1) f3(2) by (simp add: is_dir_def only_file_def)
  obtain f4 where rn: "sys_rename ?t q f3 = (Some (), f4)"
    using f3(2) i3 n2(1) i2 [OF ne(2)] nn [of q] d3 ne q t3 by (simp add: sys_rename_def call_ok only_file_def)
  have res: "receive_file q mode (length d) (link (d @ 0 # rest) out, f) = (True, link rest (out @ [0, 0]), f4)"
    unfolding receive_file_def using q(4) u f2(1) f3(1) cl rn by (simp add: link_status link_read_byte [simplified])
  from receive_file_outcome [OF this f(1)] show ?thesis using res by (auto simp: received_as_def)
qed


lemma link_serve_send:
  assumes "content p f = Some d" and "fs_faults f = []" and "length d \<le> 8192" and "safe_name (basename p)" and "0 \<notin> set (basename p)"
    and "0x0a \<notin> set (basename p)" and "length (basename p) \<le> 1000" and "rq_path request = p"
  shows "\<exists>st g. st_size st = length d \<and> serve_send request (link [0, 0, 0] [], f) = (0, link [] (control_record st (basename p) @ d @ [0]), g)"
proof -
  obtain n where n: "sys_open_read p f = (Some n, f)" "inode_at p f = Some n" "in_node (ino n f) = Reg d" using open_read_ok [OF assms(1,2)] by blast
  let ?st = "ino n f" and ?c = "control_record (ino n f) (basename p)"
  have st: "sys_stat p f = (Some ?st, f)" using n(2) assms(2) by (simp add: sys_stat_def call_ok)
  have sz: "st_size ?st = length d" using n(3) by (simp add: st_size_def)
  have cl: "length ?c < PS4_SCP_PATH_MAX + 64" using control_parsed(2) [of "basename p" ?st] assms(3-7) sz by fastforce
  obtain g where g: "send_loop n 0 (length d) (link [0] ?c, f) = (True, link [0] (?c @ d), g)" "same_files f g"
    using link_send_loop [OF assms(2) n(3), of 0 "[0]" ?c] by auto
  have k: "sys_close g = (Some (), g)" using g(2) assms(2) by (simp add: sys_close_def call_ok same_files_def)
  have "serve_send request (link [0, 0, 0] [], f) = (0, link [] (?c @ d @ [0]), g)"
    unfolding serve_send_def using assms(3,4,8) st n g(1) k sz cl by (simp add: link_read_status link_write_all Let_def)
  then show ?thesis using sz by blast
qed

text \<open>
  C23. What the sending side puts on the wire is what the receiving side stores: a file of at most 8192 bytes with a name that fits into a control record, sent by one
  service and received by another, arrives with exactly its bytes, and both sides report success.
\<close>

theorem scp_roundtrip:
  assumes "content p f = Some d" and "fs_faults f = []" and "length d \<le> 8192"
    and "safe_name (basename p)" and "0 \<notin> set (basename p)" and "0x0a \<notin> set (basename p)" and "length (basename p) \<le> 1000"
    and "fs_ok f2" and "fs_faults f2 = []" and "is_dir (parent q) f2" and "\<not> is_dir q f2" and "\<not> is_dir (temporary q) f2"
    and "length (temporary q) < PS4_SCP_PATH_MAX"
    and "rq_mode s = PS4_SCP_SEND" and "rq_path s = p" and "rq_mode r = PS4_SCP_RECEIVE" and "rq_path r = q" and "\<not> rq_target_dir r"
  shows "\<exists>out g c2 g2. ps4_scp_serve s (link [0, 0, 0] [], f) = (0, link [] out, g)
    \<and> ps4_scp_serve r (link out [], f2) = (0, c2, g2) \<and> content q g2 = Some d"
proof -
  let ?name = "basename p"
  obtain st g where s: "st_size st = length d" "serve_send s (link [0, 0, 0] [], f) = (0, link [] (control_record st ?name @ d @ [0]), g)"
    using link_serve_send [OF assms(1-7) assms(15)] by blast
  note cp = control_parsed [OF assms(4-6), of st]
  obtain xs where xs: "control_record st ?name = xs @ [0x0a]" "0x0a \<notin> set xs" "length xs \<le> 11 + length ?name" using cp(2) s(1) assms(3) by auto
  have rl: "read_line 0 [] (link (control_record st ?name @ d @ [0]) [0]) = (Some (Some (control_record st ?name)), link (d @ [0]) [0])"
    using link_read_line [OF xs(2), of "[]" 0 "d @ [0]" "[0]"] xs(1,3) assms(7) by simp
  have stt: "\<exists>x. sys_stat q f2 = (x, f2') \<and> (case x of None \<Rightarrow> False | Some st \<Rightarrow> in_node st = Directory) = False \<and> fs_ok f2' \<and> fs_faults f2' = []
      \<and> (\<forall>y. is_dir y f2' = is_dir y f2)" if "f2' = snd (sys_stat q f2)" for f2'
    using assms(8,9,11) that inode_at_errno [of _ ENOENT f2]
    by (auto simp: sys_stat_def call_ok fail_def seterr_def is_dir_def fs_ok_def ino_def split: option.splits)
  then obtain x f3 where f3: "sys_stat q f2 = (x, f3)" "(case x of None \<Rightarrow> False | Some st \<Rightarrow> in_node st = Directory) = False" "fs_ok f3" "fs_faults f3 = []"
      "\<And>y. is_dir y f3 = is_dir y f2" by fastforce
  obtain g2 where g2: "receive_file q (in_mode st mod 512) (length d) (link (d @ 0 # []) [0], f3) = (True, link [] ([0] @ [0, 0]), g2)" "content q g2 = Some d"
    using link_receive_file [OF f3(3,4), of q "in_mode st mod 512" d "[]" "[0]"] assms(10-13) f3(5) by auto
  have de: "destination r False False ?name = Some q" using assms(13,17) by (simp add: destination_def temporary_def)
  have fin: "receive_records r False True (link [] ([0] @ [0, 0]), g2) = (0, link [] ([0] @ [0, 0]), g2)"
    by (subst receive_records.simps) (simp add: link_read_end)
  have hdc: "hd (control_record st ?name) = 0x43" using cp(3) s(1) assms(3) by simp
  have pc: "parse_control (control_record st ?name) = Some (in_mode st mod 512, length d, ?name)" using cp(1) s(1) assms(3) by simp
  have "receive_records r False False (link (control_record st ?name @ d @ [0]) [0], f3) = (0, link [] ([0] @ [0, 0]), g2)"
    by (subst receive_records.simps) (use g2(1) fin in \<open>simp add: rl hdc pc de\<close>)
  then have "serve_receive r (link (control_record st ?name @ d @ [0]) [], f2) = (0, link [] ([0] @ [0, 0]), g2)"
    unfolding serve_receive_def using f3 assms(17,18) by (simp add: link_status)
  then show ?thesis using s(2) g2(2) assms(14,16) by (auto simp: ps4_scp_serve_def)
qed

section \<open>Concrete transfers\<close>

definition request_for :: "ps4_scp_mode \<Rightarrow> path \<Rightarrow> ps4_scp_request" where
  "request_for mode p = \<lparr>rq_mode = mode, rq_path = p, rq_preserve = False, rq_target_dir = False\<rparr>"

lemma small_fs_scp:
  "fs_ok small_fs" "is_dir (parent (str ''/b'')) small_fs" "\<not> is_dir (str ''/b'') small_fs" "\<not> is_dir (temporary (str ''/b'')) small_fs"
  "length (temporary (str ''/b'')) < PS4_SCP_PATH_MAX" "length (fs_inodes small_fs) = 2"
  by code_simp+

theorem receive_file_atomic_witness:
  "\<exists>g. receive_file (str ''/b'') 420 2 (link [1, 2, 0] [], small_fs) = (True, link [] [0, 0], g) \<and> content (str ''/b'') g = Some [1, 2]"
proof -
  obtain g where g: "receive_file (str ''/b'') 420 2 (link [1, 2, 0] [], small_fs) = (True, link [] [0, 0], g)"
    using link_receive_file [OF small_fs_scp(1) small_fs_facts(1) small_fs_scp(2-5), of 420 "[1, 2]" "[]" "[]"] by (auto simp: numeral_2_eq_2)
  obtain d where "[1, 2, 0 :: byte] = d @ [0]" "content (str ''/b'') g = Some d"
    using receive_file_atomic [OF g small_fs_scp(1)] by auto
  then show ?thesis using g by (auto simp: append_eq_Cons_conv Cons_eq_append_conv)
qed

theorem serve_receive_confined_witness:
  "confined (targets (request_for PS4_SCP_RECEIVE [slash])) 2 small_fs
     (snd (snd (serve_receive (request_for PS4_SCP_RECEIVE [slash]) (link (str ''C0644 1 ../x'' @ [0x0a, 1, 0]) [], small_fs))))"
  using serve_receive_confined [of "request_for PS4_SCP_RECEIVE [slash]" small_fs "link (str ''C0644 1 ../x'' @ [0x0a, 1, 0]) []"] small_fs_scp(1,6)
  by (cases "serve_receive (request_for PS4_SCP_RECEIVE [slash]) (link (str ''C0644 1 ../x'' @ [0x0a, 1, 0]) [], small_fs)")
    (auto simp: request_for_def)

theorem scp_roundtrip_witness:
  "\<exists>out g c2 g2. ps4_scp_serve (request_for PS4_SCP_SEND (str ''/a'')) (link [0, 0, 0] [], small_fs) = (0, link [] out, g)
    \<and> ps4_scp_serve (request_for PS4_SCP_RECEIVE (str ''/b'')) (link out [], small_fs) = (0, c2, g2) \<and> content (str ''/b'') g2 = Some three_lines"
proof (rule scp_roundtrip [OF small_fs_facts(3,1) _ _ _ _ _ small_fs_scp(1) small_fs_facts(1) small_fs_scp(2-5)])
  show "length three_lines \<le> 8192" "safe_name (basename (str ''/a''))" "0 \<notin> set (basename (str ''/a''))"
    "0x0a \<notin> set (basename (str ''/a''))" "length (basename (str ''/a'')) \<le> 1000" by code_simp+
qed (simp_all add: request_for_def)

end
