(* ===== verification/Terminal.thy ===== *)
theory Terminal
  imports Ps4Scp
begin

text \<open>
  The in-process commands and the interactive shell of src/dropbear/src/svr-chansession.c: the dispatcher of commands with
  its bounded output, the conversion of line ends for the terminal, and the line editor of the worker thread.
\<close>

section \<open>Output\<close>

text \<open>
  \<^verbatim>\<open>ps4_capture_shell_output\<close> appends to an array of \<open>n\<close> bytes, which always ends with a null byte, and fails when the data
  do not fit. The context is what was captured so far. The \<^verbatim>\<open>errno\<close> it leaves is not read.
\<close>

definition ps4_capture_shell_output :: "nat \<Rightarrow> byte list writer" where
  "ps4_capture_shell_output n data' used = (let available = n - length used in
     if length data' \<ge> available then (False, used @ take (available - 1) data') else (True, used @ data'))"

text \<open>A \<^verbatim>\<open>send\<close> on the worker's end of the socket pair.\<close>

definition conn_write :: "byte list \<Rightarrow> conn \<Rightarrow> conn_send \<times> conn" where
  "conn_write bs c = (case cn_sends c of
       [] \<Rightarrow> (Out_sent (length bs), c\<lparr>cn_out := cn_out c @ bs\<rparr>)
     | Out_sent k # rs \<Rightarrow> (Out_sent (min k (length bs)), c\<lparr>cn_sends := rs, cn_out := cn_out c @ take k bs\<rparr>)
     | r # rs \<Rightarrow> (r, c\<lparr>cn_sends := rs\<rparr>))"

function ps4_write_all :: "byte list \<Rightarrow> conn \<Rightarrow> bool \<times> conn" where
  "ps4_write_all bs c = (if bs = [] then (True, c) else case conn_write bs c of
       (Out_intr, c) \<Rightarrow> ps4_write_all bs c
     | (Out_again, c) \<Rightarrow> (False, c)
     | (Out_error, c) \<Rightarrow> (False, c)
     | (Out_sent k, c) \<Rightarrow> if k = 0 then (False, c) else ps4_write_all (drop k bs) c)"
  by pat_completeness auto

termination
  by (relation "measures [\<lambda>(bs, c). length bs, \<lambda>(bs, c). length (cn_sends c)]")
    (auto simp: conn_write_def split: list.splits conn_send.splits if_splits)

declare ps4_write_all.simps [simp del]

text \<open>The loop of \<^verbatim>\<open>ps4_write_terminal_output\<close> with its two indices.\<close>

function terminal_loop :: "byte list \<Rightarrow> nat \<Rightarrow> nat \<Rightarrow> conn \<Rightarrow> bool \<times> conn" where
  "terminal_loop data' start index c = (if index < length data'
     then if data' ! index \<noteq> 0x0a \<or> (index > 0 \<and> data' ! (index - 1) = 0x0d) then terminal_loop data' start (Suc index) c
       else case (if index > start then ps4_write_all (take (index - start) (drop start data')) c else (True, c)) of
           (False, c) \<Rightarrow> (False, c)
         | (True, c) \<Rightarrow> (case ps4_write_all [0x0d, 0x0a] c of
               (False, c) \<Rightarrow> (False, c)
             | (True, c) \<Rightarrow> terminal_loop data' (Suc index) (Suc index) c)
     else if start < length data' then ps4_write_all (drop start data') c else (True, c))"
  by pat_completeness auto

termination
  by (relation "measure (\<lambda>(data', start, index, c). length data' - index)") auto

declare terminal_loop.simps [simp del]

definition ps4_write_terminal_output :: "conn writer" where
  "ps4_write_terminal_output data' c = terminal_loop data' 0 0 c"

definition ps4_terminal_shell_output :: "conn writer" where
  "ps4_terminal_shell_output data' c = ps4_write_terminal_output data' c"

definition ps4_write_prompt :: "ps4_shell_state \<Rightarrow> conn \<Rightarrow> conn" where
  "ps4_write_prompt shell c = (let prompt = str ''ps4:'' @ sh_cwd shell @ str ''# '' in
     snd (ps4_write_all (take (PS4_SHELL_PATH_MAX + 8 - 1) prompt) c))"

section \<open>The commands\<close>

definition help_text :: "byte list" where
  "help_text = str ''Built-ins: pwd cd ls [-la] cat head tail stat hexdump grep find touch mkdir rmdir rm cp mv chmod id whoami uname echo true false help exit'' @ [0x0a]"

text \<open>
  The result of \<^verbatim>\<open>ps4_format_command\<close> is the status and the output in the array of \<open>n\<close> bytes. \<open>version\<close> is what
  \<^verbatim>\<open>sceKernelGetSystemSwVersion\<close> reports.
\<close>

definition ps4_format_command :: "byte list \<Rightarrow> ps4_shell_state \<Rightarrow> byte list \<Rightarrow> nat \<Rightarrow> fs \<Rightarrow> (int \<times> byte list \<times> ps4_shell_state \<times> fs) res" where
  "ps4_format_command version shell cmd n f = (let cmd = dropWhile is_blank cmd;
       formatted = (\<lambda>status text. Inr (status, take (n - 1) text, shell, f)) in
     if cmd = str ''id'' then formatted 0 (str ''uid=0(root) gid=0(root) groups=0(root)'' @ [0x0a])
     else if cmd = str ''whoami'' then formatted 0 (str ''root'' @ [0x0a])
     else if cmd = str ''uname -a'' then formatted 0 (str ''OrbisOS '' @ version @ str '' x86_64'' @ [0x0a])
     else if cmd = str ''uname'' then formatted 0 (str ''OrbisOS'' @ [0x0a])
     else if take 4 cmd = str ''echo'' \<and> (length cmd = 4 \<or> cmd ! 4 = 0x20) then formatted 0 (dropWhile (\<lambda>b. b = 0x20) (drop 4 cmd) @ [0x0a])
     else if cmd = str ''true'' then formatted 0 []
     else if cmd = str ''false'' then formatted 1 []
     else if cmd = str ''help'' then formatted 0 help_text
     else if cmd = [] then formatted 0 []
     else rbind (ps4_shell_execute (ps4_capture_shell_output n) shell cmd ([], f)) (\<lambda>(status, shell, out, f). Inr (status, out, shell, f)))"

section \<open>The interactive shell\<close>

text \<open>
  \<open>read_key\<close> is \<^verbatim>\<open>read(fd, &byte, 1)\<close>, with \<open>None\<close> when it does not return 1: the loop ends then, also when the call was
  interrupted. What is to be read is kept apart from the connection, which the commands write to.
\<close>

fun read_key :: "conn_in list \<Rightarrow> byte option \<times> conn_in list" where
  "read_key (In_bytes (b # bs) # rs) = (Some b, if bs = [] then rs else In_bytes bs # rs)"
| "read_key rs = (None, tl rs)"

lemma read_key_left: "read_key rs = (Some b, rs') \<Longrightarrow> left rs' < left rs"
  by (induction rs rule: read_key.induct) auto

abbreviation crlf_bytes :: "byte list" where "crlf_bytes \<equiv> [0x0d, 0x0a]"

definition put :: "byte list \<Rightarrow> conn \<Rightarrow> conn" where
  "put bs c = snd (ps4_write_all bs c)"

text \<open>A line was entered: the command runs, its output goes to the terminal, and the prompt follows.\<close>

definition run_line :: "byte list \<Rightarrow> byte list \<Rightarrow> ps4_shell_state \<Rightarrow> conn \<times> fs \<Rightarrow> (int \<times> ps4_shell_state \<times> conn \<times> fs) res" where
  "run_line version line shell = (\<lambda>(c, f). rbind (ps4_shell_handles line) (\<lambda>h.
     rbind (if h then rbind (ps4_shell_execute ps4_terminal_shell_output shell line (c, f)) (\<lambda>(status, shell, c, f). Inr (status, [], shell, c, f))
       else rbind (ps4_format_command version shell line 4096 f) (\<lambda>(status, out, shell, f). Inr (status, out, shell, c, f))) (\<lambda>(status, out, shell, c, f).
     let out = (if status < 0 then [] else out);
         status = (if status < 0 then 1 else status);
         c = (if out \<noteq> [] then snd (ps4_write_terminal_output out c) else c) in
     Inr (status, shell, ps4_write_prompt shell c, f))))"

text \<open>
  The loop of \<^verbatim>\<open>ps4_shell_thread\<close>: \<open>command\<close> are the first \<^verbatim>\<open>command_len\<close> bytes of the array of 512 bytes, \<open>cr\<close> is
  \<^verbatim>\<open>last_was_cr\<close>. Writing behind the array is a fault.
\<close>

function shell_loop :: "byte list \<Rightarrow> byte list \<Rightarrow> bool \<Rightarrow> int \<Rightarrow> ps4_shell_state \<Rightarrow> conn_in list \<Rightarrow> conn \<times> fs \<Rightarrow> (int \<times> ps4_shell_state \<times> conn \<times> fs) res" where
  "shell_loop version command cr status shell rs st = (case read_key rs of
       (None, rs) \<Rightarrow> Inr (status, shell, st)
     | (Some b, rs) \<Rightarrow>
         if b = 0x0d \<or> b = 0x0a then
           if b = 0x0a \<and> cr then shell_loop version command False status shell rs st
           else let st = map_prod (put crlf_bytes) id st in
             if length command \<ge> 512 then Inl Mem_fault
             else if cstr command = str ''exit'' \<or> cstr command = str ''logout''
             then Inr (status, shell, map_prod (put (str ''logout'' @ crlf_bytes)) id st)
             else rbind (run_line version (cstr command) shell st) (\<lambda>(status, shell, st).
               shell_loop version [] (b = 0x0d) status shell rs st)
         else if b = 0x7f \<or> b = 0x08 then
           if command \<noteq> [] then shell_loop version (butlast command) False status shell rs (map_prod (put [0x08, 0x20, 0x08]) id st)
           else shell_loop version command False status shell rs st
         else if b = 0x04 \<and> command = [] then Inr (status, shell, map_prod (put (str ''logout'' @ crlf_bytes)) id st)
         else if b = 0x03 then shell_loop version [] False 130 shell rs (map_prod (ps4_write_prompt shell \<circ> put (str ''^C'' @ crlf_bytes)) id st)
         else if b \<ge> 0x20 \<and> length command < 511 then shell_loop version (command @ [b]) False status shell rs (map_prod (put [b]) id st)
         else shell_loop version command cr status shell rs st)"
  by pat_completeness auto

termination
  by (relation "measure (\<lambda>(version, command, cr, status, shell, rs, st). left rs)") (auto dest: sym intro: read_key_left)

declare shell_loop.simps [simp del]

definition banner :: "byte list" where
  "banner = str ''Dropbear SSH for PS4 by RuxaXa'' @ crlf_bytes @ str ''Type '' @ [squote] @ str ''help'' @ [squote] @ str '' for commands.'' @ crlf_bytes"

text \<open>The exit status of the thread, and the state of the shell, the connection and the files when it ends.\<close>

definition ps4_shell_thread :: "byte list \<Rightarrow> ps4_shell_state \<Rightarrow> conn \<times> fs \<Rightarrow> (int \<times> ps4_shell_state \<times> conn \<times> fs) res" where
  "ps4_shell_thread version shell = (\<lambda>(c, f). shell_loop version [] False 0 shell (cn_in c) (ps4_write_prompt shell (put banner c), f))"

definition ps4_scp_thread :: "ps4_scp_request \<Rightarrow> conn \<times> fs \<Rightarrow> int \<times> conn \<times> fs" where
  "ps4_scp_thread request st = (case ps4_scp_serve request st of (status, st) \<Rightarrow> (if status = 0 then 0 else 1, st))"

section \<open>Line ends\<close>

text \<open>The conversion the terminal expects: a line feed that no carriage return precedes becomes the two.\<close>

fun to_crlf :: "byte \<Rightarrow> byte list \<Rightarrow> byte list" where
  "to_crlf p [] = []"
| "to_crlf p (b # bs) = (if b = 0x0a \<and> p \<noteq> 0x0d then crlf_bytes else [b]) @ to_crlf b bs"

lemma ps4_write_all_out: "ps4_write_all bs c = (True, c') \<Longrightarrow> cn_out c' = cn_out c @ bs"
proof (induction bs c rule: ps4_write_all.induct)
  case (1 bs c)
  obtain r d where w: "conn_write bs c = (r, d)" by fastforce
  show ?case
  proof (cases "bs = []")
    case False
    show ?thesis
    proof (cases r)
      case (Out_sent k)
      then have k: "k \<noteq> 0" "ps4_write_all (drop k bs) d = (True, c')" using "1.prems" False w by (subst (asm) ps4_write_all.simps; simp split: if_splits)+
      have d: "cn_out d = cn_out c @ take k bs" using w Out_sent by (auto simp: conn_write_def min_def split: list.splits conn_send.splits)
      show ?thesis using "1.IH"(1) [OF False w [symmetric] Out_sent k] d by simp
    next
      case Out_intr
      then have "ps4_write_all bs d = (True, c')" using "1.prems" False w by (subst (asm) ps4_write_all.simps) simp
      moreover have "cn_out d = cn_out c" using w Out_intr by (auto simp: conn_write_def split: list.splits conn_send.splits)
      ultimately show ?thesis using "1.IH"(2) [OF False w [symmetric] Out_intr] by simp
    qed (use "1.prems" False w in \<open>subst (asm) ps4_write_all.simps; simp\<close>)+
  qed (use "1.prems" in \<open>simp add: ps4_write_all.simps\<close>)
qed

lemma ps4_write_all_ready: "cn_sends c = [] \<Longrightarrow> ps4_write_all bs c = (True, c\<lparr>cn_out := cn_out c @ bs\<rparr>)"
  by (cases "bs = []") (simp_all add: ps4_write_all.simps conn_write_def)

abbreviation before :: "byte list \<Rightarrow> nat \<Rightarrow> byte" where
  "before d k \<equiv> (if k = 0 then 0 else d ! (k - 1))"

lemma terminal_loop_out:
  assumes "terminal_loop d start index c = (True, c')" and "start \<le> index" and "index \<le> length d"
  shows "cn_out c' = cn_out c @ take (index - start) (drop start d) @ to_crlf (before d index) (drop index d)"
  using assms
proof (induction d start index c rule: terminal_loop.induct)
  case (1 d start index c)
  show ?case
  proof (cases "index < length d")
    case False
    then have "index = length d" using "1.prems" by simp
    then show ?thesis using "1.prems" ps4_write_all_out [of "drop start d" c c'] by (subst (asm) terminal_loop.simps) (auto split: if_splits)
  next
    case True
    have dr: "drop index d = d ! index # drop (Suc index) d" using True by (simp add: Cons_nth_drop_Suc)
    show ?thesis
    proof (cases "d ! index \<noteq> 0x0a \<or> (index > 0 \<and> d ! (index - 1) = 0x0d)")
      case keep: True
      have "terminal_loop d start (Suc index) c = (True, c')" using "1.prems"(1) True keep by (subst (asm) terminal_loop.simps) simp
      from "1.IH"(1) [OF True keep this] "1.prems"(2) True
      have "cn_out c' = cn_out c @ take (Suc index - start) (drop start d) @ to_crlf (d ! index) (drop (Suc index) d)" by simp
      moreover have "take (Suc index - start) (drop start d) = take (index - start) (drop start d) @ [d ! index]"
        using "1.prems"(2) True by (simp add: Suc_diff_le take_Suc_conv_app_nth)
      ultimately show ?thesis using keep unfolding dr by (auto split: if_splits)
    next
      case conv: False
      obtain ok1 c1 where c1: "(if index > start then ps4_write_all (take (index - start) (drop start d)) c else (True, c)) = (ok1, c1)" by fastforce
      obtain ok2 c2 where c2: "ps4_write_all crlf_bytes c1 = (ok2, c2)" by fastforce
      have ok: "ok1" "ok2" and t: "terminal_loop d (Suc index) (Suc index) c2 = (True, c')"
        using "1.prems"(1) unfolding terminal_loop.simps [of d start index c] if_P [OF True] if_not_P [OF conv] c1 prod.case c2
        by (cases ok1; cases ok2; simp)+
      have o1: "cn_out c1 = cn_out c @ take (index - start) (drop start d)"
        using c1 ok ps4_write_all_out [of "take (index - start) (drop start d)" c c1] by (auto split: if_splits)
      have o2: "cn_out c2 = cn_out c1 @ crlf_bytes" using ps4_write_all_out [of crlf_bytes c1 c2] c2 ok by simp
      have "cn_out c' = cn_out c2 @ to_crlf (d ! index) (drop (Suc index) d)"
        using "1.IH"(2) [OF True conv, of ok1 c1 ok2 c2] c1 c2 ok t True by simp
      then show ?thesis using conv o1 o2 unfolding dr by (auto split: if_splits)
    qed
  qed
qed


lemma capture_bounded:
  "length used < n \<Longrightarrow> length (snd (ps4_capture_shell_output n data' used)) < n"
  by (auto simp: ps4_capture_shell_output_def Let_def)

section \<open>The thread\<close>

lemma format_command_keeps:
  "normal PS4_SHELL_PATH_MAX (sh_cwd shell) \<Longrightarrow>
    total (\<lambda>(status, out, s, f). normal PS4_SHELL_PATH_MAX (sh_cwd s)) (ps4_format_command version shell cmd n f)"
  unfolding ps4_format_command_def Let_def
  by (intro res_sat_if; (simp; fail)?) (rule res_sat_bindI [OF shell_execute_keeps], assumption, auto)

lemma handles_ok: "\<exists>h. ps4_shell_handles line = Inr h"
  using split_command_ok [of line] by (auto simp: ps4_shell_handles_def split: sum.splits)

lemma run_line_keeps:
  assumes "normal PS4_SHELL_PATH_MAX (sh_cwd shell)"
  shows "total (\<lambda>(status, s, st). normal PS4_SHELL_PATH_MAX (sh_cwd s)) (run_line version line shell st)"
proof -
  obtain c f where st: "st = (c, f)" by fastforce
  obtain h where h: "ps4_shell_handles line = Inr h" using handles_ok by blast
  have "total (\<lambda>(status, out, s, c, f). normal PS4_SHELL_PATH_MAX (sh_cwd s))
      (if h then rbind (ps4_shell_execute ps4_terminal_shell_output shell line (c, f)) (\<lambda>(status, shell, c, f). Inr (status, [], shell, c, f))
       else rbind (ps4_format_command version shell line 4096 f) (\<lambda>(status, out, shell, f). Inr (status, out, shell, c, f)))"
    by (rule res_sat_if, rule res_sat_bindI [OF shell_execute_keeps [OF assms]], force, rule res_sat_bindI [OF format_command_keeps [OF assms]], force)
  then show ?thesis unfolding run_line_def st prod.case h rbind.simps by (rule res_sat_bindI) (auto simp: Let_def)
qed

lemma shell_loop_keeps:
  assumes "normal PS4_SHELL_PATH_MAX (sh_cwd shell)" and "length command \<le> 511"
  shows "total (\<lambda>(status, s, st). normal PS4_SHELL_PATH_MAX (sh_cwd s)) (shell_loop version command cr status shell rs st)"
  using assms
proof (induction version command cr status shell rs st rule: shell_loop.induct)
  case (1 version command cr status shell rs st)
  obtain k rs' where k: "read_key rs = (k, rs')" by fastforce
  show ?case
  proof (cases k)
    case None
    then show ?thesis using k "1.prems" by (subst shell_loop.simps) (simp add: case_prod_beta)
  next
    case (Some b)
    note IH = "1.IH" [OF k [symmetric] Some]
    have ln: "\<not> length command \<ge> 512" using "1.prems" by simp
    have line: "total (\<lambda>(status, s, st). normal PS4_SHELL_PATH_MAX (sh_cwd s))
        (rbind (run_line version (cstr command) shell (map_prod (put crlf_bytes) id st)) (\<lambda>(status, shell, st). shell_loop version [] (b = 0x0d) status shell rs' st))"
      if "b = 0x0d \<or> b = 0x0a" "\<not> (b = 0x0a \<and> cr)" "\<not> (cstr command = str ''exit'' \<or> cstr command = str ''logout'')"
    proof -
      obtain x where x: "run_line version (cstr command) shell (map_prod (put crlf_bytes) id st) = Inr x" "normal PS4_SHELL_PATH_MAX (sh_cwd (fst (snd x)))"
        using run_line_keeps [OF "1.prems"(1), of version "cstr command" "map_prod (put crlf_bytes) id st"]
        by (cases "run_line version (cstr command) shell (map_prod (put crlf_bytes) id st)") auto
      obtain a d t where xe: "x = (a, d, t)" by (metis surj_pair)
      show ?thesis using IH(2) [OF that(1,2) refl ln that(3), of x a "(d, t)" d t] x unfolding x(1) rbind.simps xe prod.case by simp
    qed
    show ?thesis
      apply (subst shell_loop.simps, unfold k prod.case Some option.case Let_def)
      apply (rule res_sat_if)
       apply (rule res_sat_if, use IH(1) "1.prems" in blast)
       apply (rule res_sat_if, use ln in blast)
       apply (rule res_sat_if, use "1.prems" in \<open>simp add: case_prod_beta\<close>, erule (2) line)
      apply (rule res_sat_if)
       apply (rule res_sat_if, use IH(3) "1.prems" in simp, use IH(4) "1.prems" in blast)
      apply (rule res_sat_if, use "1.prems" in \<open>simp add: case_prod_beta\<close>)
      apply (rule res_sat_if, use IH(5) "1.prems" in simp)
      apply (rule res_sat_if, use IH(6) "1.prems" in simp)
      apply (use IH(7) "1.prems" in blast)
      done
  qed
qed


text \<open>
  C34. The interactive shell ends: whatever keys arrive and whatever the terminal and the file system answer, the worker's
  loop runs until the input ends or the user leaves, with no write outside the 512 bytes of the command line, and yields an
  exit status. The working directory stays an absolute path in normal form.
\<close>

theorem ps4_shell_thread_total:
  assumes "normal PS4_SHELL_PATH_MAX (sh_cwd shell)"
  shows "\<exists>status shell' c' f'. ps4_shell_thread version shell (c, f) = Inr (status, shell', c', f') \<and> normal PS4_SHELL_PATH_MAX (sh_cwd shell')"
  using shell_loop_keeps [OF assms, of "[]" version False 0 "cn_in c" "(ps4_write_prompt shell (put banner c), f)"]
  by (cases "ps4_shell_thread version shell (c, f)") (auto simp: ps4_shell_thread_def)

text \<open>
  C35. Terminal output: when \<^verbatim>\<open>ps4_write_terminal_output\<close> succeeds, however the sends are cut or interrupted, the terminal has
  received the data with each line feed that no carriage return precedes turned into both. With a peer that takes
  everything it succeeds.
\<close>

theorem terminal_output_crlf:
  "(ps4_write_terminal_output data' c = (True, c') \<longrightarrow> cn_out c' = cn_out c @ to_crlf 0 data') \<and>
   (cn_sends c = [] \<longrightarrow> fst (ps4_write_terminal_output data' c))"
proof
  show "ps4_write_terminal_output data' c = (True, c') \<longrightarrow> cn_out c' = cn_out c @ to_crlf 0 data'"
    using terminal_loop_out [of data' 0 0 c c'] by (simp add: ps4_write_terminal_output_def)
  have "cn_sends c = [] \<Longrightarrow> fst (terminal_loop d start index c)" for d start index and c :: conn
  proof (induction d start index c rule: terminal_loop.induct)
    case (1 d start index c)
    note w = ps4_write_all_ready [OF "1.prems"]
    have w2: "ps4_write_all bs (c\<lparr>cn_out := x\<rparr>) = (True, c\<lparr>cn_out := x @ bs\<rparr>)" for x bs
      using ps4_write_all_ready [of "c\<lparr>cn_out := x\<rparr>" bs] "1.prems" by simp
    show ?case using 1 by (subst terminal_loop.simps) (simp add: w w2)
  qed
  then show "cn_sends c = [] \<longrightarrow> fst (ps4_write_terminal_output data' c)" by (simp add: ps4_write_terminal_output_def)
qed

section \<open>The line editor\<close>

text \<open>What the keys of a line make of it: an erasing key removes the last character, and characters beyond 511 are lost.\<close>

definition is_erase :: "byte \<Rightarrow> bool" where
  "is_erase b \<longleftrightarrow> b = 0x7f \<or> b = 0x08"

fun edit :: "byte list \<Rightarrow> byte list \<Rightarrow> byte list" where
  "edit line [] = line"
| "edit line (b # bs) = edit (if is_erase b then butlast line else if length line < 511 then line @ [b] else line) bs"

definition edit_key :: "byte \<Rightarrow> byte list \<Rightarrow> byte list" where
  "edit_key b line = (if is_erase b then butlast line else if length line < 511 then line @ [b] else line)"

lemma edit_step: "edit line (b # bs) = edit (edit_key b line) bs"
  by (simp add: edit_key_def)

lemma edit_key_ok: "is_erase b \<or> b \<ge> 0x20 \<Longrightarrow> 0 \<notin> set line \<Longrightarrow> 0 \<notin> set (edit_key b line)" "length line \<le> 511 \<Longrightarrow> length (edit_key b line) \<le> 511"
  by (auto simp: edit_key_def is_erase_def dest: in_set_butlastD)

lemma edit_ok: "list_all (\<lambda>b. is_erase b \<or> b \<ge> 0x20) keys \<Longrightarrow> 0 \<notin> set line \<Longrightarrow> length line \<le> 511 \<Longrightarrow> 0 \<notin> set (edit line keys) \<and> length (edit line keys) \<le> 511"
proof (induction keys arbitrary: line)
  case (Cons b keys)
  then show ?case unfolding edit_step by (intro Cons.IH edit_key_ok) simp_all
qed simp

lemma shell_loop_edit:
  "list_all (\<lambda>b. is_erase b \<or> b \<ge> 0x20) keys \<Longrightarrow> length line \<le> 511 \<Longrightarrow> \<exists>c' cr'. shell_loop version line cr status shell (In_bytes (keys @ [0x0d]) # rs) (c, f) =
    shell_loop version (edit line keys) cr' status shell (In_bytes [0x0d] # rs) (c', f)"
proof (induction keys arbitrary: line cr c)
  case (Cons b keys)
  have k: "read_key (In_bytes ((b # keys) @ [0x0d]) # rs) = (Some b, In_bytes (keys @ [0x0d]) # rs)" by simp
  have b: "is_erase b \<or> b \<ge> 0x20" "b \<noteq> 0x0d" "b \<noteq> 0x0a" "b \<noteq> 0x04" "b \<noteq> 0x03" using Cons.prems by (auto simp: is_erase_def word_le_nat_alt)
  define line' where "line' = edit_key b line"
  have "\<exists>c' cr'. shell_loop version line cr status shell (In_bytes ((b # keys) @ [0x0d]) # rs) (c, f) =
      shell_loop version line' cr' status shell (In_bytes (keys @ [0x0d]) # rs) (c', f)"
    using b by (subst shell_loop.simps, unfold k prod.case option.case) (auto simp: line'_def edit_key_def is_erase_def Let_def)
  moreover have "length line' \<le> 511" using Cons.prems edit_key_ok(2) by (simp add: line'_def)
  ultimately show ?case using Cons.IH [of line'] Cons.prems unfolding edit_step line'_def [symmetric] by fastforce
qed auto

text \<open>
  What is typed is what runs: after any printable and erasing keys, in one piece, the return key runs exactly the line the keys
  make, at most 511 characters of it, and editing goes on with an empty line. No other command runs before.
\<close>

theorem typed_line_runs:
  assumes keys: "list_all (\<lambda>b. is_erase b \<or> b \<ge> 0x20) keys" and line: "edit [] keys \<noteq> str ''exit''" "edit [] keys \<noteq> str ''logout''"
  shows "length (edit [] keys) \<le> 511 \<and> (\<exists>c'. shell_loop version [] cr status shell (In_bytes (keys @ [0x0d]) # rs) (c, f) =
    rbind (run_line version (edit [] keys) shell (c', f)) (\<lambda>(status, shell, st). shell_loop version [] True status shell rs st))"
proof -
  have ok: "0 \<notin> set (edit [] keys)" "length (edit [] keys) \<le> 511" using edit_ok [OF keys, of "[]"] by simp_all
  then have "cstr (edit [] keys) = edit [] keys" by (simp add: cstr_def takeWhile_eq_all_conv) metis
  moreover obtain c' cr' where "shell_loop version [] cr status shell (In_bytes (keys @ [0x0d]) # rs) (c, f) =
      shell_loop version (edit [] keys) cr' status shell (In_bytes [0x0d] # rs) (c', f)"
    using shell_loop_edit [OF keys, of "[]" version cr status shell rs c f] by auto
  moreover have "shell_loop version (edit [] keys) cr' status shell (In_bytes [0x0d] # rs) (c', f) =
      rbind (run_line version (cstr (edit [] keys)) shell (put crlf_bytes c', f)) (\<lambda>(status, shell, st). shell_loop version [] True status shell rs st)"
    using ok line calculation(1) by (subst shell_loop.simps) (simp add: Let_def)
  ultimately show ?thesis using ok by auto
qed


section \<open>Witnesses\<close>

definition key_conn :: "byte list \<Rightarrow> conn_send list \<Rightarrow> conn" where
  "key_conn keys sends = \<lparr>cn_in = [In_bytes keys], cn_sends = sends, cn_out = []\<rparr>"

theorem ps4_shell_thread_total_witness:
  "\<exists>status shell' c' f'. ps4_shell_thread [] root_shell (key_conn (str ''cat a'' @ [0x0d, 0x04]) [Out_intr, Out_sent 3], small_fs) = Inr (status, shell', c', f')
    \<and> normal PS4_SHELL_PATH_MAX (sh_cwd shell')"
  by (rule ps4_shell_thread_total) (rule root_shell_facts(2))

theorem terminal_output_crlf_witness:
  "cn_out (snd (ps4_write_terminal_output [0x61, 0x0a, 0x0d, 0x0a] (key_conn [] [Out_intr, Out_sent 1, Out_sent 1]))) = [0x61, 0x0d, 0x0a, 0x0d, 0x0a]
   \<and> fst (ps4_write_terminal_output [0x61, 0x0a] (key_conn [] []))"
proof -
  have "ps4_write_terminal_output [0x61, 0x0a, 0x0d, 0x0a] (key_conn [] [Out_intr, Out_sent 1, Out_sent 1])
      = (True, snd (ps4_write_terminal_output [0x61, 0x0a, 0x0d, 0x0a] (key_conn [] [Out_intr, Out_sent 1, Out_sent 1])))" by code_simp
  with terminal_output_crlf [of "[0x61, 0x0a, 0x0d, 0x0a]" "key_conn [] [Out_intr, Out_sent 1, Out_sent 1]"] terminal_output_crlf [of "[0x61, 0x0a]" "key_conn [] []"]
  show ?thesis by (simp add: key_conn_def)
qed

theorem typed_line_runs_witness:
  "edit [] (str ''lx'' @ [0x7f] @ str ''s'') = str ''ls'' \<and> (\<exists>c'. shell_loop [] [] False 0 root_shell [In_bytes ((str ''lx'' @ [0x7f] @ str ''s'') @ [0x0d])] (key_conn [] [], small_fs) =
    rbind (run_line [] (str ''ls'') root_shell (c', small_fs)) (\<lambda>(status, shell, st). shell_loop [] [] True status shell [] st))"
proof -
  have e: "edit [] (str ''lx'' @ [0x7f] @ str ''s'') = str ''ls''" by code_simp
  have k: "list_all (\<lambda>b. is_erase b \<or> b \<ge> 0x20) (str ''lx'' @ [0x7f] @ str ''s'')" by code_simp
  have n: "str ''ls'' \<noteq> str ''exit''" "str ''ls'' \<noteq> str ''logout''" by code_simp+
  from typed_line_runs [OF k, unfolded e, OF n, of "[]" False 0 root_shell "[]" "key_conn [] []" small_fs] show ?thesis using e by blast
qed

end
