(* ===== verification/Chansess.thy ===== *)
theory Chansess
  imports Agentfwd Terminal
begin

text \<open>
  The session channels of src/dropbear/src/svr-chansession.c, as they are compiled for the PS4: the requests of a client, commands
  that run in the server itself, and worker threads for the shell and the copy service. No process is ever started: the
  platform does not allow it, and \<^verbatim>\<open>spawn_command\<close> fails at once.
\<close>

section \<open>New channels and their end\<close>

abbreviation DROPBEAR_SUCCESS :: int where "DROPBEAR_SUCCESS \<equiv> 0"
abbreviation DROPBEAR_FAILURE :: int where "DROPBEAR_FAILURE \<equiv> - 1"
abbreviation MAX_CMD_LEN :: u32 where "MAX_CMD_LEN \<equiv> 9000"
abbreviation MAX_TERM_LEN :: u32 where "MAX_TERM_LEN \<equiv> 200"

text \<open>The structure is allocated with zeros.\<close>

definition new_chansess :: ChanSess where
  "new_chansess = \<lparr>cs_cmd = None, cs_original_command = None, cs_master = - 1, cs_tty = None, cs_term = None,
     cs_exit = \<lparr>ex_exitpid = - 1, ex_exitstatus = 0, ex_exitsignal = 0, ex_exitcore = 0\<rparr>, cs_backend_state = PS4_BACKEND_IDLE,
     cs_thread_started = False, cs_backend_fd = - 1, cs_cancel_fd = - 1, cs_pty_requested = False, cs_term_cols = 0, cs_term_rows = 0,
     cs_term_width = 0, cs_term_height = 0, cs_shell = ps4_shell_init (str ''/data/dropbear''), cs_agentlistener = None,
     cs_agentfile = None, cs_agentdir = None\<rparr>"

definition newchansess :: "nat \<Rightarrow> sshsession \<Rightarrow> (int \<times> sshsession) res" where
  "newchansess i ses = rbind (chan i ses) (\<lambda>c. rbind (dropbear_assert (ch_typedata c = None)) (\<lambda>_.
     rbind (mod_chan i (\<lambda>c. c\<lparr>ch_typedata := Some new_chansess, ch_prio := DROPBEAR_PRIO_LOWDELAY\<rparr>) ses) (\<lambda>ses. Inr (0, ses))))"

text \<open>
  When the peer has closed the channel while the backend runs, its descriptor is taken from the worker, so that only
  \<^verbatim>\<open>cleanupchansess\<close> closes it, and shut down, so that the worker ends.
\<close>

definition sesscheckclose :: "nat \<Rightarrow> sshsession \<Rightarrow> (bool \<times> sshsession) res" where
  "sesscheckclose i ses = rbind (chan i ses) (\<lambda>c. rbind (chansess i ses) (\<lambda>cs.
     let backend_state = cs_backend_state cs in
     rbind (if backend_state = PS4_BACKEND_RUNNING \<and> ch_recv_close c
       then mod_sess i (\<lambda>cs. cs\<lparr>cs_cancel_fd := (if cs_backend_fd cs \<ge> 0 then cs_backend_fd cs else cs_cancel_fd cs), cs_backend_fd := - 1\<rparr>) ses
       else Inr ses) (\<lambda>ses.
     rbind (if backend_state = PS4_BACKEND_DONE then mod_chan i (\<lambda>c. c\<lparr>ch_flushing := True\<rparr>) ses else Inr ses) (\<lambda>ses.
     Inr (backend_state = PS4_BACKEND_IDLE \<or> backend_state = PS4_BACKEND_DONE, ses)))))"

text \<open>\<^verbatim>\<open>signames\<close> of src/dropbear/src/common-chansession.c, with the platform's numbers.\<close>

definition signames :: "(int \<times> byte list) list" where
  "signames = [(6, str ''ABRT''), (14, str ''ALRM''), (10, str ''BUS''), (8, str ''FPE''), (1, str ''HUP''), (4, str ''ILL''), (2, str ''INT''),
     (9, str ''KILL''), (13, str ''PIPE''), (3, str ''QUIT''), (11, str ''SEGV''), (15, str ''TERM''), (5, str ''TRAP''), (30, str ''USR1''), (31, str ''USR2'')]"

definition send_msg_chansess_exitstatus :: "chan_env \<Rightarrow> nat \<Rightarrow> sshsession \<Rightarrow> sshsession res" where
  "send_msg_chansess_exitstatus ce i ses = rbind (chan i ses) (\<lambda>c. rbind (chansess i ses) (\<lambda>cs.
     rbind (dropbear_assert (ex_exitpid (cs_exit cs) \<noteq> - 1)) (\<lambda>_. rbind (dropbear_assert (ex_exitsignal (cs_exit cs) = - 1)) (\<lambda>_.
     send_fields ce [F_byte SSH_MSG_CHANNEL_REQUEST, F_int (ch_remotechan c), F_str (str ''exit-status''), F_byte 0,
       F_int (word_of_int (ex_exitstatus (cs_exit cs)))] ses))))"

definition send_msg_chansess_exitsignal :: "chan_env \<Rightarrow> nat \<Rightarrow> sshsession \<Rightarrow> sshsession res" where
  "send_msg_chansess_exitsignal ce i ses = rbind (chan i ses) (\<lambda>c. rbind (chansess i ses) (\<lambda>cs.
     rbind (dropbear_assert (ex_exitpid (cs_exit cs) \<noteq> - 1)) (\<lambda>_. rbind (dropbear_assert (ex_exitsignal (cs_exit cs) > 0)) (\<lambda>_.
     case map_of signames (ex_exitsignal (cs_exit cs)) of None \<Rightarrow> Inr ses
     | Some signame \<Rightarrow> send_fields ce [F_byte SSH_MSG_CHANNEL_REQUEST, F_int (ch_remotechan c), F_str (str ''exit-signal''), F_byte 0,
         F_str signame, F_byte (word_of_int (ex_exitcore (cs_exit cs))), F_str [], F_str []] ses))))"

definition send_exitsignalstatus :: "chan_env \<Rightarrow> nat \<Rightarrow> sshsession \<Rightarrow> sshsession res" where
  "send_exitsignalstatus ce i ses = rbind (chansess i ses) (\<lambda>cs.
     if ex_exitpid (cs_exit cs) \<ge> 0
     then if ex_exitsignal (cs_exit cs) > 0 then send_msg_chansess_exitsignal ce i ses else send_msg_chansess_exitstatus ce i ses
     else Inr ses)"

definition closechansess :: "chan_env \<Rightarrow> nat \<Rightarrow> sshsession \<Rightarrow> sshsession res" where
  "closechansess ce i ses = rbind (chan i ses) (\<lambda>c. if ch_typedata c = None then Inr ses else send_exitsignalstatus ce i ses)"

text \<open>
  How a worker ends: the exit status, the state, and the exchange of its descriptor, which it closes only if nobody took it.
  The second component is whether it closes.
\<close>

definition worker_exit :: "int \<Rightarrow> ChanSess \<Rightarrow> ChanSess \<times> bool" where
  "worker_exit status cs = (cs\<lparr>cs_exit := \<lparr>ex_exitpid = 0, ex_exitstatus = status, ex_exitsignal = - 1, ex_exitcore = 0\<rparr>,
     cs_backend_state := PS4_BACKEND_DONE, cs_backend_fd := - 1\<rparr>, cs_backend_fd cs \<ge> 0)"

text \<open>
  The worker ends between two steps of the server, with the state of its shell and the files.
\<close>

definition worker_done :: "nat \<Rightarrow> int \<Rightarrow> ps4_shell_state \<Rightarrow> fs \<Rightarrow> sshsession \<Rightarrow> sshsession res" where
  "worker_done i status shell f ses = rbind (chansess i ses) (\<lambda>cs.
     rbind (mod_sess i (\<lambda>cs. (fst (worker_exit status cs))\<lparr>cs_shell := shell\<rparr>) (ses\<lparr>files := f\<rparr>)) (\<lambda>ses.
     Inr (if snd (worker_exit status cs) then close_fd (cs_backend_fd cs) ses else ses)))"

text \<open>
  \<^verbatim>\<open>pthread_join\<close> returns when the worker has ended; when it was still running its descriptor is gone already. The status it
  leaves is never read, since the structure is freed.
\<close>

definition joined :: "ChanSess \<Rightarrow> ChanSess" where
  "joined cs = (if cs_backend_state cs = PS4_BACKEND_RUNNING then fst (worker_exit 0 cs) else cs)"

definition stop_worker :: "nat \<Rightarrow> sshsession \<Rightarrow> sshsession res" where
  "stop_worker i ses = rbind (chansess i ses) (\<lambda>cs.
     if cs_thread_started cs
     then rbind (mod_sess i (\<lambda>cs. joined (cs\<lparr>cs_backend_fd := - 1, cs_cancel_fd := - 1\<rparr>)) ses) (\<lambda>ses.
       rbind (if cs_backend_fd cs \<ge> 0 then m_close (cs_backend_fd cs) ses else Inr ses) (\<lambda>ses.
       rbind (if cs_cancel_fd cs \<ge> 0 then m_close (cs_cancel_fd cs) ses else Inr ses) (\<lambda>ses.
       mod_sess i (\<lambda>cs. cs\<lparr>cs_thread_started := False\<rparr>) ses)))
     else Inr ses)"

text \<open>
  The table of child processes is empty, since none is ever started; a terminal, which the platform does not give, would be
  released. Freeing the structure leaves the channel without it.
\<close>

definition cleanupchansess :: "chan_env \<Rightarrow> nat \<Rightarrow> sshsession \<Rightarrow> sshsession res" where
  "cleanupchansess ce i ses = rbind (chan i ses) (\<lambda>c. if ch_typedata c = None then Inr ses else
     rbind (stop_worker i ses) (\<lambda>ses.
     rbind (mod_sess i (\<lambda>cs. cs\<lparr>cs_cmd := None, cs_term := None, cs_original_command := None, cs_tty := None\<rparr>) ses) (\<lambda>ses.
     rbind (svr_agentcleanup (ce_listen ce) i ses) (\<lambda>ses.
     mod_chan i (\<lambda>c. c\<lparr>ch_typedata := None\<rparr>) ses))))"

section \<open>Requests\<close>

definition getstring :: "sshsession \<Rightarrow> ((byte list \<times> u32) \<times> sshsession) res" where
  "getstring ses = from_payload (\<lambda>b. rbind (buf_getstring b) (\<lambda>(s, l, b). Inr ((s, l), b))) ses"

text \<open>There is no process a signal could be sent to.\<close>

definition sessionsignal :: "sshsession \<Rightarrow> (int \<times> sshsession) res" where
  "sessionsignal ses = Inr (DROPBEAR_FAILURE, ses)"

definition read_winsize :: "nat \<Rightarrow> sshsession \<Rightarrow> sshsession res" where
  "read_winsize i ses =
     rbind (from_payload buf_getint ses) (\<lambda>(cols, ses). rbind (mod_sess i (\<lambda>cs. cs\<lparr>cs_term_cols := cols\<rparr>) ses) (\<lambda>ses.
     rbind (from_payload buf_getint ses) (\<lambda>(rows, ses). rbind (mod_sess i (\<lambda>cs. cs\<lparr>cs_term_rows := rows\<rparr>) ses) (\<lambda>ses.
     rbind (from_payload buf_getint ses) (\<lambda>(width, ses). rbind (mod_sess i (\<lambda>cs. cs\<lparr>cs_term_width := width\<rparr>) ses) (\<lambda>ses.
     rbind (from_payload buf_getint ses) (\<lambda>(height, ses). mod_sess i (\<lambda>cs. cs\<lparr>cs_term_height := height\<rparr>) ses)))))))"

definition sessionwinchange :: "nat \<Rightarrow> sshsession \<Rightarrow> (int \<times> sshsession) res" where
  "sessionwinchange i ses = rbind (read_winsize i ses) (\<lambda>ses. Inr (DROPBEAR_SUCCESS, ses))"

definition sessionpty :: "nat \<Rightarrow> sshsession \<Rightarrow> (int \<times> sshsession) res" where
  "sessionpty i ses = rbind (chansess i ses) (\<lambda>cs.
     if \<not> svr_pubkey_allows_pty ses \<or> cs_term cs \<noteq> None then Inr (DROPBEAR_FAILURE, ses)
     else rbind (getstring ses) (\<lambda>((term, termlen), ses).
       if termlen > MAX_TERM_LEN then Inr (DROPBEAR_FAILURE, ses)
       else rbind (mod_sess i (\<lambda>cs. cs\<lparr>cs_term := Some term\<rparr>) ses) (\<lambda>ses.
         rbind (read_winsize i ses) (\<lambda>ses.
         rbind (getstring ses) (\<lambda>(modes, ses).
         rbind (mod_sess i (\<lambda>cs. cs\<lparr>cs_pty_requested := True\<rparr>) ses) (\<lambda>ses. Inr (DROPBEAR_SUCCESS, ses)))))))"

section \<open>Backends\<close>

text \<open>\<^verbatim>\<open>pipe\<close> and \<^verbatim>\<open>socketpair\<close>.\<close>

definition sys_pair :: "sshsession \<Rightarrow> (int \<times> int) option \<times> sshsession" where
  "sys_pair ses = (case sys_answer ses of (a, ses) \<Rightarrow> if a < 0 then (None, ses) else case sys_answer ses of (b, ses) \<Rightarrow> (Some (a, b), ses))"

text \<open>The loop of \<^verbatim>\<open>ps4_write_pipe_all\<close>, over the answers of the descriptor; an interrupted write is tried again.\<close>

function ps4_write_pipe_all :: "int \<Rightarrow> byte list \<Rightarrow> sshsession \<Rightarrow> bool \<times> sshsession" where
  "ps4_write_pipe_all fd bs ses = (if bs = [] then (True, ses) else if fw_writes (fds ses) fd = [] then (False, ses)
     else case fd_writev fd [bs] ses of
       (Wrote n, ses) \<Rightarrow> if n = 0 then (False, ses) else ps4_write_pipe_all fd (drop n bs) ses
     | (Write_again, ses) \<Rightarrow> ps4_write_pipe_all fd bs ses
     | (Write_error, ses) \<Rightarrow> (False, ses))"
  by pat_completeness auto

termination
  by (relation "measure (\<lambda>(fd, bs, ses). length (fw_writes (fds ses) fd))") (auto simp: fd_writev_def Let_def split: list.splits write_result.splits)

declare ps4_write_pipe_all.simps [simp del]

definition give_fds :: "nat \<Rightarrow> int \<Rightarrow> int \<Rightarrow> bool \<Rightarrow> dropbear_prio \<Rightarrow> sshsession \<Rightarrow> sshsession res" where
  "give_fds i writefd readfd bidir prio ses = rbind (mod_chan i (\<lambda>c. c\<lparr>ch_writefd := writefd, ch_readfd := readfd, ch_errfd := - 1, ch_bidir_fd := bidir,
     ch_prio := prio\<rparr>) ses) (\<lambda>ses. Inr (ses\<lparr>maxfd := max (max (maxfd ses) writefd) readfd\<rparr>))"

text \<open>A command that runs at once: its whole output is put into a pipe.\<close>

definition ps4_builtin_command :: "byte list \<Rightarrow> nat \<Rightarrow> sshsession \<Rightarrow> (int \<times> sshsession) res" where
  "ps4_builtin_command version i ses = rbind (chansess i ses) (\<lambda>cs. case cs_cmd cs of None \<Rightarrow> Inl Mem_fault | Some cmd \<Rightarrow>
     rbind (ps4_format_command version (cs_shell cs) (cstr cmd) 4096 (files ses)) (\<lambda>(status, out, shell, f).
     rbind (mod_sess i (\<lambda>cs. cs\<lparr>cs_shell := shell\<rparr>) (ses\<lparr>files := f\<rparr>)) (\<lambda>ses.
     if status < 0 then Inr (DROPBEAR_FAILURE, ses)
     else case sys_pair ses of (None, ses) \<Rightarrow> Inr (DROPBEAR_FAILURE, ses)
     | (Some (rd, wr), ses) \<Rightarrow> (case ps4_write_pipe_all wr out ses of
         (False, ses) \<Rightarrow> rbind (m_close rd ses) (\<lambda>ses. rbind (m_close wr ses) (\<lambda>ses. Inr (DROPBEAR_FAILURE, ses)))
       | (True, ses) \<Rightarrow> rbind (m_close wr ses) (\<lambda>ses.
           case sys_answer ses of (null, ses) \<Rightarrow>
           rbind (mod_chan i (\<lambda>c. c\<lparr>ch_writefd := null\<rparr>) ses) (\<lambda>ses.
           if null < 0 then rbind (m_close rd ses) (\<lambda>ses. Inr (DROPBEAR_FAILURE, ses))
           else rbind (give_fds i null rd False DROPBEAR_PRIO_NORMAL ses) (\<lambda>ses.
             rbind (mod_sess i (\<lambda>cs. cs\<lparr>cs_exit := \<lparr>ex_exitpid = 0, ex_exitstatus = status, ex_exitsignal = - 1, ex_exitcore = 0\<rparr>,
               cs_backend_state := PS4_BACKEND_EXEC_READY\<rparr>) ses) (\<lambda>ses. Inr (DROPBEAR_SUCCESS, ses)))))))))"

text \<open>
  Starting a worker, the same for the shell and the copy service: a socket pair, the memory for the thread's context, the
  thread. The two answers are those of \<^verbatim>\<open>malloc\<close> and \<^verbatim>\<open>pthread_create\<close>.
\<close>

definition start_worker :: "dropbear_prio \<Rightarrow> nat \<Rightarrow> sshsession \<Rightarrow> (int \<times> sshsession) res" where
  "start_worker prio i ses = (case sys_pair ses of (None, ses) \<Rightarrow> Inr (DROPBEAR_FAILURE, ses)
     | (Some (s0, s1), ses) \<Rightarrow>
       let close_both = (\<lambda>ses. rbind (m_close s0 ses) (\<lambda>ses. rbind (m_close s1 ses) (\<lambda>ses. Inr (DROPBEAR_FAILURE, ses)))) in
       case sys_answer ses of (context, ses) \<Rightarrow>
       if context < 0 then close_both ses
       else rbind (mod_sess i (\<lambda>cs. cs\<lparr>cs_backend_fd := s1, cs_backend_state := PS4_BACKEND_RUNNING, cs_thread_started := True\<rparr>) ses) (\<lambda>ses.
         case sys_answer ses of (created, ses) \<Rightarrow>
         if created \<noteq> 0
         then rbind (mod_sess i (\<lambda>cs. cs\<lparr>cs_thread_started := False, cs_backend_state := PS4_BACKEND_IDLE, cs_backend_fd := - 1\<rparr>) ses) close_both
         else rbind (give_fds i s0 s0 True prio ses) (\<lambda>ses. Inr (DROPBEAR_SUCCESS, ses))))"

definition ps4_shell_start :: "nat \<Rightarrow> sshsession \<Rightarrow> (int \<times> sshsession) res" where
  "ps4_shell_start = start_worker DROPBEAR_PRIO_LOWDELAY"

definition ps4_scp_start :: "nat \<Rightarrow> sshsession \<Rightarrow> (int \<times> sshsession) res" where
  "ps4_scp_start i ses = rbind (chansess i ses) (\<lambda>cs. case cs_cmd cs of None \<Rightarrow> Inl Mem_fault | Some cmd \<Rightarrow>
     rbind (ps4_scp_parse_command (cstr cmd) (sh_cwd (cs_shell cs))) (\<lambda>request. case request of None \<Rightarrow> Inr (DROPBEAR_FAILURE, ses)
     | Some _ \<Rightarrow> start_worker DROPBEAR_PRIO_NORMAL i ses))"

section \<open>Commands\<close>

text \<open>
  The command of an \<^verbatim>\<open>exec\<close> or \<^verbatim>\<open>subsystem\<close> request. The value is false when the request fails. A command that is left from an
  earlier request is not read again, and then counts as empty.
\<close>

definition sftp_server :: "byte list" where
  "sftp_server = str ''/usr/libexec/sftp-server''"

definition read_command :: "bool \<Rightarrow> nat \<Rightarrow> sshsession \<Rightarrow> (bool \<times> sshsession) res" where
  "read_command issubsys i ses = rbind (chansess i ses) (\<lambda>cs.
     rbind (case cs_cmd cs of Some _ \<Rightarrow> Inr (Some 0, ses)
       | None \<Rightarrow> rbind (getstring ses) (\<lambda>((cmd, cmdlen), ses). if cmdlen > MAX_CMD_LEN then Inr (None, ses)
           else rbind (mod_sess i (\<lambda>cs. cs\<lparr>cs_cmd := Some cmd\<rparr>) ses) (\<lambda>ses. Inr (Some cmdlen, ses)))) (\<lambda>(len, ses).
     case len of None \<Rightarrow> Inr (False, ses)
     | Some cmdlen \<Rightarrow> if \<not> issubsys then Inr (True, ses)
         else rbind (chansess i ses) (\<lambda>cs. let sftp = (cmdlen = 4 \<and> cs_cmd cs = Some (str ''sftp'')) in
           rbind (mod_sess i (\<lambda>cs. cs\<lparr>cs_cmd := (if sftp then Some sftp_server else None)\<rparr>) ses) (\<lambda>ses. Inr (sftp, ses)))))"

definition force_command :: "svr_runopts \<Rightarrow> sshsession \<Rightarrow> ChanSess \<Rightarrow> ChanSess" where
  "force_command opts ses cs = (case so_forced_command opts of
       Some forced \<Rightarrow> cs\<lparr>cs_original_command := Some (case cs_cmd cs of None \<Rightarrow> [] | Some c \<Rightarrow> c), cs_cmd := Some forced\<rparr>
     | None \<Rightarrow> svr_pubkey_set_forced_command ses cs)"

text \<open>\<^verbatim>\<open>get_socket_address\<close> of src/dropbear/src/netio.c, which \<^verbatim>\<open>make_connection_string\<close> calls, ends the session when the socket has no address; the strings are freed again.\<close>

definition make_connection_string :: "sshsession \<Rightarrow> sshsession res" where
  "make_connection_string ses = (case sys_answer ses of (a, ses) \<Rightarrow> if a < 0 then Inl (Exit ''Failed socket address: %s'')
     else case sys_answer ses of (b, ses) \<Rightarrow> if b < 0 then Inl (Exit ''Failed socket address: %s'') else Inr ses)"

definition noptycommand :: "sshsession \<Rightarrow> (int \<times> sshsession) res" where
  "noptycommand ses = Inr (DROPBEAR_FAILURE, ses)"

text \<open>There is no terminal, and if there were one \<^verbatim>\<open>fork\<close> would fail.\<close>

definition ptycommand :: "sshsession \<Rightarrow> (int \<times> sshsession) res" where
  "ptycommand ses = Inr (DROPBEAR_FAILURE, ses)"

definition is_scp :: "byte list \<Rightarrow> bool" where
  "is_scp cmd \<longleftrightarrow> take 3 cmd = str ''scp'' \<and> (length cmd = 3 \<or> cmd ! 3 = 0x20)"

definition sessioncommand :: "svr_runopts \<Rightarrow> byte list \<Rightarrow> bool \<Rightarrow> bool \<Rightarrow> nat \<Rightarrow> sshsession \<Rightarrow> (int \<times> sshsession) res" where
  "sessioncommand opts version iscmd issubsys i ses = rbind (chansess i ses) (\<lambda>cs.
     if cs_backend_state cs \<noteq> PS4_BACKEND_IDLE then Inr (DROPBEAR_FAILURE, ses)
     else rbind (if iscmd then read_command issubsys i ses else Inr (True, ses)) (\<lambda>(go, ses).
     if \<not> go then Inr (DROPBEAR_FAILURE, ses)
     else rbind (mod_sess i (force_command opts ses) ses) (\<lambda>ses. rbind (chansess i ses) (\<lambda>cs.
     rbind (if \<not> issubsys
         then if iscmd then case cs_cmd cs of None \<Rightarrow> Inl Mem_fault
             | Some cmd \<Rightarrow> if is_scp (cstr cmd) then ps4_scp_start i ses else ps4_builtin_command version i ses
           else ps4_shell_start i ses
         else rbind (make_connection_string ses) (if cs_term cs = None then noptycommand else ptycommand)) (\<lambda>(ret, ses).
     rbind (if ret = DROPBEAR_FAILURE then mod_sess i (\<lambda>cs. cs\<lparr>cs_cmd := None\<rparr>) ses else Inr ses) (\<lambda>ses. Inr (ret, ses)))))))"

text \<open>
  The requests. The label \<^verbatim>\<open>out\<close> is reached with 1 for a name that is too long or unknown. A command that has run counts as
  done only after the reply.
\<close>

definition dispatch_request :: "chan_env \<Rightarrow> svr_runopts \<Rightarrow> byte list \<Rightarrow> byte list \<Rightarrow> nat \<Rightarrow> sshsession \<Rightarrow> (int \<times> sshsession) res" where
  "dispatch_request ce opts version type i ses =
     (if type = str ''window-change'' then sessionwinchange i ses
      else if type = str ''shell'' then sessioncommand opts version False False i ses
      else if type = str ''pty-req'' then sessionpty i ses
      else if type = str ''exec'' then sessioncommand opts version True False i ses
      else if type = str ''subsystem'' then sessioncommand opts version True True i ses
      else if type = str ''auth-agent-req@openssh.com'' then rbind (svr_agentreq (ce_pr ce) (ce_listen ce) i ses) (\<lambda>(ok, ses).
        Inr (if ok then DROPBEAR_SUCCESS else DROPBEAR_FAILURE, ses))
      else if type = str ''signal'' then sessionsignal ses
      else Inr (1, ses))"

definition chansessionrequest :: "chan_env \<Rightarrow> svr_runopts \<Rightarrow> byte list \<Rightarrow> nat \<Rightarrow> sshsession \<Rightarrow> sshsession res" where
  "chansessionrequest ce opts version i ses = rbind (getstring ses) (\<lambda>((type, typelen), ses).
     rbind (from_payload buf_getbool ses) (\<lambda>(wantreply, ses).
     rbind (if typelen > MAX_NAME_LEN then Inr (1, ses)
       else rbind (chan i ses) (\<lambda>c. rbind (dropbear_assert (ch_typedata c \<noteq> None)) (\<lambda>_. dispatch_request ce opts version (cstr type) i ses))) (\<lambda>(ret, ses).
     rbind (if wantreply \<noteq> 0 then if ret = DROPBEAR_SUCCESS then send_msg_channel_success ce i ses else send_msg_channel_failure ce i ses
       else Inr ses) (\<lambda>ses.
     if ret = DROPBEAR_SUCCESS
     then mod_sess i (\<lambda>cs. if cs_backend_state cs = PS4_BACKEND_EXEC_READY then cs\<lparr>cs_backend_state := PS4_BACKEND_DONE\<rparr> else cs) ses
     else Inr ses))))"

section \<open>The contracts of the handlers\<close>

text \<open>A session channel in order while a request is handled.\<close>

definition live_cs :: "chan_env \<Rightarrow> sshsession \<Rightarrow> nat \<Rightarrow> Channel \<Rightarrow> ChanSess \<Rightarrow> sshsession \<Rightarrow> bool" where
  "live_cs ce ses0 i c cs s \<longleftrightarrow> sess_at ce ses0 i c cs s \<and> chan_ok ce i c \<and> payload s \<noteq> None"

definition live :: "chan_env \<Rightarrow> sshsession \<Rightarrow> nat \<Rightarrow> sshsession \<Rightarrow> bool" where
  "live ce ses0 i s \<longleftrightarrow> (\<exists>c cs. live_cs ce ses0 i c cs s)"

lemma liveI: "live_cs ce ses0 i c cs s \<Longrightarrow> live ce ses0 i s"
  by (auto simp: live_def)

lemma live_keeps: "live ce ses0 i s \<Longrightarrow> keeps ce ses0 i s"
  by (auto simp: live_def live_cs_def sess_at_def intro: keepsI)

lemma live_sess_ok: "live_cs ce ses0 i c cs s \<Longrightarrow> sess_ok cs"
  by (simp add: live_cs_def sess_at_def chan_ok_def typed_ok_def)

lemma chan_ok_sess: "chan_ok ce i c \<Longrightarrow> sess_ok cs \<Longrightarrow> chan_ok ce i (c\<lparr>ch_typedata := Some cs\<rparr>)"
  by (simp add: chan_ok_def chan_core_def typed_ok_def bufs_ok_def window_ok_def held_def fds_ok_def Let_def)

lemma set_chan_payload [simp]: "payload (set_chan i c s) = payload s"
  by (simp add: set_chan_def)

lemma live_cs_mod:
  assumes "live_cs ce ses0 i c cs s" and "sess_ok cs \<Longrightarrow> sess_ok (f cs)" and "cs_agentlistener (f cs) = cs_agentlistener cs"
  shows "\<exists>s' c'. mod_sess i f s = Inr s' \<and> live_cs ce ses0 i c' (f cs) s'"
  using assms sess_at_set [of ce ses0 i c cs s "f cs"] mod_sess_eq [of ce ses0 i c cs s f] chan_ok_sess [of ce i c "f cs"] live_sess_ok [OF assms(1)]
  unfolding live_cs_def by fastforce

lemma live_mod:
  assumes "live ce ses0 i s" and "\<And>cs. sess_ok cs \<Longrightarrow> sess_ok (f cs)" and "\<And>cs. cs_agentlistener (f cs) = cs_agentlistener cs"
  shows "safe (live ce ses0 i) (mod_sess i f s)"
proof -
  obtain c cs where l: "live_cs ce ses0 i c cs s" using assms(1) by (auto simp: live_def)
  obtain s' c' where "mod_sess i f s = Inr s'" "live_cs ce ses0 i c' (f cs) s'" using live_cs_mod [OF l, of f] assms(2,3) by blast
  then show ?thesis by (simp add: liveI)
qed

lemma live_sessI:
  assumes "live ce ses0 i s" and "\<And>c cs. live_cs ce ses0 i c cs s \<Longrightarrow> sess_ok cs \<Longrightarrow> res_sat E Q (f cs)"
  shows "res_sat E Q (rbind (chansess i s) f)"
proof -
  obtain c cs where l: "live_cs ce ses0 i c cs s" using assms(1) by (auto simp: live_def)
  have "chansess i s = Inr cs" using l sess_at_chansess by (auto simp: live_cs_def)
  then show ?thesis using assms(2) [OF l live_sess_ok [OF l]] by simp
qed

lemma live_chanI:
  assumes "live ce ses0 i s" and "\<And>c cs. live_cs ce ses0 i c cs s \<Longrightarrow> res_sat E Q (f c)"
  shows "res_sat E Q (rbind (chan i s) f)"
proof -
  obtain c cs where l: "live_cs ce ses0 i c cs s" using assms(1) by (auto simp: live_def)
  then have "chan i s = Inr c" by (auto simp: live_cs_def sess_at_def dest: with_chan_chan)
  then show ?thesis using assms(2) [OF l] by simp
qed

lemma world_payload [simp]:
  "payload (snd (sys_answer s)) = payload s" "payload (close_fd fd s) = payload s"
  by (simp_all add: sys_answer_def close_fd_def split: list.split)

lemma live_cs_world:
  assumes "live_cs ce ses0 i c cs s"
  shows "live_cs ce ses0 i c cs (snd (sys_answer s))" and "live_cs ce ses0 i c cs (s\<lparr>files := f\<rparr>)" and "live_cs ce ses0 i c cs (s\<lparr>maxfd := m\<rparr>)"
    and "safe (live_cs ce ses0 i c cs) (m_close fd s)" and "live_cs ce ses0 i c cs (s\<lparr>fds := w\<rparr>)" and "live_cs ce ses0 i c cs (update_channel_prio s)"
proof -
  have w: "with_chan ce ses0 i c s" "ch_typedata c = Some cs" "chan_ok ce i c" "payload s \<noteq> None" using assms by (simp_all add: live_cs_def sess_at_def)
  show "live_cs ce ses0 i c cs (snd (sys_answer s))" "live_cs ce ses0 i c cs (s\<lparr>files := f\<rparr>)" "live_cs ce ses0 i c cs (s\<lparr>maxfd := m\<rparr>)"
    "live_cs ce ses0 i c cs (s\<lparr>fds := w\<rparr>)" "live_cs ce ses0 i c cs (update_channel_prio s)"
    using w with_chan_world [OF w(1)] with_chan_fds [OF w(1)] with_chan_prio [OF w(1)] by (auto simp: live_cs_def sess_at_def)
  show "safe (live_cs ce ses0 i c cs) (m_close fd s)"
    using w with_chan_world(7) [OF w(1), of fd] by (simp add: m_close_def live_cs_def sess_at_def)
qed

lemma live_world:
  assumes "live ce ses0 i s"
  shows "live ce ses0 i (snd (sys_answer s))" and "live ce ses0 i (s\<lparr>files := f\<rparr>)" and "live ce ses0 i (s\<lparr>maxfd := m\<rparr>)"
    and "safe (live ce ses0 i) (m_close fd s)" and "live ce ses0 i (s\<lparr>fds := w\<rparr>)"
proof -
  obtain c cs where l: "live_cs ce ses0 i c cs s" using assms by (auto simp: live_def)
  note w = live_cs_world [OF l]
  show "live ce ses0 i (snd (sys_answer s))" "live ce ses0 i (s\<lparr>files := f\<rparr>)" "live ce ses0 i (s\<lparr>maxfd := m\<rparr>)" "live ce ses0 i (s\<lparr>fds := w\<rparr>)"
    using w(1,2,3,5) by (blast intro: liveI)+
  show "safe (live ce ses0 i) (m_close fd s)" by (rule res_sat_mono [OF w(4)]) (rule liveI)
qed

lemma live_read:
  assumes "live_cs ce ses0 i c cs s" and "\<And>b. buf_ok b \<Longrightarrow> safe (\<lambda>(v, b'). buf_ok b') (f b)"
  shows "safe (\<lambda>(v, s). live_cs ce ses0 i c cs s) (from_payload f s)"
proof -
  have w: "with_chan ce ses0 i c s" "ch_typedata c = Some cs" "chan_ok ce i c" using assms by (simp_all add: live_cs_def sess_at_def)
  have hp: "has_payload s" using with_chan_has_payload [OF w(1)] assms(1) by (simp add: live_cs_def)
  show ?thesis
    by (rule res_sat_mono [OF from_payload_step [OF hp, of "\<lambda>_. True" f]])
      (use assms(2) w with_chan_payload [OF w(1)] in \<open>auto simp: live_cs_def sess_at_def\<close>)
qed

lemma live_cs_gets:
  assumes "live_cs ce ses0 i c cs s"
  shows "safe (\<lambda>(v, s). live_cs ce ses0 i c cs s) (from_payload buf_getint s)" and "safe (\<lambda>(v, s). live_cs ce ses0 i c cs s) (getstring s)"
    and "safe (\<lambda>(v, s). live_cs ce ses0 i c cs s) (from_payload buf_getbool s)"
proof -
  show "safe (\<lambda>(v, s). live_cs ce ses0 i c cs s) (from_payload buf_getint s)" by (rule live_read [OF assms buf_getint_contract])
  show "safe (\<lambda>(v, s). live_cs ce ses0 i c cs s) (from_payload buf_getbool s)"
    by (rule live_read [OF assms]) (auto intro: res_sat_mono [OF buf_getbool_contract])
  show "safe (\<lambda>(v, s). live_cs ce ses0 i c cs s) (getstring s)" unfolding getstring_def
  proof (rule live_read [OF assms])
    fix b assume "buf_ok b"
    then show "safe (\<lambda>(v, b'). buf_ok b') (rbind (buf_getstring b) (\<lambda>(s, l, b). Inr ((s, l), b)))"
      by (intro res_sat_bindI [OF buf_getstring_contract]) auto
  qed
qed

lemma live_gets:
  assumes "live ce ses0 i s"
  shows "safe (\<lambda>(v, s). live ce ses0 i s) (from_payload buf_getint s)" and "safe (\<lambda>(v, s). live ce ses0 i s) (getstring s)"
    and "safe (\<lambda>(v, s). live ce ses0 i s) (from_payload buf_getbool s)"
  using assms live_cs_gets unfolding live_def by (elim exE; fastforce intro: res_sat_mono)+

lemma live_start:
  "with_chan ce ses0 i c s \<Longrightarrow> chan_ok ce i c \<Longrightarrow> ch_typedata c \<noteq> None \<Longrightarrow> payload s \<noteq> None \<Longrightarrow> live ce ses0 i s"
  by (auto simp: live_def live_cs_def sess_at_def)


lemma read_winsize_live: "live ce ses0 i s \<Longrightarrow> safe (live ce ses0 i) (read_winsize i s)"
  unfolding read_winsize_def
  by (intro res_sat_bind2I [OF live_gets(1)] res_sat_bindI [OF live_mod] live_mod; (assumption | simp add: sess_ok_def)?)+

lemma sessionwinchange_live: "live ce ses0 i s \<Longrightarrow> safe (\<lambda>(r, s). live ce ses0 i s) (sessionwinchange i s)"
  unfolding sessionwinchange_def by (rule res_sat_bindI [OF read_winsize_live]) simp_all

lemma sessionpty_live: "live ce ses0 i s \<Longrightarrow> safe (\<lambda>(r, s). live ce ses0 i s) (sessionpty i s)"
  unfolding sessionpty_def
  apply (rule live_sessI, assumption)
  apply (rule res_sat_if, simp)
  apply (rule res_sat_bind2I [OF live_gets(2)], assumption, simp only: split_paired_all prod.case)
  apply (rule res_sat_if, simp)
  apply (rule res_sat_bindI [OF live_mod], assumption, simp add: sess_ok_def, simp)
  apply (rule res_sat_bindI [OF read_winsize_live], assumption)
  apply (rule res_sat_bind2I [OF live_gets(2)], assumption)
  apply (rule res_sat_bindI [OF live_mod], assumption, simp add: sess_ok_def, simp, simp)
  done

lemma sys_pair_live: "live ce ses0 i s \<Longrightarrow> live ce ses0 i (snd (sys_pair s))"
  using live_world(1) [of ce ses0 i s] live_world(1) [of ce ses0 i "snd (sys_answer s)"]
  by (cases "sys_answer s"; cases "sys_answer (snd (sys_answer s))") (simp add: sys_pair_def)

lemma fd_writev_live: "live ce ses0 i s \<Longrightarrow> live ce ses0 i (snd (fd_writev fd iov s))"
  using live_world(5) by (auto simp: fd_writev_def Let_def split: list.split write_result.split)

lemma write_pipe_live: "live ce ses0 i s \<Longrightarrow> live ce ses0 i (snd (ps4_write_pipe_all fd bs s))"
proof (induction fd bs s rule: ps4_write_pipe_all.induct)
  case (1 fd bs ses)
  obtain r t where w: "fd_writev fd [bs] ses = (r, t)" by fastforce
  have t: "live ce ses0 i t" using fd_writev_live [OF "1.prems", of fd "[bs]"] w by simp
  show ?case
  proof (cases "bs = [] \<or> fw_writes (fds ses) fd = []")
    case True
    then show ?thesis using "1.prems" by (subst ps4_write_pipe_all.simps) auto
  next
    case False
    then show ?thesis using "1.IH" [OF _ _ w [symmetric]] t by (subst ps4_write_pipe_all.simps) (simp add: w split: write_result.split)
  qed
qed

lemma chan_ok_fds_given:
  "chan_ok ce i c \<Longrightarrow> chan_ok ce i (c\<lparr>ch_writefd := w, ch_readfd := r, ch_errfd := - 1, ch_bidir_fd := b, ch_prio := p\<rparr>)"
  by (simp add: chan_ok_def chan_core_def bufs_ok_def window_ok_def held_def fds_ok_def)

lemma live_mod_chan:
  assumes "live ce ses0 i s" and "\<And>c. chan_ok ce i c \<Longrightarrow> chan_ok ce i (f c)" and "\<And>c. ch_typedata (f c) = ch_typedata c"
  shows "safe (live ce ses0 i) (mod_chan i f s)"
proof -
  obtain c cs where l: "live_cs ce ses0 i c cs s" using assms(1) by (auto simp: live_def)
  then have w: "with_chan ce ses0 i c s" "ch_typedata c = Some cs" by (simp_all add: live_cs_def sess_at_def)
  have "with_chan ce ses0 i (f c) (set_chan i (f c) s)" by (rule with_chan_set [OF w(1)]) (simp add: agent_of_def assms(3))
  then have "live_cs ce ses0 i (f c) cs (set_chan i (f c) s)" using l assms(2,3) w(2) by (auto simp: live_cs_def sess_at_def)
  then show ?thesis by (simp add: mod_chan_def with_chan_chan [OF w(1)] liveI)
qed

lemma give_fds_live: "live ce ses0 i s \<Longrightarrow> safe (live ce ses0 i) (give_fds i w r b p s)"
  unfolding give_fds_def
  apply (rule res_sat_bindI [OF live_mod_chan], assumption)
    apply (erule chan_ok_fds_given)
   apply simp
  apply (simp add: live_world(3))
  done

lemma close_both_live:
  "live ce ses0 i s \<Longrightarrow> safe (\<lambda>(r, s). live ce ses0 i s) (rbind (m_close a s) (\<lambda>s. rbind (m_close b s) (\<lambda>s. Inr (x, s))))"
  by (rule res_sat_bindI [OF live_world(4)], assumption, rule res_sat_bindI [OF live_world(4)], assumption, simp)

lemma start_worker_live:
  assumes "live ce ses0 i s"
  shows "safe (\<lambda>(r, s). live ce ses0 i s) (start_worker prio i s)"
proof -
  obtain p s1 where p: "sys_pair s = (p, s1)" by fastforce
  have l1: "live ce ses0 i s1" using sys_pair_live [OF assms] p by simp
  show ?thesis
  proof (cases p)
    case None
    then show ?thesis using l1 by (simp add: start_worker_def p)
  next
    case (Some ab)
    obtain a b where ab: "ab = (a, b)" by fastforce
    obtain m s2 where m: "sys_answer s1 = (m, s2)" by fastforce
    have l2: "live ce ses0 i s2" using live_world(1) [OF l1] m by simp
    have rest: "safe (\<lambda>(r, s). live ce ses0 i s) (case sys_answer t of (created, t) \<Rightarrow>
         if created \<noteq> 0
         then rbind (mod_sess i (\<lambda>cs. cs\<lparr>cs_thread_started := False, cs_backend_state := PS4_BACKEND_IDLE, cs_backend_fd := - 1\<rparr>) t)
           (\<lambda>ses. rbind (m_close a ses) (\<lambda>ses. rbind (m_close b ses) (\<lambda>ses. Inr (DROPBEAR_FAILURE, ses))))
         else rbind (give_fds i a a True prio t) (\<lambda>ses. Inr (DROPBEAR_SUCCESS, ses)))" if t: "live ce ses0 i t" for t
    proof -
      obtain k u where k: "sys_answer t = (k, u)" by fastforce
      have u: "live ce ses0 i u" using live_world(1) [OF t] k by simp
      show ?thesis unfolding k prod.case
        by (rule res_sat_if, rule res_sat_bindI [OF live_mod [OF u]], simp add: sess_ok_def, simp, erule close_both_live,
            rule res_sat_bindI [OF give_fds_live [OF u]], simp)
    qed
    show ?thesis
      unfolding start_worker_def p prod.case Some option.case ab m Let_def
      by (rule res_sat_if, rule close_both_live [OF l2], rule res_sat_bindI [OF live_mod [OF l2]], simp add: sess_ok_def, simp, erule rest)
  qed
qed

text \<open>A session whose command is known.\<close>

definition ready :: "chan_env \<Rightarrow> sshsession \<Rightarrow> nat \<Rightarrow> sshsession \<Rightarrow> bool" where
  "ready ce ses0 i s \<longleftrightarrow> (\<exists>c cs cmd. live_cs ce ses0 i c cs s \<and> cs_cmd cs = Some cmd)"

lemma ready_live: "ready ce ses0 i s \<Longrightarrow> live ce ses0 i s"
  by (auto simp: ready_def live_def)

lemma ready_sessI:
  assumes "ready ce ses0 i s" and "\<And>c cs cmd. live_cs ce ses0 i c cs s \<Longrightarrow> cs_cmd cs = Some cmd \<Longrightarrow> res_sat E Q (f cs)"
  shows "res_sat E Q (rbind (chansess i s) f)"
proof -
  obtain c cs cmd where l: "live_cs ce ses0 i c cs s" "cs_cmd cs = Some cmd" using assms(1) by (auto simp: ready_def)
  have "chansess i s = Inr cs" using l(1) sess_at_chansess by (auto simp: live_cs_def)
  then show ?thesis using assms(2) [OF l] by simp
qed

lemma ready_mod:
  assumes "live ce ses0 i s" and "\<And>cs. sess_ok cs \<Longrightarrow> sess_ok (f cs)" and "\<And>cs. cs_agentlistener (f cs) = cs_agentlistener cs"
    and "\<And>c cs. live_cs ce ses0 i c cs s \<Longrightarrow> cs_cmd (f cs) \<noteq> None"
  shows "safe (ready ce ses0 i) (mod_sess i f s)"
proof -
  obtain c cs where l: "live_cs ce ses0 i c cs s" using assms(1) by (auto simp: live_def)
  obtain s' c' where "mod_sess i f s = Inr s'" "live_cs ce ses0 i c' (f cs) s'" using live_cs_mod [OF l, of f] assms(2,3) by blast
  then show ?thesis using assms(4) [OF l] by (auto simp: ready_def)
qed

lemma res_sat_prod: "(\<And>a b. p = (a, b) \<Longrightarrow> res_sat E Q (f a b)) \<Longrightarrow> res_sat E Q (case p of (a, b) \<Rightarrow> f a b)"
  by (cases p) auto

lemma res_sat_bool: "(b \<Longrightarrow> res_sat E Q x) \<Longrightarrow> (\<not> b \<Longrightarrow> res_sat E Q y) \<Longrightarrow> res_sat E Q (case b of True \<Rightarrow> x | False \<Rightarrow> y)"
  by (cases b) auto

lemma live_after:
  assumes "live ce ses0 i s"
  shows "sys_answer s = (a, t) \<Longrightarrow> live ce ses0 i t" and "sys_pair s = (p, t) \<Longrightarrow> live ce ses0 i t"
    and "ps4_write_pipe_all fd bs s = (b, t) \<Longrightarrow> live ce ses0 i t"
proof -
  show "sys_answer s = (a, t) \<Longrightarrow> live ce ses0 i t" using live_world(1) [OF assms] by simp
  show "sys_pair s = (p, t) \<Longrightarrow> live ce ses0 i t" using sys_pair_live [OF assms] by simp
  show "ps4_write_pipe_all fd bs s = (b, t) \<Longrightarrow> live ce ses0 i t" using write_pipe_live [OF assms, of fd bs] by simp
qed

lemma command_cd_any: "total (\<lambda>_. True) (command_cd w state name st)"
  using resolve_arg_cases [of state name "snd st"]
  by (cases st) (auto simp: command_cd_def Let_def split: prod.split option.split)

lemma shell_execute_any: "total (\<lambda>_. True) (ps4_shell_execute w state command (ctx, f))"
proof -
  obtain r where r: "split_command command = Inr r" using split_command_ok by blast
  show ?thesis
  proof (cases r)
    case (Inr argv)
    have "total (\<lambda>_. True) (rbind (run_command w state argv (ctx, f)) (\<lambda>(i, st). Inr (i, state, st)))"
      by (rule res_sat_bindI [OF run_command_total]) (auto split: prod.split)
    then show ?thesis by (simp add: ps4_shell_execute_def r Inr Let_def del: res_sat_rbind) (blast intro: command_cd_any)
  qed (simp add: ps4_shell_execute_def r Let_def split: prod.split)
qed

lemma format_command_total: "safe (\<lambda>_. True) (ps4_format_command version shell cmd n f)"
  unfolding ps4_format_command_def Let_def
  by (intro res_sat_if; (simp; fail)?)
    (rule res_sat_bindI, rule res_sat_weaken [OF shell_execute_any [of _ _ _ "[]"]], auto)

lemma builtin_done_live:
  assumes "live ce ses0 i s"
  shows "safe (\<lambda>(r, s). live ce ses0 i s) (case sys_answer s of (null, ses) \<Rightarrow>
           rbind (mod_chan i (\<lambda>c. c\<lparr>ch_writefd := null\<rparr>) ses) (\<lambda>ses.
           if null < 0 then rbind (m_close rd ses) (\<lambda>ses. Inr (DROPBEAR_FAILURE, ses))
           else rbind (give_fds i null rd False DROPBEAR_PRIO_NORMAL ses) (\<lambda>ses.
             rbind (mod_sess i (\<lambda>cs. cs\<lparr>cs_exit := \<lparr>ex_exitpid = 0, ex_exitstatus = status, ex_exitsignal = - 1, ex_exitcore = 0\<rparr>,
               cs_backend_state := PS4_BACKEND_EXEC_READY\<rparr>) ses) (\<lambda>ses. Inr (DROPBEAR_SUCCESS, ses)))))"
  apply (rule res_sat_prod)
  apply (rule res_sat_bindI [OF live_mod_chan], erule live_after(1) [OF assms])
    apply (simp add: chan_ok_def chan_core_def bufs_ok_def window_ok_def held_def fds_ok_def typed_ok_def)
   apply simp
  apply (rule res_sat_if)
   apply (rule res_sat_bindI [OF live_world(4)], assumption, simp)
  apply (rule res_sat_bindI [OF give_fds_live], assumption)
  apply (rule res_sat_bindI [OF live_mod], assumption, simp add: sess_ok_def, simp, simp)
  done

lemma builtin_command_live:
  assumes "ready ce ses0 i s"
  shows "safe (\<lambda>(r, s). live ce ses0 i s) (ps4_builtin_command version i s)"
  unfolding ps4_builtin_command_def
  apply (rule ready_sessI [OF assms])
  apply (simp only: option.case)
  apply (rule res_sat_bindI [OF format_command_total], simp only: split_paired_all prod.case)
  apply (rule res_sat_bindI [OF live_mod], rule live_world(2) [OF ready_live [OF assms]], simp add: sess_ok_def, simp)
  apply (rule res_sat_if, simp)
  apply (rule res_sat_prod, drule (1) live_after(2))
  apply (rule res_sat_option, simp)
  apply (rule res_sat_prod)+
  apply (drule (1) live_after(3))
  apply (rule res_sat_bool)
   apply (rule res_sat_bindI [OF live_world(4)], assumption, erule builtin_done_live)
  apply (erule close_both_live)
  done

lemma scp_parse_total: "\<exists>r. ps4_scp_parse_command command cwd = Inr r"
proof -
  obtain r where r: "split_command command = Inr r" using split_command_ok by blast
  show ?thesis by (simp add: ps4_scp_parse_command_def r resolve_eq split: sum.split option.split prod.split)
qed

lemma scp_start_live:
  assumes "ready ce ses0 i s"
  shows "safe (\<lambda>(r, s). live ce ses0 i s) (ps4_scp_start i s)"
  unfolding ps4_scp_start_def
proof (rule ready_sessI [OF assms])
  fix c cs cmd assume l: "live_cs ce ses0 i c cs s" "cs_cmd cs = Some cmd"
  obtain r where r: "ps4_scp_parse_command (cstr cmd) (sh_cwd (cs_shell cs)) = Inr r" using scp_parse_total by blast
  show "safe (\<lambda>(r, s). live ce ses0 i s) (case cs_cmd cs of None \<Rightarrow> Inl Mem_fault | Some cmd \<Rightarrow>
     rbind (ps4_scp_parse_command (cstr cmd) (sh_cwd (cs_shell cs))) (\<lambda>request. case request of None \<Rightarrow> Inr (DROPBEAR_FAILURE, s)
     | Some _ \<Rightarrow> start_worker DROPBEAR_PRIO_NORMAL i s))"
    unfolding l(2) option.case r rbind.simps
    by (rule res_sat_option) (use ready_live [OF assms] start_worker_live in auto)
qed

lemma readyI: "live_cs ce ses0 i c cs s \<Longrightarrow> cs_cmd cs = Some cmd \<Longrightarrow> ready ce ses0 i s"
  by (auto simp: ready_def)

definition went :: "chan_env \<Rightarrow> sshsession \<Rightarrow> nat \<Rightarrow> bool \<times> sshsession \<Rightarrow> bool" where
  "went ce ses0 i = (\<lambda>(go, s). live ce ses0 i s \<and> (go \<longrightarrow> ready ce ses0 i s))"

lemma set_cmd_went:
  assumes "live ce ses0 i s"
  shows "safe (went ce ses0 i) (rbind (mod_sess i (\<lambda>cs. cs\<lparr>cs_cmd := (if b then Some x else None)\<rparr>) s) (\<lambda>s. Inr (b, s)))"
proof (cases b)
  case True
  then show ?thesis by (intro res_sat_bindI [OF ready_mod [OF assms]]) (simp_all add: sess_ok_def went_def ready_live)
next
  case False
  then show ?thesis by (intro res_sat_bindI [OF live_mod [OF assms]]) (simp_all add: sess_ok_def went_def)
qed

lemma read_command_live:
  assumes "live ce ses0 i s"
  shows "safe (went ce ses0 i) (read_command issubsys i s)"
proof -
  have cmd: "safe (\<lambda>(len, s). live ce ses0 i s \<and> (len \<noteq> None \<longrightarrow> ready ce ses0 i s)) (case cs_cmd cs of Some _ \<Rightarrow> Inr (Some 0, s)
       | None \<Rightarrow> rbind (getstring s) (\<lambda>((cmd, cmdlen), ses). if cmdlen > MAX_CMD_LEN then Inr (None, ses)
           else rbind (mod_sess i (\<lambda>cs. cs\<lparr>cs_cmd := Some cmd\<rparr>) ses) (\<lambda>ses. Inr (Some cmdlen, ses))))"
    if "live_cs ce ses0 i c cs s" for c cs
  proof (rule res_sat_option)
    show "safe (\<lambda>(len, s). live ce ses0 i s \<and> (len \<noteq> None \<longrightarrow> ready ce ses0 i s)) (rbind (getstring s) (\<lambda>((cmd, cmdlen), ses). if cmdlen > MAX_CMD_LEN then Inr (None, ses)
           else rbind (mod_sess i (\<lambda>cs. cs\<lparr>cs_cmd := Some cmd\<rparr>) ses) (\<lambda>ses. Inr (Some cmdlen, ses))))"
      apply (rule res_sat_bind2I [OF live_gets(2) [OF assms]], simp only: split_paired_all prod.case)
      apply (rule res_sat_if, simp)
      apply (rule res_sat_bindI [OF ready_mod], assumption, simp add: sess_ok_def, simp, simp)
      apply (simp add: ready_live)
      done
  qed (use that in \<open>auto intro: readyI liveI\<close>)
  show ?thesis unfolding read_command_def
    apply (rule live_sessI [OF assms])
    apply (rule res_sat_bind2I [OF cmd], assumption)
    apply (rule res_sat_option, simp add: went_def)
    apply (rule res_sat_if, simp add: went_def)
    apply (rule live_sessI, erule conjunct1)
    apply (unfold Let_def)
    apply (rule set_cmd_went, erule conjunct1)
    done
qed

lemma force_command_same:
  "cs_agentlistener (force_command opts s cs) = cs_agentlistener cs" "sess_ok cs \<Longrightarrow> sess_ok (force_command opts s cs)"
  "cs_cmd cs \<noteq> None \<Longrightarrow> cs_cmd (force_command opts s cs) \<noteq> None"
  by (auto simp: force_command_def svr_pubkey_set_forced_command_def sess_ok_def split: option.split)

lemma connection_string_live: "live ce ses0 i s \<Longrightarrow> safe (live ce ses0 i) (make_connection_string s)"
  unfolding make_connection_string_def
  apply (rule res_sat_prod, drule (1) live_after(1))
  apply (rule res_sat_if, simp)
  apply (rule res_sat_prod, drule (1) live_after(1))
  apply (rule res_sat_if, simp, simp)
  done


lemma result_live:
  "live ce ses0 i s \<Longrightarrow> safe (\<lambda>(r, s). live ce ses0 i s)
    (rbind (if b then mod_sess i (\<lambda>cs. cs\<lparr>cs_cmd := None\<rparr>) s else Inr s) (\<lambda>s. Inr (r, s)))"
  using live_mod [of ce ses0 i s "\<lambda>cs. cs\<lparr>cs_cmd := None\<rparr>"] by (auto simp: sess_ok_def intro: res_sat_mono)

lemma run_request_live:
  assumes "live ce ses0 i s" and "iscmd \<longrightarrow> ready ce ses0 i s"
  shows "safe (\<lambda>(r, s). live ce ses0 i s) (rbind (chansess i s) (\<lambda>cs.
     rbind (if \<not> issubsys
         then if iscmd then case cs_cmd cs of None \<Rightarrow> Inl Mem_fault
             | Some cmd \<Rightarrow> if is_scp (cstr cmd) then ps4_scp_start i s else ps4_builtin_command version i s
           else ps4_shell_start i s
         else rbind (make_connection_string s) (if cs_term cs = None then noptycommand else ptycommand)) (\<lambda>(ret, ses).
     rbind (if ret = DROPBEAR_FAILURE then mod_sess i (\<lambda>cs. cs\<lparr>cs_cmd := None\<rparr>) ses else Inr ses) (\<lambda>ses. Inr (ret, ses)))))"
proof -
  have sub: "safe (\<lambda>(r, s). live ce ses0 i s) (rbind (make_connection_string s) (if b then noptycommand else ptycommand))" for b
    by (rule res_sat_bindI [OF connection_string_live [OF assms(1)]]) (simp add: noptycommand_def ptycommand_def)
  have sh: "safe (\<lambda>(r, s). live ce ses0 i s) (ps4_shell_start i s)" unfolding ps4_shell_start_def by (rule start_worker_live [OF assms(1)])
  show ?thesis
  proof (cases iscmd)
    case True
    then have r: "ready ce ses0 i s" using assms(2) by simp
    show ?thesis
    proof (rule ready_sessI [OF r], goal_cases)
      case (1 c cs cmd)
      show ?case unfolding 1(2) option.case
        by (rule res_sat_bind2I [of _ "\<lambda>r. live ce ses0 i"], intro res_sat_if scp_start_live [OF r] builtin_command_live [OF r] sh sub, erule result_live)
    qed
  next
    case False
    show ?thesis
      by (rule live_sessI [OF assms(1)], rule res_sat_bind2I [of _ "\<lambda>r. live ce ses0 i"], intro res_sat_if sh sub)
        (use False result_live in auto)
  qed
qed

lemma sessioncommand_live:
  assumes "live ce ses0 i s"
  shows "safe (\<lambda>(r, s). live ce ses0 i s) (sessioncommand opts version iscmd issubsys i s)"
proof -
  have rd: "safe (\<lambda>(go, s). live ce ses0 i s \<and> (iscmd \<longrightarrow> go \<longrightarrow> ready ce ses0 i s)) (if iscmd then read_command issubsys i s else Inr (True, s))"
    using res_sat_mono [OF read_command_live [OF assms, of issubsys]] assms by (auto simp: went_def)
  have fc: "safe (\<lambda>s. live ce ses0 i s \<and> (iscmd \<longrightarrow> ready ce ses0 i s)) (mod_sess i (force_command opts t) t)"
    if t: "live ce ses0 i t" "iscmd \<longrightarrow> ready ce ses0 i t" for t
  proof (cases iscmd)
    case True
    then obtain c cs cmd where l: "live_cs ce ses0 i c cs t" "cs_cmd cs = Some cmd" using t by (auto simp: ready_def)
    obtain t' c' where "mod_sess i (force_command opts t) t = Inr t'" "live_cs ce ses0 i c' (force_command opts t cs) t'"
      using live_cs_mod [OF l(1), of "force_command opts t"] force_command_same by blast
    then show ?thesis using force_command_same(3) [of cs opts t] l(2) by (auto simp: ready_def liveI)
  qed (use live_mod [OF t(1), of "force_command opts t"] force_command_same in auto)
  show ?thesis unfolding sessioncommand_def
    apply (rule live_sessI [OF assms])
    apply (rule res_sat_if)
     apply (simp add: assms)
    apply (rule res_sat_bind2I [OF rd])
    apply (rule res_sat_if, simp)
    apply (rule res_sat_bindI [OF fc], simp, simp)
    apply (rule run_request_live, erule conjunct1, erule conjunct2)
    done
qed

text \<open>The same without the message, which is not read any further.\<close>

definition still :: "chan_env \<Rightarrow> sshsession \<Rightarrow> nat \<Rightarrow> sshsession \<Rightarrow> bool" where
  "still ce ses0 i s \<longleftrightarrow> (\<exists>c cs. sess_at ce ses0 i c cs s \<and> chan_ok ce i c)"

lemma live_still: "live ce ses0 i s \<Longrightarrow> still ce ses0 i s"
  by (auto simp: live_def live_cs_def still_def)

lemma still_keeps: "still ce ses0 i s \<Longrightarrow> keeps ce ses0 i s"
  by (auto simp: still_def sess_at_def intro: keepsI)

lemma still_mod:
  assumes "still ce ses0 i s" and "\<And>cs. sess_ok cs \<Longrightarrow> sess_ok (f cs)" and "\<And>cs. cs_agentlistener (f cs) = cs_agentlistener cs"
  shows "safe (still ce ses0 i) (mod_sess i f s)"
proof -
  obtain c cs where l: "sess_at ce ses0 i c cs s" "chan_ok ce i c" using assms(1) by (auto simp: still_def)
  have "sess_ok cs" using l by (simp add: sess_at_def chan_ok_def typed_ok_def)
  then show ?thesis using sess_at_set [OF l(1), of "f cs"] mod_sess_eq [OF l(1), of f] chan_ok_sess [OF l(2), of "f cs"] assms(2,3)
    by (auto simp: still_def)
qed

lemma agentreq_still:
  assumes "live ce ses0 i s" and "AGENT_ACCEPTOR < length (le_acceptors (ce_listen ce))"
  shows "safe (\<lambda>(r, s). still ce ses0 i s) (svr_agentreq pr le i s)"
proof -
  obtain c cs where l: "live_cs ce ses0 i c cs s" using assms(1) by (auto simp: live_def)
  have ok: "chan_ok ce i c" "sess_at ce ses0 i c cs s" using l by (simp_all add: live_cs_def)
  have "still ce ses0 i t" if "agent_step ce ses0 i c cs t" for t
    using that chan_ok_sess [OF ok(1)] live_sess_ok [OF l] by (fastforce simp: agent_step_def agent_change_def still_def sess_ok_def)
  then show ?thesis using res_sat_mono [OF svr_agentreq_step [OF ok(2) assms(2), of pr le]] by (simp add: case_prod_beta)
qed

lemma dispatch_still:
  assumes "live ce ses0 i s" and acc: "AGENT_ACCEPTOR < length (le_acceptors (ce_listen ce))"
  shows "safe (\<lambda>(r, s). still ce ses0 i s) (dispatch_request ce0 opts version type i s)"
proof -
  note w = sessionwinchange_live [OF assms(1)] sessioncommand_live [OF assms(1)] sessionpty_live [OF assms(1)]
  have weak: "safe (\<lambda>(r, s). live ce ses0 i s) m \<Longrightarrow> safe (\<lambda>(r, s). still ce ses0 i s) m" for m :: "(int \<times> sshsession) res"
    by (erule res_sat_mono) (auto intro: live_still)
  have ag: "safe (\<lambda>(r, s). still ce ses0 i s) (rbind (svr_agentreq (ce_pr ce0) (ce_listen ce0) i s) (\<lambda>(ok, ses).
        Inr (if ok then DROPBEAR_SUCCESS else DROPBEAR_FAILURE, ses)))"
    by (rule res_sat_bind2I [OF agentreq_still [OF assms]]) simp
  show ?thesis unfolding dispatch_request_def
    by (intro res_sat_if; ((rule ag) | (rule weak, rule w) | (simp add: sessionsignal_def live_still [OF assms(1)])))
qed

lemma reply_still:
  assumes "still ce ses0 i s"
  shows "safe (still ce ses0 i) (send_msg_channel_success ce i s)" and "safe (still ce ses0 i) (send_msg_channel_failure ce i s)"
proof -
  obtain c cs where l: "with_chan ce ses0 i c s" "ch_typedata c = Some cs" "chan_ok ce i c" using assms by (auto simp: still_def sess_at_def)
  have "safe (with_chan ce ses0 i c) (send_msg_channel_success ce i s)" "safe (with_chan ce ses0 i c) (send_msg_channel_failure ce i s)"
    using send_msg_steps [OF l(1)] by blast+
  then show "safe (still ce ses0 i) (send_msg_channel_success ce i s)" "safe (still ce ses0 i) (send_msg_channel_failure ce i s)"
    using l(2,3) by - (erule res_sat_mono, auto simp: still_def sess_at_def)+
qed

text \<open>The messages a handler sends depend on the environment's primitives only.\<close>

lemma same_replies:
  assumes "ce_pr ce0 = ce_pr ce"
  shows "send_msg_channel_success ce0 = send_msg_channel_success ce" and "send_msg_channel_failure ce0 = send_msg_channel_failure ce"
    and "send_fields ce0 = send_fields ce"
  unfolding send_msg_channel_success_def [abs_def] send_msg_channel_failure_def [abs_def] send_fields_def [abs_def] assms by (rule refl)+

lemma chansessionrequest_keeps:
  assumes "live ce ses0 i s" and acc: "AGENT_ACCEPTOR < length (le_acceptors (ce_listen ce))" and pr: "ce_pr ce0 = ce_pr ce"
  shows "safe (keeps ce ses0 i) (chansessionrequest ce0 opts version i s)"
proof -
  have fin: "safe (keeps ce ses0 i) (if r = DROPBEAR_SUCCESS
     then mod_sess i (\<lambda>cs. if cs_backend_state cs = PS4_BACKEND_EXEC_READY then cs\<lparr>cs_backend_state := PS4_BACKEND_DONE\<rparr> else cs) t else Inr t)"
    if "still ce ses0 i t" for r :: int and t
    using res_sat_mono [OF still_mod [OF that] still_keeps, of "\<lambda>cs. if cs_backend_state cs = PS4_BACKEND_EXEC_READY then cs\<lparr>cs_backend_state := PS4_BACKEND_DONE\<rparr> else cs"]
      still_keeps [OF that] by (simp add: sess_ok_def)
  have disp: "safe (\<lambda>(r, s). still ce ses0 i s) (rbind (chan i t) (\<lambda>c. rbind (dropbear_assert (ch_typedata c \<noteq> None)) (\<lambda>_. dispatch_request ce0 opts version type i t)))"
    if "live ce ses0 i t" for t type
    by (rule live_chanI [OF that]) (use dispatch_still [OF that acc] in \<open>auto simp: live_cs_def sess_at_def\<close>)
  show ?thesis unfolding chansessionrequest_def same_replies [OF pr]
    apply (rule res_sat_bind2I [OF live_gets(2) [OF assms(1)]], simp only: split_paired_all prod.case)
    apply (rule res_sat_bind2I [OF live_gets(3)], assumption)
    apply (rule res_sat_bind2I [of _ "\<lambda>r. still ce ses0 i"])
     apply (rule res_sat_if, simp add: live_still, erule disp)
    apply (rule res_sat_bindI [of _ "still ce ses0 i"])
     apply (intro res_sat_if reply_still; simp)
    apply (erule fin)
    done
qed

lemma newchansess_keeps:
  assumes "with_chan ce ses0 i c s" and "newborn ce i c"
  shows "safe (\<lambda>(r, s). keeps ce ses0 i s) (newchansess i s)"
proof -
  let ?d = "c\<lparr>ch_typedata := Some new_chansess, ch_prio := DROPBEAR_PRIO_LOWDELAY\<rparr>"
  have n: "ch_typedata c = None" using assms(2) by (simp add: newborn_def)
  have "chan_ok ce i (c\<lparr>ch_typedata := Some new_chansess\<rparr>)" by (rule newborn_typed [OF assms(2)]) (simp add: sess_ok_def new_chansess_def)
  then have d: "chan_ok ce i ?d" by (simp add: chan_ok_def chan_core_def bufs_ok_def window_ok_def held_def fds_ok_def typed_ok_def)
  have "safe (with_chan ce ses0 i ?d) (mod_chan i (\<lambda>c. c\<lparr>ch_typedata := Some new_chansess, ch_prio := DROPBEAR_PRIO_LOWDELAY\<rparr>) s)"
    by (rule mod_chan_step [OF assms(1)]) (simp add: agent_of_def n new_chansess_def)
  then show ?thesis unfolding newchansess_def with_chan_chan [OF assms(1)] rbind.simps n
    using d by (simp del: res_sat_rbind) (erule res_sat_bindI, simp add: keepsI)
qed

lemma still_chan:
  assumes "still ce ses0 i s" and "\<And>c. chan_ok ce i c \<Longrightarrow> chan_ok ce i (f c)" and "\<And>c. ch_typedata (f c) = ch_typedata c"
  shows "safe (still ce ses0 i) (mod_chan i f s)"
proof -
  obtain c cs where l: "sess_at ce ses0 i c cs s" "chan_ok ce i c" using assms(1) by (auto simp: still_def)
  have "safe (with_chan ce ses0 i (f c)) (mod_chan i f s)" by (rule mod_chan_step) (use l assms(3) in \<open>auto simp: sess_at_def agent_of_def\<close>)
  then show ?thesis by (rule res_sat_mono) (use l assms(2,3) in \<open>auto simp: still_def sess_at_def\<close>)
qed

lemma sesscheckclose_keeps:
  assumes "still ce ses0 i s"
  shows "safe (\<lambda>(r, s). keeps ce ses0 i s) (sesscheckclose i s)"
proof -
  obtain c cs where l: "sess_at ce ses0 i c cs s" "chan_ok ce i c" using assms by (auto simp: still_def)
  have c: "chan i s = Inr c" "chansess i s = Inr cs" using l sess_at_chansess by (auto simp: sess_at_def dest: with_chan_chan)
  show ?thesis unfolding sesscheckclose_def c rbind.simps Let_def
    apply (rule res_sat_bindI [of _ "still ce ses0 i"])
     apply (rule res_sat_if, rule still_mod [OF assms], simp add: sess_ok_def, simp, simp add: assms)
    apply (rule res_sat_bindI [of _ "still ce ses0 i"])
     apply (rule res_sat_if, rule still_chan, assumption)
       apply (simp add: chan_ok_def chan_core_def bufs_ok_def window_ok_def held_def fds_ok_def typed_ok_def)
      apply simp
     apply simp
    apply (simp add: still_keeps)
    done
qed

lemma exit_messages_small:
  "length (message [F_byte a, F_int x, F_str (str ''exit-status''), F_byte 0, F_int y]) \<le> 16384"
  by (simp add: message_def str_def)

lemma closechansess_step:
  assumes w: "with_chan ce ses0 i c s" and ok: "chan_ok ce i c" and pr: "ce_pr ce0 = ce_pr ce"
  shows "safe (with_chan ce ses0 i c) (closechansess ce0 i s)"
proof (cases "ch_typedata c")
  case None
  then show ?thesis using w by (simp add: closechansess_def with_chan_chan [OF w])
next
  case (Some cs)
  then have cs: "chansess i s = Inr cs" "sess_ok cs" using w ok sess_at_chansess [of ce ses0 i c cs s]
    by (simp_all add: sess_at_def chan_ok_def typed_ok_def)
  have snd: "safe (with_chan ce ses0 i c) (send_fields ce [F_byte SSH_MSG_CHANNEL_REQUEST, F_int x, F_str (str ''exit-status''), F_byte 0, F_int y] s)" for x y
    by (rule send_fields_step [OF w]) (simp_all add: message_small exit_messages_small)
  show ?thesis
    using cs(2) w snd
    by (simp add: closechansess_def with_chan_chan [OF w] Some send_exitsignalstatus_def cs(1) send_msg_chansess_exitstatus_def sess_ok_def same_replies(3) [OF pr])
qed


lemma sess_at_mod:
  "sess_at ce ses0 i c cs s \<Longrightarrow> cs_agentlistener (f cs) = cs_agentlistener cs \<Longrightarrow>
    safe (sess_at ce ses0 i (c\<lparr>ch_typedata := Some (f cs)\<rparr>) (f cs)) (mod_sess i f s)"
  using sess_at_set [of ce ses0 i c cs s "f cs"] mod_sess_eq [of ce ses0 i c cs s f] by simp

definition index_at :: "chan_env \<Rightarrow> sshsession \<Rightarrow> nat \<Rightarrow> u32 \<Rightarrow> sshsession \<Rightarrow> bool" where
  "index_at ce ses0 i k s \<longleftrightarrow> (\<exists>c cs. sess_at ce ses0 i c cs s \<and> ch_index c = k)"

lemma index_at_mod:
  assumes "index_at ce ses0 i k s" and "\<And>cs. cs_agentlistener (f cs) = cs_agentlistener cs"
  shows "safe (index_at ce ses0 i k) (mod_sess i f s)"
proof -
  obtain c cs where l: "sess_at ce ses0 i c cs s" "ch_index c = k" using assms(1) by (auto simp: index_at_def)
  show ?thesis by (rule res_sat_mono [OF sess_at_mod [OF l(1), of f]]) (use assms(2) l(2) in \<open>auto simp: index_at_def intro!: exI\<close>)
qed

lemma index_at_close: "index_at ce ses0 i k s \<Longrightarrow> safe (index_at ce ses0 i k) (m_close fd s)"
  unfolding index_at_def by (elim exE conjE, rule res_sat_mono, erule sess_at_world(6)) blast

lemma stop_worker_step:
  assumes "index_at ce ses0 i k s"
  shows "safe (index_at ce ses0 i k) (stop_worker i s)"
proof -
  obtain c cs where l: "sess_at ce ses0 i c cs s" "ch_index c = k" using assms by (auto simp: index_at_def)
  have j: "cs_agentlistener (joined cs) = cs_agentlistener cs" for cs by (simp add: joined_def worker_exit_def)
  show ?thesis unfolding stop_worker_def sess_at_chansess [OF l(1)] rbind.simps
    apply (rule res_sat_if)
     apply (rule res_sat_bindI [OF index_at_mod [OF assms]], simp add: j)
     apply (rule res_sat_bindI [of _ "index_at ce ses0 i k"], rule res_sat_if, erule index_at_close, simp)
     apply (rule res_sat_bindI [of _ "index_at ce ses0 i k"], rule res_sat_if, erule index_at_close, simp)
     apply (rule index_at_mod, assumption, simp)
    apply (simp add: assms)
    done
qed

lemma agentcleanup_none:
  assumes "index_at ce ses0 i k s"
  shows "safe (\<lambda>s. \<exists>c cs. sess_at ce ses0 i c cs s \<and> ch_index c = k \<and> cs_agentlistener cs = None) (svr_agentcleanup le i s)"
proof -
  obtain c cs where l: "sess_at ce ses0 i c cs s" "ch_index c = k" using assms by (auto simp: index_at_def)
  show ?thesis by (rule res_sat_mono [OF svr_agentcleanup_step [OF l(1)]]) (insert l(2), elim exE conjE, intro exI conjI, assumption, simp, assumption)
qed

lemma cleanupchansess_step:
  assumes w: "with_chan ce ses0 i c s"
  shows "safe (\<lambda>s. \<exists>c'. with_chan ce ses0 i c' s \<and> ch_index c' = ch_index c) (cleanupchansess ce0 i s)"
proof (cases "ch_typedata c")
  case None
  then show ?thesis using w by (auto simp: cleanupchansess_def with_chan_chan [OF w])
next
  case (Some cs)
  let ?done = "\<lambda>s. \<exists>c'. with_chan ce ses0 i c' s \<and> ch_index c' = ch_index c"
  have at: "index_at ce ses0 i (ch_index c) s" using Some w by (auto simp: index_at_def sess_at_def)
  have free: "safe ?done (mod_chan i (\<lambda>c. c\<lparr>ch_typedata := None\<rparr>) t)"
    if t: "\<exists>d ds. sess_at ce ses0 i d ds t \<and> ch_index d = ch_index c \<and> cs_agentlistener ds = None" for t
  proof -
    obtain d ds where d: "with_chan ce ses0 i d t" "ch_typedata d = Some ds" "ch_index d = ch_index c" "cs_agentlistener ds = None"
      using t by (auto simp: sess_at_def)
    have "safe (with_chan ce ses0 i (d\<lparr>ch_typedata := None\<rparr>)) (mod_chan i (\<lambda>c. c\<lparr>ch_typedata := None\<rparr>) t)"
      by (rule mod_chan_step [OF d(1)]) (simp add: agent_of_def d)
    then show ?thesis by (rule res_sat_mono) (use d(3) in auto)
  qed
  show ?thesis unfolding cleanupchansess_def with_chan_chan [OF w] rbind.simps
    apply (rule res_sat_if, simp add: Some)
    apply (rule res_sat_bindI [OF stop_worker_step [OF at]])
    apply (rule res_sat_bindI [OF index_at_mod], assumption, simp)
    apply (rule res_sat_bindI [OF agentcleanup_none], assumption)
    apply (erule free)
    done
qed


definition svrchansess :: "chan_env \<Rightarrow> svr_runopts \<Rightarrow> byte list \<Rightarrow> chan_type" where
  "svrchansess ce opts version = \<lparr>ct_name = str ''session'', ct_inithandler = Some newchansess, ct_check_close = Some sesscheckclose,
     ct_reqhandler = Some (chansessionrequest ce opts version), ct_closehandler = Some (closechansess ce), ct_cleanup = Some (cleanupchansess ce)\<rparr>"

end
