(* ===== verification/Server.thy ===== *)
theory Server
  imports Chansess
begin

text \<open>
  The server put together: the channel types of src/dropbear/src/svr-session.c, the acceptor of agent connections, and the event
  loop that serves the channels. The handlers of the session channels meet the contract the channel layer is verified against.
\<close>

section \<open>The environment of the channels\<close>

text \<open>
  The functions a channel type or a listener points to are given what they call: the handlers of a session channel send messages and
  take listeners away, the acceptor of agent connections opens channels of the type \<^verbatim>\<open>chan_svr_agent\<close>, which a client cannot open itself.
\<close>

definition handler_env :: "primitives \<Rightarrow> u32 \<Rightarrow> chan_env" where
  "handler_env pr window = \<lparr>ce_pr = pr, ce_types = [], ce_chantypes = [], ce_recv_window = window, ce_listen = \<lparr>le_acceptors = [], le_cleanups = []\<rparr>\<rparr>"

definition svr_chantypes :: "primitives \<Rightarrow> svr_runopts \<Rightarrow> byte list \<Rightarrow> u32 \<Rightarrow> chan_env" where
  "svr_chantypes pr opts version window = (handler_env pr window)\<lparr>ce_types := [svrchansess (handler_env pr window) opts version, chan_svr_agent], ce_chantypes := [0]\<rparr>"

definition server_env :: "primitives \<Rightarrow> svr_runopts \<Rightarrow> byte list \<Rightarrow> u32 \<Rightarrow> chan_env" where
  "server_env pr opts version window = (svr_chantypes pr opts version window)\<lparr>ce_listen :=
     \<lparr>le_acceptors = [agentaccept (svr_chantypes pr opts version window)], le_cleanups = []\<rparr>\<rparr>"

lemma server_env_simps [simp]:
  "ce_pr (server_env pr opts version window) = pr" "ce_recv_window (server_env pr opts version window) = window"
  "ce_types (server_env pr opts version window) = [svrchansess (handler_env pr window) opts version, chan_svr_agent]"
  "ce_chantypes (server_env pr opts version window) = [0]"
  "le_cleanups (ce_listen (server_env pr opts version window)) = []"
  by (simp_all add: server_env_def svr_chantypes_def handler_env_def)

lemma server_acceptors [simp]:
  "le_acceptors (ce_listen (server_env pr opts version window)) = [agentaccept (server_env pr opts version window)]"
  by (simp add: server_env_def agentaccept_env)

lemma handler_env_pr [simp]: "ce_pr (handler_env pr window) = pr"
  by (simp add: handler_env_def)

lemma svrchansess_simps [simp]:
  "ct_inithandler (svrchansess ce opts version) = Some newchansess" "ct_check_close (svrchansess ce opts version) = Some sesscheckclose"
  "ct_reqhandler (svrchansess ce opts version) = Some (chansessionrequest ce opts version)"
  "ct_closehandler (svrchansess ce opts version) = Some (closechansess ce)" "ct_cleanup (svrchansess ce opts version) = Some (cleanupchansess ce)"
  by (simp_all add: svrchansess_def)

lemma chan_svr_agent_simps [simp]:
  "ct_inithandler chan_svr_agent = None" "ct_check_close chan_svr_agent = None" "ct_reqhandler chan_svr_agent = None"
  "ct_closehandler chan_svr_agent = None" "ct_cleanup chan_svr_agent = None" "plain_type chan_svr_agent"
  by (simp_all add: chan_svr_agent_def plain_type_def str_def)

lemma server_type:
  assumes "chan_type_of (server_env pr opts version window) c = Inr t"
  shows "t = svrchansess (handler_env pr window) opts version \<and> ch_type c = 0 \<or> t = chan_svr_agent \<and> ch_type c = 1"
  using assms by (auto simp: chan_type_of_def entry_def split: if_splits simp: less_Suc_eq)

lemma session_still:
  assumes "with_chan ce ses0 i c s" and "chan_ok ce i c" and "chan_type_of ce c = Inr t" and "ct_check_close t \<noteq> None \<or> ct_reqhandler t \<noteq> None"
  shows "still ce ses0 i s"
  using assms by (auto simp: still_def sess_at_def chan_ok_def typed_ok_def chan_type_of_def entry_def Let_def split: if_splits)

lemma session_live: "still ce ses0 i s \<Longrightarrow> payload s \<noteq> None \<Longrightarrow> live ce ses0 i s"
  by (auto simp: still_def live_def live_cs_def)

lemma server_handlers:
  assumes "0 < unat window" and "unat window \<le> 10485760"
  shows "channel_handlers (server_env pr opts version window)"
proof
  let ?ce = "server_env pr opts version window"
  show "0 < unat (ce_recv_window ?ce)" "unat (ce_recv_window ?ce) \<le> 10485760" using assms by simp_all
  show "k \<in> set (ce_chantypes ?ce) \<Longrightarrow> k < length (ce_types ?ce)" for k by simp
  show "t \<in> set (ce_types ?ce) \<Longrightarrow> ct_inithandler t = None \<Longrightarrow> ct_check_close t = None \<and> ct_reqhandler t = None" for t by auto
  show "safe (\<lambda>(r, s). keeps ?ce ses0 i s) (f i ses)"
    if "ct_inithandler t = Some f" "with_chan ?ce ses0 i c ses" "newborn ?ce i c" "chan_type_of ?ce c = Inr t" for t f ses0 i c ses
    using server_type [OF that(4)] that(1) newchansess_keeps [OF that(2,3)] by auto
  show "safe (\<lambda>(r, s). keeps ?ce ses0 i s) (g i ses)"
    if "ct_check_close t = Some g" "with_chan ?ce ses0 i c ses" "chan_ok ?ce i c" "chan_type_of ?ce c = Inr t" for t g ses0 i c ses
    using server_type [OF that(4)] that(1) sesscheckclose_keeps [OF session_still [OF that(2-4)]] by auto
  show "safe (keeps ?ce ses0 i) (h i ses)"
    if "ct_reqhandler t = Some h" "with_chan ?ce ses0 i c ses" "chan_ok ?ce i c" "chan_type_of ?ce c = Inr t" "payload ses \<noteq> None" for t h ses0 i c ses
    using server_type [OF that(4)] that(1)
      chansessionrequest_keeps [OF session_live [OF session_still [OF that(2-4)] that(5)], of "handler_env pr window" opts version] by auto
  show "safe (with_chan ?ce ses0 i c) (h i ses)"
    if "ct_closehandler t = Some h" "with_chan ?ce ses0 i c ses" "chan_ok ?ce i c" "chan_type_of ?ce c = Inr t" for t h ses0 i c ses
    using server_type [OF that(4)] that(1) closechansess_step [OF that(2,3), of "handler_env pr window"] by auto
  show "safe (\<lambda>s. \<exists>c'. with_chan ?ce ses0 i c' s \<and> ch_index c' = ch_index c) (h i ses)"
    if "ct_cleanup t = Some h" "with_chan ?ce ses0 i c ses" "chan_type_of ?ce c = Inr t" for t h ses0 i c ses
    using server_type [OF that(3)] that(1) cleanupchansess_step [OF that(2), of "handler_env pr window"] by auto
  show "safe (\<lambda>s. chans_ok ?ce s \<and> listeners s = listeners ses \<and> listensize s = listensize ses) (a j sock ses)"
    if "a \<in> set (le_acceptors (ce_listen ?ce))" "chans_ok ?ce ses" for a ses j sock
    using that(1) agentaccept_ok [OF that(2)] assms by simp
qed


interpretation default_server: channel_handlers "server_env pr opts version 24576" for pr opts version
  by (rule server_handlers) simp_all

section \<open>Events\<close>

text \<open>
  What happens to a session, one event after the other: a message about channels, a round of the event loop, or the end of a worker
  thread, with its exit status, the last state of its shell and the files as the threads have left them.
\<close>

datatype server_event = Channel_event chan_event | Worker_end nat int ps4_shell_state fs

definition worker_runs :: "nat \<Rightarrow> sshsession \<Rightarrow> bool" where
  "worker_runs i ses \<longleftrightarrow> (case chansess i ses of Inl _ \<Rightarrow> False | Inr cs \<Rightarrow> cs_thread_started cs \<and> cs_backend_state cs = PS4_BACKEND_RUNNING)"

fun server_step :: "chan_env \<Rightarrow> server_event \<Rightarrow> sshsession \<Rightarrow> sshsession res" where
  "server_step ce (Channel_event e) ses = event_step ce e ses"
| "server_step ce (Worker_end i status shell f) ses = (if worker_runs i ses then worker_done i status shell f ses else Inr ses)"

fun server_steps :: "chan_env \<Rightarrow> server_event list \<Rightarrow> sshsession \<Rightarrow> sshsession res" where
  "server_steps ce [] ses = Inr ses"
| "server_steps ce (e # es) ses = rbind (server_step ce e ses) (server_steps ce es)"

fun server_event_ok :: "server_event \<Rightarrow> bool" where
  "server_event_ok (Channel_event e) = event_ok e"
| "server_event_ok (Worker_end i status shell f) = True"

lemma worker_done_ok:
  assumes ok: "chans_ok ce s" and run: "worker_runs i s"
  shows "safe (chans_ok ce) (worker_done i status shell f s)"
proof -
  obtain cs where cs: "chansess i s = Inr cs" using run by (auto simp: worker_runs_def split: sum.splits)
  then obtain c where c: "chan i s = Inr c" "ch_typedata c = Some cs" by (auto simp: chansess_def split: sum.splits option.splits)
  have sl: "slots_ok ce s" using ok by (simp add: chans_ok_def)
  have w: "with_chan ce s i c s" by (rule with_chan_start [OF ok c(1)])
  have st: "still ce s i (s\<lparr>files := f\<rparr>)"
    unfolding still_def sess_at_def
    using with_chan_world(1) [OF w, of f] c sl by (intro exI [of _ c] exI [of _ cs]) (auto simp: slots_ok_def chan_eq)
  have fin: "chans_ok ce t" if "still ce s i t" for t using keeps_final [OF sl w still_keeps [OF that]] .
  have cl: "still ce s i (close_fd fd t)" if "still ce s i t" for t fd using that sess_at_world(5) unfolding still_def by blast
  show ?thesis unfolding worker_done_def cs rbind.simps
    by (rule res_sat_bindI [OF still_mod [OF st]]) (auto simp: worker_exit_def sess_ok_def intro: fin cl)
qed

lemma server_steps_ok:
  assumes "0 < unat window" and "unat window \<le> 10485760"
  shows "chans_ok (server_env pr opts version window) s \<Longrightarrow> list_all server_event_ok es \<Longrightarrow>
    memsafe (chans_ok (server_env pr opts version window)) (server_steps (server_env pr opts version window) es s)"
proof (induction es arbitrary: s)
  case (Cons e es)
  have "memsafe (chans_ok (server_env pr opts version window)) (server_step (server_env pr opts version window) e s)"
    using Cons.prems channel_handlers.event_step_ok [OF server_handlers [OF assms]] safe_memsafe [OF worker_done_ok]
    by (cases e) auto
  then show ?case unfolding server_steps.simps by (rule res_sat_bindI) (use Cons in auto)
qed simp

section \<open>Properties\<close>

text \<open>A session after \<^verbatim>\<open>common_session_init\<close> and \<^verbatim>\<open>chaninitialise\<close>.\<close>

lemma new_session_ok:
  assumes "random_ok pr"
  shows "\<exists>ses. common_session_init 3 4 ses_zero = Inr ses \<and> chans_ok (server_env pr opts version window) (chaninitialise ses)
    \<and> payload ses = None \<and> fds ses = fd_world0 \<and> dataallowed ses"
proof -
  obtain ses where s: "common_session_init 3 4 ses_zero = Inr ses" "sendable pr ses" "wp_empty ses" "dataallowed ses"
    using common_session_init_eq [OF assms, of 3 4] by blast
  have p: "payload ses = None" "fds ses = fd_world0"
    using s(1) by (auto simp: common_session_init_def buf_new_def Let_def update_channel_prio_def ses_zero_def)
  have "chans_ok (server_env pr opts version window) (chaninitialise ses)"
    using s(2,3) p by (simp add: chans_ok_def base_ok_def slots_ok_def chaninitialise_def listeners_initialise_def sendable_def wp_ok_def wp_empty_def
        payload_ok_def listeners_ok_def agents_ok_def occupied_def)
  then show ?thesis using s p by blast
qed

text \<open>
  C26. The server's channels, whatever the peer sends: after any sequence of messages about channels with arbitrary contents, rounds of the event loop with
  arbitrary descriptors ready, and ends of worker threads, the tables of channels and listeners are in order again, or the session has been
  ended by a message of \<^verbatim>\<open>dropbear_exit\<close>, by the peer leaving or by a failed assertion. No handler reads or writes outside an array, follows a null
  pointer, or loops forever.
\<close>

theorem server_events_safe:
  assumes "0 < unat window" and "unat window \<le> 10485760" and "chans_ok (server_env pr opts version window) s" and "list_all server_event_ok es"
  shows "memsafe (chans_ok (server_env pr opts version window)) (server_steps (server_env pr opts version window) es s)"
  by (rule server_steps_ok [OF assms])

definition of_bytes :: "byte list \<Rightarrow> buffer" where
  "of_bytes bs = \<lparr>buf_data = bs, buf_len = of_nat (length bs), buf_pos = 0, buf_size = of_nat (length bs)\<rparr>"

lemma of_bytes_ok: "length bs \<le> 1000 \<Longrightarrow> buf_ok (of_bytes bs)"
  by (simp add: of_bytes_def buf_ok_def unat_of_nat_u32)

lemma of_bytes_rest: "length bs \<le> 1000 \<Longrightarrow> buf_rest (of_bytes bs) = bs"
  by (simp add: of_bytes_def buf_rest_def unat_of_nat_u32)

definition plain_opts :: svr_runopts where
  "plain_opts = \<lparr>so_norootlogin = False, so_noauthpass = False, so_norootpass = False, so_allowblankpass = False, so_multiauthmethod = False,
     so_maxauthtries = 10, so_banner = None, so_forced_command = None, so_restrict_group_gid = None, so_authorized_keys_dir = str ''/data/dropbear''\<rparr>"

abbreviation plain_env :: chan_env where
  "plain_env \<equiv> server_env counting_primitives plain_opts [] 24576"

definition shell_events :: "server_event list" where
  "shell_events =
     [Channel_event (Message SSH_MSG_CHANNEL_OPEN (of_bytes (message [F_str (str ''session''), F_int 7, F_int 65536, F_int 1024]))),
      Channel_event (Message SSH_MSG_CHANNEL_REQUEST (of_bytes (message [F_int 0, F_str (str ''shell''), F_byte 1]))),
      Channel_event (Round {3, 5} {4}), Worker_end 0 0 (ps4_shell_init []) fs0]"

theorem server_events_safe_witness:
  "\<exists>ses. common_session_init 3 4 ses_zero = Inr ses \<and> memsafe (chans_ok plain_env) (server_steps plain_env shell_events (chaninitialise ses))"
proof -
  obtain ses where s: "common_session_init 3 4 ses_zero = Inr ses" "chans_ok plain_env (chaninitialise ses)"
    using new_session_ok [OF counting_random_ok] by blast
  have "list_all server_event_ok shell_events" by (simp add: shell_events_def of_bytes_ok message_def str_def)
  from server_events_safe [OF _ _ s(2) this] s(1) show ?thesis by auto
qed

text \<open>The session with one channel for the witnesses, of the kind agents are forwarded on.\<close>

definition one_channel :: "int \<Rightarrow> sshsession \<Rightarrow> sshsession" where
  "one_channel fd ses = (let s = chaninitialise ses in s\<lparr>channels := [Some ((fresh_chan plain_env 7 1 65536 1024 0)\<lparr>ch_readfd := fd, ch_writefd := fd, ch_bidir_fd := True\<rparr>)],
     chancount := 1\<rparr>)"

lemma one_channel_ok:
  assumes "chans_ok plain_env (chaninitialise ses)"
  shows "chans_ok plain_env (one_channel fd ses)"
proof -
  have s: "base_ok plain_env (chaninitialise ses)" using assms by (simp add: chans_ok_def)
  have "newborn plain_env 0 (fresh_chan plain_env 7 1 65536 1024 0)"
    unfolding fresh_chan_def by (rule new_chan_newborn) (simp_all add: cbuf_new_def)
  then have c: "chan_ok plain_env 0 ((fresh_chan plain_env 7 1 65536 1024 0)\<lparr>ch_readfd := fd, ch_writefd := fd, ch_bidir_fd := True\<rparr>)"
    by (simp add: newborn_def chan_ok_def chan_core_def typed_ok_def fds_ok_def bufs_ok_def window_ok_def held_def fresh_chan_def new_chan_def)
  have "slots_ok plain_env (one_channel fd ses)"
    using c by (simp add: slots_ok_def one_channel_def Let_def chaninitialise_def listeners_initialise_def occupied_def)
  moreover have "base_ok plain_env (one_channel fd ses)"
    using s by (simp add: one_channel_def Let_def base_ok_def sendable_def wp_ok_def wp_empty_def payload_ok_def listeners_ok_def agents_ok_def agent_of_def fresh_chan_def new_chan_def)
  ultimately show ?thesis by (simp add: chans_ok_def)
qed

lemma one_channel_chan:
  "chan 0 (one_channel fd ses) = Inr ((fresh_chan plain_env 7 1 65536 1024 0)\<lparr>ch_readfd := fd, ch_writefd := fd, ch_bidir_fd := True\<rparr>)"
  by (simp add: one_channel_def Let_def chan_eq)

text \<open>
  C27. Data a client sends is not lost, duplicated or reordered: when the handler returns and the descriptor behind the channel is still open,
  what was written to it followed by what the channel still buffers is what it was before followed by the data of
  the message. An assertion can only fail when the message is longer than the window the client was given.
\<close>

theorem received_data_conserved:
  assumes "chans_ok ce ses" and "unat (ce_recv_window ce) \<le> 10485760" and "chan i ses = Inr c" and "0 \<le> ch_writefd c"
    and "payload ses = Some p" and "buf_ok p"
  shows "case common_recv_msg_channel_data ce i (ch_writefd c) Writebuf ses of
      Inl e \<Rightarrow> orderly e \<or> e = Assert_fail \<and> 4 \<le> length (buf_rest p) \<and> ch_recvwindow c < LOAD32H (take 4 (buf_rest p))
    | Inr s \<Rightarrow> \<exists>c'. chan i s = Inr c' \<and> (ch_writefd c' = FD_CLOSED \<or> ch_writefd c' = ch_writefd c
        \<and> fw_written (fds s) (ch_writefd c) @ chan_data Writebuf c' = fw_written (fds ses) (ch_writefd c) @ chan_data Writebuf c
            @ take (unat (LOAD32H (take 4 (buf_rest p)))) (drop 4 (buf_rest p)))"
proof -
  have w: "with_chan ce ses i c ses" by (rule with_chan_start [OF assms(1,3)])
  have ok: "chan_ok ce i c" using assms(1,3) by (simp add: chans_ok_def slots_ok_def chan_eq)
  show ?thesis using common_recv_data [OF w ok assms(5,6,2), of Writebuf "ch_writefd c"] assms(4)
    by (cases "common_recv_msg_channel_data ce i (ch_writefd c) Writebuf ses") (auto dest: with_chan_chan)
qed

theorem received_data_conserved_witness:
  "\<exists>ses c. common_session_init 3 4 ses_zero = Inr ses \<and> chan 0 (one_channel 5 ses) = Inr c
     \<and> (case common_recv_msg_channel_data plain_env 0 (ch_writefd c) Writebuf ((one_channel 5 ses)\<lparr>payload := Some (of_bytes (message [F_str [1, 2, 3]]))\<rparr>) of
          Inl e \<Rightarrow> orderly e
        | Inr s \<Rightarrow> \<exists>c'. chan 0 s = Inr c' \<and> (ch_writefd c' = FD_CLOSED \<or> fw_written (fds s) 5 @ chan_data Writebuf c' = [1, 2, 3]))"
proof -
  obtain ses where s: "common_session_init 3 4 ses_zero = Inr ses" "chans_ok plain_env (chaninitialise ses)" "fds ses = fd_world0"
    using new_session_ok [OF counting_random_ok] by blast
  let ?c = "(fresh_chan plain_env 7 1 65536 1024 0)\<lparr>ch_readfd := 5, ch_writefd := 5, ch_bidir_fd := True\<rparr>"
    and ?p = "of_bytes (message [F_str [1, 2, 3]])" and ?s = "one_channel 5 ses"
  have m: "message [F_str [1, 2, 3]] = [0, 0, 0, 3, 1, 2, 3]" by (simp add: message_def STORE32H_def)
  have p: "buf_ok ?p" "buf_rest ?p = [0, 0, 0, 3, 1, 2, 3]" by (simp_all add: m of_bytes_ok of_bytes_rest)
  have c: "ch_writefd ?c = 5" "chan_data Writebuf ?c = []" "ch_recvwindow ?c = 24576"
    by (simp_all add: fresh_chan_def new_chan_def chan_data_def cbuf_contents_def)
  have l: "LOAD32H [0, 0, 0, 3] = 3" by (simp add: LOAD32H_def)
  have w: "fw_written (fds ?s) 5 = []" using s(3) by (simp add: one_channel_def Let_def chaninitialise_def listeners_initialise_def fd_world0_def)
  have ch: "chan 0 (?s\<lparr>payload := Some ?p\<rparr>) = Inr ?c" using one_channel_chan [of 5 ses] by (simp add: chan_eq)
  note r = received_data_conserved [OF chans_ok_payload [OF one_channel_ok [OF s(2)] p(1)] _ ch, of ?p]
  have "case common_recv_msg_channel_data plain_env 0 (ch_writefd ?c) Writebuf (?s\<lparr>payload := Some ?p\<rparr>) of
          Inl e \<Rightarrow> orderly e
        | Inr s \<Rightarrow> \<exists>c'. chan 0 s = Inr c' \<and> (ch_writefd c' = FD_CLOSED \<or> fw_written (fds s) 5 @ chan_data Writebuf c' = [1, 2, 3])"
    using r p c l w by (auto split: sum.splits)
  then show ?thesis using s(1) one_channel_chan [of 5 ses] by blast
qed



text \<open>
  C29. A forced command does not restrict a client that asks for a shell: whatever command the server's options force, a \<^verbatim>\<open>shell\<close> request on an idle
  session channel starts the interactive shell, as long as the system calls it needs succeed. The forced command is only put into the field
  \<^verbatim>\<open>cmd\<close>, which \<^verbatim>\<open>ps4_shell_start\<close> does not look at.
\<close>

theorem shell_request_ignores_forced_command:
  assumes "chan i ses = Inr c" and "ch_typedata c = Some cs" and "cs_backend_state cs = PS4_BACKEND_IDLE"
    and "fw_answers (fds ses) = a # b # m # 0 # rest" and "0 \<le> a" and "0 \<le> m"
  shows "\<exists>s cs'. sessioncommand (opts\<lparr>so_forced_command := Some forced\<rparr>) version False False i ses = Inr (DROPBEAR_SUCCESS, s)
    \<and> chansess i s = Inr cs' \<and> cs_cmd cs' = Some forced \<and> cs_backend_state cs' = PS4_BACKEND_RUNNING \<and> cs_thread_started cs'
    \<and> cs_backend_fd cs' = b \<and> cs_shell cs' = cs_shell cs"
proof -
  have i: "i < length (channels ses)" "channels ses ! i = Some c" using assms(1) by (simp_all add: chan_eq)
  show ?thesis
    using assms(2-) i
    by (simp add: sessioncommand_def chansess_def assms(1) force_command_def mod_sess_def mod_chan_def set_chan_def chan_eq [THEN iffD2]
        ps4_shell_start_def start_worker_def sys_pair_def sys_answer_def give_fds_def chan_def)
qed

text \<open>A session with one idle session channel, and what the system calls will answer.\<close>

definition idle_session :: "int list \<Rightarrow> sshsession" where
  "idle_session answers = ses_zero\<lparr>channels := [Some ((fresh_chan plain_env 7 0 65536 1024 0)\<lparr>ch_typedata := Some new_chansess\<rparr>)], chansize := 1, chancount := 1,
     fds := fd_world0\<lparr>fw_answers := answers\<rparr>\<rparr>"

theorem shell_request_ignores_forced_command_witness:
  "\<exists>s cs. sessioncommand (plain_opts\<lparr>so_forced_command := Some (str ''true'')\<rparr>) [] False False 0 (idle_session [5, 6, 0, 0]) = Inr (DROPBEAR_SUCCESS, s)
    \<and> chansess 0 s = Inr cs \<and> cs_backend_state cs = PS4_BACKEND_RUNNING \<and> cs_thread_started cs \<and> cs_cmd cs = Some (str ''true'')"
proof -
  let ?c = "(fresh_chan plain_env 7 0 65536 1024 0)\<lparr>ch_typedata := Some new_chansess\<rparr>"
  have c: "chan 0 (idle_session [5, 6, 0, 0]) = Inr ?c" by (simp add: idle_session_def chan_eq)
  have a: "fw_answers (fds (idle_session [5, 6, 0, 0])) = [5, 6, 0, 0]" by (simp add: idle_session_def)
  from shell_request_ignores_forced_command [OF c _ _ a, of new_chansess, where opts = plain_opts and forced = "str ''true''" and version = "[]"] show ?thesis
    by (auto simp: new_chansess_def)
qed

end
