(* ===== verification/Handshake.thy ===== *)
theory Handshake
  imports Session
begin

text \<open>
  The main thread and a worker thread of src/dropbear/src/svr-chansession.c share the worker's descriptor, the server's end of a socket
  pair. The worker uses it until it ends; the main thread shuts it down when the client has gone, and waits for the worker when
  the channel is freed. The two communicate by atomic operations on \<^verbatim>\<open>ps4_backend_fd\<close>, \<^verbatim>\<open>ps4_cancel_fd\<close> and \<^verbatim>\<open>ps4_backend_state\<close>.
  Every atomic operation and every system call is one step here, and the steps of the threads interleave in any way.
\<close>

section \<open>Threads\<close>

text \<open>
  Where the worker is: reading the next byte, busy with \<open>n\<close> more operations on the descriptor before it reads again, or at one of the
  statements that end it. Where the main thread is: serving events, inside \<^verbatim>\<open>sesscheckclose\<close>, or inside \<^verbatim>\<open>cleanupchansess\<close>, with
  the values of the local variables.
\<close>

datatype worker_pc = W_read | W_busy nat | W_done | W_exchange | W_close | W_end

datatype main_pc = M_serve | M_check | M_took int | M_shut int
  | M_backend int | M_both int int | M_cancel int int | M_join int int | M_close int int | M_close_cancel int | M_end

text \<open>
  The shared state. \<open>hs_input\<close> is what the worker has not read yet, for each byte the number of operations it causes. \<open>hs_bad\<close> records an
  operation on the descriptor after it was closed.
\<close>

record handshake =
  hs_backend_fd :: int
  hs_cancel_fd :: int
  hs_backend_state :: ps4_command_state
  hs_shutdown :: bool
  hs_peer_closed :: bool
  hs_closes :: nat
  hs_bad :: bool
  hs_input :: "nat list"
  hs_worker :: worker_pc
  hs_main :: main_pc

text \<open>The state after \<^verbatim>\<open>ps4_shell_start\<close> or \<^verbatim>\<open>ps4_scp_start\<close> has created the thread.\<close>

definition started :: "int \<Rightarrow> handshake" where
  "started fd = \<lparr>hs_backend_fd = fd, hs_cancel_fd = - 1, hs_backend_state = PS4_BACKEND_RUNNING, hs_shutdown = False, hs_peer_closed = False,
     hs_closes = 0, hs_bad = False, hs_input = [], hs_worker = W_read, hs_main = M_serve\<rparr>"

definition touch :: "handshake \<Rightarrow> handshake" where
  "touch s = s\<lparr>hs_bad := (hs_bad s \<or> 0 < hs_closes s)\<rparr>"

definition close_once :: "handshake \<Rightarrow> handshake" where
  "close_once s = (touch s)\<lparr>hs_closes := Suc (hs_closes s)\<rparr>"

definition shut_down :: "int \<Rightarrow> handshake \<Rightarrow> handshake" where
  "shut_down fd s = (if fd \<ge> 0 then (touch s)\<lparr>hs_shutdown := True\<rparr> else s)"

definition close_if :: "int \<Rightarrow> handshake \<Rightarrow> handshake" where
  "close_if fd s = (if fd \<ge> 0 then close_once s else s)"

text \<open>The worker: \<^verbatim>\<open>read\<close> ends its loop after a shutdown, or when the other end is closed and everything was read.\<close>

inductive worker_step :: "handshake \<Rightarrow> handshake \<Rightarrow> bool" where
  W_input: "hs_worker s = W_read \<Longrightarrow> hs_input s = n # ns \<Longrightarrow> worker_step s ((touch s)\<lparr>hs_input := ns, hs_worker := W_busy n\<rparr>)"
| W_eof: "hs_worker s = W_read \<Longrightarrow> hs_shutdown s \<or> hs_peer_closed s \<and> hs_input s = [] \<Longrightarrow> worker_step s ((touch s)\<lparr>hs_worker := W_done\<rparr>)"
| W_work: "hs_worker s = W_busy (Suc n) \<Longrightarrow> worker_step s ((touch s)\<lparr>hs_worker := W_busy n\<rparr>)"
| W_next: "hs_worker s = W_busy 0 \<Longrightarrow> worker_step s (s\<lparr>hs_worker := W_read\<rparr>)"
| W_logout: "hs_worker s = W_busy 0 \<Longrightarrow> worker_step s (s\<lparr>hs_worker := W_done\<rparr>)"
| W_store: "hs_worker s = W_done \<Longrightarrow> worker_step s (s\<lparr>hs_backend_state := PS4_BACKEND_DONE, hs_worker := W_exchange\<rparr>)"
| W_take: "hs_worker s = W_exchange \<Longrightarrow> worker_step s (s\<lparr>hs_backend_fd := - 1, hs_worker := (if hs_backend_fd s \<ge> 0 then W_close else W_end)\<rparr>)"
| W_close_fd: "hs_worker s = W_close \<Longrightarrow> worker_step s ((close_once s)\<lparr>hs_worker := W_end\<rparr>)"

text \<open>The main thread while the channel lives, and \<^verbatim>\<open>sesscheckclose\<close> when the client has closed the channel.\<close>

inductive serve_step :: "handshake \<Rightarrow> handshake \<Rightarrow> bool" where
  M_write: "hs_main s = M_serve \<Longrightarrow> \<not> hs_peer_closed s \<Longrightarrow> serve_step s (s\<lparr>hs_input := hs_input s @ [n]\<rparr>)"
| M_peer: "hs_main s = M_serve \<Longrightarrow> serve_step s (s\<lparr>hs_peer_closed := True\<rparr>)"
| M_load: "hs_main s = M_serve \<Longrightarrow> hs_backend_state s = PS4_BACKEND_RUNNING \<Longrightarrow> serve_step s (s\<lparr>hs_main := M_check\<rparr>)"
| M_take: "hs_main s = M_check \<Longrightarrow> serve_step s (s\<lparr>hs_backend_fd := - 1, hs_main := M_took (hs_backend_fd s)\<rparr>)"
| M_none: "hs_main s = M_took fd \<Longrightarrow> fd < 0 \<Longrightarrow> serve_step s (s\<lparr>hs_main := M_serve\<rparr>)"
| M_store: "hs_main s = M_took fd \<Longrightarrow> fd \<ge> 0 \<Longrightarrow> serve_step s (s\<lparr>hs_cancel_fd := fd, hs_main := M_shut fd\<rparr>)"
| M_shutdown: "hs_main s = M_shut fd \<Longrightarrow> serve_step s ((shut_down fd s)\<lparr>hs_main := M_serve\<rparr>)"

text \<open>\<^verbatim>\<open>cleanupchansess\<close>: two exchanges, two shutdowns, the join, two closes.\<close>

inductive cleanup_step :: "handshake \<Rightarrow> handshake \<Rightarrow> bool" where
  C_backend: "hs_main s = M_serve \<Longrightarrow> cleanup_step s (s\<lparr>hs_backend_fd := - 1, hs_main := M_backend (hs_backend_fd s)\<rparr>)"
| C_cancel: "hs_main s = M_backend b \<Longrightarrow> cleanup_step s (s\<lparr>hs_cancel_fd := - 1, hs_main := M_both b (hs_cancel_fd s)\<rparr>)"
| C_shut_backend: "hs_main s = M_both b c \<Longrightarrow> cleanup_step s ((shut_down b s)\<lparr>hs_main := M_cancel b c\<rparr>)"
| C_shut_cancel: "hs_main s = M_cancel b c \<Longrightarrow> cleanup_step s ((shut_down c s)\<lparr>hs_main := M_join b c\<rparr>)"
| C_join: "hs_main s = M_join b c \<Longrightarrow> hs_worker s = W_end \<Longrightarrow> cleanup_step s (s\<lparr>hs_main := M_close b c\<rparr>)"
| C_close_backend: "hs_main s = M_close b c \<Longrightarrow> cleanup_step s ((close_if b s)\<lparr>hs_main := M_close_cancel c\<rparr>)"
| C_close_cancel: "hs_main s = M_close_cancel c \<Longrightarrow> cleanup_step s ((close_if c s)\<lparr>hs_main := M_end\<rparr>)"

definition hs_step :: "handshake \<Rightarrow> handshake \<Rightarrow> bool" where
  "hs_step s s' \<longleftrightarrow> worker_step s s' \<or> serve_step s s' \<or> cleanup_step s s'"

section \<open>Who holds the descriptor\<close>

definition holds :: "int \<Rightarrow> nat" where
  "holds fd = (if fd \<ge> 0 then 1 else 0)"

fun main_holds :: "main_pc \<Rightarrow> nat" where
  "main_holds (M_took fd) = holds fd"
| "main_holds (M_backend b) = holds b"
| "main_holds (M_both b c) = holds b + holds c"
| "main_holds (M_cancel b c) = holds b + holds c"
| "main_holds (M_join b c) = holds b + holds c"
| "main_holds (M_close b c) = holds b + holds c"
| "main_holds (M_close_cancel c) = holds c"
| "main_holds _ = 0"

text \<open>The descriptor is in one of the cells, in a local variable of a thread that will close it, or closed.\<close>

definition holders :: "handshake \<Rightarrow> nat" where
  "holders s = holds (hs_backend_fd s) + holds (hs_cancel_fd s) + main_holds (hs_main s) + (if hs_worker s = W_close then 1 else 0) + hs_closes s"

fun main_ok :: "main_pc \<Rightarrow> handshake \<Rightarrow> bool" where
  "main_ok (M_shut fd) s \<longleftrightarrow> hs_cancel_fd s \<ge> 0 \<and> fd \<ge> 0"
| "main_ok (M_backend b) s \<longleftrightarrow> hs_backend_fd s < 0 \<and> (hs_cancel_fd s \<ge> 0 \<longrightarrow> hs_shutdown s)"
| "main_ok (M_both b c) s \<longleftrightarrow> hs_backend_fd s < 0 \<and> hs_cancel_fd s < 0 \<and> (c \<ge> 0 \<longrightarrow> hs_shutdown s)"
| "main_ok (M_cancel b c) s \<longleftrightarrow> hs_backend_fd s < 0 \<and> hs_cancel_fd s < 0 \<and> (b \<ge> 0 \<or> c \<ge> 0 \<longrightarrow> hs_shutdown s)"
| "main_ok (M_join b c) s \<longleftrightarrow> hs_backend_fd s < 0 \<and> hs_cancel_fd s < 0 \<and> (b \<ge> 0 \<or> c \<ge> 0 \<longrightarrow> hs_shutdown s)"
| "main_ok (M_close b c) s \<longleftrightarrow> hs_backend_fd s < 0 \<and> hs_cancel_fd s < 0 \<and> hs_worker s = W_end"
| "main_ok (M_close_cancel c) s \<longleftrightarrow> hs_backend_fd s < 0 \<and> hs_cancel_fd s < 0 \<and> hs_worker s = W_end"
| "main_ok M_end s \<longleftrightarrow> hs_backend_fd s < 0 \<and> hs_cancel_fd s < 0 \<and> hs_worker s = W_end"
| "main_ok (M_took fd) s \<longleftrightarrow> hs_cancel_fd s \<ge> 0 \<longrightarrow> hs_shutdown s"
| "main_ok _ s \<longleftrightarrow> hs_cancel_fd s \<ge> 0 \<longrightarrow> hs_shutdown s"

definition hs_ok :: "handshake \<Rightarrow> bool" where
  "hs_ok s \<longleftrightarrow> holders s = 1 \<and> (0 < hs_closes s \<longrightarrow> hs_worker s = W_end) \<and> \<not> hs_bad s \<and> main_ok (hs_main s) s"

lemmas hs_defs = hs_ok_def holders_def holds_def touch_def close_once_def shut_down_def close_if_def

lemma started_ok: "fd \<ge> 0 \<Longrightarrow> hs_ok (started fd)"
  by (simp add: hs_defs started_def)

lemma main_ok_same:
  assumes "hs_cancel_fd t = hs_cancel_fd s" "hs_backend_fd t = hs_backend_fd s \<or> hs_backend_fd t < 0" "hs_shutdown t = hs_shutdown s"
    "hs_worker s = W_end \<Longrightarrow> hs_worker t = W_end"
  shows "main_ok m s \<Longrightarrow> main_ok m t"
  using assms by (cases m) auto

lemma worker_step_ok: "worker_step s s' \<Longrightarrow> hs_ok s \<Longrightarrow> hs_ok s'"
proof (induction rule: worker_step.induct)
  case (W_take s)
  then show ?case using main_ok_same [of "s\<lparr>hs_backend_fd := - 1, hs_worker := (if hs_backend_fd s \<ge> 0 then W_close else W_end)\<rparr>" s]
    by (auto simp: hs_defs split: if_splits)
qed (auto simp: hs_defs intro: main_ok_same)

lemma serve_step_ok: "serve_step s s' \<Longrightarrow> hs_ok s \<Longrightarrow> hs_ok s'"
  by (induction rule: serve_step.induct) (auto simp: hs_defs split: if_splits)

lemma cleanup_step_ok: "cleanup_step s s' \<Longrightarrow> hs_ok s \<Longrightarrow> hs_ok s'"
  by (induction rule: cleanup_step.induct) (auto simp: hs_defs split: if_splits)

lemma hs_step_ok: "hs_step s s' \<Longrightarrow> hs_ok s \<Longrightarrow> hs_ok s'"
  by (auto simp: hs_step_def intro: worker_step_ok serve_step_ok cleanup_step_ok)

lemma hs_steps_ok: "hs_step\<^sup>*\<^sup>* s s' \<Longrightarrow> hs_ok s \<Longrightarrow> hs_ok s'"
  by (induction rule: rtranclp_induct) (auto intro: hs_step_ok)

section \<open>The channel is always freed\<close>

fun main_rank :: "main_pc \<Rightarrow> nat" where
  "main_rank (M_backend b) = 6"
| "main_rank (M_both b c) = 5"
| "main_rank (M_cancel b c) = 4"
| "main_rank (M_join b c) = 3"
| "main_rank (M_close b c) = 2"
| "main_rank (M_close_cancel c) = 1"
| "main_rank _ = 0"

fun worker_rank :: "worker_pc \<Rightarrow> nat" where
  "worker_rank W_end = 0"
| "worker_rank W_close = 1"
| "worker_rank W_exchange = 2"
| "worker_rank W_done = 3"
| "worker_rank W_read = 4"
| "worker_rank (W_busy n) = n + 5"

fun cleaning :: "main_pc \<Rightarrow> bool" where
  "cleaning M_serve = False"
| "cleaning M_check = False"
| "cleaning (M_took fd) = False"
| "cleaning (M_shut fd) = False"
| "cleaning _ = True"

text \<open>The steps that are left, at most.\<close>

definition steps_left :: "handshake \<Rightarrow> nat" where
  "steps_left s = main_rank (hs_main s) + worker_rank (hs_worker s) + sum_list (map (\<lambda>n. n + 2) (hs_input s))"

lemma hs_step_down:
  assumes "hs_step s s'" and "cleaning (hs_main s)"
  shows "steps_left s' < steps_left s \<and> cleaning (hs_main s')"
  using assms unfolding hs_step_def
proof (elim disjE)
  assume "worker_step s s'"
  then show ?thesis using assms(2) by (induction rule: worker_step.induct) (auto simp: steps_left_def touch_def close_once_def)
next
  assume "serve_step s s'"
  then show ?thesis using assms(2) by (induction rule: serve_step.induct) auto
next
  assume "cleanup_step s s'"
  then show ?thesis using assms(2)
    by (induction rule: cleanup_step.induct) (auto simp: steps_left_def touch_def close_once_def shut_down_def close_if_def)
qed

lemma worker_not_stuck:
  assumes "hs_worker s \<noteq> W_end" and "hs_worker s = W_read \<Longrightarrow> hs_shutdown s"
  shows "\<exists>s'. worker_step s s'"
proof (cases "hs_worker s")
  case (W_busy n)
  then show ?thesis by (cases n) (auto intro: worker_step.intros)
qed (use assms in \<open>auto intro: worker_step.intros\<close>)

lemma hs_not_stuck:
  assumes ok: "hs_ok s" and c: "cleaning (hs_main s)" "hs_main s \<noteq> M_end"
  shows "\<exists>s'. hs_step s s'"
proof (cases "hs_main s")
  case (M_join b d)
  show ?thesis
  proof (cases "hs_worker s = W_end")
    case True
    then show ?thesis using M_join C_join unfolding hs_step_def by blast
  next
    case False
    have "hs_worker s = W_read \<Longrightarrow> hs_shutdown s" using ok M_join by (auto simp: hs_defs split: if_splits)
    then show ?thesis using worker_not_stuck [OF False] unfolding hs_step_def by blast
  qed
next
  case (M_backend b)
  then show ?thesis unfolding hs_step_def by (blast intro: C_cancel)
next
  case (M_both b d)
  then show ?thesis unfolding hs_step_def by (blast intro: C_shut_backend)
next
  case (M_cancel b d)
  then show ?thesis unfolding hs_step_def by (blast intro: C_shut_cancel)
next
  case (M_close b d)
  then show ?thesis unfolding hs_step_def by (blast intro: C_close_backend)
next
  case (M_close_cancel d)
  then show ?thesis unfolding hs_step_def by (blast intro: C_close_cancel)
qed (use c in auto)

lemma hs_run_bound: "(hs_step ^^ k) s s' \<Longrightarrow> cleaning (hs_main s) \<Longrightarrow> k + steps_left s' \<le> steps_left s \<and> cleaning (hs_main s')"
proof (induction k arbitrary: s')
  case (Suc k)
  then obtain t where t: "(hs_step ^^ k) s t" "hs_step t s'" by auto
  show ?case using Suc.IH [OF t(1) Suc.prems(2)] hs_step_down [OF t(2)] by auto
qed simp

text \<open>The main thread cancels the worker and frees the channel.\<close>

definition freed :: handshake where
  "freed = \<lparr>hs_backend_fd = - 1, hs_cancel_fd = - 1, hs_backend_state = PS4_BACKEND_DONE, hs_shutdown = True, hs_peer_closed = False,
     hs_closes = 1, hs_bad = False, hs_input = [], hs_worker = W_end, hs_main = M_end\<rparr>"

text \<open>The main thread waits for a worker that is blocked in \<^verbatim>\<open>read\<close>.\<close>

definition joining :: handshake where
  "joining = (started 9)\<lparr>hs_backend_fd := - 1, hs_shutdown := True, hs_main := M_join 9 (- 1)\<rparr>"

lemma hs_run: "hs_step s t \<Longrightarrow> hs_step\<^sup>*\<^sup>* t u \<Longrightarrow> hs_step\<^sup>*\<^sup>* s u"
  by (rule converse_rtranclp_into_rtranclp)

lemma hs_here: "s = t \<Longrightarrow> hs_step\<^sup>*\<^sup>* s t"
  by simp

lemmas hs_worker = disjI1 [THEN hs_step_def [THEN iffD2]]
lemmas hs_serve = disjI1 [THEN disjI2, THEN hs_step_def [THEN iffD2]]
lemmas hs_cleanup = disjI2 [THEN disjI2, THEN hs_step_def [THEN iffD2]]
lemmas hs_moves = started_def touch_def close_once_def shut_down_def close_if_def joining_def freed_def

lemma joining_reachable: "hs_step\<^sup>*\<^sup>* (started 9) joining"
  apply (rule hs_run, rule hs_cleanup, rule C_backend, simp add: hs_moves)
  apply (rule hs_run, rule hs_cleanup, rule C_cancel, simp add: hs_moves)
  apply (rule hs_run, rule hs_cleanup, rule C_shut_backend, simp add: hs_moves)
  apply (rule hs_run, rule hs_cleanup, rule C_shut_cancel, simp add: hs_moves)
  apply (rule hs_here, simp add: hs_moves)
  done

lemma joining_ends: "hs_step\<^sup>*\<^sup>* joining freed"
  apply (rule hs_run, rule hs_worker, rule W_eof, simp add: hs_moves, simp add: hs_moves)
  apply (rule hs_run, rule hs_worker, rule W_store, simp add: hs_moves)
  apply (rule hs_run, rule hs_worker, rule W_take, simp add: hs_moves)
  apply (rule hs_run, rule hs_cleanup, rule C_join, simp add: hs_moves, simp add: hs_moves)
  apply (rule hs_run, rule hs_cleanup, rule C_close_backend, simp add: hs_moves)
  apply (rule hs_run, rule hs_cleanup, rule C_close_cancel, simp add: hs_moves)
  apply (rule hs_here, simp add: hs_moves)
  done

section \<open>Properties\<close>

text \<open>
  C30. However the two threads interleave, a worker's descriptor is never used or shut down after it was closed, is closed at most once, and
  is closed exactly once when the channel has been freed; the worker never closes it while the main thread still may shut it down.
\<close>

theorem descriptor_closed_once:
  assumes "fd \<ge> 0" and "hs_step\<^sup>*\<^sup>* (started fd) s"
  shows "\<not> hs_bad s \<and> hs_closes s \<le> 1 \<and> (hs_main s = M_end \<longrightarrow> hs_closes s = 1 \<and> hs_worker s = W_end)"
proof -
  have ok: "hs_ok s" using hs_steps_ok [OF assms(2)] started_ok [OF assms(1)] by blast
  then show ?thesis by (auto simp: hs_defs split: if_splits)
qed

theorem descriptor_closed_once_witness:
  "hs_step\<^sup>*\<^sup>* (started 9) freed \<and> \<not> hs_bad freed \<and> hs_closes freed = 1"
proof -
  have r: "hs_step\<^sup>*\<^sup>* (started 9) freed" using joining_reachable joining_ends by (rule rtranclp_trans)
  from descriptor_closed_once [OF _ r] show ?thesis using r by (simp add: freed_def)
qed

text \<open>
  C31. Freeing a channel always succeeds: once \<^verbatim>\<open>cleanupchansess\<close> has begun, no schedule makes more than a bounded number of steps,
  and the only states without a next step are those where the function has returned, with the worker joined and its
  descriptor closed. In particular \<^verbatim>\<open>pthread_join\<close> never waits forever for a worker that is blocked in \<^verbatim>\<open>read\<close>.
\<close>

theorem cleanup_always_returns:
  assumes "fd \<ge> 0" and "hs_step\<^sup>*\<^sup>* (started fd) s" and "cleaning (hs_main s)" and "(hs_step ^^ k) s t"
  shows "k \<le> steps_left s \<and> ((\<exists>u. hs_step t u) \<or> hs_main t = M_end \<and> hs_worker t = W_end \<and> hs_closes t = 1)"
proof -
  have ok: "hs_ok t" using hs_steps_ok [OF relpowp_imp_rtranclp [OF assms(4)]] hs_steps_ok [OF assms(2) started_ok [OF assms(1)]] by blast
  have c: "k \<le> steps_left s" "cleaning (hs_main t)" using hs_run_bound [OF assms(4,3)] by auto
  then show ?thesis using hs_not_stuck [OF ok c(2)] ok by (cases "hs_main t = M_end") (auto simp: hs_defs split: if_splits)
qed

theorem cleanup_always_returns_witness:
  "hs_main joining = M_join 9 (- 1) \<and> hs_worker joining = W_read \<and> (\<exists>u. hs_step joining u)"
  using cleanup_always_returns [OF _ joining_reachable, of 0 joining] by (simp add: joining_def started_def)

end
