(* ===== verification/Authkeys.thy ===== *)
theory Authkeys
  imports PubkeyOptions Ps4Fs
begin

text \<open>
  The authorized keys of a user, src/dropbear/src/svr-authpubkey.c, and the options a line can carry,
  src/dropbear/src/svr-authpubkeyoptions.c: reading the file line by line, finding the options, the key type and the key of a line,
  comparing the key with the one a client offers, and the checks of the directories on the way to the file.
  A buffer that is only read is the list of the bytes behind its position.
\<close>

section \<open>Numbers and addresses\<close>

text \<open>
  \<^verbatim>\<open>m_str_to_uint\<close> of src/dropbear/src/dbutil.c. It looks at \<^verbatim>\<open>errno\<close> without having reset it, so that what an earlier call left there
  is an argument.
\<close>

abbreviation EINVAL :: nat where "EINVAL \<equiv> 22"

definition m_str_to_uint :: "nat \<Rightarrow> byte list \<Rightarrow> u32 option" where
  "m_str_to_uint errno s = (case strtoul 10 s of (l, rest, erange) \<Rightarrow>
     if scan_number 10 s = None \<or> rest \<noteq> [] then None
     else if l = 0 \<and> errno = EINVAL \<or> l > 0xffffffff then None else Some (of_nat l))"

abbreviation quote_char :: byte where "quote_char \<equiv> 0x22"
abbreviation colon_char :: byte where "colon_char \<equiv> 0x3a"
abbreviation escape_char :: byte where "escape_char \<equiv> 0x5c"
abbreviation comma_char :: byte where "comma_char \<equiv> 0x2c"

text \<open>The bytes before and after the last occurrence of a byte, as \<^verbatim>\<open>strrchr\<close> finds it.\<close>

definition split_last :: "byte \<Rightarrow> byte list \<Rightarrow> (byte list \<times> byte list) option" where
  "split_last c s = (if c \<in> set s then Some (rev (tl (dropWhile (\<lambda>b. b \<noteq> c) (rev s))), rev (takeWhile (\<lambda>b. b \<noteq> c) (rev s))) else None)"

text \<open>\<^verbatim>\<open>split_address_port\<close> of src/dropbear/src/common-runopts.c: the address and the port, each of which may be missing.\<close>

definition split_address_port :: "byte list \<Rightarrow> (byte list option \<times> byte list option) option" where
  "split_address_port spec = (let first = (\<lambda>addr. if addr = [] then None else Some addr) in
     if spec \<noteq> [] \<and> hd spec = 0x5b then
       let addr = takeWhile (\<lambda>b. b \<noteq> 0x5d) (tl spec); rest = dropWhile (\<lambda>b. b \<noteq> 0x5d) (tl spec) in
       if rest = [] then None
       else (case tl rest of [] \<Rightarrow> Some (first addr, None)
         | c # port \<Rightarrow> if c \<noteq> colon_char then None else Some (first addr, Some port))
     else (case split_last colon_char spec of None \<Rightarrow> Some (first spec, None)
       | Some (addr, port) \<Rightarrow> Some (first addr, Some port)))"

section \<open>Options\<close>

text \<open>The structure is allocated with zeros.\<close>

definition no_options :: PubKeyOptions where
  "no_options = \<lparr>po_no_port_forwarding_flag = False, po_no_agent_forwarding_flag = False, po_no_x11_forwarding_flag = False, po_no_pty_flag = False,
     po_forced_command = None, po_permit_open_destinations = None, po_permit_listens = None, po_no_touch_required_flag = False,
     po_verify_required_flag = False, po_info_env = None\<rparr>"

definition to_lower :: "byte \<Rightarrow> byte" where
  "to_lower b = (if 0x41 \<le> b \<and> b \<le> 0x5a then b + 0x20 else b)"

text \<open>\<^verbatim>\<open>match_option\<close>: the rest behind the name, if the name is there.\<close>

definition match_option :: "byte list \<Rightarrow> byte list \<Rightarrow> byte list option" where
  "match_option rest name = (if length rest < length name then None
     else if map to_lower (take (length name) rest) = map to_lower name then Some (drop (length name) rest) else None)"

text \<open>The text before the quote that ends a command, and the rest behind it; a backslash takes the meaning of the next byte.\<close>

fun command_text :: "bool \<Rightarrow> byte list \<Rightarrow> (byte list \<times> byte list) option" where
  "command_text escaped [] = None"
| "command_text escaped (c # cs) = (if \<not> escaped \<and> c = quote_char then Some ([], cs)
     else map_option (apfst (Cons c)) (command_text (\<not> escaped \<and> c = escape_char) cs))"

text \<open>The same for the other options, which know no escapes.\<close>

definition quoted_text :: "byte list \<Rightarrow> (byte list \<times> byte list) option" where
  "quoted_text rest = (if quote_char \<in> set rest
     then Some (takeWhile (\<lambda>b. b \<noteq> quote_char) rest, tl (dropWhile (\<lambda>b. b \<noteq> quote_char) rest)) else None)"

definition add_entry :: "PermitTCPFwdEntry \<Rightarrow> PermitTCPFwdEntry list option \<Rightarrow> PermitTCPFwdEntry list option" where
  "add_entry e es = Some ((case es of None \<Rightarrow> [] | Some es \<Rightarrow> es) @ [e])"

definition permitopen_entry :: "nat \<Rightarrow> byte list \<Rightarrow> PermitTCPFwdEntry option" where
  "permitopen_entry errno spec = (case split_address_port spec of
       Some (Some host, Some port) \<Rightarrow>
         if port = str ''*'' then Some \<lparr>pe_host = Some host, pe_port = PUBKEY_OPTIONS_ANY_PORT\<rparr>
         else map_option (\<lambda>p. \<lparr>pe_host = Some host, pe_port = p\<rparr>) (m_str_to_uint errno port)
     | _ \<Rightarrow> None)"

text \<open>
  One option at the start of \<open>rest\<close>: the options and the rest behind it. \<open>None\<close> is the label \<^verbatim>\<open>bad_option\<close>. When no name matches the rest is
  as it was. X11 forwarding is not part of the build, and its option has no effect.
\<close>

definition parse_option :: "nat \<Rightarrow> PubKeyOptions \<Rightarrow> byte list \<Rightarrow> (PubKeyOptions \<times> byte list) option" where
  "parse_option errno po rest =
     (case match_option rest (str ''no-port-forwarding'') of Some r \<Rightarrow> Some (po\<lparr>po_no_port_forwarding_flag := True\<rparr>, r) | None \<Rightarrow>
     (case match_option rest (str ''no-agent-forwarding'') of Some r \<Rightarrow> Some (po\<lparr>po_no_agent_forwarding_flag := True\<rparr>, r) | None \<Rightarrow>
     (case match_option rest (str ''no-X11-forwarding'') of Some r \<Rightarrow> Some (po, r) | None \<Rightarrow>
     (case match_option rest (str ''no-pty'') of Some r \<Rightarrow> Some (po\<lparr>po_no_pty_flag := True\<rparr>, r) | None \<Rightarrow>
     (case match_option rest (str ''restrict'') of
        Some r \<Rightarrow> Some (po\<lparr>po_no_port_forwarding_flag := True, po_no_agent_forwarding_flag := True, po_no_pty_flag := True\<rparr>, r) | None \<Rightarrow>
     (case match_option rest (str ''command=\"'') of
        Some r \<Rightarrow> if po_forced_command po \<noteq> None then None
          else map_option (\<lambda>(command, r). (po\<lparr>po_forced_command := Some command\<rparr>, r)) (command_text False r) | None \<Rightarrow>
     (case match_option rest (str ''permitopen=\"'') of
        Some r \<Rightarrow> (case quoted_text r of None \<Rightarrow> None
          | Some (spec, r) \<Rightarrow> map_option (\<lambda>e. (po\<lparr>po_permit_open_destinations := add_entry e (po_permit_open_destinations po)\<rparr>, r)) (permitopen_entry errno spec)) | None \<Rightarrow>
     (case match_option rest (str ''permitlisten=\"'') of
        Some r \<Rightarrow> (case quoted_text r of None \<Rightarrow> None
          | Some (spec, r) \<Rightarrow> map_option (\<lambda>p. (po\<lparr>po_permit_listens := add_entry \<lparr>pe_host = None, pe_port = p\<rparr> (po_permit_listens po)\<rparr>, r)) (m_str_to_uint errno spec)) | None \<Rightarrow>
     (case match_option rest (str ''no-touch-required'') of Some r \<Rightarrow> Some (po\<lparr>po_no_touch_required_flag := True\<rparr>, r) | None \<Rightarrow>
     (case match_option rest (str ''verify-required'') of Some r \<Rightarrow> Some (po\<lparr>po_verify_required_flag := True\<rparr>, r) | None \<Rightarrow>
      Some (po, rest)))))))))))"

lemma match_option_length: "match_option rest name = Some r \<Longrightarrow> length r \<le> length rest"
  by (auto simp: match_option_def split: if_splits)

lemma command_text_length: "command_text e rest = Some (c, r) \<Longrightarrow> length r \<le> length rest"
  by (induction e rest arbitrary: c rule: command_text.induct) (fastforce split: if_splits)+

lemma quoted_text_length: "quoted_text rest = Some (c, r) \<Longrightarrow> length r \<le> length rest"
  using length_dropWhile_le [of "\<lambda>b. b \<noteq> quote_char" rest] by (auto simp: quoted_text_def split: if_splits)

lemma parse_option_length: "parse_option errno po rest = Some (po', r) \<Longrightarrow> length r \<le> length rest"
  unfolding parse_option_def
  by (fastforce split: option.splits if_splits prod.splits dest: match_option_length command_text_length quoted_text_length)

text \<open>The loop over the options, with the comma between two of them.\<close>

function parse_options :: "nat \<Rightarrow> PubKeyOptions \<Rightarrow> byte list \<Rightarrow> PubKeyOptions option" where
  "parse_options errno po rest = (if rest = [] then Some po else case parse_option errno po rest of None \<Rightarrow> None
     | Some (po, rest) \<Rightarrow> (case rest of [] \<Rightarrow> Some po
       | c # rest \<Rightarrow> if c \<noteq> comma_char then None else parse_options errno po rest))"
  by pat_completeness auto

termination
  by (relation "measure (\<lambda>(errno, po, rest). length rest)") (auto dest!: parse_option_length)

declare parse_options.simps [simp del]

definition svr_parse_pubkey_options :: "nat \<Rightarrow> byte list option \<Rightarrow> PubKeyOptions option" where
  "svr_parse_pubkey_options errno options_buf = (case options_buf of None \<Rightarrow> Some no_options | Some b \<Rightarrow> parse_options errno no_options b)"

section \<open>Base64\<close>

text \<open>
  \<^verbatim>\<open>base64_decode\<close> of the library: bytes outside the alphabet are skipped, three bytes are written for every four of it,
  and at most \<open>room\<close> in all. \<open>t\<close> and \<open>y\<close> are the bits and the number of characters of the group that is being read.
\<close>

definition map_base64 :: "byte \<Rightarrow> nat option" where
  "map_base64 c = (if 0x41 \<le> c \<and> c \<le> 0x5a then Some (unat (c - 0x41)) else if 0x61 \<le> c \<and> c \<le> 0x7a then Some (unat (c - 0x61) + 26)
     else if 0x30 \<le> c \<and> c \<le> 0x39 then Some (unat (c - 0x30) + 52) else if c = 0x2b then Some 62 else if c = 0x2f then Some 63 else None)"

fun base64_loop :: "nat \<Rightarrow> nat \<Rightarrow> nat \<Rightarrow> byte list \<Rightarrow> byte list \<Rightarrow> byte list option" where
  "base64_loop room t y out [] = (if y = 0 then Some out else if y = 1 then None
     else let t = t * 64 ^ (4 - y) in if length out + y - 1 > room then None
       else Some (out @ take (y - 1) [of_nat (t div 65536), of_nat (t div 256)]))"
| "base64_loop room t y out (c # cs) = (case map_base64 c of None \<Rightarrow> base64_loop room t y out cs
     | Some v \<Rightarrow> let t = t * 64 + v in
         if Suc y = 4 then if length out + 3 > room then None
           else base64_loop room 0 0 (out @ [of_nat (t div 65536), of_nat (t div 256), of_nat t]) cs
         else base64_loop room t (Suc y) out cs)"

definition base64_decode :: "nat \<Rightarrow> byte list \<Rightarrow> byte list option" where
  "base64_decode room bs = base64_loop room 0 0 [] bs"

section \<open>Lines\<close>

text \<open>
  \<^verbatim>\<open>cmp_base64_key\<close> of src/dropbear/src/signkey.c, with \<open>True\<close> for \<^verbatim>\<open>DROPBEAR_SUCCESS\<close>. The name at the start of the decoded key is read with the
  checks of a buffer.
\<close>

definition cmp_base64_key :: "byte list \<Rightarrow> byte list \<Rightarrow> byte list \<Rightarrow> bool res" where
  "cmp_base64_key keyblob algo key64 = (if key64 = [] then Inr False
     else case base64_decode (2 * length key64) key64 of None \<Rightarrow> Inr False
     | Some key \<Rightarrow> if key \<noteq> keyblob then Inr False
         else if length key < 4 then Inl (Exit ''Bad buf_getptr'')
         else let filealgolen = unat (LOAD32H (take 4 key)) in
           if length key - 4 < filealgolen then Inl (Exit ''Bad buf_getptr'')
           else Inr (take filealgolen (drop 4 key) = algo))"

abbreviation MIN_AUTHKEYS_LINE :: nat where "MIN_AUTHKEYS_LINE \<equiv> 10"
abbreviation MAX_AUTHKEYS_LINE :: nat where "MAX_AUTHKEYS_LINE \<equiv> 4200"

definition blank :: "byte \<Rightarrow> bool" where
  "blank c \<longleftrightarrow> c = 0x20 \<or> c = 0x09"

text \<open>
  Where the options end: the bytes before the first blank outside quotes, and the bytes behind it. The flag \<open>escape\<close> is computed from the
  byte it is then tested with, as in the source.
\<close>

fun options_end :: "bool \<Rightarrow> bool \<Rightarrow> byte list \<Rightarrow> byte list \<times> byte list" where
  "options_end quoted escape [] = ([], [])"
| "options_end quoted escape (c # cs) = (if \<not> quoted \<and> blank c then ([], cs)
     else let escape = (\<not> escape \<and> c = escape_char) in
       apfst (Cons c) (options_end (if \<not> escape \<and> c = quote_char then \<not> quoted else quoted) escape cs))"

text \<open>The comment behind the key, for the environment of a command, unless it has characters that are not allowed there.\<close>

definition info_ok :: "byte \<Rightarrow> bool" where
  "info_ok c \<longleftrightarrow> 0x30 \<le> c \<and> c \<le> 0x39 \<or> 0x41 \<le> c \<and> c \<le> 0x5a \<or> 0x61 \<le> c \<and> c \<le> 0x7a \<or> c \<in> set (str ''.,_-+@'')"

definition key_info :: "byte list \<Rightarrow> byte list option" where
  "key_info rest = (let info = takeWhile (\<lambda>c. c \<noteq> 0x20) rest in if info = [] \<or> \<not> list_all info_ok info then None else Some info)"

text \<open>The key type is at the start of the line or behind the options: the options, if any, and what follows the type.\<close>

definition key_start :: "byte list \<Rightarrow> byte list \<Rightarrow> (byte list option \<times> byte list) option res" where
  "key_start algo line = (if length line < length algo + 3 then Inr None
     else if take (length algo) line = algo then Inr (Some (None, drop (length algo) line))
     else let rest = dropWhile blank line in
       if rest = [] then Inl (Exit ''Bad buf_getptr'')
       else if hd rest = 0x23 then Inr None
       else case options_end False False rest of (options, rest) \<Rightarrow>
         if length rest < length algo + 3 \<or> take (length algo) rest \<noteq> algo then Inr None
         else Inr (Some (Some options, drop (length algo) rest)))"

text \<open>The result is the options of the line if the line has the key. \<open>None\<close> is \<^verbatim>\<open>DROPBEAR_FAILURE\<close>.\<close>

definition checkpubkey_line :: "nat \<Rightarrow> byte list \<Rightarrow> byte list \<Rightarrow> byte list \<Rightarrow> PubKeyOptions option res" where
  "checkpubkey_line errno line algo keyblob =
     (if length line < MIN_AUTHKEYS_LINE \<or> length line > MAX_AUTHKEYS_LINE \<or> 0 \<in> set line then Inr None
      else rbind (key_start algo line) (\<lambda>start. case start of None \<Rightarrow> Inr None
        | Some (options, rest) \<Rightarrow> if hd rest \<noteq> 0x20 then Inr None
            else let key64 = takeWhile (\<lambda>c. c \<noteq> 0x20) (tl rest); info = key_info (tl (dropWhile (\<lambda>c. c \<noteq> 0x20) (tl rest))) in
              rbind (cmp_base64_key keyblob algo key64) (\<lambda>same.
              Inr (if same then map_option (\<lambda>po. po\<lparr>po_info_env := info\<rparr>) (svr_parse_pubkey_options errno options) else None))))"

text \<open>
  \<^verbatim>\<open>buf_getline\<close> of src/dropbear/src/dbutil.c with a buffer of \<^verbatim>\<open>MAX_AUTHKEYS_LINE\<close> bytes: a line that fills it counts as empty, and reading goes on behind
  the bytes that were read.
\<close>

definition line_end :: "byte \<Rightarrow> bool" where
  "line_end c \<longleftrightarrow> c = 0x0a \<or> c = 0x0d"

definition buf_getline :: "byte list \<Rightarrow> (byte list \<times> byte list) option" where
  "buf_getline chars = (let line = takeWhile (\<lambda>c. \<not> line_end c) chars in
     if length line \<ge> MAX_AUTHKEYS_LINE then Some ([], drop MAX_AUTHKEYS_LINE chars)
     else if chars = [] then None else Some (line, drop (Suc (length line)) chars))"

lemma buf_getline_shorter: "buf_getline chars = Some (line, rest) \<Longrightarrow> length rest < length chars"
  using length_takeWhile_le [of "\<lambda>c. \<not> line_end c" chars] by (auto simp: buf_getline_def Let_def split: if_splits)

text \<open>The loop of \<^verbatim>\<open>checkpubkey\<close> over the lines of the file.\<close>

function check_lines :: "nat \<Rightarrow> byte list \<Rightarrow> byte list \<Rightarrow> byte list \<Rightarrow> PubKeyOptions option res" where
  "check_lines errno algo keyblob chars = (case buf_getline chars of None \<Rightarrow> Inr None
     | Some (line, rest) \<Rightarrow> (case checkpubkey_line errno line algo keyblob of Inl e \<Rightarrow> Inl e
       | Inr (Some po) \<Rightarrow> Inr (Some po) | Inr None \<Rightarrow> check_lines errno algo keyblob rest))"
  by pat_completeness auto

termination
  by (relation "measure (\<lambda>(errno, algo, keyblob, chars). length chars)") (auto dest: buf_getline_shorter)

declare check_lines.simps [simp del]

section \<open>The file\<close>

text \<open>
  What the system calls answer: \<^verbatim>\<open>stat\<close> the owner and the mode of a file, \<^verbatim>\<open>open\<close> and reading the bytes of a file, and what is in \<^verbatim>\<open>errno\<close>.
\<close>

record key_files =
  kf_stat :: "path \<Rightarrow> (int \<times> nat) option"
  kf_open :: "path \<Rightarrow> byte list option"
  kf_errno :: nat

definition expand_homedir_path_home :: "byte list \<Rightarrow> byte list option \<Rightarrow> byte list" where
  "expand_homedir_path_home inpath homedir = (case homedir of
       Some home \<Rightarrow> if take 2 inpath = str ''~/'' then home @ [slash] @ drop 2 inpath else inpath
     | None \<Rightarrow> inpath)"

definition authorized_keys_filepath :: "svr_runopts \<Rightarrow> AuthState \<Rightarrow> path" where
  "authorized_keys_filepath opts au = expand_homedir_path_home (so_authorized_keys_dir opts) (au_pw_dir au) @ [slash] @ str ''authorized_keys''"

text \<open>\<^verbatim>\<open>S_IWGRP | S_IWOTH\<close> are the bits 16 and 2 of the mode.\<close>

definition checkfileperm :: "key_files \<Rightarrow> path \<Rightarrow> AuthState \<Rightarrow> bool \<times> AuthState" where
  "checkfileperm kf filename au = (case kf_stat kf filename of None \<Rightarrow> (False, au)
     | Some (uid, mode) \<Rightarrow>
         let badperm = (uid \<noteq> au_pw_uid au \<and> uid \<noteq> 0 \<or> mode div 16 mod 2 = 1 \<or> mode div 2 mod 2 = 1) in
         if badperm then (False, au\<lparr>au_perm_warn := True\<rparr>) else (True, au))"

lemma split_last_shorter: "split_last c s = Some (a, b) \<Longrightarrow> length a < length s"
proof -
  assume "split_last c s = Some (a, b)"
  then have "c \<in> set (rev s)" "a = rev (tl (dropWhile (\<lambda>b. b \<noteq> c) (rev s)))" by (auto simp: split_last_def split: if_splits)
  moreover have "length (dropWhile (\<lambda>b. b \<noteq> c) (rev s)) \<le> length s" using length_dropWhile_le [of "\<lambda>b. b \<noteq> c" "rev s"] by simp
  moreover have "dropWhile (\<lambda>b. b \<noteq> c) (rev s) \<noteq> []" using calculation(1) by auto
  ultimately show ?thesis by (cases "dropWhile (\<lambda>b. b \<noteq> c) (rev s)") auto
qed

text \<open>The loop of \<^verbatim>\<open>checkpubkeyperms\<close>: the last component is cut off before the first check.\<close>

function perms_loop :: "key_files \<Rightarrow> path \<Rightarrow> bool \<Rightarrow> AuthState \<Rightarrow> bool \<times> AuthState" where
  "perms_loop kf path ret au = (case split_last slash path of None \<Rightarrow> (ret, au)
     | Some (dir, name) \<Rightarrow>
         let path = (if dir = [] then [slash] else dir) in
         case checkfileperm kf path au of (good, au) \<Rightarrow>
           if Some path = au_pw_dir au \<or> path = [slash] then (ret \<and> good, au) else perms_loop kf path (ret \<and> good) au)"
  by pat_completeness auto

termination
  by (relation "measure (\<lambda>(kf, path, ret, au). length path)") (auto dest: split_last_shorter)

declare perms_loop.simps [simp del]

definition checkpubkeyperms :: "key_files \<Rightarrow> svr_runopts \<Rightarrow> AuthState \<Rightarrow> bool \<times> AuthState" where
  "checkpubkeyperms kf opts au = perms_loop kf (authorized_keys_filepath opts au) True au"

definition checkpubkey :: "key_files \<Rightarrow> svr_runopts \<Rightarrow> byte list \<Rightarrow> byte list \<Rightarrow> AuthState \<Rightarrow> (PubKeyOptions option \<times> AuthState) res" where
  "checkpubkey kf opts keyalgo keyblob au = (case checkpubkeyperms kf opts au of
       (False, au) \<Rightarrow> Inr (None, au)
     | (True, au) \<Rightarrow> (case kf_open kf (authorized_keys_filepath opts au) of None \<Rightarrow> Inr (None, au)
         | Some chars \<Rightarrow> rbind (check_lines (kf_errno kf) keyalgo keyblob chars) (\<lambda>po. Inr (po, au))))"

section \<open>What the options mean\<close>

text \<open>The options as a user writes them, all that the parser knows.\<close>

datatype key_opt = No_port_forwarding | No_agent_forwarding | No_X11_forwarding | No_pty | Restrict
  | Command "byte list" | Permitopen "byte list" "nat option" | Permitlisten nat | No_touch_required | Verify_required

fun print_opt :: "key_opt \<Rightarrow> byte list" where
  "print_opt No_port_forwarding = str ''no-port-forwarding''"
| "print_opt No_agent_forwarding = str ''no-agent-forwarding''"
| "print_opt No_X11_forwarding = str ''no-X11-forwarding''"
| "print_opt No_pty = str ''no-pty''"
| "print_opt Restrict = str ''restrict''"
| "print_opt (Command c) = str ''command=\"'' @ c @ [quote_char]"
| "print_opt (Permitopen host port) = str ''permitopen=\"'' @ host @ [colon_char] @ (case port of None \<Rightarrow> str ''*'' | Some n \<Rightarrow> digits 10 n) @ [quote_char]"
| "print_opt (Permitlisten n) = str ''permitlisten=\"'' @ digits 10 n @ [quote_char]"
| "print_opt No_touch_required = str ''no-touch-required''"
| "print_opt Verify_required = str ''verify-required''"

text \<open>A command has no quote that is not escaped, and does not end in a backslash that escapes.\<close>

fun command_ok :: "bool \<Rightarrow> byte list \<Rightarrow> bool" where
  "command_ok escaped [] \<longleftrightarrow> \<not> escaped"
| "command_ok escaped (c # cs) \<longleftrightarrow> (escaped \<or> c \<noteq> quote_char) \<and> command_ok (\<not> escaped \<and> c = escape_char) cs"

fun opt_ok :: "key_opt \<Rightarrow> bool" where
  "opt_ok (Command c) \<longleftrightarrow> command_ok False c"
| "opt_ok (Permitopen host port) \<longleftrightarrow> host \<noteq> [] \<and> hd host \<noteq> 0x5b \<and> quote_char \<notin> set host \<and> (case port of None \<Rightarrow> True | Some n \<Rightarrow> 0 < n \<and> n < 2 ^ 32)"
| "opt_ok (Permitlisten n) \<longleftrightarrow> 0 < n \<and> n < 2 ^ 32"
| "opt_ok _ \<longleftrightarrow> True"

fun apply_opt :: "key_opt \<Rightarrow> PubKeyOptions \<Rightarrow> PubKeyOptions" where
  "apply_opt No_port_forwarding po = po\<lparr>po_no_port_forwarding_flag := True\<rparr>"
| "apply_opt No_agent_forwarding po = po\<lparr>po_no_agent_forwarding_flag := True\<rparr>"
| "apply_opt No_X11_forwarding po = po"
| "apply_opt No_pty po = po\<lparr>po_no_pty_flag := True\<rparr>"
| "apply_opt Restrict po = po\<lparr>po_no_port_forwarding_flag := True, po_no_agent_forwarding_flag := True, po_no_pty_flag := True\<rparr>"
| "apply_opt (Command c) po = po\<lparr>po_forced_command := Some c\<rparr>"
| "apply_opt (Permitopen host port) po = po\<lparr>po_permit_open_destinations :=
     add_entry \<lparr>pe_host = Some host, pe_port = (case port of None \<Rightarrow> PUBKEY_OPTIONS_ANY_PORT | Some n \<Rightarrow> of_nat n)\<rparr> (po_permit_open_destinations po)\<rparr>"
| "apply_opt (Permitlisten n) po = po\<lparr>po_permit_listens := add_entry \<lparr>pe_host = None, pe_port = of_nat n\<rparr> (po_permit_listens po)\<rparr>"
| "apply_opt No_touch_required po = po\<lparr>po_no_touch_required_flag := True\<rparr>"
| "apply_opt Verify_required po = po\<lparr>po_verify_required_flag := True\<rparr>"

fun is_command :: "key_opt \<Rightarrow> bool" where
  "is_command (Command c) = True"
| "is_command _ = False"

fun print_opts :: "key_opt list \<Rightarrow> byte list" where
  "print_opts [] = []"
| "print_opts [os] = print_opt os"
| "print_opts (os # oss) = print_opt os @ comma_char # print_opts oss"

text \<open>Names that differ in a common position do not match.\<close>

definition clash :: "byte list \<Rightarrow> byte list \<Rightarrow> bool" where
  "clash a b = list_ex (\<lambda>(x, y). to_lower x \<noteq> to_lower y) (zip a b)"

lemma match_here: "match_option (name @ r) name = Some r"
  by (simp add: match_option_def)

lemma match_clash: "clash a b \<Longrightarrow> match_option (a @ r) b = None"
proof -
  assume "clash a b"
  then obtain k where k: "k < length a" "k < length b" "to_lower (a ! k) \<noteq> to_lower (b ! k)"
    by (auto simp: clash_def list_ex_iff set_zip)
  have "map to_lower (take (length b) (a @ r)) \<noteq> map to_lower b" if "length b \<le> length (a @ r)"
  proof
    assume eq: "map to_lower (take (length b) (a @ r)) = map to_lower b"
    have "map to_lower (take (length b) (a @ r)) ! k = to_lower (a ! k)" using k that by (simp add: nth_append)
    moreover have "map to_lower b ! k = to_lower (b ! k)" using k by simp
    ultimately show False using k(3) eq by simp
  qed
  then show ?thesis by (auto simp: match_option_def)
qed

lemma command_text_ok: "command_ok e c \<Longrightarrow> command_text e (c @ quote_char # r) = Some (c, r)"
  by (induction e c rule: command_ok.induct) auto

lemma while_first: "c \<notin> set b \<Longrightarrow> takeWhile (\<lambda>x. x \<noteq> c) (b @ c # a) = b \<and> dropWhile (\<lambda>x. x \<noteq> c) (b @ c # a) = c # a"
  by (induction b) auto

lemma quoted_text_ok: "quote_char \<notin> set s \<Longrightarrow> quoted_text (s @ quote_char # r) = Some (s, r)"
  using while_first [of quote_char s r] by (simp add: quoted_text_def)

lemma split_last_ok: "c \<notin> set b \<Longrightarrow> split_last c (a @ c # b) = Some (a, b)"
  using while_first [of c "rev b" "rev a"] by (simp add: split_last_def)

lemma digit10: "is_digit 10 c \<Longrightarrow> 0x30 \<le> c \<and> c \<le> 0x39"
  by (auto simp: is_digit_def digit_val_def split: if_splits)

lemma digits10: "set (digits 10 n) \<subseteq> {c. 0x30 \<le> c \<and> c \<le> 0x39}"
  using digits_val_digits [of 10 n] digit10 by auto

lemma scan_digits: "scan_number 10 (digits 10 n) = Some (False, n, [])"
proof -
  have d: "digits_val 10 (digits 10 n) = n" "\<forall>c \<in> set (digits 10 n). is_digit 10 c" "digits 10 n \<noteq> []" using digits_val_digits [of 10 n] by auto
  obtain c cs where cs: "digits 10 n = c # cs" using d(3) by (cases "digits 10 n") auto
  have c: "0x30 \<le> c" "c \<le> 0x39" using digit10 [of c] d(2) cs by auto
  have sp: "\<not> is_space c" "c \<noteq> 0x2d" "c \<noteq> 0x2b" using c by (auto simp: is_space_def word_le_nat_alt)
  have "takeWhile (is_digit 10) (digits 10 n) = digits 10 n" "dropWhile (is_digit 10) (digits 10 n) = []" using d(2) by (auto simp: takeWhile_eq_all_conv dropWhile_eq_Nil_conv)
  moreover have "dropWhile is_space (digits 10 n) = digits 10 n" using sp(1) cs by simp
  ultimately show ?thesis using sp(2,3) d(1,3) cs by (simp add: scan_number_def Let_def)
qed

lemma uint_printed:
  assumes "0 < n" and "n < 2 ^ 32"
  shows "m_str_to_uint errno (digits 10 n) = Some (of_nat n)"
  using assms by (simp add: m_str_to_uint_def strtoul_def scan_digits)

lemma digits_plain: "colon_char \<notin> set (digits 10 n)" "quote_char \<notin> set (digits 10 n)" "digits 10 n \<noteq> str ''*''"
proof -
  show "colon_char \<notin> set (digits 10 n)" "quote_char \<notin> set (digits 10 n)" using digits10 [of n] by auto
  have "0x2a \<notin> set (digits 10 n)" using digits10 [of n] by auto
  then show "digits 10 n \<noteq> str ''*''" by (auto simp: str_def)
qed

lemma permitopen_printed:
  assumes "opt_ok (Permitopen host port)"
  shows "permitopen_entry errno (host @ colon_char # (case port of None \<Rightarrow> str ''*'' | Some n \<Rightarrow> digits 10 n)) =
    Some \<lparr>pe_host = Some host, pe_port = (case port of None \<Rightarrow> PUBKEY_OPTIONS_ANY_PORT | Some n \<Rightarrow> of_nat n)\<rparr>"
proof -
  let ?p = "case port of None \<Rightarrow> str ''*'' | Some n \<Rightarrow> digits 10 n"
  have "colon_char \<notin> set ?p" using digits_plain(1) by (auto simp: str_def split: option.split)
  then have "split_address_port (host @ colon_char # ?p) = Some (Some host, Some ?p)"
    using assms split_last_ok [of colon_char ?p host] by (cases host) (simp_all add: split_address_port_def Let_def)
  then show ?thesis using assms uint_printed digits_plain(3) by (cases port) (auto simp: permitopen_entry_def)
qed

lemmas clashes = match_clash match_here

lemma names_clash:
  "clash (str ''no-agent-forwarding'') (str ''no-port-forwarding'')"
  "clash (str ''no-X11-forwarding'') (str ''no-port-forwarding'')" "clash (str ''no-X11-forwarding'') (str ''no-agent-forwarding'')"
  "clash (str ''no-pty'') (str ''no-port-forwarding'')" "clash (str ''no-pty'') (str ''no-agent-forwarding'')" "clash (str ''no-pty'') (str ''no-X11-forwarding'')"
  by code_simp+

lemma names_clash2:
  "list_all (clash (str ''restrict'')) [str ''no-port-forwarding'', str ''no-agent-forwarding'', str ''no-X11-forwarding'', str ''no-pty'']"
  "list_all (clash (str ''command=\"'')) [str ''no-port-forwarding'', str ''no-agent-forwarding'', str ''no-X11-forwarding'', str ''no-pty'', str ''restrict'']"
  "list_all (clash (str ''permitopen=\"'')) [str ''no-port-forwarding'', str ''no-agent-forwarding'', str ''no-X11-forwarding'', str ''no-pty'', str ''restrict'',
     str ''command=\"'']"
  "list_all (clash (str ''permitlisten=\"'')) [str ''no-port-forwarding'', str ''no-agent-forwarding'', str ''no-X11-forwarding'', str ''no-pty'', str ''restrict'',
     str ''command=\"'', str ''permitopen=\"'']"
  "list_all (clash (str ''no-touch-required'')) [str ''no-port-forwarding'', str ''no-agent-forwarding'', str ''no-X11-forwarding'', str ''no-pty'', str ''restrict'',
     str ''command=\"'', str ''permitopen=\"'', str ''permitlisten=\"'']"
  "list_all (clash (str ''verify-required'')) [str ''no-port-forwarding'', str ''no-agent-forwarding'', str ''no-X11-forwarding'', str ''no-pty'', str ''restrict'',
     str ''command=\"'', str ''permitopen=\"'', str ''permitlisten=\"'', str ''no-touch-required'']"
  by code_simp+

lemma parse_printed:
  assumes "opt_ok p" and "is_command p \<Longrightarrow> po_forced_command po = None"
  shows "parse_option errno po (print_opt p @ r) = Some (apply_opt p po, r)"
proof (cases p)
  case (Command c)
  then show ?thesis using assms names_clash2(2) command_text_ok [of False c r] by (simp add: parse_option_def clashes)
next
  case (Permitopen host port)
  let ?spec = "host @ colon_char # (case port of None \<Rightarrow> str ''*'' | Some n \<Rightarrow> digits 10 n)"
  have "quote_char \<notin> set ?spec" using assms(1) Permitopen digits_plain(2) by (auto simp: str_def split: option.split)
  then have "quoted_text (?spec @ quote_char # r) = Some (?spec, r)" by (rule quoted_text_ok)
  then show ?thesis using assms Permitopen names_clash2(3) permitopen_printed [of host port errno]
    by (simp add: parse_option_def clashes)
next
  case (Permitlisten n)
  then show ?thesis using assms names_clash2(4) quoted_text_ok [OF digits_plain(2), of n r] uint_printed [of n errno]
    by (simp add: parse_option_def clashes)
qed (use assms names_clash names_clash2 in \<open>simp_all add: parse_option_def clashes\<close>)


text \<open>The second of two commands is refused, so that a line has at most one.\<close>

lemma print_opt_nonempty: "print_opt p \<noteq> []"
  by (cases p) (simp_all add: str_def)

lemma apply_command: "po_forced_command (apply_opt p po) = (case p of Command c \<Rightarrow> Some c | _ \<Rightarrow> po_forced_command po)"
  by (cases p) simp_all

lemma parse_options_step:
  assumes "opt_ok p" and "is_command p \<Longrightarrow> po_forced_command po = None"
  shows "parse_options errno po (print_opt p) = Some (apply_opt p po)"
    and "parse_options errno po (print_opt p @ comma_char # r) = parse_options errno (apply_opt p po) r"
  using parse_printed [OF assms, of errno "[]"] parse_printed [OF assms, of errno "comma_char # r"] print_opt_nonempty [of p]
  by (simp_all add: parse_options.simps [of errno po "print_opt p"] parse_options.simps [of errno po "print_opt p @ comma_char # r"])

lemma parse_printed_list:
  assumes "list_all opt_ok ps" and "length (filter is_command ps) \<le> (if po_forced_command po = None then 1 else 0)"
  shows "parse_options errno po (print_opts ps) = Some (fold apply_opt ps po)"
  using assms
proof (induction ps arbitrary: po rule: print_opts.induct)
  case 1
  then show ?case by (simp add: parse_options.simps)
next
  case (2 p)
  then show ?case using parse_options_step(1) [of p po errno] by (auto split: if_splits)
next
  case (3 p q ps)
  have ok: "opt_ok p" "is_command p \<Longrightarrow> po_forced_command po = None" using 3(2,3) by (auto split: if_splits)
  have "length (filter is_command (q # ps)) \<le> (if po_forced_command (apply_opt p po) = None then 1 else 0)"
    using 3(3) by (cases p) (auto simp: apply_command split: if_splits)
  then show ?case using 3(1) [of "apply_opt p po"] 3(2) parse_options_step(2) [OF ok] by simp
qed

text \<open>
  C36. The options of an authorized key mean what they say. Whatever options a line has, any of the ten kinds the parser knows in any order, with any command in which quotes are escaped, any host without quotes that does not
  begin with a bracket, and ports from 1 to 4294967295 or \<^verbatim>\<open>*\<close>, parsing the text gives the flags, the command and the lists of permitted addresses in the order of the text, and nothing else,
  whatever is in \<^verbatim>\<open>errno\<close>. At most one of the options may be a command.
\<close>

theorem key_options_roundtrip:
  assumes "list_all opt_ok ps" and "length (filter is_command ps) \<le> 1"
  shows "svr_parse_pubkey_options errno (Some (print_opts ps)) = Some (fold apply_opt ps no_options)"
  using parse_printed_list [of ps no_options errno] assms by (simp add: svr_parse_pubkey_options_def no_options_def)

theorem key_options_roundtrip_witness:
  "svr_parse_pubkey_options 0 (Some (print_opts [Restrict, Permitopen (str ''a:b'') (Some 22), Command (str ''ls''), No_touch_required, Permitlisten 80, Verify_required])) =
     Some (no_options\<lparr>po_no_port_forwarding_flag := True, po_no_agent_forwarding_flag := True, po_no_pty_flag := True,
       po_permit_open_destinations := Some [\<lparr>pe_host = Some (str ''a:b''), pe_port = 22\<rparr>], po_forced_command := Some (str ''ls''),
       po_no_touch_required_flag := True, po_permit_listens := Some [\<lparr>pe_host = None, pe_port = 80\<rparr>], po_verify_required_flag := True\<rparr>)"
  using key_options_roundtrip [of "[Restrict, Permitopen (str ''a:b'') (Some 22), Command (str ''ls''), No_touch_required, Permitlisten 80, Verify_required]" 0]
  by (simp add: str_def add_entry_def no_options_def)

section \<open>Which keys are accepted\<close>

text \<open>The lines of the file, as the loop reads them.\<close>

function file_lines :: "byte list \<Rightarrow> byte list list" where
  "file_lines chars = (case buf_getline chars of None \<Rightarrow> [] | Some (line, rest) \<Rightarrow> line # file_lines rest)"
  by pat_completeness auto

termination
  by (relation "measure length") (auto dest: buf_getline_shorter)

declare file_lines.simps [simp del]

text \<open>A line that holds a key: the type, a blank and the key in base64, at the start of the line or behind options that the server knows.\<close>

definition line_holds :: "nat \<Rightarrow> byte list \<Rightarrow> byte list \<Rightarrow> byte list \<Rightarrow> PubKeyOptions \<Rightarrow> bool" where
  "line_holds errno line algo keyblob po \<longleftrightarrow> (\<exists>options before key64 after.
     line = before @ algo @ 0x20 # key64 @ after \<and> base64_decode (2 * length key64) key64 = Some keyblob \<and> (after = [] \<or> hd after = 0x20) \<and>
     (if options = None then before = [] else \<exists>lead sep. before = lead @ the options @ [sep] \<and> list_all blank lead \<and> blank sep) \<and>
     svr_parse_pubkey_options errno options = Some (po\<lparr>po_info_env := None\<rparr>))"

lemma options_end_split: "options_end q e s = (options, rest) \<Longrightarrow> rest \<noteq> [] \<Longrightarrow> \<exists>sep. blank sep \<and> s = options @ sep # rest"
proof (induction s arbitrary: q e options)
  case (Cons c cs)
  show ?case
  proof (cases "\<not> q \<and> blank c")
    case False
    let ?e = "\<not> e \<and> c = escape_char"
    let ?q = "if \<not> ?e \<and> c = quote_char then \<not> q else q"
    obtain os r where oe: "options_end ?q ?e cs = (os, r)" by fastforce
    then have "options = c # os" "rest = r" using Cons.prems(1) False by (auto simp: Let_def)
    then show ?thesis using Cons.IH [of ?q ?e os] oe Cons.prems(2) by auto
  qed (use Cons.prems in auto)
qed simp

lemma key_start_split:
  assumes "key_start algo line = Inr (Some (options, rest))"
  shows "\<exists>before. line = before @ algo @ rest \<and> 3 \<le> length rest \<and>
    (if options = None then before = [] else \<exists>lead sep. before = lead @ the options @ [sep] \<and> list_all blank lead \<and> blank sep)"
proof (cases "take (length algo) line = algo")
  case True
  then show ?thesis using assms append_take_drop_id [of "length algo" line] by (auto simp: key_start_def split: if_splits)
next
  case False
  let ?line = "dropWhile blank line"
  obtain os r where oe: "options_end False False ?line = (os, r)" by fastforce
  have r: "length algo + 3 \<le> length r" "take (length algo) r = algo" "options = Some os" "rest = drop (length algo) r"
    using assms False oe by (auto simp: key_start_def Let_def split: if_splits)
  obtain sep where sep: "blank sep" "?line = os @ sep # r" using options_end_split [OF oe] r(1) by fastforce
  have "line = takeWhile blank line @ os @ sep # algo @ rest" using takeWhile_dropWhile_id [of blank line] sep(2) r(2,4) append_take_drop_id [of "length algo" r] by metis
  moreover have "list_all blank (takeWhile blank line)" by (auto simp: list_all_iff dest: set_takeWhileD)
  ultimately show ?thesis using r(1,3,4) sep(1) by (intro exI [of _ "takeWhile blank line @ os @ [sep]"]) auto
qed

lemma cmp_base64_key_sound: "cmp_base64_key keyblob algo key64 = Inr True \<Longrightarrow> base64_decode (2 * length key64) key64 = Some keyblob"
  by (auto simp: cmp_base64_key_def Let_def split: if_splits option.splits)

lemma parse_option_info: "parse_option errno po rest = Some (po', r) \<Longrightarrow> po_info_env po' = po_info_env po"
  unfolding parse_option_def by (auto split: option.splits if_splits prod.splits)

lemma parse_options_info: "parse_options errno po rest = Some po' \<Longrightarrow> po_info_env po' = po_info_env po"
proof (induction errno po rest rule: parse_options.induct)
  case (1 errno po rest)
  then show ?case by (auto simp: parse_options.simps [of errno po rest] split: if_splits option.splits list.splits dest!: parse_option_info)
qed

lemma pubkey_options_info: "svr_parse_pubkey_options errno b = Some po \<Longrightarrow> po_info_env po = None"
  by (auto simp: svr_parse_pubkey_options_def no_options_def dest!: parse_options_info split: option.splits)

lemma checkpubkey_line_sound:
  assumes "checkpubkey_line errno line algo keyblob = Inr (Some po)"
  shows "line_holds errno line algo keyblob po"
proof -
  obtain start where "key_start algo line = Inr start" using assms by (cases "key_start algo line") (auto simp: checkpubkey_line_def split: if_splits)
  then obtain options rest where ks: "key_start algo line = Inr (Some (options, rest))" and sp: "hd rest = 0x20"
    using assms by (cases start) (auto simp: checkpubkey_line_def split: if_splits)
  have cmp: "cmp_base64_key keyblob algo (takeWhile (\<lambda>c. c \<noteq> 0x20) (tl rest)) = Inr True"
    and po: "\<exists>po' info. svr_parse_pubkey_options errno options = Some po' \<and> po = po'\<lparr>po_info_env := info\<rparr>"
    using assms ks sp by (auto simp: checkpubkey_line_def Let_def split: if_splits)
  obtain po' where po': "svr_parse_pubkey_options errno options = Some po'" "po\<lparr>po_info_env := None\<rparr> = po'\<lparr>po_info_env := None\<rparr>" using po by auto
  have "po'\<lparr>po_info_env := None\<rparr> = po'" using pubkey_options_info [OF po'(1)] by (cases po') simp
  moreover obtain before where b: "line = before @ algo @ rest" "3 \<le> length rest"
    "if options = None then before = [] else \<exists>lead sep. before = lead @ the options @ [sep] \<and> list_all blank lead \<and> blank sep"
    using key_start_split [OF ks] by blast
  moreover have "rest = 0x20 # takeWhile (\<lambda>c. c \<noteq> 0x20) (tl rest) @ dropWhile (\<lambda>c. c \<noteq> 0x20) (tl rest)" using b(2) sp by (cases rest) auto
  moreover have "dropWhile (\<lambda>c. c \<noteq> 0x20) (tl rest) = [] \<or> hd (dropWhile (\<lambda>c. c \<noteq> 0x20) (tl rest)) = 0x20"
    using hd_dropWhile [of "\<lambda>c. c \<noteq> 0x20" "tl rest"] by auto
  ultimately show ?thesis unfolding line_holds_def using po' cmp_base64_key_sound [OF cmp] by metis
qed

lemma check_lines_sound: "check_lines errno algo keyblob chars = Inr (Some po) \<Longrightarrow> \<exists>line \<in> set (file_lines chars). line_holds errno line algo keyblob po"
proof (induction errno algo keyblob chars rule: check_lines.induct)
  case (1 errno algo keyblob chars)
  then show ?case
    by (fastforce simp: check_lines.simps [of errno algo keyblob chars] file_lines.simps [of chars] split: option.splits sum.splits prod.splits dest: checkpubkey_line_sound)
qed

text \<open>A directory that only its owner, the user or the superuser, can write to.\<close>

definition secure :: "key_files \<Rightarrow> int \<Rightarrow> path \<Rightarrow> bool" where
  "secure kf uid dir \<longleftrightarrow> (case kf_stat kf dir of None \<Rightarrow> False | Some (owner, mode) \<Rightarrow> owner \<in> {uid, 0} \<and> mode div 16 mod 2 = 0 \<and> mode div 2 mod 2 = 0)"

lemma checkfileperm_secure: "fst (checkfileperm kf dir au) \<longleftrightarrow> secure kf (au_pw_uid au) dir"
  by (auto simp: checkfileperm_def secure_def Let_def split: option.splits)

lemma checkfileperm_au: "checkfileperm kf dir au = (g, au') \<Longrightarrow> au_pw_uid au' = au_pw_uid au \<and> au_pw_dir au' = au_pw_dir au"
  by (auto simp: checkfileperm_def Let_def split: option.splits if_splits)

lemma split_last_last: "split_last c s = Some (a, b) \<Longrightarrow> s = a @ c # b \<and> c \<notin> set b"
proof -
  assume *: "split_last c s = Some (a, b)"
  then have "c \<in> set s" by (auto simp: split_last_def split: if_splits)
  then obtain x y where s: "s = x @ c # y" "c \<notin> set y" using split_list_last by fastforce
  then show ?thesis using * split_last_ok [of c y x] by simp
qed

lemma split_last_none: "split_last c s = None \<longleftrightarrow> c \<notin> set s"
  by (simp add: split_last_def)

lemma perms_loop_ret: "fst (perms_loop kf path ret au) \<Longrightarrow> ret"
proof (induction kf path ret au rule: perms_loop.induct)
  case (1 kf path ret au)
  then show ?case by (fastforce simp: perms_loop.simps [of kf path ret au] Let_def split: option.splits prod.splits if_splits)
qed

lemma perms_loop_au: "au_pw_dir (snd (perms_loop kf path ret au)) = au_pw_dir au"
proof (induction kf path ret au rule: perms_loop.induct)
  case (1 kf path ret au)
  show ?case
  proof (cases "split_last slash path")
    case (Some p)
    obtain dir name where p: "p = (dir, name)" by fastforce
    obtain good au' where cf: "checkfileperm kf (if dir = [] then [slash] else dir) au = (good, au')" by fastforce
    then show ?thesis using 1 [OF Some p [symmetric] refl cf [symmetric]] checkfileperm_au [OF cf] Some p
      by (auto simp: perms_loop.simps [of kf path ret au] Let_def)
  qed (simp add: perms_loop.simps [of kf path ret au])
qed

lemma perms_loop_secure:
  assumes "fst (perms_loop kf path ret au)" and "au_pw_dir au = Some home" and "home \<noteq> []"
    and "path = home @ sub @ slash # name"
  shows "secure kf (au_pw_uid au) (home @ sub)"
  using assms
proof (induction kf path ret au arbitrary: name rule: perms_loop.induct)
  case (1 kf path ret au)
  obtain dir last where sl: "split_last slash path = Some (dir, last)" using 1(5) by (cases "split_last slash path") (auto simp: split_last_none)
  have p: "path = dir @ slash # last" "slash \<notin> set last" using split_last_last [OF sl] by auto
  have ne: "dir \<noteq> []" using 1(4,5) p by (cases dir; cases home) auto
  obtain good au' where cf: "checkfileperm kf dir au = (good, au')" by fastforce
  have au': "au_pw_uid au' = au_pw_uid au" "au_pw_dir au' = au_pw_dir au" using checkfileperm_au [OF cf] by auto
  have loop: "perms_loop kf path ret au = (if Some dir = au_pw_dir au' \<or> dir = [slash] then (ret \<and> good, au') else perms_loop kf dir (ret \<and> good) au')"
    using sl ne cf by (simp add: perms_loop.simps [of kf path ret au] Let_def)
  have good: "good" using 1(2) loop perms_loop_ret [of kf dir "ret \<and> good" au'] by (auto split: if_splits)
  show ?case
  proof (cases "slash \<in> set name")
    case False
    then have "dir = home @ sub" using 1(5) p split_last_ok [of slash name "home @ sub"] sl by simp
    then show ?thesis using checkfileperm_secure [of kf dir au] cf good by simp
  next
    case True
    then obtain m n where name: "name = m @ slash # n" "slash \<notin> set n" using split_list_last by fastforce
    then have dir: "dir = home @ sub @ slash # m" using 1(5) sl split_last_ok [of slash n "home @ sub @ slash # m"] by simp
    then have go: "\<not> (Some dir = au_pw_dir au' \<or> dir = [slash])" using 1(3,4) au'(2) by (auto simp: append_eq_Cons_conv)
    then have "fst (perms_loop kf dir (ret \<and> good) au')" using 1(2) loop by simp
    then have "secure kf (au_pw_uid au') (home @ sub)"
      using 1(1) [OF sl refl _ _ go _ _ 1(4) dir] cf ne 1(3) au'(2) by simp
    then show ?thesis using au'(1) by simp
  qed
qed

text \<open>
  C2. A key is accepted only when the user has authorized it: if \<^verbatim>\<open>checkpubkey\<close> accepts a key for a user then one line of the file of authorized keys
  holds exactly the key that was offered, with its type, at the start of the line or behind options that are all understood, and the restrictions of the session are
  those options; and every directory from the home directory of the user down to the file is writable by the user or the superuser alone.
\<close>

theorem accepted_key_is_authorized:
  assumes "checkpubkey kf opts algo keyblob au = Inr (Some po, au')"
  shows "(\<exists>chars. kf_open kf (authorized_keys_filepath opts au) = Some chars \<and> (\<exists>line. line \<in> set (file_lines chars) \<and> line_holds (kf_errno kf) line algo keyblob po))
    \<and> (\<forall>home sub name. au_pw_dir au = Some home \<and> home \<noteq> [] \<and> authorized_keys_filepath opts au = home @ sub @ slash # name
        \<longrightarrow> secure kf (au_pw_uid au) (home @ sub))"
proof (intro conjI allI impI)
  obtain au1 where perms: "checkpubkeyperms kf opts au = (True, au1)" using assms by (auto simp: checkpubkey_def split: prod.splits bool.splits)
  have "authorized_keys_filepath opts au1 = authorized_keys_filepath opts au"
    using perms perms_loop_au [of kf "authorized_keys_filepath opts au" True au] by (simp add: checkpubkeyperms_def authorized_keys_filepath_def)
  then obtain chars where "kf_open kf (authorized_keys_filepath opts au) = Some chars" "check_lines (kf_errno kf) algo keyblob chars = Inr (Some po)"
    using assms perms by (auto simp: checkpubkey_def split: option.splits)
  then show "\<exists>chars. kf_open kf (authorized_keys_filepath opts au) = Some chars \<and> (\<exists>line. line \<in> set (file_lines chars) \<and> line_holds (kf_errno kf) line algo keyblob po)"
    using check_lines_sound by blast
  show "secure kf (au_pw_uid au) (home @ sub)"
    if "au_pw_dir au = Some home \<and> home \<noteq> [] \<and> authorized_keys_filepath opts au = home @ sub @ slash # name" for home sub name
    using that perms perms_loop_secure [of kf "authorized_keys_filepath opts au" True au home sub name] by (simp add: checkpubkeyperms_def)
qed

definition user_files :: key_files where
  "user_files = \<lparr>kf_stat = (\<lambda>p. if p \<in> {str ''/h/.ssh'', str ''/h''} then Some (7, 448) else None),
     kf_open = (\<lambda>p. if p = str ''/h/.ssh/authorized_keys'' then Some (str ''no-pty ab AAAAAmFi me'' @ [0x0a]) else None), kf_errno = 0\<rparr>"

definition user_opts :: svr_runopts where
  "user_opts = \<lparr>so_norootlogin = False, so_noauthpass = False, so_norootpass = False, so_allowblankpass = False, so_multiauthmethod = False,
     so_maxauthtries = 10, so_banner = None, so_forced_command = None, so_restrict_group_gid = None, so_authorized_keys_dir = str ''~/.ssh''\<rparr>"

definition user_auth :: AuthState where
  "user_auth = \<lparr>au_username = Some (str ''u''), au_authtypes = 3, au_failcount = 0, au_authdone = False, au_perm_warn = False, au_checkusername_failed = False,
     au_starttime = 0, au_pubkey_query_count = 0, au_pw_uid = 7, au_pw_gid = 7, au_pw_dir = Some (str ''/h''), au_pw_shell = Some (str ''/bin/sh''),
     au_pw_name = Some (str ''u''), au_pw_passwd = Some (str ''x''), au_pubkey_options = None\<rparr>"

lemma user_path: "authorized_keys_filepath user_opts user_auth = str ''/h/.ssh/authorized_keys''"
  by code_simp

lemma user_perms: "checkpubkeyperms user_files user_opts user_auth = (True, user_auth)"
  by code_simp

lemma user_key64: "base64_decode 16 (str ''AAAAAmFi'') = Some [0, 0, 0, 2, 0x61, 0x62]"
  by (simp add: base64_decode_def str_def map_base64_def Let_def)

lemma user_start: "key_start (str ''ab'') (str ''no-pty ab AAAAAmFi me'') = Inr (Some (Some (str ''no-pty''), str '' AAAAAmFi me''))"
  by code_simp

lemma user_key: "cmp_base64_key [0, 0, 0, 2, 0x61, 0x62] (str ''ab'') (str ''AAAAAmFi'') = Inr True"
  using user_key64 by (simp add: cmp_base64_key_def str_def LOAD32H_def)

lemma user_options: "svr_parse_pubkey_options 0 (Some (str ''no-pty'')) = Some (no_options\<lparr>po_no_pty_flag := True\<rparr>)"
  by code_simp

lemma user_line: "checkpubkey_line 0 (str ''no-pty ab AAAAAmFi me'') (str ''ab'') [0, 0, 0, 2, 0x61, 0x62] = 
     Inr (Some (no_options\<lparr>po_no_pty_flag := True, po_info_env := Some (str ''me'')\<rparr>))"
  using user_start user_key user_options by (simp add: checkpubkey_line_def str_def key_info_def info_ok_def)

lemma user_getline: "buf_getline (str ''no-pty ab AAAAAmFi me'' @ [0x0a]) = Some (str ''no-pty ab AAAAAmFi me'', [])"
  by code_simp

lemma user_rest_line: "check_lines 0 (str ''ab'') [0, 0, 0, 2, 0x61, 0x62] (str ''no-pty ab AAAAAmFi me'' @ [0x0a]) =
    Inr (Some (no_options\<lparr>po_no_pty_flag := True, po_info_env := Some (str ''me'')\<rparr>))"
  using user_line user_getline by (simp add: check_lines.simps [of 0])

lemma user_key_accepted:
  "checkpubkey user_files user_opts (str ''ab'') [0, 0, 0, 2, 0x61, 0x62] user_auth =
     Inr (Some (no_options\<lparr>po_no_pty_flag := True, po_info_env := Some (str ''me'')\<rparr>), user_auth)"
  using user_rest_line by (simp add: checkpubkey_def user_perms user_path) (simp add: user_files_def)

theorem accepted_key_is_authorized_witness:
  "(\<exists>line. line \<in> set (file_lines (str ''no-pty ab AAAAAmFi me'' @ [0x0a])) \<and>
      line_holds 0 line (str ''ab'') [0, 0, 0, 2, 0x61, 0x62] (no_options\<lparr>po_no_pty_flag := True, po_info_env := Some (str ''me'')\<rparr>))
    \<and> secure user_files 7 (str ''/h/.ssh'')"
proof -
  note * = accepted_key_is_authorized [OF user_key_accepted, unfolded user_path]
  have "str ''/h/.ssh/authorized_keys'' = str ''/h'' @ str ''/.ssh'' @ slash # str ''authorized_keys''" by (simp add: str_def)
  then have "secure user_files 7 (str ''/h'' @ str ''/.ssh'')" using * by (auto simp: user_auth_def str_def)
  then show ?thesis using * by (auto simp: user_files_def str_def)
qed

text \<open>
  A user who writes a command with quotes in it, escaped as the parser of the options wants them, is locked out. The parser understands the options, and the command it
  finds is the one that was written. The search for the end of the options takes an escaped quote for the end of the quoted text, so that it stops at the first blank behind it, and the line
  is not accepted whatever the key.
\<close>

theorem escaped_quote_cuts_options:
  assumes "take 4 algo = str ''ssh-''"
  shows "checkpubkey_line errno (str ''command=\"echo '' @ escape_char # quote_char # str ''a b'' @ escape_char # quote_char # quote_char # 0x20 # algo @ 0x20 # rest) algo keyblob = Inr None
    \<and> svr_parse_pubkey_options errno (Some (str ''command=\"echo '' @ escape_char # quote_char # str ''a b'' @ [escape_char, quote_char, quote_char])) =
      Some (no_options\<lparr>po_forced_command := Some (str ''echo '' @ escape_char # quote_char # str ''a b'' @ [escape_char, quote_char])\<rparr>)"
proof -
  let ?c = "str ''echo '' @ escape_char # quote_char # str ''a b'' @ [escape_char, quote_char]"
  have "svr_parse_pubkey_options errno (Some (print_opt (Command ?c))) = Some (no_options\<lparr>po_forced_command := Some ?c\<rparr>)"
    using parse_options_step(1) [of "Command ?c" no_options errno] by (simp add: svr_parse_pubkey_options_def no_options_def str_def)
  moreover obtain r where algo: "algo = str ''ssh-'' @ r" using assms append_take_drop_id [of 4 algo] by metis
  let ?tail = "str ''b'' @ escape_char # quote_char # quote_char # 0x20 # algo @ 0x20 # rest"
  have "key_start algo (str ''command=\"echo '' @ escape_char # quote_char # str ''a '' @ ?tail) = Inr None"
    by (simp add: key_start_def algo str_def Let_def blank_def)
  ultimately show ?thesis by (simp add: checkpubkey_line_def str_def)
qed

theorem escaped_quote_cuts_options_witness:
  "checkpubkey_line 0 (str ''command=\"echo '' @ escape_char # quote_char # str ''a b'' @ escape_char # quote_char # quote_char # 0x20 # str ''ssh-rsa'' @ 0x20 # str ''AAAA'')
     (str ''ssh-rsa'') [] = Inr None"
  using escaped_quote_cuts_options [of "str ''ssh-rsa''" 0 "str ''AAAA''" "[]"] by (simp add: str_def)

text \<open>
  A line of blanks that is long enough for a key ends the session of a client that offers a key: behind the blanks the code asks for a byte that the line does not have.
  The keys on the lines behind it are not looked at.
\<close>

theorem blank_line_ends_session:
  assumes "10 \<le> n" and "n < 4200" and "length algo + 3 \<le> n" and "algo \<noteq> []" and "\<not> blank (hd algo)"
  shows "check_lines errno algo keyblob (replicate n 0x20 @ 0x0a # rest) = Inl (Exit ''Bad buf_getptr'')"
proof -
  have "takeWhile (\<lambda>c. \<not> line_end c) (replicate n 0x20 @ 0x0a # rest) = replicate n 0x20" by (simp add: takeWhile_append line_end_def)
  then have line: "buf_getline (replicate n 0x20 @ 0x0a # rest) = Some (replicate n 0x20, rest)" using assms(2) by (simp add: buf_getline_def)
  have "take (length algo) (replicate n (0x20 :: byte)) \<noteq> algo"
  proof
    assume eq: "take (length algo) (replicate n (0x20 :: byte)) = algo"
    then have "hd algo = hd (replicate (min (length algo) n) (0x20 :: byte))" by simp
    then show False using assms(1,4,5) by (simp add: blank_def)
  qed
  then have "key_start algo (replicate n 0x20) = Inl (Exit ''Bad buf_getptr'')" using assms(3) by (simp add: key_start_def blank_def)
  then have "checkpubkey_line errno (replicate n 0x20) algo keyblob = Inl (Exit ''Bad buf_getptr'')" using assms(1,2) by (simp add: checkpubkey_line_def)
  then show ?thesis using line by (simp add: check_lines.simps [of errno algo keyblob "replicate n 0x20 @ 0x0a # rest"])
qed

theorem blank_line_ends_session_witness:
  "check_lines 0 (str ''ssh-rsa'') [] (replicate 12 0x20 @ 0x0a # str ''ssh-rsa AAAA'') = Inl (Exit ''Bad buf_getptr'')"
  using blank_line_ends_session [of 12 "str ''ssh-rsa''" 0 "[]" "str ''ssh-rsa AAAA''"] by (simp add: str_def blank_def)

text \<open>
  C40. A line that is too long is not ignored: its first 4200 bytes are, and what follows them is read as a line of its own. So options that fill these bytes, as a long command does,
  are lost, and the key behind them is accepted without them.
\<close>

theorem overlong_line_loses_options:
  assumes "length start = 4200" and "\<not> list_ex line_end start"
  shows "check_lines errno algo keyblob (start @ rest) = check_lines errno algo keyblob rest"
proof -
  have "takeWhile (\<lambda>c. \<not> line_end c) (start @ rest) = start @ takeWhile (\<lambda>c. \<not> line_end c) rest"
    using assms(2) by (subst takeWhile_append2) (auto simp: list_ex_iff)
  then have "buf_getline (start @ rest) = Some ([], rest)" using assms(1) by (simp add: buf_getline_def)
  moreover have "checkpubkey_line errno [] algo keyblob = Inr None" by (simp add: checkpubkey_line_def)
  ultimately show ?thesis by (simp add: check_lines.simps [of errno algo keyblob "start @ rest"])
qed

theorem overlong_line_loses_options_witness:
  "check_lines 0 (str ''ab'') [0, 0, 0, 2, 0x61, 0x62] ((str ''command=\"'' @ replicate 4191 0x78) @ str ''no-pty ab AAAAAmFi me'' @ [0x0a]) =
     Inr (Some (no_options\<lparr>po_no_pty_flag := True, po_info_env := Some (str ''me'')\<rparr>))"
  using overlong_line_loses_options [of "str ''command=\"'' @ replicate 4191 0x78" 0 "str ''ab''" "[0, 0, 0, 2, 0x61, 0x62]" "str ''no-pty ab AAAAAmFi me'' @ [0x0a]"] user_rest_line
  by (simp add: list_ex_iff line_end_def str_def)

end
