(* ===== verification/Signkey.thy ===== *)
theory Signkey
  imports Kex
begin

text \<open>
  Public keys and their signatures, src/dropbear/src/signkey.c, with RSA of src/dropbear/src/rsa.c and Ed25519 of src/dropbear/src/ed25519.c and
  src/dropbear/src/sk-ed25519.c: the names of the key types and of the signature types, reading and writing a public key, and checking a signature. DSS and ECDSA are not
  part of the build. SHA-256 and the equation of Ed25519 are parameters, the arithmetic of RSA is arithmetic.
\<close>

section \<open>Names and types\<close>

abbreviation DROPBEAR_SIGNKEY_RSA :: int where "DROPBEAR_SIGNKEY_RSA \<equiv> 0"
abbreviation DROPBEAR_SIGNKEY_ED25519 :: int where "DROPBEAR_SIGNKEY_ED25519 \<equiv> 1"
abbreviation DROPBEAR_SIGNKEY_SK_ED25519 :: int where "DROPBEAR_SIGNKEY_SK_ED25519 \<equiv> 2"
abbreviation DROPBEAR_SIGNKEY_NUM_NAMED :: int where "DROPBEAR_SIGNKEY_NUM_NAMED \<equiv> 3"
abbreviation DROPBEAR_SIGNKEY_ANY :: int where "DROPBEAR_SIGNKEY_ANY \<equiv> 80"
abbreviation DROPBEAR_SIGNKEY_NONE :: int where "DROPBEAR_SIGNKEY_NONE \<equiv> 90"
abbreviation DROPBEAR_SIGNATURE_NONE :: int where "DROPBEAR_SIGNATURE_NONE \<equiv> 90"
abbreviation DROPBEAR_SIGNATURE_RSA_SHA256 :: int where "DROPBEAR_SIGNATURE_RSA_SHA256 \<equiv> 101"

abbreviation SSH_SIGNATURE_RSA_SHA256 :: "byte list" where "SSH_SIGNATURE_RSA_SHA256 \<equiv> str ''rsa-sha2-256''"

definition signkey_names :: "byte list list" where
  "signkey_names = [str ''ssh-rsa'', str ''ssh-ed25519'', str ''sk-ssh-ed25519@openssh.com'']"

definition signkey_name_from_type :: "int \<Rightarrow> byte list res" where
  "signkey_name_from_type type = (if type \<ge> DROPBEAR_SIGNKEY_NUM_NAMED then Inl (Exit ''Bad key type %d'') else Inr (signkey_names ! nat type))"

fun name_index :: "int \<Rightarrow> byte list list \<Rightarrow> byte list \<Rightarrow> int" where
  "name_index i [] name = DROPBEAR_SIGNKEY_NONE"
| "name_index i (fixed_name # names) name = (if fixed_name = name then i else name_index (i + 1) names name)"

definition signkey_type_from_name :: "byte list \<Rightarrow> int" where
  "signkey_type_from_name name = name_index 0 signkey_names name"

definition signature_name_from_type :: "int \<Rightarrow> byte list res" where
  "signature_name_from_type type = (if type = DROPBEAR_SIGNATURE_RSA_SHA256 then Inr SSH_SIGNATURE_RSA_SHA256 else signkey_name_from_type type)"

definition signature_type_from_name :: "byte list \<Rightarrow> int" where
  "signature_type_from_name name = (if name = SSH_SIGNATURE_RSA_SHA256 then DROPBEAR_SIGNATURE_RSA_SHA256 else signkey_type_from_name name)"

section \<open>Keys\<close>

text \<open>\<^verbatim>\<open>struct SIGN_key\<close>, with the public parts of its keys.\<close>

record rsa_pub = rk_e :: int rk_n :: int

record SIGN_key =
  sk_rsakey :: "rsa_pub option"
  sk_ed25519key :: "byte list option"
  sk_app :: "byte list"
  sk_flags_mask :: byte

definition new_sign_key :: SIGN_key where
  "new_sign_key = \<lparr>sk_rsakey = None, sk_ed25519key = None, sk_app = [], sk_flags_mask = 0\<rparr>"

abbreviation CURVE25519_LEN :: u32 where "CURVE25519_LEN \<equiv> 32"
abbreviation MIN_RSA_KEYLEN :: nat where "MIN_RSA_KEYLEN \<equiv> 1024"

text \<open>The length of the name is skipped, not read again.\<close>

definition buf_get_rsa_pub_key :: "buffer \<Rightarrow> (rsa_pub option \<times> buffer) res" where
  "buf_get_rsa_pub_key buf = rbind (buf_incrpos buf (4 + 7)) (\<lambda>buf.
     rbind (buf_getmpint buf) (\<lambda>(e, buf). case e of None \<Rightarrow> Inr (None, buf) | Some e \<Rightarrow>
     rbind (buf_getmpint buf) (\<lambda>(n, buf). case n of None \<Rightarrow> Inr (None, buf) | Some n \<Rightarrow>
     if mp_count_bits (nat n) < MIN_RSA_KEYLEN then Inr (None, buf)
     else if mp_count_bits (nat e) > 64 then Inr (None, buf)
     else Inr (Some \<lparr>rk_e = e, rk_n = n\<rparr>, buf))))"

definition buf_get_ed25519_pub_key :: "buffer \<Rightarrow> int \<Rightarrow> (byte list option \<times> buffer) res" where
  "buf_get_ed25519_pub_key buf expect_keytype = rbind (buf_getstring buf) (\<lambda>(keytype, typelen, buf).
     if signkey_type_from_name keytype \<noteq> expect_keytype then Inr (None, buf)
     else rbind (buf_getint buf) (\<lambda>(len, buf).
       if len \<noteq> CURVE25519_LEN \<or> buf_len buf - buf_pos buf < len then Inr (None, buf)
       else rbind (buf_getptr buf CURVE25519_LEN) (\<lambda>p. rbind (rd_mem (buf_data buf) p 32) (\<lambda>pub.
            rbind (buf_incrpos buf CURVE25519_LEN) (\<lambda>buf. Inr (Some pub, buf))))))"

text \<open>\<open>True\<close> is \<^verbatim>\<open>DROPBEAR_SUCCESS\<close>; with it come the key and its type.\<close>

definition buf_get_pub_key :: "buffer \<Rightarrow> SIGN_key \<Rightarrow> int \<Rightarrow> (bool \<times> SIGN_key \<times> int \<times> buffer) res" where
  "buf_get_pub_key buf key type = rbind (buf_getstring buf) (\<lambda>(ident, len, buf).
     let keytype = signkey_type_from_name ident in
     if type \<noteq> DROPBEAR_SIGNKEY_ANY \<and> type \<noteq> keytype then Inr (False, key, type, buf)
     else rbind (buf_decrpos buf (len + 4)) (\<lambda>buf.
       rbind (if keytype = DROPBEAR_SIGNKEY_RSA
         then rbind (buf_get_rsa_pub_key buf) (\<lambda>(rsakey, buf). Inr (rsakey \<noteq> None, key\<lparr>sk_rsakey := rsakey\<rparr>, buf))
         else if keytype = DROPBEAR_SIGNKEY_ED25519 \<or> keytype = DROPBEAR_SIGNKEY_SK_ED25519
         then rbind (buf_get_ed25519_pub_key buf keytype) (\<lambda>(pub, buf). Inr (pub \<noteq> None, key\<lparr>sk_ed25519key := pub\<rparr>, buf))
         else Inr (False, key, buf)) (\<lambda>(ret, key, buf).
       if keytype = DROPBEAR_SIGNKEY_SK_ED25519
       then rbind (buf_getstring buf) (\<lambda>(app, applen, buf). Inr (ret, key\<lparr>sk_app := app\<rparr>, keytype, buf))
       else Inr (ret, key, keytype, buf))))"

definition buf_put_rsa_pub_key :: "buffer \<Rightarrow> rsa_pub \<Rightarrow> buffer res" where
  "buf_put_rsa_pub_key buf key = rbind (buf_putstring buf (str ''ssh-rsa'') 7) (\<lambda>buf. rbind (buf_putmpint buf (rk_e key)) (\<lambda>buf. buf_putmpint buf (rk_n key)))"

definition buf_put_ed25519_pub_key :: "buffer \<Rightarrow> byte list \<Rightarrow> buffer res" where
  "buf_put_ed25519_pub_key buf pub = rbind (buf_putstring buf (str ''ssh-ed25519'') 11) (\<lambda>buf. buf_putstring buf pub CURVE25519_LEN)"

abbreviation MAX_PUBKEY_SIZE :: u32 where "MAX_PUBKEY_SIZE \<equiv> 600"

text \<open>A key that is not there is a failed assertion.\<close>

definition buf_put_pub_key :: "buffer \<Rightarrow> SIGN_key \<Rightarrow> int \<Rightarrow> buffer res" where
  "buf_put_pub_key buf key type = rbind (buf_new MAX_PUBKEY_SIZE) (\<lambda>pubkeys.
     rbind (if type = DROPBEAR_SIGNKEY_RSA then (case sk_rsakey key of None \<Rightarrow> Inl Assert_fail | Some k \<Rightarrow> buf_put_rsa_pub_key pubkeys k) else Inr pubkeys) (\<lambda>pubkeys.
     rbind (if type = DROPBEAR_SIGNKEY_ED25519 \<or> type = DROPBEAR_SIGNKEY_SK_ED25519
       then (case sk_ed25519key key of None \<Rightarrow> Inl Assert_fail | Some k \<Rightarrow> buf_put_ed25519_pub_key pubkeys k) else Inr pubkeys) (\<lambda>pubkeys.
     if buf_len pubkeys = 0 then Inl (Exit ''Bad key types in buf_put_pub_key'') else buf_putbufstring buf pubkeys)))"

section \<open>Signatures\<close>

text \<open>The parameters: SHA-256, and whether 64 bytes are the Ed25519 signature of the data under a public key.\<close>

record sig_env =
  sg_sha256 :: "byte list \<Rightarrow> byte list"
  sg_ed25519_verify :: "byte list \<Rightarrow> byte list \<Rightarrow> byte list \<Rightarrow> bool"

definition T_sha256 :: "byte list" where
  "T_sha256 = [0x30, 0x31] @ [0x30, 0x0d] @ [0x06, 0x09] @ [0x60, 0x86, 0x48, 0x01, 0x65] @ [0x03, 0x04, 0x02, 0x01] @ [0x05, 0x00] @ [0x04, 0x20]"

text \<open>
  \<^verbatim>\<open>rsa_pad_em\<close>: the number that a signature has to give. A signature type that is not RSA with SHA-256 is a failed assertion; with a modulus too short for the padding the loop that writes it
  runs to the end of the buffer.
\<close>

definition rsa_pad_em :: "sig_env \<Rightarrow> rsa_pub \<Rightarrow> byte list \<Rightarrow> int \<Rightarrow> nat res" where
  "rsa_pad_em sg key data sigtype = (if sigtype \<noteq> DROPBEAR_SIGNATURE_RSA_SHA256 then Inl Assert_fail
     else let nsize = mp_ubin_size (nat (rk_n key)); hashed = sg_sha256 sg data in
       if nsize < 54 then Inl (Exit ''Bad buf_incrlen'')
       else Inr (mp_from_ubin (0 # 1 # replicate (nsize - 54) 0xff @ 0 # T_sha256 @ hashed)))"

definition buf_rsa_verify :: "sig_env \<Rightarrow> buffer \<Rightarrow> rsa_pub \<Rightarrow> int \<Rightarrow> byte list \<Rightarrow> bool res" where
  "buf_rsa_verify sg buf key sigtype data = rbind (buf_getint buf) (\<lambda>(slen, buf).
     if slen \<noteq> of_nat (mp_ubin_size (nat (rk_n key))) then Inr False
     else rbind (buf_getptr buf (buf_len buf - buf_pos buf)) (\<lambda>p. rbind (rd_mem (buf_data buf) p (unat (buf_len buf - buf_pos buf))) (\<lambda>bs.
       let rsa_s = mp_from_ubin bs in
       if \<not> int rsa_s < rk_n key then Inr False
       else rbind (rsa_pad_em sg key data sigtype) (\<lambda>rsa_em. Inr (rsa_em = rsa_s ^ nat (rk_e key) mod nat (rk_n key))))))"

definition buf_ed25519_verify :: "sig_env \<Rightarrow> buffer \<Rightarrow> byte list \<Rightarrow> byte list \<Rightarrow> bool res" where
  "buf_ed25519_verify sg buf pub data = rbind (buf_getint buf) (\<lambda>(slen, buf).
     if slen \<noteq> 64 \<or> buf_len buf - buf_pos buf < slen then Inr False
     else rbind (buf_getptr buf slen) (\<lambda>p. rbind (rd_mem (buf_data buf) p 64) (\<lambda>s. Inr (sg_ed25519_verify sg data s pub))))"

abbreviation SSH_SK_USER_PRESENCE_REQD :: byte where "SSH_SK_USER_PRESENCE_REQD \<equiv> 1"
abbreviation SSH_SK_USER_VERIFICATION_REQD :: byte where "SSH_SK_USER_VERIFICATION_REQD \<equiv> 4"

definition buf_sk_ed25519_verify :: "sig_env \<Rightarrow> buffer \<Rightarrow> byte list \<Rightarrow> byte list \<Rightarrow> byte list \<Rightarrow> byte \<Rightarrow> bool res" where
  "buf_sk_ed25519_verify sg buf pub data app flags_mask = rbind (buf_getint buf) (\<lambda>(slen, buf).
     if slen \<noteq> 64 \<or> buf_len buf - buf_pos buf < slen then Inr False
     else rbind (buf_getptr buf slen) (\<lambda>p. rbind (rd_mem (buf_data buf) p 64) (\<lambda>s. rbind (buf_incrpos buf slen) (\<lambda>buf.
       rbind (buf_getbyte buf) (\<lambda>(flags, buf). rbind (buf_getint buf) (\<lambda>(counter, buf).
       let signed = sg_sha256 sg app @ [flags] @ STORE32H counter @ sg_sha256 sg data in
       Inr (sg_ed25519_verify sg signed s pub \<and> (NOT flags) AND flags_mask AND SSH_SK_USER_PRESENCE_REQD = 0
         \<and> (NOT flags) AND flags_mask AND SSH_SK_USER_VERIFICATION_REQD = 0)))))))"

definition buf_verify :: "sig_env \<Rightarrow> buffer \<Rightarrow> SIGN_key \<Rightarrow> int \<Rightarrow> byte list \<Rightarrow> bool res" where
  "buf_verify sg buf key expect_sigtype data = rbind (buf_getint buf) (\<lambda>(bloblen, buf). rbind (buf_getstring buf) (\<lambda>(type_name, type_name_len, buf).
     let sigtype = signature_type_from_name type_name in
     if expect_sigtype \<noteq> sigtype then Inl (Exit ''Non-matching signing type'')
     else rbind (signkey_type_from_signature sigtype) (\<lambda>keytype.
       if keytype = DROPBEAR_SIGNKEY_RSA then
         (case sk_rsakey key of None \<Rightarrow> Inl (Exit ''No RSA key to verify signature'') | Some k \<Rightarrow> buf_rsa_verify sg buf k sigtype data)
       else if keytype = DROPBEAR_SIGNKEY_ED25519 then
         (case sk_ed25519key key of None \<Rightarrow> Inl (Exit ''No Ed25519 key to verify signature'') | Some k \<Rightarrow> buf_ed25519_verify sg buf k data)
       else (case sk_ed25519key key of None \<Rightarrow> Inl (Exit ''Non-matching signing type'')
         | Some k \<Rightarrow> buf_sk_ed25519_verify sg buf k data (sk_app key) (sk_flags_mask key)))))"

section \<open>Round trips\<close>

text \<open>A public key on the wire.\<close>

definition rsa_wire :: "rsa_pub \<Rightarrow> byte list" where
  "rsa_wire k = STORE32H 7 @ str ''ssh-rsa'' @ mpint_wire (nat (rk_e k)) @ mpint_wire (nat (rk_n k))"

definition ed25519_wire :: "byte list \<Rightarrow> byte list" where
  "ed25519_wire pub = STORE32H 11 @ str ''ssh-ed25519'' @ STORE32H 32 @ pub"

text \<open>Keys that the server reads: neither too short nor with too large an exponent, and not larger than the buffer that is used to write one.\<close>

definition rsa_valid :: "rsa_pub \<Rightarrow> bool" where
  "rsa_valid k \<longleftrightarrow> 0 \<le> rk_e k \<and> 0 \<le> rk_n k \<and> mp_count_bits (nat (rk_e k)) \<le> 64 \<and> 1024 \<le> mp_count_bits (nat (rk_n k)) \<and> mp_count_bits (nat (rk_n k)) \<le> 4096"

lemma str_lengths [simp]: "length (str ''ssh-rsa'') = 7" "length (str ''ssh-ed25519'') = 11"
  by (simp_all add: str_def)

lemma key_names [simp]: "signkey_type_from_name (str ''ssh-rsa'') = 0" "signkey_type_from_name (str ''ssh-ed25519'') = 1"
  by (simp_all add: signkey_type_from_name_def signkey_names_def str_def)

lemma getstring_lit:
  assumes "buf_ok b" and "buf_rest b = STORE32H (of_nat (length s)) @ s @ tail" and "length s \<le> 9000"
  shows "buf_getstring b = Inr (s, of_nat (length s), adv b (4 + length s))"
  using buf_getstring_wire [of b s tail] assms by simp

lemma rewind:
  assumes "buf_ok b" and "n + 4 \<le> length (buf_rest b)"
  shows "buf_decrpos (adv b (4 + n)) (of_nat n + 4) = Inr b"
proof -
  have "n + 4 \<le> 1000000000" using assms length_buf_rest [OF assms(1)] unfolding buf_ok_def by linarith
  then have "unat (of_nat n + 4 :: u32) = n + 4" using unat_of_nat_u32 [of "n + 4"] by simp
  then show ?thesis using unat_pos_adv [OF assms(1), of "4 + n"] assms(2) by (simp add: buf_decrpos_def adv_def word_less_nat_alt add.commute)
qed

lemma get_rsa_wire:
  assumes "buf_ok b" and "rsa_valid k" and "buf_rest b = rsa_wire k @ tail"
  shows "buf_get_rsa_pub_key b = Inr (Some k, adv b (length (rsa_wire k)))"
proof -
  let ?e = "mpint_wire (nat (rk_e k))" and ?n = "mpint_wire (nat (rk_n k))"
  have b: "buf_rest b = (STORE32H 7 @ str ''ssh-rsa'') @ ?e @ ?n @ tail" using assms(3) by (simp add: rsa_wire_def)
  have skip: "buf_incrpos b 11 = Inr (adv b 11)" using b assms(1) by (simp add: buf_incrpos_eq)
  have ok1: "buf_ok (adv b 11)" "buf_rest (adv b 11) = ?e @ ?n @ tail" using b assms(1) by (simp_all add: buf_ok_adv buf_rest_adv)
  have e: "buf_getmpint (adv b 11) = Inr (Some (rk_e k), adv (adv b 11) (length ?e))"
    using buf_getmpint_wire [OF ok1] assms(2) ok1(2) by (simp add: rsa_valid_def)
  have ok2: "buf_ok (adv (adv b 11) (length ?e))" "buf_rest (adv (adv b 11) (length ?e)) = ?n @ tail" using ok1 by (simp_all add: buf_ok_adv buf_rest_adv)
  have n: "buf_getmpint (adv (adv b 11) (length ?e)) = Inr (Some (rk_n k), adv (adv (adv b 11) (length ?e)) (length ?n))"
    using buf_getmpint_wire [OF ok2] assms(2) ok2(2) by (simp add: rsa_valid_def)
  show ?thesis using assms(2) skip e n by (simp add: buf_get_rsa_pub_key_def rsa_valid_def rsa_wire_def adv_adv add.assoc)
qed

lemma get_ed25519_wire:
  assumes "buf_ok b" and "length pub = 32" and "buf_rest b = ed25519_wire pub @ tail"
  shows "buf_get_ed25519_pub_key b DROPBEAR_SIGNKEY_ED25519 = Inr (Some pub, adv b (length (ed25519_wire pub)))"
proof -
  have b: "buf_rest b = (STORE32H (of_nat (length (str ''ssh-ed25519''))) @ str ''ssh-ed25519'') @ STORE32H 32 @ pub @ tail" using assms(3) by (simp add: ed25519_wire_def)
  have name: "buf_getstring b = Inr (str ''ssh-ed25519'', 11, adv b 15)"
    using getstring_lit [OF assms(1), of "str ''ssh-ed25519''"] b by simp
  have ok1: "buf_ok (adv b 15)" "buf_rest (adv b 15) = STORE32H 32 @ pub @ tail" using b assms(1) by (simp_all add: buf_ok_adv buf_rest_adv)
  have len: "buf_getint (adv b 15) = Inr (32, adv b 19)" using int_codec.get_wire [OF ok1(1) _ ok1(2)] by (simp add: adv_adv)
  have ok2: "buf_ok (adv b 19)" "buf_rest (adv b 19) = pub @ tail"
    using ok1 buf_ok_adv [OF ok1(1), of 4] buf_rest_adv [OF ok1(1), of 4] by (simp_all add: adv_adv)
  have room: "\<not> buf_len (adv b 19) - buf_pos (adv b 19) < 32"
    using length_buf_rest [OF ok2(1)] ok2 assms(2) by (simp add: word_less_nat_alt unat_sub_if' buf_ok_def)
  show ?thesis using name len room ok2 assms(2) rd_rest [OF ok2(1), of 32]
    by (simp add: buf_get_ed25519_pub_key_def buf_getptr_eq buf_incrpos_eq adv_adv ed25519_wire_def)
qed

text \<open>Reading a key of either type, and writing it.\<close>

lemma get_key_rsa:
  assumes "buf_ok b" and "rsa_valid k" and "buf_rest b = rsa_wire k @ tail" and "type \<in> {DROPBEAR_SIGNKEY_ANY, DROPBEAR_SIGNKEY_RSA}"
  shows "buf_get_pub_key b key type = Inr (True, key\<lparr>sk_rsakey := Some k\<rparr>, DROPBEAR_SIGNKEY_RSA, adv b (length (rsa_wire k)))"
proof -
  have "buf_getstring b = Inr (str ''ssh-rsa'', 7, adv b 11)"
    using getstring_lit [OF assms(1), of "str ''ssh-rsa''"] assms(3) by (simp add: rsa_wire_def)
  moreover have "buf_decrpos (adv b 11) 11 = Inr b" using rewind [OF assms(1), of 7] assms(3) by (simp add: rsa_wire_def)
  ultimately show ?thesis using get_rsa_wire [OF assms(1-3)] assms(4) by (auto simp: buf_get_pub_key_def Let_def)
qed

lemma get_key_ed25519:
  assumes "buf_ok b" and "length pub = 32" and "buf_rest b = ed25519_wire pub @ tail" and "type \<in> {DROPBEAR_SIGNKEY_ANY, DROPBEAR_SIGNKEY_ED25519}"
  shows "buf_get_pub_key b key type = Inr (True, key\<lparr>sk_ed25519key := Some pub\<rparr>, DROPBEAR_SIGNKEY_ED25519, adv b (length (ed25519_wire pub)))"
proof -
  have "buf_getstring b = Inr (str ''ssh-ed25519'', 11, adv b 15)"
    using getstring_lit [OF assms(1), of "str ''ssh-ed25519''"] assms(3) by (simp add: ed25519_wire_def)
  moreover have "buf_decrpos (adv b 15) 15 = Inr b" using rewind [OF assms(1), of 11] assms(3) by (simp add: ed25519_wire_def)
  ultimately show ?thesis using get_ed25519_wire [OF assms(1-3)] assms(4) by (auto simp: buf_get_pub_key_def Let_def)
qed

lemma putstring_lit:
  assumes "buf_ok b" and "length s \<le> 9000" and "unat (buf_pos b) + (4 + length s) \<le> unat (buf_size b)"
  shows "buf_putstring b s (of_nat (length s)) = Inr (put_at b (STORE32H (of_nat (length s)) @ s))"
  using string_codec.put_wire [of b s] assms by simp

lemma put_rsa_wire:
  assumes "buf_ok b" and "rsa_valid k" and "unat (buf_pos b) + length (rsa_wire k) \<le> unat (buf_size b)"
  shows "buf_put_rsa_pub_key b k = Inr (put_at b (rsa_wire k))"
proof -
  let ?e = "mpint_wire (nat (rk_e k))" and ?n = "mpint_wire (nat (rk_n k))" and ?s = "STORE32H 7 @ str ''ssh-rsa''"
  have len: "unat (buf_pos b) + (11 + (length ?e + length ?n)) \<le> unat (buf_size b)" using assms(3) by (simp add: rsa_wire_def)
  have name: "buf_putstring b (str ''ssh-rsa'') 7 = Inr (put_at b ?s)" using putstring_lit [OF assms(1), of "str ''ssh-rsa''"] len by simp
  have ok1: "buf_ok (put_at b ?s)" "unat (buf_pos (put_at b ?s)) = unat (buf_pos b) + 11" "buf_size (put_at b ?s) = buf_size b"
    using len buf_ok_put_at [OF assms(1), of ?s] put_at_fields [OF assms(1), of ?s] by simp_all
  have e: "buf_putmpint (put_at b ?s) (rk_e k) = Inr (put_at (put_at b ?s) ?e)"
    using buf_putmpint_eq [OF ok1(1), of "nat (rk_e k)"] ok1 len assms(2) by (simp add: rsa_valid_def)
  have ok2: "buf_ok (put_at (put_at b ?s) ?e)" "unat (buf_pos (put_at (put_at b ?s) ?e)) = unat (buf_pos b) + 11 + length ?e"
    "buf_size (put_at (put_at b ?s) ?e) = buf_size b"
    using len ok1 buf_ok_put_at [OF ok1(1), of ?e] put_at_fields [OF ok1(1), of ?e] by simp_all
  have n: "buf_putmpint (put_at (put_at b ?s) ?e) (rk_n k) = Inr (put_at (put_at (put_at b ?s) ?e) ?n)"
    using buf_putmpint_eq [OF ok2(1), of "nat (rk_n k)"] ok2 len assms(2) by (simp add: rsa_valid_def)
  have "put_at (put_at (put_at b ?s) ?e) ?n = put_at b (rsa_wire k)"
    using put_at_put_at [OF assms(1), of ?s ?e] put_at_put_at [OF assms(1), of "?s @ ?e" ?n] len by (simp add: rsa_wire_def)
  then show ?thesis using name e n by (simp add: buf_put_rsa_pub_key_def)
qed

lemma put_ed25519_wire:
  assumes "buf_ok b" and "length pub = 32" and "unat (buf_pos b) + length (ed25519_wire pub) \<le> unat (buf_size b)"
  shows "buf_put_ed25519_pub_key b pub = Inr (put_at b (ed25519_wire pub))"
proof -
  let ?s = "STORE32H 11 @ str ''ssh-ed25519''" and ?p = "STORE32H 32 @ pub"
  have len: "unat (buf_pos b) + 51 \<le> unat (buf_size b)" using assms(2,3) by (simp add: ed25519_wire_def)
  have name: "buf_putstring b (str ''ssh-ed25519'') 11 = Inr (put_at b ?s)" using putstring_lit [OF assms(1), of "str ''ssh-ed25519''"] len by simp
  have ok1: "buf_ok (put_at b ?s)" "unat (buf_pos (put_at b ?s)) = unat (buf_pos b) + 15" "buf_size (put_at b ?s) = buf_size b"
    using len buf_ok_put_at [OF assms(1), of ?s] put_at_fields [OF assms(1), of ?s] by simp_all
  have "buf_putstring (put_at b ?s) pub CURVE25519_LEN = Inr (put_at (put_at b ?s) ?p)" using putstring_lit [OF ok1(1), of pub] ok1 len assms(2) by simp
  moreover have "put_at (put_at b ?s) ?p = put_at b (ed25519_wire pub)" using put_at_put_at [OF assms(1), of ?s ?p] len assms(2) by (simp add: ed25519_wire_def)
  ultimately show ?thesis using name by (simp add: buf_put_ed25519_pub_key_def)
qed

text \<open>Both are wire formats in the sense of the buffers.\<close>

interpretation rsa_codec: wire_codec buf_put_rsa_pub_key
  "\<lambda>b. rbind (buf_get_pub_key b new_sign_key DROPBEAR_SIGNKEY_RSA) (\<lambda>(ret, key, type, b). case sk_rsakey key of None \<Rightarrow> Inl Assert_fail | Some k \<Rightarrow> Inr (k, b))"
  rsa_wire rsa_valid
  by unfold_locales (simp_all add: put_rsa_wire get_key_rsa)

interpretation ed25519_codec: wire_codec buf_put_ed25519_pub_key
  "\<lambda>b. rbind (buf_get_pub_key b new_sign_key DROPBEAR_SIGNKEY_ED25519) (\<lambda>(ret, key, type, b). case sk_ed25519key key of None \<Rightarrow> Inl Assert_fail | Some k \<Rightarrow> Inr (k, b))"
  ed25519_wire "\<lambda>pub. length pub = 32"
  by unfold_locales (simp_all add: put_ed25519_wire get_key_ed25519)

definition key_valid :: "int \<Rightarrow> SIGN_key \<Rightarrow> bool" where
  "key_valid type key \<longleftrightarrow> (if type = DROPBEAR_SIGNKEY_RSA then \<exists>k. rsa_valid k \<and> key = new_sign_key\<lparr>sk_rsakey := Some k\<rparr>
     else type = DROPBEAR_SIGNKEY_ED25519 \<and> (\<exists>pub. length pub = 32 \<and> key = new_sign_key\<lparr>sk_ed25519key := Some pub\<rparr>))"

lemma rsa_wire_length: "rsa_valid k \<Longrightarrow> length (rsa_wire k) \<le> 600 \<and> 0 < length (rsa_wire k)"
  by (auto simp: rsa_valid_def rsa_wire_def mpint_wire_def Let_def simp del: ubin_bytes.simps)

lemma put_blob:
  assumes "buf_ok b" and "length w \<le> 600" and "unat (buf_pos b) + (4 + length w) \<le> unat (buf_size b)" and "buf_new 600 = Inr b0"
  shows "buf_ok b0" and "unat (buf_pos b0) + length w \<le> unat (buf_size b0)" and "0 < length w \<Longrightarrow> buf_len (put_at b0 w) \<noteq> 0"
    and "buf_putbufstring b (put_at b0 w) = Inr (put_at b (STORE32H (of_nat (length w)) @ w))"
proof -
  have b0: "b0 = \<lparr>buf_data = replicate 600 0, buf_len = 0, buf_pos = 0, buf_size = 600\<rparr>" using assms(4) by (simp add: buf_new_def)
  show "buf_ok b0" "unat (buf_pos b0) + length w \<le> unat (buf_size b0)" using assms(2) by (simp_all add: b0 buf_ok_def)
  have len: "buf_len (put_at b0 w) = of_nat (length w)" "unat (of_nat (length w) :: u32) = length w" "take (length w) (buf_data (put_at b0 w)) = w"
    using assms(2) by (simp_all add: b0 put_at_def unat_of_nat_u32)
  show "0 < length w \<Longrightarrow> buf_len (put_at b0 w) \<noteq> 0" using len(1,2) by (auto simp: u32_eq_iff)
  have "length w \<le> length (buf_data (put_at b0 w))" using assms(2) by (simp add: b0 put_at_def)
  then show "buf_putbufstring b (put_at b0 w) = Inr (put_at b (STORE32H (of_nat (length w)) @ w))"
    using buf_putstring_eq [OF assms(1), of "of_nat (length w)" "buf_data (put_at b0 w)"] assms(3) len by (simp add: buf_putbufstring_def)
qed

lemma put_pub_key_wire:
  assumes "buf_ok b" and "key_valid type key" and "unat (buf_pos b) + 604 \<le> unat (buf_size b)"
  shows "\<exists>w. length w \<le> 600 \<and> buf_put_pub_key b key type = Inr (put_at b (STORE32H (of_nat (length w)) @ w)) \<and>
    (\<forall>b tail. buf_ok b \<and> buf_rest b = w @ tail \<longrightarrow> buf_get_pub_key b new_sign_key DROPBEAR_SIGNKEY_ANY = Inr (True, key, type, adv b (length w)))"
proof -
  obtain b0 where b0: "buf_new 600 = Inr b0" by (simp add: buf_new_def)
  consider (rsa) k where "type = 0" "rsa_valid k" "key = new_sign_key\<lparr>sk_rsakey := Some k\<rparr>"
    | (ed) pub where "type = 1" "length pub = 32" "key = new_sign_key\<lparr>sk_ed25519key := Some pub\<rparr>"
    using assms(2) by (auto simp: key_valid_def split: if_splits)
  then show ?thesis
  proof cases
    case rsa
    note w = rsa_wire_length [OF rsa(2)]
    note b = put_blob [OF assms(1) conjunct1 [OF w] _ b0]
    have "buf_put_pub_key b key type = Inr (put_at b (STORE32H (of_nat (length (rsa_wire k))) @ rsa_wire k))"
      using b assms(3) w rsa put_rsa_wire [of b0 k] b0 by (simp add: buf_put_pub_key_def)
    then show ?thesis using w get_key_rsa [OF _ rsa(2)] rsa(1,3) by (intro exI [of _ "rsa_wire k"]) simp
  next
    case ed
    have w: "length (ed25519_wire pub) \<le> 600" "0 < length (ed25519_wire pub)" using ed(2) by (simp_all add: ed25519_wire_def)
    note b = put_blob [OF assms(1) w(1) _ b0]
    have "buf_put_pub_key b key type = Inr (put_at b (STORE32H (of_nat (length (ed25519_wire pub))) @ ed25519_wire pub))"
      using b assms(3) w ed put_ed25519_wire [of b0 pub] b0 by (simp add: buf_put_pub_key_def)
    then show ?thesis using w get_key_ed25519 [OF _ ed(2)] ed(1,3) by (intro exI [of _ "ed25519_wire pub"]) simp
  qed
qed

text \<open>
  C37. A public key survives its way to the other side: what \<^verbatim>\<open>buf_put_pub_key\<close> writes for an RSA key of 1024 to 4096 bits or an Ed25519 key is read back by \<^verbatim>\<open>buf_get_pub_key\<close>, behind the length in front of it,
  as the same key of the same type, and reading ends where writing did.
\<close>

theorem pub_key_roundtrip:
  assumes "buf_ok b" and "key_valid type key" and "unat (buf_pos b) + 604 \<le> unat (buf_size b)"
  shows "\<exists>b'. buf_put_pub_key b key type = Inr b' \<and>
    rbind (buf_setpos b' (buf_pos b)) (\<lambda>b. rbind (buf_getint b) (\<lambda>(len, b). buf_get_pub_key b new_sign_key DROPBEAR_SIGNKEY_ANY)) = Inr (True, key, type, b')"
proof -
  obtain w where w: "length w \<le> 600" "buf_put_pub_key b key type = Inr (put_at b (STORE32H (of_nat (length w)) @ w))"
    and get: "\<And>b tail. buf_ok b \<Longrightarrow> buf_rest b = w @ tail \<Longrightarrow> buf_get_pub_key b new_sign_key DROPBEAR_SIGNKEY_ANY = Inr (True, key, type, adv b (length w))"
    using put_pub_key_wire [OF assms] by blast
  let ?w = "STORE32H (of_nat (length w)) @ w"
  let ?b1 = "put_at b ?w"
  let ?b2 = "?b1\<lparr>buf_pos := buf_pos b\<rparr>"
  have fits: "unat (buf_pos b) + length ?w \<le> unat (buf_size b)" using w(1) assms(3) by simp
  have pos: "unat (buf_pos b) \<le> unat (buf_len ?b1)" using put_at_fields(2) [OF assms(1) fits] by simp
  have ok2: "buf_ok ?b2" using buf_ok_reset [OF buf_ok_put_at [OF assms(1) fits] pos] .
  have rest: "buf_rest ?b2 = STORE32H (of_nat (length w)) @ w @ drop (length ?w) (buf_rest b)" using buf_rest_put_at [OF assms(1) fits] by simp
  have int: "buf_getint ?b2 = Inr (of_nat (length w), adv ?b2 4)" using int_codec.get_wire [OF ok2 _ rest] by simp
  have "buf_ok (adv ?b2 4)" "buf_rest (adv ?b2 4) = w @ drop (length ?w) (buf_rest b)"
    using buf_ok_adv [OF ok2, of 4] buf_rest_adv [OF ok2, of 4] rest by simp_all
  from get [OF this] have "buf_get_pub_key (adv ?b2 4) new_sign_key DROPBEAR_SIGNKEY_ANY = Inr (True, key, type, ?b1)"
    by (simp add: adv_adv) (simp add: adv_def put_at_def add.assoc)
  then show ?thesis using w(2) int pos by (simp add: buf_setpos_eq)
qed

definition empty_kilobyte :: buffer where
  "empty_kilobyte = \<lparr>buf_data = replicate 1024 0, buf_len = 0, buf_pos = 0, buf_size = 1024\<rparr>"

theorem pub_key_roundtrip_witness:
  "\<exists>b'. buf_put_pub_key empty_kilobyte (new_sign_key\<lparr>sk_ed25519key := Some (replicate 32 7)\<rparr>) DROPBEAR_SIGNKEY_ED25519 = Inr b' \<and>
    rbind (buf_setpos b' 0) (\<lambda>b. rbind (buf_getint b) (\<lambda>(len, b). buf_get_pub_key b new_sign_key DROPBEAR_SIGNKEY_ANY)) =
      Inr (True, new_sign_key\<lparr>sk_ed25519key := Some (replicate 32 7)\<rparr>, DROPBEAR_SIGNKEY_ED25519, b')"
proof -
  have v: "key_valid DROPBEAR_SIGNKEY_ED25519 (new_sign_key\<lparr>sk_ed25519key := Some (replicate 32 7)\<rparr>)"
    by (simp add: key_valid_def) (metis length_replicate)
  have "buf_ok empty_kilobyte" "unat (buf_pos empty_kilobyte) + 604 \<le> unat (buf_size empty_kilobyte)" by (simp_all add: empty_kilobyte_def buf_ok_def)
  from pub_key_roundtrip [OF this(1) v this(2)] show ?thesis by (simp add: empty_kilobyte_def)
qed

section \<open>What a key and a signature are on the wire\<close>

text \<open>\<open>reads b w b'\<close>: the bytes \<open>w\<close> stand at the position of \<open>b\<close>, and \<open>b'\<close> is the buffer behind them.\<close>

definition reads :: "buffer \<Rightarrow> byte list \<Rightarrow> buffer \<Rightarrow> bool" where
  "reads b w b' \<longleftrightarrow> buf_ok b \<and> b' = adv b (length w) \<and> buf_ok b' \<and> buf_rest b = w @ buf_rest b'"

lemma readsI:
  assumes "buf_ok b" and "buf_rest b = w @ rest"
  shows "reads b w (adv b (length w))"
  using assms buf_ok_adv [of b "length w"] buf_rest_adv [of b "length w"] by (simp add: reads_def)

lemma reads_trans [trans]: "reads b v b' \<Longrightarrow> reads b' w b'' \<Longrightarrow> reads b (v @ w) b''"
  by (auto simp: reads_def adv_adv)

lemma reads_ok: "reads b w b' \<Longrightarrow> buf_ok b" "reads b w b' \<Longrightarrow> buf_ok b'" "reads b w b' \<Longrightarrow> buf_rest b = w @ buf_rest b'"
  unfolding reads_def by blast+

lemma STORE32H_LOAD32H:
  assumes "length bs = 4"
  shows "STORE32H (LOAD32H bs) = bs"
proof -
  obtain a b c d where bs: "bs = [a, b, c, d]" using assms by (auto simp: length_Suc_conv numeral_eq_Suc)
  have high: "\<not> bit x (8 + n)" "\<not> bit x (16 + n)" "\<not> bit x (24 + n)" for x :: byte and n by (simp_all add: bit_word_half_eq impossible_bit)
  show ?thesis unfolding bs STORE32H_def LOAD32H_def
    by simp (intro conjI bit_word_eqI; use high in \<open>auto simp: bit_simps\<close>)
qed

lemma getint_reads:
  assumes "buf_ok b" and "buf_getint b = Inr (v, b')"
  shows "reads b (STORE32H v) b'"
proof -
  have v: "4 \<le> length (buf_rest b)" "v = LOAD32H (take 4 (buf_rest b))" "b' = adv b 4" using assms by (auto simp: buf_getint_eq split: if_splits)
  then have "buf_rest b = STORE32H v @ drop 4 (buf_rest b)" by (simp add: STORE32H_LOAD32H)
  from readsI [OF assms(1) this] show ?thesis using v(3) by simp
qed

lemma getbyte_reads:
  assumes "buf_ok b" and "buf_getbyte b = Inr (v, b')"
  shows "reads b [v] b'"
  using assms readsI [of b "[v]" "tl (buf_rest b)"] by (cases "buf_rest b") (auto simp: buf_getbyte_eq)

lemma incrpos_reads:
  assumes "buf_ok b" and "buf_incrpos b l = Inr b'"
  shows "reads b (take (unat l) (buf_rest b)) b'"
  using assms readsI [of b "take (unat l) (buf_rest b)" "drop (unat l) (buf_rest b)"] by (auto simp: buf_incrpos_eq min_absorb2 split: if_splits)

lemma getstring_reads:
  assumes "buf_ok b" and "buf_getstring b = Inr (s, l, b')"
  shows "reads b (field_wire (F_str s)) b'" and "l = of_nat (length s)"
proof -
  let ?bs = "buf_rest b" and ?l = "LOAD32H (take 4 (buf_rest b))"
  have s: "4 \<le> length ?bs" "unat ?l \<le> length ?bs - 4" "s = take (unat ?l) (drop 4 ?bs)" "b' = adv b (4 + unat ?l)" "l = ?l"
    using assms by (auto simp: buf_getstring_eq Let_def split: if_splits)
  have len: "length s = unat ?l" using s(2,3) by simp
  then show l: "l = of_nat (length s)" using s(5) by simp
  have "?bs = field_wire (F_str s) @ drop (4 + unat ?l) ?bs"
    using len s(1,3) append_take_drop_id [of 4 ?bs] append_take_drop_id [of "unat ?l" "drop 4 ?bs"] by (simp add: STORE32H_LOAD32H add.commute)
  from readsI [OF assms(1) this] show "reads b (field_wire (F_str s)) b'" using s(4) len by simp
qed

lemma getmpint_reads:
  assumes "buf_ok b" and "buf_getmpint b = Inr (Some v, b')"
  shows "\<exists>bs. reads b (field_wire (F_str bs)) b' \<and> v = int (mp_from_ubin bs)"
proof -
  obtain l b1 where b1: "buf_getint b = Inr (l, b1)" using assms(2) by (auto simp: buf_getmpint_def)
  note r1 = getint_reads [OF assms(1) b1]
  show ?thesis
  proof (cases "l = 0")
    case True
    then show ?thesis using assms(2) b1 r1 by (intro exI [of _ "[]"]) (auto simp: buf_getmpint_def mp_from_ubin_def)
  next
    case False
    let ?bs = "take (unat l) (buf_rest b1)"
    have b': "buf_incrpos b1 l = Inr b'" "v = int (mp_from_ubin ?bs)" "unat l \<le> length (buf_rest b1)"
      using assms(2) b1 False rd_rest [OF reads_ok(2) [OF r1], of "unat l"]
      by (auto simp: buf_getmpint_def buf_getptr_eq [OF reads_ok(2) [OF r1]] split: if_splits)
    have "reads b (STORE32H l @ ?bs) b'" using reads_trans [OF r1 incrpos_reads [OF reads_ok(2) [OF r1] b'(1)]] .
    then show ?thesis using b'(2,3) by (intro exI [of _ ?bs]) (simp add: min_absorb2)
  qed
qed

text \<open>The names that are known determine their types.\<close>

lemma signkey_type_cases:
  assumes "signkey_type_from_name name = t" and "t < 3"
  shows "t = 0 \<and> name = str ''ssh-rsa'' \<or> t = 1 \<and> name = str ''ssh-ed25519'' \<or> t = 2 \<and> name = str ''sk-ssh-ed25519@openssh.com''"
  using assms by (auto simp: signkey_type_from_name_def signkey_names_def split: if_splits)

lemma signature_type_cases:
  assumes "signkey_type_from_signature (signature_type_from_name name) = Inr keytype"
  shows "name = SSH_SIGNATURE_RSA_SHA256 \<and> keytype = 0 \<or> name = str ''ssh-rsa'' \<and> keytype = 0 \<or> name = str ''ssh-ed25519'' \<and> keytype = 1
    \<or> name = str ''sk-ssh-ed25519@openssh.com'' \<and> keytype = 2"
proof -
  have "signkey_type_from_name name \<noteq> 101" by (simp add: signkey_type_from_name_def signkey_names_def)
  then show ?thesis using assms signkey_type_cases [of name] by (auto simp: signkey_type_from_signature_def signature_type_from_name_def split: if_splits)
qed

lemma signature_type_inj:
  assumes "signkey_type_from_signature (signature_type_from_name name) = Inr keytype" and "signature_type_from_name name' = signature_type_from_name name"
  shows "name' = name"
  using signature_type_cases [OF assms(1)] signature_type_cases [of name'] assms
  by (auto simp: signature_type_from_name_def signkey_type_from_name_def signkey_names_def str_def split: if_splits)

text \<open>A key of a type on the wire, and the key that it stands for.\<close>

definition wire_key :: "int \<Rightarrow> byte list \<Rightarrow> SIGN_key \<Rightarrow> bool" where
  "wire_key keytype w key \<longleftrightarrow>
     keytype = 0 \<and> (\<exists>e n. w = message [F_str (str ''ssh-rsa''), F_str e, F_str n] \<and> sk_rsakey key = Some \<lparr>rk_e = int (mp_from_ubin e), rk_n = int (mp_from_ubin n)\<rparr>)
   \<or> keytype = 1 \<and> (\<exists>pub. w = message [F_str (str ''ssh-ed25519''), F_str pub] \<and> length pub = 32 \<and> sk_ed25519key key = Some pub)
   \<or> keytype = 2 \<and> (\<exists>pub app. w = message [F_str (str ''sk-ssh-ed25519@openssh.com''), F_str pub, F_str app] \<and> length pub = 32
       \<and> sk_ed25519key key = Some pub \<and> sk_app key = app)"

text \<open>
  The bytes \<open>sigw\<close> hold a signature of \<open>data\<close> under the key \<open>keyw\<close>: for RSA the equation with the padded SHA-256 digest, for Ed25519 the equation of the parameter, for a key in
  hardware the same over the digests, the flags and the counter, where the flags tell that the user touched the key and was verified if that is asked for.
\<close>

definition signed_by :: "sig_env \<Rightarrow> bool \<Rightarrow> bool \<Rightarrow> byte list \<Rightarrow> byte list \<Rightarrow> byte list \<Rightarrow> byte list \<Rightarrow> bool" where
  "signed_by sg touch verified sigalgo keyw data sigw \<longleftrightarrow>
     sigalgo = str ''rsa-sha2-256'' \<and> (\<exists>e n l s. keyw = message [F_str (str ''ssh-rsa''), F_str e, F_str n]
       \<and> sigw = message [F_int l, F_str sigalgo, F_int (of_nat (mp_ubin_size (mp_from_ubin n)))] @ s \<and> mp_from_ubin s < mp_from_ubin n
       \<and> mp_from_ubin s ^ mp_from_ubin e mod mp_from_ubin n
           = mp_from_ubin (0 # 1 # replicate (mp_ubin_size (mp_from_ubin n) - 54) 0xff @ 0 # T_sha256 @ sg_sha256 sg data))
   \<or> sigalgo = str ''ssh-ed25519'' \<and> (\<exists>pub l s rest. keyw = message [F_str sigalgo, F_str pub] \<and> length pub = 32
       \<and> sigw = message [F_int l, F_str sigalgo, F_str s] @ rest \<and> length s = 64 \<and> sg_ed25519_verify sg data s pub)
   \<or> sigalgo = str ''sk-ssh-ed25519@openssh.com'' \<and> (\<exists>pub app l s flags counter rest. keyw = message [F_str sigalgo, F_str pub, F_str app] \<and> length pub = 32
       \<and> sigw = message [F_int l, F_str sigalgo, F_str s, F_byte flags, F_int counter] @ rest \<and> length s = 64
       \<and> sg_ed25519_verify sg (sg_sha256 sg app @ [flags] @ STORE32H counter @ sg_sha256 sg data) s pub
       \<and> (touch \<longrightarrow> bit flags 0) \<and> (verified \<longrightarrow> bit flags 2))"

lemma get_rsa_reads:
  assumes "buf_ok b" and "buf_rest b = field_wire (F_str (str ''ssh-rsa'')) @ rest" and "buf_get_rsa_pub_key b = Inr (Some k, p)"
  shows "\<exists>e n. reads b (message [F_str (str ''ssh-rsa''), F_str e, F_str n]) p \<and> k = \<lparr>rk_e = int (mp_from_ubin e), rk_n = int (mp_from_ubin n)\<rparr>"
proof -
  obtain b1 where b1: "buf_incrpos b 11 = Inr b1" using assms(3) by (auto simp: buf_get_rsa_pub_key_def)
  have r1: "reads b (field_wire (F_str (str ''ssh-rsa''))) b1" using incrpos_reads [OF assms(1) b1] assms(2) by simp
  obtain e b2 where b2: "buf_getmpint b1 = Inr (Some e, b2)" using assms(3) b1 by (auto simp: buf_get_rsa_pub_key_def split: option.splits)
  obtain n where n: "buf_getmpint b2 = Inr (Some n, p)" and k: "k = \<lparr>rk_e = e, rk_n = n\<rparr>"
    using assms(3) b1 b2 by (auto simp: buf_get_rsa_pub_key_def split: option.splits if_splits)
  obtain ew where e: "reads b1 (field_wire (F_str ew)) b2" "e = int (mp_from_ubin ew)" using getmpint_reads [OF reads_ok(2) [OF r1] b2] by blast
  obtain nw where nw: "reads b2 (field_wire (F_str nw)) p" "n = int (mp_from_ubin nw)" using getmpint_reads [OF reads_ok(2) [OF e(1)] n] by blast
  show ?thesis using reads_trans [OF r1 reads_trans [OF e(1) nw(1)]] k e(2) nw(2) by (auto simp: message_def)
qed

lemma get_ed25519_reads:
  assumes "buf_ok b" and "buf_get_ed25519_pub_key b t = Inr (Some pub, p)" and "t < 3"
  shows "\<exists>name. signkey_type_from_name name = t \<and> reads b (message [F_str name, F_str pub]) p \<and> length pub = 32"
proof -
  obtain name l b1 where b1: "buf_getstring b = Inr (name, l, b1)" "signkey_type_from_name name = t"
    using assms(2) by (auto simp: buf_get_ed25519_pub_key_def split: if_splits)
  note r1 = getstring_reads(1) [OF assms(1) b1(1)]
  obtain b2 where b2: "buf_getint b1 = Inr (32, b2)" using assms(2) b1 by (auto simp: buf_get_ed25519_pub_key_def split: if_splits)
  note r2 = getint_reads [OF reads_ok(2) [OF r1] b2]
  have ptr: "32 \<le> length (buf_rest b2)" using assms(2) b1 b2 by (auto simp: buf_get_ed25519_pub_key_def buf_getptr_eq [OF reads_ok(2) [OF r2]] split: if_splits)
  have p: "pub = take 32 (buf_rest b2)" "buf_incrpos b2 32 = Inr p"
    using assms(2) b1 b2 ptr rd_rest [OF reads_ok(2) [OF r2] ptr] by (auto simp: buf_get_ed25519_pub_key_def buf_getptr_eq [OF reads_ok(2) [OF r2]] split: if_splits)
  have "reads b2 pub p" using incrpos_reads [OF reads_ok(2) [OF r2] p(2)] p(1) by simp
  then have "reads b (message [F_str name, F_str pub]) p" "length pub = 32" using reads_trans [OF r1 reads_trans [OF r2]] ptr p(1) by (auto simp: message_def)
  then show ?thesis using b1(2) by blast
qed

lemma pub_key_reads:
  assumes "buf_ok b" and "buf_get_pub_key b new_sign_key keytype = Inr (True, key, type, p)" and "keytype < 3"
  shows "\<exists>w. reads b w p \<and> wire_key keytype w key"
proof -
  obtain name l b1 where b1: "buf_getstring b = Inr (name, l, b1)" using assms(2) by (auto simp: buf_get_pub_key_def)
  note r1 = getstring_reads [OF assms(1) b1]
  have name: "signkey_type_from_name name = keytype" using assms(2,3) b1 by (auto simp: buf_get_pub_key_def Let_def split: if_splits)
  have again: "buf_decrpos b1 (l + 4) = Inr b" using rewind [OF assms(1), of "length name"] r1 by (simp add: reads_def add.commute)
  note g = assms(2) [unfolded buf_get_pub_key_def b1 rbind.simps prod.case Let_def name again]
  consider (rsa) "keytype = 0" "name = str ''ssh-rsa''" | (ed) "keytype = 1" "name = str ''ssh-ed25519''" | (sk) "keytype = 2" "name = str ''sk-ssh-ed25519@openssh.com''"
    using signkey_type_cases [OF name assms(3)] by blast
  then show ?thesis
  proof cases
    case rsa
    then obtain k where k: "buf_get_rsa_pub_key b = Inr (Some k, p)" "sk_rsakey key = Some k" using g by auto
    then show ?thesis using get_rsa_reads [OF assms(1) reads_ok(3) [OF r1(1) [unfolded rsa(2)]] k(1)] rsa(1) by (auto simp: wire_key_def)
  next
    case ed
    then obtain pub where pub: "buf_get_ed25519_pub_key b 1 = Inr (Some pub, p)" "sk_ed25519key key = Some pub" using g by auto
    obtain nm where "signkey_type_from_name nm = 1" "reads b (message [F_str nm, F_str pub]) p" "length pub = 32" using get_ed25519_reads [OF assms(1) pub(1)] by auto
    then show ?thesis using signkey_type_cases [of nm 1] ed(1) pub(2) by (auto simp: wire_key_def)
  next
    case sk
    then obtain pub app l p' where pub: "buf_get_ed25519_pub_key b 2 = Inr (Some pub, p')" "sk_ed25519key key = Some pub" and app: "buf_getstring p' = Inr (app, l, p)" "sk_app key = app"
      using g by auto
    obtain nm where nm: "signkey_type_from_name nm = 2" "reads b (message [F_str nm, F_str pub]) p'" "length pub = 32" using get_ed25519_reads [OF assms(1) pub(1)] by auto
    have "reads b (message [F_str nm, F_str pub, F_str app]) p" using reads_trans [OF nm(2) getstring_reads(1) [OF reads_ok(2) [OF nm(2)] app(1)]] by (simp add: message_def)
    then show ?thesis using signkey_type_cases [OF nm(1)] nm(3) sk(1) pub(2) app(2) by (auto simp: wire_key_def)
  qed
qed

lemma rsa_verify_wire:
  assumes "buf_ok b" and "buf_rsa_verify sg b k sigtype data = Inr True"
  shows "\<exists>s. buf_rest b = STORE32H (of_nat (mp_ubin_size (nat (rk_n k)))) @ s \<and> int (mp_from_ubin s) < rk_n k \<and> sigtype = DROPBEAR_SIGNATURE_RSA_SHA256
    \<and> mp_from_ubin s ^ nat (rk_e k) mod nat (rk_n k) = mp_from_ubin (0 # 1 # replicate (mp_ubin_size (nat (rk_n k)) - 54) 0xff @ 0 # T_sha256 @ sg_sha256 sg data)"
proof -
  obtain b1 where b1: "buf_getint b = Inr (of_nat (mp_ubin_size (nat (rk_n k))), b1)" using assms(2) by (auto simp: buf_rsa_verify_def split: if_splits)
  note r1 = getint_reads [OF assms(1) b1]
  have n: "unat (buf_len b1 - buf_pos b1) = length (buf_rest b1)" using length_buf_rest [OF reads_ok(2) [OF r1]] reads_ok(2) [OF r1] by (simp add: unat_sub_if' buf_ok_def)
  have rd: "rd_mem (buf_data b1) (unat (buf_pos b1)) (length (buf_rest b1)) = Inr (buf_rest b1)" using rd_rest [OF reads_ok(2) [OF r1], of "length (buf_rest b1)"] by simp
  have "int (mp_from_ubin (buf_rest b1)) < rk_n k" "rsa_pad_em sg k data sigtype = Inr (mp_from_ubin (buf_rest b1) ^ nat (rk_e k) mod nat (rk_n k))"
    using assms(2) b1 n rd by (auto simp: buf_rsa_verify_def buf_getptr_eq [OF reads_ok(2) [OF r1]] Let_def split: if_splits)
  then show ?thesis using reads_ok(3) [OF r1] by (auto simp: rsa_pad_em_def Let_def split: if_splits)
qed

lemma take_signature:
  assumes "buf_ok b" and "buf_getint b = Inr (64, b1)" and "buf_getptr b1 64 = Inr at" and "rd_mem (buf_data b1) at 64 = Inr s"
  shows "length s = 64" and "reads b (field_wire (F_str s)) (adv b1 64)"
proof -
  note r1 = getint_reads [OF assms(1,2)]
  have s: "64 \<le> length (buf_rest b1)" "s = take 64 (buf_rest b1)"
    using assms(3,4) rd_rest [OF reads_ok(2) [OF r1], of 64] by (auto simp: buf_getptr_eq [OF reads_ok(2) [OF r1]] split: if_splits)
  then show len: "length s = 64" by simp
  have "reads b1 s (adv b1 64)" using readsI [OF reads_ok(2) [OF r1], of s "drop 64 (buf_rest b1)"] s len by simp
  from reads_trans [OF r1 this] show "reads b (field_wire (F_str s)) (adv b1 64)" using len by simp
qed

lemma ed25519_verify_wire:
  assumes "buf_ok b" and "buf_ed25519_verify sg b pub data = Inr True"
  shows "\<exists>s rest. buf_rest b = field_wire (F_str s) @ rest \<and> length s = 64 \<and> sg_ed25519_verify sg data s pub"
proof -
  obtain b1 at s where b1: "buf_getint b = Inr (64, b1)" "buf_getptr b1 64 = Inr at" "rd_mem (buf_data b1) at 64 = Inr s" "sg_ed25519_verify sg data s pub"
    using assms(2) by (auto simp: buf_ed25519_verify_def split: if_splits)
  show ?thesis using take_signature [OF assms(1) b1(1-3)] b1(4) reads_ok(3) by blast
qed

lemma flag_bits:
  fixes flags req :: byte
  shows "((NOT flags) AND req AND 1 = 0) = (bit req 0 \<longrightarrow> bit flags 0)" and "((NOT flags) AND req AND 4 = 0) = (bit req 2 \<longrightarrow> bit flags 2)"
  using and_exp_eq_0_iff_not_bit [of "(NOT flags) AND req" 0] and_exp_eq_0_iff_not_bit [of "(NOT flags) AND req" 2] by (auto simp: bit_simps and.assoc)

lemma sk_verify_wire:
  assumes "buf_ok b" and "buf_sk_ed25519_verify sg b pub data app req = Inr True"
  shows "\<exists>s flags counter rest. buf_rest b = message [F_str s, F_byte flags, F_int counter] @ rest \<and> length s = 64
    \<and> sg_ed25519_verify sg (sg_sha256 sg app @ [flags] @ STORE32H counter @ sg_sha256 sg data) s pub \<and> (bit req 0 \<longrightarrow> bit flags 0) \<and> (bit req 2 \<longrightarrow> bit flags 2)"
proof -
  obtain b1 at s b2 where b1: "buf_getint b = Inr (64, b1)" "buf_getptr b1 64 = Inr at" "rd_mem (buf_data b1) at 64 = Inr s" "buf_incrpos b1 64 = Inr b2"
    using assms(2) by (auto simp: buf_sk_ed25519_verify_def split: if_splits)
  have ok1: "buf_ok b1" using getint_reads [OF assms(1) b1(1)] by (rule reads_ok)
  have b2: "b2 = adv b1 64" using b1(4) by (auto simp: buf_incrpos_eq [OF ok1] split: if_splits)
  note s = take_signature [OF assms(1) b1(1-3)]
  obtain flags b3 where b3: "buf_getbyte b2 = Inr (flags, b3)" using assms(2) b1 by (auto simp: buf_sk_ed25519_verify_def split: if_splits)
  note r3 = getbyte_reads [OF reads_ok(2) [OF s(2)] b3 [unfolded b2]]
  obtain counter b4 where b4: "buf_getint b3 = Inr (counter, b4)" using assms(2) b1 b3 by (auto simp: buf_sk_ed25519_verify_def split: if_splits)
  note r4 = getint_reads [OF reads_ok(2) [OF r3] b4]
  have "sg_ed25519_verify sg (sg_sha256 sg app @ [flags] @ STORE32H counter @ sg_sha256 sg data) s pub" "(NOT flags) AND req AND 1 = 0" "(NOT flags) AND req AND 4 = 0"
    using assms(2) b1 b3 b4 by (auto simp: buf_sk_ed25519_verify_def Let_def split: if_splits)
  moreover have "buf_rest b = message [F_str s, F_byte flags, F_int counter] @ buf_rest b4"
    using reads_ok(3) [OF s(2)] reads_ok(3) [OF r3] reads_ok(3) [OF r4] by (simp add: message_def)
  ultimately show ?thesis using s(1) flag_bits [of flags req] by blast
qed

lemma verify_wire:
  assumes "buf_ok p" and "signkey_type_from_signature (signature_type_from_name sigalgo) = Inr keytype" and "wire_key keytype w key"
    and "buf_verify sg p (key\<lparr>sk_flags_mask := req\<rparr>) (signature_type_from_name sigalgo) data = Inr True"
  shows "signed_by sg (bit req 0) (bit req 2) sigalgo w data (buf_rest p)"
proof -
  obtain l b1 where b1: "buf_getint p = Inr (l, b1)" using assms(4) by (auto simp: buf_verify_def)
  note r1 = getint_reads [OF assms(1) b1]
  obtain name n b2 where b2: "buf_getstring b1 = Inr (name, n, b2)" using assms(4) b1 by (auto simp: buf_verify_def)
  note r2 = getstring_reads(1) [OF reads_ok(2) [OF r1] b2]
  have "signature_type_from_name name = signature_type_from_name sigalgo" using assms(4) b1 b2 by (auto simp: buf_verify_def Let_def split: if_splits)
  then have name: "name = sigalgo" by (rule signature_type_inj [OF assms(2)])
  have p: "buf_rest p = message [F_int l, F_str sigalgo] @ buf_rest b2" using reads_ok(3) [OF r1] reads_ok(3) [OF r2] name by (simp add: message_def)
  note v = assms(4) [unfolded buf_verify_def b1 rbind.simps prod.case b2 Let_def name assms(2)]
  note ok2 = reads_ok(2) [OF r2]
  from signature_type_cases [OF assms(2)] show ?thesis
  proof (elim disjE conjE)
    assume "sigalgo = str ''ssh-rsa''" "keytype = 0"
    then have "signature_type_from_name sigalgo = 0" by (simp add: signature_type_from_name_def) (simp add: str_def)
    then show ?thesis using v \<open>keytype = 0\<close> rsa_verify_wire [OF ok2, of sg _ 0 data] by (auto split: option.splits)
  next
    assume a: "sigalgo = SSH_SIGNATURE_RSA_SHA256" "keytype = 0"
    then obtain e n where k: "w = message [F_str (str ''ssh-rsa''), F_str e, F_str n]" "sk_rsakey key = Some \<lparr>rk_e = int (mp_from_ubin e), rk_n = int (mp_from_ubin n)\<rparr>"
      using assms(3) by (auto simp: wire_key_def)
    then show ?thesis using v a rsa_verify_wire [OF ok2] p by (fastforce simp: signed_by_def message_def)
  next
    assume a: "sigalgo = str ''ssh-ed25519''" "keytype = 1"
    then obtain pub where k: "w = message [F_str sigalgo, F_str pub]" "length pub = 32" "sk_ed25519key key = Some pub" using assms(3) by (auto simp: wire_key_def)
    then show ?thesis using v a ed25519_verify_wire [OF ok2] p by (fastforce simp: signed_by_def message_def)
  next
    assume a: "sigalgo = str ''sk-ssh-ed25519@openssh.com''" "keytype = 2"
    then obtain pub app where k: "w = message [F_str sigalgo, F_str pub, F_str app]" "length pub = 32" "sk_ed25519key key = Some pub" "sk_app key = app"
      using assms(3) by (auto simp: wire_key_def)
    then have "buf_sk_ed25519_verify sg b2 pub data app req = Inr True" using v a by simp
    from sk_verify_wire [OF ok2 this] obtain s flags counter rest where s: "buf_rest b2 = message [F_str s, F_byte flags, F_int counter] @ rest" "length s = 64"
      "sg_ed25519_verify sg (sg_sha256 sg app @ [flags] @ STORE32H counter @ sg_sha256 sg data) s pub" "bit req 0 \<longrightarrow> bit flags 0" "bit req 2 \<longrightarrow> bit flags 2" by blast
    then have "buf_rest p = message [F_int l, F_str sigalgo, F_str s, F_byte flags, F_int counter] @ rest" using p by (simp add: message_def)
    then show ?thesis unfolding signed_by_def using a(1) k(1,2) s(2-5) by blast
  qed
qed

section \<open>RSA signatures named for SHA-1\<close>

text \<open>
  C39. RSA with SHA-1 is not built in, and nothing refuses its name: \<^verbatim>\<open>signature_type_from_name\<close> answers \<^verbatim>\<open>ssh-rsa\<close> with the number of the key type. A signature under that name, of the length of the modulus and
  smaller than it, ends in the failed assertion of \<^verbatim>\<open>rsa_pad_em\<close>, which ends the process, whatever the key and the data.
\<close>

theorem sha1_signature_name_aborts:
  assumes "buf_ok b" and "sk_rsakey key = Some k" and "s \<noteq> []" and "length s = mp_ubin_size (nat (rk_n k))" and "length s \<le> 9000" and "int (mp_from_ubin s) < rk_n k"
    and "buf_rest b = STORE32H len @ STORE32H 7 @ str ''ssh-rsa'' @ STORE32H (of_nat (length s)) @ s"
  shows "signature_type_from_name (str ''ssh-rsa'') \<noteq> DROPBEAR_SIGNATURE_NONE \<and> buf_verify sg b key (signature_type_from_name (str ''ssh-rsa'')) data = Inl Assert_fail"
proof -
  have type: "signature_type_from_name (str ''ssh-rsa'') = 0" by (simp add: signature_type_from_name_def) (simp add: str_def)
  have 1: "buf_getint b = Inr (len, adv b 4)" using int_codec.get_wire [OF assms(1) _ assms(7)] by simp
  have ok1: "buf_ok (adv b 4)" "buf_rest (adv b 4) = STORE32H 7 @ str ''ssh-rsa'' @ STORE32H (of_nat (length s)) @ s"
    using buf_ok_adv [OF assms(1), of 4] buf_rest_adv [OF assms(1), of 4] assms(7) by simp_all
  have 2: "buf_getstring (adv b 4) = Inr (str ''ssh-rsa'', 7, adv b 15)" using getstring_lit [OF ok1(1), of "str ''ssh-rsa''"] ok1(2) by (simp add: adv_adv)
  have ok2: "buf_ok (adv b 15)" "buf_rest (adv b 15) = STORE32H (of_nat (length s)) @ s"
    using buf_ok_adv [OF ok1(1), of 11] buf_rest_adv [OF ok1(1), of 11] ok1(2) by (simp_all add: adv_adv)
  have 3: "buf_getint (adv b 15) = Inr (of_nat (length s), adv b 19)" using int_codec.get_wire [OF ok2(1), of "of_nat (length s)" s] ok2(2) by (simp add: adv_adv)
  have ok3: "buf_ok (adv b 19)" "buf_rest (adv b 19) = s"
    using buf_ok_adv [OF ok2(1), of 4] buf_rest_adv [OF ok2(1), of 4] ok2(2) by (simp_all add: adv_adv)
  have n: "unat (buf_len (adv b 19) - buf_pos (adv b 19)) = length s" using length_buf_rest [OF ok3(1)] ok3 by (simp add: unat_sub_if' buf_ok_def)
  have "buf_rsa_verify sg (adv b 15) k 0 data = Inl Assert_fail"
    using 3 n ok3 rd_rest [OF ok3(1), of "length s"] assms(4,6) by (simp add: buf_rsa_verify_def buf_getptr_eq rsa_pad_em_def)
  then show ?thesis using 1 2 type assms(2) by (simp add: buf_verify_def signkey_type_from_signature_def)
qed

definition sha1_packet :: buffer where
  "sha1_packet = (let bs = STORE32H 16 @ STORE32H 7 @ str ''ssh-rsa'' @ STORE32H 1 @ [5] in \<lparr>buf_data = bs, buf_len = 20, buf_pos = 0, buf_size = 20\<rparr>)"

theorem sha1_signature_name_aborts_witness:
  "buf_verify \<lparr>sg_sha256 = (\<lambda>d. replicate 32 0), sg_ed25519_verify = (\<lambda>d s p. False)\<rparr> sha1_packet (new_sign_key\<lparr>sk_rsakey := Some \<lparr>rk_e = 3, rk_n = 200\<rparr>\<rparr>)
     (signature_type_from_name (str ''ssh-rsa'')) [] = Inl Assert_fail"
proof -
  have "mp_ubin_size 200 = 1" by (simp add: mp_ubin_size_def mp_count_bits.simps)
  moreover have "buf_ok sha1_packet" "buf_rest sha1_packet = STORE32H 16 @ STORE32H 7 @ str ''ssh-rsa'' @ STORE32H (of_nat (length [5 :: byte])) @ [5]"
    by (simp_all add: sha1_packet_def Let_def buf_ok_def buf_rest_def)
  ultimately show ?thesis
    using sha1_signature_name_aborts [of sha1_packet "new_sign_key\<lparr>sk_rsakey := Some \<lparr>rk_e = 3, rk_n = 200\<rparr>\<rparr>" "\<lparr>rk_e = 3, rk_n = 200\<rparr>" "[5]" 16] by (simp add: mp_from_ubin_def)
qed

end
