(* ===== verification/Auth.thy ===== *)
theory Auth
  imports Authkeys Signkey Channel
begin

text \<open>
  User authentication: src/dropbear/src/svr-auth.c, src/dropbear/src/svr-authpasswd.c, the handler of public keys of src/dropbear/src/svr-authpubkey.c,
  \<^verbatim>\<open>fill_passwd\<close> of src/dropbear/src/common-session.c and src/dropbear/src/svr-service.c. What the system answers is a parameter: the accounts,
  \<^verbatim>\<open>crypt\<close>, the groups, the shells, the calls that change the user, and the files of the user.
\<close>

section \<open>The state and the system\<close>

record passwd =
  pwd_name :: "byte list"
  pwd_uid :: int
  pwd_gid :: int
  pwd_dir :: "byte list"
  pwd_shell :: "byte list"
  pwd_passwd :: "byte list option"

text \<open>
  \<open>ae_getspnam\<close> is \<open>None\<close> where there is no shadow file at all. \<open>ae_grouplist\<close> is \<open>None\<close> for a user with more than \<^verbatim>\<open>DROPBEAR_NGROUP_MAX\<close> groups.
  \<open>ae_setgid\<close> tells whether \<^verbatim>\<open>setgid\<close> and \<^verbatim>\<open>initgroups\<close> succeed, \<open>ae_elapsed\<close> is the time in nanoseconds that a request has taken when it fails.
\<close>

record auth_env =
  ae_prims :: primitives
  ae_opts :: svr_runopts
  ae_getpwnam :: "byte list \<Rightarrow> passwd option"
  ae_getspnam :: "(byte list \<Rightarrow> byte list option) option"
  ae_crypt :: "byte list \<Rightarrow> byte list \<Rightarrow> byte list option"
  ae_grouplist :: "byte list \<Rightarrow> int \<Rightarrow> int list option"
  ae_shells :: "byte list list"
  ae_euid :: int
  ae_uid :: int
  ae_setgid :: bool
  ae_setuid :: bool
  ae_utmp_gid :: "int option"
  ae_setresgid :: bool
  ae_files :: key_files
  ae_sig :: sig_env
  ae_elapsed :: int

text \<open>
  The session, the banner of \<^verbatim>\<open>svr_opts\<close> that is still to be sent, \<^verbatim>\<open>svr_ses.childpipe\<close>, \<^verbatim>\<open>ses.allowprivport\<close>, \<^verbatim>\<open>svr_ses.utmp_gid\<close> if there is one,
  and the clock of \<^verbatim>\<open>gettime_wrapper\<close> in nanoseconds.
\<close>

record auth_ctx =
  ac_ses :: sshsession
  ac_banner :: "byte list option"
  ac_childpipe :: int
  ac_allowprivport :: bool
  ac_utmp_gid :: "int option"
  ac_now :: int

abbreviation AUTH_TYPE_PUBKEY :: byte where "AUTH_TYPE_PUBKEY \<equiv> 2"
abbreviation AUTH_TYPE_PASSWORD :: byte where "AUTH_TYPE_PASSWORD \<equiv> 4"
abbreviation MAX_USERNAME_LEN :: nat where "MAX_USERNAME_LEN \<equiv> 100"
abbreviation DROPBEAR_MAX_PASSWORD_LEN :: nat where "DROPBEAR_MAX_PASSWORD_LEN \<equiv> 100"
abbreviation MAX_PUBKEY_QUERIES :: int where "MAX_PUBKEY_QUERIES \<equiv> 15"

abbreviation au_of :: "auth_ctx \<Rightarrow> AuthState" where "au_of c \<equiv> authstate (ac_ses c)"

definition upd_auth :: "(AuthState \<Rightarrow> AuthState) \<Rightarrow> auth_ctx \<Rightarrow> auth_ctx" where
  "upd_auth f c = c\<lparr>ac_ses := (ac_ses c)\<lparr>authstate := f (au_of c)\<rparr>\<rparr>"

definition in_ses :: "(sshsession \<Rightarrow> ('v \<times> sshsession) res) \<Rightarrow> auth_ctx \<Rightarrow> ('v \<times> auth_ctx) res" where
  "in_ses f c = rbind (f (ac_ses c)) (\<lambda>(v, s). Inr (v, c\<lparr>ac_ses := s\<rparr>))"

definition on_ses :: "(sshsession \<Rightarrow> sshsession res) \<Rightarrow> auth_ctx \<Rightarrow> auth_ctx res" where
  "on_ses f c = rbind (f (ac_ses c)) (\<lambda>s. Inr (c\<lparr>ac_ses := s\<rparr>))"

text \<open>A message that is filled and sent.\<close>

definition auth_send :: "auth_env \<Rightarrow> field list \<Rightarrow> auth_ctx \<Rightarrow> auth_ctx res" where
  "auth_send ae fs c = on_ses (\<lambda>s. rbind (put_fields fs s) (encrypt_packet (ae_prims ae))) c"

definition svr_authinitialise :: "auth_env \<Rightarrow> auth_ctx \<Rightarrow> auth_ctx" where
  "svr_authinitialise ae c = upd_auth (\<lambda>au. authstate_zero\<lparr>au_authtypes := (if so_noauthpass (ae_opts ae) then AUTH_TYPE_PUBKEY
     else AUTH_TYPE_PUBKEY OR AUTH_TYPE_PASSWORD)\<rparr>) c"

definition send_msg_userauth_banner :: "auth_env \<Rightarrow> byte list \<Rightarrow> auth_ctx \<Rightarrow> auth_ctx res" where
  "send_msg_userauth_banner ae banner c = auth_send ae [F_byte SSH_MSG_USERAUTH_BANNER, F_str banner, F_str (str ''en'')] c"

section \<open>Failure\<close>

text \<open>
  The time to sleep, as seconds and nanoseconds, from the time the request came, the time now and a random number. The differences of the two parts are taken
  apart and a borrow is put right.
\<close>

abbreviation ns_per_s :: int where "ns_per_s \<equiv> 1000000000"

definition failure_delay :: "int \<Rightarrow> int \<Rightarrow> u32 \<Rightarrow> int \<times> int" where
  "failure_delay starttime now rand = (let sec = now div ns_per_s - starttime div ns_per_s; nsec = now mod ns_per_s - starttime mod ns_per_s;
     (sec, nsec) = (if nsec < 0 then (sec - 1, nsec + ns_per_s) else (sec, nsec));
     rand_delay = int (250000000 + unat rand mod 100000000) in
     if sec = 0 \<and> nsec \<le> rand_delay then (sec, rand_delay - nsec) else (0, rand_delay))"

text \<open>The names of the methods that can go on.\<close>

definition auth_methods :: "byte \<Rightarrow> byte list" where
  "auth_methods authtypes = (if authtypes AND AUTH_TYPE_PUBKEY \<noteq> 0
     then str ''publickey'' @ (if authtypes AND AUTH_TYPE_PASSWORD \<noteq> 0 then str '','' else []) else [])
     @ (if authtypes AND AUTH_TYPE_PASSWORD \<noteq> 0 then str ''password'' else [])"

definition send_msg_userauth_failure :: "auth_env \<Rightarrow> bool \<Rightarrow> bool \<Rightarrow> auth_ctx \<Rightarrow> auth_ctx res" where
  "send_msg_userauth_failure ae part incrfail c =
     rbind (auth_send ae [F_byte SSH_MSG_USERAUTH_FAILURE, F_str (auth_methods (au_authtypes (au_of c))), F_byte (if part then 1 else 0)] c) (\<lambda>c.
     let c = (if incrfail then
           (case genrandom (ae_prims ae) 4 (ac_ses c) of (bs, s) \<Rightarrow>
            let now = ac_now c + ae_elapsed ae; (sec, nsec) = failure_delay (au_starttime (au_of c)) now (LOAD32H bs) in
            upd_auth (\<lambda>au. au\<lparr>au_failcount := au_failcount au + 1\<rparr>) (c\<lparr>ac_ses := s, ac_now := now + sec * ns_per_s + nsec\<rparr>))
         else c) in
     if au_failcount (au_of c) > so_maxauthtries (ae_opts ae) then Inl (Exit ''Max auth tries reached - user %s'')
     else Inr c)"

section \<open>Success\<close>

definition svr_switch_user :: "auth_env \<Rightarrow> auth_ctx \<Rightarrow> auth_ctx res" where
  "svr_switch_user ae c = (if \<not> au_authdone (au_of c) then Inl Assert_fail
     else case au_pw_name (au_of c) of None \<Rightarrow> Inl Mem_fault
     | Some name \<Rightarrow> if name = str ''root'' then Inr c
       else if ae_uid ae = 0 then
         if \<not> ae_setgid ae then Inl (Exit ''Error changing user group'')
         else let c = (if ae_utmp_gid ae \<noteq> None then c\<lparr>ac_utmp_gid := (if ae_setresgid ae then ae_utmp_gid ae else ac_utmp_gid c)\<rparr> else c) in
           if \<not> ae_setuid ae then Inl (Exit ''Error changing user'') else Inr c
       else if ae_uid ae \<noteq> au_pw_uid (au_of c) then Inl (Exit ''Couldn't change user as non-root'') else Inr c)"

definition send_msg_userauth_success :: "auth_env \<Rightarrow> auth_ctx \<Rightarrow> auth_ctx res" where
  "send_msg_userauth_success ae c = rbind (auth_send ae [F_byte SSH_MSG_USERAUTH_SUCCESS] c) (\<lambda>c.
     rbind (svr_switch_user ae (upd_auth (\<lambda>au. au\<lparr>au_authdone := True\<rparr>) c)) (\<lambda>c.
     on_ses (m_close (ac_childpipe c)) (c\<lparr>ac_allowprivport := True\<rparr>)))"

section \<open>The account\<close>

definition fill_passwd :: "auth_env \<Rightarrow> byte list \<Rightarrow> AuthState \<Rightarrow> AuthState" where
  "fill_passwd ae username au =
     (let au = au\<lparr>au_pw_name := None, au_pw_dir := None, au_pw_shell := None, au_pw_passwd := None\<rparr> in
      if username = str ''root'' then au\<lparr>au_pw_uid := 0, au_pw_gid := 0, au_pw_name := Some (str ''root''), au_pw_dir := Some (str ''/data/dropbear''),
          au_pw_shell := Some (str ''/bin/sh''), au_pw_passwd := Some (str ''!!'')\<rparr>
      else case ae_getpwnam ae username of None \<Rightarrow> au
      | Some pw \<Rightarrow>
          let passwd_crypt = (case ae_getspnam ae of None \<Rightarrow> pwd_passwd pw
                | Some getspnam \<Rightarrow> if pwd_passwd pw = Some (str ''x'') then Some (case getspnam (pwd_name pw) of Some s \<Rightarrow> s | None \<Rightarrow> str ''!!'') else pwd_passwd pw);
              passwd_crypt = (case passwd_crypt of None \<Rightarrow> str ''!!'' | Some s \<Rightarrow> s) in
          au\<lparr>au_pw_uid := pwd_uid pw, au_pw_gid := pwd_gid pw, au_pw_name := Some (pwd_name pw), au_pw_dir := Some (pwd_dir pw),
             au_pw_shell := Some (pwd_shell pw), au_pw_passwd := Some passwd_crypt\<rparr>)"

definition check_group_membership :: "auth_env \<Rightarrow> int \<Rightarrow> byte list \<Rightarrow> int \<Rightarrow> bool" where
  "check_group_membership ae check_gid username user_gid = (case ae_grouplist ae username user_gid of None \<Rightarrow> False | Some gs \<Rightarrow> check_gid \<in> set gs)"

text \<open>The checks of an account that exists, behind those that are answered from \<^verbatim>\<open>checkusername_failed\<close>.\<close>

definition account_ok :: "auth_env \<Rightarrow> byte list \<Rightarrow> AuthState \<Rightarrow> bool" where
  "account_ok ae name au = (if name = str ''root'' then \<not> so_norootlogin (ae_opts ae)
     else if ae_euid ae \<noteq> 0 \<and> ae_euid ae \<noteq> au_pw_uid au then False
     else if so_norootlogin (ae_opts ae) \<and> au_pw_uid au = 0 then False
     else if (case so_restrict_group_gid (ae_opts ae) of Some gid \<Rightarrow> \<not> check_group_membership ae gid name (au_pw_gid au) | None \<Rightarrow> False) then False
     else let usershell = (if au_pw_shell au = Some [] then Some (str ''/bin/sh'') else au_pw_shell au) in
       list_ex (\<lambda>listshell. Some listshell = usershell) (ae_shells ae))"

text \<open>The first request of a session fills in the account, later ones have to name the same user.\<close>

definition set_username :: "auth_env \<Rightarrow> byte list \<Rightarrow> auth_ctx \<Rightarrow> auth_ctx res" where
  "set_username ae username c = (case au_username (au_of c) of
       None \<Rightarrow> Inr (upd_auth (\<lambda>au. (fill_passwd ae username au)\<lparr>au_username := Some username\<rparr>) c)
     | Some name \<Rightarrow> if username \<noteq> name then Inl (Exit ''Client trying multiple usernames'') else Inr c)"

definition check_account :: "auth_env \<Rightarrow> auth_ctx \<Rightarrow> bool \<times> auth_ctx" where
  "check_account ae c = (if au_checkusername_failed (au_of c) then (False, c)
     else case au_pw_name (au_of c) of
       None \<Rightarrow> (False, upd_auth (\<lambda>au. au\<lparr>au_checkusername_failed := True\<rparr>) c)
     | Some name \<Rightarrow> if account_ok ae name (au_of c) then (True, c)
         else (False, upd_auth (\<lambda>au. au\<lparr>au_checkusername_failed := True\<rparr>) c))"

definition checkusername :: "auth_env \<Rightarrow> byte list \<Rightarrow> auth_ctx \<Rightarrow> (bool \<times> auth_ctx) res" where
  "checkusername ae username c = (if length username > MAX_USERNAME_LEN then Inr (False, c)
     else if 0 \<in> set username then Inl (Exit ''Attempted username with a null byte'')
     else rbind (set_username ae username c) (\<lambda>c. Inr (check_account ae c)))"

section \<open>Passwords\<close>

definition constant_time_strcmp :: "byte list \<Rightarrow> byte list \<Rightarrow> bool res" where
  "constant_time_strcmp a b = (if length a \<noteq> length b then Inr False else rbind (constant_time_memcmp a b (length a)) (\<lambda>d. Inr (d = 0)))"

definition getstr :: "auth_ctx \<Rightarrow> (byte list \<times> auth_ctx) res" where
  "getstr = in_ses (from_payload (\<lambda>b. rbind (buf_getstring b) (\<lambda>(s, l, b). Inr (s, b))))"

text \<open>A string of C ends at its first null byte, as \<^verbatim>\<open>crypt\<close> takes the password.\<close>

definition c_str :: "byte list \<Rightarrow> byte list" where
  "c_str s = takeWhile (\<lambda>b. b \<noteq> 0) s"

definition check_password :: "auth_env \<Rightarrow> byte list \<Rightarrow> auth_ctx \<Rightarrow> auth_ctx res" where
  "check_password ae password c = (if length password > DROPBEAR_MAX_PASSWORD_LEN then send_msg_userauth_failure ae False True c
     else case au_pw_passwd (au_of c) of None \<Rightarrow> Inl Mem_fault
     | Some passwdcrypt \<Rightarrow> (case ae_crypt ae (c_str password) passwdcrypt of
         None \<Rightarrow> send_msg_userauth_failure ae False True c
       | Some testcrypt \<Rightarrow>
           if passwdcrypt = [] then send_msg_userauth_failure ae False True c
           else rbind (constant_time_strcmp testcrypt passwdcrypt) (\<lambda>same.
             if same then
               if so_multiauthmethod (ae_opts ae) \<and> au_authtypes (au_of c) AND NOT AUTH_TYPE_PASSWORD \<noteq> 0
               then send_msg_userauth_failure ae True False (upd_auth (\<lambda>au. au\<lparr>au_authtypes := au_authtypes au AND NOT AUTH_TYPE_PASSWORD\<rparr>) c)
               else send_msg_userauth_success ae c
             else send_msg_userauth_failure ae False True c)))"

definition svr_auth_password :: "auth_env \<Rightarrow> bool \<Rightarrow> auth_ctx \<Rightarrow> auth_ctx res" where
  "svr_auth_password ae valid_user c = rbind (in_ses (from_payload buf_getbool) c) (\<lambda>(changepw, c).
     if changepw \<noteq> 0 then send_msg_userauth_failure ae False True c
     else rbind (getstr c) (\<lambda>(password, c).
       if valid_user \<and> au_pw_name (au_of c) = Some (str ''root'') \<and> password = str ''root'' then send_msg_userauth_success ae c
       else if \<not> valid_user then send_msg_userauth_failure ae False True c
       else check_password ae password c))"

section \<open>Public keys\<close>

definition send_msg_userauth_pk_ok :: "auth_env \<Rightarrow> byte list \<Rightarrow> byte list \<Rightarrow> auth_ctx \<Rightarrow> auth_ctx res" where
  "send_msg_userauth_pk_ok ae sigalgo keyblob c = auth_send ae [F_byte SSH_MSG_USERAUTH_PK_OK, F_str sigalgo, F_str keyblob] c"

text \<open>What is signed: the session identifier as a string, and the payload from its beginning up to the signature.\<close>

definition signed_data :: "sshsession \<Rightarrow> byte list res" where
  "signed_data ses = (case (session_id ses, payload ses) of
       (Some sid, Some p) \<Rightarrow>
         if payload_beginning ses > buf_pos p then Inl Assert_fail
         else let sign_payload_length = buf_pos p - payload_beginning ses in
           rbind (rd_mem (buf_data sid) 0 (unat (buf_len sid))) (\<lambda>ident.
           rbind (rd_mem (buf_data p) (unat (payload_beginning ses)) (unat sign_payload_length)) (\<lambda>bs.
           Inr (STORE32H (buf_len sid) @ ident @ bs)))
     | _ \<Rightarrow> Inl Mem_fault)"

definition sk_mask :: "PubKeyOptions \<Rightarrow> byte" where
  "sk_mask po = (let m = (if po_no_touch_required_flag po then 0 else SSH_SK_USER_PRESENCE_REQD) in
     if po_verify_required_flag po then m OR SSH_SK_USER_VERIFICATION_REQD else m)"

text \<open>The key has been found in the file: the signature is checked and the session authenticated. The payload is not used again behind the signature.\<close>

definition verify_key :: "auth_env \<Rightarrow> int \<Rightarrow> int \<Rightarrow> PubKeyOptions \<Rightarrow> auth_ctx \<Rightarrow> auth_ctx res" where
  "verify_key ae sigtype keytype po c = (case payload (ac_ses c) of None \<Rightarrow> Inl Mem_fault | Some p \<Rightarrow>
     rbind (buf_get_pub_key p new_sign_key keytype) (\<lambda>(ret, key, keytype, p).
     let c = c\<lparr>ac_ses := (ac_ses c)\<lparr>payload := Some p\<rparr>\<rparr> in
     if \<not> ret then send_msg_userauth_failure ae False True c
     else rbind (signed_data (ac_ses c)) (\<lambda>signbuf.
       rbind (buf_verify (ae_sig ae) p (key\<lparr>sk_flags_mask := sk_mask po\<rparr>) sigtype signbuf) (\<lambda>good.
       if good then
         let c = (if au_pubkey_options (au_of c) = None then upd_auth (\<lambda>au. au\<lparr>au_pubkey_options := Some po\<rparr>) c else c) in
         if so_multiauthmethod (ae_opts ae) \<and> au_authtypes (au_of c) AND NOT AUTH_TYPE_PUBKEY \<noteq> 0
         then send_msg_userauth_failure ae True False (upd_auth (\<lambda>au. au\<lparr>au_authtypes := au_authtypes au AND NOT AUTH_TYPE_PUBKEY\<rparr>) c)
         else send_msg_userauth_success ae c
       else send_msg_userauth_failure ae False True c))))"

text \<open>The key blob is read where it stands, without moving the position.\<close>

definition svr_auth_pubkey :: "auth_env \<Rightarrow> bool \<Rightarrow> auth_ctx \<Rightarrow> auth_ctx res" where
  "svr_auth_pubkey ae valid_user c = rbind (in_ses (from_payload buf_getbool) c) (\<lambda>(really, c).
     rbind (getstr c) (\<lambda>(sigalgo, c).
     rbind (in_ses (from_payload buf_getint) c) (\<lambda>(keybloblen, c).
     case payload (ac_ses c) of None \<Rightarrow> Inl Mem_fault | Some p \<Rightarrow>
     rbind (buf_getptr p keybloblen) (\<lambda>at. rbind (rd_mem (buf_data p) at (unat keybloblen)) (\<lambda>keyblob.
     if \<not> valid_user then send_msg_userauth_failure ae False False c
     else let sigtype = signature_type_from_name sigalgo in
       if sigtype = DROPBEAR_SIGNATURE_NONE then send_msg_userauth_failure ae False False c
       else rbind (signkey_type_from_signature sigtype) (\<lambda>keytype. rbind (signkey_name_from_type keytype) (\<lambda>keyalgo.
         rbind (checkpubkey (ae_files ae) (ae_opts ae) keyalgo keyblob (au_of c)) (\<lambda>(options, au).
         let c = upd_auth (\<lambda>_. au) c in
         case options of
           None \<Rightarrow>
             let free_query_limit = nat (max 0 (MAX_PUBKEY_QUERIES - sint (so_maxauthtries (ae_opts ae))));
                 incrfail = (unat (au_pubkey_query_count (au_of c)) \<ge> free_query_limit) in
             rbind (send_msg_userauth_failure ae False incrfail c) (\<lambda>c.
             Inr (upd_auth (\<lambda>au. au\<lparr>au_pubkey_query_count := au_pubkey_query_count au + 1\<rparr>) c))
         | Some po \<Rightarrow> if really = 0 then send_msg_userauth_pk_ok ae sigalgo keyblob c else verify_key ae sigtype keytype po c))))))))"

section \<open>Requests\<close>

text \<open>The part of \<^verbatim>\<open>recv_msg_userauth_request\<close> behind the check of the user name.\<close>

definition try_method :: "auth_env \<Rightarrow> byte list \<Rightarrow> bool \<Rightarrow> auth_ctx \<Rightarrow> auth_ctx res" where
  "try_method ae methodname valid_user c = (let opts = ae_opts ae; password_allowed = (\<not> so_noauthpass opts \<and> \<not> (so_norootpass opts \<and> au_pw_uid (au_of c) = 0)) in
     if methodname = str ''none'' then
       if valid_user \<and> so_allowblankpass opts \<and> password_allowed \<and> au_pw_passwd (au_of c) = Some []
       then send_msg_userauth_success ae c else send_msg_userauth_failure ae False False c
     else if password_allowed \<and> methodname = str ''password'' then svr_auth_password ae valid_user c
     else if methodname = str ''publickey'' then svr_auth_pubkey ae valid_user c
     else send_msg_userauth_failure ae False True c)"

definition recv_msg_userauth_request :: "auth_env \<Rightarrow> auth_ctx \<Rightarrow> auth_ctx res" where
  "recv_msg_userauth_request ae c = (let c = upd_auth (\<lambda>au. au\<lparr>au_starttime := ac_now c\<rparr>) c in
     if au_authdone (au_of c) then Inr c
     else rbind (case ac_banner c of None \<Rightarrow> Inr c | Some b \<Rightarrow> rbind (send_msg_userauth_banner ae b c) (\<lambda>c. Inr (c\<lparr>ac_banner := None\<rparr>))) (\<lambda>c.
       rbind (getstr c) (\<lambda>(username, c). rbind (getstr c) (\<lambda>(servicename, c). rbind (getstr c) (\<lambda>(methodname, c).
       if servicename \<noteq> str ''ssh-connection'' then Inl (Exit ''unknown service in auth'')
       else rbind (checkusername ae username c) (\<lambda>(valid_user, c). try_method ae methodname valid_user c))))))"

definition send_msg_service_accept :: "auth_env \<Rightarrow> byte list \<Rightarrow> auth_ctx \<Rightarrow> auth_ctx res" where
  "send_msg_service_accept ae name c = auth_send ae [F_byte SSH_MSG_SERVICE_ACCEPT, F_str name] c"

definition recv_msg_service_request :: "auth_env \<Rightarrow> auth_ctx \<Rightarrow> auth_ctx res" where
  "recv_msg_service_request ae c = rbind (getstr c) (\<lambda>(name, c).
     if name = str ''ssh-userauth'' then send_msg_service_accept ae name c
     else if name = str ''ssh-connection'' then
       if \<not> au_authdone (au_of c) then Inl (Exit ''Request for connection before auth'') else send_msg_service_accept ae name c
     else Inl (Exit ''Unrecognised SSH_MSG_SERVICE_REQUEST''))"

unbundle bit_operations_syntax

section \<open>What sending leaves as it is\<close>

definition keeps_auth :: "sshsession \<Rightarrow> sshsession \<Rightarrow> bool" where
  "keeps_auth s s' \<longleftrightarrow> authstate s' = authstate s \<and> payload s' = payload s \<and> payload_beginning s' = payload_beginning s \<and> session_id s' = session_id s"

lemma keeps_auth_refl [simp]: "keeps_auth s s"
  by (simp add: keeps_auth_def)

lemma keeps_auth_trans: "keeps_auth s t \<Longrightarrow> keeps_auth t u \<Longrightarrow> keeps_auth s u"
  by (simp add: keeps_auth_def)

lemma app_same_auth: "app_same s s' \<Longrightarrow> keeps_auth s s'"
  by (simp add: app_same_def keeps_auth_def)

lemmas put_fields_keeps = app_same_auth [OF put_fields_same]
lemmas encrypt_packet_keeps = app_same_auth [OF encrypt_packet_same]

lemma auth_send_keeps: "auth_send ae fs c = Inr c' \<Longrightarrow> keeps_auth (ac_ses c) (ac_ses c') \<and> ac_now c' = ac_now c"
  by (auto simp: auth_send_def on_ses_def dest!: put_fields_keeps encrypt_packet_keeps intro: keeps_auth_trans)

lemma in_payload:
  assumes "in_ses (from_payload f) c = Inr (v, c')"
  shows "\<exists>b b'. payload (ac_ses c) = Some b \<and> f b = Inr (v, b') \<and> c' = c\<lparr>ac_ses := (ac_ses c)\<lparr>payload := Some b'\<rparr>\<rparr>"
  using assms by (auto simp: in_ses_def from_payload_def split: option.splits)

text \<open>The effect of the answers on the state of the authentication.\<close>

lemma failure_effect:
  assumes "send_msg_userauth_failure ae part incrfail c = Inr c'"
  shows "au_of c' = (au_of c)\<lparr>au_failcount := au_failcount (au_of c) + (if incrfail then 1 else 0)\<rparr>" and "au_failcount (au_of c') \<le> so_maxauthtries (ae_opts ae)"
  using assms by (auto simp: send_msg_userauth_failure_def Let_def genrandom_def upd_auth_def keeps_auth_def not_less split: if_splits prod.splits dest!: auth_send_keeps)

lemma switch_user_ses: "svr_switch_user ae c = Inr c' \<Longrightarrow> ac_ses c' = ac_ses c"
  by (auto simp: svr_switch_user_def Let_def split: if_splits option.splits)

lemma m_close_auth: "m_close fd s = Inr s' \<Longrightarrow> authstate s' = authstate s"
  by (auto simp: m_close_def close_fd_def split: if_splits)

lemma success_effect: "send_msg_userauth_success ae c = Inr c' \<Longrightarrow> au_of c' = (au_of c)\<lparr>au_authdone := True\<rparr>"
proof -
  assume "send_msg_userauth_success ae c = Inr c'"
  then obtain c1 c2 where "auth_send ae [F_byte SSH_MSG_USERAUTH_SUCCESS] c = Inr c1" "svr_switch_user ae (upd_auth (\<lambda>au. au\<lparr>au_authdone := True\<rparr>) c1) = Inr c2"
    "m_close (ac_childpipe c2) (ac_ses c2) = Inr (ac_ses c')"
    by (auto simp: send_msg_userauth_success_def on_ses_def)
  then have "au_of c1 = au_of c" "ac_ses c2 = ac_ses (upd_auth (\<lambda>au. au\<lparr>au_authdone := True\<rparr>) c1)" "au_of c' = au_of c2"
    using auth_send_keeps switch_user_ses m_close_auth by (auto simp: keeps_auth_def)
  then show ?thesis by (simp add: upd_auth_def)
qed

text \<open>Reading a field of the payload.\<close>

definition pay :: "auth_ctx \<Rightarrow> byte list \<Rightarrow> bool" where
  "pay c bs \<longleftrightarrow> (\<exists>b. payload (ac_ses c) = Some b \<and> buf_ok b \<and> buf_rest b = bs)"

definition has_payload :: "auth_ctx \<Rightarrow> buffer \<Rightarrow> bool" where
  "has_payload c b \<longleftrightarrow> payload (ac_ses c) = Some b \<and> buf_ok b"

definition same_but_payload :: "auth_ctx \<Rightarrow> auth_ctx \<Rightarrow> bool" where
  "same_but_payload c c' \<longleftrightarrow> (\<exists>p. c' = c\<lparr>ac_ses := (ac_ses c)\<lparr>payload := p\<rparr>\<rparr>)"

lemma same_but_payload_au: "same_but_payload c c' \<Longrightarrow> au_of c' = au_of c"
  by (auto simp: same_but_payload_def)

lemma field_read:
  assumes "in_ses (from_payload f) c = Inr (v, c')" and "has_payload c b" and "\<And>b'. f b = Inr (v, b') \<Longrightarrow> reads b w b'"
  shows "same_but_payload c c' \<and> (\<exists>b'. f b = Inr (v, b') \<and> has_payload c' b' \<and> reads b w b')"
  using in_payload [OF assms(1)] assms(2,3) reads_ok(2) by (auto simp: has_payload_def same_but_payload_def)

lemma getstr_field:
  assumes "getstr c = Inr (s, c')" and "has_payload c b"
  shows "same_but_payload c c' \<and> (\<exists>b'. has_payload c' b' \<and> reads b (field_wire (F_str s)) b')"
proof -
  have "reads b (field_wire (F_str s)) b'" if "rbind (buf_getstring b) (\<lambda>(s, l, b). Inr (s, b)) = Inr (s, b')" for b'
    using that assms(2) getstring_reads(1) by (auto simp: has_payload_def)
  from field_read [OF assms(1) [unfolded getstr_def] assms(2) this] show ?thesis by blast
qed

lemma getbool_field:
  assumes "in_ses (from_payload buf_getbool) c = Inr (v, c')" and "has_payload c b"
  shows "same_but_payload c c' \<and> (\<exists>x b'. has_payload c' b' \<and> reads b (field_wire (F_byte x)) b' \<and> (v = 0 \<longleftrightarrow> x = 0))"
proof -
  obtain b' where b': "buf_getbool b = Inr (v, b')" "c' = c\<lparr>ac_ses := (ac_ses c)\<lparr>payload := Some b'\<rparr>\<rparr>" using in_payload [OF assms(1)] assms(2) by (auto simp: has_payload_def)
  then obtain x where x: "buf_getbyte b = Inr (x, b')" "v = 0 \<longleftrightarrow> x = 0" by (auto simp: buf_getbool_def split: if_splits)
  then have "reads b (field_wire (F_byte x)) b'" using getbyte_reads assms(2) by (auto simp: has_payload_def)
  then show ?thesis using b'(2) x(2) reads_ok(2) by (auto simp: has_payload_def same_but_payload_def)
qed

lemma getint_field:
  assumes "in_ses (from_payload buf_getint) c = Inr (v, c')" and "has_payload c b"
  shows "same_but_payload c c' \<and> (\<exists>b'. has_payload c' b' \<and> reads b (STORE32H v) b')"
  using field_read [OF assms, of "STORE32H v"] getint_reads [of b v] assms(2) by (auto simp: has_payload_def)

section \<open>Who is let in\<close>

text \<open>What the file of keys and the checks of an account do not touch.\<close>

definition same_account :: "AuthState \<Rightarrow> AuthState \<Rightarrow> bool" where
  "same_account au au' \<longleftrightarrow> au_username au' = au_username au \<and> au_pw_name au' = au_pw_name au \<and> au_pw_uid au' = au_pw_uid au \<and> au_pw_gid au' = au_pw_gid au
     \<and> au_pw_dir au' = au_pw_dir au \<and> au_pw_shell au' = au_pw_shell au \<and> au_pw_passwd au' = au_pw_passwd au"

definition same_progress :: "AuthState \<Rightarrow> AuthState \<Rightarrow> bool" where
  "same_progress au au' \<longleftrightarrow> au_authdone au' = au_authdone au \<and> au_failcount au' = au_failcount au \<and> au_authtypes au' = au_authtypes au
     \<and> au_pubkey_query_count au' = au_pubkey_query_count au \<and> au_pubkey_options au' = au_pubkey_options au"

lemma same_refl [simp]: "same_account au au" "same_progress au au"
  by (simp_all add: same_account_def same_progress_def)

lemma same_trans: "same_account a b \<Longrightarrow> same_account b c \<Longrightarrow> same_account a c" "same_progress a b \<Longrightarrow> same_progress b c \<Longrightarrow> same_progress a c"
  by (simp_all add: same_account_def same_progress_def)

lemma perms_loop_warns: "snd (perms_loop kf path ret au) \<in> {au, au\<lparr>au_perm_warn := True\<rparr>}"
proof (induction kf path ret au rule: perms_loop.induct)
  case (1 kf path ret au)
  show ?case
  proof (cases "split_last slash path")
    case (Some p)
    obtain dir name where p: "p = (dir, name)" by fastforce
    obtain good au' where cf: "checkfileperm kf (if dir = [] then [slash] else dir) au = (good, au')" by fastforce
    have "au' \<in> {au, au\<lparr>au_perm_warn := True\<rparr>}" using cf by (auto simp: checkfileperm_def Let_def split: option.splits if_splits)
    then show ?thesis using 1 [OF Some p [symmetric] refl cf [symmetric]] Some p cf
      by (auto simp: perms_loop.simps [of kf path ret au] Let_def)
  qed (simp add: perms_loop.simps [of kf path ret au])
qed

lemma checkpubkey_same: "checkpubkey kf opts keyalgo blob au = Inr (po, au') \<Longrightarrow> same_account au au' \<and> same_progress au au'"
proof -
  assume "checkpubkey kf opts keyalgo blob au = Inr (po, au')"
  then have "au' = snd (checkpubkeyperms kf opts au)" by (cases "checkpubkeyperms kf opts au") (auto simp: checkpubkey_def split: bool.splits option.splits)
  then show ?thesis using perms_loop_warns [of kf "authorized_keys_filepath opts au" True au] by (auto simp: checkpubkeyperms_def same_account_def same_progress_def)
qed

lemma fill_passwd_same: "same_progress au (fill_passwd ae u au)"
  by (auto simp: fill_passwd_def same_progress_def Let_def split: option.splits)

text \<open>A user name that passes belongs to an account that may log in, and is the name of all requests.\<close>

definition only_auth :: "sshsession \<Rightarrow> sshsession \<Rightarrow> bool" where
  "only_auth s s' \<longleftrightarrow> (\<exists>au. s' = s\<lparr>authstate := au\<rparr>)"

lemma only_auth_simps [simp]: "only_auth s s" "only_auth s (s\<lparr>authstate := au\<rparr>)"
  unfolding only_auth_def by (rule exI [of _ "authstate s"], simp) auto

lemma set_username_effect:
  assumes "set_username ae username c = Inr c'"
  shows "only_auth (ac_ses c) (ac_ses c')" and "same_progress (au_of c) (au_of c')"
    and "au_username (au_of c') = Some username" and "au_username (au_of c) \<noteq> None \<Longrightarrow> c' = c"
  using assms fill_passwd_same [of "au_of c" ae username] by (auto simp: set_username_def upd_auth_def same_progress_def split: option.splits if_splits)

lemma check_account_effect:
  assumes "check_account ae c = (valid, c')"
  shows "only_auth (ac_ses c) (ac_ses c')" and "same_progress (au_of c) (au_of c')" and "same_account (au_of c) (au_of c')"
    and "valid \<Longrightarrow> \<exists>name. au_pw_name (au_of c') = Some name \<and> account_ok ae name (au_of c')"
  using assms by (auto simp: check_account_def upd_auth_def same_progress_def same_account_def split: option.splits if_splits)

lemma checkusername_effect:
  assumes "checkusername ae username c = Inr (valid, c')"
  shows "only_auth (ac_ses c) (ac_ses c')" and "same_progress (au_of c) (au_of c')"
    and "valid \<Longrightarrow> au_username (au_of c') = Some username \<and> (\<exists>name. au_pw_name (au_of c') = Some name \<and> account_ok ae name (au_of c'))"
proof -
  have "(only_auth (ac_ses c) (ac_ses c')) \<and> same_progress (au_of c) (au_of c') \<and>
    (valid \<longrightarrow> au_username (au_of c') = Some username \<and> (\<exists>name. au_pw_name (au_of c') = Some name \<and> account_ok ae name (au_of c')))"
  proof (cases "length username > MAX_USERNAME_LEN")
    case True
    then show ?thesis using assms by (simp add: checkusername_def)
  next
    case False
    then obtain c1 where c1: "set_username ae username c = Inr c1" "check_account ae c1 = (valid, c')" using assms by (auto simp: checkusername_def split: if_splits)
    note u = set_username_effect [OF c1(1)] check_account_effect [OF c1(2)]
    have "only_auth (ac_ses c) (ac_ses c')" using u(1,5) by (auto simp: only_auth_def)
    moreover have "au_username (au_of c') = Some username" using u(3,7) by (simp add: same_account_def)
    ultimately show ?thesis using u(6,8) same_trans(2) [OF u(2,6)] by blast
  qed
  then show "only_auth (ac_ses c) (ac_ses c')" "same_progress (au_of c) (au_of c')"
    "valid \<Longrightarrow> au_username (au_of c') = Some username \<and> (\<exists>name. au_pw_name (au_of c') = Some name \<and> account_ok ae name (au_of c'))" by blast+
qed

text \<open>
  What proves a user. A password is the one of the account, or the fixed one of the console. A public key is one of the file of the account, and the payload carries
  a signature by it of the session identifier and the request.
\<close>

definition password_allowed :: "auth_env \<Rightarrow> AuthState \<Rightarrow> bool" where
  "password_allowed ae au \<longleftrightarrow> \<not> so_noauthpass (ae_opts ae) \<and> \<not> (so_norootpass (ae_opts ae) \<and> au_pw_uid au = 0)"

definition password_good :: "auth_env \<Rightarrow> AuthState \<Rightarrow> byte list \<Rightarrow> bool" where
  "password_good ae au pw \<longleftrightarrow> au_pw_name au = Some (str ''root'') \<and> pw = str ''root'' \<or>
     length pw \<le> DROPBEAR_MAX_PASSWORD_LEN \<and> (\<exists>stored. au_pw_passwd au = Some stored \<and> stored \<noteq> [] \<and> ae_crypt ae (c_str pw) stored = Some stored)"

text \<open>
  A public key. Behind the name of the method, in \<open>bs\<close>, the request names a signature algorithm and a key blob, and \<^verbatim>\<open>checkpubkey\<close> finds that blob among the keys of the account. From the place of
  the blob on there are a key and a signature under it, both as they are on the wire. What is signed is the session identifier as a string, followed by the request from its type byte up to the
  end of the key, the data that RFC 4252 prescribes in its section 7.
\<close>

definition key_proven :: "auth_env \<Rightarrow> AuthState \<Rightarrow> byte list \<Rightarrow> byte list \<Rightarrow> byte list \<Rightarrow> bool" where
  "key_proven ae au sid request bs \<longleftrightarrow> (\<exists>r sigalgo keyblob rest po au' keyw sigw.
     bs = message [F_byte r, F_str sigalgo, F_str keyblob] @ rest \<and> r \<noteq> 0
     \<and> checkpubkey (ae_files ae) (ae_opts ae) (if sigalgo = str ''rsa-sha2-256'' then str ''ssh-rsa'' else sigalgo) keyblob au = Inr (Some po, au')
     \<and> keyblob @ rest = keyw @ sigw
     \<and> signed_by (ae_sig ae) (\<not> po_no_touch_required_flag po) (po_verify_required_flag po) sigalgo keyw
         (message [F_str sid, F_byte SSH_MSG_USERAUTH_REQUEST] @ request @ message [F_byte r, F_str sigalgo, F_int (of_nat (length keyblob))] @ keyw) sigw)"

lemma strcmp_eq: "constant_time_strcmp a b = Inr same \<Longrightarrow> same \<longleftrightarrow> a = b"
  using constant_time_memcmp_eq [of "length a" a b] by (auto simp: constant_time_strcmp_def split: if_splits)

lemma check_password_done:
  assumes "check_password ae pw c = Inr c'" and "\<not> au_authdone (au_of c)" and "au_authdone (au_of c')"
  shows "password_good ae (au_of c) pw \<and> same_account (au_of c) (au_of c')"
proof -
  have fail: False if "send_msg_userauth_failure ae p i d = Inr c'" "\<not> au_authdone (au_of d)" for p i d
    using failure_effect(1) [OF that(1)] that(2) assms(3) by simp
  obtain stored test where s: "au_pw_passwd (au_of c) = Some stored" "ae_crypt ae (c_str pw) stored = Some test" "stored \<noteq> []" "length pw \<le> DROPBEAR_MAX_PASSWORD_LEN"
    using assms(1,2) fail [of False True c] by (auto simp: check_password_def not_less split: if_splits option.splits)
  then obtain same where same: "constant_time_strcmp test stored = Inr same" using assms(1) by (auto simp: check_password_def split: if_splits)
  have "same" "send_msg_userauth_success ae c = Inr c'"
    using assms(1,2) s same fail [of False True c]
      fail [of True False "upd_auth (\<lambda>au. au\<lparr>au_authtypes := au_authtypes au AND NOT AUTH_TYPE_PASSWORD\<rparr>) c"]
    by (auto simp: check_password_def upd_auth_def split: if_splits)
  then show ?thesis using s strcmp_eq [OF same] success_effect by (auto simp: password_good_def same_account_def)
qed

lemma failure_not_done: "send_msg_userauth_failure ae p i c = Inr c' \<Longrightarrow> au_authdone (au_of c') = au_authdone (au_of c)"
  using failure_effect(1) [of ae p i c c'] by simp

lemma password_request_done:
  assumes "svr_auth_password ae valid c = Inr c'" and "has_payload c b" and "\<not> au_authdone (au_of c)" and "au_authdone (au_of c')"
  shows "valid \<and> (\<exists>pw rest. buf_rest b = message [F_byte 0, F_str pw] @ rest \<and> password_good ae (au_of c) pw) \<and> same_account (au_of c) (au_of c')"
proof -
  obtain changepw c1 where c1: "in_ses (from_payload buf_getbool) c = Inr (changepw, c1)" using assms(1) by (auto simp: svr_auth_password_def)
  obtain x b1 where x: "reads b (field_wire (F_byte x)) b1" "has_payload c1 b1" "changepw = 0 \<longleftrightarrow> x = 0" and au1: "au_of c1 = au_of c"
    using getbool_field [OF c1 assms(2)] same_but_payload_au by blast
  have zero: "changepw = 0" using assms(1,3,4) c1 au1 failure_not_done [of ae False True c1 c'] by (auto simp: svr_auth_password_def split: if_splits)
  obtain pw c2 where c2: "getstr c1 = Inr (pw, c2)" using assms(1) c1 zero by (auto simp: svr_auth_password_def)
  obtain b2 where b2: "reads b1 (field_wire (F_str pw)) b2" and au2: "au_of c2 = au_of c" using getstr_field [OF c2 x(2)] same_but_payload_au au1 by metis
  have bs: "buf_rest b = message [F_byte 0, F_str pw] @ buf_rest b2" using reads_ok(3) [OF x(1)] reads_ok(3) [OF b2] x(3) zero by (simp add: message_def)
  show ?thesis
  proof (cases "valid \<and> au_pw_name (au_of c2) = Some (str ''root'') \<and> pw = str ''root''")
    case True
    then have "send_msg_userauth_success ae c2 = Inr c'" using assms(1) c1 c2 zero by (simp add: svr_auth_password_def)
    then show ?thesis using True bs au2 success_effect by (auto simp: password_good_def same_account_def)
  next
    case False
    then have "valid" using assms(1,3,4) c1 c2 zero au2 failure_not_done [of ae False True c2 c'] by (auto simp: svr_auth_password_def split: if_splits)
    moreover have "check_password ae pw c2 = Inr c'" using calculation False assms(1) c1 c2 zero by (auto simp: svr_auth_password_def split: if_splits)
    ultimately show ?thesis using check_password_done [of ae pw c2 c'] au2 assms(3,4) bs by auto
  qed
qed

lemma verify_key_done:
  assumes "verify_key ae sigtype keytype po c = Inr c'" and "\<not> au_authdone (au_of c)" and "au_authdone (au_of c')"
  shows "\<exists>b key type p data. payload (ac_ses c) = Some b \<and> buf_get_pub_key b new_sign_key keytype = Inr (True, key, type, p)
     \<and> signed_data ((ac_ses c)\<lparr>payload := Some p\<rparr>) = Inr data \<and> buf_verify (ae_sig ae) p (key\<lparr>sk_flags_mask := sk_mask po\<rparr>) sigtype data = Inr True"
    and "same_account (au_of c) (au_of c')"
proof -
  obtain b ret key type p where b: "payload (ac_ses c) = Some b" "buf_get_pub_key b new_sign_key keytype = Inr (ret, key, type, p)"
    using assms(1) by (auto simp: verify_key_def split: option.splits)
  let ?c = "c\<lparr>ac_ses := (ac_ses c)\<lparr>payload := Some p\<rparr>\<rparr>"
  have ret: "ret" using assms b failure_not_done [of ae False True ?c c'] by (auto simp: verify_key_def Let_def [of ?c] split: if_splits)
  obtain data good where d: "signed_data (ac_ses ?c) = Inr data" "buf_verify (ae_sig ae) p (key\<lparr>sk_flags_mask := sk_mask po\<rparr>) sigtype data = Inr good"
    using assms(1) b ret by (auto simp: verify_key_def Let_def)
  have good: "good" using assms b d ret failure_not_done [of ae False True ?c c'] by (auto simp: verify_key_def Let_def [of ?c] split: if_splits)
  let ?d = "if au_pubkey_options (au_of ?c) = None then upd_auth (\<lambda>au. au\<lparr>au_pubkey_options := Some po\<rparr>) ?c else ?c"
  have d': "\<not> au_authdone (au_of ?d)" "same_account (au_of c) (au_of ?d)" using assms(2) by (simp_all add: upd_auth_def same_account_def)
  have "send_msg_userauth_success ae ?d = Inr c'"
    using assms(1,3) b d good ret d'(1) failure_not_done [of ae True False "upd_auth (\<lambda>au. au\<lparr>au_authtypes := au_authtypes au AND NOT AUTH_TYPE_PUBKEY\<rparr>) ?d" c']
    by (auto simp: verify_key_def Let_def upd_auth_def split: if_splits)
  then show "same_account (au_of c) (au_of c')" using success_effect d'(2) by (auto simp: same_account_def)
  show "\<exists>b key type p data. payload (ac_ses c) = Some b \<and> buf_get_pub_key b new_sign_key keytype = Inr (True, key, type, p)
     \<and> signed_data ((ac_ses c)\<lparr>payload := Some p\<rparr>) = Inr data \<and> buf_verify (ae_sig ae) p (key\<lparr>sk_flags_mask := sk_mask po\<rparr>) sigtype data = Inr True"
    using b d good ret by auto
qed

text \<open>A handler finds the payload behind the byte of the message type, where \<^verbatim>\<open>payload_beginning\<close> points to.\<close>

definition begins :: "sshsession \<Rightarrow> buffer \<Rightarrow> bool" where
  "begins s b \<longleftrightarrow> unat (buf_pos b) = unat (payload_beginning s) + 1 \<and> buf_data b ! unat (payload_beginning s) = SSH_MSG_USERAUTH_REQUEST"

text \<open>The dispatcher reads the type where the payload begins, so a handler of such requests is called in that situation.\<close>

lemma dispatched_begins:
  assumes "buf_ok p" and "buf_pos p = payload_beginning s" and "buf_getbyte p = Inr (SSH_MSG_USERAUTH_REQUEST, p')"
  shows "begins s p'"
proof -
  have r: "p' = adv p 1" "buf_rest p = SSH_MSG_USERAUTH_REQUEST # buf_rest p'" using getbyte_reads [OF assms(1,3)] by (auto simp: reads_def)
  then have "rd_mem (buf_data p) (unat (buf_pos p)) 1 = Inr [SSH_MSG_USERAUTH_REQUEST]" using rd_rest [OF assms(1), of 1] by simp
  then have "buf_data p ! unat (payload_beginning s) = SSH_MSG_USERAUTH_REQUEST"
    using assms(2) hd_drop_conv_nth [of "unat (buf_pos p)" "buf_data p"] by (auto simp: rd_mem_def take_Suc split: if_splits)
  then show ?thesis using unat_pos_adv [OF assms(1), of 1] r assms(2) by (simp add: begins_def)
qed

lemma signed_data_wire:
  assumes "signed_data s = Inr data" and "payload s = Some p" and "begins s b" and "reads b w p"
  shows "\<exists>ident. session_id s = Some ident \<and> data = message [F_str (take (unat (buf_len ident)) (buf_data ident)), F_byte SSH_MSG_USERAUTH_REQUEST] @ w"
proof -
  let ?pb = "unat (payload_beginning s)"
  have p: "p = adv b (length w)" "buf_ok b" "buf_rest b = w @ buf_rest p" using assms(4) by (auto simp: reads_def)
  have pos: "unat (buf_pos p) = ?pb + 1 + length w" using unat_pos_adv [OF p(2), of "length w"] p assms(3) by (simp add: begins_def)
  then have len: "unat (buf_pos p - payload_beginning s) = 1 + length w" "\<not> payload_beginning s > buf_pos p" by (simp_all add: unat_sub_if' word_less_nat_alt)
  obtain ident where ident: "session_id s = Some ident" using assms(1,2) by (auto simp: signed_data_def split: option.splits)
  obtain i bs where i: "rd_mem (buf_data ident) 0 (unat (buf_len ident)) = Inr i" and bs: "rd_mem (buf_data p) ?pb (1 + length w) = Inr bs"
    and data: "data = STORE32H (buf_len ident) @ i @ bs"
    using assms(1,2) ident len by (auto simp: signed_data_def Let_def)
  have "i = take (unat (buf_len ident)) (buf_data ident)" "length i = unat (buf_len ident)" using i rd_mem_length [OF i] by (simp_all add: rd_mem_def split: if_splits)
  then have "STORE32H (buf_len ident) @ i = field_wire (F_str (take (unat (buf_len ident)) (buf_data ident)))" by simp
  moreover have "bs = SSH_MSG_USERAUTH_REQUEST # w"
  proof -
    have "rd_mem (buf_data b) (unat (buf_pos b)) (length w) = Inr w" using rd_rest [OF p(2), of "length w"] p(3) by simp
    then have "take (length w) (drop (Suc ?pb) (buf_data b)) = w" using assms(3) by (simp add: rd_mem_def begins_def split: if_splits)
    moreover have "bs = take (Suc (length w)) (drop ?pb (buf_data b))" "?pb < length (buf_data b)" using bs p(1) by (simp_all add: rd_mem_def split: if_splits)
    ultimately show ?thesis using assms(3) Cons_nth_drop_Suc [of ?pb "buf_data b", symmetric] by (simp add: begins_def)
  qed
  ultimately show ?thesis using ident data by (auto simp: message_def)
qed

lemma sk_mask_bits: "bit (sk_mask po) 0 = (\<not> po_no_touch_required_flag po)" "bit (sk_mask po) 2 = po_verify_required_flag po"
proof -
  have "bit (4 :: byte) 2" "\<not> bit (4 :: byte) 0" "bit (5 :: byte) 0" "bit (5 :: byte) 2" "\<not> bit (1 :: byte) 2" "bit (1 :: byte) 0" by simp_all
  then show "bit (sk_mask po) 0 = (\<not> po_no_touch_required_flag po)" "bit (sk_mask po) 2 = po_verify_required_flag po" by (simp_all add: sk_mask_def Let_def)
qed

lemma key_algo_name:
  assumes "signkey_type_from_signature (signature_type_from_name sigalgo) = Inr keytype" and "signkey_name_from_type keytype = Inr keyalgo"
  shows "keyalgo = (if sigalgo = str ''rsa-sha2-256'' then str ''ssh-rsa'' else sigalgo)" and "keytype < 3"
proof -
  have "(str ''ssh-ed25519'' :: byte list) \<noteq> str ''rsa-sha2-256''" "(str ''sk-ssh-ed25519@openssh.com'' :: byte list) \<noteq> str ''rsa-sha2-256''" by (simp_all add: str_def)
  then show "keyalgo = (if sigalgo = str ''rsa-sha2-256'' then str ''ssh-rsa'' else sigalgo)" "keytype < 3"
    using signature_type_cases [OF assms(1)] assms(2) by (auto simp: signkey_name_from_type_def signkey_names_def)
qed

lemma verified_key_proven:
  assumes "verify_key ae (signature_type_from_name sigalgo) keytype po c = Inr c'" and "\<not> au_authdone (au_of c)" and "au_authdone (au_of c')"
    and "signkey_type_from_signature (signature_type_from_name sigalgo) = Inr keytype" and "keytype < 3" and "has_payload c b'" and "begins (ac_ses c) b" and "reads b w b'"
  shows "\<exists>ident keyw sigw. session_id (ac_ses c) = Some ident \<and> buf_rest b' = keyw @ sigw \<and> signed_by (ae_sig ae) (\<not> po_no_touch_required_flag po) (po_verify_required_flag po) sigalgo keyw
      (message [F_str (take (unat (buf_len ident)) (buf_data ident)), F_byte SSH_MSG_USERAUTH_REQUEST] @ w @ keyw) sigw"
proof -
  obtain key type p data where key: "buf_get_pub_key b' new_sign_key keytype = Inr (True, key, type, p)" "signed_data ((ac_ses c)\<lparr>payload := Some p\<rparr>) = Inr data"
    "buf_verify (ae_sig ae) p (key\<lparr>sk_flags_mask := sk_mask po\<rparr>) (signature_type_from_name sigalgo) data = Inr True"
    using verify_key_done(1) [OF assms(1-3)] assms(6) by (auto simp: has_payload_def)
  obtain keyw where keyw: "reads b' keyw p" "wire_key keytype keyw key" using pub_key_reads [OF _ key(1) assms(5)] assms(6) by (auto simp: has_payload_def)
  have "begins ((ac_ses c)\<lparr>payload := Some p\<rparr>) b" using assms(7) by (simp add: begins_def)
  from signed_data_wire [OF key(2) _ this reads_trans [OF assms(8) keyw(1)]] obtain ident where ident: "session_id (ac_ses c) = Some ident"
    "data = message [F_str (take (unat (buf_len ident)) (buf_data ident)), F_byte SSH_MSG_USERAUTH_REQUEST] @ w @ keyw" by auto
  have "signed_by (ae_sig ae) (\<not> po_no_touch_required_flag po) (po_verify_required_flag po) sigalgo keyw data (buf_rest p)"
    using verify_wire [OF reads_ok(2) [OF keyw(1)] assms(4) keyw(2) key(3)] by (simp add: sk_mask_bits)
  then show ?thesis using ident reads_ok(3) [OF keyw(1)] by blast
qed

lemma key_request_done:
  assumes "svr_auth_pubkey ae valid c = Inr c'" and "has_payload c b'" and "\<not> au_authdone (au_of c)" and "au_authdone (au_of c')"
    and "begins (ac_ses c) b" and "reads b w b'"
  shows "valid \<and> (\<exists>ident. session_id (ac_ses c) = Some ident \<and> key_proven ae (au_of c) (take (unat (buf_len ident)) (buf_data ident)) w (buf_rest b')) \<and> same_account (au_of c) (au_of c')"
proof -
  obtain really c1 where c1: "in_ses (from_payload buf_getbool) c = Inr (really, c1)" using assms(1) by (auto simp: svr_auth_pubkey_def)
  obtain r b1 where r: "reads b' (field_wire (F_byte r)) b1" "has_payload c1 b1" "really = 0 \<longleftrightarrow> r = 0" and s1: "same_but_payload c c1"
    using getbool_field [OF c1 assms(2)] by blast
  obtain sigalgo c2 where c2: "getstr c1 = Inr (sigalgo, c2)" using assms(1) c1 by (auto simp: svr_auth_pubkey_def)
  obtain b2 where r2: "reads b1 (field_wire (F_str sigalgo)) b2" "has_payload c2 b2" and s2: "same_but_payload c1 c2" using getstr_field [OF c2 r(2)] by blast
  obtain n c3 where c3: "in_ses (from_payload buf_getint) c2 = Inr (n, c3)" using assms(1) c1 c2 by (auto simp: svr_auth_pubkey_def)
  obtain b3 where r3: "reads b2 (STORE32H n) b3" "has_payload c3 b3" and s3: "same_but_payload c2 c3" using getint_field [OF c3 r2(2)] by blast
  have b3: "payload (ac_ses c3) = Some b3" "buf_ok b3" using r3(2) by (simp_all add: has_payload_def)
  have same: "same_but_payload c c3" using s1 s2 s3 by (auto simp: same_but_payload_def)
  have au3: "au_of c3 = au_of c" using same by (rule same_but_payload_au)
  have nd: "\<not> au_authdone (au_of c3)" using au3 assms(3) by simp
  have len: "unat n \<le> length (buf_rest b3)" using assms(1) c1 c2 c3 b3 by (auto simp: svr_auth_pubkey_def buf_getptr_eq split: if_splits)
  define keyblob where "keyblob = take (unat n) (buf_rest b3)"
  have get: "rd_mem (buf_data b3) (unat (buf_pos b3)) (unat n) = Inr keyblob" using rd_rest [OF b3(2), of "unat n"] len by (simp add: keyblob_def)
  note chain = assms(1) [unfolded svr_auth_pubkey_def, unfolded c1 rbind.simps prod.case c2 c3 b3(1) option.case]
  have ptr: "buf_getptr b3 n = Inr (unat (buf_pos b3))" using b3 len by (simp add: buf_getptr_eq)
  note chain = chain [unfolded ptr rbind.simps get]
  have valid: "valid" using chain nd assms(4) failure_not_done [of ae False False c3 c'] by (auto split: if_splits)
  let ?sigtype = "signature_type_from_name sigalgo"
  have sig: "?sigtype \<noteq> DROPBEAR_SIGNATURE_NONE" using chain valid nd assms(4) failure_not_done [of ae False False c3 c'] by (auto simp: Let_def split: if_splits)
  obtain keytype keyalgo options au where k: "signkey_type_from_signature ?sigtype = Inr keytype" "signkey_name_from_type keytype = Inr keyalgo"
    "checkpubkey (ae_files ae) (ae_opts ae) keyalgo keyblob (au_of c3) = Inr (options, au)"
    using chain valid sig by (auto simp: Let_def)
  note chain = chain [unfolded Let_def if_not_P [OF sig] k(1) rbind.simps k(2,3) prod.case]
  let ?c = "upd_auth (\<lambda>_. au) c3"
  have au: "same_account (au_of c3) au" "\<not> au_authdone au" using checkpubkey_same [OF k(3)] nd by (auto simp: same_progress_def)
  have dc: "\<not> au_authdone (au_of ?c)" "au_of ?c = au" using au(2) by (simp_all add: upd_auth_def)
  obtain po where po: "options = Some po"
  proof (cases options)
    case None
    then show ?thesis using chain valid dc assms(4) failure_not_done by (auto simp: upd_auth_def)
  qed blast
  have really: "really \<noteq> 0" using chain valid po dc assms(4) auth_send_keeps by (auto simp: send_msg_userauth_pk_ok_def keeps_auth_def split: if_splits)
  have v: "verify_key ae ?sigtype keytype po ?c = Inr c'" using chain valid po really by simp
  have ids: "session_id (ac_ses ?c) = session_id (ac_ses c)" "begins (ac_ses ?c) b" "has_payload ?c b3"
    using same assms(5) r3(2) by (auto simp: same_but_payload_def upd_auth_def begins_def has_payload_def)
  note fields = reads_trans [OF r(1) reads_trans [OF r2(1) r3(1)]]
  have "n = of_nat (length keyblob)" using len by (simp add: keyblob_def)
  then have fields_eq: "field_wire (F_byte r) @ field_wire (F_str sigalgo) @ STORE32H n = message [F_byte r, F_str sigalgo, F_int (of_nat (length keyblob))]" by (simp add: message_def)
  obtain ident keyw sigw where s: "session_id (ac_ses c) = Some ident" "buf_rest b3 = keyw @ sigw"
    "signed_by (ae_sig ae) (\<not> po_no_touch_required_flag po) (po_verify_required_flag po) sigalgo keyw
      (message [F_str (take (unat (buf_len ident)) (buf_data ident)), F_byte SSH_MSG_USERAUTH_REQUEST] @ w @ message [F_byte r, F_str sigalgo, F_int (of_nat (length keyblob))] @ keyw) sigw"
    using verified_key_proven [OF v dc(1) assms(4) k(1) key_algo_name(2) [OF k(1,2)] ids(3,2) reads_trans [OF assms(6) fields]] unfolding fields_eq ids(1) by auto
  have blob: "keyblob @ drop (unat n) (buf_rest b3) = buf_rest b3" by (simp add: keyblob_def)
  have "buf_rest b' = message [F_byte r, F_str sigalgo, F_int (of_nat (length keyblob))] @ keyblob @ drop (unat n) (buf_rest b3)"
    unfolding blob using reads_ok(3) [OF fields] unfolding fields_eq .
  then have "buf_rest b' = message [F_byte r, F_str sigalgo, F_str keyblob] @ drop (unat n) (buf_rest b3)" by (simp add: message_def)
  moreover have "keyblob @ drop (unat n) (buf_rest b3) = keyw @ sigw" using blob s(2) by simp
  ultimately have "key_proven ae (au_of c) (take (unat (buf_len ident)) (buf_data ident)) w (buf_rest b')"
    unfolding key_proven_def using r(3) really k(3) [unfolded po au3 key_algo_name(1) [OF k(1,2)]] s(3) by blast
  then show ?thesis using valid s(1) same_trans(1) [OF au(1)] verify_key_done(2) [OF v dc(1) assms(4)] dc(2) au3 by auto
qed

text \<open>The credentials that a request of a user carries for an account.\<close>

definition credentials :: "auth_env \<Rightarrow> AuthState \<Rightarrow> sshsession \<Rightarrow> byte list \<Rightarrow> byte list \<Rightarrow> byte list \<Rightarrow> bool" where
  "credentials ae au s username methodname bs \<longleftrightarrow>
     methodname = str ''none'' \<and> so_allowblankpass (ae_opts ae) \<and> password_allowed ae au \<and> au_pw_passwd au = Some []
   \<or> methodname = str ''password'' \<and> password_allowed ae au \<and> (\<exists>pw rest. bs = message [F_byte 0, F_str pw] @ rest \<and> password_good ae au pw)
   \<or> methodname = str ''publickey'' \<and> (\<exists>ident. session_id s = Some ident \<and>
       key_proven ae au (take (unat (buf_len ident)) (buf_data ident)) (message [F_str username, F_str (str ''ssh-connection''), F_str methodname]) bs)"

lemma try_method_done:
  assumes "try_method ae methodname valid c = Inr c'" and "has_payload c b'" and "\<not> au_authdone (au_of c)" and "au_authdone (au_of c')"
    and "begins (ac_ses c) b" and "reads b (message [F_str username, F_str (str ''ssh-connection''), F_str methodname]) b'"
  shows "valid \<and> credentials ae (au_of c) (ac_ses c) username methodname (buf_rest b') \<and> same_account (au_of c) (au_of c')"
proof -
  have fail: "send_msg_userauth_failure ae p i c \<noteq> Inr c'" for p i using failure_not_done assms(3,4) by blast
  note m = assms(1) [unfolded try_method_def Let_def password_allowed_def [symmetric]]
  consider (none) "methodname = str ''none''" | (password) "methodname = str ''password''" "methodname \<noteq> str ''none''" | (key) "methodname = str ''publickey''" "methodname \<noteq> str ''none''" "methodname \<noteq> str ''password''"
    using m fail by (cases "methodname = str ''password''") (auto split: if_splits)
  then show ?thesis
  proof cases
    case none
    then have "valid \<and> so_allowblankpass (ae_opts ae) \<and> password_allowed ae (au_of c) \<and> au_pw_passwd (au_of c) = Some []" "send_msg_userauth_success ae c = Inr c'"
      using m fail by (auto split: if_splits)
    then show ?thesis using none success_effect by (auto simp: credentials_def same_account_def)
  next
    case password
    then have "password_allowed ae (au_of c)" "svr_auth_password ae valid c = Inr c'" using m fail by (auto simp: str_def split: if_splits)
    then show ?thesis using password(1) password_request_done [OF _ assms(2-4)] by (auto simp: credentials_def)
  next
    case key
    then have "svr_auth_pubkey ae valid c = Inr c'" using m by (auto simp: str_def split: if_splits)
    then show ?thesis using key(1) key_request_done [OF _ assms(2-6)] unfolding credentials_def by blast
  qed
qed

text \<open>
  C1. Nobody is authenticated without credentials. If a request for authentication, in the payload as the dispatcher leaves it behind the byte of the message type, authenticates the session then it names the
  user of all requests of the session, an account that may log in, and it carries
  credentials of that account: the name of the method \<^verbatim>\<open>none\<close> where blank passwords are allowed and the account has one; a password that \<^verbatim>\<open>crypt\<close> maps to the stored one, or
  the one of the console, where passwords are allowed; or a public key that \<^verbatim>\<open>checkpubkey\<close> finds for the account, with a signature by this key of the session identifier of this session followed by the
  bytes of this very request, the user name, the service, the method, the algorithm and the key. What a signature is, is said on the wire: the equation of RSA with the padded digest, or of Ed25519, and for keys in
  hardware the flags that the options of the key ask for.
\<close>

theorem authentication_needs_credentials:
  assumes "recv_msg_userauth_request ae c = Inr c'" and "\<not> au_authdone (au_of c)" and "au_authdone (au_of c')"
    and "payload (ac_ses c) = Some b" and "buf_ok b" and "begins (ac_ses c) b"
  shows "\<exists>username name methodname bs au. buf_rest b = message [F_str username, F_str (str ''ssh-connection''), F_str methodname] @ bs
    \<and> au_username au = Some username \<and> au_pw_name au = Some name \<and> account_ok ae name au
    \<and> credentials ae au (ac_ses c) username methodname bs \<and> same_account au (au_of c')"
proof -
  let ?c = "upd_auth (\<lambda>au. au\<lparr>au_starttime := ac_now c\<rparr>) c"
  have c: "ac_banner ?c = ac_banner c" "\<not> au_authdone (au_of ?c)" "keeps_auth ((ac_ses c)\<lparr>authstate := au_of ?c\<rparr>) (ac_ses ?c)" using assms(2) by (simp_all add: upd_auth_def)
  note r = assms(1) [unfolded recv_msg_userauth_request_def Let_def if_not_P [OF c(2)]]
  obtain c0 where c0: "(case ac_banner ?c of None \<Rightarrow> Inr ?c | Some b \<Rightarrow> rbind (send_msg_userauth_banner ae b ?c) (\<lambda>c. Inr (c\<lparr>ac_banner := None\<rparr>))) = Inr c0"
    using r by (auto simp: rbind_eq_Inr)
  have k0: "keeps_auth (ac_ses ?c) (ac_ses c0)" using c0 auth_send_keeps by (auto simp: send_msg_userauth_banner_def split: option.splits)
  have pay0: "has_payload c0 b" and nd0: "\<not> au_authdone (au_of c0)" and ids: "session_id (ac_ses c0) = session_id (ac_ses c)" "payload_beginning (ac_ses c0) = payload_beginning (ac_ses c)"
    using k0 c(2) assms(4,5) by (auto simp: keeps_auth_def has_payload_def upd_auth_def)
  note r = r [unfolded c0 rbind.simps]
  obtain username c1 where c1: "getstr c0 = Inr (username, c1)" using r by auto
  obtain b1 where r1: "reads b (field_wire (F_str username)) b1" "has_payload c1 b1" and s1: "same_but_payload c0 c1" using getstr_field [OF c1 pay0] by blast
  note r = r [unfolded c1 rbind.simps prod.case]
  obtain servicename c2 where c2: "getstr c1 = Inr (servicename, c2)" using r by auto
  obtain b2 where r2: "reads b1 (field_wire (F_str servicename)) b2" "has_payload c2 b2" and s2: "same_but_payload c1 c2" using getstr_field [OF c2 r1(2)] by blast
  note r = r [unfolded c2 rbind.simps prod.case]
  obtain methodname c3 where c3: "getstr c2 = Inr (methodname, c3)" using r by auto
  obtain b3 where r3: "reads b2 (field_wire (F_str methodname)) b3" "has_payload c3 b3" and s3: "same_but_payload c2 c3" using getstr_field [OF c3 r2(2)] by blast
  note r = r [unfolded c3 rbind.simps prod.case]
  have service: "servicename = str ''ssh-connection''" using r by (auto split: if_splits)
  obtain valid c4 where c4: "checkusername ae username c3 = Inr (valid, c4)" and t: "try_method ae methodname valid c4 = Inr c'" using r by (auto split: if_splits)
  note u = checkusername_effect [OF c4]
  have same: "same_but_payload c0 c3" using s1 s2 s3 by (auto simp: same_but_payload_def)
  have nd4: "\<not> au_authdone (au_of c4)" using u(2) same nd0 same_but_payload_au by (auto simp: same_progress_def)
  have pay4: "has_payload c4 b3" using r3(2) u(1) by (auto simp: has_payload_def only_auth_def)
  have ids4: "session_id (ac_ses c4) = session_id (ac_ses c)" "payload_beginning (ac_ses c4) = payload_beginning (ac_ses c)"
    using u(1) same ids by (auto simp: only_auth_def same_but_payload_def)
  have begins4: "begins (ac_ses c4) b" using assms(6) ids4(2) by (simp add: begins_def)
  have reads: "reads b (message [F_str username, F_str (str ''ssh-connection''), F_str methodname]) b3"
    using reads_trans [OF r1(1) reads_trans [OF r2(1) r3(1)]] service by (simp add: message_def)
  have d: "valid" "credentials ae (au_of c4) (ac_ses c4) username methodname (buf_rest b3)" "same_account (au_of c4) (au_of c')"
    using try_method_done [OF t pay4 nd4 assms(3) begins4 reads] by auto
  have "credentials ae (au_of c4) (ac_ses c) username methodname (buf_rest b3)" using d(2) ids4(1) unfolding credentials_def by simp
  then show ?thesis using u(3) d(1,3) reads_ok(3) [OF reads] by blast
qed

section \<open>The account of the console\<close>

lemma getstr_wire:
  assumes "pay c (field_wire (F_str s) @ rest)" and "length s \<le> 9000"
  shows "\<exists>c'. getstr c = Inr (s, c') \<and> same_but_payload c c' \<and> pay c' rest"
proof -
  obtain b where b: "payload (ac_ses c) = Some b" "buf_ok b" "buf_rest b = field_wire (F_str s) @ rest" using assms(1) by (auto simp: pay_def)
  have "buf_getstring b = Inr (s, of_nat (length s), adv b (4 + length s))" using buf_getstring_wire [OF b(2) assms(2), of rest] b(3) by simp
  then have get: "getstr c = Inr (s, c\<lparr>ac_ses := (ac_ses c)\<lparr>payload := Some (adv b (4 + length s))\<rparr>\<rparr>)" using b(1) by (simp add: getstr_def in_ses_def from_payload_def)
  have "pay (c\<lparr>ac_ses := (ac_ses c)\<lparr>payload := Some (adv b (4 + length s))\<rparr>\<rparr>) rest"
    using b buf_ok_adv [OF b(2), of "4 + length s"] buf_rest_adv [OF b(2), of "4 + length s"] by (simp add: pay_def)
  then show ?thesis using get by (auto simp: same_but_payload_def)
qed

lemma getbool_wire:
  assumes "pay c (field_wire (F_byte 0) @ rest)"
  shows "\<exists>c'. in_ses (from_payload buf_getbool) c = Inr (0, c') \<and> same_but_payload c c' \<and> pay c' rest"
proof -
  obtain b where b: "payload (ac_ses c) = Some b" "buf_ok b" "buf_rest b = 0 # rest" using assms(1) by (auto simp: pay_def)
  have get: "in_ses (from_payload buf_getbool) c = Inr (0, c\<lparr>ac_ses := (ac_ses c)\<lparr>payload := Some (adv b 1)\<rparr>\<rparr>)"
    using b by (simp add: in_ses_def from_payload_def buf_getbool_def buf_getbyte_eq)
  have "pay (c\<lparr>ac_ses := (ac_ses c)\<lparr>payload := Some (adv b 1)\<rparr>\<rparr>) rest"
    using b buf_ok_adv [OF b(2), of 1] buf_rest_adv [OF b(2), of 1] by (simp add: pay_def)
  then show ?thesis using get by (auto simp: same_but_payload_def)
qed

text \<open>A session that can send, apart from what reading changes.\<close>

definition can_send :: "auth_env \<Rightarrow> auth_ctx \<Rightarrow> bool" where
  "can_send ae c \<longleftrightarrow> sendable (ae_prims ae) (ac_ses c) \<and> wp_empty (ac_ses c) \<and> (ac_childpipe c < 0 \<or> fw_close_ok (fds (ac_ses c)) (ac_childpipe c))"

lemma can_send_changes:
  "same_but_payload c c' \<Longrightarrow> can_send ae c \<Longrightarrow> can_send ae c'" "can_send ae (upd_auth f c) = can_send ae c"
  by (auto simp: can_send_def same_but_payload_def upd_auth_def sendable_def wp_ok_def wp_empty_def)

lemma success_works:
  assumes "can_send ae c" and "au_pw_name (au_of c) = Some (str ''root'')"
  shows "\<exists>c'. send_msg_userauth_success ae c = Inr c'"
proof -
  obtain s where s: "rbind (put_fields [F_byte SSH_MSG_USERAUTH_SUCCESS] (ac_ses c)) (encrypt_packet (ae_prims ae)) = Inr s" "app_same (ac_ses c) s"
    using ssh.send_fields [of "ae_prims ae" "ac_ses c" "[F_byte SSH_MSG_USERAUTH_SUCCESS]"] assms(1) by (auto simp: can_send_def message_def)
  have same: "authstate s = au_of c" "fds s = fds (ac_ses c)" using s(2) by (simp_all add: app_same_def)
  define c1 where "c1 = upd_auth (\<lambda>au. au\<lparr>au_authdone := True\<rparr>) (c\<lparr>ac_ses := s\<rparr>)"
  have "auth_send ae [F_byte SSH_MSG_USERAUTH_SUCCESS] c = Inr (c\<lparr>ac_ses := s\<rparr>)" using s(1) by (simp only: auth_send_def on_ses_def) simp
  moreover have "svr_switch_user ae c1 = Inr c1" using same(1) assms(2) by (simp add: svr_switch_user_def c1_def upd_auth_def)
  moreover have "\<exists>s'. m_close (ac_childpipe c1) (ac_ses c1) = Inr s'" using same(2) assms(1) by (auto simp: m_close_def can_send_def c1_def upd_auth_def)
  ultimately show ?thesis by (auto simp: send_msg_userauth_success_def on_ses_def c1_def [symmetric] simp del: put_fields.simps)
qed

lemma console_login:
  assumes "can_send ae c" and "pay c (message [F_str (str ''root''), F_str (str ''ssh-connection''), F_str (str ''password''), F_byte 0, F_str (str ''root'')] @ rest)"
    and "ac_banner c = None" and "au_username (au_of c) = None" and "\<not> au_authdone (au_of c)" and "\<not> au_checkusername_failed (au_of c)"
    and "\<not> so_norootlogin (ae_opts ae)" and "\<not> so_noauthpass (ae_opts ae)" and "\<not> so_norootpass (ae_opts ae)"
  shows "\<exists>c'. recv_msg_userauth_request ae c = Inr c' \<and> au_authdone (au_of c') \<and> au_authtypes (au_of c') = au_authtypes (au_of c)"
proof -
  let ?c = "upd_auth (\<lambda>au. au\<lparr>au_starttime := ac_now c\<rparr>) c"
  have len: "length (str ''root'') \<le> 9000" "length (str ''ssh-connection'') \<le> 9000" "length (str ''password'') \<le> 9000" by (simp_all add: str_def)
  have p0: "pay ?c (field_wire (F_str (str ''root'')) @ field_wire (F_str (str ''ssh-connection'')) @ field_wire (F_str (str ''password'')) @ field_wire (F_byte 0) @ field_wire (F_str (str ''root'')) @ rest)"
    using assms(2) by (simp add: pay_def upd_auth_def message_def)
  obtain c1 where c1: "getstr ?c = Inr (str ''root'', c1)" "same_but_payload ?c c1" and p1: "pay c1 (field_wire (F_str (str ''ssh-connection'')) @ field_wire (F_str (str ''password'')) @ field_wire (F_byte 0) @ field_wire (F_str (str ''root'')) @ rest)"
    using getstr_wire [OF p0 len(1)] by blast
  obtain c2 where c2: "getstr c1 = Inr (str ''ssh-connection'', c2)" "same_but_payload c1 c2" and p2: "pay c2 (field_wire (F_str (str ''password'')) @ field_wire (F_byte 0) @ field_wire (F_str (str ''root'')) @ rest)"
    using getstr_wire [OF p1 len(2)] by blast
  obtain c3 where c3: "getstr c2 = Inr (str ''password'', c3)" "same_but_payload c2 c3" and p3: "pay c3 (field_wire (F_byte 0) @ field_wire (F_str (str ''root'')) @ rest)"
    using getstr_wire [OF p2 len(3)] by blast
  have send3: "can_send ae c3" using assms(1) can_send_changes c1(2) c2(2) c3(2) by blast
  have au3: "au_of c3 = (au_of c)\<lparr>au_starttime := ac_now c\<rparr>" using c1(2) c2(2) c3(2) by (auto simp: same_but_payload_def upd_auth_def)
  define c4 where "c4 = upd_auth (\<lambda>au. (fill_passwd ae (str ''root'') au)\<lparr>au_username := Some (str ''root'')\<rparr>) c3"
  have au4: "au_pw_name (au_of c4) = Some (str ''root'')" "au_pw_uid (au_of c4) = 0" "\<not> au_checkusername_failed (au_of c4)" "au_authtypes (au_of c4) = au_authtypes (au_of c)"
    using au3 assms(6) by (simp_all add: c4_def upd_auth_def fill_passwd_def)
  have user: "checkusername ae (str ''root'') c3 = Inr (True, c4)"
  proof -
    have "set_username ae (str ''root'') c3 = Inr c4" using au3 assms(4) by (simp add: set_username_def c4_def)
    moreover have "check_account ae c4 = (True, c4)" using au4(1,3) assms(7) by (simp add: check_account_def account_ok_def)
    moreover have "\<not> length (str ''root'') > MAX_USERNAME_LEN" "0 \<notin> set (str ''root'')" by (simp_all add: str_def)
    ultimately show ?thesis by (simp add: checkusername_def)
  qed
  have p4: "pay c4 (field_wire (F_byte 0) @ field_wire (F_str (str ''root'')) @ rest)" using p3 by (simp add: pay_def c4_def upd_auth_def)
  obtain c5 where c5: "in_ses (from_payload buf_getbool) c4 = Inr (0, c5)" "same_but_payload c4 c5" and p5: "pay c5 (field_wire (F_str (str ''root'')) @ rest)"
    using getbool_wire [OF p4] by blast
  obtain c6 where c6: "getstr c5 = Inr (str ''root'', c6)" "same_but_payload c5 c6" using getstr_wire [OF p5 len(1)] by blast
  have send6: "can_send ae c6" using send3 can_send_changes(1) [OF c5(2)] can_send_changes(1) [OF c6(2)] by (simp add: c4_def can_send_changes(2))
  have au6: "au_of c6 = au_of c4" using same_but_payload_au [OF c5(2)] same_but_payload_au [OF c6(2)] by simp
  obtain c' where c': "send_msg_userauth_success ae c6 = Inr c'" using success_works [OF send6] au4(1) au6 by auto
  have "svr_auth_password ae True c4 = Inr c'" using c5(1) c6(1) c' au4(1) au6 by (simp add: svr_auth_password_def)
  moreover have "(str ''password'' :: byte list) \<noteq> str ''none''" by (simp add: str_def)
  ultimately have "try_method ae (str ''password'') True c4 = Inr c'" using assms(8,9) by (simp add: try_method_def)
  moreover have "\<not> au_authdone (au_of ?c)" "ac_banner ?c = None" using assms(3,5) by (simp_all add: upd_auth_def)
  ultimately have "recv_msg_userauth_request ae c = Inr c'" using c1(1) c2(1) c3(1) user by (simp add: recv_msg_userauth_request_def)
  then show ?thesis using success_effect [OF c'] au4(4) au6 by simp
qed

text \<open>
  C38. The fixed password of the console is enough by itself: with password \<^verbatim>\<open>root\<close> for the user \<^verbatim>\<open>root\<close> the first request authenticates the session, whatever keys, accounts and password hashes the system has and also when
  the option for several methods requires a public key in addition, as long as root logins and passwords are not switched off. The list of the methods that are still needed is not looked at.
\<close>

theorem console_password_is_enough:
  assumes "can_send ae c" and "pay c (message [F_str (str ''root''), F_str (str ''ssh-connection''), F_str (str ''password''), F_byte 0, F_str (str ''root'')] @ rest)"
    and "ac_banner c = None" and "au_username (au_of c) = None" and "\<not> au_authdone (au_of c)" and "\<not> au_checkusername_failed (au_of c)"
    and "\<not> so_norootlogin (ae_opts ae)" and "\<not> so_noauthpass (ae_opts ae)" and "\<not> so_norootpass (ae_opts ae)"
  shows "\<exists>c'. recv_msg_userauth_request ae c = Inr c' \<and> au_authdone (au_of c') \<and> au_authtypes (au_of c') = au_authtypes (au_of c)"
  using console_login assms by blast

text \<open>A first request with that password, in a session that needs two methods.\<close>

definition console_packet :: buffer where
  "console_packet = (let bs = message [F_str (str ''root''), F_str (str ''ssh-connection''), F_str (str ''password''), F_byte 0, F_str (str ''root'')] in
     \<lparr>buf_data = bs, buf_len = of_nat (length bs), buf_pos = 0, buf_size = of_nat (length bs)\<rparr>)"

definition console_env :: auth_env where
  "console_env = \<lparr>ae_prims = counting_primitives, ae_opts = user_opts\<lparr>so_multiauthmethod := True\<rparr>, ae_getpwnam = (\<lambda>u. None), ae_getspnam = None, ae_crypt = (\<lambda>p s. None),
     ae_grouplist = (\<lambda>u g. None), ae_shells = [], ae_euid = 0, ae_uid = 0, ae_setgid = True, ae_setuid = True, ae_utmp_gid = None, ae_setresgid = True,
     ae_files = user_files, ae_sig = \<lparr>sg_sha256 = (\<lambda>d. replicate 32 0), sg_ed25519_verify = (\<lambda>d s p. False)\<rparr>, ae_elapsed = 1000\<rparr>"

definition console_ctx :: "sshsession \<Rightarrow> auth_ctx" where
  "console_ctx ses = svr_authinitialise console_env \<lparr>ac_ses = ses\<lparr>payload := Some console_packet\<rparr>, ac_banner = None, ac_childpipe = -1, ac_allowprivport = False, ac_utmp_gid = None, ac_now = 0\<rparr>"

lemma console_packet_ok:
  "buf_ok console_packet" "buf_rest console_packet = message [F_str (str ''root''), F_str (str ''ssh-connection''), F_str (str ''password''), F_byte 0, F_str (str ''root'')] @ []"
  by (simp_all add: console_packet_def Let_def buf_ok_def buf_rest_def message_def str_def)

lemma console_ctx_ok:
  assumes "sendable counting_primitives ses" and "wp_empty ses"
  shows "can_send console_env (console_ctx ses)" and "pay (console_ctx ses) (message [F_str (str ''root''), F_str (str ''ssh-connection''), F_str (str ''password''), F_byte 0, F_str (str ''root'')] @ [])"
    and "ac_banner (console_ctx ses) = None" and "au_username (au_of (console_ctx ses)) = None" and "\<not> au_authdone (au_of (console_ctx ses))"
    and "\<not> au_checkusername_failed (au_of (console_ctx ses))" and "payload (ac_ses (console_ctx ses)) = Some console_packet"
    and "\<not> so_norootlogin (ae_opts console_env)" and "\<not> so_noauthpass (ae_opts console_env)" and "\<not> so_norootpass (ae_opts console_env)"
  using assms console_packet_ok
  by (simp_all add: console_ctx_def svr_authinitialise_def upd_auth_def can_send_def console_env_def sendable_def wp_ok_def wp_empty_def pay_def authstate_zero_def user_opts_def)

lemma console_session: "\<exists>ses. common_session_init 3 4 ses_zero = Inr ses \<and> sendable counting_primitives ses \<and> wp_empty ses"
  using common_session_init_eq [OF counting_random_ok, of 3 4] by blast

theorem console_password_is_enough_witness:
  "\<exists>ses c'. common_session_init 3 4 ses_zero = Inr ses \<and> so_multiauthmethod (ae_opts console_env)
     \<and> recv_msg_userauth_request console_env (console_ctx ses) = Inr c' \<and> au_authdone (au_of c')"
proof -
  obtain ses where s: "common_session_init 3 4 ses_zero = Inr ses" "sendable counting_primitives ses" "wp_empty ses" using console_session by blast
  note c = console_ctx_ok [OF s(2,3)]
  have "so_multiauthmethod (ae_opts console_env)" by (simp add: console_env_def)
  with console_password_is_enough [OF c(1-6,8-10)] s(1) show ?thesis by blast
qed

text \<open>
  A request with a public key: the superuser of the console offers the one key of its file, with a signature of a toy scheme, the sum of the bytes of the key and of the data. The payload is written out with
  its position, so that every step of the handler can be computed.
\<close>

definition root_blob :: "byte list" where
  "root_blob = ed25519_wire (replicate 32 0)"

definition root_line :: "byte list" where
  "root_line = str ''ssh-ed25519 AAAAC3NzaC1lZDI1NTE5AAAAIAAAAAAAAAAAAAAAAAAAAAAAAAAAAAAAAAAAAAAAAAAA me''"

definition root_files :: key_files where
  "root_files = \<lparr>kf_stat = (\<lambda>p. if p = str ''/data/dropbear/.ssh'' \<or> p = str ''/data/dropbear'' then Some (0, 448) else None),
     kf_open = (\<lambda>p. if p = str ''/data/dropbear/.ssh/authorized_keys'' then Some (root_line @ [0x0a]) else None), kf_errno = 0\<rparr>"

definition toy_signature :: "byte list \<Rightarrow> byte list \<Rightarrow> byte list" where
  "toy_signature pub data = replicate 64 (foldr (+) (pub @ data) 0)"

definition toy_sig :: sig_env where
  "toy_sig = \<lparr>sg_sha256 = (\<lambda>d. replicate 32 0), sg_ed25519_verify = (\<lambda>d s p. s = toy_signature p d)\<rparr>"

definition key_env :: auth_env where
  "key_env = console_env\<lparr>ae_opts := user_opts, ae_files := root_files, ae_sig := toy_sig\<rparr>"

definition key_ident :: buffer where
  "key_ident = \<lparr>buf_data = replicate 32 5, buf_len = 32, buf_pos = 0, buf_size = 32\<rparr>"

definition key_fields :: "field list" where
  "key_fields = [F_byte SSH_MSG_USERAUTH_REQUEST, F_str (str ''root''), F_str (str ''ssh-connection''), F_str (str ''publickey''), F_byte 1, F_str (str ''ssh-ed25519''), F_str root_blob]"

definition key_data :: "byte list" where
  "key_data = message key_fields @ message [F_str (message [F_str (str ''ssh-ed25519''), F_str (toy_signature (replicate 32 0) (message (F_str (replicate 32 5) # key_fields)))])]"

definition key_packet :: "u32 \<Rightarrow> buffer" where
  "key_packet n = \<lparr>buf_data = key_data, buf_len = 198, buf_pos = n, buf_size = 198\<rparr>"

definition key_ctx :: "sshsession \<Rightarrow> AuthState \<Rightarrow> u32 \<Rightarrow> auth_ctx" where
  "key_ctx ses au n = \<lparr>ac_ses = ses\<lparr>payload := Some (key_packet n), payload_beginning := 0, session_id := Some key_ident, authstate := au\<rparr>,
     ac_banner = None, ac_childpipe = -1, ac_allowprivport = False, ac_utmp_gid = None, ac_now = 0\<rparr>"

definition root_auth :: AuthState where
  "root_auth = (fill_passwd key_env (str ''root'') (authstate_zero\<lparr>au_authtypes := 6, au_starttime := 0\<rparr>))\<lparr>au_username := Some (str ''root'')\<rparr>"

lemma ed25519_types: "signature_type_from_name (str ''ssh-ed25519'') = 1" "signkey_type_from_signature 1 = Inr 1" "signkey_name_from_type 1 = Inr (str ''ssh-ed25519'')"
  by code_simp+

lemma key_packet_1: "buf_getstring (key_packet 1) = Inr (str ''root'', 4, key_packet 9)"
  by code_simp

lemma key_packet_2: "buf_getstring (key_packet 9) = Inr (str ''ssh-connection'', 14, key_packet 27)"
  by code_simp

lemma key_packet_3: "buf_getstring (key_packet 27) = Inr (str ''publickey'', 9, key_packet 40)"
  by code_simp

lemma key_packet_4: "buf_getbool (key_packet 40) = Inr (1, key_packet 41)"
  by code_simp

lemma key_packet_5: "buf_getstring (key_packet 41) = Inr (str ''ssh-ed25519'', 11, key_packet 56)"
  by code_simp

lemma key_packet_6: "buf_getint (key_packet 56) = Inr (51, key_packet 60)"
  by code_simp

lemma key_packet_7: "buf_getptr (key_packet 60) 51 = Inr 60"
  by code_simp

lemma key_packet_8: "rd_mem (buf_data (key_packet 60)) 60 51 = Inr root_blob"
  by code_simp

lemmas key_packet_fields = key_packet_1 key_packet_2 key_packet_3 key_packet_4 key_packet_5 key_packet_6 key_packet_7 key_packet_8

lemma key_data_length: "length key_data = 198"
  by code_simp

lemma key_packet_ok: "buf_ok (key_packet 1)"
  by (simp add: buf_ok_def key_packet_def key_data_length)

lemma key_packet_begin: "key_data ! 0 = SSH_MSG_USERAUTH_REQUEST"
  by code_simp

lemma key_packet_key:
  "buf_get_pub_key (key_packet 60) new_sign_key 1 = Inr (True, new_sign_key\<lparr>sk_ed25519key := Some (replicate 32 0)\<rparr>, 1, key_packet 111)"
  by code_simp

lemma key_packet_signature_fields:
  "buf_getint (key_packet 111) = Inr (83, key_packet 115)" "buf_getstring (key_packet 115) = Inr (str ''ssh-ed25519'', 11, key_packet 130)" "buf_getint (key_packet 130) = Inr (64, key_packet 134)"
  by code_simp+

lemma key_fields_length: "length (message key_fields) = 111"
  by code_simp

lemma key_signed: "STORE32H 32 @ replicate 32 5 @ take 111 key_data = message (F_str (replicate 32 5) # key_fields)"
  by (simp add: key_data_def key_fields_length) (simp add: message_def)

lemma key_signature_at: "rd_mem key_data 134 64 = Inr (toy_signature (replicate 32 0) (message (F_str (replicate 32 5) # key_fields)))"
  using key_data_length by (simp add: rd_mem_def) (simp add: key_data_def key_fields_length message_def [of "[F_str x]" for x] message_def [of "[F_str x, F_str y]" for x y] toy_signature_def)

lemma key_packet_signature:
  "buf_verify toy_sig (key_packet 111) (new_sign_key\<lparr>sk_ed25519key := Some (replicate 32 0), sk_flags_mask := 1\<rparr>) 1 (STORE32H 32 @ replicate 32 5 @ take 111 key_data) = Inr True"
proof -
  have "buf_getptr (key_packet 134) 64 = Inr 134" by (simp add: key_packet_def buf_getptr_def)
  moreover have "\<not> buf_len (key_packet 134) - buf_pos (key_packet 134) < 64" "buf_data (key_packet 134) = key_data" by (simp_all add: key_packet_def)
  ultimately have "buf_ed25519_verify toy_sig (key_packet 130) (replicate 32 0) (message (F_str (replicate 32 5) # key_fields)) = Inr True"
    using key_packet_signature_fields(3) key_signature_at by (simp add: buf_ed25519_verify_def) (simp add: toy_sig_def)
  then show ?thesis using key_packet_signature_fields(1,2) ed25519_types(1,2) unfolding key_signed by (simp add: buf_verify_def)
qed

lemma key_packet_signed: "rd_mem (buf_data key_ident) 0 32 = Inr (replicate 32 5)" "rd_mem (buf_data (key_packet 111)) 0 111 = Inr (take 111 key_data)"
  using key_data_length by (simp_all add: rd_mem_def key_ident_def key_packet_def)

text \<open>The key is in the file.\<close>

lemma root_path: "authorized_keys_filepath user_opts root_auth = str ''/data/dropbear/.ssh/authorized_keys''"
  by code_simp

lemma root_perms: "checkpubkeyperms root_files user_opts root_auth = (True, root_auth)"
  by code_simp

lemma base64_zeros: "length bs + 3 * n \<le> room \<Longrightarrow> base64_loop room 0 0 bs (replicate (4 * n) 0x41) = Some (bs @ replicate (3 * n) 0)"
proof (induction n arbitrary: bs)
  case (Suc n)
  have "replicate (4 * Suc n) (0x41 :: byte) = 0x41 # 0x41 # 0x41 # 0x41 # replicate (4 * n) 0x41" "replicate (3 * Suc n) (0 :: byte) = [0, 0, 0] @ replicate (3 * n) 0"
    by (simp_all add: numeral_eq_Suc)
  then show ?case using Suc by (simp add: map_base64_def Let_def)
qed simp

lemma root_key_head: "base64_loop 136 0 0 [] (str ''AAAAC3NzaC1lZDI1NTE5AAAAIAAA'' @ cs) = base64_loop 136 0 0 (STORE32H 11 @ str ''ssh-ed25519'' @ STORE32H 32 @ [0, 0]) cs"
  by (simp add: str_def map_base64_def Let_def STORE32H_def) (rule arg_cong [where f = "\<lambda>bs. base64_loop 136 0 0 bs cs"], simp)

lemma root_key_text: "str ''AAAAC3NzaC1lZDI1NTE5AAAAIAAAAAAAAAAAAAAAAAAAAAAAAAAAAAAAAAAAAAAAAAAA'' = str ''AAAAC3NzaC1lZDI1NTE5AAAAIAAA'' @ replicate 40 (0x41 :: byte)"
  by code_simp

lemma root_key64: "base64_decode 136 (str ''AAAAC3NzaC1lZDI1NTE5AAAAIAAAAAAAAAAAAAAAAAAAAAAAAAAAAAAAAAAAAAAAAAAA'') = Some root_blob"
proof -
  have "[0, 0] @ replicate 30 0 = replicate 32 (0 :: byte)" by code_simp
  then show ?thesis using base64_zeros [of "STORE32H 11 @ str ''ssh-ed25519'' @ STORE32H 32 @ [0, 0]" 10 136]
    by (simp add: base64_decode_def root_key_text root_key_head root_blob_def ed25519_wire_def)
qed

lemma root_key_line: "cmp_base64_key root_blob (str ''ssh-ed25519'') (str ''AAAAC3NzaC1lZDI1NTE5AAAAIAAAAAAAAAAAAAAAAAAAAAAAAAAAAAAAAAAAAAAAAAAA'') = Inr True"
  using root_key64 by (simp add: cmp_base64_key_def str_def LOAD32H_def root_blob_def ed25519_wire_def STORE32H_def)

lemma root_line_ok: "checkpubkey_line 0 root_line (str ''ssh-ed25519'') root_blob = Inr (Some (no_options\<lparr>po_info_env := Some (str ''me'')\<rparr>))"
  using root_key_line by (simp add: checkpubkey_line_def root_line_def key_start_def str_def key_info_def info_ok_def svr_parse_pubkey_options_def)

lemma root_getline: "buf_getline (root_line @ [0x0a]) = Some (root_line, [])"
  by (simp add: buf_getline_def root_line_def str_def line_end_def Let_def)

lemma root_key_accepted:
  "checkpubkey root_files user_opts (str ''ssh-ed25519'') root_blob root_auth = Inr (Some (no_options\<lparr>po_info_env := Some (str ''me'')\<rparr>), root_auth)"
  using root_line_ok root_getline by (simp add: checkpubkey_def root_perms root_path) (simp add: root_files_def check_lines.simps [of 0])

text \<open>The handler, step by step.\<close>

lemma getstr_at: "buf_getstring (key_packet m) = Inr (s, l, key_packet n) \<Longrightarrow> getstr (key_ctx ses au m) = Inr (s, key_ctx ses au n)"
  by (simp add: getstr_def in_ses_def from_payload_def key_ctx_def)

lemma field_at: "f (key_packet m) = Inr (v, key_packet n) \<Longrightarrow> in_ses (from_payload f) (key_ctx ses au m) = Inr (v, key_ctx ses au n)"
  by (simp add: in_ses_def from_payload_def key_ctx_def)

lemma key_ctx_simps [simp]:
  "au_of (key_ctx ses au n) = au" "upd_auth f (key_ctx ses au n) = key_ctx ses (f au) n" "payload (ac_ses (key_ctx ses au n)) = Some (key_packet n)"
  "(ac_ses (key_ctx ses au n))\<lparr>payload := Some (key_packet m)\<rparr> = ac_ses (key_ctx ses au m)" "(key_ctx ses au n)\<lparr>ac_ses := ac_ses (key_ctx ses au m)\<rparr> = key_ctx ses au m"
  "ac_banner (key_ctx ses au n) = None"
  "ac_now (key_ctx ses au n) = 0" "session_id (ac_ses (key_ctx ses au n)) = Some key_ident" "payload_beginning (ac_ses (key_ctx ses au n)) = 0"
  by (simp_all add: key_ctx_def upd_auth_def)

lemma key_env_simps [simp]:
  "ae_opts key_env = user_opts" "ae_files key_env = root_files" "ae_sig key_env = toy_sig" "ae_prims key_env = counting_primitives"
  by (simp_all add: key_env_def console_env_def)

lemma root_auth_simps [simp]: "au_pw_name root_auth = Some (str ''root'')" "au_pubkey_options root_auth = None" "\<not> au_authdone root_auth" "\<not> au_checkusername_failed root_auth"
  by (simp_all add: root_auth_def fill_passwd_def authstate_zero_def)

lemma key_signed_data: "signed_data (ac_ses (key_ctx ses au 111)) = Inr (STORE32H 32 @ replicate 32 5 @ take 111 key_data)"
  using key_packet_signed by (simp add: signed_data_def) (simp add: key_ident_def key_packet_def)

lemma key_can_send:
  assumes "sendable counting_primitives ses" and "wp_empty ses"
  shows "can_send key_env (key_ctx ses au n)"
  using assms by (simp add: can_send_def sendable_def wp_ok_def wp_empty_def) (simp add: key_ctx_def)

lemma key_login:
  assumes "sendable counting_primitives ses" and "wp_empty ses"
  shows "\<exists>c'. recv_msg_userauth_request key_env (svr_authinitialise key_env (key_ctx ses au 1)) = Inr c' \<and> au_authdone (au_of c')"
proof -
  let ?po = "no_options\<lparr>po_info_env := Some (str ''me'')\<rparr>" and ?au = "authstate_zero\<lparr>au_authtypes := 6, au_starttime := 0\<rparr>"
  obtain c' where c': "send_msg_userauth_success key_env (key_ctx ses (root_auth\<lparr>au_pubkey_options := Some ?po\<rparr>) 111) = Inr c'"
    using success_works [OF key_can_send [OF assms, of "root_auth\<lparr>au_pubkey_options := Some ?po\<rparr>" 111]] by auto
  have verify: "verify_key key_env 1 1 ?po (key_ctx ses root_auth 60) = Inr c'"
    using c' key_packet_key key_packet_signature key_signed_data by (simp add: verify_key_def Let_def sk_mask_def no_options_def user_opts_def)
  have pub: "svr_auth_pubkey key_env True (key_ctx ses root_auth 40) = Inr c'"
    using verify key_packet_fields root_key_accepted ed25519_types by (simp add: svr_auth_pubkey_def field_at getstr_at key_packet_def)
  have user: "checkusername key_env (str ''root'') (key_ctx ses ?au 40) = Inr (True, key_ctx ses root_auth 40)"
  proof -
    have "au_username ?au = None" by (simp add: authstate_zero_def)
    then have "set_username key_env (str ''root'') (key_ctx ses ?au 40) = Inr (key_ctx ses root_auth 40)" by (simp add: set_username_def root_auth_def)
    moreover have "check_account key_env (key_ctx ses root_auth 40) = (True, key_ctx ses root_auth 40)" by (simp add: check_account_def account_ok_def user_opts_def)
    moreover have "length (str ''root'') \<le> 100" "0 \<notin> set (str ''root'')" by (simp_all add: str_def)
    ultimately show ?thesis by (simp add: checkusername_def)
  qed
  have tried: "try_method key_env (str ''publickey'') True (key_ctx ses root_auth 40) = Inr c'"
    using pub by (simp add: try_method_def) (simp add: str_def)
  have "svr_authinitialise key_env (key_ctx ses au 1) = key_ctx ses (authstate_zero\<lparr>au_authtypes := 6\<rparr>) 1" by (simp add: svr_authinitialise_def user_opts_def)
  then have "recv_msg_userauth_request key_env (svr_authinitialise key_env (key_ctx ses au 1)) = Inr c'"
    using user tried key_packet_fields by (simp add: recv_msg_userauth_request_def getstr_at authstate_zero_def)
  then show ?thesis using success_effect [OF c'] by simp
qed

lemma same_string:
  assumes "field_wire (F_str s) @ x = field_wire (F_str t) @ y" and "length s < 2 ^ 32" and "length t < 2 ^ 32"
  shows "s = t \<and> x = y"
proof -
  have "LOAD32H (STORE32H (of_nat (length s))) = LOAD32H (STORE32H (of_nat (length t)))" using assms(1) by (auto dest!: arg_cong [where f = "take 4"])
  then have "length s = length t" using assms(2,3) by (auto simp: u32_eq_iff unat_of_nat_u32)
  then show ?thesis using assms(1) by simp
qed

lemma key_rest: "buf_rest (key_packet 1) = message [F_str (str ''root''), F_str (str ''ssh-connection''), F_str (str ''publickey'')] @ drop 40 key_data"
proof -
  have "drop 1 key_data = message [F_str (str ''root''), F_str (str ''ssh-connection''), F_str (str ''publickey'')] @ drop 40 key_data" by code_simp
  moreover have "buf_rest (key_packet 1) = drop 1 key_data" using key_data_length by (simp add: buf_rest_def key_packet_def)
  ultimately show ?thesis by simp
qed

theorem authentication_needs_credentials_witness:
  "\<exists>ses c c' au. common_session_init 3 4 ses_zero = Inr ses \<and> c = svr_authinitialise key_env (key_ctx ses authstate_zero 1)
    \<and> recv_msg_userauth_request key_env c = Inr c' \<and> \<not> au_authdone (au_of c) \<and> au_authdone (au_of c')
    \<and> au_username au = Some (str ''root'') \<and> credentials key_env au (ac_ses c) (str ''root'') (str ''publickey'') (drop 40 key_data)
    \<and> key_proven key_env au (replicate 32 5) (message [F_str (str ''root''), F_str (str ''ssh-connection''), F_str (str ''publickey'')]) (drop 40 key_data)"
proof -
  obtain ses where s: "common_session_init 3 4 ses_zero = Inr ses" "sendable counting_primitives ses" "wp_empty ses" using console_session by blast
  define c where "c = svr_authinitialise key_env (key_ctx ses authstate_zero 1)"
  have c: "\<not> au_authdone (au_of c)" "payload (ac_ses c) = Some (key_packet 1)" "begins (ac_ses c) (key_packet 1)" "session_id (ac_ses c) = Some key_ident"
    using key_packet_begin by (simp_all add: c_def svr_authinitialise_def begins_def authstate_zero_def) (simp add: key_packet_def)
  obtain c' where c': "recv_msg_userauth_request key_env c = Inr c'" "au_authdone (au_of c')" using key_login [OF s(2,3)] unfolding c_def by blast
  from authentication_needs_credentials [OF c'(1) c(1) c'(2) c(2) key_packet_ok c(3)]
  obtain username name methodname bs au where a: "buf_rest (key_packet 1) = message [F_str username, F_str (str ''ssh-connection''), F_str methodname] @ bs"
    "au_username au = Some username" "credentials key_env au (ac_ses c) username methodname bs" by blast
  have len: "length username < 2 ^ 32" "length methodname < 2 ^ 32" using arg_cong [OF a(1), of length] key_data_length by (auto simp: buf_rest_def key_packet_def message_def)
  have "length (str ''root'') < 2 ^ 32" "length (str ''publickey'') < 2 ^ 32" by (simp_all add: str_def)
  then have u: "username = str ''root''" "methodname = str ''publickey''" "bs = drop 40 key_data"
    using a(1) [unfolded key_rest] len by (auto simp: message_def dest!: same_string simp del: field_wire.simps)
  have "key_proven key_env au (replicate 32 5) (message [F_str (str ''root''), F_str (str ''ssh-connection''), F_str (str ''publickey'')]) (drop 40 key_data)"
    using a(3) c(4) unfolding u credentials_def by (auto simp: key_ident_def) (simp_all add: str_def)
  then show ?thesis using s(1) c'(1,2) c(1) a(2,3) u c_def by blast
qed

section \<open>How often a client may guess\<close>

text \<open>The method that a request names, and a sequence of requests.\<close>

definition method_of :: "buffer \<Rightarrow> byte list option" where
  "method_of b = (case rbind (buf_getstring b) (\<lambda>(u, l, b). rbind (buf_getstring b) (\<lambda>(s, l, b). buf_getstring b)) of Inl e \<Rightarrow> None | Inr (m, l, b) \<Rightarrow> Some m)"

fun auth_requests :: "auth_env \<Rightarrow> buffer list \<Rightarrow> auth_ctx \<Rightarrow> auth_ctx res" where
  "auth_requests ae [] c = Inr c"
| "auth_requests ae (b # bs) c = rbind (recv_msg_userauth_request ae (c\<lparr>ac_ses := (ac_ses c)\<lparr>payload := Some b\<rparr>\<rparr>)) (auth_requests ae bs)"

text \<open>What a request may do to the count of the failures: it is raised by at most one, and when it is, or a message of failure is sent, it does not exceed the limit.\<close>

definition counted :: "auth_env \<Rightarrow> auth_ctx \<Rightarrow> auth_ctx \<Rightarrow> bool" where
  "counted ae c c' \<longleftrightarrow> au_failcount (au_of c') = au_failcount (au_of c) + 1 \<and> au_failcount (au_of c') \<le> so_maxauthtries (ae_opts ae)"

definition counted_or_same :: "auth_env \<Rightarrow> auth_ctx \<Rightarrow> auth_ctx \<Rightarrow> bool" where
  "counted_or_same ae c c' \<longleftrightarrow> counted ae c c' \<or> au_failcount (au_of c') = au_failcount (au_of c)"

lemma failure_counted: "send_msg_userauth_failure ae p True c = Inr c' \<Longrightarrow> counted ae c c'"
  using failure_effect [of ae p True c c'] by (simp add: counted_def)

lemma failure_counted_or_same: "send_msg_userauth_failure ae p i c = Inr c' \<Longrightarrow> counted_or_same ae c c'"
  using failure_effect [of ae p i c c'] by (auto simp: counted_or_same_def counted_def split: if_splits)

lemma success_not: "send_msg_userauth_success ae c = Inr c' \<Longrightarrow> au_authdone (au_of c')"
  using success_effect [of ae c c'] by simp

lemma counted_cong: "au_failcount (au_of c) = au_failcount (au_of d) \<Longrightarrow> counted ae c c' = counted ae d c'"
  "au_failcount (au_of c) = au_failcount (au_of d) \<Longrightarrow> counted_or_same ae c c' = counted_or_same ae d c'"
  by (simp_all add: counted_def counted_or_same_def)

lemma check_password_counted:
  assumes "check_password ae pw c = Inr c'" and "\<not> au_authdone (au_of c')" and "\<not> so_multiauthmethod (ae_opts ae)"
  shows "counted ae c c'"
  using assms failure_counted success_not by (fastforce simp: check_password_def split: if_splits option.splits)

lemma in_ses_au: "in_ses (from_payload f) c = Inr (v, c') \<Longrightarrow> au_of c' = au_of c"
  using in_payload [of f c v c'] by auto

lemma getstr_au: "getstr c = Inr (v, c') \<Longrightarrow> au_of c' = au_of c"
  unfolding getstr_def by (rule in_ses_au)

lemma password_request_counted:
  assumes "svr_auth_password ae valid c = Inr c'" and "\<not> au_authdone (au_of c')" and "\<not> so_multiauthmethod (ae_opts ae)"
  shows "counted ae c c'"
proof -
  obtain ch c1 where c1: "in_ses (from_payload buf_getbool) c = Inr (ch, c1)" using assms(1) by (auto simp: svr_auth_password_def)
  have f1: "au_of c1 = au_of c" by (rule in_ses_au [OF c1])
  show ?thesis
  proof (cases "ch = 0")
    case False
    then show ?thesis using assms(1) c1 failure_counted [of ae False c1 c'] f1 counted_cong(1) [of c1 c] by (simp add: svr_auth_password_def)
  next
    case True
    then obtain pw c2 where c2: "getstr c1 = Inr (pw, c2)" using assms(1) c1 by (auto simp: svr_auth_password_def)
    have f2: "au_of c2 = au_of c" using getstr_au [OF c2] f1 by simp
    have "counted ae c2 c'" using assms c1 c2 True failure_counted [of ae False c2 c'] success_not [of ae c2 c'] check_password_counted [of ae pw c2 c']
      by (auto simp: svr_auth_password_def split: if_splits)
    then show ?thesis using counted_cong(1) [of c2 c] f2 by simp
  qed
qed

lemma verify_key_counted:
  assumes "verify_key ae sigtype keytype po c = Inr c'"
  shows "counted_or_same ae c c'"
proof -
  obtain b ret key type p where b: "payload (ac_ses c) = Some b" "buf_get_pub_key b new_sign_key keytype = Inr (ret, key, type, p)"
    using assms by (auto simp: verify_key_def split: option.splits)
  let ?c = "c\<lparr>ac_ses := (ac_ses c)\<lparr>payload := Some p\<rparr>\<rparr>"
  let ?d = "if au_pubkey_options (au_of ?c) = None then upd_auth (\<lambda>au. au\<lparr>au_pubkey_options := Some po\<rparr>) ?c else ?c"
  let ?e = "upd_auth (\<lambda>au. au\<lparr>au_authtypes := au_authtypes au AND NOT AUTH_TYPE_PUBKEY\<rparr>) ?d"
  have same: "au_failcount (au_of ?c) = au_failcount (au_of c)" "au_failcount (au_of ?d) = au_failcount (au_of c)" "au_failcount (au_of ?e) = au_failcount (au_of c)"
    by (simp_all add: upd_auth_def)
  consider "send_msg_userauth_failure ae False True ?c = Inr c'" | "send_msg_userauth_failure ae True False ?e = Inr c'" | "send_msg_userauth_success ae ?d = Inr c'"
    using assms b by (auto simp: verify_key_def Let_def split: if_splits)
  then show ?thesis
  proof cases
    case 1
    then show ?thesis using failure_counted_or_same counted_cong(2) [OF same(1)] by blast
  next
    case 2
    then show ?thesis using failure_counted_or_same counted_cong(2) [OF same(3)] by blast
  next
    case 3
    then show ?thesis using success_effect [OF 3] same(2) by (simp add: counted_or_same_def)
  qed
qed

lemma key_request_counted:
  assumes "svr_auth_pubkey ae valid c = Inr c'"
  shows "counted_or_same ae c c'"
proof -
  obtain really c1 sigalgo c2 n c3 where c: "in_ses (from_payload buf_getbool) c = Inr (really, c1)" "getstr c1 = Inr (sigalgo, c2)"
    "in_ses (from_payload buf_getint) c2 = Inr (n, c3)" using assms by (auto simp: svr_auth_pubkey_def)
  have au3: "au_of c3 = au_of c" using in_ses_au [OF c(1)] getstr_au [OF c(2)] in_ses_au [OF c(3)] by simp
  note chain = assms [unfolded svr_auth_pubkey_def, unfolded c rbind.simps prod.case]
  show ?thesis
  proof (cases "send_msg_userauth_failure ae False False c3 = Inr c'")
    case True
    then show ?thesis using failure_counted_or_same counted_cong(2) [of c3 c] au3 by fastforce
  next
    case False
    obtain b p keyblob where b: "payload (ac_ses c3) = Some b" "buf_getptr b n = Inr p" "rd_mem (buf_data b) p (unat n) = Inr keyblob"
      using chain by (auto split: option.splits)
    note chain = chain [unfolded b option.case rbind.simps]
    have v: "valid" "signature_type_from_name sigalgo \<noteq> DROPBEAR_SIGNATURE_NONE" using chain False by (auto simp: Let_def split: if_splits)
    obtain keytype keyalgo options au where k: "signkey_type_from_signature (signature_type_from_name sigalgo) = Inr keytype" "signkey_name_from_type keytype = Inr keyalgo"
      "checkpubkey (ae_files ae) (ae_opts ae) keyalgo keyblob (au_of c3) = Inr (options, au)"
      using chain v by (auto simp: Let_def)
    note chain = chain [unfolded Let_def if_not_P [OF v(2)] k rbind.simps prod.case]
    have fc: "au_failcount (au_of (upd_auth (\<lambda>_. au) c3)) = au_failcount (au_of c)" using checkpubkey_same [OF k(3)] au3 by (simp add: upd_auth_def same_progress_def)
    show ?thesis
    proof (cases options)
      case None
      then obtain i d where d: "send_msg_userauth_failure ae False i (upd_auth (\<lambda>_. au) c3) = Inr d" "c' = upd_auth (\<lambda>au. au\<lparr>au_pubkey_query_count := au_pubkey_query_count au + 1\<rparr>) d"
        using chain v(1) by auto
      have "counted_or_same ae c d" using failure_counted_or_same [OF d(1)] counted_cong(2) [OF fc] by simp
      then show ?thesis using d(2) by (simp add: counted_or_same_def counted_def upd_auth_def)
    next
      case (Some po)
      have "really = 0 \<Longrightarrow> au_of c' = au_of (upd_auth (\<lambda>_. au) c3)" using chain v(1) Some auth_send_keeps by (auto simp: send_msg_userauth_pk_ok_def keeps_auth_def)
      moreover have "really \<noteq> 0 \<Longrightarrow> verify_key ae (signature_type_from_name sigalgo) keytype po (upd_auth (\<lambda>_. au) c3) = Inr c'" using chain v(1) Some by simp
      ultimately show ?thesis using fc verify_key_counted [of ae _ keytype po "upd_auth (\<lambda>_. au) c3" c'] counted_cong(2) [OF fc] by (cases "really = 0") (auto simp: counted_or_same_def)
    qed
  qed
qed

lemma try_method_counted:
  assumes "try_method ae m valid c = Inr c'" and "\<not> au_authdone (au_of c')" and "\<not> so_multiauthmethod (ae_opts ae)"
  shows "counted_or_same ae c c'" and "m = str ''password'' \<Longrightarrow> counted ae c c'"
proof -
  show 2: "counted ae c c'" if "m = str ''password''"
    using that assms failure_counted password_request_counted by (auto simp: try_method_def Let_def str_def split: if_splits)
  show "counted_or_same ae c c'"
    using assms failure_counted_or_same success_not key_request_counted password_request_counted unfolding try_method_def Let_def
    by (auto simp: counted_or_same_def split: if_splits)
qed

lemma request_parts:
  assumes "recv_msg_userauth_request ae c = Inr c'" and "\<not> au_authdone (au_of c)"
  obtains c0 username c1 servicename c2 methodname c3 valid c4
  where "keeps_auth ((ac_ses c)\<lparr>authstate := (au_of c)\<lparr>au_starttime := ac_now c\<rparr>\<rparr>) (ac_ses c0)" and "getstr c0 = Inr (username, c1)" and "getstr c1 = Inr (servicename, c2)"
    and "getstr c2 = Inr (methodname, c3)" and "checkusername ae username c3 = Inr (valid, c4)" and "try_method ae methodname valid c4 = Inr c'"
proof -
  let ?c = "upd_auth (\<lambda>au. au\<lparr>au_starttime := ac_now c\<rparr>) c"
  have nd: "\<not> au_authdone (au_of ?c)" using assms(2) by (simp add: upd_auth_def)
  note r = assms(1) [unfolded recv_msg_userauth_request_def Let_def if_not_P [OF nd]]
  obtain c0 where c0: "(case ac_banner ?c of None \<Rightarrow> Inr ?c | Some b \<Rightarrow> rbind (send_msg_userauth_banner ae b ?c) (\<lambda>c. Inr (c\<lparr>ac_banner := None\<rparr>))) = Inr c0"
    using r by (auto simp: rbind_eq_Inr)
  have "keeps_auth (ac_ses ?c) (ac_ses c0)" using c0 auth_send_keeps by (auto simp: send_msg_userauth_banner_def split: option.splits)
  then show ?thesis using r [unfolded c0 rbind.simps] that by (auto simp: upd_auth_def split: if_splits)
qed

lemma request_counted:
  assumes "recv_msg_userauth_request ae (c\<lparr>ac_ses := (ac_ses c)\<lparr>payload := Some b\<rparr>\<rparr>) = Inr c'" and "\<not> au_authdone (au_of c')" and "\<not> so_multiauthmethod (ae_opts ae)"
  shows "counted_or_same ae c c'" and "method_of b = Some (str ''password'') \<Longrightarrow> counted ae c c'"
proof -
  let ?c = "c\<lparr>ac_ses := (ac_ses c)\<lparr>payload := Some b\<rparr>\<rparr>"
  have "\<not> au_authdone (au_of ?c)" using assms(1,2) by (auto simp: recv_msg_userauth_request_def upd_auth_def Let_def split: if_splits)
  from request_parts [OF assms(1) this] obtain c0 c1 c2 c3 c4 username servicename methodname valid where
    "keeps_auth ((ac_ses ?c)\<lparr>authstate := (au_of ?c)\<lparr>au_starttime := ac_now ?c\<rparr>\<rparr>) (ac_ses c0)"
    and c1: "getstr c0 = Inr (username, c1)" and c2: "getstr c1 = Inr (servicename, c2)" and c3: "getstr c2 = Inr (methodname, c3)"
    and c4: "checkusername ae username c3 = Inr (valid, c4)" and t: "try_method ae methodname valid c4 = Inr c'" by metis
  then have k0: "payload (ac_ses c0) = Some b" "au_failcount (au_of c0) = au_failcount (au_of c)" by (simp_all add: keeps_auth_def)
  have fc: "au_failcount (au_of c4) = au_failcount (au_of c)"
    using k0(2) getstr_au [OF c1] getstr_au [OF c2] getstr_au [OF c3] checkusername_effect(2) [OF c4] by (simp add: same_progress_def)
  show "counted_or_same ae c c'" using try_method_counted(1) [OF t assms(2,3)] counted_cong(2) [OF fc] by simp
  assume "method_of b = Some (str ''password'')"
  then have "methodname = str ''password''" using in_payload [OF c1 [unfolded getstr_def]] in_payload [OF c2 [unfolded getstr_def]] in_payload [OF c3 [unfolded getstr_def]] k0(1)
    by (auto simp: method_of_def split: sum.splits)
  then show "counted ae c c'" using try_method_counted(2) [OF t assms(2,3)] counted_cong(1) [OF fc] by simp
qed

lemma authdone_stays: "auth_requests ae bs c = Inr c' \<Longrightarrow> au_authdone (au_of c) \<Longrightarrow> au_authdone (au_of c')"
  by (induction bs arbitrary: c) (fastforce simp: recv_msg_userauth_request_def upd_auth_def)+

lemma guesses_counted:
  assumes "auth_requests ae bs c = Inr c'" and "\<not> au_authdone (au_of c')" and "\<not> so_multiauthmethod (ae_opts ae)" and "so_maxauthtries (ae_opts ae) < 0xffffffff"
    and "au_failcount (au_of c) \<le> so_maxauthtries (ae_opts ae)"
  shows "unat (au_failcount (au_of c)) + length (filter (\<lambda>b. method_of b = Some (str ''password'')) bs) \<le> unat (so_maxauthtries (ae_opts ae))"
  using assms(1,5)
proof (induction bs arbitrary: c)
  case Nil
  then show ?case by (simp add: word_le_nat_alt)
next
  case (Cons b bs)
  obtain d where d: "recv_msg_userauth_request ae (c\<lparr>ac_ses := (ac_ses c)\<lparr>payload := Some b\<rparr>\<rparr>) = Inr d" "auth_requests ae bs d = Inr c'" using Cons.prems(1) by auto
  have nd: "\<not> au_authdone (au_of d)" using authdone_stays [OF d(2)] assms(2) by blast
  note r = request_counted [OF d(1) nd assms(3)]
  have le: "au_failcount (au_of d) \<le> so_maxauthtries (ae_opts ae)" using r(1) Cons.prems(2) by (auto simp: counted_or_same_def counted_def)
  have step: "unat (au_failcount (au_of d)) = unat (au_failcount (au_of c)) + 1" if "counted ae c d"
    using that Cons.prems(2) assms(4) by (simp add: counted_def word_le_nat_alt word_less_nat_alt unat_add_u32)
  show ?case using Cons.IH [OF d(2) le] r step by (auto simp: counted_or_same_def)
qed

text \<open>
  C3. A client has a limited number of guesses. On a server that does not ask for a second method, without the option \<^verbatim>\<open>-t\<close>, a session that is not authenticated survives no more requests with the method
  \<^verbatim>\<open>password\<close> than the option \<^verbatim>\<open>-T\<close> allows, whatever other requests there are in between, whatever user they name and however they are made up. With \<^verbatim>\<open>-t\<close> the
  statement is false: a correct password is then answered with a failure that is not counted, also when it is repeated, until the public key is there.
\<close>

theorem guesses_limited:
  assumes "auth_requests ae bs c = Inr c'" and "\<not> au_authdone (au_of c')" and "\<not> so_multiauthmethod (ae_opts ae)" and "so_maxauthtries (ae_opts ae) < 0xffffffff"
    and "au_failcount (au_of c) = 0"
  shows "length (filter (\<lambda>b. method_of b = Some (str ''password'')) bs) \<le> unat (so_maxauthtries (ae_opts ae))"
  using guesses_counted [OF assms(1-4)] assms(5) by (simp add: word_le_nat_alt)

text \<open>One guess for a user that does not exist.\<close>

lemma failure_works:
  assumes "can_send ae c" and "au_failcount (au_of c) < so_maxauthtries (ae_opts ae)"
  shows "\<exists>c'. send_msg_userauth_failure ae p True c = Inr c'"
proof -
  let ?fs = "[F_byte SSH_MSG_USERAUTH_FAILURE, F_str (auth_methods (au_authtypes (au_of c))), F_byte (if p then 1 else 0)]"
  have "length (message ?fs) \<le> 16384" "message ?fs \<noteq> []" by (simp_all add: message_def auth_methods_def str_def)
  then obtain s where s: "rbind (put_fields ?fs (ac_ses c)) (encrypt_packet (ae_prims ae)) = Inr s" "app_same (ac_ses c) s"
    using ssh.send_fields [of "ae_prims ae" "ac_ses c" ?fs] assms(1) by (auto simp: can_send_def)
  have "auth_send ae ?fs c = Inr (c\<lparr>ac_ses := s\<rparr>)" using s(1) by (simp only: auth_send_def on_ses_def) simp
  moreover have "\<not> so_maxauthtries (ae_opts ae) < au_failcount (authstate s) + 1"
    using assms(2) s(2) inc_le [of "au_failcount (au_of c)" "so_maxauthtries (ae_opts ae)"] by (simp add: app_same_def not_less add.commute)
  ultimately show ?thesis by (simp add: send_msg_userauth_failure_def genrandom_def upd_auth_def Let_def split: prod.split)
qed

definition guess_packet :: buffer where
  "guess_packet = (let bs = message [F_str (str ''eve''), F_str (str ''ssh-connection''), F_str (str ''password''), F_byte 0, F_str (str ''x'')] in
     \<lparr>buf_data = bs, buf_len = of_nat (length bs), buf_pos = 0, buf_size = of_nat (length bs)\<rparr>)"

definition guess_env :: auth_env where
  "guess_env = console_env\<lparr>ae_opts := user_opts\<rparr>"

lemma guess_packet_ok:
  "buf_ok guess_packet" "buf_rest guess_packet = field_wire (F_str (str ''eve'')) @ field_wire (F_str (str ''ssh-connection'')) @ field_wire (F_str (str ''password'')) @ field_wire (F_byte 0) @ field_wire (F_str (str ''x''))"
  by (simp_all add: guess_packet_def Let_def buf_ok_def buf_rest_def message_def str_def)

lemma guess_request:
  assumes "sendable counting_primitives ses" and "wp_empty ses"
  shows "\<exists>c'. auth_requests guess_env [guess_packet] (console_ctx ses) = Inr c' \<and> \<not> au_authdone (au_of c')"
proof -
  let ?init = "(console_ctx ses)\<lparr>ac_ses := (ac_ses (console_ctx ses))\<lparr>payload := Some guess_packet\<rparr>\<rparr>"
  let ?c = "upd_auth (\<lambda>au. au\<lparr>au_starttime := ac_now ?init\<rparr>) ?init"
  have len: "length (str ''eve'') \<le> 9000" "length (str ''ssh-connection'') \<le> 9000" "length (str ''password'') \<le> 9000" "length (str ''x'') \<le> 9000" by (simp_all add: str_def)
  have send: "can_send guess_env ?c"
    using assms by (simp add: can_send_def console_ctx_def svr_authinitialise_def upd_auth_def guess_env_def console_env_def sendable_def wp_ok_def wp_empty_def)
  have p0: "pay ?c (field_wire (F_str (str ''eve'')) @ field_wire (F_str (str ''ssh-connection'')) @ field_wire (F_str (str ''password'')) @ field_wire (F_byte 0) @ field_wire (F_str (str ''x'')) @ [])"
    using guess_packet_ok by (simp add: pay_def upd_auth_def)
  obtain c1 where c1: "getstr ?c = Inr (str ''eve'', c1)" "same_but_payload ?c c1" and p1: "pay c1 (field_wire (F_str (str ''ssh-connection'')) @ field_wire (F_str (str ''password'')) @ field_wire (F_byte 0) @ field_wire (F_str (str ''x'')) @ [])"
    using getstr_wire [OF p0 len(1)] by blast
  obtain c2 where c2: "getstr c1 = Inr (str ''ssh-connection'', c2)" "same_but_payload c1 c2" and p2: "pay c2 (field_wire (F_str (str ''password'')) @ field_wire (F_byte 0) @ field_wire (F_str (str ''x'')) @ [])"
    using getstr_wire [OF p1 len(2)] by blast
  obtain c3 where c3: "getstr c2 = Inr (str ''password'', c3)" "same_but_payload c2 c3" and p3: "pay c3 (field_wire (F_byte 0) @ field_wire (F_str (str ''x'')) @ [])"
    using getstr_wire [OF p2 len(3)] by blast
  have au3: "au_of c3 = au_of ?c" using same_but_payload_au [OF c1(2)] same_but_payload_au [OF c2(2)] same_but_payload_au [OF c3(2)] by simp
  have au: "au_username (au_of ?c) = None" "\<not> au_checkusername_failed (au_of ?c)" "\<not> au_authdone (au_of ?c)" "au_failcount (au_of ?c) = 0" "ac_banner ?c = None"
    by (simp_all add: upd_auth_def console_ctx_def svr_authinitialise_def authstate_zero_def)
  define c4 where "c4 = upd_auth (\<lambda>au. au\<lparr>au_checkusername_failed := True\<rparr>) (upd_auth (\<lambda>au. (fill_passwd guess_env (str ''eve'') au)\<lparr>au_username := Some (str ''eve'')\<rparr>) c3)"
  have ne: "str ''eve'' \<noteq> str ''root''" "\<not> length (str ''eve'') > MAX_USERNAME_LEN" "0 \<notin> set (str ''eve'')" "str ''password'' \<noteq> str ''none''" by (simp_all add: str_def)
  have user: "checkusername guess_env (str ''eve'') c3 = Inr (False, c4)"
  proof -
    let ?d = "upd_auth (\<lambda>au. (fill_passwd guess_env (str ''eve'') au)\<lparr>au_username := Some (str ''eve'')\<rparr>) c3"
    have "au_username (au_of c3) = None" "\<not> au_checkusername_failed (au_of c3)" using au(1,2) by (simp_all only: au3 not_False_eq_True)
    moreover from this(2) have "\<not> au_checkusername_failed (au_of ?d)" "au_pw_name (au_of ?d) = None"
      using ne(1) by (simp_all add: upd_auth_def fill_passwd_def guess_env_def console_env_def)
    ultimately have "set_username guess_env (str ''eve'') c3 = Inr ?d" "check_account guess_env ?d = (False, c4)" by (simp_all add: set_username_def check_account_def c4_def)
    then show ?thesis using ne(2,3) by (simp add: checkusername_def)
  qed
  have p4: "pay c4 (field_wire (F_byte 0) @ field_wire (F_str (str ''x'')) @ [])" using p3 by (simp add: pay_def c4_def upd_auth_def)
  obtain c5 where c5: "in_ses (from_payload buf_getbool) c4 = Inr (0, c5)" "same_but_payload c4 c5" and p5: "pay c5 (field_wire (F_str (str ''x'')) @ [])"
    using getbool_wire [OF p4] by blast
  obtain c6 where c6: "getstr c5 = Inr (str ''x'', c6)" "same_but_payload c5 c6" using getstr_wire [OF p5 len(4)] by blast
  have send6: "can_send guess_env c6"
    using can_send_changes(1) [OF c6(2) can_send_changes(1) [OF c5(2)]] can_send_changes(1) [OF c3(2) can_send_changes(1) [OF c2(2) can_send_changes(1) [OF c1(2) send]]]
    by (simp add: c4_def can_send_changes(2))
  have au6: "au_failcount (au_of c6) = 0" "\<not> au_authdone (au_of c6)"
    using same_but_payload_au [OF c5(2)] same_but_payload_au [OF c6(2)] au3 au fill_passwd_same [of "au_of c3" guess_env "str ''eve''"] by (simp_all add: c4_def upd_auth_def same_progress_def)
  have opts: "so_maxauthtries (ae_opts guess_env) = 10" "\<not> so_noauthpass (ae_opts guess_env)" "\<not> so_norootpass (ae_opts guess_env)" by (simp_all add: guess_env_def console_env_def user_opts_def)
  obtain c' where c': "send_msg_userauth_failure guess_env False True c6 = Inr c'" using failure_works [OF send6] au6(1) opts(1) by auto
  have "try_method guess_env (str ''password'') False c4 = Inr c'" using c5(1) c6(1) c' opts(2,3) ne(4) by (simp add: try_method_def svr_auth_password_def)
  then have "recv_msg_userauth_request guess_env ?init = Inr c'" using c1(1) c2(1) c3(1) user au(3,5) by (simp add: recv_msg_userauth_request_def)
  then show ?thesis using failure_not_done [OF c'] au6(2) by simp
qed

theorem guesses_limited_witness:
  "\<exists>ses c'. common_session_init 3 4 ses_zero = Inr ses \<and> auth_requests guess_env [guess_packet] (console_ctx ses) = Inr c'
     \<and> length (filter (\<lambda>b. method_of b = Some (str ''password'')) [guess_packet]) \<le> 10"
proof -
  obtain ses where s: "common_session_init 3 4 ses_zero = Inr ses" "sendable counting_primitives ses" "wp_empty ses" using console_session by blast
  obtain c' where c': "auth_requests guess_env [guess_packet] (console_ctx ses) = Inr c'" "\<not> au_authdone (au_of c')" using guess_request [OF s(2,3)] by blast
  have "\<not> so_multiauthmethod (ae_opts guess_env)" "so_maxauthtries (ae_opts guess_env) < 0xffffffff" "au_failcount (au_of (console_ctx ses)) = 0" "unat (so_maxauthtries (ae_opts guess_env)) = 10"
    by (simp_all add: guess_env_def console_env_def user_opts_def console_ctx_def svr_authinitialise_def upd_auth_def authstate_zero_def)
  with guesses_limited [OF c' this(1-3)] c'(1) s(1) show ?thesis by metis
qed

text \<open>
  A failed attempt takes its time: when the clock has not gone backwards, the answer is delayed until at least 250 ms have passed since the request came, and by less than 350 ms; a request that had
  taken less than 250 ms is answered within 350 ms in all. The time to sleep is a proper one, below a second.
\<close>

theorem failure_delay_bounds:
  assumes "starttime \<le> now" and "failure_delay starttime now rand = (sec, nsec)"
  shows "sec = 0 \<and> 0 \<le> nsec \<and> nsec < 350000000 \<and> 250000000 \<le> now - starttime + nsec \<and> (now - starttime < 250000000 \<longrightarrow> now - starttime + nsec < 350000000)"
proof -
  define r where "r = int (unat rand mod 100000000)"
  have r: "0 \<le> r" "r < 100000000" by (simp_all add: r_def)
  define dsec where "dsec = (now - starttime) div ns_per_s"
  define dnsec where "dnsec = (now - starttime) mod ns_per_s"
  have d: "now - starttime = dsec * ns_per_s + dnsec" "0 \<le> dnsec" "dnsec < ns_per_s" "0 \<le> dsec" using assms(1) by (simp_all add: dsec_def dnsec_def pos_imp_zdiv_nonneg_iff)
  have "failure_delay starttime now rand = (if dsec = 0 \<and> dnsec \<le> 250000000 + r then (dsec, 250000000 + r - dnsec) else (0, 250000000 + r))"
  proof -
    define nd nm sd sm where "nd = now div ns_per_s" and "nm = now mod ns_per_s" and "sd = starttime div ns_per_s" and "sm = starttime mod ns_per_s"
    have parts: "now = nd * ns_per_s + nm" "starttime = sd * ns_per_s + sm" "0 \<le> nm" "nm < ns_per_s" "0 \<le> sm" "sm < ns_per_s" by (simp_all add: nd_def nm_def sd_def sm_def)
    have "dsec = nd - sd - (if nm - sm < 0 then 1 else 0)" "dnsec = nm - sm + (if nm - sm < 0 then ns_per_s else 0)"
    proof -
      let ?borrow = "nm - sm < 0"
      have sum: "now - starttime = ns_per_s * (nd - sd - (if ?borrow then 1 else 0)) + (nm - sm + (if ?borrow then ns_per_s else 0))" using parts by auto
      have range: "0 \<le> nm - sm + (if ?borrow then ns_per_s else 0)" "nm - sm + (if ?borrow then ns_per_s else 0) < ns_per_s" using parts by auto
      show "dsec = nd - sd - (if ?borrow then 1 else 0)" "dnsec = nm - sm + (if ?borrow then ns_per_s else 0)"
        unfolding dsec_def dnsec_def by (rule int_div_pos_eq [OF sum range], rule int_mod_pos_eq [OF sum range])
    qed
    then have eq: "now div ns_per_s - starttime div ns_per_s - (if now mod ns_per_s - starttime mod ns_per_s < 0 then 1 else 0) = dsec
      \<and> now mod ns_per_s - starttime mod ns_per_s + (if now mod ns_per_s - starttime mod ns_per_s < 0 then ns_per_s else 0) = dnsec"
      by (simp add: nd_def nm_def sd_def sm_def)
    then show ?thesis by (auto simp: failure_delay_def Let_def r_def [symmetric] split: if_splits)
  qed
  then show ?thesis using assms(2) d r by (auto split: if_splits)
qed

theorem failure_delay_bounds_witness: "failure_delay 900000000 1050000000 5 = (0, 100000005)"
  using failure_delay_bounds [of 900000000 1050000000 5 0 100000005] by (simp add: failure_delay_def)

end
