(* ===== verification/Timers.thy ===== *)
theory Timers
  imports Kex Channel
begin

text \<open>
  The part of src/dropbear/src/common-session.c that depends on time: the limits of a session, how long it may sleep, the version line of the server, and the reading of that of the peer, a byte at a time.
  Times are in seconds; the clock of the session is the one of \<^verbatim>\<open>monotonic_now\<close>.
\<close>

section \<open>Limits\<close>

abbreviation KEX_REKEY_TIMEOUT :: int where "KEX_REKEY_TIMEOUT \<equiv> 28800"
abbreviation KEX_REKEY_DATA :: u32 where "KEX_REKEY_DATA \<equiv> 0x40000000"
abbreviation AUTH_TIMEOUT :: int where "AUTH_TIMEOUT \<equiv> 300"
abbreviation DEFAULT_KEEPALIVE_LIMIT :: int where "DEFAULT_KEEPALIVE_LIMIT \<equiv> 3"
abbreviation LONG_MAX :: int where "LONG_MAX \<equiv> 0x7fffffffffffffff"

definition DROPBEAR_KEEPALIVE_STRING :: "byte list" where "DROPBEAR_KEEPALIVE_STRING = str ''keepalive@openssh.com''"

text \<open>The options of src/dropbear/src/runopts.h that are times, and what the messages need. A limit of 0 is none.\<close>

record timer_env =
  te_ke :: kex_env
  te_pr :: primitives
  te_keepalive_secs :: int
  te_idle_timeout_secs :: int
  te_max_duration_secs :: int

definition elapsed :: "int \<Rightarrow> int \<Rightarrow> int" where
  "elapsed now prev = (let del = now - prev in if del > LONG_MAX then LONG_MAX else del)"

definition send_msg_keepalive :: "timer_env \<Rightarrow> sshsession \<Rightarrow> sshsession res" where
  "send_msg_keepalive te ses = (let old_time_idle = last_packet_time_idle ses in
     rbind (get_any_ready_channel ses) (\<lambda>chan.
     rbind (case chan of Some i \<Rightarrow> start_send_channel_request i DROPBEAR_KEEPALIVE_STRING ses
            | None \<Rightarrow> put_fields [F_byte SSH_MSG_GLOBAL_REQUEST, F_str DROPBEAR_KEEPALIVE_STRING] ses) (\<lambda>ses.
     rbind (put_fields [F_byte 1] ses) (\<lambda>ses.
     rbind (encrypt_packet (te_pr te) ses) (\<lambda>ses.
     Inr (ses\<lparr>last_packet_time_keepalive_sent := clock ses, last_packet_time_idle := old_time_idle\<rparr>))))))"

text \<open>The three parts of \<^verbatim>\<open>checktimeouts\<close> behind the limit for authentication: a new key exchange, keepalives, and the other limits.\<close>

definition rekey_due :: "sshsession \<Rightarrow> bool" where
  "rekey_due ses \<longleftrightarrow> \<not> sentkexinit (kexstate ses) \<and> (elapsed (clock ses) (lastkextime (kexstate ses)) \<ge> KEX_REKEY_TIMEOUT
     \<or> datarecv (kexstate ses) + datatrans (kexstate ses) \<ge> KEX_REKEY_DATA \<or> needrekey (kexstate ses))"

definition check_rekey :: "timer_env \<Rightarrow> sshsession \<Rightarrow> sshsession res" where
  "check_rekey te ses = (if rekey_due ses then send_msg_kexinit (te_ke te) (te_pr te) (ses\<lparr>kexstate := (kexstate ses)\<lparr>needrekey := False\<rparr>\<rparr>) else Inr ses)"

definition check_keepalive :: "timer_env \<Rightarrow> int \<Rightarrow> sshsession \<Rightarrow> sshsession res" where
  "check_keepalive te now ses = (let secs = te_keepalive_secs te in
     if secs > 0 \<and> au_authdone (authstate ses) then
       rbind (if elapsed now (last_packet_time_any_sent ses) \<ge> secs then send_msg_keepalive te ses else Inr ses) (\<lambda>ses.
       rbind (if elapsed now (last_packet_time_keepalive_recv ses) \<ge> secs \<and> elapsed now (last_packet_time_keepalive_sent ses) \<ge> secs
              then send_msg_keepalive te ses else Inr ses) (\<lambda>ses.
       if elapsed now (last_packet_time_keepalive_recv ses) \<ge> secs * DEFAULT_KEEPALIVE_LIMIT then Inl (Exit ''Keepalive timeout'') else Inr ses))
     else Inr ses)"

definition check_limits :: "timer_env \<Rightarrow> int \<Rightarrow> sshsession \<Rightarrow> sshsession res" where
  "check_limits te now ses = (if te_idle_timeout_secs te > 0 \<and> elapsed now (last_packet_time_idle ses) \<ge> te_idle_timeout_secs te then Inl (Close ''Idle timeout'')
     else if te_max_duration_secs te > 0 \<and> elapsed now (connect_time ses) \<ge> te_max_duration_secs te then Inl (Close ''Max duration reached'')
     else Inr ses)"

definition checktimeouts :: "timer_env \<Rightarrow> sshsession \<Rightarrow> sshsession res" where
  "checktimeouts te ses = (let now = clock ses in
     if \<not> au_authdone (authstate ses) \<and> elapsed now (connect_time ses) \<ge> AUTH_TIMEOUT then Inl (Close ''Timeout before auth'')
     else if remoteident ses = None then Inr ses
     else rbind (check_rekey te ses) (\<lambda>ses. rbind (check_keepalive te now ses) (check_limits te now)))"

section \<open>Sleeping\<close>



section \<open>The version line\<close>

text \<open>
  What the calls of \<^verbatim>\<open>ident_readln\<close> answer in a round: \<^verbatim>\<open>select\<close> is interrupted, fails or finds nothing for a second, or \<^verbatim>\<open>read\<close> gives a byte, the end, an interruption or an error, with the seconds that have passed.
  When the answers are used up nothing comes any more.
\<close>

datatype ident_event = Sel_intr | Sel_error | Sel_timeout | Rd_byte byte | Rd_eof | Rd_intr | Rd_error

definition next_event :: "(nat \<times> ident_event) list \<Rightarrow> nat \<times> ident_event" where
  "next_event evs = (case evs of [] \<Rightarrow> (1, Sel_timeout) | e # _ \<Rightarrow> e)"

definition pass_time :: "nat \<Rightarrow> sshsession \<Rightarrow> sshsession" where
  "pass_time n ses = ses\<lparr>clock := clock ses + int n\<rparr>"

abbreviation LINEBUF_SIZE :: nat where "LINEBUF_SIZE \<equiv> 256"

text \<open>
  A round of the loop of \<^verbatim>\<open>ident_readln\<close>: it ends it, with the line, with \<open>None\<close> for the result -1 or with the session, or it goes on with the line so far.
\<close>

definition ident_round :: "timer_env \<Rightarrow> ident_event \<Rightarrow> byte list \<Rightarrow> sshsession \<Rightarrow> (byte list option \<times> sshsession) res + byte list \<times> sshsession" where
  "ident_round te ev buf ses = (if ev = Sel_intr then Inr (buf, ses) else if ev = Sel_error then Inl (Inr (None, ses))
     else case checktimeouts te ses of Inl e \<Rightarrow> Inl (Inl e) | Inr ses \<Rightarrow>
       (case ev of
          Rd_byte c \<Rightarrow> if c = 0x0a then Inl (Inr (Some buf, ses)) else Inr (if c \<noteq> 0x0d then buf @ [c] else buf, ses)
        | Rd_eof \<Rightarrow> Inl (Inr (None, ses))
        | Rd_error \<Rightarrow> Inl (Inr (None, ses))
        | _ \<Rightarrow> Inr (buf, ses)))"

text \<open>The loop is not bounded by itself, so that it is a partial function.\<close>

partial_function (option) ident_loop ::
  "timer_env \<Rightarrow> (nat \<times> ident_event) list \<Rightarrow> byte list \<Rightarrow> sshsession \<Rightarrow> (byte list option \<times> sshsession) res option" where
  "ident_loop te evs buf ses = (if length buf \<ge> LINEBUF_SIZE - 1 then Some (Inr (Some buf, ses))
     else case ident_round te (snd (next_event evs)) buf (pass_time (fst (next_event evs)) ses) of
       Inl r \<Rightarrow> Some r
     | Inr (buf, ses) \<Rightarrow> ident_loop te (tl evs) buf ses)"

declare ident_loop.simps [code]

text \<open>The server reads one line. The line ends at its first null byte for all who read it later.\<close>

definition ident_of :: "byte list option \<Rightarrow> sshsession \<Rightarrow> sshsession res" where
  "ident_of line ses = (case line of None \<Rightarrow> svr_remoteclosed ses
     | Some s \<Rightarrow> if take 4 (s @ [0]) \<noteq> str ''SSH-'' then svr_remoteclosed ses
         else let ident = takeWhile (\<lambda>c. c \<noteq> 0) s in
           if take 6 ident \<noteq> str ''SSH-2.'' \<and> take 9 ident \<noteq> str ''SSH-1.99-'' then Inl (Exit ''Incompatible remote version'')
           else Inr (ses\<lparr>remoteident := Some ident\<rparr>))"

definition read_session_identification :: "timer_env \<Rightarrow> (nat \<times> ident_event) list \<Rightarrow> sshsession \<Rightarrow> sshsession res option" where
  "read_session_identification te evs ses = map_option (\<lambda>r. rbind r (\<lambda>(line, ses). ident_of line ses)) (ident_loop te evs [] ses)"

text \<open>
  \<^verbatim>\<open>send_session_identification\<close> in the branch for the console: the line is written at once, not through the queue. The answers of \<^verbatim>\<open>send\<close> are a count, an interruption or another error, the one of a socket that would
  block among them; \<open>None\<close> is that the answers are used up before the line is out.
\<close>

datatype send_result = Sent nat | Send_intr | Send_error

definition identification :: "byte list" where "identification = LOCAL_IDENT @ [0x0d, 0x0a]"

fun send_ident_loop :: "send_result list \<Rightarrow> nat \<Rightarrow> sshsession \<Rightarrow> sshsession res option" where
  "send_ident_loop [] offset ses = (if offset < length identification then None else Some (Inr ses))"
| "send_ident_loop (a # ans) offset ses = (if offset < length identification then
     (case a of
        Send_intr \<Rightarrow> send_ident_loop ans offset ses
      | Send_error \<Rightarrow> Some (Inl (Exit ''failed to send identification: %s''))
      | Sent n \<Rightarrow> let written = min n (length identification - offset) in
          if written = 0 then Some (Inl (Exit ''failed to send identification: %s''))
          else send_ident_loop ans (offset + written) (ses\<lparr>socket_output := socket_output ses @ take written (drop offset identification)\<rparr>))
     else Some (Inr ses))"

definition send_session_identification :: "send_result list \<Rightarrow> sshsession \<Rightarrow> sshsession res option" where
  "send_session_identification ans ses = send_ident_loop ans 0 ses"

section \<open>The times that matter\<close>

text \<open>The session before the version line of the peer has come, and the times at which a session has to be over.\<close>

definition before_ident :: "sshsession \<Rightarrow> bool" where
  "before_ident ses \<longleftrightarrow> \<not> au_authdone (authstate ses) \<and> remoteident ses = None"


text \<open>Limits and a session for the witnesses.\<close>

definition toy_timers :: timer_env where
  "toy_timers = \<lparr>te_ke = toy_env, te_pr = counting_primitives, te_keepalive_secs = 0, te_idle_timeout_secs = 60, te_max_duration_secs = 0\<rparr>"


section \<open>The version line is read in time\<close>

lemma elapsed_ge: "n \<le> LONG_MAX \<Longrightarrow> elapsed now prev \<ge> n \<longleftrightarrow> now - prev \<ge> n"
  by (auto simp: elapsed_def Let_def)

lemma checktimeouts_before_ident:
  assumes "before_ident ses"
  shows "checktimeouts te ses = (if clock ses - connect_time ses \<ge> AUTH_TIMEOUT then Inl (Close ''Timeout before auth'') else Inr ses)"
  using assms by (simp add: checktimeouts_def before_ident_def elapsed_ge)

lemma before_ident_pass [simp]: "before_ident (pass_time n ses) = before_ident ses" "connect_time (pass_time n ses) = connect_time ses" "clock (pass_time n ses) = clock ses + int n"
  by (simp_all add: before_ident_def pass_time_def)

text \<open>What a round can do, while the limit for the authentication is not reached.\<close>

lemma ident_round_cases:
  assumes "before_ident ses"
  shows "case ident_round te ev buf ses of
      Inl (Inl e) \<Rightarrow> e = Close ''Timeout before auth''
    | Inl (Inr (line, s)) \<Rightarrow> s = ses \<and> (line = None \<or> line = Some buf)
    | Inr (buf', s) \<Rightarrow> s = ses \<and> length buf' \<le> Suc (length buf) \<and> (ev = Sel_intr \<or> clock ses - connect_time ses < AUTH_TIMEOUT)"
  using assms by (auto simp: ident_round_def checktimeouts_before_ident split: ident_event.splits)

lemma ident_loop_ends:
  assumes "before_ident ses" and "length buf \<le> 255"
  shows "\<exists>r. ident_loop te evs buf ses = Some r \<and> (case r of Inl e \<Rightarrow> e = Close ''Timeout before auth''
    | Inr (line, s) \<Rightarrow> (case line of None \<Rightarrow> True | Some l \<Rightarrow> length l \<le> 255) \<and> (\<exists>t. s = ses\<lparr>clock := t\<rparr>))"
  using assms
proof (induction "(length evs, nat (connect_time ses + AUTH_TIMEOUT - clock ses))" arbitrary: evs buf ses rule: wf_induct_rule [OF wf_lex_prod [OF wf_less_than wf_less_than]])
  case 1
  let ?dt = "fst (next_event evs)" and ?ev = "snd (next_event evs)"
  let ?s = "pass_time ?dt ses"
  have b: "before_ident ?s" using 1(2) by simp
  have clk: "\<exists>t. ?s = ses\<lparr>clock := t\<rparr>" "\<exists>t. ses = ses\<lparr>clock := t\<rparr>" by (auto simp: pass_time_def intro: exI [of _ "clock ses"])
  show ?case
  proof (cases "length buf \<ge> LINEBUF_SIZE - 1")
    case True
    then have lp: "ident_loop te evs buf ses = Some (Inr (Some buf, ses))" by (subst ident_loop.simps) (rule if_P)
    show ?thesis unfolding lp by (rule exI [of _ "Inr (Some buf, ses)"], use 1(3) in simp, rule exI [of _ "clock ses"], simp)
  next
    case False
    note loop = ident_loop.simps [of te evs buf ses, unfolded if_not_P [OF False]]
    show ?thesis
    proof (cases "ident_round te ?ev buf ?s")
      case (Inl r)
      then have lp: "ident_loop te evs buf ses = Some r" using loop by simp
      show ?thesis
      proof (cases r)
        case (Inl e)
        then show ?thesis using ident_round_cases [OF b, where te = te and ev = ?ev and buf = buf] lp \<open>ident_round te ?ev buf ?s = Inl r\<close> by simp
      next
        case (Inr q)
        obtain line s where q: "q = (line, s)" by fastforce
        then have "s = ?s" "line = None \<or> line = Some buf"
          using ident_round_cases [OF b, where te = te and ev = ?ev and buf = buf] Inr \<open>ident_round te ?ev buf ?s = Inl r\<close> by simp_all
        then have "case line of None \<Rightarrow> True | Some l \<Rightarrow> length l \<le> 255" "\<exists>t. s = ses\<lparr>clock := t\<rparr>" using 1(3) clk(1) by (auto split: option.splits)
        then show ?thesis using lp Inr q by simp
      qed
    next
      case (Inr p)
      obtain buf' where p: "p = (buf', ?s)" "length buf' \<le> Suc (length buf)" "?ev = Sel_intr \<or> clock ?s - connect_time ?s < AUTH_TIMEOUT"
        using ident_round_cases [OF b, where te = te and ev = ?ev and buf = buf] Inr by (cases p) simp
      have "((length (tl evs), nat (connect_time ?s + AUTH_TIMEOUT - clock ?s)), (length evs, nat (connect_time ses + AUTH_TIMEOUT - clock ses))) \<in> less_than <*lex*> less_than"
        using p(3) by (cases evs) (auto simp: next_event_def)
      from 1(1) [OF _ b, of "tl evs" buf'] this False p(2) obtain r where "ident_loop te (tl evs) buf' ?s = Some r" "case r of Inl e \<Rightarrow> e = Close ''Timeout before auth''
        | Inr (line, s) \<Rightarrow> (case line of None \<Rightarrow> True | Some l \<Rightarrow> length l \<le> 255) \<and> (\<exists>t. s = ?s\<lparr>clock := t\<rparr>)" by auto
      moreover have "ident_loop te evs buf ses = ident_loop te (tl evs) buf' ?s" using loop Inr p(1) by simp
      ultimately show ?thesis by (auto simp: pass_time_def split: sum.splits)
    qed
  qed
qed

text \<open>
  C32. Waiting for the version line ends whatever the peer sends or does not send: \<^verbatim>\<open>read_session_identification\<close> returns, with a version line of at most 255 bytes that is one of version 2 of the protocol, or the session is closed;
  apart from the line and the time the session is as it was.
\<close>

theorem version_line_wait_ends:
  assumes "\<not> au_authdone (authstate ses)" and "remoteident ses = None"
  shows "\<exists>r. read_session_identification te evs ses = Some r \<and> (case r of Inl e \<Rightarrow> orderly e
    | Inr s \<Rightarrow> (\<exists>t ident. s = ses\<lparr>clock := t, remoteident := Some ident\<rparr> \<and> length ident \<le> 255 \<and> (take 6 ident = str ''SSH-2.'' \<or> take 9 ident = str ''SSH-1.99-'')))"
proof -
  have "before_ident ses" using assms by (simp add: before_ident_def)
  from ident_loop_ends [OF this, of "[]" te evs] obtain r where r: "ident_loop te evs [] ses = Some r" "case r of Inl e \<Rightarrow> e = Close ''Timeout before auth''
    | Inr (line, s) \<Rightarrow> (case line of None \<Rightarrow> True | Some l \<Rightarrow> length l \<le> 255) \<and> (\<exists>t. s = ses\<lparr>clock := t\<rparr>)" by auto
  show ?thesis
  proof (cases r)
    case (Inr p)
    obtain line s where p: "p = (line, s)" by fastforce
    then obtain t where s: "s = ses\<lparr>clock := t\<rparr>" "case line of None \<Rightarrow> True | Some l \<Rightarrow> length l \<le> 255" using r(2) Inr by auto
    have "length (takeWhile (\<lambda>c. c \<noteq> 0) l) \<le> 255" if "line = Some l" for l using s(2) that length_takeWhile_le [of "\<lambda>c. c \<noteq> 0" l] by simp
    then show ?thesis using r(1) Inr p s by (auto simp: read_session_identification_def ident_of_def svr_remoteclosed_def Let_def split: option.splits)
  qed (use r in \<open>simp add: read_session_identification_def\<close>)
qed

theorem version_line_wait_ends_witness:
  "\<exists>r. read_session_identification toy_timers [(3, Rd_byte 0x53), (299, Rd_intr)] ses_zero = Some r \<and> (case r of Inl e \<Rightarrow> orderly e
    | Inr s \<Rightarrow> (\<exists>t ident. s = ses_zero\<lparr>clock := t, remoteident := Some ident\<rparr> \<and> length ident \<le> 255 \<and> (take 6 ident = str ''SSH-2.'' \<or> take 9 ident = str ''SSH-1.99-'')))"
  by (rule version_line_wait_ends) (simp_all add: ses_zero_def authstate_zero_def)

section \<open>The version line arrives\<close>

lemma send_ident_loop_progress:
  assumes "\<forall>a\<in>set ans. a = Send_intr \<or> (\<exists>n. a = Sent (Suc n))" and "offset \<le> length identification"
    and "length identification \<le> offset + length (filter (\<lambda>a. a \<noteq> Send_intr) ans)"
  shows "send_ident_loop ans offset ses = Some (Inr (ses\<lparr>socket_output := socket_output ses @ drop offset identification\<rparr>))"
  using assms
proof (induction ans arbitrary: offset ses)
  case (Cons a ans)
  show ?case
  proof (cases "offset < length identification \<and> a \<noteq> Send_intr")
    case True
    then obtain n where n: "a = Sent (Suc n)" using Cons.prems(1) by auto
    define w where "w = min (Suc n) (length identification - offset)"
    have w: "w \<noteq> 0" "offset + w \<le> length identification" using True by (auto simp: w_def)
    have "take w (drop offset identification) @ drop (offset + w) identification = drop offset identification"
      by (metis append_take_drop_id drop_drop add.commute)
    then show ?thesis
      using Cons.IH [of "offset + w" "ses\<lparr>socket_output := socket_output ses @ take w (drop offset identification)\<rparr>"] Cons.prems w True
      by (simp add: n w_def [symmetric] Let_def)
  next
    case False
    then show ?thesis using Cons.IH [of offset ses] Cons.prems by (auto simp: not_less)
  qed
qed auto

lemma ident_loop_line:
  assumes "before_ident ses" and "clock ses - connect_time ses < AUTH_TIMEOUT" and "0x0a \<notin> set xs"
    and "length buf + length (filter (\<lambda>c. c \<noteq> 0x0d) xs) < LINEBUF_SIZE - 1"
  shows "ident_loop te (map (\<lambda>c. (0, Rd_byte c)) (xs @ [0x0a])) buf ses = Some (Inr (Some (buf @ filter (\<lambda>c. c \<noteq> 0x0d) xs), ses))"
  using assms(3,4)
proof (induction xs arbitrary: buf)
  have p: "pass_time 0 ses = ses" by (simp add: pass_time_def)
  have r: "ident_round te (Rd_byte c) buf ses = (if c = 0x0a then Inl (Inr (Some buf, ses)) else Inr (if c \<noteq> 0x0d then buf @ [c] else buf, ses))" for c buf
    using assms(1,2) by (simp add: ident_round_def checktimeouts_before_ident)
  {
    case Nil
    then show ?case by (subst ident_loop.simps) (simp add: next_event_def p r)
  next
    case (Cons c xs)
    have "ident_loop te (map (\<lambda>c. (0, Rd_byte c)) ((c # xs) @ [0x0a])) buf ses
        = ident_loop te (map (\<lambda>c. (0, Rd_byte c)) (xs @ [0x0a])) (if c \<noteq> 0x0d then buf @ [c] else buf) ses"
      using Cons.prems by (subst ident_loop.simps) (auto simp: next_event_def p r)
    then show ?case using Cons.IH [of "if c \<noteq> 0x0d then buf @ [c] else buf"] Cons.prems by (simp split: if_splits)
  }
qed

text \<open>
  The version line of the server is one the server itself accepts: when no call of \<^verbatim>\<open>send\<close> fails it goes out whole and once, in however many pieces and whatever interruptions, and a peer that reads
  these bytes before its time is up knows the identification without its end of line.
\<close>

theorem version_line_roundtrip:
  assumes "\<forall>a\<in>set ans. a = Send_intr \<or> (\<exists>n. a = Sent (Suc n))" and "length identification \<le> length (filter (\<lambda>a. a \<noteq> Send_intr) ans)"
    and "\<not> au_authdone (authstate peer)" and "remoteident peer = None" and "clock peer - connect_time peer < AUTH_TIMEOUT"
  shows "send_session_identification ans ses = Some (Inr (ses\<lparr>socket_output := socket_output ses @ identification\<rparr>))
    \<and> read_session_identification te (map (\<lambda>c. (0, Rd_byte c)) identification) peer = Some (Inr (peer\<lparr>remoteident := Some LOCAL_IDENT\<rparr>))"
proof
  show "send_session_identification ans ses = Some (Inr (ses\<lparr>socket_output := socket_output ses @ identification\<rparr>))"
    using send_ident_loop_progress [OF assms(1), of 0 ses] assms(2) by (simp add: send_session_identification_def)
  have line: "0x0a \<notin> set (LOCAL_IDENT @ [0x0d])" "filter (\<lambda>c. c \<noteq> 0x0d) (LOCAL_IDENT @ [0x0d]) = LOCAL_IDENT" "length LOCAL_IDENT < 255" by code_simp+
  have "before_ident peer" using assms(3,4) by (simp add: before_ident_def)
  from ident_loop_line [OF this assms(5) line(1), where buf = "[]" and te = te] line(2,3)
  have "ident_loop te (map (\<lambda>c. (0, Rd_byte c)) identification) [] peer = Some (Inr (Some LOCAL_IDENT, peer))" by (simp add: identification_def)
  moreover have "ident_of (Some LOCAL_IDENT) peer = Inr (peer\<lparr>remoteident := Some LOCAL_IDENT\<rparr>)"
  proof -
    have facts: "take 4 (LOCAL_IDENT @ [0]) = str ''SSH-''" "takeWhile (\<lambda>c. c \<noteq> 0) LOCAL_IDENT = LOCAL_IDENT" "take 6 LOCAL_IDENT = str ''SSH-2.''" by code_simp+
    show ?thesis by (simp add: ident_of_def Let_def facts del: take_append)
  qed
  ultimately show "read_session_identification te (map (\<lambda>c. (0, Rd_byte c)) identification) peer = Some (Inr (peer\<lparr>remoteident := Some LOCAL_IDENT\<rparr>))"
    by (simp add: read_session_identification_def)
qed

theorem version_line_roundtrip_witness:
  "send_session_identification (replicate 26 (Sent 1)) ses_zero = Some (Inr (ses_zero\<lparr>socket_output := socket_output ses_zero @ identification\<rparr>))
    \<and> read_session_identification toy_timers (map (\<lambda>c. (0, Rd_byte c)) identification) ses_zero = Some (Inr (ses_zero\<lparr>remoteident := Some LOCAL_IDENT\<rparr>))"
proof -
  have "length identification \<le> length (filter (\<lambda>a. a \<noteq> Send_intr) (replicate 26 (Sent 1)))" by code_simp
  then show ?thesis by (intro version_line_roundtrip) (simp_all add: ses_zero_def authstate_zero_def)
qed

section \<open>Limits are kept\<close>










end
