(* ===== verification/Spec2Isabelle.thy ===== *)
theory Spec2Isabelle
  imports Kex Dispatch Server Handshake Auth Timers
begin

text \<open>
  A verification library for the PS4 port of the Dropbear SSH server (src/dropbear/src).

  \<^bold>\<open>The program.\<close> One process serves one client over a socket. Bytes come in through the packet layer, which decrypts them and checks their MAC; a message goes to the handler of its type, when the state of the key
  exchange and of the authentication allows it; the handlers of the connection protocol work on a table of channels. Since the console has no child processes, a session channel runs its commands in the server: a shell
  with built-in commands, and a copy service for \<^verbatim>\<open>scp\<close>, both on a worker thread behind a socket pair. Answers are built in a byte buffer, sealed, put in a queue and written when the socket takes them.
  The global \<^verbatim>\<open>ses\<close> of the source is the record \<open>sshsession\<close>, which every operation takes and returns. In it is also what the outside world does: the pieces the socket delivers and takes, descriptors, files, the clock,
  the random stream. An operation gives a value or the way the daemon stops (\<open>Exit\<close> and \<open>Close\<close> for \<^verbatim>\<open>dropbear_exit\<close> and \<^verbatim>\<open>dropbear_close\<close>, a failed assertion, or \<open>Mem_fault\<close> for an access outside the
  memory of a buffer), so that a theorem that excludes \<open>Mem_fault\<close> is one on memory safety. Integers have the width of the source.

  \<^bold>\<open>Foundations.\<close>
  \<^item> \<^verbatim>\<open>Prelude\<close>: machine integers, results and their sequencing, checked memory accesses, the predicates \<open>safe\<close> and \<open>memsafe\<close> on results in which the contracts are stated.
  \<^item> \<^verbatim>\<open>Buffer\<close> (buffer.c, and what it uses of LibTomMath and LibTomCrypt): the byte buffer. Any sequence of calls keeps it well formed and inside its memory. The locale \<open>wire_codec\<close> is the contract of a pair of functions that
    write and read a value; it is interpreted on bytes, integers, strings and multiple precision integers, and in \<^verbatim>\<open>Signkey\<close> on public keys.
  \<^item> \<^verbatim>\<open>Fifo\<close>, \<^verbatim>\<open>Circbuffer\<close> (circbuffer.c), \<^verbatim>\<open>Queue\<close> (queue.c, netio.c): the locale \<open>fifo_store\<close> is a first-in first-out store against lists; it is interpreted on the ring buffer and on the linked queue, whose
    nodes are in an explicit heap.

  \<^bold>\<open>Transport.\<close>
  \<^item> \<^verbatim>\<open>Session\<close> (session.h, common-session.c): the session, its structures and its initial state.
  \<^item> \<^verbatim>\<open>Packet\<close> and \<^verbatim>\<open>Receive\<close> (packet.c): sending and receiving. Sending cannot fail and frames, seals and queues a message; what a sender in step has sealed arrives unchanged and in order however the stream is cut; for any
    bytes of a peer the receiver stays in its memory, and it delivers only what the MAC covers. The locale \<open>transport\<close> is what the layers above rely on when they send, interpreted on \<^const>\<open>encrypt_packet\<close>.
  \<^item> \<^verbatim>\<open>Algo\<close> (common-algo.c): name lists; both ends of a negotiation choose the same algorithm.
  \<^item> \<^verbatim>\<open>Kex\<close> (common-kex.c, svr-kex.c): the exchange on the server's side; the derived keys are those of RFC 4253, and the switch of keys happens exactly at the NEWKEYS message.
  \<^item> \<^verbatim>\<open>Dispatch\<close> (process-packet.c): which message is handled when; nothing of the connection protocol before the authentication, nothing but the required message in a strict first exchange.
  \<^item> \<^verbatim>\<open>Timers\<close> (common-session.c): the version lines and the limits of a session. Waiting for the line of the peer ends, and limits are neither slept through nor forgotten.

  \<^bold>\<open>Authentication.\<close>
  \<^item> \<^verbatim>\<open>Signkey\<close> (signkey.c, rsa.c, ed25519.c, sk-ed25519.c): public keys and the check of signatures. Keys are read back as they are written, and what is accepted as a key with a signature is said on the wire, as equations on its bytes.
  \<^item> \<^verbatim>\<open>Authkeys\<close> (svr-authpubkey.c, svr-authpubkeyoptions.c): the file of authorized keys. A key is accepted only when a line holds it; printed options are parsed back; what quotes, blank lines and long lines do.
  \<^item> \<^verbatim>\<open>Auth\<close> (svr-auth.c, svr-authpasswd.c, svr-authpubkey.c, svr-service.c): requests, accounts, passwords and keys. Nobody is authenticated without credentials, which for a key are
    a signature of the session identifier and of the bytes of the request; guesses are limited on a server that asks for one method.
  \<^item> \<^verbatim>\<open>PubkeyOptions\<close> (svr-authpubkeyoptions.c): the questions the server asks about the options of a key.

  \<^bold>\<open>Connection.\<close>
  \<^item> \<^verbatim>\<open>Listen\<close> (listener.c): the table of listening sockets.
  \<^item> \<^verbatim>\<open>Channel\<close> (common-channel.c): the table of channels, windows, the data path and the close handshake. The locale \<open>channel_handlers\<close> is the contract of the functions a channel type points to; the lemmas on the channel layer
    are proved in it.
  \<^item> \<^verbatim>\<open>Agentfwd\<close> (svr-agentfwd.c), \<^verbatim>\<open>Chansess\<close> and \<^verbatim>\<open>Terminal\<close> (svr-chansession.c): the agent's socket, the requests of a session channel, the in-process commands and the line editor of the interactive shell.
  \<^item> \<^verbatim>\<open>Server\<close> (svr-session.c): the channel types put together. It interprets \<open>channel_handlers\<close> on the server's own handlers, and shows that no sequence of messages, event rounds and ends of workers leaves the tables in
    disorder, that channel data is conserved, and that windows are respected.
  \<^item> \<^verbatim>\<open>Handshake\<close> (svr-chansession.c): the main thread and a worker as interleaved atomic steps; the descriptor they share is closed once, and freeing a channel always ends.

  \<^bold>\<open>Shell and copy service.\<close>
  \<^item> \<^verbatim>\<open>Ps4State\<close>, \<^verbatim>\<open>Ps4Fs\<close>: the file system, of which any call may fail and any read or write be short.
  \<^item> \<^verbatim>\<open>Ps4Shell\<close>, \<^verbatim>\<open>Ps4Commands\<close> (ps4-shell.c): paths, words and all commands. The arrays of the commands have their lengths, and a byte stored
    behind one is a fault. Resolution agrees with walking the path, quoted words come back, every command ends inside its arrays, and what \<^verbatim>\<open>tail\<close> and \<^verbatim>\<open>cp\<close> produce.
  \<^item> \<^verbatim>\<open>Ps4Scp\<close> (ps4-scp.c): both directions of a transfer. A file arrives as it was sent, an incomplete transfer changes nothing, and an upload stays below its target.

  \<^bold>\<open>Loops and bounds.\<close> Most loops are structural or have a termination proof. Copying a file has the size of the source plus one as fuel, since every round that goes on has read at least a byte. The directory of the agent's
  socket is tried 20 times, as in the source. The loop that reads the version line is a partial function, and shown to end: every round takes an answer of the system or a second of the time for the authentication.
  Round trips of packets use a bound on the number of calls of \<^verbatim>\<open>read_packet\<close>, one for every byte of the longest packet, that is enough when every call delivers a byte.

  \<^bold>\<open>Parameters.\<close> Ciphers, MACs, hashes and the random generator are functions of a record, as they are function pointers in the source; what a theorem needs of them (that decrypting undoes encrypting, that lengths are kept, that a cipher with its own
  authentication succeeds on 16 to 35000 bytes, the sizes of the packets) is a hypothesis, and the witnesses give concrete functions. So are the key agreement inside the reply of the exchange, SHA-256, the Ed25519 equation, \<^verbatim>\<open>crypt\<close> and the account database.

  \<^bold>\<open>Not modelled.\<close> LibTomCrypt, LibTomMath and the key agreement methods, beyond what is named above: third-party or cryptographic arithmetic. Compression, ECDSA, DSS and PAM: not in the build. The client, the stand-alone
  \<^verbatim>\<open>scp\<close>, key generation and conversion, the fuzzing harness and the installer: other programs. Port, stream and X11 forwarding, socket set-up, command line, pseudo terminals, login records and the
  runtime of the console: system calls with little logic of their own. The main loop \<^verbatim>\<open>session_loop\<close> is modelled by its parts, the channel events in \<^verbatim>\<open>Server\<close> and the limits in \<^verbatim>\<open>Timers\<close>, not as one function. Memory
  allocation does not fail: \<^verbatim>\<open>m_malloc\<close> ends the process when it does, and the branches of the shell and of the copy service behind a failed \<^verbatim>\<open>malloc\<close> are left out.
\<close>

end
